(* ===== verification/Prelude.thy ===== *)
theory Prelude
  imports Main "HOL-Library.List_Lexorder" "HOL-Library.Sublist"
begin

text \<open>
  What every component of the development shares: the collections of rewrite rules the component
  proofs name, the result type of fallible code with the propagation of an error by Rust's
  question mark, saturating machine arithmetic written out over \<open>nat\<close>, and Rust's ordered map
  \<open>BTreeMap\<close> as a sorted association list behind an interface.
\<close>

named_theorems result_simps \<open>rewrite rules for the propagation of errors\<close>
named_theorems u_defs \<open>definitions of the machine integer operations\<close>
named_theorems map_simps \<open>what a lookup answers after each operation of an ordered map\<close>


section \<open>Results and the question mark\<close>

text \<open>
  A Rust \<open>Result<T, E>\<close> is the sum \<open>'e + 'a\<close>: \<open>Inl\<close> is \<open>Err\<close> and \<open>Inr\<close> is \<open>Ok\<close>.
  \<open>and_then r f\<close> is \<open>let x = r?; f(x)\<close>.
\<close>

definition and_then :: "'e + 'a \<Rightarrow> ('a \<Rightarrow> 'e + 'b) \<Rightarrow> 'e + 'b" where
  "and_then r f = (case r of Inl e \<Rightarrow> Inl e | Inr x \<Rightarrow> f x)"

definition is_ok :: "'e + 'a \<Rightarrow> bool" where
  "is_ok r = (case r of Inl _ \<Rightarrow> False | Inr _ \<Rightarrow> True)"

definition map_err :: "('e \<Rightarrow> 'f) \<Rightarrow> 'e + 'a \<Rightarrow> 'f + 'a" where
  "map_err g r = (case r of Inl e \<Rightarrow> Inl (g e) | Inr x \<Rightarrow> Inr x)"

definition ok_or :: "'e \<Rightarrow> 'a option \<Rightarrow> 'e + 'a" where
  "ok_or e v = (case v of None \<Rightarrow> Inl e | Some x \<Rightarrow> Inr x)"

lemma and_then_simps [simp, result_simps]:
  "and_then (Inl e) f = Inl e"
  "and_then (Inr x) f = f x"
  by (simp_all add: and_then_def)

lemma and_then_eq_Inr [result_simps]:
  "and_then r f = Inr y \<longleftrightarrow> (\<exists>x. r = Inr x \<and> f x = Inr y)"
  by (cases r) simp_all

lemma and_then_eq_Inl [result_simps]:
  "and_then r f = Inl e \<longleftrightarrow> r = Inl e \<or> (\<exists>x. r = Inr x \<and> f x = Inl e)"
  by (cases r) simp_all

lemma is_ok_simps [simp]: "is_ok (Inr x)" "\<not> is_ok (Inl e)"
  by (simp_all add: is_ok_def)

lemma is_ok_iff: "is_ok r \<longleftrightarrow> (\<exists>x. r = Inr x)"
  by (cases r) simp_all

lemma map_err_simps [simp, result_simps]:
  "map_err g (Inl e) = Inl (g e)"
  "map_err g (Inr x) = Inr x"
  "map_err g r = Inr x \<longleftrightarrow> r = Inr x"
  by (simp_all add: map_err_def split: sum.splits)

lemma ok_or_simps [simp, result_simps]:
  "ok_or e None = Inl e"
  "ok_or e (Some x) = Inr x"
  "ok_or e v = Inr x \<longleftrightarrow> v = Some x"
  by (simp_all add: ok_or_def split: option.splits)

text \<open>A loop that pushes onto a vector and returns at the first error.\<close>

fun collect_ok :: "('a \<Rightarrow> 'e + 'b) \<Rightarrow> 'a list \<Rightarrow> 'e + 'b list" where
  "collect_ok f [] = Inr []"
| "collect_ok f (x # xs) =
     and_then (f x) (\<lambda>y. and_then (collect_ok f xs) (\<lambda>ys. Inr (y # ys)))"

lemma collect_ok_length: "collect_ok f xs = Inr ys \<Longrightarrow> length ys = length xs"
  by (induction xs arbitrary: ys) (auto simp: result_simps)

lemma collect_ok_all: "(\<And>x. x \<in> set xs \<Longrightarrow> f x = Inr (g x)) \<Longrightarrow> collect_ok f xs = Inr (map g xs)"
  by (induction xs) auto

lemma collect_ok_nth:
  "collect_ok f xs = Inr ys \<Longrightarrow> i < length xs \<Longrightarrow> f (xs ! i) = Inr (ys ! i)"
proof (induction xs arbitrary: ys i)
  case Nil
  then show ?case by simp
next
  case (Cons x xs)
  then show ?case by (cases i) (auto simp: result_simps)
qed

text \<open>The first answer a check gives over a list: a loop of early returns.\<close>

fun first_some :: "('a \<Rightarrow> 'b option) \<Rightarrow> 'a list \<Rightarrow> 'b option" where
  "first_some f [] = None"
| "first_some f (x # xs) = (case f x of None \<Rightarrow> first_some f xs | Some y \<Rightarrow> Some y)"

lemma first_some_None: "first_some f xs = None \<longleftrightarrow> (\<forall>x \<in> set xs. f x = None)"
  by (induction xs) (auto split: option.splits)

lemma first_some_mem: "first_some f xs = Some y \<Longrightarrow> \<exists>x \<in> set xs. f x = Some y"
  by (induction xs) (auto split: option.splits)

text \<open>A search by a key that tells the entries apart finds the entry.\<close>

lemma find_key:
  "distinct (map f xs) \<Longrightarrow> x \<in> set xs \<Longrightarrow> find (\<lambda>y. f y = f x) xs = Some x"
  by (induction xs) (auto simp: image_iff)


section \<open>Machine integers\<close>

text \<open>
  Unsigned integers are natural numbers below a bound; the operations the source uses on them
  (saturating and checked ones) are written out with that bound.
\<close>

definition u8_max :: nat where [u_defs]: "u8_max = 255"
definition u32_max :: nat where [u_defs]: "u32_max = 4294967295"
definition u64_max :: nat where [u_defs]: "u64_max = 18446744073709551615"
definition u128_max :: nat where [u_defs]: "u128_max = 340282366920938463463374607431768211455"

definition sat_add :: "nat \<Rightarrow> nat \<Rightarrow> nat \<Rightarrow> nat" where
  "sat_add m a b = min m (a + b)"

definition sat_mul :: "nat \<Rightarrow> nat \<Rightarrow> nat \<Rightarrow> nat" where
  "sat_mul m a b = min m (a * b)"

definition checked_add :: "nat \<Rightarrow> nat \<Rightarrow> nat \<Rightarrow> nat option" where
  "checked_add m a b = (if a + b \<le> m then Some (a + b) else None)"

definition checked_mul :: "nat \<Rightarrow> nat \<Rightarrow> nat \<Rightarrow> nat option" where
  "checked_mul m a b = (if a * b \<le> m then Some (a * b) else None)"

text \<open>\<open>saturating_sub\<close> is the truncating subtraction of \<open>nat\<close>.\<close>

lemma sat_add_exact [simp]: "a + b \<le> m \<Longrightarrow> sat_add m a b = a + b"
  by (simp add: sat_add_def)

lemma sat_add_le [simp]: "sat_add m a b \<le> m"
  by (simp add: sat_add_def)

lemma sat_add_ge: "a \<le> m \<Longrightarrow> a \<le> sat_add m a b"
  by (simp add: sat_add_def)

lemma sat_mul_exact [simp]: "a * b \<le> m \<Longrightarrow> sat_mul m a b = a * b"
  by (simp add: sat_mul_def)

lemma sat_mul_le [simp]: "sat_mul m a b \<le> m"
  by (simp add: sat_mul_def)

lemma fold_sat_add:
  assumes "a + sum_list xs \<le> m"
  shows "fold (\<lambda>x held. sat_add m held x) xs a = a + sum_list xs"
  using assms by (induction xs arbitrary: a) auto


section \<open>Ordered maps\<close>

text \<open>
  A \<open>BTreeMap\<close> iterates in key order and holds one value per key. It is modelled by the list of
  its entries in that order.
\<close>

type_synonym ('k, 'v) btree = "('k \<times> 'v) list"

definition bt_wf :: "('k::linorder, 'v) btree \<Rightarrow> bool" where
  "bt_wf m \<longleftrightarrow> sorted_wrt (<) (map fst m)"

definition bt_empty :: "('k, 'v) btree" where
  "bt_empty = []"

definition bt_get :: "('k, 'v) btree \<Rightarrow> 'k \<Rightarrow> 'v option" where
  "bt_get m k = map_of m k"

fun bt_insert :: "'k::linorder \<Rightarrow> 'v \<Rightarrow> ('k, 'v) btree \<Rightarrow> ('k, 'v) btree" where
  "bt_insert k v [] = [(k, v)]"
| "bt_insert k v ((k', v') # m) =
     (if k < k' then (k, v) # (k', v') # m
      else if k = k' then (k, v) # m
      else (k', v') # bt_insert k v m)"

definition bt_remove :: "'k \<Rightarrow> ('k, 'v) btree \<Rightarrow> ('k, 'v) btree" where
  "bt_remove k m = filter (\<lambda>e. fst e \<noteq> k) m"

definition bt_update :: "('v \<Rightarrow> 'v) \<Rightarrow> 'k \<Rightarrow> ('k, 'v) btree \<Rightarrow> ('k, 'v) btree" where
  "bt_update f k m = map (\<lambda>e. if fst e = k then (fst e, f (snd e)) else e) m"

definition bt_keys :: "('k, 'v) btree \<Rightarrow> 'k list" where
  "bt_keys m = map fst m"

lemma bt_wf_distinct: "bt_wf m \<Longrightarrow> distinct (map fst m)"
  unfolding bt_wf_def by (rule strict_sorted_iff [THEN iffD1, THEN conjunct2])

lemma set_bt_insert: "fst ` set (bt_insert k v m) = insert k (fst ` set m)"
  by (induction k v m rule: bt_insert.induct) auto

lemma bt_wf_Cons: "bt_wf ((k, v) # m) \<longleftrightarrow> (\<forall>k' \<in> fst ` set m. k < k') \<and> bt_wf m"
  by (auto simp: bt_wf_def)

lemma bt_wf_insert: "bt_wf m \<Longrightarrow> bt_wf (bt_insert k v m)"
proof (induction k v m rule: bt_insert.induct)
  case (1 k v)
  then show ?case by (simp add: bt_wf_def)
next
  case (2 k v k' v' m)
  then show ?case
    by (auto simp: bt_wf_Cons set_bt_insert simp del: image_iff)
qed

lemma bt_get_insert: "bt_get (bt_insert k v m) x = (if x = k then Some v else bt_get m x)"
  by (induction k v m rule: bt_insert.induct) (auto simp: bt_get_def)

lemma bt_get_remove: "bt_get (bt_remove k m) x = (if x = k then None else bt_get m x)"
  by (induction m) (auto simp: bt_get_def bt_remove_def)

lemma bt_wf_remove: "bt_wf m \<Longrightarrow> bt_wf (bt_remove k m)"
  by (induction m) (auto simp: bt_wf_def bt_remove_def)

lemma bt_keys_update [simp]: "bt_keys (bt_update f k m) = bt_keys m"
  by (induction m) (auto simp: bt_keys_def bt_update_def)

lemma bt_wf_update: "bt_wf m \<Longrightarrow> bt_wf (bt_update f k m)"
  using bt_keys_update [of f k m] by (simp add: bt_wf_def bt_keys_def)

lemma bt_get_update: "bt_get (bt_update f k m) x = (if x = k then map_option f (bt_get m x) else bt_get m x)"
  by (induction m) (auto simp: bt_get_def bt_update_def)

lemma bt_keys_iff: "k \<in> set (bt_keys m) \<longleftrightarrow> bt_get m k \<noteq> None"
  by (force simp: bt_keys_def bt_get_def map_of_eq_None_iff)

lemma bt_entry_get: "bt_wf m \<Longrightarrow> (k, v) \<in> set m \<longleftrightarrow> bt_get m k = Some v"
  by (simp add: bt_get_def bt_wf_distinct)

lemma bt_keys_sorted: "bt_wf m \<Longrightarrow> sorted_wrt (<) (bt_keys m)"
  by (simp add: bt_wf_def bt_keys_def)

text \<open>
  The interface a client of \<open>BTreeMap\<close> relies on: what a lookup answers after each operation,
  that the keys come in order, and that every operation keeps the representation well formed.
\<close>

locale ordered_map =
  fixes empty :: "'m"
    and get :: "'m \<Rightarrow> 'k::linorder \<Rightarrow> 'v option"
    and insert :: "'k \<Rightarrow> 'v \<Rightarrow> 'm \<Rightarrow> 'm"
    and remove :: "'k \<Rightarrow> 'm \<Rightarrow> 'm"
    and keys :: "'m \<Rightarrow> 'k list"
    and wf :: "'m \<Rightarrow> bool"
  assumes get_empty: "get empty k = None"
    and get_insert: "wf m \<Longrightarrow> get (insert k v m) x = (if x = k then Some v else get m x)"
    and get_remove: "wf m \<Longrightarrow> get (remove k m) x = (if x = k then None else get m x)"
    and keys_iff: "wf m \<Longrightarrow> k \<in> set (keys m) \<longleftrightarrow> get m k \<noteq> None"
    and keys_ordered: "wf m \<Longrightarrow> sorted_wrt (<) (keys m)"
    and wf_empty: "wf empty"
    and wf_insert: "wf m \<Longrightarrow> wf (insert k v m)"
    and wf_remove: "wf m \<Longrightarrow> wf (remove k m)"
begin

definition insert_all :: "('k \<times> 'v) list \<Rightarrow> 'm \<Rightarrow> 'm" where
  "insert_all es m = fold (\<lambda>e. insert (fst e) (snd e)) es m"

lemma wf_insert_all: "wf m \<Longrightarrow> wf (insert_all es m)"
  by (induction es arbitrary: m) (auto simp: insert_all_def wf_insert)

lemma insert_remove_absorb: "wf m \<Longrightarrow> get (insert k v (remove k m)) = get (insert k v m)"
  by (auto simp: fun_eq_iff get_insert get_remove wf_remove)

lemma keys_distinct: "wf m \<Longrightarrow> distinct (keys m)"
  using keys_ordered [of m] strict_sorted_iff by blast

lemma keys_insert: "wf m \<Longrightarrow> set (keys (insert k v m)) = Set.insert k (set (keys m))"
  by (auto simp: keys_iff wf_insert get_insert split: if_splits)

lemma keys_eqI:
  assumes "wf m" "wf m'" "\<And>k. get m k = None \<longleftrightarrow> get m' k = None"
  shows "keys m = keys m'"
proof (rule sorted_distinct_set_unique)
  show "sorted (keys m)" "distinct (keys m)" "sorted (keys m')" "distinct (keys m')"
    using assms(1,2) keys_ordered strict_sorted_iff by blast+
  show "set (keys m) = set (keys m')"
    using assms by (auto simp: keys_iff)
qed

end

interpretation bt: ordered_map bt_empty bt_get bt_insert bt_remove bt_keys bt_wf
  by unfold_locales
    (simp_all add: bt_get_insert bt_get_remove bt_keys_iff bt_keys_sorted bt_wf_insert
      bt_wf_remove, simp_all add: bt_empty_def bt_get_def bt_wf_def)

lemmas [map_simps] = bt_get_insert bt_get_remove bt_get_update


section \<open>Regions of a tree\<close>

text \<open>
  Places in a directory tree, and nodes in a plan, are compared by which lies under which. The
  contract: lying under is a partial order in which the places above one place form a chain.
  Two regions then have a place in common exactly when one contains the other.
\<close>

locale region_order =
  fixes within :: "'a \<Rightarrow> 'a \<Rightarrow> bool"
  assumes within_refl: "within x x"
    and within_trans: "within x y \<Longrightarrow> within y z \<Longrightarrow> within x z"
    and within_antisym: "within x y \<Longrightarrow> within y x \<Longrightarrow> x = y"
    and within_chain: "within x a \<Longrightarrow> within x b \<Longrightarrow> within a b \<or> within b a"
begin

lemma overlap_iff: "(\<exists>x. within x a \<and> within x b) \<longleftrightarrow> within a b \<or> within b a"
  using within_refl within_chain by blast

lemma covered_down:
  "(\<exists>p \<in> set ps. within x p) \<Longrightarrow> within y x \<Longrightarrow> (\<exists>p \<in> set ps. within y p)"
  using within_trans by blast

lemma covered_mono:
  "(\<And>p. p \<in> set ps \<Longrightarrow> \<exists>q \<in> set qs. within p q) \<Longrightarrow>
   (\<exists>p \<in> set ps. within x p) \<Longrightarrow> (\<exists>q \<in> set qs. within x q)"
  using within_trans by blast

lemma disjoint_split: "\<not> within a b \<Longrightarrow> \<not> within b a \<Longrightarrow> within x a \<Longrightarrow> \<not> within x b"
  using within_chain by blast

end

end
