(* ===== verification/Text.thy ===== *)
theory Text
  imports Prelude
begin

text \<open>
  Rust's \<open>str\<close> as the list of its Unicode scalar values, and the functions of the standard
  library the kernel calls on it: splitting, joining, trimming, ASCII case folding, decimal
  parsing and printing. Comparing two strings byte by byte in UTF-8 and comparing the lists of
  their scalar values lexicographically is the same order, so \<open>Ord\<close> on \<open>String\<close> is the
  library's lexicographic order on lists.
\<close>

type_synonym codepoint = nat
type_synonym rstr = "codepoint list"

named_theorems text_eval \<open>rules that evaluate text operations on literals\<close>

text \<open>A string literal of the source, written as an Isabelle string of ASCII characters.\<close>

definition lit :: "string \<Rightarrow> rstr" where
  "lit s = map of_char s"

lemma lit_cong [cong]: "lit s = lit s"
  by (rule refl)

lemma lit_eval [text_eval]: "lit [] = []" "lit (c # cs) = of_char c # lit cs"
  by (simp_all add: lit_def)

lemma length_lit [simp]: "length (lit s) = length s"
  by (simp add: lit_def)

lemma lit_Nil_iff [simp]: "lit s = [] \<longleftrightarrow> s = []"
  by (simp add: lit_def)

lemma lit_inject [simp]: "lit s = lit t \<longleftrightarrow> s = t"
  unfolding lit_def by (rule inj_map_eq_map) (simp add: inj_def)

abbreviation chr :: "char \<Rightarrow> codepoint" where
  "chr c \<equiv> of_char c"


section \<open>Classes of characters\<close>

definition is_control :: "codepoint \<Rightarrow> bool" where
  "is_control c \<longleftrightarrow> c \<le> 31 \<or> (127 \<le> c \<and> c \<le> 159)"

definition is_whitespace :: "codepoint \<Rightarrow> bool" where
  "is_whitespace c \<longleftrightarrow>
     (9 \<le> c \<and> c \<le> 13) \<or> c = 32 \<or> c = 133 \<or> c = 160 \<or> c = 5760 \<or>
     (8192 \<le> c \<and> c \<le> 8202) \<or> c = 8232 \<or> c = 8233 \<or> c = 8239 \<or> c = 8287 \<or> c = 12288"

definition is_ascii_digit :: "codepoint \<Rightarrow> bool" where
  "is_ascii_digit c \<longleftrightarrow> 48 \<le> c \<and> c \<le> 57"

definition to_ascii_lowercase :: "codepoint \<Rightarrow> codepoint" where
  "to_ascii_lowercase c = (if 65 \<le> c \<and> c \<le> 90 then c + 32 else c)"

definition eq_ignore_ascii_case :: "rstr \<Rightarrow> rstr \<Rightarrow> bool" where
  "eq_ignore_ascii_case s t \<longleftrightarrow> map to_ascii_lowercase s = map to_ascii_lowercase t"

lemma digit_not_whitespace [simp]: "is_ascii_digit c \<Longrightarrow> \<not> is_whitespace c"
  by (auto simp: is_ascii_digit_def is_whitespace_def)

lemma eq_ignore_ascii_case_refl [simp]: "eq_ignore_ascii_case s s"
  by (simp add: eq_ignore_ascii_case_def)


section \<open>Splitting and joining\<close>

text \<open>\<open>str::split\<close> on one character: n separators make n + 1 pieces, empty ones included.\<close>

fun split_on :: "'a \<Rightarrow> 'a list \<Rightarrow> 'a list list" where
  "split_on c [] = [[]]"
| "split_on c (x # xs) =
     (if x = c then [] # split_on c xs
      else (case split_on c xs of [] \<Rightarrow> [[x]] | y # ys \<Rightarrow> (x # y) # ys))"

text \<open>\<open>[T]::join\<close> with a separator string.\<close>

fun join_with :: "'a list \<Rightarrow> 'a list list \<Rightarrow> 'a list" where
  "join_with sep [] = []"
| "join_with sep [x] = x"
| "join_with sep (x # y # ys) = x @ sep @ join_with sep (y # ys)"

lemma split_on_not_Nil [simp]: "split_on c s \<noteq> []"
  by (induction s) (auto split: list.splits)

lemma split_on_no_sep: "c \<notin> set s \<Longrightarrow> split_on c s = [s]"
  by (induction s) auto

lemma join_split: "join_with [c] (split_on c s) = s"
proof (induction s)
  case Nil
  then show ?case by simp
next
  case (Cons x xs)
  obtain y ys where ys: "split_on c xs = y # ys"
    by (cases "split_on c xs") auto
  with Cons.IH show ?case by (cases ys) auto
qed

lemma split_on_pieces: "p \<in> set (split_on c s) \<Longrightarrow> c \<notin> set p"
proof (induction s arbitrary: p)
  case Nil
  then show ?case by simp
next
  case (Cons x xs)
  obtain y ys where ys: "split_on c xs = y # ys"
    by (cases "split_on c xs") auto
  with Cons show ?case by (auto split: if_splits)
qed

lemma split_on_append_sep: "c \<notin> set p \<Longrightarrow> split_on c (p @ c # s) = p # split_on c s"
  by (induction p) auto

lemma split_on_append: "split_on c (s @ c # t) = split_on c s @ split_on c t"
proof (induction s)
  case Nil
  then show ?case by simp
next
  case (Cons x s)
  then show ?case by (cases "split_on c s") auto
qed

lemma split_join:
  "ps \<noteq> [] \<Longrightarrow> (\<And>p. p \<in> set ps \<Longrightarrow> c \<notin> set p) \<Longrightarrow> split_on c (join_with [c] ps) = ps"
proof (induction "[c]" ps rule: join_with.induct)
  case (3 x y ys)
  then show ?case by (simp add: split_on_append_sep)
qed (auto simp: split_on_no_sep)

lemma split_on_inject: "split_on c s = split_on c t \<Longrightarrow> s = t"
  by (metis join_split)

lemma set_split_on: "p \<in> set (split_on c s) \<Longrightarrow> set p \<subseteq> set s"
proof (induction s arbitrary: p)
  case Nil
  then show ?case by simp
next
  case (Cons x xs)
  obtain y ys where "split_on c xs = y # ys"
    by (cases "split_on c xs") auto
  with Cons show ?case by (fastforce split: if_splits)
qed

lemma length_split_on: "length (split_on c s) = Suc (count_list s c)"
proof (induction s)
  case Nil
  then show ?case by simp
next
  case (Cons x s)
  then show ?case by (cases "split_on c s") auto
qed

lemma join_with_append:
  "xs \<noteq> [] \<Longrightarrow> ys \<noteq> [] \<Longrightarrow> join_with sep (xs @ ys) = join_with sep xs @ sep @ join_with sep ys"
proof (induction sep xs rule: join_with.induct)
  case (2 sep x)
  then show ?case by (cases ys) auto
qed auto

lemma join_hd: "xs \<noteq> [] \<Longrightarrow> hd xs \<noteq> [] \<Longrightarrow> hd (join_with sep xs) = hd (hd xs)"
  by (cases xs rule: remdups_adj.cases) auto

lemma join_last: "xs \<noteq> [] \<Longrightarrow> last xs \<noteq> [] \<Longrightarrow> last (join_with sep xs) = last (last xs)"
proof (cases xs rule: rev_cases)
  case (snoc ys y)
  assume "last xs \<noteq> []"
  with snoc show ?thesis by (cases "ys = []") (simp_all add: join_with_append)
qed simp

lemma set_join: "set (join_with sep xs) \<subseteq> set sep \<union> (\<Union>x \<in> set xs. set x)"
  by (induction sep xs rule: join_with.induct) auto

text \<open>\<open>split_once\<close> cuts at the first occurrence, \<open>rsplit_once\<close> at the last.\<close>

fun split_once :: "'a \<Rightarrow> 'a list \<Rightarrow> ('a list \<times> 'a list) option" where
  "split_once c [] = None"
| "split_once c (x # xs) =
     (if x = c then Some ([], xs) else map_option (\<lambda>(a, b). (x # a, b)) (split_once c xs))"

definition rsplit_once :: "'a \<Rightarrow> 'a list \<Rightarrow> ('a list \<times> 'a list) option" where
  "rsplit_once c s = map_option (\<lambda>(a, b). (rev b, rev a)) (split_once c (rev s))"

lemma split_once_None: "split_once c s = None \<longleftrightarrow> c \<notin> set s"
  by (induction s) auto

lemma split_once_Some: "split_once c s = Some (a, b) \<longleftrightarrow> s = a @ c # b \<and> c \<notin> set a"
proof (induction s arbitrary: a)
  case Nil
  then show ?case by simp
next
  case (Cons x s)
  then show ?case by (cases a) auto
qed

lemma sep_unique: "c \<notin> set a \<Longrightarrow> c \<notin> set b \<Longrightarrow> a @ c # x = b @ c # y \<longleftrightarrow> a = b \<and> x = y"
  using split_once_Some [of c "a @ c # x" a x] split_once_Some [of c "a @ c # x" b y] by auto

lemma rsplit_once_None: "rsplit_once c s = None \<longleftrightarrow> c \<notin> set s"
  by (simp add: rsplit_once_def split_once_None)

lemma rsplit_once_Some: "rsplit_once c s = Some (a, b) \<longleftrightarrow> s = a @ c # b \<and> c \<notin> set b"
proof -
  have "rsplit_once c s = Some (a, b) \<longleftrightarrow> split_once c (rev s) = Some (rev b, rev a)"
    by (auto simp: rsplit_once_def)
  also have "\<dots> \<longleftrightarrow> rev s = rev b @ c # rev a \<and> c \<notin> set b"
    by (simp add: split_once_Some)
  also have "rev s = rev b @ c # rev a \<longleftrightarrow> s = a @ c # b"
    using rev_is_rev_conv [of s "a @ c # b"] by simp
  finally show ?thesis .
qed

text \<open>\<open>rsplit(c).next()\<close>: the piece after the last separator, which is the last piece.\<close>

lemma last_split_on:
  "last (split_on c s) = (case rsplit_once c s of None \<Rightarrow> s | Some (_, b) \<Rightarrow> b)"
proof (cases "rsplit_once c s")
  case None
  then have "c \<notin> set s" by (simp add: rsplit_once_None)
  with None show ?thesis by (simp add: split_on_no_sep)
next
  case (Some ab)
  obtain a b where ab: "ab = (a, b)" by fastforce
  with Some have s: "s = a @ c # b" "c \<notin> set b" by (simp_all add: rsplit_once_Some)
  then have "last (split_on c s) = b" by (simp add: split_on_append split_on_no_sep)
  with Some ab show ?thesis by simp
qed


section \<open>Prefixes, suffixes and trimming\<close>

definition starts_with :: "'a list \<Rightarrow> 'a list \<Rightarrow> bool" where
  "starts_with p s \<longleftrightarrow> take (length p) s = p"

definition ends_with :: "'a list \<Rightarrow> 'a list \<Rightarrow> bool" where
  "ends_with p s \<longleftrightarrow> length p \<le> length s \<and> drop (length s - length p) s = p"

definition strip_prefix :: "'a list \<Rightarrow> 'a list \<Rightarrow> 'a list option" where
  "strip_prefix p s = (if starts_with p s then Some (drop (length p) s) else None)"

definition strip_suffix :: "'a list \<Rightarrow> 'a list \<Rightarrow> 'a list option" where
  "strip_suffix p s = (if ends_with p s then Some (take (length s - length p) s) else None)"

definition trim_start :: "rstr \<Rightarrow> rstr" where
  "trim_start s = dropWhile is_whitespace s"

definition trim_end :: "rstr \<Rightarrow> rstr" where
  "trim_end s = rev (dropWhile is_whitespace (rev s))"

definition trim :: "rstr \<Rightarrow> rstr" where
  "trim s = trim_end (trim_start s)"

lemma starts_with_iff: "starts_with p s \<longleftrightarrow> (\<exists>r. s = p @ r)"
  unfolding starts_with_def by (metis append_eq_conv_conj append_take_drop_id)

lemma ends_with_iff: "ends_with p s \<longleftrightarrow> (\<exists>r. s = r @ p)"
  unfolding ends_with_def
  by (metis append_eq_conv_conj append_take_drop_id diff_diff_cancel length_append length_drop
      le_add2 diff_add_inverse2)

lemma strip_prefix_Some: "strip_prefix p s = Some r \<longleftrightarrow> s = p @ r"
  by (auto simp: strip_prefix_def starts_with_def)
    (metis append_take_drop_id)

lemma strip_prefix_append [simp]: "strip_prefix p (p @ r) = Some r"
  by (simp add: strip_prefix_Some)

lemma strip_prefix_None: "strip_prefix p s = None \<longleftrightarrow> \<not> starts_with p s"
  by (simp add: strip_prefix_def)

lemma strip_suffix_Some: "strip_suffix p s = Some r \<longleftrightarrow> s = r @ p"
  by (auto simp: strip_suffix_def ends_with_def)
    (metis append_take_drop_id)

definition trimmed :: "rstr \<Rightarrow> bool" where
  "trimmed s \<longleftrightarrow> s = [] \<or> (\<not> is_whitespace (hd s) \<and> \<not> is_whitespace (last s))"

lemma dropWhile_last: "dropWhile P xs \<noteq> [] \<Longrightarrow> last (dropWhile P xs) = last xs"
  by (induction xs) (auto split: if_splits)

lemma trim_end_hd: "trim_end s \<noteq> [] \<Longrightarrow> hd (trim_end s) = hd s"
  unfolding trim_end_def
  by (metis dropWhile_last hd_rev rev_is_Nil_conv rev_rev_ident)

lemma trimmed_trim: "trimmed (trim s)"
proof (cases "trim s = []")
  case True
  then show ?thesis by (simp add: trimmed_def)
next
  case False
  let ?t = "trim_start s"
  have "\<not> is_whitespace (hd (trim s))"
  proof -
    from False have t: "trim_end ?t \<noteq> []" by (simp add: trim_def)
    then have "?t \<noteq> []" by (auto simp: trim_end_def)
    then have "\<not> is_whitespace (hd ?t)"
      unfolding trim_start_def by (rule hd_dropWhile)
    with trim_end_hd [OF t] show ?thesis by (simp add: trim_def)
  qed
  moreover have "\<not> is_whitespace (last (trim s))"
    using False hd_dropWhile [of is_whitespace "rev ?t"]
    by (auto simp: trim_def trim_end_def last_rev)
  ultimately show ?thesis by (simp add: trimmed_def)
qed

lemma trim_trimmed [simp]: "trimmed s \<Longrightarrow> trim s = s"
proof (cases s)
  case (Cons x xs)
  assume "trimmed s"
  with Cons have "\<not> is_whitespace x" and l: "\<not> is_whitespace (last (x # xs))"
    by (auto simp: trimmed_def)
  then have "trim_start s = x # xs"
    using Cons by (simp add: trim_start_def)
  moreover have "trim_end (x # xs) = x # xs"
  proof -
    obtain y ys where y: "rev (x # xs) = y # ys" by (cases "rev (x # xs)") auto
    with l have "\<not> is_whitespace y" by (metis hd_rev list.sel(1))
    with y show ?thesis by (metis dropWhile.simps(2) rev_rev_ident trim_end_def)
  qed
  ultimately show ?thesis using Cons by (simp add: trim_def)
qed (simp add: trim_def trim_start_def trim_end_def)

lemma trim_idem [simp]: "trim (trim s) = trim s"
  by (simp add: trimmed_trim)

lemma trim_Nil [simp]: "trim [] = []"
  by (simp add: trimmed_def)

lemma trim_start_pad: "is_whitespace w \<Longrightarrow> trim_start (w # s) = trim_start s"
  by (simp add: trim_start_def)

lemma trim_end_pad: "is_whitespace w \<Longrightarrow> trim_end (s @ [w]) = trim_end s"
  by (simp add: trim_end_def)

lemma trim_pad_left [simp]: "is_whitespace w \<Longrightarrow> trim (w # s) = trim s"
  by (simp add: trim_def trim_start_pad)

lemma trim_pad_right [simp]: "is_whitespace w \<Longrightarrow> trim (s @ [w]) = trim s"
proof (cases "\<forall>c \<in> set s. is_whitespace c")
  case True
  assume w: "is_whitespace w"
  from True have "dropWhile is_whitespace s = []" by (simp add: dropWhile_eq_Nil_conv)
  moreover from True w have "dropWhile is_whitespace (s @ [w]) = []"
    by (simp add: dropWhile_eq_Nil_conv)
  ultimately show ?thesis by (simp only: trim_def trim_start_def)
next
  case False
  assume "is_whitespace w"
  moreover from False have "trim_start (s @ [w]) = trim_start s @ [w]"
    by (auto simp: trim_start_def dropWhile_append1)
  ultimately show ?thesis by (simp add: trim_def trim_end_pad)
qed

lemma set_dropWhile_sub: "set (dropWhile P xs) \<subseteq> set xs"
  by (induction xs) auto

lemma set_trim: "set (trim s) \<subseteq> set s"
  unfolding trim_def trim_end_def trim_start_def
  using set_dropWhile_sub [of is_whitespace "rev (dropWhile is_whitespace s)"]
    set_dropWhile_sub [of is_whitespace s] by auto

lemma trimmed_all [intro]: "(\<And>c. c \<in> set s \<Longrightarrow> \<not> is_whitespace c) \<Longrightarrow> trimmed s"
  by (cases s) (auto simp: trimmed_def)


section \<open>Lines\<close>

text \<open>
  \<open>str::lines\<close>: the pieces between line feeds, without the empty one after a final line feed;
  a carriage return before a line feed belongs to the line ending, and one at the end of a last
  line that has no line feed does not.
\<close>

definition strip_cr :: "rstr \<Rightarrow> rstr" where
  "strip_cr s = (case strip_suffix [13] s of None \<Rightarrow> s | Some r \<Rightarrow> r)"

definition lines :: "rstr \<Rightarrow> rstr list" where
  "lines s =
     (let ps = split_on 10 s
      in map strip_cr (butlast ps) @ (if last ps = [] then [] else [last ps]))"


section \<open>Decimal numbers\<close>

text \<open>\<open>Display\<close> of an unsigned integer, and \<open>parse\<close> of one: an optional plus sign, then one
  digit or more, refused past the width's bound.\<close>

fun show_nat :: "nat \<Rightarrow> rstr" where
  "show_nat n = (if n < 10 then [48 + n] else show_nat (n div 10) @ [48 + n mod 10])"

declare show_nat.simps [simp del]

fun digits_value :: "nat \<Rightarrow> rstr \<Rightarrow> nat" where
  "digits_value acc [] = acc"
| "digits_value acc (d # ds) = digits_value (10 * acc + (d - 48)) ds"

definition parse_uint :: "nat \<Rightarrow> rstr \<Rightarrow> nat option" where
  "parse_uint m s =
     (let ds = (case s of [] \<Rightarrow> [] | c # cs \<Rightarrow> if c = 43 then cs else s)
      in if ds = [] \<or> \<not> list_all is_ascii_digit ds then None
         else if digits_value 0 ds \<le> m then Some (digits_value 0 ds) else None)"

lemma show_nat_not_Nil [simp]: "show_nat n \<noteq> []"
  by (subst show_nat.simps) simp

lemma show_nat_digits: "list_all is_ascii_digit (show_nat n)"
proof (induction n rule: show_nat.induct)
  case (1 n)
  then show ?case
    using mod_less_divisor [of 10 n]
    by (subst show_nat.simps) (auto simp: is_ascii_digit_def [of "48 + _"] simp del: mod_less_divisor)
qed

lemma show_nat_digit: "c \<in> set (show_nat n) \<Longrightarrow> is_ascii_digit c"
  using show_nat_digits by (auto simp: list_all_iff)

lemma show_nat_hd_pos: "0 < n \<Longrightarrow> hd (show_nat n) \<noteq> 48"
proof (induction n rule: show_nat.induct)
  case (1 n)
  show ?case
  proof (cases "n < 10")
    case True
    with "1.prems" show ?thesis by (subst show_nat.simps) simp
  next
    case False
    with "1.IH" have "hd (show_nat (n div 10)) \<noteq> 48" by simp
    with False show ?thesis by (subst show_nat.simps) simp
  qed
qed

lemma digits_value_append: "digits_value a (xs @ ys) = digits_value (digits_value a xs) ys"
  by (induction xs arbitrary: a) auto

lemma digits_value_show [simp]: "digits_value 0 (show_nat n) = n"
proof (induction n rule: show_nat.induct)
  case (1 n)
  then show ?case
    by (subst show_nat.simps) (auto simp: digits_value_append)
qed

lemma show_nat_inject [simp]: "show_nat m = show_nat n \<longleftrightarrow> m = n"
  by (metis digits_value_show)

lemma parse_show: "n \<le> m \<Longrightarrow> parse_uint m (show_nat n) = Some n"
proof -
  assume le: "n \<le> m"
  obtain c cs where c: "show_nat n = c # cs" by (cases "show_nat n") auto
  then have "c \<noteq> 43" using show_nat_digit [of c n] by (auto simp: is_ascii_digit_def)
  with c le show_nat_digits [of n] digits_value_show [of n] show ?thesis
    by (auto simp: parse_uint_def)
qed

lemma parse_uint_bound: "parse_uint m s = Some n \<Longrightarrow> n \<le> m"
  by (auto simp: parse_uint_def Let_def split: if_splits)

text \<open>A string of digits without a leading zero is what its value prints as.\<close>

lemma show_nat_snoc: "0 < a \<Longrightarrow> e < 10 \<Longrightarrow> show_nat (10 * a + e) = show_nat a @ [48 + e]"
  by (subst show_nat.simps) simp

lemma show_digits_value:
  assumes "list_all is_ascii_digit ds" and "0 < a"
  shows "show_nat (digits_value a ds) = show_nat a @ ds"
  using assms
proof (induction ds arbitrary: a)
  case Nil
  then show ?case by simp
next
  case (Cons d ds)
  then have d: "48 \<le> d" "d \<le> 57" by (auto simp: is_ascii_digit_def)
  have step: "show_nat (10 * a + (d - 48)) = show_nat a @ [d]"
    using show_nat_snoc [OF Cons.prems(2), of "d - 48"] d by simp
  have "show_nat (digits_value a (d # ds)) = show_nat (10 * a + (d - 48)) @ ds"
    using Cons.prems by (simp add: Cons.IH)
  with step show ?case by simp
qed

lemma show_parse_canonical:
  assumes "list_all is_ascii_digit ds" "ds \<noteq> []" "hd ds \<noteq> 48 \<or> length ds = 1"
  shows "show_nat (digits_value 0 ds) = ds"
proof (cases ds)
  case (Cons d ds')
  with assms have d: "48 \<le> d" "d \<le> 57" by (auto simp: is_ascii_digit_def)
  have one: "show_nat (d - 48) = [d]"
    using d by (subst show_nat.simps) auto
  show ?thesis
  proof (cases "d = 48")
    case True
    with assms Cons have "ds' = []" by auto
    with one Cons show ?thesis by simp
  next
    case False
    with d have "0 < d - 48" by simp
    with assms(1) Cons one show ?thesis by (simp add: show_digits_value)
  qed
qed (use assms in simp)

lemma parse_uint_digits:
  "list_all is_ascii_digit ds \<Longrightarrow> ds \<noteq> [] \<Longrightarrow>
   parse_uint m ds = (if digits_value 0 ds \<le> m then Some (digits_value 0 ds) else None)"
  by (cases ds) (auto simp: parse_uint_def is_ascii_digit_def)


section \<open>Substrings\<close>

text \<open>\<open>str::contains\<close> of a text pattern.\<close>

fun contains_str :: "'a list \<Rightarrow> 'a list \<Rightarrow> bool" where
  "contains_str p [] \<longleftrightarrow> p = []"
| "contains_str p (c # s) \<longleftrightarrow> starts_with p (c # s) \<or> contains_str p s"

lemma contains_str_iff: "contains_str p s \<longleftrightarrow> (\<exists>u v. s = u @ p @ v)"
proof (induction s)
  case (Cons c s)
  have "(\<exists>u v. c # s = u @ p @ v) \<longleftrightarrow>
      starts_with p (c # s) \<or> (\<exists>u v. s = u @ p @ v)" (is "?l \<longleftrightarrow> ?r \<or> ?t")
  proof
    assume ?l
    then obtain u v where uv: "c # s = u @ p @ v" by blast
    then show "?r \<or> ?t" by (cases u) (auto simp: starts_with_iff)
  next
    assume "?r \<or> ?t"
    then show ?l
    proof
      assume ?r
      then obtain v where "c # s = [] @ p @ v" by (auto simp: starts_with_iff)
      then show ?l by blast
    next
      assume ?t
      then obtain u v where "c # s = (c # u) @ p @ v" by auto
      then show ?l by blast
    qed
  qed
  with Cons show ?case by simp
qed simp

lemma contains_str_append: "contains_str p s \<Longrightarrow> contains_str p (a @ s @ b)"
  unfolding contains_str_iff by (metis append.assoc)

text \<open>\<open>trim_start_matches\<close> and \<open>trim_end_matches\<close> of one character.\<close>

definition trim_start_matches :: "codepoint \<Rightarrow> rstr \<Rightarrow> rstr" where
  "trim_start_matches c s = dropWhile (\<lambda>x. x = c) s"

definition trim_end_matches :: "codepoint \<Rightarrow> rstr \<Rightarrow> rstr" where
  "trim_end_matches c s = rev (dropWhile (\<lambda>x. x = c) (rev s))"

definition is_ascii_lowercase :: "codepoint \<Rightarrow> bool" where
  "is_ascii_lowercase c \<longleftrightarrow> 97 \<le> c \<and> c \<le> 122"

definition is_ascii_alphanumeric :: "codepoint \<Rightarrow> bool" where
  "is_ascii_alphanumeric c \<longleftrightarrow>
     (48 \<le> c \<and> c \<le> 57) \<or> (65 \<le> c \<and> c \<le> 90) \<or> (97 \<le> c \<and> c \<le> 122)"

end
