(* ===== verification/Errors.thy ===== *)
theory Errors
  imports Text
begin

text \<open>
  \<open>kernel::error\<close>: the closed set of error codes with their wire spellings
  (\<open>error/code.rs\<close>), the three parts of a gate refusal (\<open>error/refusal.rs\<close>), the kinds of
  provider failure (\<open>error/provider.rs\<close>), and the one error shape \<open>AxError\<close> with the draft
  that builds it (\<open>error/shape.rs\<close>). A builder method of \<open>ErrorDraft\<close> is a function on the
  record; the draft and the finished error hold the same fields, so both are the type
  \<open>ax_error\<close>, and \<open>with_recovery\<close> is the step from one to the other.
\<close>

section \<open>Codes\<close>

datatype (plugins only: code) ax_code =
    PathNotFound | ToolUnknown | ToolUnavailable | InvalidArgs | OutsideWriteDomain
  | VersionConflict | GateDenied | BudgetExhausted | Timeout | Provider | EvidenceMissing
  | LoopSuspected | LocatorInvalid | SandboxDenied | Busy | DraftStale | GoalConflict
  | TaintedAction | RepairBusy | DelegationDepth | ApprovalPending | ApprovalDenied
  | CrossBuildingDenied | DigestSuspect | CredentialMissing | ModelUnchosen | ConfigInvalid
  | CasCorrupt | StorageFatal | WorktreeBusy | BrowserUnavailable | EndpointDialectUnsupported
  | WireMismatch | LogVersionUnsupported | LedgerHeld | HistoryUnproven | SecretEgress
  | DiscardIrreversible | BackpressureShed | ToolOutcomeUnknown | PlanMissing
  | ProviderAccountsExhausted | AuthRequired | PairingRefused

definition ax_code_ALL :: "ax_code list" where
  "ax_code_ALL = [
     PathNotFound, ToolUnknown, ToolUnavailable, InvalidArgs, OutsideWriteDomain,
     VersionConflict, GateDenied, BudgetExhausted, Timeout, Provider, EvidenceMissing,
     LoopSuspected, LocatorInvalid, SandboxDenied, Busy, DraftStale, GoalConflict,
     TaintedAction, RepairBusy, DelegationDepth, ApprovalPending, ApprovalDenied,
     CrossBuildingDenied, DigestSuspect, CredentialMissing, ModelUnchosen, ConfigInvalid,
     CasCorrupt, StorageFatal, WorktreeBusy, BrowserUnavailable, EndpointDialectUnsupported,
     WireMismatch, LogVersionUnsupported, LedgerHeld, HistoryUnproven, SecretEgress,
     DiscardIrreversible, BackpressureShed, ToolOutcomeUnknown, PlanMissing,
     ProviderAccountsExhausted, AuthRequired, PairingRefused]"

primrec ax_code_as_str :: "ax_code \<Rightarrow> rstr" where
  "ax_code_as_str PathNotFound = lit ''E_PATH_NOT_FOUND''"
| "ax_code_as_str ToolUnknown = lit ''E_TOOL_UNKNOWN''"
| "ax_code_as_str ToolUnavailable = lit ''E_TOOL_UNAVAILABLE''"
| "ax_code_as_str InvalidArgs = lit ''E_INVALID_ARGS''"
| "ax_code_as_str OutsideWriteDomain = lit ''E_OUTSIDE_WRITE_DOMAIN''"
| "ax_code_as_str VersionConflict = lit ''E_VERSION_CONFLICT''"
| "ax_code_as_str GateDenied = lit ''E_GATE_DENIED''"
| "ax_code_as_str BudgetExhausted = lit ''E_BUDGET_EXHAUSTED''"
| "ax_code_as_str Timeout = lit ''E_TIMEOUT''"
| "ax_code_as_str Provider = lit ''E_PROVIDER''"
| "ax_code_as_str EvidenceMissing = lit ''E_EVIDENCE_MISSING''"
| "ax_code_as_str LoopSuspected = lit ''E_LOOP_SUSPECTED''"
| "ax_code_as_str LocatorInvalid = lit ''E_LOCATOR_INVALID''"
| "ax_code_as_str SandboxDenied = lit ''E_SANDBOX_DENIED''"
| "ax_code_as_str Busy = lit ''E_BUSY''"
| "ax_code_as_str DraftStale = lit ''E_DRAFT_STALE''"
| "ax_code_as_str GoalConflict = lit ''E_GOAL_CONFLICT''"
| "ax_code_as_str TaintedAction = lit ''E_TAINTED_ACTION''"
| "ax_code_as_str RepairBusy = lit ''E_REPAIR_BUSY''"
| "ax_code_as_str DelegationDepth = lit ''E_DELEGATION_DEPTH''"
| "ax_code_as_str ApprovalPending = lit ''E_APPROVAL_PENDING''"
| "ax_code_as_str ApprovalDenied = lit ''E_APPROVAL_DENIED''"
| "ax_code_as_str CrossBuildingDenied = lit ''E_CROSS_BUILDING_DENIED''"
| "ax_code_as_str DigestSuspect = lit ''E_DIGEST_SUSPECT''"
| "ax_code_as_str CredentialMissing = lit ''E_CREDENTIAL_MISSING''"
| "ax_code_as_str ModelUnchosen = lit ''E_MODEL_UNCHOSEN''"
| "ax_code_as_str ConfigInvalid = lit ''E_CONFIG_INVALID''"
| "ax_code_as_str CasCorrupt = lit ''E_CAS_CORRUPT''"
| "ax_code_as_str StorageFatal = lit ''E_STORAGE_FATAL''"
| "ax_code_as_str WorktreeBusy = lit ''E_WORKTREE_BUSY''"
| "ax_code_as_str BrowserUnavailable = lit ''E_BROWSER_UNAVAILABLE''"
| "ax_code_as_str EndpointDialectUnsupported = lit ''E_ENDPOINT_DIALECT_UNSUPPORTED''"
| "ax_code_as_str WireMismatch = lit ''E_WIRE_MISMATCH''"
| "ax_code_as_str LogVersionUnsupported = lit ''E_LOG_VERSION_UNSUPPORTED''"
| "ax_code_as_str LedgerHeld = lit ''E_LEDGER_HELD''"
| "ax_code_as_str HistoryUnproven = lit ''E_HISTORY_UNPROVEN''"
| "ax_code_as_str SecretEgress = lit ''E_SECRET_EGRESS''"
| "ax_code_as_str DiscardIrreversible = lit ''E_DISCARD_IRREVERSIBLE''"
| "ax_code_as_str BackpressureShed = lit ''E_BACKPRESSURE_SHED''"
| "ax_code_as_str ToolOutcomeUnknown = lit ''E_TOOL_OUTCOME_UNKNOWN''"
| "ax_code_as_str PlanMissing = lit ''E_PLAN_MISSING''"
| "ax_code_as_str ProviderAccountsExhausted = lit ''E_PROVIDER_ACCOUNTS_EXHAUSTED''"
| "ax_code_as_str AuthRequired = lit ''E_AUTH_REQUIRED''"
| "ax_code_as_str PairingRefused = lit ''E_PAIRING_REFUSED''"

definition ax_code_parse :: "rstr \<Rightarrow> ax_code option" where
  "ax_code_parse raw = find (\<lambda>code. ax_code_as_str code = raw) ax_code_ALL"


section \<open>The parts of an error\<close>

record gate_refusal =
  gr_rule :: rstr
  gr_violation :: rstr
  gr_alternative :: rstr

datatype provider_failure_kind =
    Exchange | Cut | Silence | Refused nat | Quota nat | Overflow nat | Unreadable | Reported
  | Unbuilt

datatype account_disposition = Keep | Advance

datatype retry = Yes | No | Unknown

record ax_error =
  err_code :: ax_code
  err_action :: rstr
  err_subject :: rstr
  err_nearby :: "rstr list"
  err_recovery :: rstr
  err_retry :: retry
  err_retry_after_ms :: "nat option"
  err_account :: account_disposition
  err_gate :: "gate_refusal option"
  err_provider :: "provider_failure_kind option"

type_synonym 'a ax_result = "ax_error + 'a"

text \<open>A retry word of the wire, or the boolean an older record holds in its place.\<close>

datatype retry_spelling = Word rstr | Flag bool

fun retry_deserialize :: "retry_spelling \<Rightarrow> retry option" where
  "retry_deserialize (Flag True) = Some Yes"
| "retry_deserialize (Flag False) = Some No"
| "retry_deserialize (Word word) =
     (if word = lit ''yes'' then Some Yes
      else if word = lit ''no'' then Some No
      else if word = lit ''unknown'' then Some Unknown
      else None)"

fun retry_serialize :: "retry \<Rightarrow> rstr" where
  "retry_serialize Yes = lit ''yes''"
| "retry_serialize No = lit ''no''"
| "retry_serialize Unknown = lit ''unknown''"

definition is_keep :: "account_disposition \<Rightarrow> bool" where
  "is_keep a \<longleftrightarrow> a = Keep"


section \<open>Building an error\<close>

definition gate_refusal_new :: "rstr \<Rightarrow> rstr \<Rightarrow> rstr \<Rightarrow> gate_refusal" where
  "gate_refusal_new rule violation alternative =
     \<lparr>gr_rule = rule, gr_violation = violation, gr_alternative = alternative\<rparr>"

definition failure :: "ax_code \<Rightarrow> rstr \<Rightarrow> rstr \<Rightarrow> ax_error" where
  "failure code action subject =
     \<lparr>err_code = code, err_action = action, err_subject = subject, err_nearby = [],
      err_recovery = [], err_retry = No, err_retry_after_ms = None, err_account = Keep,
      err_gate = None, err_provider = None\<rparr>"

definition refusal :: "ax_code \<Rightarrow> rstr \<Rightarrow> rstr \<Rightarrow> gate_refusal \<Rightarrow> ax_error" where
  "refusal code action subject gate = (failure code action subject)\<lparr>err_gate := Some gate\<rparr>"

definition provider :: "provider_failure_kind \<Rightarrow> rstr \<Rightarrow> rstr \<Rightarrow> ax_error" where
  "provider kind action subject = (failure Provider action subject)\<lparr>err_provider := Some kind\<rparr>"

definition with_nearby :: "rstr list \<Rightarrow> ax_error \<Rightarrow> ax_error" where
  "with_nearby nearby e = e\<lparr>err_nearby := nearby\<rparr>"

definition retriable :: "ax_error \<Rightarrow> ax_error" where
  "retriable e = e\<lparr>err_retry := Yes, err_account := Keep\<rparr>"

definition effect_unknown :: "ax_error \<Rightarrow> ax_error" where
  "effect_unknown e = e\<lparr>err_retry := Unknown, err_retry_after_ms := None, err_account := Keep\<rparr>"

definition account_unusable :: "ax_error \<Rightarrow> ax_error" where
  "account_unusable e = e\<lparr>err_retry := No, err_retry_after_ms := None, err_account := Advance\<rparr>"

definition retriable_after :: "nat \<Rightarrow> ax_error \<Rightarrow> ax_error" where
  "retriable_after wait_ms e = retriable (e\<lparr>err_retry_after_ms := Some wait_ms\<rparr>)"

definition with_recovery :: "rstr \<Rightarrow> ax_error \<Rightarrow> ax_error" where
  "with_recovery recovery e = e\<lparr>err_recovery := recovery\<rparr>"

definition rewrite_recovery :: "rstr \<Rightarrow> ax_error \<Rightarrow> ax_error" where
  "rewrite_recovery recovery e = e\<lparr>err_recovery := recovery\<rparr>"

named_theorems error_defs \<open>definitions of the constructors and builders of an error\<close>

declare gate_refusal_new_def [error_defs] failure_def [error_defs] refusal_def [error_defs]
  provider_def [error_defs] with_nearby_def [error_defs] retriable_def [error_defs]
  effect_unknown_def [error_defs] account_unusable_def [error_defs]
  retriable_after_def [error_defs] with_recovery_def [error_defs] rewrite_recovery_def [error_defs]

text \<open>
  What a builder keeps of the parts it does not set, as rewrite rules: the component proofs read
  the code, the subject or the gate of an error without unfolding how it was built.
\<close>

lemma failure_fields [simp]:
  "err_code (failure c a s) = c" "err_action (failure c a s) = a"
  "err_subject (failure c a s) = s" "err_gate (failure c a s) = None"
  "err_nearby (failure c a s) = []" "err_retry (failure c a s) = No"
  "err_account (failure c a s) = Keep" "err_retry_after_ms (failure c a s) = None"
  "err_recovery (failure c a s) = []"
  by (simp_all add: error_defs)

lemma refusal_fields [simp]:
  "err_code (refusal c a s g) = c" "err_action (refusal c a s g) = a"
  "err_subject (refusal c a s g) = s" "err_gate (refusal c a s g) = Some g"
  "err_nearby (refusal c a s g) = []"
  by (simp_all add: error_defs)

lemma with_recovery_fields [simp]:
  "err_code (with_recovery r e) = err_code e" "err_action (with_recovery r e) = err_action e"
  "err_subject (with_recovery r e) = err_subject e" "err_gate (with_recovery r e) = err_gate e"
  "err_recovery (with_recovery r e) = r" "err_nearby (with_recovery r e) = err_nearby e"
  by (simp_all add: error_defs)

lemma with_nearby_fields [simp]:
  "err_code (with_nearby n e) = err_code e" "err_subject (with_nearby n e) = err_subject e"
  "err_gate (with_nearby n e) = err_gate e" "err_nearby (with_nearby n e) = n"
  "err_action (with_nearby n e) = err_action e"
  by (simp_all add: error_defs)

lemma gate_refusal_new_fields [simp]:
  "gr_rule (gate_refusal_new r v a) = r" "gr_violation (gate_refusal_new r v a) = v"
  "gr_alternative (gate_refusal_new r v a) = a"
  by (simp_all add: error_defs)


section \<open>What every builder keeps\<close>

text \<open>
  The drafts the public interface can reach: one of the three constructors, then any builder in
  any order.
\<close>

inductive built :: "ax_error \<Rightarrow> bool" where
  failure: "built (failure c a s)"
| refusal: "built (refusal c a s g)"
| provider: "built (provider k a s)"
| with_nearby: "built e \<Longrightarrow> built (with_nearby n e)"
| retriable: "built e \<Longrightarrow> built (retriable e)"
| effect_unknown: "built e \<Longrightarrow> built (effect_unknown e)"
| account_unusable: "built e \<Longrightarrow> built (account_unusable e)"
| retriable_after: "built e \<Longrightarrow> built (retriable_after w e)"
| with_recovery: "built e \<Longrightarrow> built (with_recovery r e)"
| rewrite_recovery: "built e \<Longrightarrow> built (rewrite_recovery r e)"

text \<open>
  The agreement of the three answers a caller reads before sending a request again: a wait only
  with \<open>Retry::Yes\<close>, and leaving the account only with \<open>Retry::No\<close>.
\<close>

definition retry_coherent :: "ax_error \<Rightarrow> bool" where
  "retry_coherent e \<longleftrightarrow>
     (err_retry_after_ms e \<noteq> None \<longrightarrow> err_retry e = Yes) \<and>
     (err_account e = Advance \<longrightarrow> err_retry e = No)"

lemma built_retry_coherent: "built e \<Longrightarrow> retry_coherent e"
  by (induction rule: built.induct) (auto simp: retry_coherent_def error_defs)

lemma ax_code_ALL_complete: "c \<in> set ax_code_ALL"
  by (cases c) (simp_all add: ax_code_ALL_def)

lemma ax_code_parse_as_str: "ax_code_parse (ax_code_as_str c) = Some c"
  by (cases c) (simp_all add: ax_code_parse_def ax_code_ALL_def)

lemma ax_code_parse_Some: "ax_code_parse raw = Some c \<longleftrightarrow> raw = ax_code_as_str c"
  by (auto simp: ax_code_parse_as_str) (auto simp: ax_code_parse_def find_Some_iff)


section \<open>Properties\<close>

text \<open>C20. A wire spelling names an error code exactly when it is the spelling that code is
  printed with: \<open>AxCode::parse\<close> inverts \<open>AxCode::as_str\<close> on all forty-four codes, and refuses
  every other text.\<close>

theorem error_code_spelling_exact: "ax_code_parse raw = Some c \<longleftrightarrow> raw = ax_code_as_str c"
  by (rule ax_code_parse_Some)

text \<open>C21. However an error is built, in whatever order the builders are called, the three
  answers a caller reads before it sends again agree: a wait is present only where sending again
  is safe, and the account is given up only where sending again is not.\<close>

theorem built_error_never_contradicts_itself:
  assumes "built e"
  shows "(err_retry_after_ms e \<noteq> None \<longrightarrow> err_retry e = Yes) \<and>
         (err_account e = Advance \<longrightarrow> err_retry e = No)"
  using built_retry_coherent [OF assms] by (simp add: retry_coherent_def)

theorem built_error_never_contradicts_itself_witness:
  "let e = retriable_after 250 (account_unusable (failure Provider [] [])) in
     err_retry_after_ms e = Some 250 \<and> err_retry e = Yes \<and> err_account e = Keep"
proof -
  have "built (retriable_after 250 (account_unusable (failure Provider [] [])))"
    by (intro built.retriable_after built.account_unusable built.failure)
  from built_error_never_contradicts_itself [OF this] show ?thesis
    by (simp add: error_defs)
qed

end
