(* ===== verification/Addresses.thy ===== *)
theory Addresses
  imports Errors
begin

text \<open>
  \<open>kernel::address\<close> (\<open>address.rs\<close>): the canonical relative path inside a city, its one parser,
  the order \<open>is_within\<close> every write domain and lease is judged by, the predicate that keeps
  protected metadata out of every write domain, the bound on what a resident reads, and the
  name of a session.
\<close>

section \<open>Addresses\<close>

definition RESERVED_PREFIX :: rstr where
  "RESERVED_PREFIX = lit ''.sprawling''"

definition GIT_METADATA :: rstr where
  "GIT_METADATA = lit ''.git''"

definition PROTECTED_METADATA :: "rstr list" where
  "PROTECTED_METADATA = [RESERVED_PREFIX, GIT_METADATA]"

datatype address = Address (addr_str: rstr)

abbreviation SLASH :: codepoint where
  "SLASH \<equiv> 47"

abbreviation DOT :: codepoint where
  "DOT \<equiv> 46"

text \<open>The closure \<open>reject\<close> of the parser: the violation starts the recovery sentence.\<close>

definition address_reject :: "rstr \<Rightarrow> rstr \<Rightarrow> ax_error" where
  "address_reject raw violation =
     with_recovery
       (violation @ lit ''; use a canonical relative path: `/`-separated segments without `.`/`..`, backslash, `:`, or control characters'')
       (failure InvalidArgs (lit ''parse address'') raw)"

definition segment_violation :: "rstr \<Rightarrow> rstr option" where
  "segment_violation segment =
     (if segment = [] then Some (lit ''address contains an empty segment'')
      else if segment = [DOT] \<or> segment = [DOT, DOT]
        then Some (lit ''address contains a `.` or `..` segment'')
      else if last segment = DOT \<or> is_whitespace (last segment)
        then Some (lit ''a segment ends with a dot or whitespace, which some file systems drop, making this address a second spelling of a different one'')
      else None)"

definition address_parse :: "rstr \<Rightarrow> address ax_result" where
  "address_parse raw =
     (if raw = [] then Inl (address_reject raw (lit ''address is empty''))
      else if hd raw = SLASH then Inl (address_reject raw (lit ''address is absolute''))
      else if 92 \<in> set raw then Inl (address_reject raw (lit ''address contains a backslash''))
      else if 58 \<in> set raw then Inl (address_reject raw (lit ''address contains `:`''))
      else if list_ex is_control raw
        then Inl (address_reject raw (lit ''address contains a control character''))
      else (case first_some segment_violation (split_on SLASH raw) of
              Some violation \<Rightarrow> Inl (address_reject raw violation)
            | None \<Rightarrow> Inr (Address raw)))"

definition is_within :: "address \<Rightarrow> address \<Rightarrow> bool" where
  "is_within a pre =
     (case strip_prefix (addr_str pre) (addr_str a) of
        Some rest \<Rightarrow> rest = [] \<or> hd rest = SLASH
      | None \<Rightarrow> False)"

definition is_reserved :: "address \<Rightarrow> bool" where
  "is_reserved a \<longleftrightarrow>
     list_ex (\<lambda>segment. list_ex (\<lambda>name. eq_ignore_ascii_case segment name) PROTECTED_METADATA)
       (split_on SLASH (addr_str a))"

definition address_name :: "address \<Rightarrow> rstr" where
  "address_name a = last (split_on SLASH (addr_str a))"

text \<open>The segments of an address, which the source reads off by splitting at the slash.\<close>

definition segments :: "address \<Rightarrow> rstr list" where
  "segments a = split_on SLASH (addr_str a)"

text \<open>The grammar the parser promises, stated over the segments.\<close>

definition canonical :: "rstr \<Rightarrow> bool" where
  "canonical raw \<longleftrightarrow>
     (\<forall>c \<in> set raw. c \<noteq> 92 \<and> c \<noteq> 58 \<and> \<not> is_control c) \<and>
     (\<forall>s \<in> set (split_on SLASH raw).
        s \<noteq> [] \<and> s \<noteq> [DOT] \<and> s \<noteq> [DOT, DOT] \<and> last s \<noteq> DOT \<and> \<not> is_whitespace (last s))"


section \<open>The read bound\<close>

datatype read_verdict = Open | Confidential | RulesUnreadable ax_error

text \<open>\<open>rules\<close> is the closure the city crate passes in; it is applied to the unit value only
  where the source calls it.\<close>

definition may_read :: "address \<Rightarrow> address \<Rightarrow> (unit \<Rightarrow> bool ax_result) \<Rightarrow> read_verdict" where
  "may_read reader_building target rules =
     (if is_within target reader_building then Open
      else (case rules () of
              Inr False \<Rightarrow> Open
            | Inr True \<Rightarrow> Confidential
            | Inl unread \<Rightarrow> RulesUnreadable unread))"


section \<open>Session names\<close>

definition SESSION_NAME_MAX :: nat where
  "SESSION_NAME_MAX = 64"

datatype session_name = SessionName (session_str: rstr)

definition session_reject :: "rstr \<Rightarrow> rstr \<Rightarrow> ax_error" where
  "session_reject raw violation =
     with_recovery
       (violation @ lit ''; give one word or phrase this session can be found by - it becomes a folder beside the others in that building'')
       (failure InvalidArgs (lit ''name a session'') raw)"

definition session_name_parse :: "rstr \<Rightarrow> session_name ax_result" where
  "session_name_parse raw =
     (let trimmed = trim raw in
      if trimmed = []
        then Inl (session_reject raw (lit ''a session with no name has no folder to work in''))
      else if length trimmed > SESSION_NAME_MAX
        then Inl (session_reject raw (lit ''that is longer than a name and shorter than a task''))
      else if trimmed = [DOT] \<or> trimmed = [DOT, DOT]
        then Inl (session_reject raw (lit ''that names a directory rather than a session''))
      else if (case address_parse trimmed of Inr addr \<Rightarrow> is_reserved addr | Inl _ \<Rightarrow> False)
        then Inl (session_reject raw (lit ''that name belongs to the city itself''))
      else if SLASH \<in> set trimmed \<or> \<not> is_ok (address_parse trimmed)
        then Inl (session_reject raw (lit ''a session name is one segment that stands on its own: no `/`, `'' @ [92] @ lit ''`, `:`, control characters, and no trailing dot''))
      else Inr (SessionName trimmed))"


section \<open>The parser and its grammar\<close>

lemma segment_violation_None:
  "segment_violation s = None \<longleftrightarrow>
     s \<noteq> [] \<and> s \<noteq> [DOT] \<and> s \<noteq> [DOT, DOT] \<and> last s \<noteq> DOT \<and> \<not> is_whitespace (last s)"
  by (simp add: segment_violation_def)

lemma canonical_relative:
  assumes "canonical raw"
  shows "raw \<noteq> [] \<and> hd raw \<noteq> SLASH"
proof -
  from assms have "[] \<notin> set (split_on SLASH raw)" by (auto simp: canonical_def)
  then show ?thesis by (cases raw) (auto split: if_splits)
qed

lemma address_parse_Inr: "address_parse raw = Inr a \<longleftrightarrow> canonical raw \<and> a = Address raw"
proof (cases "canonical raw")
  case True
  then have "first_some segment_violation (split_on SLASH raw) = None"
    by (auto simp: canonical_def first_some_None segment_violation_None)
  with True canonical_relative [OF True] show ?thesis
    by (auto simp: address_parse_def canonical_def list_ex_iff)
next
  case False
  have "address_parse raw \<noteq> Inr a"
  proof
    assume "address_parse raw = Inr a"
    then have "first_some segment_violation (split_on SLASH raw) = None"
      "92 \<notin> set raw" "58 \<notin> set raw" "\<not> list_ex is_control raw"
      by (auto simp: address_parse_def split: if_splits option.splits)
    then have "canonical raw"
      by (auto simp: canonical_def first_some_None segment_violation_None list_ex_iff)
    with False show False ..
  qed
  with False show ?thesis by simp
qed

lemma address_parse_error:
  "address_parse raw = Inl e \<Longrightarrow> err_code e = InvalidArgs \<and> err_subject e = raw"
  by (auto simp: address_parse_def address_reject_def split: if_splits option.splits)

lemma is_ok_address_parse: "is_ok (address_parse raw) \<longleftrightarrow> canonical raw"
  by (auto simp: is_ok_iff address_parse_Inr)


section \<open>The order of places\<close>

lemma is_within_segments: "is_within a p \<longleftrightarrow> prefix (segments p) (segments a)"
proof
  assume "is_within a p"
  then obtain rest where r: "addr_str a = addr_str p @ rest" "rest = [] \<or> hd rest = SLASH"
    by (auto simp: is_within_def strip_prefix_Some split: option.splits)
  show "prefix (segments p) (segments a)"
  proof (cases rest)
    case Nil
    with r show ?thesis by (simp add: segments_def)
  next
    case (Cons c t)
    with r have "addr_str a = addr_str p @ SLASH # t" by simp
    then show ?thesis by (simp add: segments_def split_on_append)
  qed
next
  assume "prefix (segments p) (segments a)"
  then obtain ts where ts: "segments a = segments p @ ts"
    by (auto simp: prefix_def)
  show "is_within a p"
  proof (cases ts)
    case Nil
    with ts have "addr_str a = addr_str p"
      by (auto simp: segments_def intro: split_on_inject)
    then show ?thesis by (simp add: is_within_def strip_prefix_def starts_with_def)
  next
    case (Cons t ts')
    have "join_with [SLASH] (segments a) =
        join_with [SLASH] (segments p) @ [SLASH] @ join_with [SLASH] ts"
      using ts Cons by (simp add: join_with_append segments_def)
    then have "addr_str a = addr_str p @ SLASH # join_with [SLASH] ts"
      by (simp add: segments_def join_split)
    then show ?thesis by (simp add: is_within_def)
  qed
qed

lemma segments_inject: "segments a = segments b \<longleftrightarrow> a = b"
  by (cases a, cases b) (auto simp: segments_def dest: split_on_inject)

interpretation place: region_order is_within
proof unfold_locales
  fix x a b
  assume "is_within x a" "is_within x b"
  then show "is_within a b \<or> is_within b a"
    by (auto simp: is_within_segments dest: prefix_same_cases)
qed (auto simp: is_within_segments segments_inject [symmetric] prefix_order.antisym
      intro: prefix_order.trans)

lemma is_reserved_segments:
  "is_reserved a \<longleftrightarrow>
     (\<exists>s \<in> set (segments a). \<exists>n \<in> set PROTECTED_METADATA. eq_ignore_ascii_case s n)"
  by (auto simp: is_reserved_def segments_def list_ex_iff)

lemma is_reserved_down: "is_reserved p \<Longrightarrow> is_within a p \<Longrightarrow> is_reserved a"
  by (auto simp: is_reserved_segments is_within_segments dest: set_mono_prefix)

lemma canonical_no_dots: "canonical raw \<Longrightarrow> raw \<noteq> [DOT] \<and> raw \<noteq> [DOT, DOT]"
proof -
  have "\<not> canonical [DOT]" "\<not> canonical [DOT, DOT]" by (simp_all add: canonical_def)
  then show "canonical raw \<Longrightarrow> raw \<noteq> [DOT] \<and> raw \<noteq> [DOT, DOT]" by blast
qed

lemma session_name_parse_Inr:
  "session_name_parse raw = Inr n \<longleftrightarrow>
     n = SessionName (trim raw) \<and> canonical (trim raw) \<and> SLASH \<notin> set (trim raw) \<and>
     length (trim raw) \<le> SESSION_NAME_MAX \<and> \<not> is_reserved (Address (trim raw))"
proof (cases "canonical (trim raw)")
  case True
  then have "address_parse (trim raw) = Inr (Address (trim raw))"
    by (simp add: address_parse_Inr)
  with True canonical_relative [OF True] canonical_no_dots [OF True] show ?thesis
    unfolding session_name_parse_def Let_def by (simp add: not_less) blast
next
  case False
  then show ?thesis
    by (simp add: session_name_parse_def Let_def is_ok_address_parse)
qed


section \<open>Properties\<close>

text \<open>C12. \<open>Address::parse\<close> accepts exactly the canonical relative paths and keeps the
  text it was given; whatever else it is handed, it answers \<open>E_INVALID_ARGS\<close> about that very
  text.\<close>

theorem address_parse_decides_canonical:
  "case address_parse raw of
     Inr a \<Rightarrow> canonical raw \<and> addr_str a = raw
   | Inl e \<Rightarrow> \<not> canonical raw \<and> err_code e = InvalidArgs \<and> err_subject e = raw"
proof (cases "address_parse raw")
  case (Inl e)
  have "\<not> canonical raw"
    using address_parse_Inr [of raw "Address raw"] Inl by auto
  with Inl address_parse_error [OF Inl] show ?thesis by simp
next
  case (Inr a)
  with address_parse_Inr [of raw a] show ?thesis by simp
qed

text \<open>C13. \<open>Address::is_within\<close>, which compares text, decides the containment of places: one
  address is within another exactly when the segments of the second begin the segments of the
  first, so \<open>lib\<close> never contains \<open>library\<close>; and two places share a descendant exactly when one
  contains the other.\<close>

theorem is_within_is_containment:
  "(is_within a p \<longleftrightarrow> prefix (segments p) (segments a)) \<and>
   ((\<exists>x. is_within x a \<and> is_within x p) \<longleftrightarrow> is_within a p \<or> is_within p a)"
  using is_within_segments place.overlap_iff by blast

text \<open>A session name is one canonical path segment of at most sixty-four characters that is
  none of the protected names, in any case of its letters, and it is the caller's text with the
  surrounding white space removed.\<close>

lemma session_name_parse_exact:
  "session_name_parse raw = Inr n \<longleftrightarrow>
     session_str n = trim raw \<and> canonical (trim raw) \<and> segments (Address (trim raw)) = [trim raw] \<and>
     length (trim raw) \<le> SESSION_NAME_MAX \<and> \<not> is_reserved (Address (trim raw))"
proof -
  have "segments (Address (trim raw)) = [trim raw] \<longleftrightarrow> SLASH \<notin> set (trim raw)"
    using split_on_pieces [of "trim raw" SLASH "trim raw"]
    by (auto simp: segments_def split_on_no_sep)
  then show ?thesis by (cases n) (auto simp: session_name_parse_Inr)
qed

end
