(* ===== verification/WriteDomains.thy ===== *)
theory WriteDomains
  imports Addresses
begin

text \<open>
  \<open>kernel::write_domain\<close> (\<open>write_domain.rs\<close>): the validated set of prefixes, the two kinds of
  write domain over it, the verdict on one target, the write limit, and the detection of two runs
  that keep taking one file back from each other.
\<close>

section \<open>Prefix sets and domains\<close>

datatype domain_prefixes = DomainPrefixes (dp_prefixes: "address list")

definition domain_prefixes_new :: "address list \<Rightarrow> domain_prefixes ax_result" where
  "domain_prefixes_new members =
     (case find is_reserved members of
        Some reserved \<Rightarrow>
          Inl (with_recovery
            (lit ''the reserved prefix is outside every write domain (C17); drop it from the prefix set'')
            (failure InvalidArgs (lit ''construct write domain'') (addr_str reserved)))
      | None \<Rightarrow> Inr (DomainPrefixes members))"

datatype write_domain = Everything domain_prefixes | Documents domain_prefixes

definition write_domain_new :: "address list \<Rightarrow> write_domain ax_result" where
  "write_domain_new members = and_then (domain_prefixes_new members) (\<lambda>dp. Inr (Everything dp))"

definition write_domain_documents :: "address list \<Rightarrow> write_domain ax_result" where
  "write_domain_documents members =
     and_then (domain_prefixes_new members) (\<lambda>dp. Inr (Documents dp))"

fun wd_prefixes :: "write_domain \<Rightarrow> address list" where
  "wd_prefixes (Everything dp) = dp_prefixes dp"
| "wd_prefixes (Documents dp) = dp_prefixes dp"

definition reaches :: "write_domain \<Rightarrow> address \<Rightarrow> bool" where
  "reaches d area \<longleftrightarrow> \<not> is_reserved area \<and> list_ex (\<lambda>p. is_within area p) (wd_prefixes d)"

datatype document_reason = NotMarkdown | ThePlan

datatype domain_verdict = Within | Outside "rstr list" | NotWritable document_reason

text \<open>\<open>spine::ROADMAP_FILE\<close>.\<close>

definition ROADMAP_FILE :: rstr where
  "ROADMAP_FILE = lit ''Roadmap.md''"

definition file_name :: "address \<Rightarrow> rstr" where
  "file_name target = last (split_on SLASH (addr_str target))"

definition document_verdict :: "address \<Rightarrow> domain_verdict" where
  "document_verdict target =
     (let name = file_name target in
      if name = ROADMAP_FILE then NotWritable ThePlan
      else if ends_with (lit ''.md'') name then Within
      else NotWritable NotMarkdown)"

definition prefix_strings :: "write_domain \<Rightarrow> rstr list" where
  "prefix_strings d = map addr_str (wd_prefixes d)"

definition admits :: "write_domain \<Rightarrow> address \<Rightarrow> domain_verdict" where
  "admits d target =
     (if \<not> reaches d target then Outside (prefix_strings d)
      else (case d of
              Everything _ \<Rightarrow> Within
            | Documents _ \<Rightarrow> document_verdict target))"

datatype write_limit = Full | Create

definition write_limit_ALL :: "write_limit list" where
  "write_limit_ALL = [Full, Create]"

fun write_limit_as_str :: "write_limit \<Rightarrow> rstr" where
  "write_limit_as_str Full = lit ''full''"
| "write_limit_as_str Create = lit ''create''"


section \<open>Edit wars\<close>

text \<open>Addresses are keys of ordered maps: the derived order is the order of their texts.\<close>

instantiation address :: linorder
begin

definition less_eq_address :: "address \<Rightarrow> address \<Rightarrow> bool" where
  "a \<le> b \<longleftrightarrow> addr_str a \<le> addr_str b"

definition less_address :: "address \<Rightarrow> address \<Rightarrow> bool" where
  "a < b \<longleftrightarrow> addr_str a < addr_str b"

instance
  by standard (auto simp: less_eq_address_def less_address_def address.expand)

end

text \<open>\<open>RunId\<close>: sixteen bytes, compared for equality and order only; the number they spell.\<close>

type_synonym run_id = nat

definition EDIT_WAR_FREEZE :: nat where
  "EDIT_WAR_FREEZE = 2"

record edit_sample =
  es_addr :: address
  es_run :: run_id

datatype edit_war_verdict = Calm | Freeze address

definition note_edit :: "edit_sample \<Rightarrow> (address, run_id list) btree \<Rightarrow> (address, run_id list) btree" where
  "note_edit sample per_addr =
     (let runs = (case bt_get per_addr (es_addr sample) of Some runs \<Rightarrow> runs | None \<Rightarrow> []) in
      bt_insert (es_addr sample)
        (if runs \<noteq> [] \<and> last runs = es_run sample then runs else runs @ [es_run sample])
        per_addr)"

definition count_reclaims :: "run_id list \<Rightarrow> nat" where
  "count_reclaims runs =
     fold (\<lambda>i reclaims.
         if runs ! i = runs ! (i - 2) \<and> runs ! i \<noteq> runs ! (i - 1)
         then sat_add u32_max reclaims 1 else reclaims)
       [2..<length runs] 0"

definition observe_edit_war :: "edit_sample list \<Rightarrow> edit_war_verdict" where
  "observe_edit_war samples =
     (case find (\<lambda>(addr, runs). EDIT_WAR_FREEZE \<le> count_reclaims runs)
             (fold note_edit samples bt_empty) of
        Some (addr, _) \<Rightarrow> Freeze addr
      | None \<Rightarrow> Calm)"


section \<open>What a domain admits\<close>

lemma domain_prefixes_new_Inr:
  "domain_prefixes_new ps = Inr dp \<longleftrightarrow> dp = DomainPrefixes ps \<and> \<not> list_ex is_reserved ps"
  by (auto simp: domain_prefixes_new_def find_None_iff find_Some_iff list_ex_iff
      split: option.splits)

lemma reaches_iff:
  "reaches d area \<longleftrightarrow> \<not> is_reserved area \<and> (\<exists>p \<in> set (wd_prefixes d). is_within area p)"
  by (auto simp: reaches_def list_ex_iff)

lemma reaches_down:
  assumes "reaches d area" "is_within x area" "\<not> is_reserved x"
  shows "reaches d x"
  using assms place.within_trans unfolding reaches_iff by blast

lemma document_verdict_Within:
  "document_verdict t = Within \<longleftrightarrow> file_name t \<noteq> ROADMAP_FILE \<and> ends_with (lit ''.md'') (file_name t)"
  by (simp add: document_verdict_def Let_def)

lemma admits_Within:
  "admits d t = Within \<longleftrightarrow>
     reaches d t \<and> (case d of Everything _ \<Rightarrow> True | Documents _ \<Rightarrow> document_verdict t = Within)"
  by (simp add: admits_def split: write_domain.split)

lemma admits_Outside:
  "admits d t = Outside ps \<longleftrightarrow> \<not> reaches d t \<and> ps = prefix_strings d"
  by (auto simp: admits_def document_verdict_def Let_def split: write_domain.splits if_splits)


section \<open>What freezes a file\<close>

text \<open>The runs that edited one file, bursts collapsed: the sequence the detection is about.\<close>

definition holders :: "edit_sample list \<Rightarrow> address \<Rightarrow> run_id list" where
  "holders samples a = remdups_adj (map es_run (filter (\<lambda>s. es_addr s = a) samples))"

definition taken_back :: "run_id list \<Rightarrow> nat set" where
  "taken_back runs = {i. i + 2 < length runs \<and> runs ! i = runs ! (i + 2)}"

lemma remdups_adj_snoc:
  "remdups_adj (xs @ [x]) =
     (if xs \<noteq> [] \<and> last xs = x then remdups_adj xs else remdups_adj xs @ [x])"
proof (cases xs rule: rev_cases)
  case (snoc ys y)
  show ?thesis
  proof (cases "x = y")
    case True
    with snoc show ?thesis
      using remdups_adj_append_two [of ys y y] by simp
  next
    case False
    with snoc show ?thesis
      using remdups_adj_append_two [of ys y x] by simp
  qed
qed simp

lemma last_remdups_adj': "xs \<noteq> [] \<Longrightarrow> last (remdups_adj xs) = last xs"
  by (induction xs rule: remdups_adj.induct) auto

lemma fold_note_edit:
  "bt_wf (fold note_edit samples bt_empty) \<and>
   bt_get (fold note_edit samples bt_empty) a =
     (if \<exists>s \<in> set samples. es_addr s = a then Some (holders samples a) else None)"
proof (induction samples arbitrary: a rule: rev_induct)
  case Nil
  then show ?case by (simp add: bt_wf_def bt_empty_def bt_get_def)
next
  case (snoc s ss)
  let ?m = "fold note_edit ss bt_empty"
  have m: "bt_wf ?m" "\<And>a. bt_get ?m a =
      (if \<exists>s \<in> set ss. es_addr s = a then Some (holders ss a) else None)"
    using snoc.IH by blast+
  have none: "\<not> (\<exists>t \<in> set ss. es_addr t = b) \<Longrightarrow> filter (\<lambda>t. es_addr t = b) ss = []" for b
    by (simp add: filter_empty_conv)
  have some: "\<exists>t \<in> set ss. es_addr t = b \<Longrightarrow> map es_run (filter (\<lambda>t. es_addr t = b) ss) \<noteq> []" for b
    by (auto simp: filter_empty_conv)
  have "bt_wf (note_edit s ?m)"
    using m(1) by (simp add: note_edit_def Let_def bt_wf_insert)
  moreover have "bt_get (note_edit s ?m) a =
      (if \<exists>t \<in> set (ss @ [s]). es_addr t = a then Some (holders (ss @ [s]) a) else None)"
  proof (cases "es_addr s = a")
    case False
    then show ?thesis
      by (auto simp: note_edit_def Let_def map_simps m(2) holders_def)
  next
    case True
    show ?thesis
    proof (cases "\<exists>t \<in> set ss. es_addr t = a")
      case False
      with True none [OF False] show ?thesis
        by (simp add: note_edit_def Let_def map_simps m(2) holders_def)
    next
      case seen: True
      have "holders (ss @ [s]) a = (if last (holders ss a) = es_run s
          then holders ss a else holders ss a @ [es_run s])"
        unfolding holders_def using True some [OF seen]
        by (simp add: remdups_adj_snoc last_remdups_adj')
      moreover have "holders ss a \<noteq> []"
        unfolding holders_def using some [OF seen] by simp
      ultimately show ?thesis
        using True seen by (simp add: note_edit_def Let_def map_simps m(2))
    qed
  qed
  ultimately show ?case by simp
qed

lemma fold_count:
  "fold (\<lambda>i c. if P i then sat_add u32_max c 1 else c) xs a =
     (if length (filter P xs) = 0 then a else min u32_max (a + length (filter P xs)))"
  if "a \<le> u32_max"
  using that
proof (induction xs arbitrary: a)
  case (Cons x xs)
  then show ?case by (auto simp: sat_add_def)
qed simp

lemma holders_adjacent: "Suc i < length (holders samples a) \<Longrightarrow> holders samples a ! i \<noteq> holders samples a ! Suc i"
  unfolding holders_def by (rule remdups_adj_adjacent)

lemma taken_back_filter:
  "taken_back runs = (\<lambda>i. i - 2) ` set (filter (\<lambda>i. runs ! i = runs ! (i - 2)) [2..<length runs])"
proof (intro equalityI subsetI)
  fix i
  assume "i \<in> taken_back runs"
  then have "i + 2 \<in> set (filter (\<lambda>i. runs ! i = runs ! (i - 2)) [2..<length runs])"
    by (auto simp: taken_back_def)
  then show "i \<in> (\<lambda>i. i - 2) ` set (filter (\<lambda>i. runs ! i = runs ! (i - 2)) [2..<length runs])"
    by (intro image_eqI [of _ _ "i + 2"]) simp_all
qed (auto simp: taken_back_def Suc_diff_Suc numeral_2_eq_2)

lemma card_taken_back:
  "card (taken_back runs) = length (filter (\<lambda>i. runs ! i = runs ! (i - 2)) [2..<length runs])"
proof -
  have "inj_on (\<lambda>i. i - 2) (set (filter (\<lambda>i. runs ! i = runs ! (i - 2)) [2..<length runs]))"
    by (auto simp: inj_on_def)
  then show ?thesis
    unfolding taken_back_filter by (simp add: card_image distinct_card del: set_filter)
qed

lemma count_reclaims_holders:
  "EDIT_WAR_FREEZE \<le> count_reclaims (holders samples a) \<longleftrightarrow>
   EDIT_WAR_FREEZE \<le> card (taken_back (holders samples a))"
proof -
  let ?r = "holders samples a"
  have "filter (\<lambda>i. ?r ! i = ?r ! (i - 2) \<and> ?r ! i \<noteq> ?r ! (i - 1)) [2..<length ?r] =
      filter (\<lambda>i. ?r ! i = ?r ! (i - 2)) [2..<length ?r]"
  proof (rule filter_cong [OF refl])
    fix i assume "i \<in> set [2..<length ?r]"
    then have "Suc (i - 1) < length ?r" "Suc (i - 1) = i" by auto
    then show "(?r ! i = ?r ! (i - 2) \<and> ?r ! i \<noteq> ?r ! (i - 1)) = (?r ! i = ?r ! (i - 2))"
      using holders_adjacent [of "i - 1" samples a] by metis
  qed
  then show ?thesis
    unfolding count_reclaims_def card_taken_back
    by (simp add: fold_count u_defs EDIT_WAR_FREEZE_def)
qed

lemma holders_Nil: "\<not> (\<exists>s \<in> set samples. es_addr s = a) \<Longrightarrow> holders samples a = []"
  by (simp add: holders_def filter_empty_conv)

lemma find_sorted_least:
  assumes "bt_wf m" "find P m = Some (k, v)" "(k', v') \<in> set m" "P (k', v')"
  shows "k \<le> k'"
proof -
  from assms(2) obtain i where i: "i < length m" "m ! i = (k, v)" "\<And>j. j < i \<Longrightarrow> \<not> P (m ! j)"
    by (auto simp: find_Some_iff)
  from assms(3) obtain j where j: "j < length m" "m ! j = (k', v')" by (auto simp: in_set_conv_nth)
  with i assms(4) have "i \<le> j" by (metis not_le)
  with i j assms(1) show ?thesis
    unfolding bt_wf_def by (cases "i = j") (force dest: sorted_wrt_nth_less [of _ _ i j])+
qed

lemma observe_edit_war_Freeze:
  assumes "observe_edit_war samples = Freeze a"
  shows "EDIT_WAR_FREEZE \<le> card (taken_back (holders samples a))"
    and "EDIT_WAR_FREEZE \<le> card (taken_back (holders samples b)) \<Longrightarrow> a \<le> b"
proof -
  let ?m = "fold note_edit samples bt_empty"
  from assms obtain rs where rs: "find (\<lambda>(addr, runs). EDIT_WAR_FREEZE \<le> count_reclaims runs) ?m = Some (a, rs)"
    by (auto simp: observe_edit_war_def split: option.splits prod.splits)
  then have *: "(a, rs) \<in> set ?m" "EDIT_WAR_FREEZE \<le> count_reclaims rs"
    by (auto simp: find_Some_iff) (metis nth_mem)
  have wf: "bt_wf ?m" using fold_note_edit by blast
  with * have "bt_get ?m a = Some rs" by (simp add: bt_entry_get)
  then have "rs = holders samples a"
    using fold_note_edit [of samples a] by (simp split: if_splits)
  with * show "EDIT_WAR_FREEZE \<le> card (taken_back (holders samples a))"
    by (simp add: count_reclaims_holders)
  assume b: "EDIT_WAR_FREEZE \<le> card (taken_back (holders samples b))"
  then have "\<exists>s \<in> set samples. es_addr s = b"
    using holders_Nil [of samples b] by (force simp: EDIT_WAR_FREEZE_def taken_back_def)
  with wf have "(b, holders samples b) \<in> set ?m"
    using fold_note_edit [of samples b] by (simp add: bt_entry_get)
  then show "a \<le> b"
    by (rule find_sorted_least [OF wf rs]) (simp add: count_reclaims_holders b)
qed

lemma observe_edit_war_Calm:
  assumes "observe_edit_war samples = Calm"
  shows "card (taken_back (holders samples a)) < EDIT_WAR_FREEZE"
proof (rule ccontr)
  let ?m = "fold note_edit samples bt_empty"
  assume "\<not> ?thesis"
  then have b: "EDIT_WAR_FREEZE \<le> card (taken_back (holders samples a))" by simp
  then have "\<exists>s \<in> set samples. es_addr s = a"
    using holders_Nil [of samples a] by (force simp: EDIT_WAR_FREEZE_def taken_back_def)
  then have "(a, holders samples a) \<in> set ?m"
    using fold_note_edit [of samples a] by (simp add: bt_entry_get)
  moreover have "find (\<lambda>(addr, runs). EDIT_WAR_FREEZE \<le> count_reclaims runs) ?m = None"
    using assms by (auto simp: observe_edit_war_def split: option.splits)
  ultimately show False using count_reclaims_holders [THEN iffD2, OF b] by (auto simp: find_None_iff)
qed


section \<open>Properties\<close>

text \<open>C10. A write domain admits a target exactly when the target lies under one of its
  prefixes, carries no protected segment at any depth, and, for a documents domain, is a Markdown
  file other than the plan file. Protected metadata is therefore outside every domain, however
  the domain was made.\<close>

theorem write_domain_admits_exactly:
  "admits d t = Within \<longleftrightarrow>
     (\<exists>p \<in> set (wd_prefixes d). prefix (segments p) (segments t)) \<and>
     (\<nexists>s n. s \<in> set (segments t) \<and> n \<in> set PROTECTED_METADATA \<and> eq_ignore_ascii_case s n) \<and>
     (case d of
        Everything _ \<Rightarrow> True
      | Documents _ \<Rightarrow> file_name t \<noteq> ROADMAP_FILE \<and> ends_with (lit ''.md'') (file_name t))"
  by (auto simp: admits_Within reaches_iff is_within_segments is_reserved_segments
      document_verdict_Within split: write_domain.splits)

text \<open>C11. Edit-war detection freezes an address exactly when two edits take the file back
  (run X edits it, another run edits it, X edits it again, bursts by one run counted once), and
  among several such files it names the first in the order of addresses.\<close>

theorem edit_war_freezes_first_contested:
  "case observe_edit_war samples of
     Freeze a \<Rightarrow> is_arg_min id (\<lambda>b. EDIT_WAR_FREEZE \<le> card (taken_back (holders samples b))) a
   | Calm \<Rightarrow> (\<nexists>b. EDIT_WAR_FREEZE \<le> card (taken_back (holders samples b)))"
proof (cases "observe_edit_war samples")
  case Calm
  from observe_edit_war_Calm [OF Calm] Calm show ?thesis by (simp add: not_le)
next
  case (Freeze a)
  from observe_edit_war_Freeze [OF Freeze] Freeze show ?thesis
    by (auto simp: is_arg_min_def not_less)
qed

end
