(* ===== verification/Locators.thy ===== *)
theory Locators
  imports Addresses
begin

text \<open>
  \<open>kernel::locator\<close> (\<open>locator.rs\<close>): the grammar for referring to content,
  \<open>cas:b3-<hex64>[#(L|B)<a>-<b>]\<close> and \<open>file:<address>@<hex40>[#(L|B)<a>-<b>]\<close>, with its
  printer, its fail-closed parser with the canonical echo, and the strict hexadecimal decoder.
  A digest is the list of its bytes, each a number below 256.
\<close>

section \<open>Bytes and hexadecimal digits\<close>

text \<open>The UTF-8 bytes of a string, which \<open>len\<close> and \<open>bytes\<close> of the source count and read.\<close>

definition utf8_char :: "codepoint \<Rightarrow> nat list" where
  "utf8_char c =
     (if c < 128 then [c]
      else if c < 2048 then [192 + c div 64, 128 + c mod 64]
      else if c < 65536 then [224 + c div 4096, 128 + (c div 64) mod 64, 128 + c mod 64]
      else [240 + c div 262144, 128 + (c div 4096) mod 64, 128 + (c div 64) mod 64, 128 + c mod 64])"

definition utf8 :: "rstr \<Rightarrow> nat list" where
  "utf8 s = concat (map utf8_char s)"

definition nibble :: "nat \<Rightarrow> nat option" where
  "nibble c =
     (if 48 \<le> c \<and> c \<le> 57 then Some (c - 48)
      else if 97 \<le> c \<and> c \<le> 102 then Some (c - 97 + 10)
      else None)"

fun decode_pairs :: "nat list \<Rightarrow> nat list option" where
  "decode_pairs [] = Some []"
| "decode_pairs [hi] = None"
| "decode_pairs (hi # lo # rest) =
     (case nibble hi of None \<Rightarrow> None
      | Some h \<Rightarrow> (case nibble lo of None \<Rightarrow> None
        | Some l \<Rightarrow> (case checked_mul u8_max h 16 of None \<Rightarrow> None
          | Some hh \<Rightarrow> (case checked_add u8_max hh l of None \<Rightarrow> None
            | Some value \<Rightarrow> map_option ((#) value) (decode_pairs rest)))))"

definition decode_hex_fixed :: "nat \<Rightarrow> rstr \<Rightarrow> nat list option" where
  "decode_hex_fixed n raw =
     (if length (utf8 raw) \<noteq> 2 * n then None else decode_pairs (utf8 raw))"

definition hex_char :: "nat \<Rightarrow> codepoint" where
  "hex_char d = (if d < 10 then 48 + d else 87 + d)"

definition write_hex :: "nat list \<Rightarrow> rstr" where
  "write_hex bytes = concat (map (\<lambda>b. [hex_char (b div 16), hex_char (b mod 16)]) bytes)"

definition bytes_wf :: "nat \<Rightarrow> nat list \<Rightarrow> bool" where
  "bytes_wf n bs \<longleftrightarrow> length bs = n \<and> (\<forall>b \<in> set bs. b < 256)"

datatype b3hash = B3Hash (b3_bytes: "nat list")

datatype git_oid = GitOid (oid_bytes: "nat list")

definition git_oid_parse :: "rstr \<Rightarrow> git_oid option" where
  "git_oid_parse raw = map_option GitOid (decode_hex_fixed 20 raw)"


section \<open>Ranges and locators\<close>

datatype range = Lines nat nat | Bytes nat nat

definition range_error :: "rstr \<Rightarrow> nat \<Rightarrow> nat \<Rightarrow> ax_error" where
  "range_error unit from to =
     with_recovery (lit ''require from <= to; line ranges start at 1, byte ranges at 0'')
       (failure InvalidArgs (lit ''construct range'')
         (unit @ lit '' '' @ show_nat from @ lit ''-'' @ show_nat to))"

definition range_lines :: "nat \<Rightarrow> nat \<Rightarrow> range ax_result" where
  "range_lines from to =
     (if from = 0 \<or> from > to then Inl (range_error (lit ''lines'') from to)
      else Inr (Lines from to))"

definition range_bytes :: "nat \<Rightarrow> nat \<Rightarrow> range ax_result" where
  "range_bytes from to =
     (if from > to then Inl (range_error (lit ''bytes'') from to) else Inr (Bytes from to))"

fun show_range :: "range \<Rightarrow> rstr" where
  "show_range (Lines from to) = lit ''L'' @ show_nat from @ lit ''-'' @ show_nat to"
| "show_range (Bytes from to) = lit ''B'' @ show_nat from @ lit ''-'' @ show_nat to"

fun write_range :: "range option \<Rightarrow> rstr" where
  "write_range (Some r) = lit ''#'' @ show_range r"
| "write_range None = []"

datatype locator =
    Cas b3hash "range option"
  | File address git_oid "range option"

definition locator_cas :: "b3hash \<Rightarrow> locator" where
  "locator_cas hash = Cas hash None"

fun show_locator :: "locator \<Rightarrow> rstr" where
  "show_locator (Cas hash rg) = lit ''cas:b3-'' @ write_hex (b3_bytes hash) @ write_range rg"
| "show_locator (File address oid rg) =
     lit ''file:'' @ addr_str address @ lit ''@'' @ write_hex (oid_bytes oid) @ write_range rg"

definition locator_invalid :: "rstr \<Rightarrow> rstr \<Rightarrow> ax_error" where
  "locator_invalid raw violation =
     with_recovery violation (failure LocatorInvalid (lit ''parse locator'') raw)"

definition parse_canonical_u64 :: "rstr \<Rightarrow> rstr \<Rightarrow> nat ax_result" where
  "parse_canonical_u64 raw digits =
     (if digits = [] \<or> \<not> list_all is_ascii_digit digits
        then Inl (locator_invalid raw (lit ''range bound must be decimal digits''))
      else if length (utf8 digits) > 1 \<and> hd digits = 48
        then Inl (locator_invalid raw (lit ''range bound must not carry leading zeros''))
      else (case parse_uint u64_max digits of
              Some n \<Rightarrow> Inr n
            | None \<Rightarrow> Inl (locator_invalid raw (lit ''range bound exceeds u64''))))"

definition parse_range :: "rstr \<Rightarrow> rstr \<Rightarrow> range ax_result" where
  "parse_range raw fragment =
     (case fragment of
        [] \<Rightarrow> Inl (locator_invalid raw (lit ''empty range fragment''))
      | unit # body \<Rightarrow>
          (case split_once 45 body of
             None \<Rightarrow> Inl (locator_invalid raw (lit ''range needs `<from>-<to>`''))
           | Some (from_raw, to_raw) \<Rightarrow>
               and_then (parse_canonical_u64 raw from_raw) (\<lambda>from.
               and_then (parse_canonical_u64 raw to_raw) (\<lambda>to.
                 if unit = 76 \<or> unit = 66
                 then map_err (\<lambda>_. locator_invalid raw (lit ''range bounds are out of order or out of base''))
                        (if unit = 76 then range_lines from to else range_bytes from to)
                 else Inl (locator_invalid raw (lit ''range unit must be `L` (lines) or `B` (bytes)''))))))"

definition split_range :: "rstr \<Rightarrow> rstr \<Rightarrow> (rstr \<times> range option) ax_result" where
  "split_range raw rest =
     (case split_once 35 rest of
        None \<Rightarrow> Inr (rest, None)
      | Some (body, fragment) \<Rightarrow>
          and_then (parse_range raw fragment) (\<lambda>rg. Inr (body, Some rg)))"

definition parse_cas :: "rstr \<Rightarrow> rstr \<Rightarrow> locator ax_result" where
  "parse_cas raw rest =
     and_then (split_range raw rest) (\<lambda>(body, rg).
     and_then (ok_or (locator_invalid raw (lit ''unknown or missing algorithm tag; the only tag is `b3-`''))
                 (strip_prefix (lit ''b3-'') body)) (\<lambda>hex.
     and_then (ok_or (locator_invalid raw (lit ''hash must be exactly 64 lowercase hex digits''))
                 (map_option B3Hash (decode_hex_fixed 32 hex))) (\<lambda>hash.
       Inr (Cas hash rg))))"

definition parse_file :: "rstr \<Rightarrow> rstr \<Rightarrow> locator ax_result" where
  "parse_file raw rest =
     and_then (split_range raw rest) (\<lambda>(body, rg).
     and_then (ok_or (locator_invalid raw (lit ''file locator needs `<address>@<git-oid>`''))
                 (rsplit_once 64 body)) (\<lambda>(addr_raw, oid_raw).
     and_then (map_err (\<lambda>_. locator_invalid raw (lit ''address part violates the address grammar''))
                 (address_parse addr_raw)) (\<lambda>address.
     and_then (ok_or (locator_invalid raw (lit ''git oid must be exactly 40 lowercase hex digits''))
                 (git_oid_parse oid_raw)) (\<lambda>oid.
       Inr (File address oid rg)))))"

definition locator_parse_inner :: "rstr \<Rightarrow> locator ax_result" where
  "locator_parse_inner raw =
     (case strip_prefix (lit ''cas:'') raw of
        Some rest \<Rightarrow> parse_cas raw rest
      | None \<Rightarrow>
        (case strip_prefix (lit ''file:'') raw of
           Some rest \<Rightarrow> parse_file raw rest
         | None \<Rightarrow>
           if starts_with (lit ''secret:'') raw
           then Inl (locator_invalid raw (lit ''SecretRef never enters the locator grammar (separate parser by design)''))
           else Inl (locator_invalid raw (lit ''unknown scheme; only `cas:` and `file:` exist''))))"

definition locator_parse :: "rstr \<Rightarrow> locator ax_result" where
  "locator_parse raw =
     and_then (locator_parse_inner raw) (\<lambda>parsed.
       let echo = show_locator parsed in
       if echo \<noteq> raw
       then Inl (locator_invalid raw (lit ''non-canonical spelling; use `'' @ echo @ lit ''`''))
       else Inr parsed)"

text \<open>What the constructors of the source keep: digests of their width, bounds in order and in
  range, an address the grammar accepts.\<close>

fun range_wf :: "range \<Rightarrow> bool" where
  "range_wf (Lines from to) \<longleftrightarrow> 0 < from \<and> from \<le> to \<and> to \<le> u64_max"
| "range_wf (Bytes from to) \<longleftrightarrow> from \<le> to \<and> to \<le> u64_max"

fun locator_wf :: "locator \<Rightarrow> bool" where
  "locator_wf (Cas hash rg) \<longleftrightarrow> bytes_wf 32 (b3_bytes hash) \<and> pred_option range_wf rg"
| "locator_wf (File address oid rg) \<longleftrightarrow>
     canonical (addr_str address) \<and> bytes_wf 20 (oid_bytes oid) \<and> pred_option range_wf rg"


section \<open>Hexadecimal round trips\<close>

lemma utf8_simps [simp]: "utf8 [] = []" "utf8 (c # s) = utf8_char c @ utf8 s"
  "utf8 (s @ t) = utf8 s @ utf8 t"
  by (simp_all add: utf8_def)

lemma utf8_ascii: "(\<And>c. c \<in> set s \<Longrightarrow> c < 128) \<Longrightarrow> utf8 s = s"
  by (induction s) (auto simp: utf8_char_def)

lemma utf8_char_wide: "128 \<le> c \<Longrightarrow> hd (utf8_char c) \<ge> 128 \<and> utf8_char c \<noteq> []"
  unfolding utf8_char_def by simp

lemma utf8_all_ascii: "\<forall>b \<in> set (utf8 s). b < 128 \<Longrightarrow> utf8 s = s"
proof (induction s)
  case (Cons c s)
  have "c < 128"
  proof (rule ccontr)
    assume "\<not> c < 128"
    then have "hd (utf8_char c) \<ge> 128" "hd (utf8_char c) \<in> set (utf8_char c)"
      using utf8_char_wide [of c] by simp_all
    moreover have "set (utf8_char c) \<subseteq> set (utf8 (c # s))" by simp
    ultimately show False using Cons.prems by (meson linorder_not_less subsetD)
  qed
  with Cons show ?case by (simp add: utf8_char_def)
qed simp

lemma hex_char_bound: "d < 16 \<Longrightarrow> hex_char d < 128"
  by (simp add: hex_char_def)

lemma nibble_hex_char [simp]: "d < 16 \<Longrightarrow> nibble (hex_char d) = Some d"
  by (auto simp: hex_char_def nibble_def)

lemma nibble_Some: "nibble c = Some d \<Longrightarrow> c = hex_char d \<and> d < 16"
  by (auto simp: nibble_def hex_char_def split: if_splits)

lemma write_hex_simps [simp]:
  "write_hex [] = []"
  "write_hex (b # bs) = hex_char (b div 16) # hex_char (b mod 16) # write_hex bs"
  by (simp_all add: write_hex_def)

lemma length_write_hex [simp]: "length (write_hex bs) = 2 * length bs"
  by (induction bs) auto

lemma write_hex_chars:
  "\<forall>b \<in> set bs. b < 256 \<Longrightarrow> c \<in> set (write_hex bs) \<Longrightarrow> \<exists>d < 16. c = hex_char d"
proof (induction bs)
  case (Cons b bs)
  then have d: "b div 16 < 16" by auto
  have m: "b mod 16 < 16" by simp
  from Cons.prems consider "c = hex_char (b div 16)" | "c = hex_char (b mod 16)" | "c \<in> set (write_hex bs)"
    by auto
  then show ?case
    using d m Cons by cases (blast, blast, simp)
qed simp

lemma decode_pairs_write_hex: "\<forall>b \<in> set bs. b < 256 \<Longrightarrow> decode_pairs (write_hex bs) = Some bs"
proof (induction bs)
  case Nil
  then show ?case by simp
next
  case (Cons b bs)
  then have b: "b < 256" by simp
  then have "nibble (hex_char (b div 16)) = Some (b div 16)" by (intro nibble_hex_char) simp
  moreover have "nibble (hex_char (b mod 16)) = Some (b mod 16)" by (rule nibble_hex_char) simp
  moreover have "checked_mul u8_max (b div 16) 16 = Some (b div 16 * 16)"
    using b by (auto simp: checked_mul_def u8_max_def)
  moreover have "checked_add u8_max (b div 16 * 16) (b mod 16) = Some b"
    using b by (auto simp: checked_add_def u8_max_def)
  ultimately show ?case using Cons by simp
qed

lemma decode_pairs_Some:
  "decode_pairs raw = Some bs \<Longrightarrow> raw = write_hex bs \<and> (\<forall>b \<in> set bs. b < 256)"
proof (induction raw arbitrary: bs rule: decode_pairs.induct)
  case (3 hi lo rest)
  then obtain h l bs' where d: "nibble hi = Some h" "nibble lo = Some l"
      "decode_pairs rest = Some bs'" "bs = (h * 16 + l) # bs'" "h * 16 + l \<le> 255"
    by (auto simp: checked_mul_def checked_add_def u8_max_def split: option.splits if_splits)
  from nibble_Some [OF d(1)] nibble_Some [OF d(2)]
  have "hi = hex_char h" "lo = hex_char l" "h < 16" "l < 16" by auto
  with d "3.IH" [OF d(1,2)] show ?case
    by (simp add: checked_mul_def checked_add_def u8_max_def)
qed auto

lemma decode_hex_fixed_Some: "decode_hex_fixed n raw = Some bs \<longleftrightarrow> bytes_wf n bs \<and> raw = write_hex bs"
proof
  assume a: "decode_hex_fixed n raw = Some bs"
  then have d: "decode_pairs (utf8 raw) = Some bs" and l: "length (utf8 raw) = 2 * n"
    by (auto simp: decode_hex_fixed_def split: if_splits)
  from decode_pairs_Some [OF d] have h: "utf8 raw = write_hex bs" "\<forall>b \<in> set bs. b < 256" by auto
  then have "\<forall>b \<in> set (utf8 raw). b < 128"
    using write_hex_chars hex_char_bound by fastforce
  then have "utf8 raw = raw" by (rule utf8_all_ascii)
  with h l show "bytes_wf n bs \<and> raw = write_hex bs" by (simp add: bytes_wf_def)
next
  assume a: "bytes_wf n bs \<and> raw = write_hex bs"
  then have "utf8 raw = raw"
    by (intro utf8_ascii) (auto simp: bytes_wf_def dest!: write_hex_chars intro: hex_char_bound)
  with a show "decode_hex_fixed n raw = Some bs"
    by (auto simp: decode_hex_fixed_def bytes_wf_def decode_pairs_write_hex)
qed

lemma git_oid_parse_Some:
  "git_oid_parse raw = Some oid \<longleftrightarrow> bytes_wf 20 (oid_bytes oid) \<and> raw = write_hex (oid_bytes oid)"
  by (cases oid) (auto simp: git_oid_parse_def decode_hex_fixed_Some)


section \<open>Ranges\<close>

lemma range_lines_Inr: "range_lines from to = Inr r \<longleftrightarrow> r = Lines from to \<and> 0 < from \<and> from \<le> to"
  by (auto simp: range_lines_def)

lemma range_bytes_Inr: "range_bytes from to = Inr r \<longleftrightarrow> r = Bytes from to \<and> from \<le> to"
  by (auto simp: range_bytes_def)

lemma digits_ascii: "list_all is_ascii_digit ds \<Longrightarrow> utf8 ds = ds"
  by (rule utf8_ascii) (auto simp: list_all_iff is_ascii_digit_def)

lemma show_nat_no_leading_zero: "length (show_nat n) > 1 \<Longrightarrow> hd (show_nat n) \<noteq> 48"
proof (cases "n = 0")
  case True
  then show "length (show_nat n) > 1 \<Longrightarrow> ?thesis" by (simp add: show_nat.simps)
next
  case False
  then show "length (show_nat n) > 1 \<Longrightarrow> ?thesis" by (simp add: show_nat_hd_pos)
qed

lemma parse_canonical_u64_Inr:
  "parse_canonical_u64 raw ds = Inr n \<longleftrightarrow> ds = show_nat n \<and> n \<le> u64_max"
proof
  assume a: "parse_canonical_u64 raw ds = Inr n"
  then have ds: "list_all is_ascii_digit ds" "ds \<noteq> []" and p: "parse_uint u64_max ds = Some n"
    and z: "\<not> (length (utf8 ds) > 1 \<and> hd ds = 48)"
    by (auto simp: parse_canonical_u64_def split: if_splits option.splits)
  from ds p have n: "n = digits_value 0 ds" "n \<le> u64_max"
    by (auto simp: parse_uint_digits split: if_splits)
  from z ds(1) have "hd ds \<noteq> 48 \<or> length ds = 1"
    using ds(2) by (cases ds) (auto simp: digits_ascii simp del: utf8_simps)
  with ds n show "ds = show_nat n \<and> n \<le> u64_max"
    by (simp add: show_parse_canonical)
next
  assume "ds = show_nat n \<and> n \<le> u64_max"
  then show "parse_canonical_u64 raw ds = Inr n"
    using show_nat_digits [of n] show_nat_no_leading_zero [of n] parse_show [of n u64_max]
    by (auto simp: parse_canonical_u64_def digits_ascii)
qed

lemma no_dash_in_digits: "45 \<notin> set (show_nat n)"
  using show_nat_digit [of 45 n] by (auto simp: is_ascii_digit_def)

lemma lit_chars: "lit ''L'' = [76]" "lit ''B'' = [66]" "lit ''-'' = [45]" "lit ''#'' = [35]"
  "lit ''@'' = [64]"
  by (simp_all add: text_eval)

lemma parse_range_Inr:
  "parse_range raw fragment = Inr r \<longleftrightarrow> range_wf r \<and> fragment = show_range r"
proof
  assume "parse_range raw fragment = Inr r"
  then obtain u body f t where u: "fragment = u # body" "split_once 45 body = Some (show_nat f, show_nat t)"
      "f \<le> u64_max" "t \<le> u64_max" "u = 76 \<or> u = 66"
      "(if u = 76 then range_lines f t else range_bytes f t) = Inr r"
    by (auto simp: parse_range_def result_simps parse_canonical_u64_Inr
        split: list.splits option.splits if_splits prod.splits)
  then have "body = show_nat f @ 45 # show_nat t" by (simp add: split_once_Some)
  with u show "range_wf r \<and> fragment = show_range r"
    by (auto simp: range_lines_Inr range_bytes_Inr lit_chars split: if_splits)
next
  assume a: "range_wf r \<and> fragment = show_range r"
  have bound: "parse_canonical_u64 raw (show_nat n) = Inr n" if "n \<le> u64_max" for n
    using that by (simp add: parse_canonical_u64_Inr)
  have cut: "split_once 45 (show_nat f @ 45 # show_nat t) = Some (show_nat f, show_nat t)" for f t
    by (simp add: split_once_Some no_dash_in_digits)
  from a cut bound show "parse_range raw fragment = Inr r"
    by (cases r) (simp_all add: parse_range_def lit_chars range_lines_def range_bytes_def)
qed

lemma split_range_Inr:
  "split_range raw rest = Inr (body, rg) \<longleftrightarrow>
     35 \<notin> set body \<and> pred_option range_wf rg \<and> rest = body @ write_range rg"
proof (cases "split_once 35 rest")
  case None
  then have "35 \<notin> set rest" by (simp add: split_once_None)
  with None show ?thesis
    by (cases rg) (auto simp: split_range_def lit_chars)
next
  case (Some p)
  obtain b f where p: "p = (b, f)" by fastforce
  with Some have rest: "rest = b @ 35 # f" "35 \<notin> set b" by (simp_all add: split_once_Some)
  show ?thesis
  proof (cases rg)
    case None
    with Some p rest show ?thesis
      by (auto simp: split_range_def result_simps)
  next
    case (Some r)
    from rest have "rest = body @ 35 # show_range r \<and> 35 \<notin> set body \<longleftrightarrow> body = b \<and> f = show_range r"
      by (auto simp: sep_unique)
    with Some \<open>split_once 35 rest = Some p\<close> p show ?thesis
      by (auto simp: split_range_def result_simps parse_range_Inr lit_chars)
  qed
qed


section \<open>The whole grammar\<close>

lemma hex_no_mark: "\<forall>b \<in> set bs. b < 256 \<Longrightarrow> c = 35 \<or> c = 64 \<Longrightarrow> c \<notin> set (write_hex bs)"
proof
  assume "\<forall>b \<in> set bs. b < 256" "c = 35 \<or> c = 64" "c \<in> set (write_hex bs)"
  then obtain d where "d < 16" "c = hex_char d" using write_hex_chars by blast
  with \<open>c = 35 \<or> c = 64\<close> show False by (auto simp: hex_char_def split: if_splits)
qed

lemma parse_cas_Inr:
  "parse_cas raw rest = Inr l \<longleftrightarrow>
     (\<exists>hash rg. l = Cas hash rg \<and> locator_wf l \<and>
        rest = lit ''b3-'' @ write_hex (b3_bytes hash) @ write_range rg)"
proof
  assume "parse_cas raw rest = Inr l"
  then show "\<exists>hash rg. l = Cas hash rg \<and> locator_wf l \<and>
      rest = lit ''b3-'' @ write_hex (b3_bytes hash) @ write_range rg"
    by (auto simp: parse_cas_def result_simps split_range_Inr strip_prefix_Some decode_hex_fixed_Some)
next
  assume "\<exists>hash rg. l = Cas hash rg \<and> locator_wf l \<and>
      rest = lit ''b3-'' @ write_hex (b3_bytes hash) @ write_range rg"
  then obtain hash rg where l: "l = Cas hash rg" "locator_wf l"
    and rest: "rest = (lit ''b3-'' @ write_hex (b3_bytes hash)) @ write_range rg" by auto
  from l have "35 \<notin> set (lit ''b3-'' @ write_hex (b3_bytes hash))"
    using hex_no_mark by (auto simp: bytes_wf_def text_eval)
  with l rest have "split_range raw rest = Inr (lit ''b3-'' @ write_hex (b3_bytes hash), rg)"
    by (auto simp: split_range_Inr)
  moreover have "decode_hex_fixed 32 (write_hex (b3_bytes hash)) = Some (b3_bytes hash)"
    using l by (simp add: decode_hex_fixed_Some)
  ultimately show "parse_cas raw rest = Inr l"
    using l by (simp add: parse_cas_def)
qed

lemma parse_file_Inr:
  "parse_file raw rest = Inr l \<longleftrightarrow>
     (\<exists>a oid rg. l = File a oid rg \<and> locator_wf l \<and> 35 \<notin> set (addr_str a) \<and>
        rest = addr_str a @ lit ''@'' @ write_hex (oid_bytes oid) @ write_range rg)"
proof
  assume "parse_file raw rest = Inr l"
  then show "\<exists>a oid rg. l = File a oid rg \<and> locator_wf l \<and> 35 \<notin> set (addr_str a) \<and>
        rest = addr_str a @ lit ''@'' @ write_hex (oid_bytes oid) @ write_range rg"
    by (auto simp: parse_file_def result_simps split_range_Inr rsplit_once_Some address_parse_Inr
        git_oid_parse_Some lit_chars)
next
  assume "\<exists>a oid rg. l = File a oid rg \<and> locator_wf l \<and> 35 \<notin> set (addr_str a) \<and>
        rest = addr_str a @ lit ''@'' @ write_hex (oid_bytes oid) @ write_range rg"
  then obtain a oid rg where l: "l = File a oid rg" "locator_wf l" "35 \<notin> set (addr_str a)"
    and rest: "rest = (addr_str a @ 64 # write_hex (oid_bytes oid)) @ write_range rg"
    by (auto simp: lit_chars)
  let ?hex = "write_hex (oid_bytes oid)"
  from l have marks: "35 \<notin> set ?hex" "64 \<notin> set ?hex"
    using hex_no_mark by (auto simp: bytes_wf_def)
  with l rest have "split_range raw rest = Inr (addr_str a @ 64 # ?hex, rg)"
    by (auto simp: split_range_Inr)
  moreover have "rsplit_once 64 (addr_str a @ 64 # ?hex) = Some (addr_str a, ?hex)"
    using marks by (simp add: rsplit_once_Some)
  moreover have "git_oid_parse ?hex = Some oid"
    using l by (simp add: git_oid_parse_Some)
  moreover have "address_parse (addr_str a) = Inr a"
    using l by (cases a) (simp add: address_parse_Inr)
  ultimately show "parse_file raw rest = Inr l"
    using l by (simp add: parse_file_def)
qed

fun citable_address :: "locator \<Rightarrow> bool" where
  "citable_address (Cas _ _) \<longleftrightarrow> True"
| "citable_address (File a _ _) \<longleftrightarrow> 35 \<notin> set (addr_str a)"

lemma cas_tag: "lit ''cas:b3-'' = lit ''cas:'' @ lit ''b3-''"
  by (simp add: text_eval)

lemma schemes_differ: "lit ''cas:'' @ s \<noteq> lit ''file:'' @ t"
  by (simp add: text_eval)

lemma locator_parse_inner_Inr:
  "locator_parse_inner raw = Inr l \<longleftrightarrow> locator_wf l \<and> citable_address l \<and> raw = show_locator l"
proof (cases l)
  case (Cas hash rg)
  then show ?thesis
    by (auto simp: locator_parse_inner_def parse_cas_Inr parse_file_Inr cas_tag strip_prefix_Some
        split: option.splits if_splits)
next
  case (File a oid rg)
  then show ?thesis
    using schemes_differ
    by (auto simp: locator_parse_inner_def parse_cas_Inr parse_file_Inr strip_prefix_Some
        split: option.splits)
qed

lemma locator_parse_Inr:
  "locator_parse raw = Inr l \<longleftrightarrow> locator_wf l \<and> citable_address l \<and> raw = show_locator l"
  by (auto simp: locator_parse_def result_simps locator_parse_inner_Inr Let_def)


section \<open>Properties\<close>

text \<open>C14. The locator grammar is read and written without loss: a text parses to a locator
  exactly when it is the one text that locator prints, so no locator has a second spelling, and
  every well-formed locator whose file address has no fragment mark in it reads back as itself.\<close>

theorem locator_round_trip:
  "locator_parse raw = Inr l \<longleftrightarrow> locator_wf l \<and> citable_address l \<and> raw = show_locator l"
  by (rule locator_parse_Inr)

end
