(* ===== verification/Taints.thy ===== *)
theory Taints
  imports Text
begin

text \<open>
  \<open>kernel::taint\<close> (\<open>taint.rs\<close>): labels of where content came from, the union semilattice of
  their sets, and a value with its provenance fixed to it. A \<open>BTreeSet\<close> of labels is the strictly
  ascending list of them.
\<close>

section \<open>Sources and sets\<close>

datatype taint_source = TaintSource (source_str: rstr)

definition taint_source_new :: "rstr \<Rightarrow> taint_source option" where
  "taint_source_new label = (if label = [] then None else Some (TaintSource label))"

instantiation taint_source :: linorder
begin

definition less_eq_taint_source :: "taint_source \<Rightarrow> taint_source \<Rightarrow> bool" where
  "a \<le> b \<longleftrightarrow> source_str a \<le> source_str b"

definition less_taint_source :: "taint_source \<Rightarrow> taint_source \<Rightarrow> bool" where
  "a < b \<longleftrightarrow> source_str a < source_str b"

instance
  by standard (auto simp: less_eq_taint_source_def less_taint_source_def taint_source.expand)

end

datatype taint_set = TaintSet (taint_sources: "taint_source list")

definition taint_empty :: taint_set where
  "taint_empty = TaintSet []"

definition taint_of :: "taint_source \<Rightarrow> taint_set" where
  "taint_of source = TaintSet [source]"

definition taint_union :: "taint_set \<Rightarrow> taint_set \<Rightarrow> taint_set" where
  "taint_union a b = TaintSet (fold insort_insert (taint_sources b) (taint_sources a))"

definition taint_is_empty :: "taint_set \<Rightarrow> bool" where
  "taint_is_empty t \<longleftrightarrow> taint_sources t = []"

definition taint_contains :: "taint_set \<Rightarrow> taint_source \<Rightarrow> bool" where
  "taint_contains t source \<longleftrightarrow> source \<in> set (taint_sources t)"

definition taint_len :: "taint_set \<Rightarrow> nat" where
  "taint_len t = length (taint_sources t)"

definition show_taint :: "taint_set \<Rightarrow> rstr" where
  "show_taint t = join_with (lit '', '') (map source_str (taint_sources t))"

text \<open>What a \<open>BTreeSet\<close> keeps of itself.\<close>

definition taint_wf :: "taint_set \<Rightarrow> bool" where
  "taint_wf t \<longleftrightarrow> sorted_wrt (<) (taint_sources t)"


section \<open>Tainted values\<close>

datatype 'a tainted = Tainted (peek: 'a) (taint: taint_set)

definition tainted_new :: "'a \<Rightarrow> taint_source \<Rightarrow> 'a tainted" where
  "tainted_new value source = Tainted value (taint_of source)"

definition tainted_map :: "('a \<Rightarrow> 'b) \<Rightarrow> 'a tainted \<Rightarrow> 'b tainted" where
  "tainted_map f t = Tainted (f (peek t)) (taint t)"

definition tainted_join :: "('a \<Rightarrow> 'b \<Rightarrow> 'c) \<Rightarrow> 'a tainted \<Rightarrow> 'b tainted \<Rightarrow> 'c tainted" where
  "tainted_join f t u = Tainted (f (peek t) (peek u)) (taint_union (taint t) (taint u))"


section \<open>The semilattice\<close>

lemma fold_insort_set: "set (fold insort_insert ys xs) = set xs \<union> set ys"
  by (induction ys arbitrary: xs) (auto simp: set_insort_insert)

lemma fold_insort_sorted:
  "sorted xs \<and> distinct xs \<Longrightarrow> sorted (fold insort_insert ys xs) \<and> distinct (fold insort_insert ys xs)"
  by (induction ys arbitrary: xs) (auto simp: sorted_insort_insert distinct_insort_insert)

lemma taint_union_sources [simp]:
  "set (taint_sources (taint_union a b)) = set (taint_sources a) \<union> set (taint_sources b)"
  by (simp add: taint_union_def fold_insort_set)

lemma taint_union_wf: "taint_wf a \<Longrightarrow> taint_wf (taint_union a b)"
  using fold_insort_sorted [of "taint_sources a" "taint_sources b"]
  by (simp add: taint_wf_def taint_union_def strict_sorted_iff)

lemma taint_set_eqI:
  assumes "taint_wf a" "taint_wf b" "set (taint_sources a) = set (taint_sources b)"
  shows "a = b"
  using assms strict_sorted_equal [of "taint_sources a" "taint_sources b"]
  by (simp add: taint_wf_def taint_set.expand)

lemma taint_union_empty_iff: "taint_is_empty (taint_union a b) \<longleftrightarrow> taint_is_empty a \<and> taint_is_empty b"
  by (simp add: taint_is_empty_def flip: set_empty)

text \<open>
  A provenance that only grows: what every derivation promises of the labels it started from. The
  client lemma is that no chain of joins sheds a label.
\<close>

locale provenance =
  fixes bot :: "'t"
    and join :: "'t \<Rightarrow> 't \<Rightarrow> 't"
    and wf :: "'t \<Rightarrow> bool"
    and labels :: "'t \<Rightarrow> 'l set"
  assumes wf_bot: "wf bot"
    and wf_join: "wf a \<Longrightarrow> wf b \<Longrightarrow> wf (join a b)"
    and labels_bot: "labels bot = {}"
    and labels_join: "labels (join a b) = labels a \<union> labels b"
    and labels_inject: "wf a \<Longrightarrow> wf b \<Longrightarrow> labels a = labels b \<Longrightarrow> a = b"
begin

lemma join_assoc: "wf a \<Longrightarrow> wf b \<Longrightarrow> wf c \<Longrightarrow> join (join a b) c = join a (join b c)"
  by (intro labels_inject wf_join) (simp_all add: labels_join Un_assoc)

lemma join_comm: "wf a \<Longrightarrow> wf b \<Longrightarrow> join a b = join b a"
  by (intro labels_inject wf_join) (simp_all add: labels_join Un_commute)

lemma join_idem: "wf a \<Longrightarrow> join a a = a"
  by (intro labels_inject wf_join) (simp_all add: labels_join)

lemma join_bot: "wf a \<Longrightarrow> join bot a = a"
  by (intro labels_inject wf_join wf_bot) (simp_all add: labels_join labels_bot)

lemma fold_join_labels: "labels (fold join xs a) = labels a \<union> (\<Union>x \<in> set xs. labels x)"
  by (induction xs arbitrary: a) (auto simp: labels_join)

lemma fold_join_wf: "wf a \<Longrightarrow> (\<And>x. x \<in> set xs \<Longrightarrow> wf x) \<Longrightarrow> wf (fold join xs a)"
  by (induction xs arbitrary: a) (auto intro: wf_join)

end

interpretation taints: provenance taint_empty taint_union taint_wf "\<lambda>t. set (taint_sources t)"
proof unfold_locales
  show "taint_wf taint_empty" by (simp add: taint_wf_def taint_empty_def)
  show "set (taint_sources taint_empty) = {}" by (simp add: taint_empty_def)
qed (simp_all add: taint_union_wf taint_set_eqI)

text \<open>Derivations: everything the module lets a caller make out of outside content. A derivation
  is kept as a tree, so that what went into it can be read off: an input, a mapping of a
  derivation, or the joining of two.\<close>

datatype 'a derivation =
    FromInput "'a tainted"
  | ByMap "'a \<Rightarrow> 'a" "'a derivation"
  | ByJoin "'a \<Rightarrow> 'a \<Rightarrow> 'a" "'a derivation" "'a derivation"

primrec derive :: "'a derivation \<Rightarrow> 'a tainted" where
  "derive (FromInput t) = t"
| "derive (ByMap f d) = tainted_map f (derive d)"
| "derive (ByJoin f d e) = tainted_join f (derive d) (derive e)"

primrec inputs :: "'a derivation \<Rightarrow> 'a tainted list" where
  "inputs (FromInput t) = [t]"
| "inputs (ByMap f d) = inputs d"
| "inputs (ByJoin f d e) = inputs d @ inputs e"

lemma inputs_not_empty: "inputs d \<noteq> []"
  by (induction d) simp_all

lemma derive_sources:
  "set (taint_sources (taint (derive d))) = (\<Union>u \<in> set (inputs d). set (taint_sources (taint u)))"
  by (induction d) (auto simp: tainted_map_def tainted_join_def)

lemma derive_wf:
  "(\<And>u. u \<in> set (inputs d) \<Longrightarrow> taint_wf (taint u)) \<Longrightarrow> taint_wf (taint (derive d))"
  by (induction d) (auto simp: tainted_map_def tainted_join_def taint_union_wf)


section \<open>Properties\<close>

text \<open>C16. Outside content cannot be washed clean: whatever is derived from values that came in
  with a provenance, through any number of \<open>map\<close> and \<open>join\<close> steps, carries exactly the labels of
  the values that went into it, each of them once and in order: none is lost and none is invented,
  and so it is never empty.\<close>

theorem tainted_never_washes_clean:
  assumes "\<forall>u \<in> set (inputs d). \<exists>v s. u = tainted_new v s"
  shows "set (taint_sources (taint (derive d))) = {s. \<exists>v. tainted_new v s \<in> set (inputs d)} \<and>
         taint_wf (taint (derive d)) \<and> \<not> taint_is_empty (taint (derive d))"
proof -
  have labels: "taint (tainted_new v s) = TaintSet [s]" for v :: 'a and s
    by (simp add: tainted_new_def taint_of_def)
  have exact: "set (taint_sources (taint (derive d))) = {s. \<exists>v. tainted_new v s \<in> set (inputs d)}"
  proof (intro set_eqI iffI)
    fix s
    assume "s \<in> set (taint_sources (taint (derive d)))"
    then obtain u where u: "u \<in> set (inputs d)" "s \<in> set (taint_sources (taint u))"
      by (auto simp: derive_sources)
    obtain v r where "u = tainted_new v r" using assms u(1) by blast
    with u show "s \<in> {s. \<exists>v. tainted_new v s \<in> set (inputs d)}" by (auto simp: labels)
  next
    fix s
    assume "s \<in> {s. \<exists>v. tainted_new v s \<in> set (inputs d)}"
    then obtain v where "tainted_new v s \<in> set (inputs d)" by blast
    then have "set (taint_sources (taint (tainted_new v s))) \<subseteq> set (taint_sources (taint (derive d)))"
      unfolding derive_sources by (rule UN_upper)
    then show "s \<in> set (taint_sources (taint (derive d)))" by (simp add: labels)
  qed
  moreover have "taint_wf (taint u)" if u: "u \<in> set (inputs d)" for u
  proof -
    obtain v s where "u = tainted_new v s" using assms u by blast
    then show ?thesis by (simp add: labels taint_wf_def)
  qed
  moreover have "hd (inputs d) \<in> set (inputs d)" by (rule hd_in_set [OF inputs_not_empty])
  then obtain v s where "tainted_new v s \<in> set (inputs d)" using assms by metis
  then have "s \<in> set (taint_sources (taint (derive d)))" unfolding exact by blast
  then have "taint_sources (taint (derive d)) \<noteq> []" by auto
  ultimately show ?thesis by (simp add: derive_wf taint_is_empty_def)
qed

theorem tainted_never_washes_clean_witness:
  "let a = tainted_new (2::nat) (TaintSource (lit ''web:a''));
       b = tainted_new (3::nat) (TaintSource (lit ''file:b''));
       t = tainted_join (+) (tainted_map Suc a) b
   in peek t = 6 \<and>
      set (taint_sources (taint t)) = {TaintSource (lit ''web:a''), TaintSource (lit ''file:b'')}"
proof -
  let ?a = "tainted_new (2::nat) (TaintSource (lit ''web:a''))"
  let ?b = "tainted_new (3::nat) (TaintSource (lit ''file:b''))"
  let ?d = "ByJoin (+) (ByMap Suc (FromInput ?a)) (FromInput ?b)"
  have "\<forall>u \<in> set (inputs ?d). \<exists>v s. u = tainted_new v s" by auto
  from tainted_never_washes_clean [OF this] show ?thesis
    by (auto simp: Let_def tainted_join_def tainted_map_def tainted_new_def taint_of_def)
qed

end
