(* ===== verification/Tools.thy ===== *)
theory Tools
  imports Addresses
begin

text \<open>
  \<open>kernel::tool\<close> (\<open>tool.rs\<close>, \<open>tool/writes.rs\<close>): the names of tools and of the external servers
  that offer them, the namespaces no server may take, the effect class that routes a call to its
  gate, the three execution arms, and what a call may have written.
\<close>

section \<open>Names\<close>

datatype tool_name = ToolName (tool_str: rstr)

definition tool_name_parse :: "rstr \<Rightarrow> tool_name ax_result" where
  "tool_name_parse raw =
     (if raw \<noteq> [] \<and> list_all (\<lambda>c. is_ascii_lowercase c \<or> is_ascii_digit c \<or> c = 95) raw
      then Inr (ToolName raw)
      else Inl (with_recovery (lit ''use ascii lowercase, digits and underscore, non-empty'')
             (failure InvalidArgs (lit ''parse tool name'') raw)))"

datatype server_label = ServerLabel (label_str: rstr)

definition server_label_parse :: "rstr \<Rightarrow> server_label ax_result" where
  "server_label_parse raw =
     (if raw \<noteq> [] \<and> list_all (\<lambda>c. is_ascii_lowercase c \<or> is_ascii_digit c) raw
      then Inr (ServerLabel raw)
      else Inl (with_recovery (lit ''use ascii lowercase and digits, non-empty'')
             (failure InvalidArgs (lit ''name an mcp server'') raw)))"

datatype reserved_namespace = Computer | Media | Record | Skill | Sprawling | Web

definition reserved_namespace_ALL :: "reserved_namespace list" where
  "reserved_namespace_ALL = [Computer, Media, Record, Skill, Sprawling, Web]"

primrec reserved_namespace_as_str :: "reserved_namespace \<Rightarrow> rstr" where
  "reserved_namespace_as_str Computer = lit ''computer''"
| "reserved_namespace_as_str Media = lit ''media''"
| "reserved_namespace_as_str Record = lit ''record''"
| "reserved_namespace_as_str Skill = lit ''skill''"
| "reserved_namespace_as_str Sprawling = lit ''sprawling''"
| "reserved_namespace_as_str Web = lit ''web''"

definition reserved_namespace_named :: "rstr \<Rightarrow> reserved_namespace option" where
  "reserved_namespace_named raw =
     find (\<lambda>namespace. reserved_namespace_as_str namespace = raw) reserved_namespace_ALL"


section \<open>Effects\<close>

datatype effect =
    Read | Write address | Egress | Connector server_label | Spawn | Govern
  | AttachUserBrowser "rstr option" | Spend

datatype exec_arm = Program rstr "rstr list" | Python rstr | Shell rstr

datatype gate_subject = Area address | Room address | Scope rstr | Host rstr | NoSubject

datatype writes = Nothing | Paths "address list" | InDomain

fun writes_of :: "effect \<Rightarrow> writes" where
  "writes_of Read = Nothing"
| "writes_of (Write _) = InDomain"
| "writes_of Egress = InDomain"
| "writes_of (Connector _) = InDomain"
| "writes_of Spawn = InDomain"
| "writes_of Govern = InDomain"
| "writes_of (AttachUserBrowser _) = InDomain"
| "writes_of Spend = InDomain"

definition add_path :: "address \<Rightarrow> address list \<Rightarrow> address list" where
  "add_path path held = (if path \<in> set held then held else held @ [path])"

fun writes_and :: "writes \<Rightarrow> writes \<Rightarrow> writes" where
  "writes_and InDomain _ = InDomain"
| "writes_and _ InDomain = InDomain"
| "writes_and Nothing only = only"
| "writes_and only Nothing = only"
| "writes_and (Paths held) (Paths others) = Paths (fold add_path others held)"


section \<open>What the names promise\<close>

lemma server_label_parse_Inr:
  "server_label_parse raw = Inr l \<longleftrightarrow>
     l = ServerLabel raw \<and> raw \<noteq> [] \<and> (\<forall>c \<in> set raw. is_ascii_lowercase c \<or> is_ascii_digit c)"
  by (auto simp: server_label_parse_def list_all_iff)

lemma server_label_no_underscore: "server_label_parse raw = Inr l \<Longrightarrow> 95 \<notin> set (label_str l)"
  by (auto simp: server_label_parse_Inr is_ascii_lowercase_def is_ascii_digit_def)

lemma tool_name_parse_Inr:
  "tool_name_parse raw = Inr n \<longleftrightarrow>
     n = ToolName raw \<and> raw \<noteq> [] \<and>
     (\<forall>c \<in> set raw. is_ascii_lowercase c \<or> is_ascii_digit c \<or> c = 95)"
  by (auto simp: tool_name_parse_def list_all_iff)

lemma reserved_namespace_named_Some:
  "reserved_namespace_named raw = Some n \<longleftrightarrow> raw = reserved_namespace_as_str n"
proof
  assume "reserved_namespace_named raw = Some n"
  then show "raw = reserved_namespace_as_str n"
    by (auto simp: reserved_namespace_named_def find_Some_iff)
next
  assume "raw = reserved_namespace_as_str n"
  then show "reserved_namespace_named raw = Some n"
    by (cases n) (simp_all add: reserved_namespace_named_def reserved_namespace_ALL_def)
qed

text \<open>The files an answer covers, when the write domain is the set \<open>D\<close>: joining two answers
  covers what either covers.\<close>

fun covers :: "address set \<Rightarrow> writes \<Rightarrow> address set" where
  "covers D Nothing = {}"
| "covers D (Paths ps) = set ps"
| "covers D InDomain = D"

lemma fold_add_path: "set (fold add_path others held) = set held \<union> set others"
  by (induction others arbitrary: held) (auto simp: add_path_def)

lemma fold_add_path_distinct: "distinct held \<Longrightarrow> distinct (fold add_path others held)"
  by (induction others arbitrary: held) (auto simp: add_path_def)

lemma writes_and_covers:
  assumes "covers D a \<subseteq> D" "covers D b \<subseteq> D"
  shows "covers D (writes_and a b) = covers D a \<union> covers D b"
  using assms by (induction a b rule: writes_and.induct) (auto simp: fold_add_path)

end
