(* ===== verification/Discards.thy ===== *)
theory Discards
  imports Locators Taints Tools
begin

text \<open>
  \<open>kernel::discard\<close> (\<open>discard/request.rs\<close>, \<open>discard/verdict.rs\<close>, \<open>discard/forecast.rs\<close>): a
  deletion with its restoration, the decision table, and the reading of a command before it runs.
\<close>

section \<open>Requests\<close>

datatype restoration = Tracked locator | Interred locator | Rebuildable rstr

text \<open>\<open>ByteLen\<close> is a newtype over \<open>u64\<close> that this module only carries.\<close>

record discard =
  discard_paths :: "address list"
  discard_plan :: restoration
  discard_taint :: taint_set
  discard_total_bytes :: nat

fun plan_ok :: "restoration \<Rightarrow> bool" where
  "plan_ok (Tracked l) = (case l of File _ _ _ \<Rightarrow> True | _ \<Rightarrow> False)"
| "plan_ok (Interred l) = (case l of Cas _ _ \<Rightarrow> True | _ \<Rightarrow> False)"
| "plan_ok (Rebuildable reason) = (reason \<noteq> [])"

definition discard_new ::
  "address list \<Rightarrow> restoration \<Rightarrow> taint_set \<Rightarrow> nat \<Rightarrow> discard ax_result" where
  "discard_new paths plan tainted_by total_bytes =
     (if paths = [] then
        Inl (with_recovery (lit ''name at least one path in the `paths` argument of the call'')
          (failure InvalidArgs (lit ''construct discard'') (lit ''empty path list'')))
      else if \<not> plan_ok plan then
        Inl (with_recovery
          (lit ''Tracked cites a file: locator, Interred a cas: locator, Rebuildable a non-empty reason'')
          (failure DiscardIrreversible (lit ''construct discard'')
            (lit ''restoration plan does not resolve'')))
      else Inr \<lparr>discard_paths = paths, discard_plan = plan, discard_taint = tainted_by,
                discard_total_bytes = total_bytes\<rparr>)"

datatype discard_request =
    Planned discard
  | Unplanned "address list" taint_set nat

datatype deny_reason = NoRestoration | TaintedRequest

datatype discard_verdict = AllowDiscard | DenyDiscard deny_reason

fun decide :: "discard_request \<Rightarrow> discard_verdict" where
  "decide (Unplanned _ _ _) = DenyDiscard NoRestoration"
| "decide (Planned d) =
     (if taint_is_empty (discard_taint d) then AllowDiscard else DenyDiscard TaintedRequest)"


section \<open>Forecasts\<close>

definition SUSPECT_SNIPPETS_TEXT :: "rstr list" where
  "SUSPECT_SNIPPETS_TEXT =
     [lit ''rm '', lit ''rmdir'', lit ''-delete'', lit ''git reset --hard'', lit ''git clean'']"

definition SUSPECT_SNIPPETS_PYTHON :: "rstr list" where
  "SUSPECT_SNIPPETS_PYTHON = [lit ''os.remove'', lit ''shutil.rmtree'', lit ''os.unlink'']"

datatype discard_forecast = Clear | Suspected rstr

definition program_basename :: "rstr \<Rightarrow> rstr" where
  "program_basename path =
     (let name = rev (takeWhile (\<lambda>c. c \<noteq> 47 \<and> c \<noteq> 92) (rev path)) in
      case strip_suffix (lit ''.exe'') name of Some base \<Rightarrow> base | None \<Rightarrow> name)"

fun forecast :: "exec_arm \<Rightarrow> discard_forecast" where
  "forecast (Program path args) =
     (let base = program_basename path; joined = join_with (lit '' '') args in
      if base \<in> set [lit ''rm'', lit ''rmdir'', lit ''del''] then Suspected base
      else if base = lit ''git'' \<and>
              (contains_str (lit ''reset --hard'') joined \<or> contains_str (lit ''clean'') joined)
        then Suspected (lit ''git '' @ joined)
      else if base = lit ''find'' \<and> list_ex (\<lambda>a. a = lit ''-delete'') args
        then Suspected (lit ''find -delete'')
      else Clear)"
| "forecast (Python code) =
     (case find (\<lambda>pattern. contains_str pattern code)
             (SUSPECT_SNIPPETS_TEXT @ SUSPECT_SNIPPETS_PYTHON) of
        Some pattern \<Rightarrow> Suspected pattern
      | None \<Rightarrow>
          if contains_str (lit ''open('') code \<and>
             (contains_str ([39] @ lit ''w'' @ [39]) code \<or> contains_str ([34] @ lit ''w'' @ [34]) code)
          then Suspected (lit ''open(..., '' @ [39] @ lit ''w'' @ [39] @ lit '')'')
          else Clear)"
| "forecast (Shell text) =
     (case find (\<lambda>pattern. contains_str pattern text) SUSPECT_SNIPPETS_TEXT of
        Some pattern \<Rightarrow> Suspected pattern
      | None \<Rightarrow>
          if 62 \<in> set text \<and> \<not> contains_str (lit ''>>'') text
          then Suspected (lit ''> truncation'')
          else Clear)"


section \<open>The decision\<close>

lemma discard_new_Inr:
  "discard_new paths plan t n = Inr d \<longleftrightarrow>
     paths \<noteq> [] \<and> plan_ok plan \<and>
     d = \<lparr>discard_paths = paths, discard_plan = plan, discard_taint = t, discard_total_bytes = n\<rparr>"
  by (auto simp: discard_new_def)

lemma decide_Allow:
  "decide req = AllowDiscard \<longleftrightarrow> (\<exists>d. req = Planned d \<and> taint_is_empty (discard_taint d))"
  by (cases req) auto

lemma forecast_snippet:
  "contains_str p text \<Longrightarrow> p \<in> set SUSPECT_SNIPPETS_TEXT \<Longrightarrow>
     forecast (Shell text) \<noteq> Clear \<and> forecast (Python text) \<noteq> Clear"
  by (auto simp: find_None_iff split: option.splits)

end
