(* ===== verification/Gates.thy ===== *)
theory Gates
  imports WriteDomains Discards
begin

unbundle bit_operations_syntax

text \<open>
  \<open>kernel::gate\<close> with \<open>kernel::delegation\<close>: the ten doors (\<open>gate/domain.rs\<close>, \<open>gate/egress.rs\<close>,
  \<open>gate/discard.rs\<close>, \<open>gate/spawn.rs\<close>, \<open>gate/undoable.rs\<close>, \<open>gate/attach.rs\<close>,
  \<open>gate/command.rs\<close>), each a total function to an outcome, and the classification of a host by
  its text. The URL reader of \<open>host_of\<close> is a third-party crate and is an argument here.
\<close>

section \<open>Outcomes and the roster\<close>

datatype gate_outcome = Allow | Deny ax_error | Ask ax_error

datatype door_id =
    DoorDomain | DoorReach | DoorEgress | DoorEgressHost | DoorDiscard | DoorSpawn | DoorUndoable
  | DoorAttach | DoorCommand | DoorReplacing

definition DOORS :: "door_id list" where
  "DOORS = [DoorDomain, DoorReach, DoorEgress, DoorEgressHost, DoorDiscard, DoorSpawn,
     DoorUndoable, DoorAttach, DoorCommand, DoorReplacing]"

primrec door_as_str :: "door_id \<Rightarrow> rstr" where
  "door_as_str DoorDomain = lit ''domain''"
| "door_as_str DoorReach = lit ''reach''"
| "door_as_str DoorEgress = lit ''egress''"
| "door_as_str DoorEgressHost = lit ''egress_target''"
| "door_as_str DoorDiscard = lit ''discard''"
| "door_as_str DoorSpawn = lit ''spawn''"
| "door_as_str DoorUndoable = lit ''undoable''"
| "door_as_str DoorAttach = lit ''attach''"
| "door_as_str DoorCommand = lit ''command''"
| "door_as_str DoorReplacing = lit ''replacing''"


section \<open>The domain doors\<close>

definition gate_outside :: "address \<Rightarrow> rstr list \<Rightarrow> taint_set \<Rightarrow> gate_outcome" where
  "gate_outside target members carried =
     (let violation = lit ''target '' @ addr_str target @ lit '' is outside the write domain'' @
            (if taint_is_empty carried then []
             else lit ''; the action carries content from '' @ show_taint carried);
          alternative =
            (if members = []
             then lit ''this actor writes nowhere; read, or hand the change to an actor with a domain''
             else lit ''write under one of: '' @ join_with (lit '', '') members)
      in Deny (with_recovery
           (lit ''a write domain widens in one place only, the building's `.sprawling/RULES.toml`, which the User edits; ask the User for that change'')
           (with_nearby members
             (refusal OutsideWriteDomain (lit ''write file'') (addr_str target)
               (gate_refusal_new (lit ''writes land inside the write domain'') violation
                 alternative)))))"

definition gate_not_writable :: "address \<Rightarrow> document_reason \<Rightarrow> gate_outcome" where
  "gate_not_writable target reason =
     (let violation = (case reason of
            NotMarkdown \<Rightarrow> addr_str target @ lit '' is not a Markdown document''
          | ThePlan \<Rightarrow> addr_str target @ lit '' is a plan file, and no write domain reaches one'');
          alternative = (case reason of
            NotMarkdown \<Rightarrow> lit ''this actor writes documents; put what you have to say in a `.md` file, or hand the change to a resident whose domain takes code''
          | ThePlan \<Rightarrow> lit ''use the `plan` tool: it is the one editing entrance to '' @ ROADMAP_FILE @
              lit '', and it keeps the six-column table readable'')
      in Deny (with_recovery
           (lit ''the kinds of file this domain takes are declared in the building's `.sprawling/RULES.toml`, which the User edits; ask the User to change it'')
           (refusal OutsideWriteDomain (lit ''write file'') (addr_str target)
             (gate_refusal_new (lit ''this write domain writes Markdown documents and never a plan'')
               violation alternative))))"

definition gate_domain :: "write_domain \<Rightarrow> address \<Rightarrow> taint_set \<Rightarrow> gate_outcome" where
  "gate_domain d target carried =
     (case admits d target of
        Within \<Rightarrow> Allow
      | NotWritable reason \<Rightarrow> gate_not_writable target reason
      | Outside members \<Rightarrow> gate_outside target members carried)"

definition gate_reach :: "write_domain \<Rightarrow> address \<Rightarrow> taint_set \<Rightarrow> gate_outcome" where
  "gate_reach d area carried =
     (if reaches d area then Allow
      else gate_outside area (map addr_str (wd_prefixes d)) carried)"

definition gate_replacing :: "write_limit \<Rightarrow> address \<Rightarrow> gate_outcome" where
  "gate_replacing limit target =
     (case limit of
        Full \<Rightarrow> Allow
      | Create \<Rightarrow>
          Deny (with_recovery
            (lit ''the write limit is chosen when the work is dispatched; ask the User to dispatch it again with the full write limit to change existing files'')
            (refusal OutsideWriteDomain (lit ''write file'') (addr_str target)
              (gate_refusal_new (lit ''this run creates files and changes none'')
                (addr_str target @ lit '' would change what is already there, and this run was dispatched under the create write limit'')
                (lit ''write what you have to the path of a file that does not exist yet'')))))"


section \<open>Hosts\<close>

datatype egress_target =
    Loopback | Private | Public rstr | ConnectorTarget server_label

datatype url_reading = RelativeUrlWithoutBase | UrlError | UrlHost "rstr option"

definition malformed_host :: ax_error where
  "malformed_host =
     with_recovery (lit ''pass an absolute url, for example `https://example.com/page`'')
       (failure InvalidArgs (lit ''read a url'') (lit ''the url's host is not a host''))"

definition host_of :: "(rstr \<Rightarrow> url_reading) \<Rightarrow> rstr \<Rightarrow> rstr option ax_result" where
  "host_of url_parse url =
     (case url_parse (trim url) of
        RelativeUrlWithoutBase \<Rightarrow> Inr None
      | UrlError \<Rightarrow> Inl malformed_host
      | UrlHost None \<Rightarrow> Inr None
      | UrlHost (Some host) \<Rightarrow>
          Inr (if host = [] then None
               else Some (map to_ascii_lowercase
                      (trim_end_matches 93 (trim_start_matches 91 host)))))"

definition ipv4_octets :: "rstr \<Rightarrow> nat list option" where
  "ipv4_octets host =
     (case those (map (parse_uint u8_max) (split_on DOT host)) of
        Some octets \<Rightarrow> if length octets = 4 then Some octets else None
      | None \<Rightarrow> None)"

definition hex_digit_value :: "codepoint \<Rightarrow> nat option" where
  "hex_digit_value c =
     (if 48 \<le> c \<and> c \<le> 57 then Some (c - 48)
      else if 97 \<le> c \<and> c \<le> 102 then Some (c - 87)
      else if 65 \<le> c \<and> c \<le> 70 then Some (c - 55)
      else None)"

text \<open>\<open>u16::from_str_radix(text, 16)\<close>: one leading plus sign is allowed.\<close>

definition u16_from_hex :: "rstr \<Rightarrow> nat option" where
  "u16_from_hex raw =
     (let digits = (if raw \<noteq> [] \<and> hd raw = 43 then tl raw else raw) in
      if digits = [] then None
      else (case those (map hex_digit_value digits) of
              Some ds \<Rightarrow> (let v = fold (\<lambda>d acc. acc * 16 + d) ds 0 in
                         if v \<le> 65535 then Some v else None)
            | None \<Rightarrow> None))"

definition ipv6_leading :: "rstr \<Rightarrow> nat option" where
  "ipv6_leading host =
     (if 58 \<notin> set host then None else u16_from_hex (hd (split_on 58 host)))"

definition target_of :: "rstr \<Rightarrow> egress_target" where
  "target_of host =
     (let bare = map to_ascii_lowercase
            (trim_end_matches 93 (trim_start_matches 91 (trim_end_matches DOT (trim host)))) in
      if bare = lit ''localhost'' \<or> bare = lit ''::1'' then Loopback
      else
        (case ipv4_octets bare of
           Some (first # second # _) \<Rightarrow>
             if first = 127 then Loopback
             else if first = 10 \<or> (first = 192 \<and> second = 168) \<or>
                     (first = 172 \<and> 16 \<le> second \<and> second \<le> 31) \<or> (first = 169 \<and> second = 254)
               then Private
             else (case ipv6_leading bare of
                Some leading \<Rightarrow>
                  if leading AND 0xfe00 = 0xfc00 \<or> leading AND 0xffc0 = 0xfe80 then Private
                  else Public bare
              | None \<Rightarrow> Public bare)
         | _ \<Rightarrow> (case ipv6_leading bare of
                Some leading \<Rightarrow>
                  if leading AND 0xfe00 = 0xfc00 \<or> leading AND 0xffc0 = 0xfe80 then Private
                  else Public bare
              | None \<Rightarrow> Public bare)))"


section \<open>The egress doors\<close>

record secret_span =
  span_start :: nat
  span_len :: nat
  span_provider :: "rstr option"

datatype egress_outcome = AllowEgress bool | DenyEgress ax_error

definition gate_egress :: "secret_span list \<Rightarrow> egress_target \<Rightarrow> bool \<Rightarrow> egress_outcome" where
  "gate_egress spans target prior_public_egress =
     (if spans \<noteq> [] then
        DenyEgress (with_recovery
          (lit ''cut the bytes at the offsets above out of the payload and send the secret:<realm>/<name> reference in their place; `sprawling status --secrets` lists the references this machine holds'')
          (refusal SecretEgress (lit ''send bytes out'')
            (show_nat (length spans) @ lit '' secret-shaped span(s) at '' @
              join_with (lit '', '')
                (map (\<lambda>s. show_nat (span_start s) @ lit ''+'' @ show_nat (span_len s)) spans))
            (gate_refusal_new (lit ''credentials leave only as secret: references (C13)'')
              (lit ''the payload carries '' @ show_nat (length spans) @ lit '' secret-shaped span(s)'')
              (lit ''replace each span with its secret:<realm>/<name> reference; if a real credential already left, rotation is the only remedy''))))
      else AllowEgress
        ((case target of Public _ \<Rightarrow> True | ConnectorTarget _ \<Rightarrow> True | _ \<Rightarrow> False) \<and>
         \<not> prior_public_egress))"

datatype egress_allowlist = EgressAllowlist (suffixes: "rstr list")

definition allowlist_new :: "rstr list \<Rightarrow> egress_allowlist" where
  "allowlist_new entries =
     EgressAllowlist (remdups_adj (sort (filter (\<lambda>entry. entry \<noteq> [])
       (map (\<lambda>entry. map to_ascii_lowercase (trim_start_matches DOT (trim entry))) entries))))"

definition allowlist_admits :: "egress_allowlist \<Rightarrow> rstr \<Rightarrow> bool" where
  "allowlist_admits list host =
     (let host = map to_ascii_lowercase (trim_end_matches DOT host) in
      list_ex (\<lambda>allowed. host = allowed \<or>
          (case strip_suffix allowed host of Some head \<Rightarrow> ends_with [DOT] head | None \<Rightarrow> False))
        (suffixes list))"

definition gate_egress_target :: "egress_allowlist \<Rightarrow> egress_target \<Rightarrow> egress_outcome" where
  "gate_egress_target list target =
     (case target of
        ConnectorTarget _ \<Rightarrow> AllowEgress True
      | Loopback \<Rightarrow> AllowEgress False
      | Private \<Rightarrow> AllowEgress False
      | Public host \<Rightarrow>
          if allowlist_admits list host then AllowEgress True
          else DenyEgress (with_recovery
            (lit ''the egress list lives in the building's `.sprawling/RULES.toml`, which the User edits; ask the User to add '' @ host @ lit '' to it'')
            (refusal GateDenied (lit ''reach a host outside this building's egress list'') host
              (gate_refusal_new (lit ''a building reaches only the domains it names'')
                (host @ lit '' is not one of them'')
                (if suffixes list = []
                 then lit ''this building reaches nothing public; add a domain to its egress list, or do the work in a building that has one''
                 else lit ''reachable domains here: '' @ join_with (lit '', '') (suffixes list))))))"


section \<open>Delegation and the spawn door\<close>

datatype delegate_kind = Resident | Ephemeral

fun delegate_kind_as_str :: "delegate_kind \<Rightarrow> rstr" where
  "delegate_kind_as_str Resident = lit ''resident''"
| "delegate_kind_as_str Ephemeral = lit ''ephemeral''"

datatype depth = Root | Delegated

datatype delegation_verdict = AllowSpawn | DenySpawn

fun delegation_admit :: "depth \<Rightarrow> delegate_kind \<Rightarrow> delegation_verdict" where
  "delegation_admit Root Resident = AllowSpawn"
| "delegation_admit Root Ephemeral = AllowSpawn"
| "delegation_admit Delegated _ = DenySpawn"

definition gate_spawn :: "depth \<Rightarrow> delegate_kind \<Rightarrow> gate_outcome" where
  "gate_spawn parent kind =
     (case delegation_admit parent kind of
        AllowSpawn \<Rightarrow> Allow
      | DenySpawn \<Rightarrow>
          Deny (with_recovery
            (lit ''finish this subtask yourself, or end the turn with what you have so the resident who spawned you can delegate the rest'')
            (refusal DelegationDepth (lit ''spawn delegate'')
              (case kind of Resident \<Rightarrow> lit ''Resident'' | Ephemeral \<Rightarrow> lit ''Ephemeral'')
              (gate_refusal_new (lit ''delegates do not delegate: one level deep'')
                (lit ''a delegated position requested a spawn'')
                (lit ''return this subtask to the resident who spawned you; that resident can delegate it'')))))"


section \<open>The discard, undoable, attach and command doors\<close>

definition gate_discard :: "discard_request \<Rightarrow> rstr \<Rightarrow> gate_outcome" where
  "gate_discard req action_desc =
     (case decide req of
        AllowDiscard \<Rightarrow> Allow
      | DenyDiscard NoRestoration \<Rightarrow>
          Deny (with_recovery
            (lit ''call `discard` again with a restoration: a `file:` locator for a tracked file, or a `cas:` locator from interring the originals first'')
            (refusal DiscardIrreversible (lit ''discard files'') action_desc
              (gate_refusal_new (lit ''every discard carries a resolvable restoration (C14)'')
                (lit ''this request names no restoration plan'')
                (lit ''inter the originals in CAS (Interred) and retry with that locator, or cite the `file:` locator of the tracked copy''))))
      | DenyDiscard TaintedRequest \<Rightarrow>
          Deny (with_recovery
            (lit ''re-raise the discard from work that did not start outside the city, or add the source to `[sandbox] trusted` in `CONFIG.toml` if this city trusts it'')
            (refusal TaintedAction (lit ''discard files'') action_desc
              (gate_refusal_new (lit ''an effect a run derived from outside content is refused (C15)'')
                (lit ''this request carries taint, so something outside the city asked for it'')
                (lit ''delete nothing on behalf of fetched content; if the deletion is your own conclusion, state it in a run that did not read that content'')))))"

record connector_call =
  call_label :: server_label
  call_tool :: tool_name

definition REACHES_THIS_MACHINE :: rstr where
  "REACHES_THIS_MACHINE = lit ''desktop.''"

definition reaches_the_undoable :: "connector_call \<Rightarrow> bool" where
  "reaches_the_undoable call =
     (case strip_prefix (label_str (call_label call) @ lit ''_'') (tool_str (call_tool call)) of
        None \<Rightarrow> False
      | Some remote \<Rightarrow>
          starts_with (map (\<lambda>c. if c = DOT then 95 else c) REACHES_THIS_MACHINE) remote)"

text \<open>\<open>SandboxLimits::trusts\<close> over the field \<open>trusted\<close>, the only part of the sandbox this door reads.\<close>

definition sandbox_trusts :: "server_label list \<Rightarrow> server_label \<Rightarrow> bool" where
  "sandbox_trusts trusted label \<longleftrightarrow> list_ex (\<lambda>allowed. allowed = label) trusted"

definition gate_undoable ::
  "connector_call \<Rightarrow> server_label list \<Rightarrow> taint_set \<Rightarrow> gate_outcome" where
  "gate_undoable call trusted carried =
     (let label = label_str (call_label call) in
      if \<not> reaches_the_undoable call then Allow
      else if \<not> taint_is_empty carried then
        Deny (with_recovery
          (lit ''do this from work that did not start outside the city, or add that source to `[sandbox] trusted` in `CONFIG.toml`'')
          (refusal TaintedAction (lit ''reach this machine's desktop'') (tool_str (call_tool call))
            (gate_refusal_new (lit ''an effect a run derived from outside content is refused (C15)'')
              (lit ''this call carries content from '' @ show_taint carried @
                lit '', and nothing here undoes what it would do'')
              (lit ''report what the outside content asked for instead of doing it; the User can then act on their own machine themselves''))))
      else if sandbox_trusts trusted (call_label call) then Allow
      else
        Deny (with_recovery
          (lit ''add `'' @ label @ lit ''` to `[sandbox] trusted` in `CONFIG.toml`; the sandbox is frozen at the start of a run, so the change takes effect in the next one'')
          (with_nearby (map label_str trusted)
            (refusal GateDenied (lit ''reach this machine's desktop'') (tool_str (call_tool call))
              (gate_refusal_new (lit ''a connector reaches this machine only when the floor names it'')
                (lit ''`'' @ label @ lit ''` is not one of the connectors it names'')
                (if trusted = []
                 then lit ''this floor trusts no connector with the machine it runs on; do the work with files in the city, which a checkpoint can put back''
                 else lit ''connectors this floor trusts: '' @
                   join_with (lit '', '') (map label_str trusted)))))))"

definition attach_subject_of :: "egress_target \<Rightarrow> rstr" where
  "attach_subject_of target =
     (case target of
        Loopback \<Rightarrow> lit ''loopback''
      | Private \<Rightarrow> lit ''a host on the same private network''
      | Public host \<Rightarrow> host
      | ConnectorTarget label \<Rightarrow> lit ''connector '' @ label_str label)"

definition gate_attach :: "egress_target option \<Rightarrow> gate_outcome" where
  "gate_attach endpoint =
     (case endpoint of
        None \<Rightarrow>
          Ask (with_recovery
            (lit ''start the browser with remote debugging, copy the ws://127.0.0.1:<port>/session address it prints, and add `usersbrowser = '' @ [34] @ lit ''<that address>'' @ [34] @ lit ''` to the building's RULES.toml; the next dispatch picks it up. Only the User can do this, because it is their logins the attachment reaches'')
            (refusal ApprovalPending (lit ''attach to the User's browser'')
              (lit ''no browser address is declared'')
              (gate_refusal_new
                (lit ''a run drives the User's browser only where the User has told it to listen'')
                (lit ''this building enabled `usersbrowser` and declared no address'')
                (lit ''ask the User for the address their browser is listening on, and have them put it on a `usersbrowser` key in RULES.toml''))))
      | Some Loopback \<Rightarrow> Allow
      | Some other \<Rightarrow>
          Deny (with_recovery
            (lit ''attach only reaches a browser on this machine; declare a loopback address, or keep using the `browser` tool, which this city starts itself'')
            (refusal GateDenied (lit ''attach to the User's browser'') (attach_subject_of other)
              (gate_refusal_new (lit ''a browser attachment stays on this machine'')
                (lit ''the declared address is not loopback'')
                (lit ''declare the ws://127.0.0.1:<port>/session address the browser itself prints'')))))"

definition gate_command :: "taint_set \<Rightarrow> gate_outcome" where
  "gate_command carried =
     (if taint_is_empty carried then Allow
      else Deny (with_recovery
        (lit ''run the command from work that did not start outside the city; the User can hand the same task over as their own'')
        (refusal TaintedAction (lit ''run a command'') (lit ''exec'')
          (gate_refusal_new (lit ''a run started by outside content runs no command (C15)'')
            (lit ''this run carries content from '' @ show_taint carried @
              lit '', and a command can do anything its text says'')
            (lit ''read, edit inside the write domain, or report what the outside content asked for instead of running it'')))))"



section \<open>The contract every door keeps\<close>




named_theorems door_defs \<open>definitions of the ten doors\<close>

lemmas [door_defs] = gate_domain_def gate_reach_def gate_replacing_def gate_outside_def
  gate_not_writable_def gate_egress_def gate_egress_target_def gate_spawn_def gate_discard_def
  gate_undoable_def gate_attach_def gate_command_def











section \<open>Hosts and the allow list\<close>

lemma dotted_suffix:
  "h = a \<or> (\<exists>u. h = u @ DOT # a) \<longleftrightarrow> suffix (split_on DOT a) (split_on DOT h)"
proof
  assume "h = a \<or> (\<exists>u. h = u @ DOT # a)"
  then show "suffix (split_on DOT a) (split_on DOT h)"
    by (auto simp: split_on_append suffix_def)
next
  assume "suffix (split_on DOT a) (split_on DOT h)"
  then obtain xs where xs: "split_on DOT h = xs @ split_on DOT a" by (auto simp: suffix_def)
  show "h = a \<or> (\<exists>u. h = u @ DOT # a)"
  proof (cases "xs = []")
    case True
    with xs show ?thesis by (auto dest: split_on_inject)
  next
    case False
    have "h = join_with [DOT] (xs @ split_on DOT a)" using xs by (metis join_split)
    then have "h = join_with [DOT] xs @ DOT # a"
      using False by (simp add: join_with_append join_split)
    then show ?thesis by blast
  qed
qed

lemma allowed_iff:
  "(h = a \<or> (case strip_suffix a h of Some head \<Rightarrow> ends_with [DOT] head | None \<Rightarrow> False)) \<longleftrightarrow>
   suffix (split_on DOT a) (split_on DOT h)"
  unfolding dotted_suffix [symmetric]
  by (auto simp: strip_suffix_Some ends_with_iff split: option.splits)
    (metis append.assoc append_Cons append_Nil option.distinct(1) strip_suffix_Some)

lemma set_allowlist_new:
  "set (suffixes (allowlist_new entries)) =
     {map to_ascii_lowercase (trim_start_matches DOT (trim e)) | e.
        e \<in> set entries \<and> trim_start_matches DOT (trim e) \<noteq> []}"
  by (auto simp: allowlist_new_def)

definition dotted :: "nat list \<Rightarrow> rstr" where
  "dotted octets = join_with [DOT] (map show_nat octets)"

lemma lower_plain: "(\<forall>c \<in> set s. c < 65) \<Longrightarrow> map to_ascii_lowercase s = s"
  by (induction s) (auto simp: to_ascii_lowercase_def)

lemma show_nat_small: "c \<in> set (show_nat n) \<Longrightarrow> 48 \<le> c \<and> c \<le> 57"
  using show_nat_digit by (auto simp: is_ascii_digit_def)

lemma dotted_chars: "c \<in> set (dotted os) \<Longrightarrow> c = DOT \<or> (48 \<le> c \<and> c \<le> 57)"
  unfolding dotted_def using set_join [of "[DOT]" "map show_nat os"] show_nat_small by fastforce

lemma dotted_ends:
  assumes "os \<noteq> []"
  shows "48 \<le> hd (dotted os) \<and> hd (dotted os) \<le> 57" "48 \<le> last (dotted os) \<and> last (dotted os) \<le> 57"
    "dotted os \<noteq> []"
proof -
  have "hd (dotted os) = hd (show_nat (hd os))" "last (dotted os) = last (show_nat (last os))"
    unfolding dotted_def using assms by (simp_all add: join_hd join_last hd_map last_map)
  then show "48 \<le> hd (dotted os) \<and> hd (dotted os) \<le> 57" "48 \<le> last (dotted os) \<and> last (dotted os) \<le> 57"
    using show_nat_small [OF hd_in_set] show_nat_small [OF last_in_set] by simp_all
  show "dotted os \<noteq> []"
    unfolding dotted_def using assms by (cases os rule: remdups_adj.cases) auto
qed

lemma trim_ends_plain:
  assumes "s \<noteq> []" "48 \<le> hd s \<and> hd s \<le> 57" "48 \<le> last s \<and> last s \<le> 57"
  shows "trim s = s" "trim_end_matches DOT s = s" "trim_start_matches 91 s = s" "trim_end_matches 93 s = s"
proof -
  show "trim s = s"
    using assms by (intro trim_trimmed) (auto simp: trimmed_def is_whitespace_def)
  obtain x xs where x: "s = x # xs" using assms(1) by (cases s) auto
  show "trim_start_matches 91 s = s"
    using assms x by (simp add: trim_start_matches_def)
  obtain y ys where y: "rev s = y # ys" "y = last s"
    using assms(1) by (metis hd_rev list.collapse rev_is_Nil_conv)
  have "y \<noteq> DOT" "y \<noteq> 93" using assms(3) y by auto
  then have "dropWhile (\<lambda>x. x = DOT) (rev s) = rev s" "dropWhile (\<lambda>x. x = 93) (rev s) = rev s"
    unfolding y(1) by simp_all
  then show "trim_end_matches DOT s = s" "trim_end_matches 93 s = s"
    unfolding trim_end_matches_def by simp_all
qed

lemma ipv4_octets_dotted:
  assumes "\<forall>n \<in> set os. n \<le> 255" "length os = 4"
  shows "ipv4_octets (dotted os) = Some os"
proof -
  have "os \<noteq> []" using assms(2) by auto
  then have "split_on DOT (dotted os) = map show_nat os"
    unfolding dotted_def by (intro split_join) (auto dest: show_nat_small)
  moreover have "those (map (parse_uint u8_max) (map show_nat ns)) = Some ns"
    if "\<forall>n \<in> set ns. n \<le> 255" for ns
    using that by (induction ns) (simp_all add: parse_show u_defs)
  ultimately show ?thesis using assms by (simp add: ipv4_octets_def)
qed

lemma dotted_bare:
  assumes "os \<noteq> []"
  shows "map to_ascii_lowercase
    (trim_end_matches 93 (trim_start_matches 91 (trim_end_matches DOT (trim (dotted os))))) = dotted os"
  using trim_ends_plain [OF dotted_ends(3,1,2) [OF assms]] dotted_chars [of _ os]
  by (simp add: lower_plain) (rule lower_plain, fastforce)

lemma dotted_no_colon: "58 \<notin> set (dotted os)"
  using dotted_chars [of 58 os] by auto

lemma dotted_not_localhost: "os \<noteq> [] \<Longrightarrow> dotted os \<noteq> lit ''localhost''" "os \<noteq> [] \<Longrightarrow> dotted os \<noteq> lit ''::1''"
  using dotted_ends(1) [of os] by (auto simp: text_eval)


section \<open>Properties\<close>





















text \<open>C17. Outside content starts nothing that cannot be taken back: a run that carries any
  taint is refused, with \<open>E_TAINTED_ACTION\<close>, every command, every planned discard and every call
  that reaches this machine's desktop, whatever connectors the floor trusts.\<close>

theorem tainted_run_is_refused:
  assumes "\<not> taint_is_empty t"
  shows "(\<exists>e. gate_command t = Deny e \<and> err_code e = TaintedAction) \<and>
     (\<exists>e. gate_discard (Planned (d\<lparr>discard_taint := t\<rparr>)) what = Deny e \<and> err_code e = TaintedAction) \<and>
     (if reaches_the_undoable call
      then (\<exists>e. gate_undoable call trusted t = Deny e \<and> err_code e = TaintedAction)
      else gate_undoable call trusted t = Allow)"
  using assms by (simp add: gate_command_def gate_discard_def gate_undoable_def Let_def)

theorem tainted_run_is_refused_witness:
  "let t = taint_of (TaintSource (lit ''web:evil''));
       desk = ServerLabel (lit ''desk'');
       call = \<lparr>call_label = desk, call_tool = ToolName (lit ''desk_desktop_act'')\<rparr>
   in \<exists>e. gate_undoable call [desk] t = Deny e \<and> err_code e = TaintedAction"
proof -
  let ?t = "taint_of (TaintSource (lit ''web:evil''))"
  let ?call = "\<lparr>call_label = ServerLabel (lit ''desk''), call_tool = ToolName (lit ''desk_desktop_act'')\<rparr>"
  have "\<not> taint_is_empty ?t" by (simp add: taint_is_empty_def taint_of_def)
  note refused = tainted_run_is_refused [OF this]
  have "reaches_the_undoable ?call"
    by (simp add: reaches_the_undoable_def REACHES_THIS_MACHINE_def strip_prefix_def
        starts_with_def text_eval)
  with refused [where call = ?call and trusted = "[ServerLabel (lit ''desk'')]"] show ?thesis
    by (simp add: Let_def)
qed

text \<open>The undoable door cannot mistake where a label ends: for any two server labels the
  constructor admits, a tool of the second reaches the desktop under the first exactly when the
  labels are the same and the remote name starts with \<open>desktop_\<close>.\<close>

lemma undoable_label_is_unambiguous:
  assumes "server_label_parse a = Inr la" "server_label_parse b = Inr lb"
  shows "reaches_the_undoable \<lparr>call_label = la, call_tool = ToolName (label_str lb @ lit ''_'' @ remote)\<rparr>
     \<longleftrightarrow> la = lb \<and> starts_with (lit ''desktop_'') remote"
proof -
  have no: "95 \<notin> set (label_str la)" "95 \<notin> set (label_str lb)"
    using assms by (simp_all add: server_label_no_underscore)
  have san: "map (\<lambda>c. if c = DOT then 95 else c) REACHES_THIS_MACHINE = lit ''desktop_''"
    by (simp add: REACHES_THIS_MACHINE_def text_eval)
  have us: "lit ''_'' = [95]" by (simp add: text_eval)
  have "strip_prefix (label_str la @ lit ''_'') (label_str lb @ lit ''_'' @ remote) = Some r
      \<longleftrightarrow> la = lb \<and> r = remote" for r
    using sep_unique [OF no(2,1), of remote r]
    by (auto simp: strip_prefix_Some us server_label.expand)
  then have "strip_prefix (label_str la @ lit ''_'') (label_str lb @ lit ''_'' @ remote) =
      (if la = lb then Some remote else None)"
    by (metis not_Some_eq)
  then show ?thesis
    unfolding reaches_the_undoable_def san by simp
qed

lemma undoable_label_is_unambiguous_witness:
  "\<not> reaches_the_undoable \<lparr>call_label = ServerLabel (lit ''notes''),
      call_tool = ToolName (lit ''desk'' @ lit ''_'' @ lit ''desktop_act'')\<rparr>"
proof -
  have "server_label_parse (lit ''notes'') = Inr (ServerLabel (lit ''notes''))"
    "server_label_parse (lit ''desk'') = Inr (ServerLabel (lit ''desk''))"
    by (simp_all add: server_label_parse_def text_eval is_ascii_lowercase_def is_ascii_digit_def)
  from undoable_label_is_unambiguous [OF this, of "lit ''desktop_act''"] show ?thesis by simp
qed

text \<open>C19. An egress allow list admits a host exactly when the labels of one of its entries end
  the labels of the host, case and the root dot ignored: \<open>notexample.com\<close> never matches
  \<open>example.com\<close>, and an entry with no label in it admits nothing.\<close>

theorem allowlist_matches_whole_labels:
  "allowlist_admits (allowlist_new entries) host \<longleftrightarrow>
     (\<exists>e \<in> set entries. trim_start_matches DOT (trim e) \<noteq> [] \<and>
        suffix (split_on DOT (map to_ascii_lowercase (trim_start_matches DOT (trim e))))
               (split_on DOT (map to_ascii_lowercase (trim_end_matches DOT host))))"
  unfolding allowlist_admits_def Let_def list_ex_iff allowed_iff set_allowlist_new by auto

text \<open>A dotted IPv4 address is classified by its octets: loopback is \<open>127/8\<close>, private is
  \<open>10/8\<close>, \<open>192.168/16\<close>, \<open>172.16/12\<close> or \<open>169.254/16\<close>, and every other address is public under
  its own text.\<close>

lemma target_of_ipv4:
  assumes "a \<le> 255" "b \<le> 255" "c \<le> 255" "d \<le> 255"
  shows "target_of (dotted [a, b, c, d]) =
     (if a = 127 then Loopback
      else if a = 10 \<or> (a = 192 \<and> b = 168) \<or> (a = 172 \<and> 16 \<le> b \<and> b < 32) \<or> (a = 169 \<and> b = 254)
        then Private
      else Public (dotted [a, b, c, d]))"
proof -
  have second: "b \<le> 31 \<longleftrightarrow> b < 32" by linarith
  have octets: "ipv4_octets (dotted [a, b, c, d]) = Some [a, b, c, d]"
    using assms by (intro ipv4_octets_dotted) auto
  have group: "ipv6_leading (dotted [a, b, c, d]) = None"
    by (simp add: ipv6_leading_def dotted_no_colon)
  have bare: "map to_ascii_lowercase (trim_end_matches 93 (trim_start_matches 91
      (trim_end_matches DOT (trim (dotted [a, b, c, d]))))) = dotted [a, b, c, d]"
    by (rule dotted_bare) simp
  have names: "dotted [a, b, c, d] \<noteq> lit ''localhost''" "dotted [a, b, c, d] \<noteq> lit ''::1''"
    by (rule dotted_not_localhost, simp)+
  show ?thesis
    unfolding target_of_def Let_def bare
    by (simp only: names octets group second option.case list.case if_False simp_thms)
qed

lemma target_of_ipv4_witness:
  "target_of (dotted [172, 31, 0, 1]) = Private \<and> target_of (dotted [172, 32, 0, 1]) \<noteq> Private"
  using target_of_ipv4 [of 172 31 0 1] target_of_ipv4 [of 172 32 0 1] by simp

end
