(* ===== verification/NodeIds.thy ===== *)
theory NodeIds
  imports Errors
begin

text \<open>
  \<open>kernel::node_id\<close> (\<open>node_id.rs\<close>): the dotted index of a plan node, its one parser, and the
  family relations read off its text. The specification is the list of numbers an index spells:
  every operation on the text is an operation on that list.
\<close>

section \<open>Indices\<close>

abbreviation NDOT :: codepoint where
  "NDOT \<equiv> 46"

definition NODE_DEPTH_MAX :: nat where
  "NODE_DEPTH_MAX = 10"

datatype node_id = NodeId (node_str: rstr)

text \<open>The derived order compares the texts.\<close>

instantiation node_id :: linorder
begin

definition less_eq_node_id :: "node_id \<Rightarrow> node_id \<Rightarrow> bool" where
  "a \<le> b \<longleftrightarrow> node_str a \<le> node_str b"

definition less_node_id :: "node_id \<Rightarrow> node_id \<Rightarrow> bool" where
  "a < b \<longleftrightarrow> node_str a < node_str b"

instance
  by standard (auto simp: less_eq_node_id_def less_node_id_def node_id.expand)

end

definition node_refuse :: "rstr \<Rightarrow> ax_error" where
  "node_refuse why =
     with_recovery (lit ''write the index as dotted numbers from one, such as `2.3.1`'')
       (failure InvalidArgs (lit ''read a plan index'') why)"

definition index_violation :: "rstr \<Rightarrow> rstr option" where
  "index_violation segment =
     (if segment = [] \<or> \<not> list_all is_ascii_digit segment
        then Some (lit ''`'' @ segment @ lit ''` is not a number'')
      else if hd segment = 48 then Some (lit ''`'' @ segment @ lit ''` has a leading zero'')
      else if parse_uint u32_max segment = None
        then Some (lit ''`'' @ segment @ lit ''` does not fit a plan index'')
      else None)"

definition node_parse :: "rstr \<Rightarrow> node_id ax_result" where
  "node_parse raw =
     (let text = trim raw; segs = split_on NDOT text in
      if text = [] then Inl (node_refuse (lit ''the cell is empty''))
      else if NODE_DEPTH_MAX < length segs then
        Inl (node_refuse (show_nat (length segs) @ lit '' levels deep, the plan holds '' @
          show_nat NODE_DEPTH_MAX))
      else (case first_some index_violation segs of
              Some why \<Rightarrow> Inl (node_refuse why)
            | None \<Rightarrow> Inr (NodeId (join_with [NDOT] segs))))"

definition parent :: "node_id \<Rightarrow> node_id option" where
  "parent n = map_option (\<lambda>(head, _). NodeId head) (rsplit_once NDOT (node_str n))"

definition ordinal :: "node_id \<Rightarrow> nat" where
  "ordinal n =
     (let tail = (case rsplit_once NDOT (node_str n) of None \<Rightarrow> node_str n | Some (_, tail) \<Rightarrow> tail) in
      case parse_uint u32_max tail of Some v \<Rightarrow> v | None \<Rightarrow> 0)"

definition node_depth :: "node_id \<Rightarrow> nat" where
  "node_depth n = length (split_on NDOT (node_str n))"

definition is_ancestor_of :: "node_id \<Rightarrow> node_id \<Rightarrow> bool" where
  "is_ancestor_of n other \<longleftrightarrow>
     length (node_str n) < length (node_str other) \<and>
     starts_with (node_str n) (node_str other) \<and> node_str other ! length (node_str n) = NDOT"

lemma parent_shorter [termination_simp]:
  "parent n = Some p \<Longrightarrow> length (node_str p) < length (node_str n)"
  by (auto simp: parent_def rsplit_once_Some)

text \<open>The walk upwards, farthest ancestor first once it is reversed.\<close>

function climb :: "node_id option \<Rightarrow> node_id list" where
  "climb None = []"
| "climb (Some held) = held # climb (parent held)"
  by pat_completeness auto

termination climb
proof (relation "measure (\<lambda>w. case w of None \<Rightarrow> 0 | Some n \<Rightarrow> Suc (length (node_str n)))")
  fix held :: node_id
  show "(parent held, Some held) \<in>
      measure (\<lambda>w. case w of None \<Rightarrow> 0 | Some n \<Rightarrow> Suc (length (node_str n)))"
    using parent_shorter by (cases "parent held") fastforce+
qed simp

definition ancestors :: "node_id \<Rightarrow> node_id list" where
  "ancestors n = rev (climb (parent n))"

definition child :: "node_id \<Rightarrow> nat \<Rightarrow> node_id ax_result" where
  "child n ord = node_parse (node_str n @ [NDOT] @ show_nat ord)"


section \<open>The numbers an index spells\<close>

definition node_path :: "node_id \<Rightarrow> nat list" where
  "node_path n = map (digits_value 0) (split_on NDOT (node_str n))"

definition node_of :: "nat list \<Rightarrow> node_id" where
  "node_of path = NodeId (join_with [NDOT] (map show_nat path))"

definition path_wf :: "nat list \<Rightarrow> bool" where
  "path_wf path \<longleftrightarrow> path \<noteq> [] \<and> length path \<le> NODE_DEPTH_MAX \<and> (\<forall>k \<in> set path. 0 < k \<and> k \<le> u32_max)"

definition node_wf :: "node_id \<Rightarrow> bool" where
  "node_wf n \<longleftrightarrow> (\<exists>path. path_wf path \<and> n = node_of path)"

lemma show_nat_no_dot: "NDOT \<notin> set (show_nat k)"
  using show_nat_digit [of NDOT k] by (auto simp: is_ascii_digit_def)

lemma split_node_of: "path \<noteq> [] \<Longrightarrow> split_on NDOT (node_str (node_of path)) = map show_nat path"
  unfolding node_of_def by (simp, intro split_join) (auto simp: show_nat_no_dot)

lemma node_path_of [simp]: "path \<noteq> [] \<Longrightarrow> node_path (node_of path) = path"
  by (simp add: node_path_def split_node_of comp_def)

lemma node_of_path [simp]: "node_wf n \<Longrightarrow> node_of (node_path n) = n"
  by (auto simp: node_wf_def path_wf_def)

lemma path_wf_node_path [simp]: "node_wf n \<Longrightarrow> path_wf (node_path n)"
  by (auto simp: node_wf_def path_wf_def)

lemma node_wf_of [intro]: "path_wf path \<Longrightarrow> node_wf (node_of path)"
  by (auto simp: node_wf_def)

lemma node_path_inject: "node_wf a \<Longrightarrow> node_wf b \<Longrightarrow> node_path a = node_path b \<longleftrightarrow> a = b"
  by (metis node_of_path)

lemma canonical_number:
  assumes "index_violation s = None"
  shows "s = show_nat (digits_value 0 s)" "0 < digits_value 0 s" "digits_value 0 s \<le> u32_max"
proof -
  from assms have s: "s \<noteq> []" "list_all is_ascii_digit s" "hd s \<noteq> 48" "parse_uint u32_max s \<noteq> None"
    by (auto simp: index_violation_def split: if_splits)
  then have "hd s \<noteq> 43" by (cases s) (auto simp: is_ascii_digit_def)
  with s show "digits_value 0 s \<le> u32_max"
    by (auto simp: parse_uint_def Let_def split: if_splits list.splits)
  show eq: "s = show_nat (digits_value 0 s)"
    using show_parse_canonical [OF s(2,1)] s(3) by simp
  show "0 < digits_value 0 s"
  proof (rule ccontr)
    assume "\<not> ?thesis"
    then have "s = [48]" using eq by (simp add: show_nat.simps)
    with s(3) show False by simp
  qed
qed

lemma show_nat_no_violation: "0 < k \<Longrightarrow> k \<le> u32_max \<Longrightarrow> index_violation (show_nat k) = None"
  by (simp add: index_violation_def show_nat_digits show_nat_hd_pos parse_show)

lemma node_of_trimmed: "path \<noteq> [] \<Longrightarrow> trimmed (node_str (node_of path))"
proof -
  assume "path \<noteq> []"
  have d: "is_ascii_digit (hd (show_nat k)) \<and> is_ascii_digit (last (show_nat k))" for k
    using show_nat_digit [OF hd_in_set] show_nat_digit [OF last_in_set] by simp
  with \<open>path \<noteq> []\<close> show ?thesis
    using join_hd [of "map show_nat path" "[NDOT]"] join_last [of "map show_nat path" "[NDOT]"]
    by (simp add: node_of_def trimmed_def hd_map last_map)
qed

lemma node_parse_Inr: "node_parse raw = Inr n \<longleftrightarrow> node_wf n \<and> trim raw = node_str n"
proof
  assume "node_parse raw = Inr n"
  then have t: "trim raw \<noteq> []" "length (split_on NDOT (trim raw)) \<le> NODE_DEPTH_MAX"
    and v: "first_some index_violation (split_on NDOT (trim raw)) = None"
    and n: "n = NodeId (join_with [NDOT] (split_on NDOT (trim raw)))"
    by (auto simp: node_parse_def Let_def split: if_splits option.splits)
  let ?path = "map (digits_value 0) (split_on NDOT (trim raw))"
  have seg: "s \<in> set (split_on NDOT (trim raw)) \<Longrightarrow> index_violation s = None" for s
    using v by (simp add: first_some_None)
  have "map show_nat ?path = split_on NDOT (trim raw)"
    using canonical_number(1) [OF seg] by (simp add: map_idI)
  then have "n = node_of ?path" using n by (simp add: node_of_def)
  moreover have "path_wf ?path"
    using t canonical_number(2,3) [OF seg] by (auto simp: path_wf_def)
  ultimately have "node_wf n" by auto
  moreover have "node_str n = trim raw" using n by (simp add: join_split)
  ultimately show "node_wf n \<and> trim raw = node_str n" by simp
next
  assume "node_wf n \<and> trim raw = node_str n"
  then obtain path where p: "path_wf path" "n = node_of path" "trim raw = node_str (node_of path)"
    by (auto simp: node_wf_def)
  then have ne: "path \<noteq> []" by (simp add: path_wf_def)
  have "first_some index_violation (map show_nat path) = None"
    using p(1) by (auto simp: first_some_None path_wf_def show_nat_no_violation)
  moreover have segs: "split_on NDOT (trim raw) = map show_nat path"
    unfolding p(3) by (rule split_node_of [OF ne])
  moreover have "trim raw \<noteq> []"
  proof
    assume "trim raw = []"
    with segs have "map show_nat path = [[]]" by simp
    then show False by auto
  qed
  ultimately show "node_parse raw = Inr n"
    using p(1,2) by (simp add: node_parse_def Let_def path_wf_def node_of_def)
qed


section \<open>The family relations\<close>

lemma node_of_snoc:
  "path \<noteq> [] \<Longrightarrow> node_str (node_of (path @ [k])) = node_str (node_of path) @ NDOT # show_nat k"
  by (simp add: node_of_def join_with_append)

lemma parent_of:
  assumes "path \<noteq> []"
  shows "parent (node_of path) = (if length path = 1 then None else Some (node_of (butlast path)))"
proof (cases path rule: rev_cases)
  case (snoc ks k)
  show ?thesis
  proof (cases "ks = []")
    case True
    with snoc show ?thesis
      by (simp add: parent_def node_of_def rsplit_once_None show_nat_no_dot)
  next
    case False
    have "rsplit_once NDOT (node_str (node_of path)) = Some (node_str (node_of ks), show_nat k)"
      unfolding rsplit_once_Some using snoc False by (simp add: node_of_snoc show_nat_no_dot)
    with snoc False show ?thesis by (simp add: parent_def)
  qed
qed (use assms in simp)

lemma parent_wf: "node_wf n \<Longrightarrow> parent n = Some p \<Longrightarrow> node_wf p \<and> node_path p = butlast (node_path n)"
proof -
  assume n: "node_wf n" and p: "parent n = Some p"
  then obtain path where path: "path_wf path" "n = node_of path" by (auto simp: node_wf_def)
  then have ne: "path \<noteq> []" by (simp add: path_wf_def)
  with p path have "p = node_of (butlast path)" "length path \<noteq> 1"
    by (auto simp: parent_of split: if_splits)
  moreover from this path ne have "path_wf (butlast path)" "butlast path \<noteq> []"
    by (auto simp: path_wf_def dest: in_set_butlastD) (cases path rule: rev_cases; simp)+
  ultimately show ?thesis using path ne by auto
qed

lemma parent_None: "node_wf n \<Longrightarrow> parent n = None \<longleftrightarrow> length (node_path n) = 1"
  by (auto simp: node_wf_def path_wf_def parent_of split: if_splits)

lemma ordinal_path: "node_wf n \<Longrightarrow> ordinal n = last (node_path n)"
proof -
  assume "node_wf n"
  then obtain path where path: "path_wf path" "n = node_of path" by (auto simp: node_wf_def)
  then have ne: "path \<noteq> []" by (simp add: path_wf_def)
  have "(case rsplit_once NDOT (node_str n) of None \<Rightarrow> node_str n | Some (_, tail) \<Rightarrow> tail) = show_nat (last path)"
    using last_split_on [of NDOT "node_str n"] split_node_of [OF ne] path ne
    by (simp add: last_map)
  moreover have "parse_uint u32_max (show_nat (last path)) = Some (last path)"
    using path(1) ne by (intro parse_show) (simp add: path_wf_def)
  ultimately have "ordinal n = last path" unfolding ordinal_def Let_def by simp
  with path ne show ?thesis by simp
qed

lemma node_depth_path: "node_wf n \<Longrightarrow> node_depth n = length (node_path n)"
  by (simp add: node_depth_def node_path_def)

lemma is_ancestor_of_split:
  "is_ancestor_of n m \<longleftrightarrow> (\<exists>rest. node_str m = node_str n @ NDOT # rest)"
proof -
  have "is_ancestor_of n m \<longleftrightarrow> (\<exists>r. node_str m = node_str n @ r \<and> r \<noteq> [] \<and> hd r = NDOT)"
    by (auto simp: is_ancestor_of_def starts_with_iff nth_append hd_conv_nth)
  also have "\<dots> \<longleftrightarrow> (\<exists>rest. node_str m = node_str n @ NDOT # rest)"
    by (metis list.distinct(1) list.exhaust_sel list.sel(1))
  finally show ?thesis .
qed

lemma is_ancestor_of_path:
  assumes "node_wf n" "node_wf m"
  shows "is_ancestor_of n m \<longleftrightarrow> strict_prefix (node_path n) (node_path m)"
proof
  assume "is_ancestor_of n m"
  then obtain rest where "node_str m = node_str n @ NDOT # rest"
    by (auto simp: is_ancestor_of_split)
  then have "node_path m = node_path n @ map (digits_value 0) (split_on NDOT rest)"
    by (simp add: node_path_def split_on_append)
  then show "strict_prefix (node_path n) (node_path m)" by (simp add: strict_prefix_def)
next
  assume "strict_prefix (node_path n) (node_path m)"
  then obtain ks where ks: "node_path m = node_path n @ ks" "ks \<noteq> []"
    by (auto simp: strict_prefix_def prefix_def)
  have ne: "node_path n \<noteq> []" using assms(1) path_wf_node_path by (auto simp: path_wf_def)
  have "node_str m = node_str (node_of (node_path n @ ks))" using assms(2) ks by (metis node_of_path)
  also have "\<dots> = node_str (node_of (node_path n)) @ NDOT # join_with [NDOT] (map show_nat ks)"
    using ne ks(2) by (simp add: node_of_def join_with_append)
  finally show "is_ancestor_of n m" using assms(1) by (auto simp: is_ancestor_of_split)
qed

lemma climb_paths:
  "path_wf path \<Longrightarrow> climb (Some (node_of path)) = map (\<lambda>i. node_of (take i path)) (rev [1..<Suc (length path)])"
proof (induction "length path" arbitrary: path)
  case 0
  then show ?case by (simp add: path_wf_def)
next
  case (Suc l)
  then have ne: "path \<noteq> []" by (simp add: path_wf_def)
  show ?case
  proof (cases "length path = 1")
    case True
    with ne show ?thesis by (simp add: parent_of)
  next
    case False
    have bl: "path_wf (butlast path)" "l = length (butlast path)"
      using Suc(2,3) False ne by (auto simp: path_wf_def dest: in_set_butlastD)
        (metis One_nat_def append_butlast_last_id length_append_singleton list.size(3))
    have l: "l = length path - 1" "0 < l" using Suc(2) False by simp_all
    have "climb (Some (node_of path)) = node_of path # climb (Some (node_of (butlast path)))"
      using False ne by (simp add: parent_of)
    also have "\<dots> = node_of path # map (\<lambda>i. node_of (take i (butlast path))) (rev [1..<Suc l])"
      using Suc(1) [OF bl(2,1)] bl(2) by simp
    also have "map (\<lambda>i. node_of (take i (butlast path))) (rev [1..<Suc l]) =
        map (\<lambda>i. node_of (take i path)) (rev [1..<Suc l])"
      using l by (intro map_cong refl) (auto simp: butlast_conv_take min_def)
    also have "node_of path # \<dots> = map (\<lambda>i. node_of (take i path)) (rev [1..<Suc (length path)])"
      using Suc(2) by simp
    finally show ?thesis .
  qed
qed

lemma ancestors_paths:
  assumes "node_wf n"
  shows "ancestors n = map (\<lambda>i. node_of (take i (node_path n))) [1..<length (node_path n)]"
proof -
  let ?p = "node_path n"
  have wf: "path_wf ?p" and ne: "?p \<noteq> []" and n: "n = node_of ?p"
    using assms path_wf_node_path by (auto simp: path_wf_def)
  have "climb (Some n) = map (\<lambda>i. node_of (take i ?p)) (rev [1..<Suc (length ?p)])"
    using climb_paths [OF wf] n by simp
  then have "n # climb (parent n) = n # map (\<lambda>i. node_of (take i ?p)) (rev [1..<length ?p])"
    using ne n by (simp add: Suc_leI length_greater_0_conv)
  then show ?thesis by (simp add: ancestors_def rev_map)
qed

lemma child_Inr:
  assumes "node_wf n"
  shows "child n k = Inr c \<longleftrightarrow>
     0 < k \<and> k \<le> u32_max \<and> length (node_path n) < NODE_DEPTH_MAX \<and> c = node_of (node_path n @ [k])"
proof -
  let ?p = "node_path n"
  have ne: "?p \<noteq> []" using assms path_wf_node_path by (auto simp: path_wf_def)
  have spelt: "node_str n @ [NDOT] @ show_nat k = node_str (node_of (?p @ [k]))"
    using assms ne by (simp add: node_of_snoc)
  have "child n k = Inr c \<longleftrightarrow> node_wf c \<and> node_str c = node_str (node_of (?p @ [k]))"
    unfolding child_def spelt node_parse_Inr using node_of_trimmed [of "?p @ [k]"] by auto
  also have "\<dots> \<longleftrightarrow> node_wf (node_of (?p @ [k])) \<and> c = node_of (?p @ [k])"
    by (metis node_id.expand)
  also have "node_wf (node_of (?p @ [k])) \<longleftrightarrow> path_wf (?p @ [k])"
    using path_wf_node_path [of "node_of (?p @ [k])"] by auto
  also have "path_wf (?p @ [k]) \<longleftrightarrow> 0 < k \<and> k \<le> u32_max \<and> length ?p < NODE_DEPTH_MAX"
    using path_wf_node_path [OF assms] by (auto simp: path_wf_def)
  finally show ?thesis by blast
qed


section \<open>Properties\<close>

text \<open>C34. A plan index is read and written without loss: \<open>NodeId::parse\<close> accepts a cell exactly
  when, white space around it aside, it is the dotted spelling of one to ten numbers, each from
  one to \<open>u32::MAX\<close>, and the index it gives spells those numbers and no others.\<close>

theorem node_parse_exact:
  "node_parse raw = Inr n \<longleftrightarrow>
     path_wf (node_path n) \<and> n = node_of (node_path n) \<and> trim raw = node_str n"
proof -
  have "path_wf (node_path n) \<and> n = node_of (node_path n)" if "node_wf n"
    using path_wf_node_path [OF that] node_of_path [OF that, symmetric] by (rule conjI)
  moreover have "node_wf n" if "path_wf (node_path n)" "n = node_of (node_path n)"
    by (subst that(2)) (rule node_wf_of [OF that(1)])
  ultimately show ?thesis unfolding node_parse_Inr by blast
qed

text \<open>C35. The family relations read off the text of an index are those of the list of numbers it
  spells: the parent drops the last number and a top-level node has none, the ordinal is the last
  number, the depth their count, an ancestor is a proper prefix, the ancestors are every proper
  prefix in order of length, and a child appends a number where the depth allows.\<close>

theorem node_family_refines_paths:
  assumes "node_wf n" "node_wf m"
  shows "(case parent n of
       None \<Rightarrow> length (node_path n) = 1
     | Some p \<Rightarrow> node_wf p \<and> node_path p = butlast (node_path n)) \<and>
   ordinal n = last (node_path n) \<and>
   node_depth n = length (node_path n) \<and>
   (is_ancestor_of n m \<longleftrightarrow> strict_prefix (node_path n) (node_path m)) \<and>
   ancestors n = map (\<lambda>i. node_of (take i (node_path n))) [1..<length (node_path n)] \<and>
   (child n k = Inr m \<longleftrightarrow>
      0 < k \<and> k \<le> u32_max \<and> length (node_path n) < NODE_DEPTH_MAX \<and> node_path m = node_path n @ [k])"
proof -
  have "child n k = Inr m \<longleftrightarrow>
      0 < k \<and> k \<le> u32_max \<and> length (node_path n) < NODE_DEPTH_MAX \<and> node_path m = node_path n @ [k]"
    unfolding child_Inr [OF assms(1)] using assms(2) by (metis append_is_Nil_conv node_of_path node_path_of list.distinct(1))
  then show ?thesis
    using parent_wf [OF assms(1)] parent_None [OF assms(1)] assms
    by (auto simp: ordinal_path node_depth_path is_ancestor_of_path ancestors_paths split: option.split)
qed

theorem node_family_refines_paths_witness:
  "ancestors (node_of [2, 3, 1]) = [node_of [2], node_of [2, 3]] \<and>
   is_ancestor_of (node_of [2]) (node_of [2, 3, 1]) \<and> \<not> is_ancestor_of (node_of [2]) (node_of [23, 1])"
proof -
  have wf: "node_wf (node_of [2, 3, 1])" "node_wf (node_of [2])" "node_wf (node_of [23, 1])"
    by (intro node_wf_of; simp add: path_wf_def NODE_DEPTH_MAX_def u_defs)+
  show ?thesis
    using node_family_refines_paths [OF wf(1,1)] node_family_refines_paths [OF wf(2,1)]
      node_family_refines_paths [OF wf(2,3)] by (simp add: upt_rec strict_prefix_def)
qed

end
