(* ===== verification/Spines.thy ===== *)
theory Spines
  imports Locators NodeIds WriteDomains
begin

text \<open>
  \<open>kernel::spine\<close> (\<open>spine/row.rs\<close>, \<open>spine/grammar.rs\<close>, \<open>spine/rewrite.rs\<close>): the six-column
  table of \<open>Roadmap.md\<close>, its reader, and the three writers. A loop over the lines of the file is
  a fold of one step over them; a \<open>break\<close> is the flag \<open>scan_over\<close>.
\<close>

section \<open>Rows\<close>

datatype roadmap_status = NotStarted | InProgress | Done | Blocked | AwaitingApproval

definition ROADMAP_STATUS_SPELLINGS :: "(roadmap_status \<times> rstr) list" where
  "ROADMAP_STATUS_SPELLINGS =
     [(NotStarted, lit ''Not started''), (InProgress, lit ''In progress''), (Done, lit ''Done''),
      (Blocked, lit ''Blocked''), (AwaitingApproval, lit ''Awaiting approval'')]"

definition ROADMAP_COLUMNS :: nat where
  "ROADMAP_COLUMNS = 6"

definition spelling :: "roadmap_status \<Rightarrow> rstr" where
  "spelling status =
     (case find (\<lambda>e. fst e = status) ROADMAP_STATUS_SPELLINGS of
        Some (_, s) \<Rightarrow> s
      | None \<Rightarrow> lit ''Not started'')"

datatype evidence_cell = Empty | Invalid rstr | Present locator

record roadmap_row =
  row_id :: node_id
  row_item :: rstr
  row_weight :: nat
  row_needs :: "node_id list"
  row_status :: roadmap_status
  row_evidence :: evidence_cell

datatype roadmap_shape = WellFormed "roadmap_row list" | Malformed "rstr list"

record new_child =
  child_item :: rstr
  child_weight :: nat


section \<open>The reader\<close>

abbreviation BAR :: codepoint where
  "BAR \<equiv> 124"

definition parse_status :: "rstr \<Rightarrow> roadmap_status option" where
  "parse_status raw =
     map_option fst (find (\<lambda>e. eq_ignore_ascii_case (snd e) raw) ROADMAP_STATUS_SPELLINGS)"

definition split_table_row :: "rstr \<Rightarrow> rstr list option" where
  "split_table_row line =
     (let trimmed = trim line in
      if \<not> starts_with [BAR] trimmed then None
      else Option.bind (strip_prefix [BAR] trimmed) (\<lambda>rest.
             map_option (\<lambda>inner. map trim (split_on BAR inner)) (strip_suffix [BAR] rest)))"

definition is_separator :: "rstr list \<Rightarrow> bool" where
  "is_separator cells \<longleftrightarrow>
     cells \<noteq> [] \<and> list_all (\<lambda>c. c \<noteq> [] \<and> list_all (\<lambda>ch. ch = 45 \<or> ch = 58) c) cells"

definition body_row :: "rstr list \<Rightarrow> bool" where
  "body_row cells \<longleftrightarrow> length cells = ROADMAP_COLUMNS \<and> \<not> is_separator cells"

text \<open>The loop of \<open>locate_table\<close>: the first and last line seen so far, and whether the table
  has ended.\<close>

fun locate_step :: "nat \<times> rstr \<Rightarrow> (nat \<times> nat) option \<times> bool \<Rightarrow> (nat \<times> nat) option \<times> bool" where
  "locate_step (n, line) (found, over) =
     (if over then (found, True)
      else case split_table_row line of
        Some _ \<Rightarrow> (case found of None \<Rightarrow> Some (n, n) | Some (first, _) \<Rightarrow> Some (first, n), False)
      | None \<Rightarrow> (found, found \<noteq> None))"

definition locate_table :: "rstr \<Rightarrow> (nat \<times> nat) option" where
  "locate_table txt = fst (fold locate_step (List.enumerate 0 (split_on 10 txt)) (None, False))"

fun read_needs :: "rstr list \<Rightarrow> rstr + node_id list" where
  "read_needs [] = Inr []"
| "read_needs (part # parts) =
     (let trimmed = trim part in
      if trimmed = [] then read_needs parts
      else and_then (map_err err_subject (node_parse trimmed)) (\<lambda>need.
             and_then (read_needs parts) (\<lambda>needs. Inr (need # needs))))"

definition read_row :: "rstr list \<Rightarrow> rstr + roadmap_row" where
  "read_row cells =
     (case cells of
        index_cell # item_cell # weight_cell # needs_cell # status_cell # evidence_cell # _ \<Rightarrow>
          and_then (map_err err_subject (node_parse index_cell)) (\<lambda>nid.
          and_then
            (if weight_cell = [] then Inr 1
             else ok_or (lit ''weight `'' @ weight_cell @ lit ''` is not a number'')
               (parse_uint u32_max weight_cell)) (\<lambda>weight.
          and_then (read_needs (split_on 44 needs_cell)) (\<lambda>needs.
          and_then
            (ok_or (lit ''status `'' @ status_cell @ lit ''` outside the five-value enum'')
              (parse_status status_cell)) (\<lambda>status.
          Inr \<lparr>row_id = nid, row_item = item_cell, row_weight = weight, row_needs = needs,
               row_status = status,
               row_evidence =
                 (if evidence_cell = [] then Empty
                  else case locator_parse evidence_cell of
                         Inr loc \<Rightarrow> Present loc
                       | Inl _ \<Rightarrow> Invalid evidence_cell)\<rparr>))))
      | _ \<Rightarrow> Inl (lit ''the row is short of cells''))"

record shape_scan =
  scan_line_no :: nat
  scan_rows :: "roadmap_row list"
  scan_problems :: "rstr list"
  scan_in_table :: bool
  scan_header :: bool
  scan_over :: bool

definition scan_start :: shape_scan where
  "scan_start = \<lparr>scan_line_no = 0, scan_rows = [], scan_problems = [], scan_in_table = False,
     scan_header = False, scan_over = False\<rparr>"

definition scan_problem :: "rstr \<Rightarrow> shape_scan \<Rightarrow> shape_scan" where
  "scan_problem why s = s\<lparr>scan_problems := scan_problems s @
     [lit ''line '' @ show_nat (scan_line_no s) @ lit '': '' @ why]\<rparr>"

definition scan_cells :: "rstr list \<Rightarrow> shape_scan \<Rightarrow> shape_scan" where
  "scan_cells cells s =
     (if length cells \<noteq> ROADMAP_COLUMNS then
        scan_problem (show_nat (length cells) @ lit '' columns, the roadmap table has exactly '' @
          show_nat ROADMAP_COLUMNS) s
      else if \<not> scan_header s then s\<lparr>scan_header := True\<rparr>
      else if is_separator cells then s
      else (case read_row cells of
              Inr row \<Rightarrow> s\<lparr>scan_rows := scan_rows s @ [row]\<rparr>
            | Inl why \<Rightarrow> scan_problem why s))"

definition scan_line :: "rstr \<Rightarrow> shape_scan \<Rightarrow> shape_scan" where
  "scan_line line s =
     (if scan_over s then s
      else let s = s\<lparr>scan_line_no := Suc (scan_line_no s)\<rparr> in
        case split_table_row line of
          None \<Rightarrow> if scan_in_table s then s\<lparr>scan_over := True\<rparr> else s
        | Some cells \<Rightarrow> scan_cells cells (s\<lparr>scan_in_table := True\<rparr>))"

definition scan_result :: "shape_scan \<Rightarrow> roadmap_shape" where
  "scan_result s =
     (let problems = scan_problems s @
            (if scan_header s then []
             else [lit ''no '' @ show_nat ROADMAP_COLUMNS @ lit ''-column table found'']) in
      if problems = [] then WellFormed (scan_rows s) else Malformed problems)"

definition check_roadmap_shape :: "rstr \<Rightarrow> roadmap_shape" where
  "check_roadmap_shape txt = scan_result (fold scan_line (lines txt) scan_start)"


section \<open>The writers\<close>

definition draw_row :: "roadmap_row \<Rightarrow> roadmap_status \<Rightarrow> locator option \<Rightarrow> rstr" where
  "draw_row row status evidence =
     lit ''| '' @ node_str (row_id row) @ lit '' | '' @ row_item row @ lit '' | '' @
     show_nat (row_weight row) @ lit '' | '' @ join_with (lit '', '') (map node_str (row_needs row)) @
     lit '' | '' @ spelling status @ lit '' | '' @
     (case evidence of None \<Rightarrow> [] | Some loc \<Rightarrow> show_locator loc) @ lit '' |''"

definition well_formed :: "rstr \<Rightarrow> rstr \<Rightarrow> roadmap_row list ax_result" where
  "well_formed txt action =
     (case check_roadmap_shape txt of
        WellFormed rows \<Rightarrow> Inr rows
      | Malformed problems \<Rightarrow>
          Inl (with_recovery (lit ''repair the '' @ show_nat ROADMAP_COLUMNS @
                 lit ''-column table in Roadmap.md first; a plan that does not parse has no denominator'')
               (failure InvalidArgs action (join_with (lit ''; '') problems))))"

fun rewrite_lines :: "(rstr list \<Rightarrow> rstr option) \<Rightarrow> bool \<Rightarrow> bool \<Rightarrow> rstr list \<Rightarrow> rstr list" where
  "rewrite_lines chosen in_table over [] = []"
| "rewrite_lines chosen in_table over (line # rest) =
     (let cells = split_table_row line;
          over' = (over \<or> (cells = None \<and> in_table));
          hit = (if over' then None
                 else case cells of
                        Some cs \<Rightarrow> if body_row cs then chosen cs else None
                      | None \<Rightarrow> None)
      in (case hit of Some replacement \<Rightarrow> replacement | None \<Rightarrow> line) #
         rewrite_lines chosen (cells \<noteq> None) over' rest)"

definition rewrite :: "rstr \<Rightarrow> (rstr list \<Rightarrow> rstr option) \<Rightarrow> rstr" where
  "rewrite txt chosen = join_with [10] (rewrite_lines chosen False False (split_on 10 txt))"

definition names_row :: "node_id \<Rightarrow> rstr list \<Rightarrow> bool" where
  "names_row nid cells =
     (case cells of
        [] \<Rightarrow> False
      | raw # _ \<Rightarrow> (case node_parse raw of Inr found \<Rightarrow> found = nid | Inl _ \<Rightarrow> False))"

definition set_roadmap_status ::
  "rstr \<Rightarrow> node_id \<Rightarrow> roadmap_status \<Rightarrow> locator option \<Rightarrow> rstr ax_result" where
  "set_roadmap_status txt nid status evidence =
     (if status = Done \<and> evidence = None then
        Inl (with_recovery (lit ''pass a retrievable locator: `cas:<hash>` or `file:<path>@<oid>`'')
          (failure EvidenceMissing (lit ''mark a roadmap row done'')
            (lit ''row '' @ node_str nid @ lit '' has no evidence'')))
      else
        and_then (well_formed txt (lit ''edit a roadmap row'')) (\<lambda>rows.
        and_then
          (ok_or
            (with_recovery (lit ''read the roadmap and use an index the table carries'')
              (failure InvalidArgs (lit ''edit a roadmap row'')
                (lit ''no row numbered '' @ node_str nid)))
            (find (\<lambda>row. row_id row = nid) rows)) (\<lambda>row.
        let replacement = draw_row row status evidence in
        Inr (rewrite txt (\<lambda>cells. if names_row nid cells then Some replacement else None)))))"

definition draw_child :: "node_id \<Rightarrow> new_child \<Rightarrow> rstr \<Rightarrow> rstr ax_result" where
  "draw_child nid c action =
     (let refuse = (\<lambda>subject recovery. with_recovery recovery (failure InvalidArgs action subject)) in
      if trim (child_item c) = [] then
        Inl (refuse (lit ''a child with no text'')
          (lit ''say what each child is; a row nobody can read is a row nobody can take''))
      else if BAR \<in> set (child_item c) then
        Inl (refuse (lit ''`'' @ child_item c @ lit ''` carries a column separator'')
          (lit ''write the item without `|`; it would split the row into more cells''))
      else if child_weight c = 0 then
        Inl (refuse (lit ''`'' @ child_item c @ lit ''` is weighted zero'')
          (lit ''give every child a weight of at least one; a node worth nothing is never given to anybody''))
      else
        Inr (lit ''| '' @ node_str nid @ lit '' | '' @ trim (child_item c) @ lit '' | '' @
             show_nat (child_weight c) @ lit '' |  | '' @ spelling NotStarted @ lit '' |  |''))"

definition insert_after :: "rstr \<Rightarrow> nat \<Rightarrow> rstr list \<Rightarrow> rstr" where
  "insert_after txt seam drawn =
     join_with [10] (concat (map (\<lambda>(n, line). if n = seam then line # drawn else [line])
       (List.enumerate 0 (split_on 10 txt))))"

fun draw_children :: "node_id \<Rightarrow> nat \<Rightarrow> new_child list \<Rightarrow> rstr list ax_result" where
  "draw_children parent_id last_ordinal [] = Inr []"
| "draw_children parent_id last_ordinal (c # cs) =
     (let ord = sat_add u32_max last_ordinal 1 in
      and_then (child parent_id ord) (\<lambda>nid.
      and_then (draw_child nid c (lit ''split a plan node'')) (\<lambda>line.
      and_then (draw_children parent_id ord cs) (\<lambda>ls. Inr (line # ls)))))"

definition family_line :: "node_id \<Rightarrow> rstr \<Rightarrow> bool" where
  "family_line parent_id line =
     (case split_table_row line of
        None \<Rightarrow> False
      | Some cells \<Rightarrow> body_row cells \<and>
          (case cells of
             [] \<Rightarrow> False
           | raw # _ \<Rightarrow> (case node_parse raw of
                         Inr nid \<Rightarrow> nid = parent_id \<or> is_ancestor_of parent_id nid
                       | Inl _ \<Rightarrow> False)))"

definition seam_of :: "node_id \<Rightarrow> nat \<Rightarrow> nat \<Rightarrow> rstr \<Rightarrow> nat" where
  "seam_of parent_id first last_line txt =
     (case fold (\<lambda>(n, line) after. if first \<le> n \<and> n \<le> last_line \<and> family_line parent_id line
                                  then Some n else after)
             (List.enumerate 0 (split_on 10 txt)) None of
        Some n \<Rightarrow> n
      | None \<Rightarrow> last_line)"

definition insert_children :: "rstr \<Rightarrow> node_id \<Rightarrow> new_child list \<Rightarrow> rstr ax_result" where
  "insert_children txt parent_id children =
     (let refuse = (\<lambda>subject recovery.
            with_recovery recovery (failure InvalidArgs (lit ''split a plan node'') subject)) in
      if children = [] then
        Inl (refuse (lit ''no children given'')
          (lit ''name at least one child; splitting into nothing would delete the work''))
      else
        and_then (well_formed txt (lit ''split a plan node'')) (\<lambda>rows.
        if \<not> list_ex (\<lambda>row. row_id row = parent_id) rows then
          Inl (refuse (lit ''no row numbered '' @ node_str parent_id)
            (lit ''read the roadmap and use an index the table carries''))
        else
          let ordinals = map (\<lambda>row. ordinal (row_id row))
                (filter (\<lambda>row. parent (row_id row) = Some parent_id) rows)
          in and_then (draw_children parent_id (fold max ordinals 0) children) (\<lambda>drawn.
             case locate_table txt of
               None \<Rightarrow> Inl (refuse (lit ''the roadmap table is not there'')
                 (lit ''repair the table before splitting a node''))
             | Some (first, last_line) \<Rightarrow>
                 Inr (insert_after txt (seam_of parent_id first last_line txt) drawn))))"

definition append_top_level :: "rstr \<Rightarrow> node_id \<Rightarrow> new_child \<Rightarrow> rstr ax_result" where
  "append_top_level txt nid c =
     (let refuse = (\<lambda>subject recovery.
            with_recovery recovery (failure InvalidArgs (lit ''add a plan row'') subject)) in
      if parent nid \<noteq> None then
        Inl (refuse (node_str nid @ lit '' is not a top-level index'')
          (lit ''add under a node by splitting the node you hold''))
      else
        and_then (well_formed txt (lit ''add a plan row'')) (\<lambda>rows.
        if list_ex (\<lambda>row. row_id row = nid) rows then
          Inl (refuse (lit ''a row numbered '' @ node_str nid @ lit '' is already there'')
            (lit ''read the plan again and add after its last top-level row''))
        else
          and_then (draw_child nid c (lit ''add a plan row'')) (\<lambda>drawn.
          case locate_table txt of
            None \<Rightarrow> Inl (refuse (lit ''the roadmap table is not there'')
              (lit ''repair the table before adding a row''))
          | Some (_, last_line) \<Rightarrow> Inr (insert_after txt last_line [drawn]))))"

end
