(* ===== verification/Shares.thy ===== *)
theory Shares
  imports Errors
begin

text \<open>
  \<open>kernel::share\<close> (\<open>share.rs\<close>): billionths of the whole plan, made only by dividing a share by
  weights, and gathered only by adding parts up to the whole. A share holds a \<open>u64\<close>; weights are
  \<open>u32\<close>, and the sum of fewer than \<open>2^32\<close> of them fits the \<open>u64\<close> it is added in.
\<close>

section \<open>Division\<close>

datatype share = Share (ppb: nat)

definition WHOLE_PPB :: nat where
  "WHOLE_PPB = 1000000000"

definition WHOLE :: share where
  "WHOLE = Share WHOLE_PPB"

definition NONE :: share where
  "NONE = Share 0"

definition exact_part :: "nat \<Rightarrow> nat \<Rightarrow> nat \<Rightarrow> nat" where
  "exact_part held sum_of weight =
     (let exact = sat_mul u128_max held weight div sum_of in
      if exact \<le> u64_max then exact else held)"

fun spread :: "nat \<Rightarrow> nat list \<Rightarrow> nat list" where
  "spread 0 parts = parts"
| "spread (Suc remainder) [] = []"
| "spread (Suc remainder) (part # parts) = sat_add u64_max part 1 # spread remainder parts"

definition split :: "share \<Rightarrow> nat list \<Rightarrow> share list ax_result" where
  "split s weights =
     (let total = sum_list weights in
      if weights = [] \<or> total = 0 then
        Inl (with_recovery (lit ''give at least one part, and at least one weight above zero'')
          (failure InvalidArgs (lit ''divide a share'')
            (show_nat (length weights) @ lit '' parts, '' @ show_nat total @ lit '' in weight'')))
      else
        let parts = map (exact_part (ppb s) total) weights;
            handed = fold (\<lambda>part handed. sat_add u64_max handed part) parts 0;
            remainder = ppb s - handed
        in Inr (map Share (spread remainder parts)))"

definition gather :: "share list \<Rightarrow> share" where
  "gather parts =
     Share (min (fold (\<lambda>part held. sat_add u64_max held (ppb part)) parts 0) WHOLE_PPB)"


section \<open>Conservation\<close>

lemma exact_part_div:
  assumes "s \<le> u64_max" "w \<le> u32_max" "w \<le> t"
  shows "exact_part s t w = s * w div t"
proof -
  have "s * w \<le> u64_max * u32_max" using assms by (intro mult_le_mono) auto
  also have "\<dots> \<le> u128_max" by (simp add: u_defs)
  finally have "sat_mul u128_max s w = s * w" by simp
  moreover have "s * w div t \<le> s"
  proof (cases "t = 0")
    case False
    have "s * w div t \<le> s * t div t" using assms(3) by (intro div_le_mono mult_le_mono2)
    with False show ?thesis by simp
  qed simp
  ultimately show ?thesis using assms(1) by (simp add: exact_part_def)
qed

lemma sum_floor_le:
  fixes s :: nat
  assumes "0 < t"
  shows "t * (\<Sum>w\<leftarrow>ws. s * w div t) \<le> s * sum_list ws"
proof (induction ws)
  case (Cons w ws)
  have "t * (s * w div t) \<le> s * w" by simp
  from add_mono [OF this Cons.IH] show ?case by (simp add: distrib_left)
qed simp

lemma sum_floor_ge:
  fixes s :: nat
  assumes "0 < t"
  shows "s * sum_list ws \<le> t * (\<Sum>w\<leftarrow>ws. s * w div t) + length ws * (t - 1)"
proof (induction ws)
  case (Cons w ws)
  have "s * w = t * (s * w div t) + s * w mod t" by simp
  moreover have "s * w mod t \<le> t - 1" using assms by (simp add: Suc_leI less_imp_le_nat flip: less_Suc_eq_le)
  ultimately have "s * w \<le> t * (s * w div t) + (t - 1)" by linarith
  with Cons show ?case by (simp add: distrib_left)
qed simp

lemma spread_length [simp]: "length (spread r ps) = length ps"
  by (induction r ps rule: spread.induct) simp_all

lemma spread_sum:
  "r \<le> length ps \<Longrightarrow> (\<And>p. p \<in> set ps \<Longrightarrow> p < u64_max \<or> r = 0) \<Longrightarrow>
     sum_list (spread r ps) = sum_list ps + r"
proof (induction r ps rule: spread.induct)
  case (3 r p ps)
  have "p < u64_max" using 3(3) [of p] by simp
  moreover have "sum_list (spread r ps) = sum_list ps + r"
    by (rule "3.IH") (use 3(2,3) in auto)
  ultimately show ?case by simp
qed simp_all

lemma spread_nth:
  "i < length ps \<Longrightarrow> (\<And>p. p \<in> set ps \<Longrightarrow> p < u64_max \<or> r = 0) \<Longrightarrow>
     spread r ps ! i = ps ! i + (if i < r then 1 else 0)"
proof (induction r ps arbitrary: i rule: spread.induct)
  case (3 r p ps)
  have p: "p < u64_max" using 3(3) [of p] by simp
  show ?case
  proof (cases i)
    case 0
    with p show ?thesis by simp
  next
    case (Suc j)
    have "spread r ps ! j = ps ! j + (if j < r then 1 else 0)"
      by (rule "3.IH") (use 3(2,3) Suc in auto)
    with Suc show ?thesis by simp
  qed
qed simp_all

text \<open>The floor of each part, and how many billionths the floors leave over.\<close>

definition floors :: "nat \<Rightarrow> nat list \<Rightarrow> nat list" where
  "floors s ws = map (\<lambda>w. s * w div sum_list ws) ws"

definition left_over :: "nat \<Rightarrow> nat list \<Rightarrow> nat" where
  "left_over s ws = s - sum_list (floors s ws)"

lemma floors_sum_le: "0 < sum_list ws \<Longrightarrow> sum_list (floors s ws) \<le> s"
  using sum_floor_le [of "sum_list ws" s ws] by (simp add: floors_def comp_def)

lemma left_over_less: "0 < sum_list ws \<Longrightarrow> left_over s ws < length ws"
proof -
  let ?t = "sum_list ws" and ?f = "sum_list (floors s ws)"
  assume t: "0 < ?t"
  then have n: "0 < length ws" by (cases ws) auto
  have "s * ?t \<le> ?t * ?f + length ws * (?t - 1)"
    using sum_floor_ge [OF t, of s ws] by (simp add: floors_def comp_def)
  also have "\<dots> < ?t * ?f + length ws * ?t" using t n by simp
  finally have "?t * s < ?t * (?f + length ws)" by (simp add: algebra_simps)
  then have "s < ?f + length ws" by simp
  with floors_sum_le [OF t, of s] show ?thesis by (simp add: left_over_def)
qed

lemma floors_less:
  assumes "0 < sum_list ws" "p \<in> set (floors s ws)" "0 < left_over s ws"
  shows "p < s"
proof -
  have "p \<le> sum_list (floors s ws)" using assms(2) by (simp add: member_le_sum_list)
  with assms(3) show ?thesis by (simp add: left_over_def)
qed

lemma split_Inr:
  assumes "s \<le> u64_max" "\<forall>w \<in> set ws. w \<le> u32_max" "0 < sum_list ws"
  shows "split (Share s) ws = Inr (map Share (spread (left_over s ws) (floors s ws)))"
proof -
  let ?t = "sum_list ws"
  have "map (exact_part s ?t) ws = floors s ws"
    unfolding floors_def using assms(1,2) by (auto intro!: exact_part_div member_le_sum_list)
  moreover have "fold (\<lambda>part handed. sat_add u64_max handed part) (floors s ws) 0 = sum_list (floors s ws)"
    using fold_sat_add [of 0 "floors s ws" u64_max] floors_sum_le [OF assms(3), of s] assms(1) by simp
  moreover have "ws \<noteq> []" using assms(3) by auto
  ultimately show ?thesis
    using assms(3) by (simp add: split_def Let_def left_over_def del: sum_list_eq_0_iff)
qed

lemma split_sum:
  assumes "s \<le> u64_max" "\<forall>w \<in> set ws. w \<le> u32_max" "split (Share s) ws = Inr parts"
  shows "sum_list (map ppb parts) = s" "length parts = length ws"
    "i < length ws \<Longrightarrow> ppb (parts ! i) = s * ws ! i div sum_list ws + (if i < left_over s ws then 1 else 0)"
proof -
  have t: "0 < sum_list ws" using assms(3) by (auto simp: split_def Let_def simp del: sum_list_eq_0_iff split: if_splits)
  have parts: "parts = map Share (spread (left_over s ws) (floors s ws))"
    using split_Inr [OF assms(1,2) t] assms(3) by simp
  have small: "p < u64_max \<or> left_over s ws = 0" if "p \<in> set (floors s ws)" for p
    using floors_less [OF t that] assms(1) by fastforce
  have len: "length (floors s ws) = length ws" by (simp add: floors_def)
  show "sum_list (map ppb parts) = s"
    using spread_sum [of "left_over s ws" "floors s ws"] small left_over_less [OF t, of s] len
      floors_sum_le [OF t, of s] unfolding parts by (simp add: comp_def left_over_def)
  show "length parts = length ws" unfolding parts by (simp add: len)
  assume i: "i < length ws"
  then show "ppb (parts ! i) = s * ws ! i div sum_list ws + (if i < left_over s ws then 1 else 0)"
    using spread_nth [of i "floors s ws" "left_over s ws"] small len unfolding parts
    by (simp add: floors_def)
qed

lemma gather_exact:
  assumes "sum_list (map ppb parts) \<le> WHOLE_PPB"
  shows "ppb (gather parts) = sum_list (map ppb parts)"
proof -
  have "WHOLE_PPB \<le> u64_max" by (simp add: WHOLE_PPB_def u_defs)
  then have "fold (\<lambda>x held. sat_add u64_max held x) (map ppb parts) 0 = sum_list (map ppb parts)"
    using fold_sat_add [of 0 "map ppb parts" u64_max] assms by simp
  then show ?thesis using assms by (simp add: gather_def fold_map comp_def)
qed


section \<open>Properties\<close>

text \<open>C33. Dividing a share loses and mints nothing: for \<open>u32\<close> weights the division is refused
  exactly when the weights come to nothing, and otherwise there is one part per weight, the parts
  add up to the share exactly, and each part is its exact proportion rounded down, plus one
  billionth for the earliest parts: as many of them as the rounding left billionths over, which is
  fewer than there are parts. Gathering the parts of a share of the plan gives that share back.\<close>

theorem share_split_conserves:
  assumes "s \<le> u64_max" "\<forall>w \<in> set ws. w \<le> u32_max"
  defines "remainder \<equiv> s - (\<Sum>w\<leftarrow>ws. s * w div sum_list ws)"
  shows "case split (Share s) ws of
      Inl e \<Rightarrow> sum_list ws = 0 \<and> err_code e = InvalidArgs
    | Inr parts \<Rightarrow>
        0 < sum_list ws \<and> length parts = length ws \<and> sum_list (map ppb parts) = s \<and>
        remainder < length ws \<and>
        (\<forall>i < length ws. ppb (parts ! i) = s * ws ! i div sum_list ws + (if i < remainder then 1 else 0)) \<and>
        (s \<le> WHOLE_PPB \<longrightarrow> gather parts = Share s)"
proof (cases "sum_list ws = 0")
  case True
  then show ?thesis by (simp add: split_def Let_def del: sum_list_eq_0_iff)
next
  case False
  then have t: "0 < sum_list ws" by (simp del: sum_list_eq_0_iff)
  then obtain parts where p: "split (Share s) ws = Inr parts" using split_Inr [OF assms(1,2)] by blast
  have r: "remainder = left_over s ws"
    unfolding remainder_def left_over_def floors_def by simp
  show ?thesis
    unfolding p r sum.case
    using t split_sum [OF assms(1,2) p] left_over_less [OF t, of s] gather_exact [of parts]
    by (simp add: share.expand)
qed

theorem share_split_conserves_witness:
  "split WHOLE [1, 1, 1] = Inr [Share 333333334, Share 333333333, Share 333333333] \<and>
   gather [Share 333333334, Share 333333333, Share 333333333] = WHOLE"
proof -
  have s: "split (Share 1000000000) [1, 1, 1] = Inr [Share 333333334, Share 333333333, Share 333333333]"
    by (simp add: split_def exact_part_def u_defs sat_mul_def sat_add_def)
  then show ?thesis
    using share_split_conserves [of 1000000000 "[1, 1, 1]"] by (simp add: u_defs WHOLE_def WHOLE_PPB_def)
qed

end
