(* ===== verification/Budgets.thy ===== *)
theory Budgets
  imports Prelude
begin

text \<open>
  \<open>kernel::budget\<close> (\<open>budget.rs\<close>): money and quantities as unsigned 64-bit integers, whose one
  operation is an addition that answers \<open>None\<close> on overflow.
\<close>

datatype usd_micros = UsdMicros (usd_get: nat)
datatype tokens = Tokens (tokens_get: nat)
datatype byte_len = ByteLen (byte_len_get: nat)

definition usd_checked_add :: "usd_micros \<Rightarrow> usd_micros \<Rightarrow> usd_micros option" where
  "usd_checked_add a b = map_option UsdMicros (checked_add u64_max (usd_get a) (usd_get b))"

definition tokens_checked_add :: "tokens \<Rightarrow> tokens \<Rightarrow> tokens option" where
  "tokens_checked_add a b = map_option Tokens (checked_add u64_max (tokens_get a) (tokens_get b))"

definition byte_len_checked_add :: "byte_len \<Rightarrow> byte_len \<Rightarrow> byte_len option" where
  "byte_len_checked_add a b = map_option ByteLen (checked_add u64_max (byte_len_get a) (byte_len_get b))"

record budget_use =
  use_usd :: usd_micros
  use_tokens :: tokens

end
