(* ===== verification/Plans.thy ===== *)
theory Plans
  imports Spines Shares Budgets
begin

text \<open>
  \<open>kernel::plan\<close> (\<open>plan.rs\<close>, \<open>plan/node.rs\<close>, \<open>plan/tree.rs\<close>, \<open>plan/share.rs\<close>,
  \<open>plan/blocking.rs\<close>) and the progress types of \<open>kernel::completion\<close>: the rows of a roadmap placed
  as a tree, the checks a plan passes before it is one, the division of the whole among its nodes,
  what is ready, how a node is claimed and how it is put down again.

  The recursion of \<open>hand_out\<close> runs down the children of a node. It is given fuel, and
  \<open>None\<close> is running out of it; the plan holds \<open>NODE_DEPTH_MAX\<close> levels, so the fuel \<open>divide\<close> gives is
  enough on every plan that was placed.
\<close>

section \<open>Nodes and exits\<close>

datatype stop_cause =
    StopBlocked rstr
  | HandedBack rstr
  | FrozeWithoutEvidence
  | Stalled nat
  | GateOverdue nat

fun stop_status :: "stop_cause \<Rightarrow> roadmap_status" where
  "stop_status (HandedBack _) = NotStarted"
| "stop_status (StopBlocked _) = Blocked"
| "stop_status FrozeWithoutEvidence = Blocked"
| "stop_status (Stalled _) = Blocked"
| "stop_status (GateOverdue _) = Blocked"

definition is_red :: "stop_cause \<Rightarrow> bool" where
  "is_red why \<longleftrightarrow> \<not> (case why of HandedBack _ \<Rightarrow> True | _ \<Rightarrow> False)"

fun stop_line :: "stop_cause \<Rightarrow> rstr" where
  "stop_line (StopBlocked note) = note"
| "stop_line (HandedBack note) = note"
| "stop_line FrozeWithoutEvidence = lit ''the run holding it ended without citing anything''"
| "stop_line (Stalled repeats) = lit ''the run repeated one action '' @ show_nat repeats @ lit '' times''"
| "stop_line (GateOverdue waited_ms) = lit ''a door has waited '' @ show_nat waited_ms @ lit '' ms for the User''"

datatype held = Held (held_id: node_id)

datatype plan_exit = Finished node_id locator | Stopped node_id stop_cause

definition held_finish :: "held \<Rightarrow> locator \<Rightarrow> plan_exit" where
  "held_finish h evidence = Finished (held_id h) evidence"

definition held_stop :: "held \<Rightarrow> stop_cause \<Rightarrow> plan_exit" where
  "held_stop h why = Stopped (held_id h) why"

fun exit_id :: "plan_exit \<Rightarrow> node_id" where
  "exit_id (Finished nid _) = nid"
| "exit_id (Stopped nid _) = nid"

fun exit_status :: "plan_exit \<Rightarrow> roadmap_status" where
  "exit_status (Finished _ _) = Done"
| "exit_status (Stopped _ why) = stop_status why"

fun exit_evidence :: "plan_exit \<Rightarrow> locator option" where
  "exit_evidence (Finished _ evidence) = Some evidence"
| "exit_evidence (Stopped _ _) = None"

record plan_node =
  pn_row :: roadmap_row
  pn_share :: share
  pn_children :: "node_id list"

definition is_leaf :: "plan_node \<Rightarrow> bool" where
  "is_leaf node \<longleftrightarrow> pn_children node = []"

type_synonym plan_nodes = "(node_id, plan_node) btree"

record plan_tree =
  plan_nodes :: plan_nodes

abbreviation node_status :: "plan_node \<Rightarrow> roadmap_status" where
  "node_status node \<equiv> row_status (pn_row node)"


section \<open>Placing the rows\<close>

definition plan_refusal :: "rstr \<Rightarrow> rstr \<Rightarrow> rstr \<Rightarrow> ax_error" where
  "plan_refusal action subject recovery = with_recovery recovery (failure InvalidArgs action subject)"

fun place_rows :: "roadmap_row list \<Rightarrow> plan_nodes \<Rightarrow> plan_nodes ax_result" where
  "place_rows [] nodes = Inr nodes"
| "place_rows (row # rows) nodes =
     (if bt_get nodes (row_id row) \<noteq> None then
        Inl (plan_refusal (lit ''place a plan node'')
          (lit ''index '' @ node_str (row_id row) @ lit '' appears twice'')
          (lit ''give every row its own index; two rows with one number are two plans''))
      else place_rows rows
        (bt_insert (row_id row) \<lparr>pn_row = row, pn_share = NONE, pn_children = []\<rparr> nodes))"

fun hang_children :: "node_id list \<Rightarrow> plan_nodes \<Rightarrow> plan_nodes ax_result" where
  "hang_children [] nodes = Inr nodes"
| "hang_children (nid # placed) nodes =
     (case parent nid of
        None \<Rightarrow> hang_children placed nodes
      | Some up \<Rightarrow>
          (case bt_get nodes up of
             None \<Rightarrow>
               Inl (plan_refusal (lit ''place a plan node'')
                 (node_str nid @ lit '' hangs under '' @ node_str up @ lit '', which the table does not carry'')
                 (lit ''write the parent row first; a plan cannot branch from nothing''))
           | Some _ \<Rightarrow>
               hang_children placed
                 (bt_update (\<lambda>node. node\<lparr>pn_children := pn_children node @ [nid]\<rparr>) up nodes)))"


section \<open>Circles\<close>

type_synonym waiting = "(node_id, nat) btree"

text \<open>One pass over the nodes for a node that is free: each that waits for it waits for one less.\<close>

fun release_one :: "node_id \<Rightarrow> node_id \<times> plan_node \<Rightarrow> waiting \<times> node_id list \<Rightarrow> waiting \<times> node_id list" where
  "release_one free (nid, node) (waiting, queue) =
     (if free \<notin> set (row_needs (pn_row node)) then (waiting, queue)
      else case bt_get waiting nid of
             None \<Rightarrow> (waiting, queue)
           | Some count \<Rightarrow>
               (bt_update (\<lambda>count. count - 1) nid waiting,
                if count - 1 = 0 then queue @ [nid] else queue))"

definition release :: "plan_nodes \<Rightarrow> node_id \<Rightarrow> waiting \<Rightarrow> node_id list \<Rightarrow> waiting \<times> node_id list" where
  "release nodes free waiting queue = fold (release_one free) nodes (waiting, queue)"

lemma release_one_keys: "bt_keys (fst (release_one free e wq)) = bt_keys (fst wq)"
  by (cases e; cases wq) (simp split: option.split)

lemma release_keys: "bt_keys (fst (release nodes free waiting queue)) = bt_keys waiting"
proof -
  have "bt_keys (fst (fold (release_one free) nodes wq)) = bt_keys (fst wq)" for wq
    by (induction nodes arbitrary: wq) (simp_all add: release_one_keys)
  then show ?thesis by (simp add: release_def)
qed

lemma release_one_queue:
  "\<exists>new. snd (release_one free e wq) = snd wq @ new \<and> set new \<subseteq> set (bt_keys (fst wq))"
  by (cases e; cases wq) (auto simp: bt_keys_iff split: option.split)

lemma release_queue:
  "\<exists>new. snd (release nodes free waiting queue) = queue @ new \<and> set new \<subseteq> set (bt_keys waiting)"
proof -
  have "\<exists>new. snd (fold (release_one free) nodes wq) = snd wq @ new \<and> set new \<subseteq> set (bt_keys (fst wq))" for wq
  proof (induction nodes arbitrary: wq)
    case (Cons e es)
    obtain a where a: "snd (release_one free e wq) = snd wq @ a" "set a \<subseteq> set (bt_keys (fst wq))"
      using release_one_queue by blast
    obtain b where "snd (fold (release_one free) es (release_one free e wq)) = snd (release_one free e wq) @ b"
      "set b \<subseteq> set (bt_keys (fst wq))"
      using Cons.IH [of "release_one free e wq"] by (auto simp: release_one_keys)
    with a show ?case by (intro exI [of _ "a @ b"]) simp
  qed simp
  from this [of "(waiting, queue)"] show ?thesis by (simp add: release_def)
qed

text \<open>The loop over the queue, which is a stack: its last node is popped.\<close>

function drain :: "plan_nodes \<Rightarrow> waiting \<Rightarrow> node_id list \<Rightarrow> waiting" where
  "drain nodes waiting queue =
     (if queue = [] then waiting
      else let free = last queue;
               (waiting', queue') = release nodes free (bt_remove free waiting) (butlast queue)
           in drain nodes waiting' queue')"
  by pat_completeness auto

lemma keys_remove: "bt_keys (bt_remove k m) = filter (\<lambda>x. x \<noteq> k) (bt_keys m)"
  by (induction m) (auto simp: bt_keys_def bt_remove_def)

termination drain
proof (relation "measures [\<lambda>(nodes, waiting, queue). length (bt_keys waiting),
    \<lambda>(nodes, waiting, queue). length (filter (\<lambda>q. q \<notin> set (bt_keys waiting)) queue)]")
  fix nodes :: plan_nodes and waiting :: waiting and queue free rel waiting' queue'
  assume q: "queue \<noteq> []" and free: "free = last queue"
    and rel: "rel = release nodes free (bt_remove free waiting) (butlast queue)" and p: "(waiting', queue') = rel"
  obtain new where new: "queue' = butlast queue @ new" "set new \<subseteq> set (bt_keys (bt_remove free waiting))"
    using release_queue [of nodes free "bt_remove free waiting" "butlast queue"] rel p by (metis snd_conv)
  have keys: "bt_keys waiting' = bt_keys (bt_remove free waiting)"
    using release_keys rel p by (metis fst_conv)
  have split: "queue = butlast queue @ [free]" using q free by simp
  show "((nodes, waiting', queue'), nodes, waiting, queue) \<in> measures [\<lambda>(nodes, waiting, queue). length (bt_keys waiting),
    \<lambda>(nodes, waiting, queue). length (filter (\<lambda>q. q \<notin> set (bt_keys waiting)) queue)]"
  proof (cases "free \<in> set (bt_keys waiting)")
    case True
    then have "length (bt_keys waiting') < length (bt_keys waiting)"
      unfolding keys keys_remove by (rule length_filter_less) simp
    then show ?thesis by simp
  next
    case False
    then have same: "bt_keys waiting' = bt_keys waiting"
      unfolding keys keys_remove by (auto simp: filter_id_conv)
    have "filter (\<lambda>q. q \<notin> set (bt_keys waiting)) new = []"
      using new(2) same keys by (auto simp: filter_empty_conv)
    then have "length (filter (\<lambda>q. q \<notin> set (bt_keys waiting)) queue') <
        length (filter (\<lambda>q. q \<notin> set (bt_keys waiting)) queue)"
      using False by (subst split) (simp add: new)
    with same show ?thesis by simp
  qed
qed simp

declare drain.simps [simp del]

text \<open>The walk along the stuck nodes, at most as many steps as there are of them.\<close>

fun walk_stuck :: "plan_nodes \<Rightarrow> node_id list \<Rightarrow> node_id \<Rightarrow> nat \<Rightarrow> node_id \<Rightarrow> node_id list \<Rightarrow> node_id list option" where
  "walk_stuck nodes stuck start 0 here walk = Some walk"
| "walk_stuck nodes stuck start (Suc steps) here walk =
     Option.bind (bt_get nodes here) (\<lambda>node.
     Option.bind (find (\<lambda>need. need \<in> set stuck) (row_needs (pn_row node))) (\<lambda>nxt.
       let walk = walk @ [nxt] in
       if nxt = start then Some walk
       else walk_stuck nodes stuck start steps nxt walk))"

definition first_cycle :: "plan_nodes \<Rightarrow> node_id list option" where
  "first_cycle nodes =
     (let waiting = map (\<lambda>(nid, node). (nid, length (row_needs (pn_row node)))) nodes;
          queue = map fst (filter (\<lambda>(_, count). count = 0) waiting);
          stuck = bt_keys (drain nodes waiting queue)
      in case stuck of
           [] \<Rightarrow> None
         | start # _ \<Rightarrow> walk_stuck nodes stuck start (length stuck) start [start])"


section \<open>The checks of a plan\<close>

definition need_problem :: "plan_nodes \<Rightarrow> node_id \<Rightarrow> node_id \<Rightarrow> ax_error option" where
  "need_problem nodes nid need =
     (if bt_get nodes need = None then
        Some (plan_refusal (lit ''read a plan dependency'')
          (node_str nid @ lit '' needs '' @ node_str need @ lit '', which the table does not carry'')
          (lit ''name a row the plan holds, or drop the dependency''))
      else if need = nid then
        Some (plan_refusal (lit ''read a plan dependency'') (node_str nid @ lit '' needs itself'')
          (lit ''a node cannot wait for its own result''))
      else None)"

definition check_dependencies :: "plan_nodes \<Rightarrow> unit ax_result" where
  "check_dependencies nodes =
     (case first_some (\<lambda>(nid, node). first_some (need_problem nodes nid) (row_needs (pn_row node))) nodes of
        Some e \<Rightarrow> Inl e
      | None \<Rightarrow>
          (case first_cycle nodes of
             Some circle \<Rightarrow>
               Inl (plan_refusal (lit ''read a plan dependency'')
                 (join_with [32, 8594, 32] (map node_str circle) @ lit '' runs in a circle'')
                 (lit ''drop one of those dependencies; nothing in a circle can ever start''))
           | None \<Rightarrow> Inr ()))"

definition branch_problem :: "plan_nodes \<Rightarrow> node_id \<times> plan_node \<Rightarrow> ax_error option" where
  "branch_problem nodes = (\<lambda>(nid, node).
     if pn_children node = [] \<or> node_status node \<noteq> Done then None
     else first_some (\<lambda>child_id.
       case bt_get nodes child_id of
         None \<Rightarrow> None
       | Some held_child \<Rightarrow>
           if node_status held_child \<noteq> Done then
             Some (plan_refusal (lit ''read a plan branch'')
               (node_str nid @ lit '' says done while '' @ node_str child_id @ lit '' does not'')
               (lit ''a branch is done when its children are; finish the child or reopen the branch''))
           else None) (pn_children node))"

definition check_branch_claims :: "plan_nodes \<Rightarrow> unit ax_result" where
  "check_branch_claims nodes =
     (case first_some (branch_problem nodes) nodes of Some e \<Rightarrow> Inl e | None \<Rightarrow> Inr ())"


section \<open>Division\<close>

definition level_weights :: "plan_nodes \<Rightarrow> node_id list \<Rightarrow> nat list" where
  "level_weights nodes among =
     map (\<lambda>nid. case bt_get nodes nid of None \<Rightarrow> 1 | Some node \<Rightarrow> row_weight (pn_row node)) among"

definition level_parts :: "plan_nodes \<Rightarrow> share \<Rightarrow> node_id list \<Rightarrow> share list ax_result" where
  "level_parts nodes pot among =
     (let weights = level_weights nodes among in
      if list_all (\<lambda>weight. weight = 0) weights then split pot (replicate (length among) 1)
      else split pot weights)"

function (sequential) hand_out :: "nat \<Rightarrow> plan_nodes \<Rightarrow> share \<Rightarrow> node_id list \<Rightarrow> plan_nodes ax_result option"
  and hand_each :: "nat \<Rightarrow> plan_nodes \<Rightarrow> (node_id \<times> share) list \<Rightarrow> plan_nodes ax_result option" where
  "hand_out 0 nodes pot among = None"
| "hand_out (Suc fuel) nodes pot among =
     (if among = [] then Some (Inr nodes)
      else case level_parts nodes pot among of
             Inl e \<Rightarrow> Some (Inl e)
           | Inr parts \<Rightarrow> hand_each fuel nodes (zip among parts))"
| "hand_each fuel nodes [] = Some (Inr nodes)"
| "hand_each fuel nodes ((nid, part) # rest) =
     (case bt_get nodes nid of
        None \<Rightarrow> hand_each fuel nodes rest
      | Some node \<Rightarrow>
          (case hand_out fuel (bt_update (\<lambda>node. node\<lparr>pn_share := part\<rparr>) nid nodes) part (pn_children node) of
             None \<Rightarrow> None
           | Some (Inl e) \<Rightarrow> Some (Inl e)
           | Some (Inr nodes') \<Rightarrow> hand_each fuel nodes' rest))"
  by pat_completeness auto

termination
  by (relation "measures [\<lambda>x. case x of Inl (fuel, _) \<Rightarrow> fuel | Inr (fuel, _) \<Rightarrow> fuel,
      \<lambda>x. case x of Inl _ \<Rightarrow> 0 | Inr (_, _, parts) \<Rightarrow> Suc (length parts)]") auto

definition DIVIDE_FUEL :: nat where
  "DIVIDE_FUEL = NODE_DEPTH_MAX + 1"

definition divide :: "plan_tree \<Rightarrow> plan_tree ax_result option" where
  "divide tree =
     (let roots = filter (\<lambda>nid. parent nid = None) (bt_keys (plan_nodes tree)) in
      map_option (map_sum (\<lambda>e. e) (\<lambda>nodes. \<lparr>plan_nodes = nodes\<rparr>))
        (hand_out DIVIDE_FUEL (plan_nodes tree) WHOLE roots))"

definition place :: "roadmap_row list \<Rightarrow> plan_nodes ax_result" where
  "place rows =
     and_then (place_rows rows bt_empty) (\<lambda>nodes.
     and_then (hang_children (bt_keys nodes) nodes) (\<lambda>nodes.
     and_then (check_dependencies nodes) (\<lambda>_.
     and_then (check_branch_claims nodes) (\<lambda>_. Inr nodes))))"

definition plan_build :: "roadmap_row list \<Rightarrow> plan_tree ax_result option" where
  "plan_build rows =
     (case place rows of
        Inl e \<Rightarrow> Some (Inl e)
      | Inr nodes \<Rightarrow> divide \<lparr>plan_nodes = nodes\<rparr>)"


section \<open>Queries\<close>

definition plan_get :: "plan_tree \<Rightarrow> node_id \<Rightarrow> plan_node option" where
  "plan_get tree nid = bt_get (plan_nodes tree) nid"

definition plan_len :: "plan_tree \<Rightarrow> nat" where
  "plan_len tree = length (plan_nodes tree)"

definition plan_is_empty :: "plan_tree \<Rightarrow> bool" where
  "plan_is_empty tree \<longleftrightarrow> plan_nodes tree = []"

text \<open>A \<open>BTreeSet\<close> is its elements in order, each once.\<close>

definition needs_of :: "plan_tree \<Rightarrow> node_id \<Rightarrow> node_id list" where
  "needs_of tree nid =
     fold (\<lambda>step found.
         case plan_get tree step of
           None \<Rightarrow> found
         | Some node \<Rightarrow> fold insort_insert (row_needs (pn_row node)) found)
       (ancestors nid @ [nid]) []"

definition is_done :: "plan_tree \<Rightarrow> node_id \<Rightarrow> bool" where
  "is_done tree need = (case plan_get tree need of None \<Rightarrow> False | Some node \<Rightarrow> node_status node = Done)"

definition ready :: "plan_tree \<Rightarrow> node_id list" where
  "ready tree =
     map (\<lambda>node. row_id (pn_row node))
       (filter (\<lambda>node. list_all (is_done tree) (needs_of tree (row_id (pn_row node))))
         (filter (\<lambda>node. is_leaf node \<and> node_status node = NotStarted) (map snd (plan_nodes tree))))"

definition somewhere_else :: "plan_tree \<Rightarrow> rstr" where
  "somewhere_else tree =
     (case ready tree of
        [] \<Rightarrow> lit ''nothing is ready; report to the User rather than picking a node''
      | nid # _ \<Rightarrow> lit ''claim '' @ node_str nid @ lit '', which is ready'')"

definition claim :: "plan_tree \<Rightarrow> node_id \<Rightarrow> held ax_result" where
  "claim tree nid =
     and_then
       (ok_or
         (plan_refusal (lit ''claim a plan node'') (lit ''no row numbered '' @ node_str nid)
           (lit ''list the plan first; it carries '' @ show_nat (plan_len tree) @ lit '' rows''))
         (plan_get tree nid)) (\<lambda>node.
     if \<not> is_leaf node then
       Inl (plan_refusal (lit ''claim a plan node'')
         (node_str nid @ lit '' is a branch with '' @ show_nat (length (pn_children node)) @ lit '' children'')
         (lit ''claim one of its children; a branch is done when its children are''))
     else if node_status node \<noteq> NotStarted then
       Inl (with_recovery (somewhere_else tree)
         (failure GoalConflict (lit ''claim a plan node'')
           (node_str nid @ lit '' is `'' @ spelling (node_status node) @ lit ''`'')))
     else
       let waiting = map node_str (filter (\<lambda>need. \<not> is_done tree need) (needs_of tree nid)) in
       if waiting \<noteq> [] then
         Inl (plan_refusal (lit ''claim a plan node'')
           (node_str nid @ lit '' waits for '' @ join_with (lit '', '') waiting) (somewhere_else tree))
       else Inr (Held nid))"


section \<open>Progress\<close>

record planned_progress =
  pp_done :: nat
  pp_blocked :: nat
  pp_total :: nat
  pp_done_ppb :: nat
  pp_blocked_ppb :: nat

record unplanned_progress =
  up_steps :: nat
  up_budget :: budget_use

datatype progress = Planned planned_progress | Unplanned unplanned_progress

definition ratio :: "planned_progress \<Rightarrow> nat \<times> nat" where
  "ratio p = (pp_done p, pp_total p)"

definition weighted :: "planned_progress \<Rightarrow> nat \<times> nat" where
  "weighted p = (pp_done_ppb p, WHOLE_PPB)"

record progress_scan =
  ps_done :: nat
  ps_blocked :: nat
  ps_total :: nat
  ps_done_parts :: "share list"
  ps_blocked_parts :: "share list"

definition leaf_done :: "plan_node \<Rightarrow> bool" where
  "leaf_done node \<longleftrightarrow> node_status node = Done \<and> (case row_evidence (pn_row node) of Present _ \<Rightarrow> True | _ \<Rightarrow> False)"

definition leaf_blocked :: "plan_node \<Rightarrow> bool" where
  "leaf_blocked node \<longleftrightarrow> node_status node = Blocked \<or> node_status node = AwaitingApproval"

definition count_node :: "plan_node \<Rightarrow> progress_scan \<Rightarrow> progress_scan" where
  "count_node node s =
     (if \<not> is_leaf node then s
      else let s = s\<lparr>ps_total := sat_add u32_max (ps_total s) 1\<rparr> in
        if leaf_done node then
          s\<lparr>ps_done := sat_add u32_max (ps_done s) 1, ps_done_parts := ps_done_parts s @ [pn_share node]\<rparr>
        else if leaf_blocked node then
          s\<lparr>ps_blocked := sat_add u32_max (ps_blocked s) 1,
            ps_blocked_parts := ps_blocked_parts s @ [pn_share node]\<rparr>
        else s)"

definition plan_progress :: "plan_tree \<Rightarrow> progress" where
  "plan_progress tree =
     (let s = fold count_node (map snd (plan_nodes tree))
                \<lparr>ps_done = 0, ps_blocked = 0, ps_total = 0, ps_done_parts = [], ps_blocked_parts = []\<rparr>
      in Planned \<lparr>pp_done = ps_done s, pp_blocked = ps_blocked s, pp_total = ps_total s,
           pp_done_ppb = ppb (gather (ps_done_parts s)), pp_blocked_ppb = ppb (gather (ps_blocked_parts s))\<rparr>)"

end
