(* ===== verification/PlanCircles.thy ===== *)
theory PlanCircles
  imports Plans
begin

text \<open>
  The circle search of \<open>kernel::plan\<close> (\<open>plan/blocking.rs\<close>): its loop lets go of every node that waits
  for nothing, and what stays has a circle in it. A walk \<open>first_cycle\<close> answers with always closes a
  circle that is there; for rows that name each dependency once, it decides whether there is one.
\<close>

section \<open>The relation a plan must keep free of circles\<close>

definition node_needs :: "plan_nodes \<Rightarrow> node_id \<Rightarrow> node_id list" where
  "node_needs nodes nid = (case bt_get nodes nid of None \<Rightarrow> [] | Some node \<Rightarrow> row_needs (pn_row node))"

definition need_edges :: "plan_nodes \<Rightarrow> (node_id \<times> node_id) set" where
  "need_edges nodes = {(need, nid). need \<in> set (node_needs nodes nid)}"

definition needs_closed :: "plan_nodes \<Rightarrow> bool" where
  "needs_closed nodes \<longleftrightarrow>
     (\<forall>nid. set (node_needs nodes nid) \<subseteq> set (bt_keys nodes) \<and> distinct (node_needs nodes nid))"

abbreviation waits :: "waiting \<Rightarrow> node_id set" where
  "waits w \<equiv> set (bt_keys w)"

lemma release_all:
  assumes "distinct (map fst es)"
  shows "\<exists>w' new. fold (release_one free) es (w, q) = (w', q @ new) \<and>
     (\<forall>n. bt_get w' n =
        (if \<exists>node. (n, node) \<in> set es \<and> free \<in> set (row_needs (pn_row node))
         then map_option (\<lambda>c. c - 1) (bt_get w n) else bt_get w n)) \<and>
     distinct new \<and>
     set new = {n. \<exists>node c. (n, node) \<in> set es \<and> free \<in> set (row_needs (pn_row node)) \<and>
                     bt_get w n = Some c \<and> c - 1 = 0}"
  using assms
proof (induction es arbitrary: w q)
  case Nil
  then show ?case by simp
next
  case (Cons e es)
  obtain n node where e: "e = (n, node)" by (cases e)
  have fresh: "n \<notin> fst ` set es" "distinct (map fst es)" using Cons.prems e by auto
  then have only: "(n, node') \<in> set (e # es) \<longleftrightarrow> node' = node" for node' using e by force
  show ?case
  proof (cases "free \<in> set (row_needs (pn_row node)) \<and> bt_get w n \<noteq> None")
    case False
    then have step: "release_one free e (w, q) = (w, q)" using e by (auto split: option.split)
    obtain w' new where ih: "fold (release_one free) es (w, q) = (w', q @ new)"
      "\<And>m. bt_get w' m = (if \<exists>node. (m, node) \<in> set es \<and> free \<in> set (row_needs (pn_row node))
         then map_option (\<lambda>c. c - 1) (bt_get w m) else bt_get w m)" "distinct new"
      "set new = {n. \<exists>node c. (n, node) \<in> set es \<and> free \<in> set (row_needs (pn_row node)) \<and>
                     bt_get w n = Some c \<and> c - 1 = 0}"
      using Cons.IH [OF fresh(2), of w q] by blast
    show ?thesis
    proof (intro exI conjI allI)
      show "fold (release_one free) (e # es) (w, q) = (w', q @ new)" using step ih(1) by simp
      show "distinct new" by (fact ih)
      show "bt_get w' m = (if \<exists>node. (m, node) \<in> set (e # es) \<and> free \<in> set (row_needs (pn_row node))
         then map_option (\<lambda>c. c - 1) (bt_get w m) else bt_get w m)" for m
        using ih(2) [of m] False e by (cases "m = n") auto
      show "set new = {n. \<exists>node c. (n, node) \<in> set (e # es) \<and> free \<in> set (row_needs (pn_row node)) \<and>
                     bt_get w n = Some c \<and> c - 1 = 0}"
        unfolding ih(4) using False e by auto
    qed
  next
    case True
    then obtain c where c: "bt_get w n = Some c" by blast
    let ?w = "bt_update (\<lambda>c. c - 1) n w" and ?q = "if c - 1 = 0 then [n] else []"
    have step: "release_one free e (w, q) = (?w, q @ ?q)" using e True c by auto
    obtain w' new where ih: "fold (release_one free) es (?w, q @ ?q) = (w', (q @ ?q) @ new)"
      "\<And>m. bt_get w' m = (if \<exists>node. (m, node) \<in> set es \<and> free \<in> set (row_needs (pn_row node))
         then map_option (\<lambda>c. c - 1) (bt_get ?w m) else bt_get ?w m)" "distinct new"
      "set new = {n. \<exists>node c. (n, node) \<in> set es \<and> free \<in> set (row_needs (pn_row node)) \<and>
                     bt_get ?w n = Some c \<and> c - 1 = 0}"
      using Cons.IH [OF fresh(2), of ?w "q @ ?q"] by blast
    have other: "(m, node') \<in> set es \<Longrightarrow> bt_get ?w m = bt_get w m" for m node'
      using fresh by (force simp: map_simps)
    show ?thesis
    proof (intro exI conjI allI)
      show "fold (release_one free) (e # es) (w, q) = (w', q @ (?q @ new))" using step ih(1) by simp
      have "n \<notin> set new" using ih(4) fresh by force
      then show "distinct (?q @ new)" using ih(3) by simp
      show "bt_get w' m = (if \<exists>node. (m, node) \<in> set (e # es) \<and> free \<in> set (row_needs (pn_row node))
         then map_option (\<lambda>c. c - 1) (bt_get w m) else bt_get w m)" for m
      proof (cases "m = n")
        case True': True
        then have "\<not> (\<exists>node. (m, node) \<in> set es)" using fresh by force
        then show ?thesis using ih(2) [of m] True True' e by (auto simp: map_simps)
      next
        case False
        then show ?thesis using ih(2) [of m] e by (auto simp: map_simps)
      qed
      have "set new = {n. \<exists>node c. (n, node) \<in> set es \<and> free \<in> set (row_needs (pn_row node)) \<and>
                     bt_get w n = Some c \<and> c - 1 = 0}"
        unfolding ih(4) using other by (metis (no_types, lifting))
      then show "set (?q @ new) = {n. \<exists>node c. (n, node) \<in> set (e # es) \<and> free \<in> set (row_needs (pn_row node)) \<and>
                     bt_get w n = Some c \<and> c - 1 = 0}"
        using True c e by auto
    qed
  qed
qed

lemma release_spec:
  assumes "bt_wf nodes"
  obtains w' new where "release nodes free w q = (w', q @ new)"
    "\<And>n. bt_get w' n = (if free \<in> set (node_needs nodes n) then map_option (\<lambda>c. c - 1) (bt_get w n) else bt_get w n)"
    "distinct new" "set new = {n. free \<in> set (node_needs nodes n) \<and> (\<exists>c. bt_get w n = Some c \<and> c - 1 = 0)}"
proof -
  have at: "free \<in> set (node_needs nodes n) \<longleftrightarrow>
      (\<exists>node. (n, node) \<in> set nodes \<and> free \<in> set (row_needs (pn_row node)))" for n
    using bt_entry_get [OF assms, of n] by (cases "bt_get nodes n") (auto simp: node_needs_def)
  obtain w' new where r: "fold (release_one free) nodes (w, q) = (w', q @ new)"
     "\<And>n. bt_get w' n =
        (if \<exists>node. (n, node) \<in> set nodes \<and> free \<in> set (row_needs (pn_row node))
         then map_option (\<lambda>c. c - 1) (bt_get w n) else bt_get w n)"
     "distinct new"
     "set new = {n. \<exists>node c. (n, node) \<in> set nodes \<and> free \<in> set (row_needs (pn_row node)) \<and>
                     bt_get w n = Some c \<and> c - 1 = 0}"
    using release_all [OF bt_wf_distinct [OF assms], of free w q] by blast
  show thesis
  proof (rule that)
    show "release nodes free w q = (w', q @ new)" using r(1) by (simp add: release_def)
    show "bt_get w' n = (if free \<in> set (node_needs nodes n) then map_option (\<lambda>c. c - 1) (bt_get w n) else bt_get w n)" for n
      using r(2) [of n] at [of n] by presburger
    show "set new = {n. free \<in> set (node_needs nodes n) \<and> (\<exists>c. bt_get w n = Some c \<and> c - 1 = 0)}"
      unfolding r(4) at by blast
  qed (fact r)
qed

text \<open>What the loop keeps: a node still waiting counts its needs still waiting, the queue holds the
  nodes that count none, and every node let go stands on nodes let go before it.\<close>

definition drain_inv :: "plan_nodes \<Rightarrow> waiting \<Rightarrow> node_id list \<Rightarrow> bool" where
  "drain_inv nodes w q \<longleftrightarrow>
     waits w \<subseteq> set (bt_keys nodes) \<and>
     (\<forall>n \<in> waits w. bt_get w n = Some (card (set (node_needs nodes n) \<inter> waits w))) \<and>
     distinct q \<and> set q = {n \<in> waits w. set (node_needs nodes n) \<inter> waits w = {}} \<and>
     set (bt_keys nodes) - waits w \<subseteq> Wellfounded.acc (need_edges nodes)"

lemma drain_inv_step:
  assumes nodes: "bt_wf nodes" "needs_closed nodes" and inv: "drain_inv nodes w q" and q: "q \<noteq> []"
    and step: "release nodes (last q) (bt_remove (last q) w) (butlast q) = (w', q')"
  shows "drain_inv nodes w' q'"
proof -
  let ?f = "last q" and ?w = "bt_remove (last q) w" and ?N = "\<lambda>n. set (node_needs nodes n)"
  note I = inv [unfolded drain_inv_def]
  obtain w2 new where r2: "release nodes ?f ?w (butlast q) = (w2, butlast q @ new)"
    "\<And>n. bt_get w2 n = (if ?f \<in> ?N n then map_option (\<lambda>c. c - 1) (bt_get ?w n) else bt_get ?w n)"
    "distinct new" "set new = {n. ?f \<in> ?N n \<and> (\<exists>c. bt_get ?w n = Some c \<and> c - 1 = 0)}"
    by (rule release_spec [OF nodes(1), of ?f ?w "butlast q"]) (rule that)
  have eq: "w2 = w'" "q' = butlast q @ new" using step r2(1) by simp_all
  note r = eq(2) r2(2-4) [unfolded eq(1)]
  have fq: "?f \<in> waits w" "?N ?f \<inter> waits w = {}" using I q last_in_set by blast+
  have dom: "waits w' = waits w - {?f}"
  proof -
    have "waits w' = waits ?w" by (auto simp: bt_keys_iff r(2) split: if_splits)
    then show ?thesis by (auto simp: keys_remove)
  qed
  have get: "bt_get ?w n = bt_get w n" if "n \<noteq> ?f" for n using that by (simp add: map_simps)
  have count: "bt_get w' n = Some (card (?N n \<inter> waits w'))" if "n \<in> waits w'" for n
  proof -
    have n: "n \<in> waits w" "n \<noteq> ?f" using that dom by auto
    then have c: "bt_get w n = Some (card (?N n \<inter> waits w))" using I by blast
    have "?N n \<inter> waits w' = (?N n \<inter> waits w) - {?f}" using dom by blast
    then have "card (?N n \<inter> waits w') = (if ?f \<in> ?N n then card (?N n \<inter> waits w) - 1 else card (?N n \<inter> waits w))"
      using fq(1) by (simp add: card_Diff_singleton_if)
    then show ?thesis using c get [OF n(2)] r(2) [of n] by simp
  qed
  obtain p where p: "q = p @ [?f]" using q append_butlast_last_id by metis
  then have bl: "butlast q = p" by (metis butlast_snoc)
  have dq: "distinct (butlast q)" "?f \<notin> set (butlast q)" "set q = insert ?f (set (butlast q))"
  proof -
    have "distinct (p @ [?f])" using I p by simp
    then show "distinct (butlast q)" "?f \<notin> set (butlast q)" unfolding bl by simp_all
    have "set (p @ [?f]) = insert ?f (set p)" by simp
    then show "set q = insert ?f (set (butlast q))" unfolding bl p [symmetric] .
  qed
  have zero: "set new = {n \<in> waits w'. ?f \<in> ?N n \<and> ?N n \<inter> waits w' = {}}"
  proof -
    have "(\<exists>c. bt_get ?w n = Some c \<and> c - 1 = 0) \<longleftrightarrow> n \<in> waits w' \<and> ?N n \<inter> waits w' = {}" if f: "?f \<in> ?N n" for n
    proof (cases "n \<in> waits w'")
      case True
      then obtain c where c: "bt_get ?w n = Some c" "c - 1 = card (?N n \<inter> waits w')"
        using r(2) [of n] count [OF True] f by (cases "bt_get ?w n") auto
      then have "c - 1 = 0 \<longleftrightarrow> ?N n \<inter> waits w' = {}" by (simp only: card_0_eq finite_Int finite_set simp_thms)
      then show ?thesis using True c(1) by simp
    next
      case False
      then have "n = ?f \<or> n \<notin> waits w" using dom by blast
      then have "bt_get ?w n = None" by (auto simp: map_simps bt_keys_iff)
      then show ?thesis using False by simp
    qed
    then show ?thesis unfolding r(4) by blast
  qed
  have "set (butlast q) = {n \<in> waits w'. ?f \<notin> ?N n \<and> ?N n \<inter> waits w' = {}}"
    using dq I dom fq by auto
  then have "set q' = {n \<in> waits w'. ?N n \<inter> waits w' = {}}" "distinct q'"
    using zero r(1,3) dq(1) by auto
  moreover have "set (bt_keys nodes) - waits w' \<subseteq> Wellfounded.acc (need_edges nodes)"
  proof -
    have "?N ?f \<subseteq> set (bt_keys nodes) - waits w" using fq(2) nodes(2) by (auto simp: needs_closed_def)
    then have "?N ?f \<subseteq> Wellfounded.acc (need_edges nodes)" using I by blast
    then have "?f \<in> Wellfounded.acc (need_edges nodes)" by - (rule accI, auto simp: need_edges_def)
    then show ?thesis using dom I by auto
  qed
  ultimately show ?thesis unfolding drain_inv_def using I dom count by auto
qed

lemma drain_result:
  assumes "bt_wf nodes" "needs_closed nodes" "drain_inv nodes w q"
  shows "drain_inv nodes (drain nodes w q) []"
  using assms
proof (induction nodes w q rule: drain.induct)
  case (1 nodes w q)
  show ?case
  proof (cases "q = []")
    case True
    then show ?thesis using 1 by (subst drain.simps) simp
  next
    case False
    obtain w' q' where r: "release nodes (last q) (bt_remove (last q) w) (butlast q) = (w', q')"
      by (cases "release nodes (last q) (bt_remove (last q) w) (butlast q)")
    have "drain nodes w q = drain nodes w' q'" using False r by (subst drain.simps) simp
    then show ?thesis using "1.IH" [OF False refl r [symmetric] refl] drain_inv_step [OF _ _ _ False r] "1.prems" by simp
  qed
qed

lemma drain_start:
  assumes "bt_wf nodes" "needs_closed nodes"
  defines "w \<equiv> map (\<lambda>(nid, node). (nid, length (row_needs (pn_row node)))) nodes"
  shows "drain_inv nodes w (map fst (filter (\<lambda>(_, count). count = 0) w))"
proof -
  have keys: "bt_keys w = bt_keys nodes" by (simp add: w_def bt_keys_def comp_def case_prod_unfold)
  have get: "bt_get w n = map_option (\<lambda>node. length (row_needs (pn_row node))) (bt_get nodes n)" for n
    unfolding w_def bt_get_def by (induction nodes) auto
  have len: "bt_get w n = Some (length (node_needs nodes n))" if "n \<in> waits w" for n
    using that get [of n] by (auto simp: keys bt_keys_iff node_needs_def)
  have all: "set (node_needs nodes n) \<inter> waits w = set (node_needs nodes n)" for n
    using assms(2) by (auto simp: needs_closed_def keys)
  have card: "card (set (node_needs nodes n)) = length (node_needs nodes n)" for n
    using assms(2) by (auto simp: needs_closed_def distinct_card)
  let ?q = "map fst (filter (\<lambda>(_, count). count = 0) w)"
  have dk: "distinct (map fst w)" using bt_wf_distinct [OF assms(1)] keys by (simp add: bt_keys_def)
  then have "distinct ?q" by (rule distinct_map_filter)
  moreover have "set ?q = {n \<in> waits w. node_needs nodes n = []}"
  proof -
    have "n \<in> set ?q \<longleftrightarrow> bt_get w n = Some 0" for n
      using dk by (force simp: bt_get_def)
    then show ?thesis using len by (force simp: bt_keys_iff)
  qed
  ultimately show ?thesis unfolding drain_inv_def using len by (simp add: all card) (simp add: keys)
qed

definition stuck_nodes :: "plan_nodes \<Rightarrow> node_id list" where
  "stuck_nodes nodes =
     (let waiting = map (\<lambda>(nid, node). (nid, length (row_needs (pn_row node)))) nodes
      in bt_keys (drain nodes waiting (map fst (filter (\<lambda>(_, count). count = 0) waiting))))"

lemma stuck_spec:
  assumes "bt_wf nodes" "needs_closed nodes"
  shows "set (stuck_nodes nodes) \<subseteq> set (bt_keys nodes)"
    and "n \<in> set (stuck_nodes nodes) \<Longrightarrow> set (node_needs nodes n) \<inter> set (stuck_nodes nodes) \<noteq> {}"
    and "set (bt_keys nodes) - set (stuck_nodes nodes) \<subseteq> Wellfounded.acc (need_edges nodes)"
proof -
  note inv = drain_result [OF assms drain_start [OF assms], unfolded drain_inv_def]
  show "set (stuck_nodes nodes) \<subseteq> set (bt_keys nodes)"
    "n \<in> set (stuck_nodes nodes) \<Longrightarrow> set (node_needs nodes n) \<inter> set (stuck_nodes nodes) \<noteq> {}"
    "set (bt_keys nodes) - set (stuck_nodes nodes) \<subseteq> Wellfounded.acc (need_edges nodes)"
    using inv by (auto simp: stuck_nodes_def Let_def)
qed

lemma stuck_not_acc:
  assumes "bt_wf nodes" "needs_closed nodes" "n \<in> Wellfounded.acc (need_edges nodes)"
  shows "n \<notin> set (stuck_nodes nodes)"
  using assms(3)
proof (induction rule: acc_induct_rule)
  case (1 n)
  then show ?case using stuck_spec(2) [OF assms(1,2), of n] by (auto simp: need_edges_def)
qed

lemma need_edges_finite: "bt_wf nodes \<Longrightarrow> finite (need_edges nodes)"
proof -
  have "need_edges nodes \<subseteq> (\<Union>n \<in> set (bt_keys nodes). set (node_needs nodes n) \<times> {n})"
  proof clarify
    fix need n assume "(need, n) \<in> need_edges nodes"
    then show "(need, n) \<in> (\<Union>n \<in> set (bt_keys nodes). set (node_needs nodes n) \<times> {n})"
      by (cases "bt_get nodes n") (auto simp: need_edges_def node_needs_def bt_keys_iff)
  qed
  then show ?thesis by (rule finite_subset) auto
qed

lemma stuck_acyclic:
  assumes "bt_wf nodes" "needs_closed nodes"
  shows "stuck_nodes nodes = [] \<longleftrightarrow> acyclic (need_edges nodes)"
proof
  assume e: "stuck_nodes nodes = []"
  have "x \<in> Wellfounded.acc (need_edges nodes)" for x
  proof (cases "x \<in> set (bt_keys nodes)")
    case True
    then show ?thesis using stuck_spec(3) [OF assms] e by auto
  next
    case False
    then have "node_needs nodes x = []" by (simp add: node_needs_def bt_keys_iff)
    then show ?thesis by - (rule accI, simp add: need_edges_def)
  qed
  then have "wf (need_edges nodes)" using wf_iff_acc by blast
  then show "acyclic (need_edges nodes)" by (rule wf_acyclic)
next
  assume "acyclic (need_edges nodes)"
  then have "wf (need_edges nodes)"
    using need_edges_finite [OF assms(1)] finite_acyclic_wf by blast
  then have "\<forall>x. x \<in> Wellfounded.acc (need_edges nodes)" by (simp add: wf_iff_acc)
  then have "\<forall>x. x \<notin> set (stuck_nodes nodes)" using stuck_not_acc [OF assms] by simp
  then show "stuck_nodes nodes = []" by (cases "stuck_nodes nodes") auto
qed

text \<open>A walk along needs that comes back to a node it has passed.\<close>

definition circle_walk :: "plan_nodes \<Rightarrow> node_id list \<Rightarrow> bool" where
  "circle_walk nodes walk \<longleftrightarrow>
     successively (\<lambda>a b. b \<in> set (node_needs nodes a)) walk \<and> \<not> distinct walk"

lemma walk_stuck_circle:
  assumes "\<And>n. n \<in> set stuck \<Longrightarrow> set (node_needs nodes n) \<inter> set stuck \<noteq> {}"
    and "set walk \<subseteq> set stuck" "walk \<noteq> []" "here = last walk" "hd walk = start"
    and "successively (\<lambda>a b. b \<in> set (node_needs nodes a)) walk" "length walk + steps = Suc (length stuck)"
  shows "\<exists>walk'. walk_stuck nodes stuck start steps here walk = Some walk' \<and> circle_walk nodes walk'"
  using assms(2-)
proof (induction steps arbitrary: here walk)
  case 0
  then have "\<not> distinct walk" using card_mono [of "set stuck" "set walk"] card_length [of stuck]
    by (auto simp: distinct_card)
  with 0 show ?case by (simp add: circle_walk_def)
next
  case (Suc steps)
  then have here: "here \<in> set stuck" using last_in_set by blast
  then obtain node where node: "bt_get nodes here = Some node"
    using assms(1) [of here] by (cases "bt_get nodes here") (auto simp: node_needs_def)
  then have needs: "node_needs nodes here = row_needs (pn_row node)" by (simp add: node_needs_def)
  then obtain nxt where nxt: "find (\<lambda>need. need \<in> set stuck) (row_needs (pn_row node)) = Some nxt"
    using assms(1) [OF here] by (cases "find (\<lambda>need. need \<in> set stuck) (row_needs (pn_row node))")
      (auto simp: find_None_iff)
  then have n: "nxt \<in> set stuck" "nxt \<in> set (node_needs nodes here)"
    using needs by (auto simp: find_Some_iff)
  have succ: "successively (\<lambda>a b. b \<in> set (node_needs nodes a)) (walk @ [nxt])"
    using Suc.prems n by (simp add: successively_append_iff)
  show ?case
  proof (cases "nxt = start")
    case True
    then have "\<not> distinct (walk @ [nxt])" using Suc.prems(2,4) hd_in_set by auto
    then show ?thesis using node nxt True succ by (simp add: circle_walk_def)
  next
    case False
    have "\<exists>walk'. walk_stuck nodes stuck start steps nxt (walk @ [nxt]) = Some walk' \<and> circle_walk nodes walk'"
      using Suc.prems n succ by (intro Suc.IH) auto
    then show ?thesis using node nxt False by simp
  qed
qed

lemma walk_stuck_sound:
  assumes "walk_stuck nodes stuck start steps here walk = Some found"
    and "set walk \<subseteq> set stuck" "walk \<noteq> []" "here = last walk" "hd walk = start"
    and "successively (\<lambda>a b. b \<in> set (node_needs nodes a)) walk" "length walk + steps = Suc (length stuck)"
  shows "circle_walk nodes found"
  using assms
proof (induction steps arbitrary: here walk)
  case 0
  then have "\<not> distinct walk" using card_mono [of "set stuck" "set walk"] card_length [of stuck]
    by (auto simp: distinct_card)
  with 0 show ?case by (simp add: circle_walk_def)
next
  case (Suc steps)
  obtain node nxt where step: "bt_get nodes here = Some node"
    "find (\<lambda>need. need \<in> set stuck) (row_needs (pn_row node)) = Some nxt"
    "(if nxt = start then Some (walk @ [nxt]) else walk_stuck nodes stuck start steps nxt (walk @ [nxt])) = Some found"
    using Suc.prems(1) by (auto simp: bind_eq_Some_conv Let_def)
  then have n: "nxt \<in> set stuck" "nxt \<in> set (node_needs nodes here)"
    by (auto simp: find_Some_iff node_needs_def)
  have succ: "successively (\<lambda>a b. b \<in> set (node_needs nodes a)) (walk @ [nxt])"
    using Suc.prems n by (simp add: successively_append_iff)
  show ?case
  proof (cases "nxt = start")
    case True
    then have "\<not> distinct (walk @ [nxt])" using Suc.prems(3,5) hd_in_set by auto
    then show ?thesis using step(3) True succ by (auto simp: circle_walk_def)
  next
    case False
    show ?thesis
      by (rule Suc.IH [of nxt "walk @ [nxt]"]) (use step(3) False Suc.prems n succ in auto)
  qed
qed

lemma walk_back:
  "successively (\<lambda>a b. b \<in> set (node_needs nodes a)) (a # xs @ [b]) \<Longrightarrow> (b, a) \<in> (need_edges nodes)\<^sup>+"
proof (induction xs arbitrary: a)
  case Nil
  then show ?case by (auto simp: need_edges_def)
next
  case (Cons x xs)
  then have "(b, x) \<in> (need_edges nodes)\<^sup>+" "(x, a) \<in> need_edges nodes"
    by (simp_all add: need_edges_def)
  then show ?case by (rule trancl_into_trancl)
qed

lemma circle_walk_cyclic:
  assumes "circle_walk nodes walk"
  shows "\<not> acyclic (need_edges nodes)"
proof -
  obtain xs y ys zs where w: "walk = xs @ (y # ys @ [y]) @ zs"
    using assms not_distinct_decomp [of walk] by (auto simp: circle_walk_def)
  have "successively (\<lambda>a b. b \<in> set (node_needs nodes a)) (y # ys @ [y])"
    using assms unfolding circle_walk_def w by (simp only: successively_append_iff)
  from walk_back [OF this] show ?thesis by (auto simp: acyclic_def)
qed

lemma first_cycle_stuck:
  "first_cycle nodes =
     (case stuck_nodes nodes of [] \<Rightarrow> None
      | start # _ \<Rightarrow> walk_stuck nodes (stuck_nodes nodes) start (length (stuck_nodes nodes)) start [start])"
  unfolding first_cycle_def stuck_nodes_def Let_def by (rule refl)

text \<open>Whatever the rows repeat, an answer is a circle that is there.\<close>

lemma first_cycle_sound:
  assumes "first_cycle nodes = Some walk"
  shows "circle_walk nodes walk"
proof (cases "stuck_nodes nodes")
  case Nil
  then show ?thesis using assms by (simp add: first_cycle_stuck)
next
  case (Cons start rest)
  then have "walk_stuck nodes (stuck_nodes nodes) start (length (stuck_nodes nodes)) start [start] = Some walk"
    using assms by (simp add: first_cycle_stuck)
  then show ?thesis by (rule walk_stuck_sound) (use Cons in simp_all)
qed

lemma first_cycle_acyclic: "acyclic (need_edges nodes) \<Longrightarrow> first_cycle nodes = None"
  using first_cycle_sound circle_walk_cyclic by (cases "first_cycle nodes") blast+

lemma first_cycle_decides:
  assumes "bt_wf nodes" "needs_closed nodes"
  shows "case first_cycle nodes of
     None \<Rightarrow> acyclic (need_edges nodes)
   | Some walk \<Rightarrow> \<not> acyclic (need_edges nodes) \<and> circle_walk nodes walk"
proof (cases "stuck_nodes nodes")
  case Nil
  then show ?thesis using stuck_acyclic [OF assms] by (simp add: first_cycle_stuck)
next
  case (Cons start rest)
  have "\<exists>walk'. walk_stuck nodes (stuck_nodes nodes) start (length (stuck_nodes nodes)) start [start] = Some walk' \<and>
      circle_walk nodes walk'"
    using Cons by (intro walk_stuck_circle stuck_spec(2) [OF assms]) auto
  then show ?thesis using stuck_acyclic [OF assms] Cons by (auto simp: first_cycle_stuck)
qed

end
