(* ===== verification/PlanTrees.thy ===== *)
theory PlanTrees
  imports PlanCircles
begin

text \<open>
  The plan as a tree (\<open>plan/tree.rs\<close>, \<open>plan/share.rs\<close>): what placing the rows gives, that the division
  ends and loses nothing, which tables are plans, and what is ready, claimed and counted.
\<close>

section \<open>What placing the rows gives\<close>

text \<open>What the types of a row promise: its index and weight were read.\<close>

definition row_typed :: "roadmap_row \<Rightarrow> bool" where
  "row_typed row \<longleftrightarrow> node_wf (row_id row) \<and> row_weight row \<le> u32_max"

definition blank :: "roadmap_row \<Rightarrow> plan_node" where
  "blank row = \<lparr>pn_row = row, pn_share = NONE, pn_children = []\<rparr>"

definition row_at :: "roadmap_row list \<Rightarrow> node_id \<Rightarrow> roadmap_row option" where
  "row_at rows n = find (\<lambda>row. row_id row = n) rows"

lemma row_at_Some: "row_at rows n = Some row \<Longrightarrow> row \<in> set rows \<and> row_id row = n"
  by (auto simp: row_at_def find_Some_iff)

lemma row_at_None: "row_at rows n = None \<longleftrightarrow> n \<notin> row_id ` set rows"
  by (auto simp: row_at_def find_None_iff)

lemma row_at_mem: "distinct (map row_id rows) \<Longrightarrow> row \<in> set rows \<Longrightarrow> row_at rows (row_id row) = Some row"
  unfolding row_at_def by (rule find_key)

lemma place_rows_refused:
  "place_rows rows nodes = Inl e \<Longrightarrow> err_code e = InvalidArgs"
  by (induction rows nodes rule: place_rows.induct) (auto simp: plan_refusal_def split: if_splits)

lemma place_rows_ok:
  "is_ok (place_rows rows nodes) \<longleftrightarrow>
     distinct (map row_id rows) \<and> (\<forall>row \<in> set rows. bt_get nodes (row_id row) = None)"
proof (induction rows arbitrary: nodes)
  case (Cons row rows)
  then show ?case by (auto simp: map_simps image_iff)
qed simp

lemma place_rows_get:
  assumes "place_rows rows nodes = Inr out" "bt_wf nodes"
  shows "bt_wf out" "bt_get out n = (case row_at rows n of None \<Rightarrow> bt_get nodes n | Some row \<Rightarrow> Some (blank row))"
proof -
  have "bt_wf out \<and> bt_get out n = (case row_at rows n of None \<Rightarrow> bt_get nodes n | Some row \<Rightarrow> Some (blank row))"
    using assms
  proof (induction rows nodes rule: place_rows.induct)
    case (2 row rows nodes)
    then have fresh: "bt_get nodes (row_id row) = None"
      and out: "place_rows rows (bt_insert (row_id row) (blank row) nodes) = Inr out"
      by (auto simp: blank_def split: if_splits)
    have "row_id row \<notin> row_id ` set rows"
      using place_rows_ok [of rows "bt_insert (row_id row) (blank row) nodes"] out by (auto simp: map_simps)
    then have "row_at rows (row_id row) = None" by (simp add: row_at_None)
    with 2 fresh out show ?case
      by (auto simp: blank_def row_at_def map_simps bt_wf_insert split: option.splits)
  qed (simp add: row_at_def)
  then show "bt_wf out" "bt_get out n = (case row_at rows n of None \<Rightarrow> bt_get nodes n | Some row \<Rightarrow> Some (blank row))"
    by blast+
qed

lemma hang_children_refused:
  "hang_children placed nodes = Inl e \<Longrightarrow> err_code e = InvalidArgs"
  by (induction placed nodes rule: hang_children.induct) (auto simp: plan_refusal_def split: option.splits)

lemma bt_get_update_ex: "(\<exists>v. bt_get (bt_update f k m) n = Some v) \<longleftrightarrow> (\<exists>v. bt_get m n = Some v)"
  by (auto simp: map_simps split: if_splits)

lemma hang_children_ok:
  "is_ok (hang_children placed nodes) \<longleftrightarrow>
     (\<forall>n \<in> set placed. \<forall>up. parent n = Some up \<longrightarrow> bt_get nodes up \<noteq> None)"
  by (induction placed nodes rule: hang_children.induct) (auto simp: bt_get_update_ex split: option.splits)

lemma hang_children_get:
  "hang_children placed nodes = Inr out \<Longrightarrow> bt_keys out = bt_keys nodes \<and>
     (\<forall>n. bt_get out n = map_option
       (\<lambda>node. node\<lparr>pn_children := pn_children node @ filter (\<lambda>m. parent m = Some n) placed\<rparr>) (bt_get nodes n))"
proof (induction placed nodes rule: hang_children.induct)
  case (1 nodes)
  then show ?case by (auto simp: map_option.id [unfolded id_def])
next
  case (2 nid placed nodes)
  show ?case
  proof (cases "parent nid")
    case None
    then show ?thesis using 2 by simp
  next
    case (Some up)
    then obtain held where held: "bt_get nodes up = Some held" using 2 by (auto split: option.splits)
    have IH: "bt_keys out = bt_keys nodes \<and> (\<forall>n. bt_get out n = map_option
       (\<lambda>node. node\<lparr>pn_children := pn_children node @ filter (\<lambda>m. parent m = Some n) placed\<rparr>)
       (bt_get (bt_update (\<lambda>node. node\<lparr>pn_children := pn_children node @ [nid]\<rparr>) up nodes) n))"
      using "2.IH"(2) [OF Some held] "2.prems" Some held by simp
    show ?thesis
    proof (intro conjI allI)
      show "bt_keys out = bt_keys nodes" using IH by blast
      fix n
      show "bt_get out n = map_option (\<lambda>node. node\<lparr>pn_children := pn_children node @
          filter (\<lambda>m. parent m = Some n) (nid # placed)\<rparr>) (bt_get nodes n)"
        using IH Some by (cases "n = up") (auto simp: map_simps option.map_comp comp_def)
    qed
  qed
qed

lemma bt_wf_keys: "bt_keys m = bt_keys m' \<Longrightarrow> bt_wf m \<longleftrightarrow> bt_wf m'"
  by (simp add: bt_wf_def bt_keys_def)

text \<open>
  A placed plan: every node stands under its own index, carries its row, hangs under a node of
  the plan and knows its children in table order.
\<close>

definition plan_ok :: "plan_nodes \<Rightarrow> bool" where
  "plan_ok nodes \<longleftrightarrow> bt_wf nodes \<and>
     (\<forall>n node. bt_get nodes n = Some node \<longrightarrow>
        row_id (pn_row node) = n \<and> row_typed (pn_row node) \<and>
        pn_children node = filter (\<lambda>m. parent m = Some n) (bt_keys nodes) \<and>
        (\<forall>up. parent n = Some up \<longrightarrow> bt_get nodes up \<noteq> None))"

lemma plan_okD:
  assumes "plan_ok nodes"
  shows "bt_wf nodes"
    and "bt_get nodes n = Some node \<Longrightarrow> row_id (pn_row node) = n"
    and "bt_get nodes n = Some node \<Longrightarrow> row_typed (pn_row node)"
    and "bt_get nodes n = Some node \<Longrightarrow> pn_children node = filter (\<lambda>m. parent m = Some n) (bt_keys nodes)"
    and "n \<in> set (bt_keys nodes) \<Longrightarrow> parent n = Some up \<Longrightarrow> up \<in> set (bt_keys nodes)"
    and "n \<in> set (bt_keys nodes) \<Longrightarrow> node_wf n"
  using assms by (auto simp: plan_ok_def bt_keys_iff row_typed_def)

definition parents_there :: "roadmap_row list \<Rightarrow> bool" where
  "parents_there rows \<longleftrightarrow> (\<forall>row \<in> set rows. \<forall>up. parent (row_id row) = Some up \<longrightarrow> up \<in> row_id ` set rows)"

definition arranged :: "roadmap_row list \<Rightarrow> plan_nodes ax_result" where
  "arranged rows = and_then (place_rows rows bt_empty) (\<lambda>nodes. hang_children (bt_keys nodes) nodes)"

lemma place_rows_keys:
  assumes "place_rows rows bt_empty = Inr nodes"
  shows "set (bt_keys nodes) = row_id ` set rows"
proof -
  have "n \<in> set (bt_keys nodes) \<longleftrightarrow> n \<in> row_id ` set rows" for n
    using place_rows_get(2) [OF assms bt.wf_empty, of n] row_at_None [of rows n]
    by (cases "row_at rows n") (auto simp: bt_keys_iff bt.get_empty)
  then show ?thesis by blast
qed

lemma arranged_ok: "is_ok (arranged rows) \<longleftrightarrow> distinct (map row_id rows) \<and> parents_there rows"
proof (cases "place_rows rows bt_empty")
  case (Inl e)
  then show ?thesis using place_rows_ok [of rows bt_empty] by (simp add: arranged_def bt.get_empty)
next
  case (Inr nodes)
  then have "distinct (map row_id rows)" using place_rows_ok [of rows bt_empty] by simp
  moreover have "is_ok (arranged rows) \<longleftrightarrow> parents_there rows"
  proof -
    have "is_ok (arranged rows) \<longleftrightarrow>
        (\<forall>n \<in> row_id ` set rows. \<forall>up. parent n = Some up \<longrightarrow> up \<in> row_id ` set rows)"
      using Inr hang_children_ok [of "bt_keys nodes" nodes]
      unfolding arranged_def and_then_simps bt_keys_iff [symmetric] place_rows_keys [OF Inr] by simp
    then show ?thesis unfolding parents_there_def by blast
  qed
  ultimately show ?thesis by simp
qed

lemma arranged_refused: "arranged rows = Inl e \<Longrightarrow> err_code e = InvalidArgs"
  by (auto simp: arranged_def and_then_eq_Inl dest: place_rows_refused hang_children_refused)

lemma arranged_plan:
  assumes "arranged rows = Inr nodes" "\<forall>row \<in> set rows. row_typed row"
  shows "plan_ok nodes" "set (bt_keys nodes) = row_id ` set rows"
    "map_option pn_row (bt_get nodes n) = row_at rows n"
proof -
  obtain first where first: "place_rows rows bt_empty = Inr first" "hang_children (bt_keys first) first = Inr nodes"
    using assms(1) by (auto simp: arranged_def result_simps)
  note f = place_rows_get [OF first(1) bt.wf_empty, unfolded bt.get_empty]
  note h = hang_children_get [OF first(2)]
  have wf: "bt_wf nodes" using f(1) h bt_wf_keys by blast
  show keys: "set (bt_keys nodes) = row_id ` set rows" using h place_rows_keys [OF first(1)] by simp
  have get: "bt_get nodes n = map_option (\<lambda>row. \<lparr>pn_row = row, pn_share = NONE,
      pn_children = filter (\<lambda>m. parent m = Some n) (bt_keys nodes)\<rparr>) (row_at rows n)" for n
    using h f(2) [of n] by (auto simp: blank_def split: option.splits)
  show "map_option pn_row (bt_get nodes n) = row_at rows n"
    unfolding get by (cases "row_at rows n") simp_all
  have "parents_there rows" using arranged_ok [of rows] assms(1) by simp
  show "plan_ok nodes" unfolding plan_ok_def
  proof (intro conjI allI impI wf)
    fix n node assume "bt_get nodes n = Some node"
    then obtain row where row: "row_at rows n = Some row" "node = \<lparr>pn_row = row, pn_share = NONE,
      pn_children = filter (\<lambda>m. parent m = Some n) (bt_keys nodes)\<rparr>" using get by auto
    from row_at_Some [OF row(1)] row(2) assms(2)
    show "row_id (pn_row node) = n" "row_typed (pn_row node)"
      "pn_children node = filter (\<lambda>m. parent m = Some n) (bt_keys nodes)" by auto
    fix up assume "parent n = Some up"
    then have "up \<in> set (bt_keys nodes)"
      using row_at_Some [OF row(1)] \<open>parents_there rows\<close> keys by (auto simp: parents_there_def)
    then show "bt_get nodes up \<noteq> None" using bt_keys_iff by fast
  qed
qed


section \<open>The division\<close>

definition below :: "node_id \<Rightarrow> node_id \<Rightarrow> bool" where
  "below n m \<longleftrightarrow> n = m \<or> is_ancestor_of n m"

lemma below_prefix: "node_wf n \<Longrightarrow> node_wf m \<Longrightarrow> below n m \<longleftrightarrow> prefix (node_path n) (node_path m)"
  using node_path_inject [of n m] by (auto simp: below_def is_ancestor_of_path strict_prefix_def)

lemma parent_path:
  assumes "node_wf n"
  shows "parent n = (if length (node_path n) = 1 then None else Some (node_of (butlast (node_path n))))"
proof -
  have "node_path n \<noteq> []" using path_wf_node_path [OF assms] by (simp add: path_wf_def)
  then show ?thesis using parent_of [of "node_path n"] assms by simp
qed

lemma siblings_level:
  assumes "node_wf a" "node_wf b" "parent a = parent b"
  shows "length (node_path a) = length (node_path b)"
proof (cases "parent a")
  case None
  then show ?thesis using assms parent_None by metis
next
  case (Some p)
  then have "butlast (node_path a) = butlast (node_path b)" using assms parent_wf by metis
  moreover have "node_path a \<noteq> []" "node_path b \<noteq> []"
    using assms path_wf_node_path by (auto simp: path_wf_def)
  ultimately have "length (node_path a) - 1 = length (node_path b) - 1" by (metis length_butlast)
  with \<open>node_path a \<noteq> []\<close> \<open>node_path b \<noteq> []\<close> show ?thesis
    by (cases "node_path a"; cases "node_path b") auto
qed

lemma siblings_apart:
  assumes "node_wf a" "node_wf b" "node_wf m" "parent a = parent b" "below a m" "below b m"
  shows "a = b"
proof -
  have "prefix (node_path a) (node_path m)" "prefix (node_path b) (node_path m)"
    using assms below_prefix by blast+
  then have "node_path a = node_path b"
    using siblings_level [OF assms(1,2,4)] by (metis append_eq_append_conv prefixE)
  then show ?thesis using assms node_path_inject by blast
qed

lemma plan_ancestor_there:
  assumes "plan_ok nodes" "m \<in> set (bt_keys nodes)" "node_path m = p @ q" "p \<noteq> []"
  shows "node_of p \<in> set (bt_keys nodes)"
  using assms(2-)
proof (induction q arbitrary: m rule: rev_induct)
  case Nil
  then have "node_of p = m" using plan_okD(6) [OF assms(1)] node_of_path by fastforce
  then show ?case using Nil by simp
next
  case (snoc k q)
  have wf: "node_wf m" using plan_okD(6) [OF assms(1)] snoc.prems by blast
  have "length (node_path m) \<noteq> 1" using snoc.prems by (cases p) auto
  then have par: "parent m = Some (node_of (p @ q))"
    using parent_path [OF wf] snoc.prems by (simp flip: append_assoc)
  then have "node_of (p @ q) \<in> set (bt_keys nodes)" using plan_okD(5) [OF assms(1) snoc.prems(1)] by blast
  then show ?case using snoc.IH [of "node_of (p @ q)"] snoc.prems(3) by simp
qed

definition plan_leaves :: "plan_nodes \<Rightarrow> node_id set" where
  "plan_leaves nodes = {n. \<exists>node. bt_get nodes n = Some node \<and> pn_children node = []}"

definition share_at :: "plan_nodes \<Rightarrow> node_id \<Rightarrow> nat" where
  "share_at nodes n = (case bt_get nodes n of None \<Rightarrow> 0 | Some node \<Rightarrow> ppb (pn_share node))"

definition leaves_below :: "plan_nodes \<Rightarrow> node_id list \<Rightarrow> node_id set" where
  "leaves_below nodes among = {m \<in> plan_leaves nodes. \<exists>a \<in> set among. below a m}"

text \<open>The division writes shares and nothing else.\<close>

definition shape :: "plan_nodes \<Rightarrow> plan_nodes" where
  "shape nodes = map (\<lambda>(n, node). (n, node\<lparr>pn_share := NONE\<rparr>)) nodes"

lemma shape_keys: "bt_keys (shape nodes) = bt_keys nodes"
  by (simp add: shape_def bt_keys_def comp_def case_prod_unfold)

lemma shape_get: "bt_get (shape nodes) n = map_option (\<lambda>node. node\<lparr>pn_share := NONE\<rparr>) (bt_get nodes n)"
  unfolding shape_def bt_get_def by (induction nodes) auto

lemma shape_update: "shape (bt_update (\<lambda>node. node\<lparr>pn_share := part\<rparr>) n nodes) = shape nodes"
  by (induction nodes) (auto simp: shape_def bt_update_def)

lemma shape_keys_eq: "shape nodes = shape nodes' \<Longrightarrow> bt_keys nodes = bt_keys nodes'"
  using shape_keys by metis

lemma shape_node:
  assumes "shape nodes = shape nodes'" "bt_get nodes n = Some node"
  obtains node' where "bt_get nodes' n = Some node'" "pn_row node' = pn_row node" "pn_children node' = pn_children node"
proof -
  have eq: "map_option (\<lambda>node. node\<lparr>pn_share := NONE\<rparr>) (bt_get nodes' n) = Some (node\<lparr>pn_share := NONE\<rparr>)"
    using assms shape_get by (metis option.map(2))
  then obtain node' where n': "bt_get nodes' n = Some node'" "node'\<lparr>pn_share := NONE\<rparr> = node\<lparr>pn_share := NONE\<rparr>"
    by (cases "bt_get nodes' n") auto
  show thesis
  proof (rule that [OF n'(1)])
    show "pn_row node' = pn_row node" "pn_children node' = pn_children node"
      using n'(2) by (cases node', cases node, simp)+
  qed
qed

lemma shape_plan_ok: "shape nodes = shape nodes' \<Longrightarrow> plan_ok nodes \<Longrightarrow> plan_ok nodes'"
proof -
  assume eq: "shape nodes = shape nodes'" and ok: "plan_ok nodes"
  have keys: "bt_keys nodes = bt_keys nodes'" by (rule shape_keys_eq [OF eq])
  show "plan_ok nodes'" unfolding plan_ok_def
  proof (intro conjI allI impI)
    show "bt_wf nodes'" using plan_okD(1) [OF ok] bt_wf_keys [OF keys] by blast
    fix n node' assume "bt_get nodes' n = Some node'"
    then obtain node where node: "bt_get nodes n = Some node" "pn_row node = pn_row node'" "pn_children node = pn_children node'"
      by (rule shape_node [OF eq [symmetric]])
    show "row_id (pn_row node') = n" "row_typed (pn_row node')"
      "pn_children node' = filter (\<lambda>m. parent m = Some n) (bt_keys nodes')"
      using plan_okD(2,3,4) [OF ok node(1)] node(2,3) keys by auto
    fix up assume "parent n = Some up"
    moreover have "n \<in> set (bt_keys nodes)" using node(1) by (simp add: bt_keys_iff)
    ultimately have "up \<in> set (bt_keys nodes')" using plan_okD(5) [OF ok] keys by auto
    then show "bt_get nodes' up \<noteq> None" using bt_keys_iff by fast
  qed
qed

lemma shape_leaves: "shape nodes = shape nodes' \<Longrightarrow> plan_leaves nodes = plan_leaves nodes'"
proof -
  have "plan_leaves nodes \<subseteq> plan_leaves nodes'" if "shape nodes = shape nodes'" for nodes nodes'
  proof
    fix m assume "m \<in> plan_leaves nodes"
    then obtain node where node: "bt_get nodes m = Some node" "pn_children node = []" by (auto simp: plan_leaves_def)
    show "m \<in> plan_leaves nodes'" using shape_node [OF that node(1)] node(2) unfolding plan_leaves_def by force
  qed
  then show "shape nodes = shape nodes' \<Longrightarrow> plan_leaves nodes = plan_leaves nodes'" by (metis subset_antisym)
qed

lemma plan_leaves_finite: "finite (plan_leaves nodes)"
  by (rule finite_subset [of _ "set (bt_keys nodes)"]) (auto simp: plan_leaves_def bt_keys_iff)

lemma plan_leaves_wf: "plan_ok nodes \<Longrightarrow> m \<in> plan_leaves nodes \<Longrightarrow> node_wf m"
  using plan_okD(6) by (auto simp: plan_leaves_def bt_keys_iff)

lemma leaves_below_branch:
  assumes ok: "plan_ok nodes" and node: "bt_get nodes n = Some node"
  shows "leaves_below nodes [n] = (if pn_children node = [] then {n} else leaves_below nodes (pn_children node))"
proof -
  have n: "n \<in> set (bt_keys nodes)" using node by (simp add: bt_keys_iff)
  have wfn: "node_wf n" by (rule plan_okD(6) [OF ok n])
  have kids: "c \<in> set (pn_children node) \<longleftrightarrow> c \<in> set (bt_keys nodes) \<and> parent c = Some n" for c
    using plan_okD(4) [OF ok node] by simp
  have kid: "\<exists>c \<in> set (pn_children node). below c m" if m: "m \<in> set (bt_keys nodes)" "below n m" "m \<noteq> n" for m
  proof -
    have wfm: "node_wf m" by (rule plan_okD(6) [OF ok m(1)])
    have "strict_prefix (node_path n) (node_path m)"
      using m wfm wfn by (auto simp: below_def is_ancestor_of_path)
    then obtain k q where kq: "node_path m = (node_path n @ [k]) @ q"
      by (metis append_Cons append_Nil append_assoc strict_prefixE')
    let ?c = "node_of (node_path n @ [k])"
    have c: "?c \<in> set (bt_keys nodes)" by (rule plan_ancestor_there [OF ok m(1) kq]) simp
    then have wfc: "node_wf ?c" by (rule plan_okD(6) [OF ok])
    have "node_path n \<noteq> []" using path_wf_node_path [OF wfn] by (simp add: path_wf_def)
    then have "parent ?c = Some n" using parent_of [of "node_path n @ [k]"] wfn by simp
    moreover have "below ?c m" using below_prefix [OF wfc wfm] kq by simp
    ultimately show ?thesis using c kids by blast
  qed
  have up: "below n m" if "c \<in> set (pn_children node)" "below c m" "m \<in> plan_leaves nodes" for c m
  proof -
    have c: "node_wf c" "parent c = Some n" using that kids plan_okD(6) [OF ok] by blast+
    have "prefix (node_path c) (node_path m)" using below_prefix [OF c(1) plan_leaves_wf [OF ok that(3)]] that by blast
    moreover have "prefix (node_path n) (node_path c)"
      using parent_wf [OF c] by (metis prefixeq_butlast)
    ultimately show ?thesis using below_prefix [OF wfn plan_leaves_wf [OF ok that(3)]] by (meson prefix_order.trans)
  qed
  have leaf_key: "m \<in> set (bt_keys nodes)" if "m \<in> plan_leaves nodes" for m
    using that by (auto simp: plan_leaves_def bt_keys_iff)
  show ?thesis
  proof (cases "pn_children node = []")
    case True
    have "leaves_below nodes [n] = {n}"
    proof
      show "leaves_below nodes [n] \<subseteq> {n}" using kid leaf_key True by (fastforce simp: leaves_below_def)
      show "{n} \<subseteq> leaves_below nodes [n]" using node True by (auto simp: leaves_below_def plan_leaves_def below_def)
    qed
    then show ?thesis using True by simp
  next
    case False
    then have "n \<notin> plan_leaves nodes" using node by (auto simp: plan_leaves_def)
    then have "leaves_below nodes [n] = leaves_below nodes (pn_children node)"
      using kid leaf_key up unfolding leaves_below_def by (auto; blast)
    then show ?thesis using False by simp
  qed
qed

lemma leaves_below_Cons: "leaves_below nodes (a # among) = leaves_below nodes [a] \<union> leaves_below nodes among"
  by (auto simp: leaves_below_def)

lemma leaves_below_finite: "finite (leaves_below nodes among)"
  using plan_leaves_finite by (auto simp: leaves_below_def)


text \<open>
  What handing an amount out below some siblings does: it writes shares only there, and the leaves
  there come to the amount.
\<close>

definition handed_below :: "plan_nodes \<Rightarrow> node_id list \<Rightarrow> nat \<Rightarrow> plan_nodes \<Rightarrow> bool" where
  "handed_below nodes among amount nodes' \<longleftrightarrow>
     shape nodes' = shape nodes \<and>
     (\<forall>n. (\<forall>a \<in> set among. \<not> below a n) \<longrightarrow> bt_get nodes' n = bt_get nodes n) \<and>
     (\<Sum>m \<in> leaves_below nodes among. share_at nodes' m) = amount"

definition siblings :: "plan_nodes \<Rightarrow> node_id list \<Rightarrow> bool" where
  "siblings nodes among \<longleftrightarrow>
     distinct among \<and> set among \<subseteq> set (bt_keys nodes) \<and> (\<exists>up. \<forall>a \<in> set among. parent a = up)"

lemma handed_share_at:
  "handed_below nodes among amount nodes' \<Longrightarrow> (\<And>a. a \<in> set among \<Longrightarrow> \<not> below a n) \<Longrightarrow>
     share_at nodes' n = share_at nodes n"
  by (simp add: handed_below_def share_at_def)

lemma level_parts_divides:
  assumes "among \<noteq> []" "ppb pot \<le> u64_max" "plan_ok nodes" "set among \<subseteq> set (bt_keys nodes)"
  obtains parts where "level_parts nodes pot among = Inr parts" "length parts = length among"
    "sum_list (map ppb parts) = ppb pot" "\<forall>p \<in> set parts. ppb p \<le> u64_max"
proof -
  obtain s where s: "pot = Share s" by (cases pot)
  let ?ws = "level_weights nodes among"
  have small: "w \<le> u32_max" if "w \<in> set ?ws" for w
  proof -
    obtain a where "a \<in> set among" "w = (case bt_get nodes a of None \<Rightarrow> 1 | Some node \<Rightarrow> row_weight (pn_row node))"
      using \<open>w \<in> set ?ws\<close> by (auto simp: level_weights_def)
    then show ?thesis using plan_okD(3) [OF assms(3), of a]
      by (cases "bt_get nodes a") (auto simp: row_typed_def u_defs)
  qed
  define ws where "ws = (if list_all (\<lambda>w. w = 0) ?ws then replicate (length among) 1 else ?ws)"
  have parts: "level_parts nodes pot among = split pot ws" by (simp add: level_parts_def ws_def Let_def)
  have ws: "\<forall>w \<in> set ws. w \<le> u32_max" "length ws = length among"
    using small by (auto simp: ws_def u_defs level_weights_def)
  have pos: "0 < sum_list ws"
  proof (cases "list_all (\<lambda>w. w = 0) ?ws")
    case True
    then show ?thesis using assms(1) by (simp add: ws_def sum_list_replicate)
  next
    case False
    then obtain w where "w \<in> set ?ws" "0 < w" by (auto simp: list_all_iff)
    then show ?thesis using False member_le_sum_list [of w ?ws] by (simp add: ws_def)
  qed
  have s64: "s \<le> u64_max" using assms(2) s by simp
  obtain ps where ps: "split (Share s) ws = Inr ps" using split_Inr [OF s64 ws(1) pos] by blast
  note sums = split_sum [OF s64 ws(1) ps]
  show thesis
  proof (rule that)
    show "level_parts nodes pot among = Inr ps" using parts ps s by simp
    show "length ps = length among" using sums(2) ws(2) by simp
    show total: "sum_list (map ppb ps) = ppb pot" using sums(1) s by simp
    show "\<forall>p \<in> set ps. ppb p \<le> u64_max"
    proof
      fix p assume "p \<in> set ps"
      then have "ppb p \<le> sum_list (map ppb ps)" by (intro member_le_sum_list) simp_all
      then show "ppb p \<le> u64_max" using total s64 s by simp
    qed
  qed
qed

lemma siblings_Cons: "siblings nodes (a # among) \<Longrightarrow> siblings nodes among"
  by (simp add: siblings_def)

lemma siblings_disjoint:
  assumes "plan_ok nodes" "siblings nodes (a # among)"
  shows "leaves_below nodes [a] \<inter> leaves_below nodes among = {}"
proof -
  have "False" if "m \<in> plan_leaves nodes" "below a m" "b \<in> set among" "below b m" for m b
  proof -
    have "node_wf a" "node_wf b" "parent a = parent b" "a \<noteq> b"
      using assms(2) that(3) plan_okD(6) [OF assms(1)] unfolding siblings_def by auto
    then show ?thesis using siblings_apart [OF _ _ plan_leaves_wf [OF assms(1) that(1)] _ that(2,4)] by blast
  qed
  then show ?thesis by (auto simp: leaves_below_def)
qed

lemma siblings_keep_apart:
  assumes "plan_ok nodes" "siblings nodes (a # among)" "m \<in> leaves_below nodes among"
  shows "\<not> below a m"
  using siblings_disjoint [OF assms(1,2)] assms(3) by (auto simp: leaves_below_def)

lemma children_siblings:
  assumes "plan_ok nodes" "bt_get nodes n = Some node"
  shows "siblings nodes (pn_children node)"
    "c \<in> set (pn_children node) \<Longrightarrow> length (node_path c) = Suc (length (node_path n))"
proof -
  have kids: "pn_children node = filter (\<lambda>m. parent m = Some n) (bt_keys nodes)"
    by (rule plan_okD(4) [OF assms])
  show "siblings nodes (pn_children node)" unfolding siblings_def kids
    using bt_wf_distinct [OF plan_okD(1) [OF assms(1)]] by (auto simp: bt_keys_def)
  assume "c \<in> set (pn_children node)"
  then have "node_wf c" "parent c = Some n" using kids plan_okD(6) [OF assms(1)] by auto
  then show "length (node_path c) = Suc (length (node_path n))"
    using parent_wf [of c n] path_wf_node_path [of c] by (auto simp: path_wf_def)
qed


text \<open>The fuel a level needs: one step for each level below it.\<close>

definition fuel_for :: "nat \<Rightarrow> node_id list \<Rightarrow> bool" where
  "fuel_for fuel among \<longleftrightarrow> (\<forall>a \<in> set among. NODE_DEPTH_MAX + 2 \<le> fuel + length (node_path a))"

lemma child_below:
  assumes ok: "plan_ok nodes" and node: "bt_get nodes n = Some node" and "c \<in> set (pn_children node)" "\<not> below n m"
  shows "\<not> below c m"
proof -
  have "parent c = Some n" using assms(3) plan_okD(4) [OF ok node] by simp
  then obtain q where q: "node_str c = node_str n @ NDOT # q"
    by (auto simp: parent_def rsplit_once_Some)
  have "below n m" if "below c m"
    using that q by (auto simp: below_def is_ancestor_of_split)
  then show ?thesis using assms(4) by blast
qed

lemma handed_below_join:
  assumes ok: "plan_ok nodes" and sib: "siblings nodes (n # among)"
    and one: "handed_below nodes [n] k nodes2" and two: "handed_below nodes2 among l nodes'"
  shows "handed_below nodes (n # among) (k + l) nodes'"
proof -
  have s2: "shape nodes2 = shape nodes" using one by (simp add: handed_below_def)
  then have leaves: "leaves_below nodes2 among = leaves_below nodes among"
    using shape_leaves [OF s2] by (simp add: leaves_below_def)
  have keep: "share_at nodes' m = share_at nodes2 m" if m: "m \<in> leaves_below nodes [n]" for m
  proof (rule handed_share_at [OF two])
    fix a assume "a \<in> set among"
    then show "\<not> below a m" using siblings_disjoint [OF ok sib] m by (auto simp: leaves_below_def)
  qed
  have "(\<Sum>m \<in> leaves_below nodes (n # among). share_at nodes' m) =
      (\<Sum>m \<in> leaves_below nodes [n]. share_at nodes' m) + (\<Sum>m \<in> leaves_below nodes among. share_at nodes' m)"
    unfolding leaves_below_Cons [of nodes n among]
    by (rule sum.union_disjoint [OF leaves_below_finite leaves_below_finite siblings_disjoint [OF ok sib]])
  also have "\<dots> = k + l" using one two keep leaves by (simp add: handed_below_def)
  finally show ?thesis using one two unfolding handed_below_def by simp
qed

lemma hand_each_handed:
  assumes rec: "\<And>nodes pot among. plan_ok nodes \<Longrightarrow> siblings nodes among \<Longrightarrow> fuel_for fuel among \<Longrightarrow>
      among \<noteq> [] \<Longrightarrow> ppb pot \<le> u64_max \<Longrightarrow>
      \<exists>nodes'. hand_out fuel nodes pot among = Some (Inr nodes') \<and> handed_below nodes among (ppb pot) nodes'"
    and "0 < fuel"
  shows "plan_ok nodes \<Longrightarrow> siblings nodes (map fst parts) \<Longrightarrow> fuel_for (Suc fuel) (map fst parts) \<Longrightarrow>
      \<forall>p \<in> set parts. ppb (snd p) \<le> u64_max \<Longrightarrow>
      \<exists>nodes'. hand_each fuel nodes parts = Some (Inr nodes') \<and>
        handed_below nodes (map fst parts) (sum_list (map (ppb \<circ> snd) parts)) nodes'"
proof (induction parts arbitrary: nodes)
  case Nil
  then show ?case by (simp add: handed_below_def leaves_below_def)
next
  case (Cons p rest)
  obtain n part where p: "p = (n, part)" by (cases p)
  note ok = Cons.prems(1)
  have "n \<in> set (bt_keys nodes)" using Cons.prems(2) p by (simp add: siblings_def)
  then obtain node where node: "bt_get nodes n = Some node" by (auto simp: bt_keys_iff)
  define nodes1 where "nodes1 = bt_update (\<lambda>node. node\<lparr>pn_share := part\<rparr>) n nodes"
  have s1: "shape nodes1 = shape nodes" by (simp add: nodes1_def shape_update)
  have ok1: "plan_ok nodes1" by (rule shape_plan_ok [OF s1 [symmetric] ok])
  have node1: "bt_get nodes1 n = Some (node\<lparr>pn_share := part\<rparr>)" using node by (simp add: nodes1_def map_simps)
  have "\<exists>nodes2. hand_out fuel nodes1 part (pn_children node) = Some (Inr nodes2) \<and> handed_below nodes [n] (ppb part) nodes2"
  proof (cases "pn_children node = []")
    case True
    obtain k where "fuel = Suc k" using assms(2) by (cases fuel) auto
    moreover have "handed_below nodes [n] (ppb part) nodes1"
      unfolding handed_below_def using s1 node1 leaves_below_branch [OF ok node] True
      by (auto simp: below_def share_at_def nodes1_def map_simps)
    ultimately show ?thesis using True by simp
  next
    case False
    have "siblings nodes1 (pn_children node)" using children_siblings(1) [OF ok1 node1] by simp
    moreover have "fuel_for fuel (pn_children node)"
      using children_siblings(2) [OF ok node] Cons.prems(3) p unfolding fuel_for_def by simp
    moreover have "ppb part \<le> u64_max" using Cons.prems(4) p by simp
    ultimately obtain nodes2 where n2: "hand_out fuel nodes1 part (pn_children node) = Some (Inr nodes2)"
      "handed_below nodes1 (pn_children node) (ppb part) nodes2" using rec [OF ok1 _ _ False] by blast
    have "leaves_below nodes [n] = leaves_below nodes1 (pn_children node)"
      using leaves_below_branch [OF ok node] False shape_leaves [OF s1] by (simp add: leaves_below_def)
    moreover have "\<not> below c m" if "c \<in> set (pn_children node)" "\<not> below n m" for c m
      by (rule child_below [OF ok node that])
    moreover have "bt_get nodes1 m = bt_get nodes m" if "\<not> below n m" for m
      using that by (auto simp: nodes1_def map_simps below_def)
    ultimately have "handed_below nodes [n] (ppb part) nodes2"
      using n2(2) s1 unfolding handed_below_def by simp
    then show ?thesis using n2(1) by blast
  qed
  then obtain nodes2 where n2: "hand_out fuel nodes1 part (pn_children node) = Some (Inr nodes2)"
    "handed_below nodes [n] (ppb part) nodes2" by blast
  have s2: "shape nodes2 = shape nodes" using n2(2) by (simp add: handed_below_def)
  have ok2: "plan_ok nodes2" by (rule shape_plan_ok [OF s2 [symmetric] ok])
  have sib: "siblings nodes (n # map fst rest)" using Cons.prems(2) p by simp
  have sib2: "siblings nodes2 (map fst rest)"
    using siblings_Cons [OF sib] shape_keys_eq [OF s2] by (simp add: siblings_def)
  obtain nodes' where n': "hand_each fuel nodes2 rest = Some (Inr nodes')"
    "handed_below nodes2 (map fst rest) (sum_list (map (ppb \<circ> snd) rest)) nodes'"
  proof -
    have "fuel_for (Suc fuel) (map fst rest)" "\<forall>p \<in> set rest. ppb (snd p) \<le> u64_max"
      using Cons.prems(3,4) by (simp_all add: fuel_for_def)
    then show thesis using Cons.IH [OF ok2 sib2] that by blast
  qed
  have "hand_each fuel nodes (p # rest) = Some (Inr nodes')"
    using p node n2(1) n'(1) by (simp add: nodes1_def)
  moreover have "handed_below nodes (map fst (p # rest)) (sum_list (map (ppb \<circ> snd) (p # rest))) nodes'"
    using handed_below_join [OF ok sib n2(2) n'(2)] p by simp
  ultimately show ?case by blast
qed

lemma hand_out_handed:
  "plan_ok nodes \<Longrightarrow> siblings nodes among \<Longrightarrow> fuel_for fuel among \<Longrightarrow> among \<noteq> [] \<Longrightarrow> ppb pot \<le> u64_max \<Longrightarrow>
     \<exists>nodes'. hand_out fuel nodes pot among = Some (Inr nodes') \<and> handed_below nodes among (ppb pot) nodes'"
proof (induction fuel arbitrary: nodes pot among)
  case 0
  then obtain a where "a \<in> set among" "node_wf a" "NODE_DEPTH_MAX + 2 \<le> length (node_path a)"
    using plan_okD(6) by (cases among) (auto simp: fuel_for_def siblings_def)
  then show ?case using path_wf_node_path [of a] by (simp add: path_wf_def)
next
  case (Suc fuel)
  obtain a where a: "a \<in> set among" using Suc.prems(4) by (cases among) auto
  then have "length (node_path a) \<le> NODE_DEPTH_MAX"
    using plan_okD(6) [OF Suc.prems(1)] Suc.prems(2) path_wf_node_path by (auto simp: siblings_def path_wf_def)
  then have fuel: "0 < fuel" using Suc.prems(3) a by (auto simp: fuel_for_def)
  have keys: "set among \<subseteq> set (bt_keys nodes)" using Suc.prems(2) by (simp add: siblings_def)
  obtain parts where parts: "level_parts nodes pot among = Inr parts" "length parts = length among"
    "sum_list (map ppb parts) = ppb pot" "\<forall>p \<in> set parts. ppb p \<le> u64_max"
    by (rule level_parts_divides [OF Suc.prems(4,5,1) keys])
  have z: "map fst (zip among parts) = among" "map (ppb \<circ> snd) (zip among parts) = map ppb parts"
    using parts(2) by (simp_all flip: map_map)
  have "\<exists>nodes'. hand_each fuel nodes (zip among parts) = Some (Inr nodes') \<and>
      handed_below nodes (map fst (zip among parts)) (sum_list (map (ppb \<circ> snd) (zip among parts))) nodes'"
  proof (rule hand_each_handed [OF Suc.IH fuel Suc.prems(1)])
    show "\<forall>p \<in> set (zip among parts). ppb (snd p) \<le> u64_max" using parts(4) by (auto dest: set_zip_rightD)
  qed (use Suc.prems z in simp_all)
  then show ?case using parts(1,3) Suc.prems(4) unfolding z by simp
qed

lemma divide_conserves:
  assumes ok: "plan_ok nodes"
  shows "\<exists>nodes'. divide \<lparr>plan_nodes = nodes\<rparr> = Some (Inr \<lparr>plan_nodes = nodes'\<rparr>) \<and> shape nodes' = shape nodes \<and>
     (nodes \<noteq> [] \<longrightarrow> (\<Sum>n \<in> plan_leaves nodes'. share_at nodes' n) = WHOLE_PPB)"
proof (cases "nodes = []")
  case True
  then show ?thesis by (simp add: divide_def bt_keys_def DIVIDE_FUEL_def)
next
  case False
  let ?roots = "filter (\<lambda>n. parent n = None) (bt_keys nodes)"
  have wf: "node_wf n" if "n \<in> set (bt_keys nodes)" for n by (rule plan_okD(6) [OF ok that])
  have root: "\<exists>r \<in> set ?roots. below r m" if m: "m \<in> set (bt_keys nodes)" for m
  proof -
    obtain k q where kq: "node_path m = [k] @ q"
      using path_wf_node_path [OF wf [OF m]] by (cases "node_path m") (auto simp: path_wf_def)
    have r: "node_of [k] \<in> set (bt_keys nodes)" by (rule plan_ancestor_there [OF ok m kq]) simp
    moreover have "parent (node_of [k]) = None" by (simp add: parent_of)
    moreover have "below (node_of [k]) m" using below_prefix [OF wf [OF r] wf [OF m]] kq by simp
    ultimately show ?thesis by auto
  qed
  have "?roots \<noteq> []"
  proof -
    obtain m where "m \<in> set (bt_keys nodes)" using False by (cases nodes) (auto simp: bt_keys_def)
    then show ?thesis using root by fastforce
  qed
  moreover have "siblings nodes ?roots"
    using bt_wf_distinct [OF plan_okD(1) [OF ok]] by (auto simp: siblings_def bt_keys_def)
  moreover have "fuel_for DIVIDE_FUEL ?roots"
    using wf path_wf_node_path unfolding fuel_for_def
    by (auto simp: DIVIDE_FUEL_def path_wf_def) (metis One_nat_def length_greater_0_conv less_eq_Suc_le)
  ultimately obtain nodes' where n': "hand_out DIVIDE_FUEL nodes WHOLE ?roots = Some (Inr nodes')"
    "handed_below nodes ?roots WHOLE_PPB nodes'"
    using hand_out_handed [OF ok, of ?roots DIVIDE_FUEL WHOLE] by (auto simp: WHOLE_def WHOLE_PPB_def u_defs)
  have s: "shape nodes' = shape nodes" using n'(2) by (simp add: handed_below_def)
  have "leaves_below nodes ?roots = plan_leaves nodes"
    using root by (auto simp: leaves_below_def plan_leaves_def bt_keys_iff)
  then show ?thesis using n' s shape_leaves [OF s] by (auto simp: divide_def handed_below_def)
qed


section \<open>Which tables are plans\<close>

lemma check_dependencies_ok:
  assumes "bt_wf nodes"
  shows "is_ok (check_dependencies nodes) \<longleftrightarrow>
     (\<forall>n. set (node_needs nodes n) \<subseteq> set (bt_keys nodes) - {n}) \<and> first_cycle nodes = None"
proof -
  have "first_some (\<lambda>(nid, node). first_some (need_problem nodes nid) (row_needs (pn_row node))) nodes = None \<longleftrightarrow>
      (\<forall>n. set (node_needs nodes n) \<subseteq> set (bt_keys nodes) - {n})" (is "?a \<longleftrightarrow> ?b")
  proof -
    have none: "need_problem nodes n need = None \<longleftrightarrow> bt_get nodes need \<noteq> None \<and> need \<noteq> n" for n need
      by (simp add: need_problem_def)
    have "?a \<longleftrightarrow> (\<forall>n node. (n, node) \<in> set nodes \<longrightarrow>
        (\<forall>need \<in> set (row_needs (pn_row node)). bt_get nodes need \<noteq> None \<and> need \<noteq> n))"
      unfolding first_some_None by (simp only: Ball_def split_paired_All prod.case first_some_None none)
    also have "\<dots> \<longleftrightarrow> (\<forall>n node. bt_get nodes n = Some node \<longrightarrow>
        (\<forall>need \<in> set (row_needs (pn_row node)). bt_get nodes need \<noteq> None \<and> need \<noteq> n))"
      unfolding bt_entry_get [OF assms] by (rule refl)
    also have "\<dots> \<longleftrightarrow> (\<forall>n. \<forall>need \<in> set (node_needs nodes n). need \<in> set (bt_keys nodes) - {n})"
    proof (rule all_cong1)
      fix n
      show "(\<forall>node. bt_get nodes n = Some node \<longrightarrow>
          (\<forall>need \<in> set (row_needs (pn_row node)). bt_get nodes need \<noteq> None \<and> need \<noteq> n)) \<longleftrightarrow>
        (\<forall>need \<in> set (node_needs nodes n). need \<in> set (bt_keys nodes) - {n})"
        by (cases "bt_get nodes n") (auto simp: node_needs_def bt_keys_iff)
    qed
    finally show ?thesis by blast
  qed
  then show ?thesis unfolding check_dependencies_def
    by (cases "first_some (\<lambda>(nid, node). first_some (need_problem nodes nid) (row_needs (pn_row node))) nodes")
      (auto split: option.split)
qed

lemma need_problem_code: "need_problem nodes n need = Some e \<Longrightarrow> err_code e = InvalidArgs"
  by (auto simp: need_problem_def plan_refusal_def split: if_splits)

lemma check_dependencies_refused: "check_dependencies nodes = Inl e \<Longrightarrow> err_code e = InvalidArgs"
  by (auto simp: check_dependencies_def plan_refusal_def need_problem_code split: option.splits
      dest!: first_some_mem)

lemma branch_problem_None:
  "branch_problem nodes (n, node) = None \<longleftrightarrow>
     (node_status node = Done \<longrightarrow>
       (\<forall>c \<in> set (pn_children node). \<forall>kid. bt_get nodes c = Some kid \<longrightarrow> node_status kid = Done))"
  by (auto simp: branch_problem_def first_some_None split: option.split)

lemma check_branch_claims_ok:
  assumes "bt_wf nodes"
  shows "is_ok (check_branch_claims nodes) \<longleftrightarrow>
     (\<forall>n node c kid. bt_get nodes n = Some node \<longrightarrow> node_status node = Done \<longrightarrow> c \<in> set (pn_children node) \<longrightarrow>
        bt_get nodes c = Some kid \<longrightarrow> node_status kid = Done)"
proof -
  have "first_some (branch_problem nodes) nodes = None \<longleftrightarrow>
     (\<forall>n node c kid. bt_get nodes n = Some node \<longrightarrow> node_status node = Done \<longrightarrow> c \<in> set (pn_children node) \<longrightarrow>
        bt_get nodes c = Some kid \<longrightarrow> node_status kid = Done)"
  proof -
    have "(\<forall>e \<in> set nodes. branch_problem nodes e = None) \<longleftrightarrow>
        (\<forall>n node. bt_get nodes n = Some node \<longrightarrow> branch_problem nodes (n, node) = None)"
      using bt_entry_get [OF assms] by (metis surj_pair)
    then show ?thesis unfolding first_some_None branch_problem_None by blast
  qed
  then show ?thesis by (auto simp: check_branch_claims_def split: option.split)
qed

lemma check_branch_claims_refused: "check_branch_claims nodes = Inl e \<Longrightarrow> err_code e = InvalidArgs"
  by (auto simp: check_branch_claims_def branch_problem_def plan_refusal_def split: option.splits if_splits
      dest!: first_some_mem)

lemma place_arranged:
  "place rows = and_then (arranged rows) (\<lambda>nodes. and_then (check_dependencies nodes)
     (\<lambda>_. and_then (check_branch_claims nodes) (\<lambda>_. Inr nodes)))"
  by (cases "place_rows rows bt_empty") (simp_all add: place_def arranged_def)

text \<open>The five rules a table obeys to be a plan, said of its rows.\<close>

definition row_edges :: "roadmap_row list \<Rightarrow> (node_id \<times> node_id) set" where
  "row_edges rows = {(need, row_id row) | need row. row \<in> set rows \<and> need \<in> set (row_needs row)}"

definition is_plan :: "roadmap_row list \<Rightarrow> bool" where
  "is_plan rows \<longleftrightarrow>
     distinct (map row_id rows) \<and> parents_there rows \<and>
     (\<forall>row \<in> set rows. set (row_needs row) \<subseteq> row_id ` set rows - {row_id row}) \<and>
     acyclic (row_edges rows) \<and>
     (\<forall>row \<in> set rows. \<forall>kid \<in> set rows.
        row_status row = Done \<and> parent (row_id kid) = Some (row_id row) \<longrightarrow> row_status kid = Done)"

text \<open>The rules but the one on circles.\<close>

definition orderly :: "roadmap_row list \<Rightarrow> bool" where
  "orderly rows \<longleftrightarrow>
     distinct (map row_id rows) \<and> parents_there rows \<and>
     (\<forall>row \<in> set rows. set (row_needs row) \<subseteq> row_id ` set rows - {row_id row}) \<and>
     (\<forall>row \<in> set rows. \<forall>kid \<in> set rows.
        row_status row = Done \<and> parent (row_id kid) = Some (row_id row) \<longrightarrow> row_status kid = Done)"

lemma is_plan_orderly: "is_plan rows \<longleftrightarrow> orderly rows \<and> acyclic (row_edges rows)"
  by (auto simp: is_plan_def orderly_def)

lemma arranged_needs:
  assumes "arranged rows = Inr nodes" "\<forall>row \<in> set rows. row_typed row"
  shows "node_needs nodes n = (case row_at rows n of None \<Rightarrow> [] | Some row \<Rightarrow> row_needs row)"
  using arranged_plan(3) [OF assms, of n]
  by (cases "bt_get nodes n"; cases "row_at rows n") (auto simp: node_needs_def)

lemma arranged_all_needs:
  assumes "arranged rows = Inr nodes" "\<forall>row \<in> set rows. row_typed row" "distinct (map row_id rows)"
  shows "(\<forall>n. P n (node_needs nodes n)) \<longleftrightarrow>
     (\<forall>row \<in> set rows. P (row_id row) (row_needs row)) \<and> (\<forall>n. n \<notin> row_id ` set rows \<longrightarrow> P n [])"
proof -
  have "P n (node_needs nodes n)"
    if "\<forall>row \<in> set rows. P (row_id row) (row_needs row)" "\<forall>n. n \<notin> row_id ` set rows \<longrightarrow> P n []" for n
    using that row_at_Some [of rows n] row_at_None [of rows n] arranged_needs [OF assms(1,2), of n]
    by (cases "row_at rows n") auto
  moreover have "node_needs nodes (row_id row) = row_needs row" if "row \<in> set rows" for row
    using row_at_mem [OF assms(3) that] arranged_needs [OF assms(1,2)] by simp
  moreover have "node_needs nodes n = []" if "n \<notin> row_id ` set rows" for n
    using row_at_None [of rows n] that arranged_needs [OF assms(1,2)] by simp
  ultimately show ?thesis by metis
qed

lemma arranged_edges:
  assumes "arranged rows = Inr nodes" "\<forall>row \<in> set rows. row_typed row" "distinct (map row_id rows)"
  shows "need_edges nodes = row_edges rows"
proof -
  have "need \<in> set (node_needs nodes n) \<longleftrightarrow> (\<exists>row. row \<in> set rows \<and> row_id row = n \<and> need \<in> set (row_needs row))" for need n
  proof (cases "row_at rows n")
    case None
    then show ?thesis using row_at_None [of rows n] arranged_needs [OF assms(1,2), of n] by auto
  next
    case (Some row)
    then have "row \<in> set rows \<and> row_id row = n" by (rule row_at_Some)
    moreover have "row' = row" if "row' \<in> set rows" "row_id row' = n" for row'
      using row_at_mem [OF assms(3) that(1)] that(2) Some by simp
    ultimately show ?thesis using Some arranged_needs [OF assms(1,2), of n] by auto
  qed
  then show ?thesis by (auto simp: need_edges_def row_edges_def)
qed

lemma arranged_branches:
  assumes "arranged rows = Inr nodes" "\<forall>row \<in> set rows. row_typed row" "distinct (map row_id rows)"
  shows "is_ok (check_branch_claims nodes) \<longleftrightarrow>
     (\<forall>row \<in> set rows. \<forall>kid \<in> set rows.
        row_status row = Done \<and> parent (row_id kid) = Some (row_id row) \<longrightarrow> row_status kid = Done)"
proof -
  note plan = arranged_plan [OF assms(1,2)]
  have at: "\<exists>node. bt_get nodes (row_id row) = Some node \<and> pn_row node = row" if "row \<in> set rows" for row
    using plan(3) [of "row_id row"] row_at_mem [OF assms(3) that] by (cases "bt_get nodes (row_id row)") auto
  have origin: "pn_row node \<in> set rows \<and> row_id (pn_row node) = n" if "bt_get nodes n = Some node" for n node
    using plan(3) [of n] that row_at_Some [of rows n "pn_row node"] by simp
  have kids: "c \<in> set (pn_children node) \<longleftrightarrow> c \<in> row_id ` set rows \<and> parent c = Some n"
    if "bt_get nodes n = Some node" for c n node
    using plan_okD(4) [OF plan(1) that] plan(2) by simp
  show ?thesis unfolding check_branch_claims_ok [OF plan_okD(1) [OF plan(1)]]
  proof (intro iffI ballI allI impI)
    fix row kid
    assume l: "\<forall>n node c kid. bt_get nodes n = Some node \<longrightarrow> node_status node = Done \<longrightarrow> c \<in> set (pn_children node) \<longrightarrow>
        bt_get nodes c = Some kid \<longrightarrow> node_status kid = Done"
      and r: "row \<in> set rows" "kid \<in> set rows" "row_status row = Done \<and> parent (row_id kid) = Some (row_id row)"
    obtain a b where a: "bt_get nodes (row_id row) = Some a" "pn_row a = row"
      and b: "bt_get nodes (row_id kid) = Some b" "pn_row b = kid" using at r by blast
    then show "row_status kid = Done" using l kids [OF a(1)] r by blast
  next
    fix n node c kid
    assume l: "\<forall>row \<in> set rows. \<forall>kid \<in> set rows.
        row_status row = Done \<and> parent (row_id kid) = Some (row_id row) \<longrightarrow> row_status kid = Done"
      and r: "bt_get nodes n = Some node" "node_status node = Done" "c \<in> set (pn_children node)" "bt_get nodes c = Some kid"
    then show "node_status kid = Done" using origin [OF r(1)] origin [OF r(4)] kids [OF r(1)] by blast
  qed
qed

lemma place_sorts:
  assumes typed: "\<forall>row \<in> set rows. row_typed row"
  shows "is_ok (place rows) \<longleftrightarrow>
     orderly rows \<and> (\<exists>nodes. arranged rows = Inr nodes \<and> first_cycle nodes = None)"
proof (cases "arranged rows")
  case (Inl e)
  then show ?thesis using arranged_ok [of rows] by (auto simp: place_arranged orderly_def)
next
  case (Inr nodes)
  then have d: "distinct (map row_id rows)" "parents_there rows" using arranged_ok [of rows] by simp_all
  note plan = arranged_plan [OF Inr typed]
  have wf: "bt_wf nodes" by (rule plan_okD(1) [OF plan(1)])
  have needs: "(\<forall>n. set (node_needs nodes n) \<subseteq> set (bt_keys nodes) - {n}) \<longleftrightarrow>
      (\<forall>row \<in> set rows. set (row_needs row) \<subseteq> row_id ` set rows - {row_id row})"
    unfolding plan(2) by (subst arranged_all_needs [OF Inr typed d(1)]) simp
  have "is_ok (place rows) \<longleftrightarrow> is_ok (check_dependencies nodes) \<and> is_ok (check_branch_claims nodes)"
    using Inr by (cases "check_dependencies nodes"; cases "check_branch_claims nodes") (simp_all add: place_arranged)
  then show ?thesis
    unfolding check_dependencies_ok [OF wf] needs arranged_branches [OF Inr typed d(1)] orderly_def
    using d Inr by auto
qed

lemma place_accepts:
  assumes typed: "\<forall>row \<in> set rows. row_typed row" and plan: "is_plan rows"
  shows "is_ok (place rows)"
proof -
  have d: "distinct (map row_id rows)" "parents_there rows" using plan by (simp_all add: is_plan_def)
  then obtain nodes where n: "arranged rows = Inr nodes" using arranged_ok [of rows] by (auto simp: is_ok_iff)
  have "first_cycle nodes = None"
    using plan arranged_edges [OF n typed d(1)] by (intro first_cycle_acyclic) (simp add: is_plan_def)
  then show ?thesis using plan n unfolding place_sorts [OF typed] is_plan_orderly by blast
qed

lemma place_decides:
  assumes typed: "\<forall>row \<in> set rows. row_typed row" and once: "\<forall>row \<in> set rows. distinct (row_needs row)"
  shows "is_ok (place rows) \<longleftrightarrow> is_plan rows"
proof
  assume "is_ok (place rows)"
  then obtain nodes where o: "orderly rows" "arranged rows = Inr nodes" "first_cycle nodes = None"
    unfolding place_sorts [OF typed] by blast
  have d: "distinct (map row_id rows)" using o(1) by (simp add: orderly_def)
  have keys: "set (bt_keys nodes) = row_id ` set rows" by (rule arranged_plan(2) [OF o(2) typed])
  have "\<forall>n. distinct (node_needs nodes n)"
    using once by (subst arranged_all_needs [OF o(2) typed d]) simp
  moreover have "\<forall>n. set (node_needs nodes n) \<subseteq> set (bt_keys nodes)"
    unfolding keys using o(1) by (subst arranged_all_needs [OF o(2) typed d]) (auto simp: orderly_def)
  ultimately have "needs_closed nodes" by (simp add: needs_closed_def)
  with o(3) have "acyclic (need_edges nodes)"
    using first_cycle_decides [OF plan_okD(1) [OF arranged_plan(1) [OF o(2) typed]]] by simp
  then show "is_plan rows" using o(1) arranged_edges [OF o(2) typed d] by (simp add: is_plan_orderly)
qed (rule place_accepts [OF typed])

lemma place_refused: "place rows = Inl e \<Longrightarrow> err_code e = InvalidArgs"
  unfolding place_arranged
  by (auto simp: and_then_eq_Inl dest: arranged_refused check_dependencies_refused check_branch_claims_refused)

lemma place_Inr_arranged: "place rows = Inr nodes \<Longrightarrow> arranged rows = Inr nodes"
  unfolding place_arranged by (auto simp: and_then_eq_Inr)

lemma plan_build_Inr:
  assumes "\<forall>row \<in> set rows. row_typed row" "plan_build rows = Some (Inr t)"
  obtains nodes where "place rows = Inr nodes" "plan_ok nodes" "shape (plan_nodes t) = shape nodes"
    "nodes \<noteq> [] \<longrightarrow> (\<Sum>n \<in> plan_leaves (plan_nodes t). share_at (plan_nodes t) n) = WHOLE_PPB"
proof (cases "place rows")
  case (Inl e)
  then show thesis using assms(2) by (simp add: plan_build_def)
next
  case (Inr nodes)
  have ok: "plan_ok nodes" by (rule arranged_plan(1) [OF place_Inr_arranged [OF Inr] assms(1)])
  show thesis using divide_conserves [OF ok] assms(2) Inr by (intro that [OF Inr ok]) (auto simp: plan_build_def)
qed

lemma plan_build_of_place:
  assumes "\<forall>row \<in> set rows. row_typed row"
  shows "case place rows of Inl e \<Rightarrow> plan_build rows = Some (Inl e)
     | Inr nodes \<Rightarrow> \<exists>t. plan_build rows = Some (Inr t)"
proof (cases "place rows")
  case (Inl e)
  then show ?thesis by (simp add: plan_build_def)
next
  case (Inr nodes)
  have ok: "plan_ok nodes" by (rule arranged_plan(1) [OF place_Inr_arranged [OF Inr] assms])
  then show ?thesis using divide_conserves [OF ok] Inr by (auto simp: plan_build_def)
qed

lemma plan_build_cases:
  assumes "\<forall>row \<in> set rows. row_typed row"
  obtains (refused) e where "plan_build rows = Some (Inl e)" "\<not> is_ok (place rows)" "err_code e = InvalidArgs"
  | (built) t where "plan_build rows = Some (Inr t)" "is_ok (place rows)"
  using plan_build_of_place [OF assms] place_refused [of rows] by (cases "place rows") auto

text \<open>C27. \<open>PlanTree::build\<close> ends on every table of rows as the reader hands them over, and refuses
  with \<open>E_INVALID_ARGS\<close> only tables that are not plans: a plan has distinct indices, every parent
  there, every dependency on another row of the table, no circle among them, and no branch that
  says done over a child that does not. A table it accepts obeys every one of these rules where
  each row names each of its dependencies once; where a row names one twice, every rule but the one
  on circles.\<close>

theorem plan_build_decides:
  assumes "\<forall>row \<in> set rows. row_typed row"
  shows "case plan_build rows of
      None \<Rightarrow> False
    | Some (Inl e) \<Rightarrow> \<not> is_plan rows \<and> err_code e = InvalidArgs
    | Some (Inr t) \<Rightarrow> orderly rows \<and> ((\<forall>row \<in> set rows. distinct (row_needs row)) \<longrightarrow> is_plan rows)"
using assms
proof (cases rule: plan_build_cases)
  case (refused e)
  then show ?thesis using place_accepts [OF assms] by auto
next
  case (built t)
  then show ?thesis using place_sorts [OF assms] place_decides [OF assms] by simp
qed

lemma plan_keys:
  assumes "\<forall>row \<in> set rows. row_typed row" "plan_build rows = Some (Inr t)"
  shows "set (bt_keys (plan_nodes t)) = row_id ` set rows"
proof -
  obtain nodes where n: "place rows = Inr nodes" "shape (plan_nodes t) = shape nodes"
    by (rule plan_build_Inr [OF assms])
  show ?thesis using arranged_plan(2) [OF place_Inr_arranged [OF n(1)] assms(1)] shape_keys_eq [OF n(2)] by simp
qed

lemma built_get:
  assumes "\<forall>row \<in> set rows. row_typed row" "plan_build rows = Some (Inr t)"
  shows "map_option pn_row (plan_get t n) = row_at rows n"
proof -
  obtain nodes where n: "place rows = Inr nodes" "shape (plan_nodes t) = shape nodes"
    by (rule plan_build_Inr [OF assms])
  have "map_option pn_row (plan_get t n) = map_option pn_row (bt_get (shape nodes) n)"
    unfolding plan_get_def n(2) [symmetric] shape_get by (simp add: option.map_comp comp_def)
  also have "\<dots> = row_at rows n"
    using arranged_plan(3) [OF place_Inr_arranged [OF n(1)] assms(1), of n]
    by (simp add: shape_get option.map_comp comp_def)
  finally show ?thesis .
qed

lemma plan_whole:
  assumes "\<forall>row \<in> set rows. row_typed row" "rows \<noteq> []" "plan_build rows = Some (Inr t)"
  shows "(\<Sum>n \<in> plan_leaves (plan_nodes t). share_at (plan_nodes t) n) = WHOLE_PPB"
proof -
  obtain nodes where n: "shape (plan_nodes t) = shape nodes"
    "nodes \<noteq> [] \<longrightarrow> (\<Sum>n \<in> plan_leaves (plan_nodes t). share_at (plan_nodes t) n) = WHOLE_PPB"
    by (rule plan_build_Inr [OF assms(1,3)])
  have "nodes \<noteq> []" using plan_keys [OF assms(1,3)] shape_keys_eq [OF n(1)] assms(2) by (auto simp: bt_keys_def)
  then show ?thesis using n(2) by blast
qed

text \<open>C28. The division of a plan ends and loses nothing: for every table of rows as the reader
  hands them over the build returns, the fuel of ten levels and one being enough for any index the
  reader takes; a refusal is of a table that is no plan; and a built plan holds exactly the indices
  of the rows, with the whole divided between its leaves to the last billionth, unless there are
  no rows.\<close>

theorem plan_shares_come_to_the_whole:
  assumes "\<forall>row \<in> set rows. row_typed row"
  shows "\<exists>built. plan_build rows = Some built \<and>
     (case built of
        Inl e \<Rightarrow> \<not> is_plan rows
      | Inr t \<Rightarrow>
          set (bt_keys (plan_nodes t)) = row_id ` set rows \<and>
          (\<Sum>n \<in> plan_leaves (plan_nodes t). share_at (plan_nodes t) n) = (if rows = [] then 0 else WHOLE_PPB))"
using assms
proof (cases rule: plan_build_cases)
  case (refused e)
  then show ?thesis using place_accepts [OF assms] by auto
next
  case (built t)
  note keys = plan_keys [OF assms built(1)]
  have "plan_leaves (plan_nodes t) = {}" if "rows = []"
    using keys that bt_keys_iff [of _ "plan_nodes t"] by (fastforce simp: plan_leaves_def)
  then show ?thesis using built(1) keys plan_whole [OF assms _ built(1)] by simp
qed


section \<open>Ready and claimed\<close>

lemma set_fold_insort: "set (fold insort_insert xs ys) = set xs \<union> set ys"
  by (induction xs arbitrary: ys) (auto simp: set_insort_insert)

lemma set_needs_of: "set (needs_of t n) = (\<Union>a \<in> set (ancestors n @ [n]). set (node_needs (plan_nodes t) a))"
proof -
  have "set (fold (\<lambda>step found. case plan_get t step of None \<Rightarrow> found
         | Some node \<Rightarrow> fold insort_insert (row_needs (pn_row node)) found) steps found) =
      set found \<union> (\<Union>a \<in> set steps. set (node_needs (plan_nodes t) a))" for steps found
  proof (induction steps arbitrary: found)
    case (Cons a steps)
    then show ?case
      by (cases "plan_get t a") (auto simp: plan_get_def node_needs_def set_fold_insort)
  qed simp
  from this [of "ancestors n @ [n]" "[]"] show ?thesis unfolding needs_of_def by simp
qed

lemma ancestors_below:
  assumes "node_wf n" "node_wf a"
  shows "a \<in> set (ancestors n @ [n]) \<longleftrightarrow> below a n"
proof -
  let ?p = "node_path n"
  have p: "?p \<noteq> []" using path_wf_node_path [OF assms(1)] by (simp add: path_wf_def)
  have "a \<in> set (ancestors n) \<longleftrightarrow> strict_prefix (node_path a) ?p"
  proof
    assume "a \<in> set (ancestors n)"
    then obtain i where i: "a = node_of (take i ?p)" "0 < i" "i < length ?p"
      by (auto simp: ancestors_paths [OF assms(1)])
    then have "take i ?p \<noteq> []" by (cases ?p; cases i) auto
    then have "node_path a = take i ?p" using i(1) by simp
    then show "strict_prefix (node_path a) ?p" using i
      by (auto simp: strict_prefix_def take_is_prefix)
  next
    assume s: "strict_prefix (node_path a) ?p"
    let ?i = "length (node_path a)"
    have "take ?i ?p = node_path a" using s by (auto simp: strict_prefix_def prefix_def)
    moreover have "?i < length ?p" by (rule prefix_length_less [OF s])
    moreover have "1 \<le> ?i" using path_wf_node_path [OF assms(2)] by (cases "node_path a") (auto simp: path_wf_def)
    ultimately show "a \<in> set (ancestors n)"
      using assms(2) by (auto simp: ancestors_paths [OF assms(1)] image_iff intro!: bexI [of _ ?i])
  qed
  then show ?thesis using assms by (auto simp: below_def is_ancestor_of_path)
qed

lemma needs_of_below:
  assumes "plan_ok (plan_nodes t)" "node_wf n"
  shows "need \<in> set (needs_of t n) \<longleftrightarrow> (\<exists>a. below a n \<and> need \<in> set (node_needs (plan_nodes t) a))"
proof -
  have "node_wf a" if "need \<in> set (node_needs (plan_nodes t) a)" for a
    using that plan_okD(6) [OF assms(1), of a] by (cases "bt_get (plan_nodes t) a") (auto simp: node_needs_def bt_keys_iff)
  then show ?thesis unfolding set_needs_of using ancestors_below [OF assms(2)] by blast
qed

definition may_start :: "plan_tree \<Rightarrow> node_id \<Rightarrow> bool" where
  "may_start t n \<longleftrightarrow>
     (\<exists>node. plan_get t n = Some node \<and> is_leaf node \<and> node_status node = NotStarted \<and>
       (\<forall>a need. below a n \<and> need \<in> set (node_needs (plan_nodes t) a) \<longrightarrow> is_done t need))"

lemma ready_may_start:
  assumes ok: "plan_ok (plan_nodes t)"
  shows "n \<in> set (ready t) \<longleftrightarrow> may_start t n"
proof -
  have "n \<in> set (ready t) \<longleftrightarrow> (\<exists>node. bt_get (plan_nodes t) n = Some node \<and> is_leaf node \<and>
      node_status node = NotStarted \<and> list_all (is_done t) (needs_of t n))"
    using plan_okD(2) [OF ok] bt_entry_get [OF plan_okD(1) [OF ok]] unfolding ready_def by force
  also have "\<dots> \<longleftrightarrow> may_start t n"
  proof -
    have "list_all (is_done t) (needs_of t n) \<longleftrightarrow>
        (\<forall>a need. below a n \<and> need \<in> set (node_needs (plan_nodes t) a) \<longrightarrow> is_done t need)"
      if "bt_get (plan_nodes t) n = Some node" for node
    proof -
      have "node_wf n" using plan_okD(6) [OF ok] that by (simp add: bt_keys_iff)
      then show ?thesis using needs_of_below [OF ok] unfolding list_all_iff by blast
    qed
    then show ?thesis unfolding may_start_def plan_get_def by blast
  qed
  finally show ?thesis .
qed

lemma claim_cases:
  "claim t n = Inr h \<longleftrightarrow> h = Held n \<and> (\<exists>node. plan_get t n = Some node \<and> is_leaf node \<and>
     node_status node = NotStarted \<and> list_all (is_done t) (needs_of t n))"
  by (cases "plan_get t n")
    (auto simp: claim_def Let_def filter_empty_conv list_all_iff split: if_splits)

lemma claim_code:
  "claim t n = Inl e \<Longrightarrow> err_code e =
     (case plan_get t n of
        None \<Rightarrow> InvalidArgs
      | Some node \<Rightarrow> if is_leaf node \<and> node_status node \<noteq> NotStarted then GoalConflict else InvalidArgs)"
  by (cases "plan_get t n") (auto simp: claim_def Let_def plan_refusal_def split: if_splits)

lemma built_plan_ok:
  assumes "\<forall>row \<in> set rows. row_typed row" "plan_build rows = Some (Inr t)"
  shows "plan_ok (plan_nodes t)"
proof -
  obtain nodes where "plan_ok nodes" "shape (plan_nodes t) = shape nodes" by (rule plan_build_Inr [OF assms])
  then show ?thesis using shape_plan_ok by metis
qed

lemma ready_claim:
  assumes "plan_ok (plan_nodes t)"
  shows "n \<in> set (ready t) \<longleftrightarrow> claim t n = Inr (Held n)"
proof -
  have "n \<in> set (ready t) \<longleftrightarrow> (\<exists>node. bt_get (plan_nodes t) n = Some node \<and> is_leaf node \<and>
      node_status node = NotStarted \<and> list_all (is_done t) (needs_of t n))"
    using plan_okD(2) [OF assms] bt_entry_get [OF plan_okD(1) [OF assms]] unfolding ready_def by force
  then show ?thesis by (simp add: claim_cases plan_get_def)
qed

text \<open>C29. Of a plan that was built, \<open>claim\<close> hands out exactly the nodes \<open>ready\<close> lists, and those are
  the leaves nobody has taken whose dependencies, their own and those of every branch above
  them, are done. A refusal is \<open>E_GOAL_CONFLICT\<close> for a leaf somebody has already taken and
  \<open>E_INVALID_ARGS\<close> for every other reason.\<close>

theorem claim_hands_out_the_ready:
  assumes "\<forall>row \<in> set rows. row_typed row" "plan_build rows = Some (Inr t)"
  shows "(n \<in> set (ready t) \<longleftrightarrow> may_start t n) \<and>
     (case claim t n of
        Inr h \<Rightarrow> h = Held n \<and> may_start t n
      | Inl e \<Rightarrow> \<not> may_start t n \<and>
          err_code e = (if \<exists>node. plan_get t n = Some node \<and> is_leaf node \<and> node_status node \<noteq> NotStarted
                        then GoalConflict else InvalidArgs))"
proof -
  have ok: "plan_ok (plan_nodes t)" by (rule built_plan_ok [OF assms])
  note r = ready_may_start [OF ok, of n] and c = ready_claim [OF ok, of n]
  show ?thesis
  proof (cases "claim t n")
    case (Inl e)
    then show ?thesis using r c claim_code [OF Inl] by (cases "plan_get t n") auto
  next
    case (Inr h)
    then have "h = Held n" by (simp add: claim_cases)
    then show ?thesis using r c Inr by simp
  qed
qed

section \<open>Progress\<close>

lemma count_nodes:
  assumes "ps_total s + length ns \<le> u32_max" "ps_done s + length ns \<le> u32_max" "ps_blocked s + length ns \<le> u32_max"
  shows "fold count_node ns s = s\<lparr>
      ps_done := ps_done s + length (filter (\<lambda>n. is_leaf n \<and> leaf_done n) ns),
      ps_blocked := ps_blocked s + length (filter (\<lambda>n. is_leaf n \<and> leaf_blocked n) ns),
      ps_total := ps_total s + length (filter is_leaf ns),
      ps_done_parts := ps_done_parts s @ map pn_share (filter (\<lambda>n. is_leaf n \<and> leaf_done n) ns),
      ps_blocked_parts := ps_blocked_parts s @ map pn_share (filter (\<lambda>n. is_leaf n \<and> leaf_blocked n) ns)\<rparr>"
  using assms
proof (induction ns arbitrary: s)
  case (Cons n ns)
  have excl: "leaf_done n \<Longrightarrow> \<not> leaf_blocked n" by (auto simp: leaf_done_def leaf_blocked_def)
  have room: "ps_total (count_node n s) + length ns \<le> u32_max" "ps_done (count_node n s) + length ns \<le> u32_max"
    "ps_blocked (count_node n s) + length ns \<le> u32_max"
    using Cons.prems by (auto simp: count_node_def Let_def)
  show ?case using Cons.IH [OF room] Cons.prems excl by (auto simp: count_node_def Let_def)
qed simp

definition leaves_where :: "(plan_node \<Rightarrow> bool) \<Rightarrow> plan_nodes \<Rightarrow> node_id set" where
  "leaves_where P nodes = {n. \<exists>node. bt_get nodes n = Some node \<and> is_leaf node \<and> P node}"

lemma leaves_where_list:
  assumes "bt_wf nodes"
  shows "length (filter (\<lambda>n. is_leaf n \<and> P n) (map snd nodes)) = card (leaves_where P nodes)"
    and "sum_list (map ppb (map pn_share (filter (\<lambda>n. is_leaf n \<and> P n) (map snd nodes)))) =
      (\<Sum>n \<in> leaves_where P nodes. share_at nodes n)"
proof -
  let ?es = "filter (\<lambda>e. is_leaf (snd e) \<and> P (snd e)) nodes"
  have d: "distinct (map fst ?es)" using bt_wf_distinct [OF assms] by (rule distinct_map_filter)
  have s: "set (map fst ?es) = leaves_where P nodes"
    using bt_entry_get [OF assms] by (force simp: leaves_where_def)
  have f: "filter (\<lambda>n. is_leaf n \<and> P n) (map snd nodes) = map snd ?es" by (simp add: filter_map comp_def)
  show "length (filter (\<lambda>n. is_leaf n \<and> P n) (map snd nodes)) = card (leaves_where P nodes)"
    using distinct_card [OF d] s f by simp
  have "map ppb (map pn_share (map snd ?es)) = map (share_at nodes) (map fst ?es)"
    using bt_entry_get [OF assms] by (auto simp: share_at_def)
  then show "sum_list (map ppb (map pn_share (filter (\<lambda>n. is_leaf n \<and> P n) (map snd nodes)))) =
      (\<Sum>n \<in> leaves_where P nodes. share_at nodes n)"
    unfolding f using sum_list_distinct_conv_sum_set [OF d, of "share_at nodes"] s by (simp only:)
qed

lemma leaves_where_sub: "leaves_where P nodes \<subseteq> plan_leaves nodes"
  by (auto simp: leaves_where_def plan_leaves_def is_leaf_def)

text \<open>C30. What a plan says of itself is what its leaves say, nothing rounded and nothing counted
  twice: the leaves done with evidence present, the leaves blocked or waiting for a person, and
  the shares of both, which together stay within the whole. A plan whose every leaf is done with
  evidence reports the whole.\<close>

theorem progress_is_what_the_leaves_say:
  assumes "\<forall>row \<in> set rows. row_typed row" "rows \<noteq> []" "length rows \<le> u32_max" "plan_build rows = Some (Inr t)"
  shows "\<exists>p. plan_progress t = Planned p \<and>
     pp_total p = card (plan_leaves (plan_nodes t)) \<and>
     pp_done p = card (leaves_where leaf_done (plan_nodes t)) \<and>
     pp_blocked p = card (leaves_where leaf_blocked (plan_nodes t)) \<and>
     pp_done p + pp_blocked p \<le> pp_total p \<and>
     pp_done_ppb p = (\<Sum>n \<in> leaves_where leaf_done (plan_nodes t). share_at (plan_nodes t) n) \<and>
     pp_blocked_ppb p = (\<Sum>n \<in> leaves_where leaf_blocked (plan_nodes t). share_at (plan_nodes t) n) \<and>
     pp_done_ppb p + pp_blocked_ppb p \<le> WHOLE_PPB \<and>
     (pp_done p = pp_total p \<longrightarrow> weighted p = (WHOLE_PPB, WHOLE_PPB))"
proof -
  let ?m = "plan_nodes t"
  have ok: "plan_ok ?m" by (rule built_plan_ok [OF assms(1,4)])
  note wf = plan_okD(1) [OF ok]
  note whole = plan_whole [OF assms(1,2,4)]
  let ?D = "leaves_where leaf_done ?m" and ?B = "leaves_where leaf_blocked ?m" and ?L = "plan_leaves ?m"
  have L: "leaves_where (\<lambda>_. True) ?m = ?L" by (simp add: leaves_where_def plan_leaves_def is_leaf_def)
  have fin: "finite ?L" by (rule plan_leaves_finite)
  have DB: "?D \<inter> ?B = {}" "?D \<union> ?B \<subseteq> ?L"
    using leaves_where_sub by (auto simp: leaves_where_def leaf_done_def leaf_blocked_def)
  have cards: "card ?D + card ?B \<le> card ?L"
    using DB card_mono [OF fin DB(2)] card_Un_disjoint [of ?D ?B] finite_subset [OF _ fin] by auto
  have sums: "(\<Sum>n \<in> ?D. share_at ?m n) + (\<Sum>n \<in> ?B. share_at ?m n) \<le> WHOLE_PPB"
    using sum_mono2 [OF fin DB(2), of "share_at ?m"] whole DB finite_subset [OF _ fin]
    by (subst sum.union_disjoint [symmetric]) auto
  have small: "length (map snd ?m) \<le> u32_max"
  proof -
    have "set (map fst ?m) = row_id ` set rows" using plan_keys [OF assms(1,4)] by (simp add: bt_keys_def)
    then have "length ?m = card (row_id ` set rows)" using distinct_card [OF bt_wf_distinct [OF wf]] by simp
    also have "\<dots> \<le> length rows" using card_image_le [of "set rows" row_id] card_length [of rows] by simp
    finally show ?thesis using assms(3) by simp
  qed
  let ?s = "\<lparr>ps_done = 0, ps_blocked = 0, ps_total = 0, ps_done_parts = [], ps_blocked_parts = []\<rparr>"
  note lw = leaves_where_list [OF wf]
  have g: "ppb (gather ps) = sum_list (map ppb ps)" if "sum_list (map ppb ps) \<le> WHOLE_PPB" for ps
    by (rule gather_exact [OF that])
  define p where "p = \<lparr>pp_done = card ?D, pp_blocked = card ?B, pp_total = card ?L,
      pp_done_ppb = (\<Sum>n \<in> ?D. share_at ?m n), pp_blocked_ppb = (\<Sum>n \<in> ?B. share_at ?m n)\<rparr>"
  have "plan_progress t = Planned p"
    using count_nodes [of ?s "map snd ?m"] small lw(1) [of leaf_done] lw(1) [of leaf_blocked]
      lw(1) [of "\<lambda>_. True", unfolded L] g [of "map pn_share (filter (\<lambda>n. is_leaf n \<and> leaf_done n) (map snd ?m))"]
      g [of "map pn_share (filter (\<lambda>n. is_leaf n \<and> leaf_blocked n) (map snd ?m))"]
      lw(2) [of leaf_done] lw(2) [of leaf_blocked] sums
    by (simp add: plan_progress_def p_def Let_def)
  moreover have "(\<Sum>n \<in> ?D. share_at ?m n) = WHOLE_PPB" if "card ?D = card ?L"
  proof -
    have "?D = ?L" using card_subset_eq [OF fin _ that] DB(2) by blast
    then show ?thesis using whole by simp
  qed
  ultimately show ?thesis using cards sums by (intro exI [of _ p]) (simp add: p_def weighted_def)
qed


section \<open>Small plans\<close>

definition plan_row :: "nat list \<Rightarrow> nat list list \<Rightarrow> roadmap_status \<Rightarrow> roadmap_row" where
  "plan_row path needs status =
     \<lparr>row_id = node_of path, row_item = lit ''item'', row_weight = 1, row_needs = map node_of needs,
      row_status = status, row_evidence = Empty\<rparr>"

lemma plan_row_simps [simp]:
  "row_id (plan_row p ns st) = node_of p" "row_needs (plan_row p ns st) = map node_of ns"
  "row_status (plan_row p ns st) = st" "row_weight (plan_row p ns st) = 1"
  by (simp_all add: plan_row_def)

lemma node_of_inject: "a \<noteq> [] \<Longrightarrow> b \<noteq> [] \<Longrightarrow> node_of a = node_of b \<longleftrightarrow> a = b"
  by (metis node_path_of)

lemma row_edges_simps [simp]:
  "row_edges [] = {}"
  "row_edges (row # rows) = (\<lambda>need. (need, row_id row)) ` set (row_needs row) \<union> row_edges rows"
  by (auto simp: row_edges_def)

definition two_rows :: "roadmap_row list" where
  "two_rows = [plan_row [2] [] NotStarted, plan_row [3] [[2]] NotStarted]"

lemma two_rows_typed: "\<forall>row \<in> set two_rows. row_typed row" "\<forall>row \<in> set two_rows. distinct (row_needs row)"
  by (auto simp: two_rows_def row_typed_def path_wf_def NODE_DEPTH_MAX_def u_defs)

lemma two_rows_plan: "is_plan two_rows"
proof -
  have "row_edges two_rows = {(node_of [2], node_of [3])}" by (simp add: two_rows_def)
  moreover have "acyclic ({} :: (node_id \<times> node_id) set)" by (simp add: acyclic_def)
  ultimately show ?thesis
    by (auto simp: is_plan_def parents_there_def two_rows_def node_of_inject parent_of acyclic_insert)
qed

lemma two_rows_built: "\<exists>t. plan_build two_rows = Some (Inr t)"
using two_rows_typed(1)
proof (cases rule: plan_build_cases)
  case (refused e)
  then show ?thesis using place_accepts [OF two_rows_typed(1) two_rows_plan] by simp
qed blast

theorem plan_build_decides_witness:
  "(\<exists>t. plan_build two_rows = Some (Inr t)) \<and> is_plan two_rows"
  using plan_build_decides [OF two_rows_typed(1)] two_rows_plan
  by (cases "plan_build two_rows") (auto split: sum.splits)

theorem plan_shares_come_to_the_whole_witness:
  "\<exists>t. plan_build two_rows = Some (Inr t) \<and>
     (\<Sum>n \<in> plan_leaves (plan_nodes t). share_at (plan_nodes t) n) = WHOLE_PPB"
proof -
  have "two_rows \<noteq> []" by (simp add: two_rows_def)
  moreover obtain r where "plan_build two_rows = Some r" and
    "case r of Inl e \<Rightarrow> \<not> is_plan two_rows
     | Inr t \<Rightarrow> set (bt_keys (plan_nodes t)) = row_id ` set two_rows \<and>
         (\<Sum>n \<in> plan_leaves (plan_nodes t). share_at (plan_nodes t) n) = (if two_rows = [] then 0 else WHOLE_PPB)"
    using plan_shares_come_to_the_whole [OF two_rows_typed(1)] by blast
  ultimately show ?thesis using two_rows_plan by (cases r) auto
qed

theorem claim_hands_out_the_ready_witness:
  "\<exists>t. plan_build two_rows = Some (Inr t) \<and>
     (\<exists>e. claim t (node_of [3]) = Inl e \<and> err_code e = InvalidArgs) \<and> node_of [3] \<notin> set (ready t)"
proof -
  obtain t where t: "plan_build two_rows = Some (Inr t)" using two_rows_built by blast
  note get = built_get [OF two_rows_typed(1) t]
  have two: "row_at two_rows (node_of [2]) = Some (plan_row [2] [] NotStarted)"
    and three: "row_at two_rows (node_of [3]) = Some (plan_row [3] [[2]] NotStarted)"
    by (simp_all add: row_at_def two_rows_def node_of_inject)
  obtain a b where a: "plan_get t (node_of [2]) = Some a" "pn_row a = plan_row [2] [] NotStarted"
    and b: "plan_get t (node_of [3]) = Some b" "pn_row b = plan_row [3] [[2]] NotStarted"
    using get [of "node_of [2]"] get [of "node_of [3]"] two three by auto
  have "node_of [2] \<in> set (node_needs (plan_nodes t) (node_of [3]))"
    using b by (simp add: node_needs_def plan_get_def)
  moreover have "\<not> is_done t (node_of [2])" using a by (simp add: is_done_def)
  ultimately have "\<not> may_start t (node_of [3])" unfolding may_start_def below_def by blast
  then show ?thesis
    using claim_hands_out_the_ready [OF two_rows_typed(1) t, of "node_of [3]"] t b by (auto split: sum.splits)
qed

theorem progress_is_what_the_leaves_say_witness:
  "\<exists>t p. plan_build two_rows = Some (Inr t) \<and> plan_progress t = Planned p \<and>
     pp_done p + pp_blocked p \<le> pp_total p \<and> pp_done_ppb p + pp_blocked_ppb p \<le> WHOLE_PPB"
proof -
  obtain t where t: "plan_build two_rows = Some (Inr t)" using two_rows_built by blast
  have "two_rows \<noteq> []" "length two_rows \<le> u32_max" by (simp_all add: two_rows_def u_defs)
  from progress_is_what_the_leaves_say [OF two_rows_typed(1) this t] t show ?thesis by blast
qed


section \<open>A dependency written twice\<close>

definition looped_rows :: "roadmap_row list" where
  "looped_rows = [plan_row [2] [[4], [4]] NotStarted, plan_row [3] [[5]] NotStarted,
     plan_row [4] [] NotStarted, plan_row [5] [[3]] NotStarted]"

lemma looped_circle: "\<not> acyclic (row_edges looped_rows)"
proof -
  have "(node_of [3], node_of [5]) \<in> row_edges looped_rows" "(node_of [5], node_of [3]) \<in> row_edges looped_rows"
    by (simp_all add: looped_rows_def)
  then have "(node_of [3], node_of [3]) \<in> (row_edges looped_rows)\<^sup>+" by (meson trancl.simps)
  then show ?thesis by (auto simp: acyclic_def)
qed

lemma looped_accepted: "is_ok (place looped_rows)"
  by code_simp

text \<open>The circle search counts a dependency as often as the row writes it and lets go of it once.
  A row that names a dependency twice stays behind with nothing left to wait for, the walk that
  should draw the circle ends there, and the circle of other rows goes unseen.\<close>

theorem repeated_need_hides_circle:
  "(\<exists>t. plan_build looped_rows = Some (Inr t)) \<and> \<not> acyclic (row_edges looped_rows)"
proof -
  obtain nodes where n: "place looped_rows = Inr nodes" using looped_accepted by (auto simp: is_ok_iff)
  have "\<forall>row \<in> set looped_rows. row_typed row"
    by (auto simp: looped_rows_def row_typed_def path_wf_def NODE_DEPTH_MAX_def u_defs)
  then have "plan_ok nodes" by (rule arranged_plan(1) [OF place_Inr_arranged [OF n]])
  then show ?thesis using divide_conserves [of nodes] n looped_circle by (auto simp: plan_build_def)
qed

end
