(* ===== verification/SpineReading.thy ===== *)
theory SpineReading
  imports Spines
begin

text \<open>
  What the reader and the writers of the roadmap table do, stated over the lines of the file: the
  lines before the first table, the table, and the lines after it. The reader is characterised by
  \<open>table_reading\<close>, and each writer by what it does to the three parts.
\<close>

section \<open>The three parts of a file\<close>

definition is_row :: "rstr \<Rightarrow> bool" where
  "is_row line \<longleftrightarrow> split_table_row line \<noteq> None"

definition cells_of :: "rstr \<Rightarrow> rstr list" where
  "cells_of line = (case split_table_row line of Some cells \<Rightarrow> cells | None \<Rightarrow> [])"

definition before_table :: "rstr list \<Rightarrow> rstr list" where
  "before_table ps = takeWhile (\<lambda>l. \<not> is_row l) ps"

definition table_lines :: "rstr list \<Rightarrow> rstr list" where
  "table_lines ps = takeWhile is_row (dropWhile (\<lambda>l. \<not> is_row l) ps)"

definition after_table :: "rstr list \<Rightarrow> rstr list" where
  "after_table ps = dropWhile is_row (dropWhile (\<lambda>l. \<not> is_row l) ps)"

definition body_cells :: "rstr list \<Rightarrow> rstr list list" where
  "body_cells ls = filter (\<lambda>cells. \<not> is_separator cells) (map cells_of ls)"

text \<open>The rows a table says: every line has six columns, the first is the header, and every
  other line that is not a separator reads as a row.\<close>

definition table_reading :: "rstr list \<Rightarrow> roadmap_row list option" where
  "table_reading tab =
     (if tab \<noteq> [] \<and> (\<forall>l \<in> set tab. length (cells_of l) = ROADMAP_COLUMNS)
      then (case collect_ok read_row (body_cells (tl tab)) of Inr rows \<Rightarrow> Some rows | Inl _ \<Rightarrow> None)
      else None)"

lemma parts: "before_table ps @ table_lines ps @ after_table ps = ps"
  by (simp add: before_table_def table_lines_def after_table_def)

lemma before_table_rows: "l \<in> set (before_table ps) \<Longrightarrow> \<not> is_row l"
  unfolding before_table_def by (auto dest: set_takeWhileD)

lemma table_lines_rows: "l \<in> set (table_lines ps) \<Longrightarrow> is_row l"
  unfolding table_lines_def by (auto dest: set_takeWhileD)

lemma after_table_hd: "after_table ps = [] \<or> \<not> is_row (hd (after_table ps))"
  unfolding after_table_def by (metis hd_dropWhile)

lemma no_table_no_rest: "table_lines ps = [] \<Longrightarrow> after_table ps = []"
proof (cases "dropWhile (\<lambda>l. \<not> is_row l) ps")
  case (Cons l ls)
  assume "table_lines ps = []"
  moreover have "is_row l" using hd_dropWhile [of "\<lambda>l. \<not> is_row l" ps] Cons by simp
  ultimately show ?thesis using Cons by (simp add: table_lines_def)
next
  case Nil
  then show ?thesis unfolding after_table_def by (simp only: dropWhile.simps)
qed

lemma table_lines_unique:
  assumes "\<forall>l \<in> set a. \<not> is_row l" "\<forall>l \<in> set tab. is_row l" "tab \<noteq> []" "z = [] \<or> \<not> is_row (hd z)"
  shows "table_lines (a @ tab @ z) = tab"
proof -
  have "dropWhile (\<lambda>l. \<not> is_row l) (a @ tab @ z) = tab @ z"
    using assms(1-3) by (cases tab) simp_all
  moreover have "takeWhile is_row (tab @ z) = tab"
    using assms(2,4) by (cases z) (auto simp: takeWhile_append)
  ultimately show ?thesis by (simp add: table_lines_def)
qed

lemma is_row_cells: "is_row l \<Longrightarrow> split_table_row l = Some (cells_of l)"
  by (auto simp: is_row_def cells_of_def)


section \<open>The reader\<close>

lemma split_table_row_strip_cr [simp]: "split_table_row (strip_cr l) = split_table_row l"
proof -
  have "is_whitespace 13" by (simp add: is_whitespace_def)
  then have "trim (strip_cr l) = trim l"
    by (auto simp: strip_cr_def strip_suffix_Some split: option.splits)
  then show ?thesis by (simp add: split_table_row_def)
qed

lemma scan_line_strip_cr [simp]: "scan_line (strip_cr l) = scan_line l"
  by (simp add: scan_line_def fun_eq_iff)

lemma scan_line_blank: "scan_result (scan_line [] s) = scan_result s"
  by (simp add: scan_line_def scan_result_def split_table_row_def starts_with_def Let_def)

lemma check_roadmap_shape_pieces:
  "check_roadmap_shape txt = scan_result (fold scan_line (split_on 10 txt) scan_start)"
proof -
  let ?ps = "split_on 10 txt"
  have "fold scan_line (map strip_cr ls) s = fold scan_line ls s" for ls s
    by (induction ls arbitrary: s) simp_all
  then have "fold scan_line (lines txt) s =
      (if last ?ps = [] then fold scan_line (butlast ?ps) s
       else scan_line (last ?ps) (fold scan_line (butlast ?ps) s))" for s
    by (simp add: lines_def Let_def)
  moreover have "fold scan_line ?ps s = scan_line (last ?ps) (fold scan_line (butlast ?ps) s)" for s
    using fold_append [of scan_line "butlast ?ps" "[last ?ps]"] by simp
  ultimately show ?thesis by (simp add: check_roadmap_shape_def scan_line_blank)
qed

text \<open>The scan before the table, inside it, and after it.\<close>

lemma scan_before:
  assumes "\<forall>l \<in> set ls. \<not> is_row l" "\<not> scan_in_table s" "\<not> scan_over s"
  shows "\<exists>n. fold scan_line ls s = s\<lparr>scan_line_no := n\<rparr>"
  using assms
proof (induction ls arbitrary: s)
  case Nil
  show ?case by (intro exI [of _ "scan_line_no s"]) simp
next
  case (Cons l ls)
  from Cons.prems have "scan_line l s = s\<lparr>scan_line_no := Suc (scan_line_no s)\<rparr>"
    by (simp add: scan_line_def is_row_def)
  moreover have "\<exists>n. fold scan_line ls (s\<lparr>scan_line_no := Suc (scan_line_no s)\<rparr>) =
      s\<lparr>scan_line_no := Suc (scan_line_no s), scan_line_no := n\<rparr>"
    by (rule Cons.IH) (use Cons.prems in auto)
  ultimately show ?case by auto
qed

lemma scan_over_stays: "scan_over s \<Longrightarrow> fold scan_line ls s = s"
  by (induction ls) (simp_all add: scan_line_def)

lemma scan_after:
  assumes "ls = [] \<or> \<not> is_row (hd ls)" "scan_in_table s" "\<not> scan_over s"
  shows "scan_result (fold scan_line ls s) = scan_result s"
proof (cases ls)
  case (Cons l rest)
  with assms have "scan_line l s = s\<lparr>scan_line_no := Suc (scan_line_no s), scan_over := True\<rparr>"
    by (simp add: scan_line_def is_row_def)
  with Cons show ?thesis by (simp add: scan_over_stays scan_result_def)
qed simp

lemma scan_problems_stay: "scan_problems s \<noteq> [] \<Longrightarrow> scan_problems (fold scan_line ls s) \<noteq> []"
proof (induction ls arbitrary: s)
  case (Cons l ls)
  have "scan_problems (scan_line l s) \<noteq> []"
    using Cons.prems by (auto simp: scan_line_def scan_cells_def scan_problem_def Let_def
        split: option.splits sum.splits)
  with Cons.IH show ?case by simp
qed simp

lemma scan_in_body:
  assumes "\<forall>l \<in> set ls. is_row l" "scan_header s" "scan_in_table s" "\<not> scan_over s"
  shows "let s' = fold scan_line ls s in
     scan_header s' \<and> scan_in_table s' \<and> \<not> scan_over s' \<and>
     (if scan_problems s = [] \<and> (\<forall>l \<in> set ls. length (cells_of l) = ROADMAP_COLUMNS)
      then (case collect_ok read_row (body_cells ls) of
              Inr rows \<Rightarrow> scan_problems s' = [] \<and> scan_rows s' = scan_rows s @ rows
            | Inl _ \<Rightarrow> scan_problems s' \<noteq> [])
      else scan_problems s' \<noteq> [])"
  using assms
proof (induction ls arbitrary: s)
  case Nil
  then show ?case by (simp add: body_cells_def)
next
  case (Cons l ls)
  let ?t = "scan_line l s"
  have row: "split_table_row l = Some (cells_of l)" using Cons.prems(1) by (simp add: is_row_cells)
  have t: "scan_header ?t" "scan_in_table ?t" "\<not> scan_over ?t"
    using Cons.prems row by (auto simp: scan_line_def scan_cells_def scan_problem_def Let_def split: sum.split)
  note IH = Cons.IH [of ?t, OF _ t]
  consider (bad) "length (cells_of l) \<noteq> ROADMAP_COLUMNS \<or> scan_problems s \<noteq> []"
    | (sep) "length (cells_of l) = ROADMAP_COLUMNS" "scan_problems s = []" "is_separator (cells_of l)"
    | (read) row where "length (cells_of l) = ROADMAP_COLUMNS" "scan_problems s = []"
        "\<not> is_separator (cells_of l)" "read_row (cells_of l) = Inr row"
    | (no) why where "length (cells_of l) = ROADMAP_COLUMNS" "scan_problems s = []"
        "\<not> is_separator (cells_of l)" "read_row (cells_of l) = Inl why"
    by (cases "read_row (cells_of l)") blast+
  then show ?case
  proof cases
    case bad
    then have "scan_problems ?t \<noteq> []"
      using Cons.prems row by (auto simp: scan_line_def scan_cells_def scan_problem_def Let_def split: sum.split)
    with IH Cons.prems(1) bad show ?thesis by (auto simp: Let_def)
  next
    case sep
    then have "scan_problems ?t = []" "scan_rows ?t = scan_rows s"
      using Cons.prems row by (auto simp: scan_line_def scan_cells_def Let_def)
    moreover have "body_cells (l # ls) = body_cells ls" using sep by (simp add: body_cells_def)
    ultimately show ?thesis using IH Cons.prems(1) sep
      by (cases "collect_ok read_row (body_cells ls)") (simp_all add: Let_def split: if_splits)
  next
    case (read r)
    then have "scan_problems ?t = []" "scan_rows ?t = scan_rows s @ [r]"
      using Cons.prems row by (auto simp: scan_line_def scan_cells_def Let_def)
    moreover have "body_cells (l # ls) = cells_of l # body_cells ls"
      using read by (simp add: body_cells_def)
    ultimately show ?thesis using IH Cons.prems(1) read
      by (cases "collect_ok read_row (body_cells ls)") (simp_all add: Let_def split: if_splits)
  next
    case (no why)
    then have "scan_problems ?t \<noteq> []"
      using Cons.prems row by (auto simp: scan_line_def scan_cells_def scan_problem_def Let_def)
    moreover have "body_cells (l # ls) = cells_of l # body_cells ls"
      using no by (simp add: body_cells_def)
    ultimately show ?thesis using IH Cons.prems(1) no by (auto simp: Let_def)
  qed
qed

lemma scan_table:
  assumes "\<forall>l \<in> set tab. is_row l" "tab \<noteq> []"
    "\<not> scan_header s" "\<not> scan_over s" "scan_problems s = []" "scan_rows s = []"
  shows "let s' = fold scan_line tab s in
     scan_in_table s' \<and> \<not> scan_over s' \<and>
     (case table_reading tab of
        Some rows \<Rightarrow> scan_problems s' = [] \<and> scan_header s' \<and> scan_rows s' = rows
      | None \<Rightarrow> scan_problems s' \<noteq> [])"
proof -
  obtain h ls where tab: "tab = h # ls" using assms(2) by (cases tab) auto
  let ?t = "scan_line h s"
  have row: "split_table_row h = Some (cells_of h)" using assms(1) tab by (simp add: is_row_cells)
  have flags: "scan_in_table (fold scan_line us u) \<and> \<not> scan_over (fold scan_line us u)"
    if "\<forall>l \<in> set us. is_row l" "scan_in_table u" "\<not> scan_over u" for us u
    using that
    by (induction us arbitrary: u)
      (auto simp: scan_line_def scan_cells_def scan_problem_def is_row_def Let_def split: option.split sum.split)
  have t: "scan_in_table ?t" "\<not> scan_over ?t"
    using assms(4) row by (auto simp: scan_line_def scan_cells_def scan_problem_def Let_def split: sum.split)
  have kept: "scan_in_table (fold scan_line tab s) \<and> \<not> scan_over (fold scan_line tab s)"
    using flags [of ls ?t] assms(1) tab t by simp
  show ?thesis
  proof (cases "length (cells_of h) = ROADMAP_COLUMNS")
    case False
    then have "scan_problems ?t \<noteq> []"
      using assms row by (auto simp: scan_line_def scan_cells_def scan_problem_def Let_def)
    then have "scan_problems (fold scan_line tab s) \<noteq> []"
      using tab scan_problems_stay by simp
    with False tab kept show ?thesis by (simp add: table_reading_def Let_def)
  next
    case True
    then have t': "scan_header ?t" "scan_problems ?t = []" "scan_rows ?t = []"
      using assms row by (auto simp: scan_line_def scan_cells_def Let_def)
    from scan_in_body [of ls ?t] assms(1) tab t t'(1)
    show ?thesis
      using True t'(2,3) kept
      by (cases "collect_ok read_row (body_cells ls)")
        (auto simp: tab table_reading_def Let_def split: if_splits)
  qed
qed

lemma check_roadmap_shape_WellFormed:
  "check_roadmap_shape txt = WellFormed rows \<longleftrightarrow>
     table_reading (table_lines (split_on 10 txt)) = Some rows"
proof -
  let ?ps = "split_on 10 txt"
  let ?tab = "table_lines ?ps"
  obtain n where n: "fold scan_line (before_table ?ps) scan_start = scan_start\<lparr>scan_line_no := n\<rparr>"
    using scan_before [of "before_table ?ps" scan_start] before_table_rows
    by (auto simp: scan_start_def)
  let ?s = "scan_start\<lparr>scan_line_no := n\<rparr>"
  have s: "\<not> scan_header ?s" "\<not> scan_over ?s" "scan_problems ?s = []" "scan_rows ?s = []"
    by (simp_all add: scan_start_def)
  have run: "fold scan_line ?ps scan_start = fold scan_line (after_table ?ps) (fold scan_line ?tab ?s)"
    by (subst parts [symmetric]) (simp add: n)
  show ?thesis
  proof (cases "?tab = []")
    case True
    then have "after_table ?ps = []"
      by (rule no_table_no_rest)
    with True run show ?thesis
      by (simp add: check_roadmap_shape_pieces table_reading_def scan_result_def scan_start_def)
  next
    case False
    let ?s' = "fold scan_line ?tab ?s"
    have "scan_in_table ?s' \<and> \<not> scan_over ?s' \<and>
     (case table_reading ?tab of
        Some rows \<Rightarrow> scan_problems ?s' = [] \<and> scan_header ?s' \<and> scan_rows ?s' = rows
      | None \<Rightarrow> scan_problems ?s' \<noteq> [])"
      using scan_table [OF _ False s] table_lines_rows [of _ ?ps] by (simp only: Let_def) blast
    moreover from this have "check_roadmap_shape txt = scan_result ?s'"
      using scan_after [OF after_table_hd] by (simp add: check_roadmap_shape_pieces run)
    ultimately show ?thesis
      by (auto simp: scan_result_def Let_def split: option.splits)
  qed
qed

end
