(* ===== verification/SpineWriting.thy ===== *)
theory SpineWriting
  imports SpineReading
begin

text \<open>
  The writers of the roadmap table: a drawn row reads back as itself, and a status change or a
  new row gives a file whose table says the old rows with exactly that change.
\<close>

section \<open>Drawing and reading one row\<close>

definition draw_cells :: "rstr list \<Rightarrow> rstr" where
  "draw_cells cells = lit ''| '' @ join_with (lit '' | '') cells @ lit '' |''"

lemma bar_lits: "lit ''| '' = [BAR, 32]" "lit '' | '' = [32, BAR, 32]" "lit '' |'' = [32, BAR]"
  "lit '' |  | '' = [32, BAR, 32, 32, BAR, 32]" "lit '' |  |'' = [32, BAR, 32, 32, BAR]"
  by (simp_all add: text_eval)

lemma padded_join:
  "cells \<noteq> [] \<Longrightarrow>
   32 # join_with [32, BAR, 32] cells @ [32] = join_with [BAR] (map (\<lambda>c. 32 # c @ [32]) cells)"
  by (induction "[32, BAR, 32]" cells rule: join_with.induct) simp_all

lemma whitespace_32 [simp]: "is_whitespace 32" by (simp add: is_whitespace_def)

lemma split_draw_cells:
  assumes "cells \<noteq> []" "\<forall>c \<in> set cells. trimmed c \<and> BAR \<notin> set c"
  shows "split_table_row (draw_cells cells) = Some cells"
proof -
  let ?inner = "join_with [BAR] (map (\<lambda>c. 32 # c @ [32]) cells)"
  have line: "draw_cells cells = BAR # ?inner @ [BAR]"
    unfolding padded_join [OF assms(1), symmetric] by (simp add: draw_cells_def bar_lits)
  then have "trim (draw_cells cells) = BAR # ?inner @ [BAR]"
    by (intro trans [OF trim_trimmed]) (simp_all add: trimmed_def is_whitespace_def)
  moreover have "split_on BAR ?inner = map (\<lambda>c. 32 # c @ [32]) cells"
    using assms by (intro split_join) auto
  moreover have "strip_prefix [BAR] (BAR # ?inner @ [BAR]) = Some (?inner @ [BAR])"
    by (simp add: strip_prefix_Some)
  moreover have "strip_suffix [BAR] (?inner @ [BAR]) = Some ?inner"
    by (simp add: strip_suffix_Some)
  moreover have "starts_with [BAR] (BAR # ?inner @ [BAR])" by (simp add: starts_with_def)
  moreover have "map trim (map (\<lambda>c. 32 # c @ [32]) cells) = cells"
  proof (rule trans [OF _ map_idI])
    show "map trim (map (\<lambda>c. 32 # c @ [32]) cells) = map (\<lambda>c. c) cells"
    proof (unfold map_map, rule map_cong [OF refl])
      fix c assume "c \<in> set cells"
      then have "trimmed c" using assms(2) by blast
      then show "(trim \<circ> (\<lambda>c. 32 # c @ [32])) c = c"
        using trim_pad_left [of 32 "c @ [32]"] trim_pad_right [of 32 c] by simp
    qed
  qed simp
  ultimately show ?thesis by (simp add: split_table_row_def)
qed

definition row_cells :: "roadmap_row \<Rightarrow> roadmap_status \<Rightarrow> locator option \<Rightarrow> rstr list" where
  "row_cells row status evidence =
     [node_str (row_id row), row_item row, show_nat (row_weight row),
      join_with (lit '', '') (map node_str (row_needs row)), spelling status,
      (case evidence of None \<Rightarrow> [] | Some loc \<Rightarrow> show_locator loc)]"

lemma draw_row_cells: "draw_row row status evidence = draw_cells (row_cells row status evidence)"
  by (simp add: draw_row_def draw_cells_def row_cells_def)

text \<open>What a row the table gave always has.\<close>

definition row_wf :: "roadmap_row \<Rightarrow> bool" where
  "row_wf row \<longleftrightarrow>
     node_wf (row_id row) \<and> trimmed (row_item row) \<and> BAR \<notin> set (row_item row) \<and>
     10 \<notin> set (row_item row) \<and> row_weight row \<le> u32_max \<and> (\<forall>n \<in> set (row_needs row). node_wf n)"

text \<open>Evidence the table can hold: a locator the grammar prints and no column separator in it.\<close>

definition evidence_ok :: "locator option \<Rightarrow> bool" where
  "evidence_ok evidence \<longleftrightarrow>
     (case evidence of
        None \<Rightarrow> True
      | Some loc \<Rightarrow> locator_wf loc \<and> citable_address loc \<and> BAR \<notin> set (show_locator loc))"

definition evidence_of :: "locator option \<Rightarrow> evidence_cell" where
  "evidence_of evidence = (case evidence of None \<Rightarrow> Empty | Some loc \<Rightarrow> Present loc)"

lemma parse_status_spelling: "parse_status (spelling status) = Some status"
  by (cases status)
    (simp_all add: parse_status_def spelling_def ROADMAP_STATUS_SPELLINGS_def eq_ignore_ascii_case_def
      to_ascii_lowercase_def text_eval)

lemma node_str_chars: "node_wf n \<Longrightarrow> c \<in> set (node_str n) \<Longrightarrow> c = NDOT \<or> is_ascii_digit c"
  using set_join [of "[NDOT]" "map show_nat (node_path n)"] node_of_path [of n] show_nat_digit
  by (fastforce simp: node_of_def node_wf_def)

lemma node_str_trimmed: "node_wf n \<Longrightarrow> trimmed (node_str n)"
  by (intro trimmed_all) (auto dest: node_str_chars simp: is_whitespace_def is_ascii_digit_def)

lemma node_str_not_Nil: "node_wf n \<Longrightarrow> node_str n \<noteq> []"
  using split_node_of [of "node_path n"] node_of_path [of n] path_wf_node_path [of n]
  by (metis list.map_disc_iff list.sel(1) path_wf_def show_nat_not_Nil split_on.simps(1) hd_map)

lemma node_parse_node_str: "node_wf n \<Longrightarrow> node_parse (node_str n) = Inr n"
  by (simp add: node_parse_Inr node_str_trimmed)

lemma read_needs_pad: "read_needs ((32 # part) # parts) = read_needs (part # parts)"
  by (simp add: Let_def)

lemma read_needs_join:
  "\<forall>n \<in> set ns. node_wf n \<Longrightarrow> read_needs (split_on 44 (join_with (lit '', '') (map node_str ns))) = Inr ns"
proof (induction ns rule: induct_list012)
  case (2 n)
  then have "44 \<notin> set (node_str n)" by (auto dest: node_str_chars simp: is_ascii_digit_def)
  with 2 show ?case
    by (simp add: split_on_no_sep node_str_trimmed node_str_not_Nil node_parse_node_str)
next
  case (3 n m ns)
  let ?rest = "join_with (lit '', '') (map node_str (m # ns))"
  have n: "node_wf n" using 3 by simp
  then have "44 \<notin> set (node_str n)" by (auto dest: node_str_chars simp: is_ascii_digit_def)
  moreover have "join_with (lit '', '') (map node_str (n # m # ns)) = node_str n @ 44 # 32 # ?rest"
    by (simp add: text_eval)
  ultimately have "split_on 44 (join_with (lit '', '') (map node_str (n # m # ns))) =
      node_str n # split_on 44 (32 # ?rest)"
    using split_on_append_sep [of 44 "node_str n" "32 # ?rest"] by (simp only: simp_thms)
  moreover obtain p ps where p: "split_on 44 ?rest = p # ps"
    by (cases "split_on 44 ?rest") auto
  moreover have "split_on 44 (32 # ?rest) = (32 # p) # ps" using p by simp
  ultimately have "read_needs (split_on 44 (join_with (lit '', '') (map node_str (n # m # ns)))) =
      and_then (read_needs (split_on 44 ?rest)) (\<lambda>needs. Inr (n # needs))"
    using n read_needs_pad [of p ps]
    by (simp add: node_str_trimmed node_str_not_Nil node_parse_node_str)
  moreover have "read_needs (split_on 44 ?rest) = Inr (m # ns)" using 3 by simp
  ultimately show ?case by simp
qed simp

lemma locator_tail:
  assumes "bytes_wf n bs" "0 < n"
  shows "write_hex bs @ write_range rg \<noteq> []"
    "\<forall>c \<in> set (write_hex bs @ write_range rg). 33 \<le> c \<and> c < 128 \<and> c \<noteq> BAR"
proof -
  show "write_hex bs @ write_range rg \<noteq> []"
    using assms length_write_hex [of bs] by (auto simp: bytes_wf_def simp del: length_write_hex)
  have "\<forall>c \<in> set (write_hex bs). 33 \<le> c \<and> c < 128 \<and> c \<noteq> BAR"
    using assms(1) by (auto simp: write_hex_def bytes_wf_def hex_char_def)
  moreover have "\<forall>c \<in> set (write_range rg). 33 \<le> c \<and> c < 128 \<and> c \<noteq> BAR"
    by (cases rg rule: write_range.cases; cases "the rg")
      (auto simp: lit_chars dest!: show_nat_digit simp: is_ascii_digit_def)
  ultimately show "\<forall>c \<in> set (write_hex bs @ write_range rg). 33 \<le> c \<and> c < 128 \<and> c \<noteq> BAR" by auto
qed

lemma locator_text_edges:
  assumes "locator_wf loc"
  shows "show_locator loc \<noteq> [] \<and> trimmed (show_locator loc) \<and> 10 \<notin> set (show_locator loc)"
proof -
  obtain hd_text tail where parts: "show_locator loc = hd_text @ tail" "tail \<noteq> []"
    "\<forall>c \<in> set tail. 33 \<le> c \<and> c < 128 \<and> c \<noteq> BAR" "hd_text \<noteq> []" "\<not> is_whitespace (hd hd_text)"
    "10 \<notin> set hd_text"
  proof (cases loc)
    case (Cas h rg)
    have "bytes_wf 32 (b3_bytes h)" using assms Cas by simp
    note tail = locator_tail [OF this, of rg]
    show ?thesis
      by (rule that [of "lit ''cas:b3-''" "write_hex (b3_bytes h) @ write_range rg"])
        (use tail Cas in \<open>simp_all add: text_eval is_whitespace_def\<close>)
  next
    case (File a oid rg)
    have "bytes_wf 20 (oid_bytes oid)" using assms File by simp
    note tail = locator_tail [OF this, of rg]
    have "canonical (addr_str a)" using assms File by simp
    then have "10 \<notin> set (addr_str a)" unfolding canonical_def is_control_def by fastforce
    then show ?thesis
      by (intro that [of "lit ''file:'' @ addr_str a @ lit ''@''" "write_hex (oid_bytes oid) @ write_range rg"])
        (use tail File in \<open>simp_all add: text_eval is_whitespace_def\<close>)
  qed
  have "last tail \<in> set tail" using parts(2) by simp
  with parts(3) have "33 \<le> last tail \<and> last tail < 128" by blast
  then have "\<not> is_whitespace (last tail)" by (auto simp: is_whitespace_def)
  moreover have "10 \<notin> set tail" using parts(3) by auto
  ultimately show ?thesis using parts by (auto simp: trimmed_def)
qed

lemma read_row_cells:
  assumes "row_wf row" "evidence_ok evidence"
  shows "read_row (row_cells row status evidence) =
     Inr (row\<lparr>row_status := status, row_evidence := evidence_of evidence\<rparr>)"
proof -
  have "show_nat (row_weight row) \<noteq> []" "parse_uint u32_max (show_nat (row_weight row)) = Some (row_weight row)"
    using assms(1) by (simp_all add: row_wf_def parse_show)
  moreover have "node_parse (node_str (row_id row)) = Inr (row_id row)"
    using assms(1) by (simp add: row_wf_def node_parse_node_str)
  moreover have "read_needs (split_on 44 (join_with (lit '', '') (map node_str (row_needs row)))) = Inr (row_needs row)"
    using assms(1) by (simp add: row_wf_def read_needs_join)
  moreover have "(if cell = [] then Empty else case locator_parse cell of Inr loc \<Rightarrow> Present loc | Inl _ \<Rightarrow> Invalid cell) =
      evidence_of evidence"
    if "cell = (case evidence of None \<Rightarrow> [] | Some loc \<Rightarrow> show_locator loc)" for cell
  proof (cases evidence)
    case (Some loc)
    with assms(2) have ok: "locator_wf loc" "citable_address loc" by (simp_all add: evidence_ok_def)
    then have "locator_parse (show_locator loc) = Inr loc" by (simp add: locator_parse_Inr)
    with Some that locator_text_edges [OF ok(1)] show ?thesis by (simp add: evidence_of_def)
  qed (simp add: that evidence_of_def)
  ultimately show ?thesis
    by (simp add: read_row_def row_cells_def parse_status_spelling)
qed

lemma spelling_plain: "trimmed (spelling status) \<and> BAR \<notin> set (spelling status) \<and> 10 \<notin> set (spelling status)"
  by (cases status)
    (simp_all add: spelling_def ROADMAP_STATUS_SPELLINGS_def trimmed_def is_whitespace_def text_eval)

lemma show_nat_plain: "trimmed (show_nat k) \<and> BAR \<notin> set (show_nat k) \<and> 10 \<notin> set (show_nat k)"
proof (intro conjI)
  show "trimmed (show_nat k)"
    by (intro trimmed_all) (blast dest: show_nat_digit digit_not_whitespace)
qed (use show_nat_digit [of BAR k] show_nat_digit [of 10 k] in \<open>auto simp: is_ascii_digit_def\<close>)

lemma needs_plain:
  assumes "\<forall>n \<in> set ns. node_wf n"
  shows "trimmed (join_with (lit '', '') (map node_str ns))"
    and "c \<in> set (join_with (lit '', '') (map node_str ns)) \<Longrightarrow> c \<noteq> BAR \<and> c \<noteq> 10"
proof -
  show "trimmed (join_with (lit '', '') (map node_str ns))"
  proof (cases "ns = []")
    case False
    have "trimmed (node_str (hd ns)) \<and> node_str (hd ns) \<noteq> []" "trimmed (node_str (last ns)) \<and> node_str (last ns) \<noteq> []"
      using assms False by (simp_all add: node_str_trimmed node_str_not_Nil)
    with False show ?thesis
      using join_hd [of "map node_str ns" "lit '', ''"] join_last [of "map node_str ns" "lit '', ''"]
      by (auto simp: trimmed_def hd_map last_map)
  qed (simp add: trimmed_def)
  assume "c \<in> set (join_with (lit '', '') (map node_str ns))"
  then have "c \<in> {44, 32} \<or> (\<exists>n \<in> set ns. c \<in> set (node_str n))"
    using set_join [of "lit '', ''" "map node_str ns"] by (auto simp: text_eval)
  with assms show "c \<noteq> BAR \<and> c \<noteq> 10"
    by (auto dest!: node_str_chars simp: is_ascii_digit_def)
qed

lemma row_cells_plain:
  assumes "row_wf row" "evidence_ok evidence" "c \<in> set (row_cells row status evidence)"
  shows "trimmed c \<and> BAR \<notin> set c \<and> 10 \<notin> set c"
proof -
  have ev: "trimmed e \<and> BAR \<notin> set e \<and> 10 \<notin> set e"
    if "e = (case evidence of None \<Rightarrow> [] | Some loc \<Rightarrow> show_locator loc)" for e
    using assms(2) that locator_text_edges by (auto simp: evidence_ok_def trimmed_def split: option.splits)
  have nid: "trimmed (node_str (row_id row)) \<and> BAR \<notin> set (node_str (row_id row)) \<and> 10 \<notin> set (node_str (row_id row))"
    using assms(1) node_str_chars [of "row_id row" BAR] node_str_chars [of "row_id row" 10]
      node_str_trimmed [of "row_id row"]
    by (auto simp: row_wf_def is_ascii_digit_def)
  show ?thesis
    using assms(1,3) ev nid spelling_plain show_nat_plain needs_plain [of "row_needs row"]
    by (auto simp: row_cells_def row_wf_def)
qed

lemma draw_row_reads_back:
  assumes "row_wf row" "evidence_ok evidence"
  shows "split_table_row (draw_row row status evidence) = Some (row_cells row status evidence)"
    and "10 \<notin> set (draw_row row status evidence)"
proof -
  show "split_table_row (draw_row row status evidence) = Some (row_cells row status evidence)"
    unfolding draw_row_cells using row_cells_plain [OF assms]
    by (intro split_draw_cells) (auto simp: row_cells_def)
  have "10 \<notin> set (join_with (lit '' | '') (row_cells row status evidence))"
    using set_join [of "lit '' | ''" "row_cells row status evidence"] row_cells_plain [OF assms]
    by (auto simp: bar_lits)
  then show "10 \<notin> set (draw_row row status evidence)"
    by (simp add: draw_row_cells draw_cells_def bar_lits)
qed

lemma row_cells_body: "row_wf row \<Longrightarrow> body_row (row_cells row status evidence)"
proof -
  assume "row_wf row"
  then obtain c s where "node_str (row_id row) = c # s" "c = NDOT \<or> is_ascii_digit c"
    using node_str_not_Nil node_str_chars by (metis row_wf_def list.exhaust list.set_intros(1))
  then show ?thesis
    by (auto simp: body_row_def row_cells_def ROADMAP_COLUMNS_def is_separator_def is_ascii_digit_def)
qed


section \<open>Rows that come out of a table\<close>

lemma split_table_row_cells:
  assumes "split_table_row l = Some cells" "c \<in> set cells"
  shows "trimmed c \<and> BAR \<notin> set c \<and> set c \<subseteq> set l"
proof -
  from assms(1) obtain rest inner where r: "trim l = BAR # rest" "rest = inner @ [BAR]"
    "cells = map trim (split_on BAR inner)"
    by (auto simp: split_table_row_def Let_def strip_prefix_Some strip_suffix_Some
        split: if_splits bind_splits)
  with assms(2) obtain p where p: "c = trim p" "p \<in> set (split_on BAR inner)" by auto
  have "BAR \<notin> set p" "set p \<subseteq> set inner" using p(2) by (auto dest: split_on_pieces set_split_on)
  moreover have "set inner \<subseteq> set (trim l)" using r by auto
  ultimately show ?thesis
    using p(1) set_trim [of p] set_trim [of l] trimmed_trim [of p] by auto
qed

lemma read_needs_wf: "read_needs parts = Inr ns \<Longrightarrow> \<forall>n \<in> set ns. node_wf n"
proof (induction parts arbitrary: ns)
  case (Cons p ps)
  show ?case
  proof (cases "trim p = []")
    case True
    with Cons show ?thesis by simp
  next
    case False
    then obtain n ms where "ns = n # ms" "node_parse (trim p) = Inr n" "read_needs ps = Inr ms"
      using Cons.prems by (cases "node_parse (trim p)") (auto simp: Let_def result_simps)
    with Cons.IH show ?thesis by (auto simp: node_parse_Inr)
  qed
qed simp

lemma read_row_Inr:
  assumes "read_row cells = Inr row"
  obtains index_cell item_cell rest where "cells = index_cell # item_cell # rest"
    "node_parse index_cell = Inr (row_id row)" "row_item row = item_cell"
    "row_weight row \<le> u32_max" "\<forall>n \<in> set (row_needs row). node_wf n"
proof -
  obtain a b c d e f g where cells: "cells = a # b # c # d # e # f # g"
    using assms by (auto simp: read_row_def split: list.splits)
  obtain nid w ns where p: "map_err err_subject (node_parse a) = Inr nid"
    "(if c = [] then Inr 1 else ok_or (lit ''weight `'' @ c @ lit ''` is not a number'') (parse_uint u32_max c)) = Inr w"
    "read_needs (split_on 44 d) = Inr ns"
    "row_id row = nid" "row_item row = b" "row_weight row = w" "row_needs row = ns"
    using assms unfolding cells read_row_def by (auto simp: and_then_eq_Inr)
  have "node_parse a = Inr nid" using p(1) by (cases "node_parse a") simp_all
  moreover have "w \<le> u32_max"
    using p(2) parse_uint_bound [of u32_max c] by (cases "parse_uint u32_max c") (auto simp: u_defs split: if_splits)
  ultimately show ?thesis using that cells p read_needs_wf by auto
qed

lemma read_row_names: "read_row cells = Inr row \<Longrightarrow> names_row nid cells \<longleftrightarrow> row_id row = nid"
  by (erule read_row_Inr) (auto simp: names_row_def)

lemma collect_ok_mem: "collect_ok f xs = Inr ys \<Longrightarrow> y \<in> set ys \<Longrightarrow> \<exists>x \<in> set xs. f x = Inr y"
  by (induction xs arbitrary: ys) (auto simp: result_simps)

lemma table_reading_line:
  assumes "table_reading tab = Some rows" "row \<in> set rows"
  shows "\<exists>l \<in> set tab. body_row (cells_of l) \<and> read_row (cells_of l) = Inr row"
proof -
  have six: "\<forall>l \<in> set tab. length (cells_of l) = ROADMAP_COLUMNS" "tab \<noteq> []"
    using assms(1) by (auto simp: table_reading_def split: if_splits)
  obtain cells where c: "cells \<in> set (body_cells (tl tab))" "read_row cells = Inr row"
    using assms collect_ok_mem [of read_row "body_cells (tl tab)" rows row]
    by (auto simp: table_reading_def split: if_splits sum.splits)
  then obtain l where "l \<in> set (tl tab)" "cells = cells_of l" "\<not> is_separator cells"
    by (auto simp: body_cells_def)
  then show ?thesis using c(2) six list.set_sel(2) [of tab l] by (auto simp: body_row_def)
qed

lemma table_reading_wf:
  assumes "table_reading tab = Some rows" "row \<in> set rows" "\<forall>l \<in> set tab. 10 \<notin> set l \<and> is_row l"
  shows "row_wf row"
proof -
  obtain cells where "cells \<in> set (body_cells (tl tab))" "read_row cells = Inr row"
    using assms(1,2) collect_ok_mem [of read_row "body_cells (tl tab)" rows row]
    by (auto simp: table_reading_def split: if_splits sum.splits)
  then obtain l where l: "l \<in> set tab" "read_row (cells_of l) = Inr row"
    by (auto simp: body_cells_def dest: list.set_sel(2) [rotated])
      (metis list.sel(2) list.set_sel(2) tl_Nil)
  then have row: "split_table_row l = Some (cells_of l)" "10 \<notin> set l"
    using assms(3) by (auto simp: is_row_cells)
  from l(2) show ?thesis
  proof (rule read_row_Inr)
    fix a b rest
    assume "cells_of l = a # b # rest" "node_parse a = Inr (row_id row)" "row_item row = b"
      "row_weight row \<le> u32_max" "\<forall>n \<in> set (row_needs row). node_wf n"
    then show "row_wf row"
      using split_table_row_cells [OF row(1), of b] row(2) by (auto simp: row_wf_def node_parse_Inr)
  qed
qed

section \<open>Changing one row\<close>

definition put :: "(rstr list \<Rightarrow> rstr option) \<Rightarrow> rstr \<Rightarrow> rstr" where
  "put chosen l =
     (if body_row (cells_of l) then case chosen (cells_of l) of Some r \<Rightarrow> r | None \<Rightarrow> l else l)"

lemma rewrite_lines_over: "rewrite_lines chosen it True ls = ls"
  by (induction ls arbitrary: it) (simp_all add: Let_def)

lemma rewrite_lines_before:
  "\<forall>l \<in> set a. \<not> is_row l \<Longrightarrow> rewrite_lines chosen False False (a @ z) = a @ rewrite_lines chosen False False z"
  by (induction a) (simp_all add: Let_def is_row_def)

lemma rewrite_lines_table:
  "\<forall>l \<in> set tab. is_row l \<Longrightarrow>
     rewrite_lines chosen it False (tab @ z) =
       map (put chosen) tab @ rewrite_lines chosen (it \<or> tab \<noteq> []) False z"
proof (induction tab arbitrary: it)
  case (Cons l tab)
  then have "split_table_row l = Some (cells_of l)" by (simp add: is_row_cells)
  with Cons show ?case by (simp add: Let_def put_def)
qed simp

lemma rewrite_lines_after: "z = [] \<or> \<not> is_row (hd z) \<Longrightarrow> rewrite_lines chosen True False z = z"
  by (cases z) (auto simp: Let_def is_row_def rewrite_lines_over)

lemma rewrite_parts:
  "rewrite_lines chosen False False ps =
     before_table ps @ map (put chosen) (table_lines ps) @ after_table ps"
proof -
  have "rewrite_lines chosen False False (before_table ps @ table_lines ps @ after_table ps) =
      before_table ps @ map (put chosen) (table_lines ps) @
        rewrite_lines chosen (table_lines ps \<noteq> []) False (after_table ps)"
    by (simp add: rewrite_lines_before rewrite_lines_table before_table_rows table_lines_rows)
  moreover have "rewrite_lines chosen (table_lines ps \<noteq> []) False (after_table ps) = after_table ps"
    using no_table_no_rest [of ps] after_table_hd [of ps]
    by (cases "table_lines ps = []") (simp_all add: rewrite_lines_after)
  ultimately show ?thesis by (simp only: parts)
qed

lemma collect_ok_map_upd:
  assumes "collect_ok f xs = Inr ys" "\<And>x y. f x = Inr y \<Longrightarrow> f (g x) = Inr (h y)"
  shows "collect_ok f (map g xs) = Inr (map h ys)"
  using assms(1) by (induction xs arbitrary: ys) (auto simp: result_simps assms(2))

lemma table_reading_put:
  assumes rd: "table_reading tab = Some rows"
    and R: "split_table_row R = Some rc" "body_row rc" "read_row rc = Inr new"
  shows "table_reading (map (put (\<lambda>cells. if names_row nid cells then Some R else None)) tab) =
     Some (map (\<lambda>r. if row_id r = nid then new else r) rows)"
proof -
  let ?ch = "\<lambda>cells. if names_row nid cells then Some R else None"
  let ?g = "\<lambda>c. if names_row nid c then rc else c"
  have all6: "\<forall>l \<in> set tab. length (cells_of l) = ROADMAP_COLUMNS" and ne: "tab \<noteq> []"
    and ok: "collect_ok read_row (body_cells (tl tab)) = Inr rows"
    using rd by (auto simp: table_reading_def split: if_splits sum.splits)
  have Rc: "cells_of R = rc" using R(1) by (simp add: cells_of_def)
  have rc: "length rc = ROADMAP_COLUMNS" "\<not> is_separator rc" using R(2) by (auto simp: body_row_def)
  have put: "cells_of (put ?ch l) = (if is_separator (cells_of l) then cells_of l else ?g (cells_of l))"
    if "length (cells_of l) = ROADMAP_COLUMNS" for l
    using that by (simp add: put_def Rc body_row_def)
  have body: "body_cells (map (put ?ch) ls) = map ?g (body_cells ls)"
    if "\<forall>l \<in> set ls. length (cells_of l) = ROADMAP_COLUMNS" for ls
    using that by (induction ls) (simp_all add: body_cells_def put rc)
  have "collect_ok read_row (map ?g (body_cells (tl tab))) =
      Inr (map (\<lambda>r. if row_id r = nid then new else r) rows)"
    by (rule collect_ok_map_upd [OF ok]) (auto simp: read_row_names R(3))
  moreover have "body_cells (tl (map (put ?ch) tab)) = map ?g (body_cells (tl tab))"
    using all6 ne body [of "tl tab"] by (cases tab) simp_all
  moreover have "\<forall>l \<in> set (map (put ?ch) tab). length (cells_of l) = ROADMAP_COLUMNS"
    using all6 rc(1) by (auto simp: put)
  ultimately show ?thesis using ne by (simp add: table_reading_def)
qed

lemma put_rows:
  "is_row R \<Longrightarrow> is_row l \<Longrightarrow> is_row (put (\<lambda>cells. if names_row nid cells then Some R else None) l)"
  by (simp add: put_def)

lemma parts_subset:
  "set (before_table ps) \<subseteq> set ps" "set (table_lines ps) \<subseteq> set ps" "set (after_table ps) \<subseteq> set ps"
proof -
  have "set ps = set (before_table ps) \<union> set (table_lines ps) \<union> set (after_table ps)"
    by (subst parts [of ps, symmetric]) (simp only: set_append Un_assoc)
  then show "set (before_table ps) \<subseteq> set ps" "set (table_lines ps) \<subseteq> set ps"
    "set (after_table ps) \<subseteq> set ps" by blast+
qed

lemma pieces_no_newline: "p \<in> set (split_on 10 txt) \<Longrightarrow> 10 \<notin> set p"
  by (rule split_on_pieces)

lemma shape_row_wf:
  assumes "check_roadmap_shape txt = WellFormed rows" "row \<in> set rows"
  shows "row_wf row"
proof -
  have "10 \<notin> set l \<and> is_row l" if "l \<in> set (table_lines (split_on 10 txt))" for l
    using that parts_subset [of "split_on 10 txt"] pieces_no_newline table_lines_rows by blast
  then show ?thesis
    using assms by (intro table_reading_wf [of "table_lines (split_on 10 txt)" rows])
      (auto simp: check_roadmap_shape_WellFormed)
qed

lemma well_formed_Inr: "well_formed txt a = Inr rows \<longleftrightarrow> check_roadmap_shape txt = WellFormed rows"
  by (simp add: well_formed_def split: roadmap_shape.split)

lemma set_roadmap_status_Inr:
  "set_roadmap_status txt nid status evidence = Inr out \<longleftrightarrow>
     \<not> (status = Done \<and> evidence = None) \<and>
     (\<exists>rows row. check_roadmap_shape txt = WellFormed rows \<and> find (\<lambda>r. row_id r = nid) rows = Some row \<and>
        out = rewrite txt (\<lambda>cells. if names_row nid cells then Some (draw_row row status evidence) else None))"
proof (cases "status = Done \<and> evidence = None")
  case False
  have ok: "ok_or e v = Inr x \<longleftrightarrow> v = Some x" for e :: ax_error and v :: "roadmap_row option" and x
    by (cases v) simp_all
  from False show ?thesis
    unfolding set_roadmap_status_def by (simp add: and_then_eq_Inr well_formed_Inr ok Let_def) blast
qed (simp add: set_roadmap_status_def)

lemma rewrite_row_lines:
  assumes shape: "check_roadmap_shape txt = WellFormed rows"
    and R: "is_row R" "10 \<notin> set R"
    and out: "out = rewrite txt (\<lambda>cells. if names_row nid cells then Some R else None)"
  defines "change \<equiv> put (\<lambda>cells. if names_row nid cells then Some R else None)"
  shows "split_on 10 out = before_table (split_on 10 txt) @
      map change (table_lines (split_on 10 txt)) @ after_table (split_on 10 txt)"
    and "table_lines (split_on 10 out) = map change (table_lines (split_on 10 txt))"
proof -
  let ?ps = "split_on 10 txt"
  have ne: "table_lines ?ps \<noteq> []"
    using shape by (auto simp: check_roadmap_shape_WellFormed table_reading_def)
  let ?out = "before_table ?ps @ map change (table_lines ?ps) @ after_table ?ps"
  have "10 \<notin> set p" if "p \<in> set ?out" for p
  proof -
    have put: "change l = l \<or> change l = R" for l by (simp add: change_def put_def)
    from that consider "p \<in> set (before_table ?ps)" | "p \<in> set (after_table ?ps)"
      | l where "l \<in> set (table_lines ?ps)" "p = change l"
      by (auto simp only: set_append set_map Un_iff image_iff)
    then have "p \<in> set ?ps \<or> p = R"
      using parts_subset [of ?ps] put by cases (blast, blast, metis subsetD)
    with R(2) pieces_no_newline show ?thesis by blast
  qed
  then show lines: "split_on 10 out = ?out"
    unfolding out rewrite_def rewrite_parts change_def using ne by (intro split_join) auto
  show "table_lines (split_on 10 out) = map change (table_lines ?ps)"
    unfolding lines
  proof (rule table_lines_unique)
    show "\<forall>l \<in> set (map change (table_lines ?ps)). is_row l"
      unfolding change_def using put_rows [OF R(1)] table_lines_rows
      by (simp only: set_map ball_simps) blast
  qed (use ne before_table_rows after_table_hd in auto)
qed

lemma set_roadmap_status_lines:
  assumes shape: "check_roadmap_shape txt = WellFormed rows"
    and row: "row \<in> set rows" and ev: "evidence_ok evidence"
    and out: "out = rewrite txt (\<lambda>cells. if names_row nid cells then Some (draw_row row status evidence) else None)"
  shows "split_on 10 out = before_table (split_on 10 txt) @
      map (put (\<lambda>cells. if names_row nid cells then Some (draw_row row status evidence) else None))
        (table_lines (split_on 10 txt)) @ after_table (split_on 10 txt)"
    and "check_roadmap_shape out = WellFormed (map (\<lambda>r. if row_id r = nid
      then row\<lparr>row_status := status, row_evidence := evidence_of evidence\<rparr> else r) rows)"
proof -
  let ?R = "draw_row row status evidence"
  have wf: "row_wf row" by (rule shape_row_wf [OF shape row])
  have R: "split_table_row ?R = Some (row_cells row status evidence)" "10 \<notin> set ?R"
    by (rule draw_row_reads_back [OF wf ev])+
  then have "is_row ?R" by (simp add: is_row_def)
  note re = rewrite_row_lines [OF shape this R(2) out]
  show "split_on 10 out = before_table (split_on 10 txt) @
      map (put (\<lambda>cells. if names_row nid cells then Some (draw_row row status evidence) else None))
        (table_lines (split_on 10 txt)) @ after_table (split_on 10 txt)" by (rule re(1))
  have rd: "table_reading (table_lines (split_on 10 txt)) = Some rows"
    using shape by (simp add: check_roadmap_shape_WellFormed)
  show "check_roadmap_shape out = WellFormed (map (\<lambda>r. if row_id r = nid
      then row\<lparr>row_status := status, row_evidence := evidence_of evidence\<rparr> else r) rows)"
    unfolding check_roadmap_shape_WellFormed re(2)
    using table_reading_put [OF rd R(1) row_cells_body [OF wf] read_row_cells [OF wf ev]] by simp
qed


section \<open>Inserting rows\<close>

lemma insert_enumerate:
  "concat (map (\<lambda>(n, line). if n = k then line # drawn else [line]) (List.enumerate m ps)) =
     (if m \<le> k \<and> k < m + length ps
      then take (Suc (k - m)) ps @ drawn @ drop (Suc (k - m)) ps else ps)"
proof (induction ps arbitrary: m)
  case (Cons p ps)
  show ?case
  proof (cases "m = k")
    case True
    with Cons [of "Suc m"] show ?thesis by simp
  next
    case False
    with Cons [of "Suc m"] show ?thesis
      by (auto simp: Suc_diff_Suc le_less not_less)
  qed
qed auto

lemma locate_before:
  "\<forall>l \<in> set a. \<not> is_row l \<Longrightarrow> fold locate_step (List.enumerate m a) (None, False) = (None, False)"
  by (induction a arbitrary: m) (simp_all add: is_row_def)

lemma locate_in_table:
  "\<forall>l \<in> set tab. is_row l \<Longrightarrow>
   fold locate_step (List.enumerate m tab) (Some (f, e), False) =
     (Some (f, if tab = [] then e else m + length tab - 1), False)"
  by (induction tab arbitrary: m e) (auto simp: is_row_def)

lemma locate_over: "fold locate_step xs (v, True) = (v, True)"
  by (induction xs) auto

lemma locate_table_parts:
  "locate_table txt =
     (let ps = split_on 10 txt; b = length (before_table ps); tab = table_lines ps in
      if tab = [] then None else Some (b, b + length tab - 1))"
proof -
  let ?ps = "split_on 10 txt"
  let ?b = "before_table ?ps" and ?t = "table_lines ?ps" and ?z = "after_table ?ps"
  have run: "locate_table txt = fst (fold locate_step (List.enumerate (length ?b + length ?t) ?z)
      (fold locate_step (List.enumerate (length ?b) ?t) (None, False)))"
    unfolding locate_table_def
    by (subst (1) parts [of ?ps, symmetric])
      (simp add: enumerate_append_eq locate_before before_table_rows)
  show ?thesis
  proof (cases ?t)
    case Nil
    with run no_table_no_rest [OF Nil] show ?thesis by simp
  next
    case (Cons l ls)
    have "fold locate_step (List.enumerate (length ?b) ?t) (None, False) =
        fold locate_step (List.enumerate (Suc (length ?b)) ls) (Some (length ?b, length ?b), False)"
      using table_lines_rows [of l ?ps] Cons by (auto simp: is_row_def)
    also have "\<dots> = (Some (length ?b, length ?b + length ?t - 1), False)"
      using table_lines_rows [of _ ?ps] Cons by (subst locate_in_table) auto
    finally have "fold locate_step (List.enumerate (length ?b) ?t) (None, False) =
        (Some (length ?b, length ?b + length ?t - 1), False)" .
    moreover have "fst (fold locate_step (List.enumerate n ?z) (Some v, False)) = Some v" for n v
      using after_table_hd [of ?ps] by (cases ?z) (auto simp: is_row_def locate_over)
    ultimately show ?thesis using run Cons by (simp add: Let_def)
  qed
qed

lemma table_reading_append:
  assumes "table_reading tab = Some rows" "k < length tab"
    and new: "\<forall>l \<in> set ls. is_row l \<and> body_row (cells_of l)"
    and rd: "collect_ok read_row (map cells_of ls) = Inr added"
  shows "\<exists>j \<le> length rows.
     table_reading (take (Suc k) tab @ ls @ drop (Suc k) tab) = Some (take j rows @ added @ drop j rows) \<and>
     collect_ok read_row (body_cells (drop (Suc k) tab)) = Inr (drop j rows)"
proof -
  have all6: "\<forall>l \<in> set tab. length (cells_of l) = ROADMAP_COLUMNS" and ne: "tab \<noteq> []"
    and ok: "collect_ok read_row (body_cells (tl tab)) = Inr rows"
    using assms(1) by (auto simp: table_reading_def split: if_splits sum.splits)
  have app: "collect_ok read_row (xs @ ys) =
      and_then (collect_ok read_row xs) (\<lambda>a. and_then (collect_ok read_row ys) (\<lambda>b. Inr (a @ b)))" for xs ys
    by (induction xs) (auto simp: and_then_def split: sum.splits)
  have bapp: "body_cells (xs @ ys) = body_cells xs @ body_cells ys" for xs ys
    by (simp add: body_cells_def)
  have new_body: "body_cells ls = map cells_of ls"
    using new unfolding body_cells_def by (intro filter_True) (auto simp: body_row_def)
  have "tl tab = take k (tl tab) @ drop (Suc k) tab"
    by (metis append_take_drop_id drop_Suc)
  then have "collect_ok read_row (body_cells (take k (tl tab)) @ body_cells (drop (Suc k) tab)) = Inr rows"
    using ok bapp by metis
  then obtain r1 r2 where r: "collect_ok read_row (body_cells (take k (tl tab))) = Inr r1"
    "collect_ok read_row (body_cells (drop (Suc k) tab)) = Inr r2" "rows = r1 @ r2"
    by (auto simp: app and_then_eq_Inr)
  have tl: "tl (take (Suc k) tab @ ls @ drop (Suc k) tab) = take k (tl tab) @ ls @ drop (Suc k) tab"
    using ne by (cases tab) simp_all
  have "collect_ok read_row (body_cells (take k (tl tab) @ ls @ drop (Suc k) tab)) = Inr (r1 @ added @ r2)"
    by (simp add: bapp app new_body r(1,2) rd)
  moreover have "\<forall>l \<in> set (take (Suc k) tab @ ls @ drop (Suc k) tab). length (cells_of l) = ROADMAP_COLUMNS"
    using all6 new by (auto simp: body_row_def dest: in_set_takeD in_set_dropD)
  ultimately have "table_reading (take (Suc k) tab @ ls @ drop (Suc k) tab) = Some (r1 @ added @ r2)"
    unfolding table_reading_def tl using ne by simp
  with r show ?thesis by (intro exI [of _ "length r1"]) simp
qed

lemma insert_after_reads:
  assumes shape: "check_roadmap_shape txt = WellFormed rows"
    and loc: "locate_table txt = Some (first, last_line)" "first \<le> seam" "seam \<le> last_line"
    and new: "\<forall>l \<in> set ls. is_row l \<and> body_row (cells_of l) \<and> 10 \<notin> set l"
    and rd: "collect_ok read_row (map cells_of ls) = Inr added"
  shows "\<exists>j \<le> length rows.
     check_roadmap_shape (insert_after txt seam ls) = WellFormed (take j rows @ added @ drop j rows) \<and>
     collect_ok read_row (body_cells (drop (Suc (seam - first)) (table_lines (split_on 10 txt)))) =
       Inr (drop j rows)"
proof -
  let ?ps = "split_on 10 txt"
  let ?b = "before_table ?ps" and ?t = "table_lines ?ps" and ?z = "after_table ?ps"
  have tr: "table_reading ?t = Some rows" using shape by (simp add: check_roadmap_shape_WellFormed)
  then have ne: "?t \<noteq> []" by (auto simp: table_reading_def)
  with loc have fl: "first = length ?b" "last_line = length ?b + length ?t - 1"
    by (auto simp: locate_table_parts Let_def)
  define k where "k = seam - first"
  have k: "seam = length ?b + k" "k < length ?t" using loc fl ne by (auto simp: k_def) (cases ?t; simp)
  let ?tab = "take (Suc k) ?t @ ls @ drop (Suc k) ?t"
  have "length ?ps = length ?b + length ?t + length ?z" by (metis parts length_append add.assoc)
  then have seam: "seam < length ?ps" using k by simp
  have "take (Suc seam) ?ps @ ls @ drop (Suc seam) ?ps = ?b @ ?tab @ ?z"
    using k by (subst (1 2) parts [of ?ps, symmetric]) simp
  then have out: "insert_after txt seam ls = join_with [10] (?b @ ?tab @ ?z)"
    unfolding insert_after_def insert_enumerate using seam by simp
  have nl: "10 \<notin> set p" if "p \<in> set (?b @ ?tab @ ?z)" for p
  proof -
    from that have "p \<in> set ?ps \<or> p \<in> set ls"
      using parts_subset [of ?ps] by (auto dest!: in_set_takeD in_set_dropD)
    with new pieces_no_newline show ?thesis by blast
  qed
  have lines: "split_on 10 (insert_after txt seam ls) = ?b @ ?tab @ ?z"
    unfolding out using nl ne by (intro split_join) auto
  have "table_lines (?b @ ?tab @ ?z) = ?tab"
  proof (rule table_lines_unique)
    show "\<forall>l \<in> set ?tab. is_row l"
      using new table_lines_rows [of _ ?ps] by (auto dest!: in_set_takeD in_set_dropD)
  qed (use ne before_table_rows after_table_hd in auto)
  moreover obtain j where "j \<le> length rows" "table_reading ?tab = Some (take j rows @ added @ drop j rows)"
    "collect_ok read_row (body_cells (drop (Suc k) ?t)) = Inr (drop j rows)"
    using table_reading_append [OF tr k(2) _ rd] new by blast
  ultimately show ?thesis
    unfolding check_roadmap_shape_WellFormed lines by (intro exI [of _ j]) (simp add: k_def)
qed


section \<open>New rows\<close>

definition child_row :: "node_id \<Rightarrow> new_child \<Rightarrow> roadmap_row" where
  "child_row nid c = \<lparr>row_id = nid, row_item = trim (child_item c), row_weight = child_weight c,
     row_needs = [], row_status = NotStarted, row_evidence = Empty\<rparr>"

text \<open>The items the table can hold: no line feed, and a weight of the width it is read with.\<close>

definition child_ok :: "new_child \<Rightarrow> bool" where
  "child_ok c \<longleftrightarrow> 10 \<notin> set (child_item c) \<and> child_weight c \<le> u32_max"

lemma draw_child_Inr:
  "draw_child nid c action = Inr line \<longleftrightarrow>
     trim (child_item c) \<noteq> [] \<and> BAR \<notin> set (child_item c) \<and> child_weight c \<noteq> 0 \<and>
     line = draw_row (child_row nid c) NotStarted None"
  by (auto simp: draw_child_def draw_row_def child_row_def Let_def bar_lits)

lemma child_row_wf:
  assumes "node_wf nid" "child_ok c" "BAR \<notin> set (child_item c)"
  shows "row_wf (child_row nid c)"
  using assms set_trim [of "child_item c"]
  by (auto simp: row_wf_def child_row_def child_ok_def trimmed_trim)

lemma drawn_child_reads:
  assumes "node_wf nid" "child_ok c" "draw_child nid c action = Inr line"
  shows "is_row line \<and> body_row (cells_of line) \<and> 10 \<notin> set line" "read_row (cells_of line) = Inr (child_row nid c)"
proof -
  have line: "line = draw_row (child_row nid c) NotStarted None" and wf: "row_wf (child_row nid c)"
    using assms child_row_wf by (auto simp: draw_child_Inr)
  have ev: "evidence_ok None" by (simp add: evidence_ok_def)
  note reads = draw_row_reads_back [OF wf ev, of NotStarted]
  then have cells: "cells_of line = row_cells (child_row nid c) NotStarted None"
    by (simp add: cells_of_def line)
  show "is_row line \<and> body_row (cells_of line) \<and> 10 \<notin> set line"
    unfolding cells using reads row_cells_body [OF wf] by (simp add: is_row_def line)
  show "read_row (cells_of line) = Inr (child_row nid c)"
    unfolding cells read_row_cells [OF wf ev] by (simp add: child_row_def evidence_of_def)
qed

text \<open>The rows a split hangs under a node: ordinals go on from the largest one there.\<close>

definition child_rows :: "node_id \<Rightarrow> nat \<Rightarrow> new_child list \<Rightarrow> roadmap_row list" where
  "child_rows parent_id m cs =
     map (\<lambda>(i, c). child_row (node_of (node_path parent_id @ [i])) c) (List.enumerate (Suc m) cs)"

lemma draw_children_reads:
  assumes "node_wf p" "\<forall>c \<in> set cs. child_ok c" "m + length cs \<le> u32_max"
    "draw_children p m cs = Inr ls"
  shows "(\<forall>l \<in> set ls. is_row l \<and> body_row (cells_of l) \<and> 10 \<notin> set l) \<and>
     collect_ok read_row (map cells_of ls) = Inr (child_rows p m cs)"
  using assms
proof (induction cs arbitrary: m ls)
  case Nil
  then show ?case by (simp add: child_rows_def)
next
  case (Cons c cs)
  have ord: "sat_add u32_max m (Suc 0) = Suc m" using Cons.prems(3) by (simp add: sat_add_def)
  obtain nid line ls' where d: "child p (Suc m) = Inr nid"
    "draw_child nid c (lit ''split a plan node'') = Inr line" "draw_children p (Suc m) cs = Inr ls'" "ls = line # ls'"
    using Cons.prems(4) by (auto simp: Let_def ord and_then_eq_Inr)
  have nid: "nid = node_of (node_path p @ [Suc m])" "node_wf nid"
    using d(1) child_Inr [OF Cons.prems(1)] node_parse_Inr by (auto simp: child_def)
  have "child_ok c" using Cons.prems(2) by simp
  note read = drawn_child_reads [OF nid(2) this d(2)]
  have "(\<forall>l \<in> set ls'. is_row l \<and> body_row (cells_of l) \<and> 10 \<notin> set l) \<and>
      collect_ok read_row (map cells_of ls') = Inr (child_rows p (Suc m) cs)"
    by (rule Cons.IH) (use Cons.prems d in auto)
  with read show ?case by (simp add: d(4) child_rows_def nid(1))
qed

definition last_ordinal_under :: "node_id \<Rightarrow> roadmap_row list \<Rightarrow> nat" where
  "last_ordinal_under p rows =
     fold max (map (\<lambda>row. ordinal (row_id row)) (filter (\<lambda>row. parent (row_id row) = Some p) rows)) 0"

lemma fold_max_ge: "x \<in> set xs \<or> x = a \<Longrightarrow> x \<le> fold max xs (a::nat)"
proof (induction xs arbitrary: a x)
  case (Cons y ys)
  show ?case
  proof (cases "x \<in> set ys")
    case False
    with Cons.prems have "x \<le> max y a" by auto
    also have "\<dots> \<le> fold max ys (max y a)" by (rule Cons.IH) simp
    finally show ?thesis by simp
  qed (use Cons.IH in simp)
qed simp

lemma seam_of_bounds:
  assumes "first \<le> last_line"
  shows "first \<le> seam_of p first last_line txt \<and> seam_of p first last_line txt \<le> last_line"
proof -
  let ?f = "\<lambda>(n, line) after. if first \<le> n \<and> n \<le> last_line \<and> family_line p line then Some n else after"
  let ?in = "\<lambda>v. case v of None \<Rightarrow> True | Some m \<Rightarrow> first \<le> m \<and> m \<le> last_line"
  have step: "?in (?f x v)" if "?in v" for x v using that by (cases x) simp
  have "?in (fold ?f xs v)" if "?in v" for xs v
    using that by (induction xs arbitrary: v) (simp, simp only: fold.simps comp_def step)
  from this [of None] have "?in (fold ?f (List.enumerate 0 (split_on 10 txt)) None)" by simp
  then show ?thesis
    unfolding seam_of_def using assms by (simp split: option.splits)
qed

lemma seam_of_last:
  assumes "n < length (split_on 10 txt)" "seam_of p first last_line txt < n" "n \<le> last_line" "first \<le> n"
  shows "\<not> family_line p (split_on 10 txt ! n)"
proof
  assume fam: "family_line p (split_on 10 txt ! n)"
  let ?f = "\<lambda>(n, line) after. if first \<le> n \<and> n \<le> last_line \<and> family_line p line then Some n else after"
  have up: "\<exists>m. fold ?f (List.enumerate k ls) a = Some m \<and> v \<le> m"
    if "a = Some v" "v < k" for k ls a v
    using that
  proof (induction ls arbitrary: k a v)
    case (Cons l ls)
    show ?case
    proof (cases "first \<le> k \<and> k \<le> last_line \<and> family_line p l")
      case True
      with Cons.IH [of "Some k" k "Suc k"] Cons.prems show ?thesis by fastforce
    next
      case False
      then have "?f (k, l) a = a" by auto
      with Cons.IH [of a v "Suc k"] Cons.prems show ?thesis by simp
    qed
  qed simp
  let ?ps = "split_on 10 txt"
  have ps: "?ps = take n ?ps @ ?ps ! n # drop (Suc n) ?ps" using assms(1) by (rule id_take_nth_drop)
  have "List.enumerate 0 ?ps =
      List.enumerate 0 (take n ?ps) @ (n, ?ps ! n) # List.enumerate (Suc n) (drop (Suc n) ?ps)"
    using assms(1) by (subst (1) ps) (simp add: enumerate_append_eq)
  then have "fold ?f (List.enumerate 0 ?ps) None =
      fold ?f (List.enumerate (Suc n) (drop (Suc n) ?ps)) (Some n)"
    using assms(3,4) fam by simp
  then obtain m where "fold ?f (List.enumerate 0 ?ps) None = Some m" "n \<le> m"
    using up [of "Some n" n "Suc n" "drop (Suc n) ?ps"] by auto
  with assms(2) show False by (simp add: seam_of_def)
qed


lemma roadmap_rows_wf:
  assumes "check_roadmap_shape txt = WellFormed rows" "row \<in> set rows"
  shows "row_wf row"
proof (rule table_reading_wf [OF _ assms(2)])
  show "table_reading (table_lines (split_on 10 txt)) = Some rows"
    using assms(1) by (simp add: check_roadmap_shape_WellFormed)
  show "\<forall>l \<in> set (table_lines (split_on 10 txt)). 10 \<notin> set l \<and> is_row l"
    using parts_subset(2) pieces_no_newline table_lines_rows by blast
qed

lemma family_line_row:
  assumes "is_row l" "body_row (cells_of l)" "read_row (cells_of l) = Inr r"
  shows "family_line p l \<longleftrightarrow> row_id r = p \<or> is_ancestor_of p (row_id r)"
  using assms(3)
proof (rule read_row_Inr)
  fix a b rest
  assume "cells_of l = a # b # rest" "node_parse a = Inr (row_id r)"
  with assms(1,2) show ?thesis by (simp add: family_line_def is_row_cells)
qed

lemma locate_table_order: "locate_table txt = Some (first, last_line) \<Longrightarrow> first \<le> last_line"
  by (cases "table_lines (split_on 10 txt)") (auto simp: locate_table_parts Let_def)

lemma after_seam_no_family:
  assumes shape: "check_roadmap_shape txt = WellFormed rows"
    and loc: "locate_table txt = Some (first, last_line)"
    and seam: "seam = seam_of p first last_line txt"
    and rd: "collect_ok read_row (body_cells (drop (Suc (seam - first)) (table_lines (split_on 10 txt)))) = Inr rs"
    and r: "r \<in> set rs"
  shows "row_id r \<noteq> p \<and> \<not> is_ancestor_of p (row_id r)"
proof -
  let ?ps = "split_on 10 txt"
  let ?b = "before_table ?ps" and ?t = "table_lines ?ps"
  have tr: "table_reading ?t = Some rows" using shape by (simp add: check_roadmap_shape_WellFormed)
  then have ne: "?t \<noteq> []" and all6: "\<forall>l \<in> set ?t. length (cells_of l) = ROADMAP_COLUMNS"
    by (auto simp: table_reading_def split: if_splits)
  with loc have fl: "first = length ?b" "last_line = length ?b + length ?t - 1"
    by (auto simp: locate_table_parts Let_def)
  then have "first \<le> last_line" using ne by (cases ?t) auto
  with seam have bounds: "first \<le> seam" using seam_of_bounds by blast
  obtain cells where "cells \<in> set (body_cells (drop (Suc (seam - first)) ?t))" "read_row cells = Inr r"
    using collect_ok_mem [OF rd r] by blast
  then obtain l where l: "l \<in> set (drop (Suc (seam - first)) ?t)" "read_row (cells_of l) = Inr r"
    "\<not> is_separator (cells_of l)"
    by (auto simp: body_cells_def)
  obtain i where "i < length (drop (Suc (seam - first)) ?t)" "l = drop (Suc (seam - first)) ?t ! i"
    using l(1) unfolding in_set_conv_nth by blast
  then have i: "Suc (seam - first) + i < length ?t" "l = ?t ! (Suc (seam - first) + i)" by simp_all
  define q where "q = Suc (seam - first) + i"
  define n where "n = first + q"
  have len: "length ?ps = length ?b + length ?t + length (after_table ?ps)"
    by (metis parts length_append add.assoc)
  have "?ps ! n = l"
  proof -
    have "?ps ! n = (?b @ ?t @ after_table ?ps) ! (length ?b + q)" by (simp only: parts n_def fl(1))
    also have "\<dots> = ?t ! q" using i(1) unfolding q_def [symmetric] by (simp add: nth_append)
    finally show ?thesis using i(2) by (simp add: q_def)
  qed
  moreover have "\<not> family_line p (?ps ! n)"
    by (rule seam_of_last [where first = first and last_line = last_line])
      (use seam i(1) bounds len fl in \<open>simp_all add: n_def q_def\<close>)
  moreover have "l \<in> set ?t" using l(1) by (rule in_set_dropD)
  ultimately show ?thesis
    using family_line_row [of l r p] l table_lines_rows [of l ?ps] all6 by (simp add: body_row_def)
qed

lemma child_rows_fresh:
  assumes "node_wf p" "\<forall>r \<in> set rows. node_wf (row_id r)" "last_ordinal_under p rows + length cs \<le> u32_max"
    "length (node_path p) < NODE_DEPTH_MAX"
  shows "distinct (map row_id (child_rows p (last_ordinal_under p rows) cs))"
    "r \<in> set rows \<Longrightarrow> row_id r \<notin> row_id ` set (child_rows p (last_ordinal_under p rows) cs)"
proof -
  let ?m = "last_ordinal_under p rows"
  have pw: "path_wf (node_path p)" "node_path p \<noteq> []" using assms(1) path_wf_node_path by (auto simp: path_wf_def)
  have ids: "map row_id (child_rows p ?m cs) = map (\<lambda>i. node_of (node_path p @ [i])) [Suc ?m..<Suc ?m + length cs]"
  proof -
    have "map row_id (child_rows p ?m cs) =
        map (\<lambda>i. node_of (node_path p @ [i])) (map fst (List.enumerate (Suc ?m) cs))"
      unfolding map_map child_rows_def by (intro map_cong refl) (auto simp: child_row_def)
    then show ?thesis by (simp only: map_fst_enumerate)
  qed
  have path: "node_path (node_of (node_path p @ [i])) = node_path p @ [i]" for i by simp
  show "distinct (map row_id (child_rows p ?m cs))"
    unfolding ids distinct_map by (auto simp: inj_on_def dest: arg_cong [of _ _ node_path])
  assume r: "r \<in> set rows"
  show "row_id r \<notin> row_id ` set (child_rows p ?m cs)"
  proof
    assume "row_id r \<in> row_id ` set (child_rows p ?m cs)"
    then obtain i where i: "i \<in> {Suc ?m..<Suc ?m + length cs}" "row_id r = node_of (node_path p @ [i])"
      using ids by (metis (no_types, lifting) image_iff list.set_map set_upt)
    have "parent (row_id r) = Some p" using i(2) pw assms(1) by (simp add: parent_of)
    moreover have "ordinal (row_id r) = i"
    proof -
      have "node_wf (row_id r)" using assms(2) r by blast
      from ordinal_path [OF this] show ?thesis by (simp add: i(2))
    qed
    ultimately have "i \<in> set (map (\<lambda>row. ordinal (row_id row)) (filter (\<lambda>row. parent (row_id row) = Some p) rows))"
      using r by auto
    then have "i \<le> ?m" unfolding last_ordinal_under_def by (intro fold_max_ge) simp
    with i(1) show False by simp
  qed
qed

lemma insert_children_Inr:
  assumes "insert_children txt p cs = Inr out"
  obtains rows first last_line drawn where "check_roadmap_shape txt = WellFormed rows"
    "cs \<noteq> []" "p \<in> row_id ` set rows" "draw_children p (last_ordinal_under p rows) cs = Inr drawn"
    "locate_table txt = Some (first, last_line)"
    "out = insert_after txt (seam_of p first last_line txt) drawn"
proof -
  have cs: "cs \<noteq> []" using assms by (auto simp: insert_children_def Let_def)
  then obtain rows where rows: "check_roadmap_shape txt = WellFormed rows"
    using assms by (auto simp: insert_children_def Let_def and_then_eq_Inr well_formed_Inr)
  then have wf: "well_formed txt (lit ''split a plan node'') = Inr rows" by (simp add: well_formed_Inr)
  have p: "list_ex (\<lambda>row. row_id row = p) rows"
    using assms cs wf by (auto simp: insert_children_def Let_def split: if_splits)
  then obtain drawn where d: "draw_children p (last_ordinal_under p rows) cs = Inr drawn"
    using assms cs wf by (auto simp: insert_children_def Let_def and_then_eq_Inr last_ordinal_under_def)
  with assms cs wf p obtain first last_line where "locate_table txt = Some (first, last_line)"
    "out = insert_after txt (seam_of p first last_line txt) drawn"
    by (auto simp: insert_children_def Let_def last_ordinal_under_def split: option.splits)
  with that rows cs p d show ?thesis by (auto simp: list_ex_iff)
qed

lemma draw_children_depth:
  "draw_children p m cs = Inr ls \<Longrightarrow> cs \<noteq> [] \<Longrightarrow> node_wf p \<Longrightarrow> length (node_path p) < NODE_DEPTH_MAX"
  by (cases cs) (auto simp: Let_def and_then_eq_Inr child_Inr)

lemma insert_children_reads:
  assumes shape: "check_roadmap_shape txt = WellFormed rows"
    and ok: "\<forall>c \<in> set cs. child_ok c" "last_ordinal_under p rows + length cs \<le> u32_max"
    and out: "insert_children txt p cs = Inr out"
  shows "\<exists>j \<le> length rows.
     check_roadmap_shape out =
       WellFormed (take j rows @ child_rows p (last_ordinal_under p rows) cs @ drop j rows) \<and>
     (\<forall>r \<in> set (drop j rows). row_id r \<noteq> p \<and> \<not> is_ancestor_of p (row_id r)) \<and>
     (distinct (map row_id rows) \<longrightarrow>
        distinct (map row_id (take j rows @ child_rows p (last_ordinal_under p rows) cs @ drop j rows)))"
proof -
  let ?new = "child_rows p (last_ordinal_under p rows) cs"
  obtain first last_line drawn where d: "p \<in> row_id ` set rows" "cs \<noteq> []"
    "draw_children p (last_ordinal_under p rows) cs = Inr drawn"
    "locate_table txt = Some (first, last_line)"
    "out = insert_after txt (seam_of p first last_line txt) drawn"
    by (rule insert_children_Inr [OF out]) (use shape in auto)
  have wf: "\<forall>r \<in> set rows. node_wf (row_id r)" using roadmap_rows_wf [OF shape] by (simp add: row_wf_def)
  with d(1) have p: "node_wf p" by auto
  let ?seam = "seam_of p first last_line txt"
  have "first \<le> last_line" using d(4) by (rule locate_table_order)
  then have seam: "first \<le> ?seam" "?seam \<le> last_line" using seam_of_bounds by blast+
  note drawn = draw_children_reads [OF p ok d(3)]
  obtain j where j: "j \<le> length rows"
    "check_roadmap_shape out = WellFormed (take j rows @ ?new @ drop j rows)"
    "collect_ok read_row (body_cells (drop (Suc (?seam - first)) (table_lines (split_on 10 txt)))) = Inr (drop j rows)"
    using insert_after_reads [OF shape d(4) seam _ conjunct2 [OF drawn]] drawn d(5) by blast
  have "distinct (map row_id (take j rows @ ?new @ drop j rows))" if dist: "distinct (map row_id rows)"
  proof -
    note fresh = child_rows_fresh [OF p wf ok(2) draw_children_depth [OF d(3,2) p]]
    have "distinct (map row_id (take j rows @ drop j rows))" using dist by simp
    moreover have "row_id ` set ?new \<inter> row_id ` set (take j rows) = {}"
      "row_id ` set ?new \<inter> row_id ` set (drop j rows) = {}"
    proof -
      have "row_id x \<notin> row_id ` set ?new" if "x \<in> set rows" for x by (rule fresh(2) [OF that])
      then show "row_id ` set ?new \<inter> row_id ` set (take j rows) = {}"
        "row_id ` set ?new \<inter> row_id ` set (drop j rows) = {}"
        unfolding disjoint_iff by (metis imageE in_set_takeD, metis imageE in_set_dropD)
    qed
    ultimately show ?thesis
      using fresh(1) by (simp add: Int_Un_distrib Int_commute del: append_take_drop_id)
  qed
  with j after_seam_no_family [OF shape d(4) refl j(3)] show ?thesis by blast
qed


lemma append_top_level_Inr:
  assumes "append_top_level txt nid c = Inr out"
  obtains rows first last_line drawn where "check_roadmap_shape txt = WellFormed rows"
    "parent nid = None" "nid \<notin> row_id ` set rows" "draw_child nid c (lit ''add a plan row'') = Inr drawn"
    "locate_table txt = Some (first, last_line)" "out = insert_after txt last_line [drawn]"
proof -
  have par: "parent nid = None" using assms by (auto simp: append_top_level_def Let_def split: if_splits)
  then obtain rows where rows: "check_roadmap_shape txt = WellFormed rows"
    using assms by (auto simp: append_top_level_def Let_def and_then_eq_Inr well_formed_Inr)
  then have wf: "well_formed txt (lit ''add a plan row'') = Inr rows" by (simp add: well_formed_Inr)
  have new: "\<not> list_ex (\<lambda>row. row_id row = nid) rows"
    using assms par wf by (auto simp: append_top_level_def Let_def split: if_splits)
  then obtain drawn where d: "draw_child nid c (lit ''add a plan row'') = Inr drawn"
    using assms par wf by (auto simp: append_top_level_def Let_def and_then_eq_Inr)
  with assms par wf new obtain first last_line where "locate_table txt = Some (first, last_line)"
    "out = insert_after txt last_line [drawn]"
    by (auto simp: append_top_level_def Let_def split: option.splits)
  with that rows par new d show ?thesis by (auto simp: list_ex_iff)
qed

lemma append_top_level_reads:
  assumes shape: "check_roadmap_shape txt = WellFormed rows"
    and wf: "node_wf nid" "child_ok c"
    and out: "append_top_level txt nid c = Inr out"
  shows "check_roadmap_shape out = WellFormed (rows @ [child_row nid c]) \<and> nid \<notin> row_id ` set rows"
proof -
  obtain first last_line drawn where d: "nid \<notin> row_id ` set rows"
    "draw_child nid c (lit ''add a plan row'') = Inr drawn"
    "locate_table txt = Some (first, last_line)" "out = insert_after txt last_line [drawn]"
    by (rule append_top_level_Inr [OF out]) (use shape in auto)
  note read = drawn_child_reads [OF wf d(2)]
  have fl: "last_line - first = length (table_lines (split_on 10 txt)) - 1"
    using d(3) by (cases "table_lines (split_on 10 txt)") (auto simp: locate_table_parts Let_def)
  obtain j where j: "j \<le> length rows"
    "check_roadmap_shape out = WellFormed (take j rows @ [child_row nid c] @ drop j rows)"
    "collect_ok read_row (body_cells (drop (Suc (last_line - first)) (table_lines (split_on 10 txt)))) = Inr (drop j rows)"
    using insert_after_reads [OF shape d(3) locate_table_order [OF d(3)] order_refl, of "[drawn]" "[child_row nid c]"]
      read d(4) by auto
  have "drop (Suc (last_line - first)) (table_lines (split_on 10 txt)) = []" using fl by simp
  with j(3) have "drop j rows = []" by (simp add: body_cells_def)
  with j(2) have "check_roadmap_shape out = WellFormed (rows @ [child_row nid c])" by simp
  with d(1) show ?thesis by blast
qed

lemma set_status_rows:
  assumes shape: "check_roadmap_shape txt = WellFormed rows"
    and dist: "distinct (map row_id rows)" and ev: "evidence_ok evidence"
    and out: "set_roadmap_status txt nid status evidence = Inr out"
  shows "check_roadmap_shape out = WellFormed (map (\<lambda>r. if row_id r = nid
       then r\<lparr>row_status := status, row_evidence := evidence_of evidence\<rparr> else r) rows)"
proof -
  obtain row where row: "find (\<lambda>r. row_id r = nid) rows = Some row"
    "out = rewrite txt (\<lambda>cells. if names_row nid cells then Some (draw_row row status evidence) else None)"
    using out shape by (auto simp: set_roadmap_status_Inr)
  then have r: "row \<in> set rows" "row_id row = nid" by (auto simp: find_Some_iff)
  have "r' = row" if "r' \<in> set rows" "row_id r' = nid" for r'
    using dist that r by (auto dest: inj_onD [OF distinct_map [THEN iffD1, THEN conjunct2]])
  then have "map (\<lambda>r. if row_id r = nid
       then row\<lparr>row_status := status, row_evidence := evidence_of evidence\<rparr> else r) rows =
    map (\<lambda>r. if row_id r = nid
       then r\<lparr>row_status := status, row_evidence := evidence_of evidence\<rparr> else r) rows" by auto
  then show ?thesis using set_roadmap_status_lines(2) [OF shape r(1) ev row(2)] r(2) by simp
qed

section \<open>Properties\<close>

text \<open>A locator with a column separator in it is written as it is, and the table it is written into
  does not read any more: the row has a column too many.\<close>

lemma drawn_columns:
  "split_table_row (draw_cells cells) = Some found \<Longrightarrow> cells \<noteq> [] \<Longrightarrow>
     length found = Suc (count_list (join_with [BAR] (map (\<lambda>c. 32 # c @ [32]) cells)) BAR)"
proof -
  let ?inner = "join_with [BAR] (map (\<lambda>c. 32 # c @ [32]) cells)"
  assume cells: "split_table_row (draw_cells cells) = Some found" "cells \<noteq> []"
  have line: "draw_cells cells = BAR # ?inner @ [BAR]"
    unfolding padded_join [OF cells(2), symmetric] by (simp add: draw_cells_def bar_lits)
  then have "trim (draw_cells cells) = BAR # ?inner @ [BAR]"
    by (intro trans [OF trim_trimmed]) (simp_all add: trimmed_def is_whitespace_def)
  moreover have "strip_suffix [BAR] (?inner @ [BAR]) = Some ?inner" by (simp add: strip_suffix_Some)
  moreover have "strip_prefix [BAR] (BAR # ?inner @ [BAR]) = Some (?inner @ [BAR])"
    by (simp add: strip_prefix_Some)
  moreover have "starts_with [BAR] (BAR # ?inner @ [BAR])" by (simp add: starts_with_def)
  ultimately have "found = map trim (split_on BAR ?inner)"
    using cells(1) by (simp add: split_table_row_def)
  then show ?thesis by (simp add: length_split_on)
qed

lemma drawn_is_row: "cells \<noteq> [] \<Longrightarrow> is_row (draw_cells cells)"
proof -
  let ?inner = "join_with [BAR] (map (\<lambda>c. 32 # c @ [32]) cells)"
  assume cells: "cells \<noteq> []"
  have line: "draw_cells cells = BAR # ?inner @ [BAR]"
    unfolding padded_join [OF cells, symmetric] by (simp add: draw_cells_def bar_lits)
  then have "trim (draw_cells cells) = BAR # ?inner @ [BAR]"
    by (intro trans [OF trim_trimmed]) (simp_all add: trimmed_def is_whitespace_def)
  moreover have "strip_suffix [BAR] (?inner @ [BAR]) = Some ?inner" by (simp add: strip_suffix_Some)
  moreover have "strip_prefix [BAR] (BAR # ?inner @ [BAR]) = Some (?inner @ [BAR])"
    by (simp add: strip_prefix_Some)
  ultimately show ?thesis by (simp add: is_row_def split_table_row_def starts_with_def)
qed

lemma barred_evidence_breaks_the_table:
  assumes shape: "check_roadmap_shape txt = WellFormed rows"
    and loc: "locator_wf loc" "BAR \<in> set (show_locator loc)"
    and out: "set_roadmap_status txt nid status (Some loc) = Inr out"
  shows "check_roadmap_shape out \<noteq> WellFormed rows'"
proof -
  obtain row where row: "find (\<lambda>r. row_id r = nid) rows = Some row"
    "out = rewrite txt (\<lambda>cells. if names_row nid cells then Some (draw_row row status (Some loc)) else None)"
    using out shape by (auto simp: set_roadmap_status_Inr)
  then have r: "row \<in> set rows" "row_id row = nid" by (auto simp: find_Some_iff)
  let ?R = "draw_row row status (Some loc)" and ?cells = "row_cells row status (Some loc)"
  have wf: "row_wf row" by (rule shape_row_wf [OF shape r(1)])
  have "10 \<notin> set (draw_row row status None)"
    by (rule draw_row_reads_back [OF wf]) (simp add: evidence_ok_def)
  then have nl: "10 \<notin> set ?R" using locator_text_edges [OF loc(1)] by (simp add: draw_row_def)
  have rowR: "is_row ?R" unfolding draw_row_cells by (rule drawn_is_row) (simp add: row_cells_def)
  note re = rewrite_row_lines [OF shape rowR nl row(2)]
  have "length (cells_of ?R) \<noteq> ROADMAP_COLUMNS"
  proof -
    have "count_list (show_locator loc) BAR \<noteq> 0" using loc(2) by (simp add: count_list_0_iff)
    then have "5 < count_list (join_with [BAR] (map (\<lambda>c. 32 # c @ [32]) ?cells)) BAR"
      by (simp add: row_cells_def count_list_append)
    then show ?thesis
      using rowR drawn_columns [of ?cells "cells_of ?R"]
      by (auto simp: draw_row_cells is_row_cells ROADMAP_COLUMNS_def row_cells_def)
  qed
  moreover have "?R \<in> set (table_lines (split_on 10 out))"
  proof -
    have rd: "table_reading (table_lines (split_on 10 txt)) = Some rows"
      using shape by (simp add: check_roadmap_shape_WellFormed)
    then obtain l where l: "l \<in> set (table_lines (split_on 10 txt))" "body_row (cells_of l)" "read_row (cells_of l) = Inr row"
      using table_reading_line [OF rd r(1)] by blast
    then have "put (\<lambda>cells. if names_row nid cells then Some ?R else None) l = ?R"
      using read_row_names [OF l(3), of nid] r(2) by (simp add: put_def)
    then show ?thesis unfolding re(2) using l(1) by force
  qed
  ultimately show ?thesis by (auto simp: check_roadmap_shape_WellFormed table_reading_def split: if_splits)
qed

text \<open>C36. A roadmap row survives being drawn and read: for every row that came out of a table,
  every status, and no evidence or a well-formed locator whose text has no column separator and,
  for a file, whose address has no \<open>#\<close>, the drawn line splits into six cells that read back as that
  row with that status and that evidence, and holds no line feed. The two restrictions on the
  locator are needed: a column separator in it leaves a table that does not read, and an address
  with a \<open>#\<close> in it is printed as a locator the grammar does not take back.\<close>

theorem roadmap_row_round_trip:
  assumes "check_roadmap_shape txt = WellFormed rows" "row \<in> set rows" "evidence_ok evidence"
  shows "(\<exists>cells. split_table_row (draw_row row status evidence) = Some cells \<and>
       read_row cells = Inr (row\<lparr>row_status := status, row_evidence := evidence_of evidence\<rparr>)) \<and>
     10 \<notin> set (draw_row row status evidence)"
proof -
  have wf: "row_wf row" by (rule roadmap_rows_wf [OF assms(1,2)])
  show ?thesis
    using draw_row_reads_back [OF wf assms(3)] read_row_cells [OF wf assms(3)] by blast
qed

text \<open>C37. A status change touches one row: on a table whose indices are distinct, and with no
  evidence or a well-formed locator whose text has no column separator and, for a file, whose
  address has no \<open>#\<close>, a successful \<open>set_roadmap_status\<close> gives a file whose table says the same
  rows with that row's status and evidence replaced, keeps the number of lines, and leaves every
  line that does not name the row as it was, byte for byte. The writer does not check the locator:
  for one with a column separator in it the file it gives no longer reads as a table at all.\<close>

theorem set_status_changes_one_row:
  assumes shape: "check_roadmap_shape txt = WellFormed rows"
    and dist: "distinct (map row_id rows)" and ev: "evidence_ok evidence"
    and out: "set_roadmap_status txt nid status evidence = Inr out"
  shows "check_roadmap_shape out = WellFormed (map (\<lambda>r. if row_id r = nid
       then r\<lparr>row_status := status, row_evidence := evidence_of evidence\<rparr> else r) rows) \<and>
     length (split_on 10 out) = length (split_on 10 txt) \<and>
     (\<forall>i < length (split_on 10 txt).
        split_on 10 out ! i = split_on 10 txt ! i \<or> names_row nid (cells_of (split_on 10 txt ! i)))"
proof -
  obtain row where row: "find (\<lambda>r. row_id r = nid) rows = Some row"
    "out = rewrite txt (\<lambda>cells. if names_row nid cells then Some (draw_row row status evidence) else None)"
    using out shape by (auto simp: set_roadmap_status_Inr)
  then have r: "row \<in> set rows" "row_id row = nid" by (auto simp: find_Some_iff)
  let ?put = "put (\<lambda>cells. if names_row nid cells then Some (draw_row row status evidence) else None)"
  let ?ps = "split_on 10 txt"
  note res = set_roadmap_status_lines [OF shape r(1) ev row(2)]
  have len: "length (split_on 10 out) = length ?ps"
    using res(1) by (metis length_append length_map parts)
  moreover have "split_on 10 out ! i = ?ps ! i \<or> names_row nid (cells_of (?ps ! i))" if "i < length ?ps" for i
  proof -
    have keep: "?put l = l \<or> names_row nid (cells_of l)" for l by (simp add: put_def)
    let ?all = "before_table ?ps @ table_lines ?ps @ after_table ?ps"
    have "(before_table ?ps @ map ?put (table_lines ?ps) @ after_table ?ps) ! i = ?all ! i \<or>
        names_row nid (cells_of (?all ! i))"
      using keep by (auto simp: nth_append)
    then show ?thesis by (simp only: res(1) parts)
  qed
  ultimately show ?thesis using set_status_rows [OF assms] by simp
qed

text \<open>C38. The one writer of statuses cannot mark a row done without evidence: it succeeds exactly
  on a readable table that carries the index, with evidence wherever the status is \<open>Done\<close>; without
  evidence it answers \<open>E_EVIDENCE_MISSING\<close>, and any other refusal is \<open>E_INVALID_ARGS\<close>.\<close>

theorem set_status_refuses_done_without_evidence:
  "case set_roadmap_status txt nid status evidence of
     Inr _ \<Rightarrow> \<not> (status = Done \<and> evidence = None) \<and>
       (\<exists>rows. check_roadmap_shape txt = WellFormed rows \<and> nid \<in> row_id ` set rows)
   | Inl e \<Rightarrow>
       if status = Done \<and> evidence = None then err_code e = EvidenceMissing
       else err_code e = InvalidArgs \<and>
         (\<nexists>rows. check_roadmap_shape txt = WellFormed rows \<and> nid \<in> row_id ` set rows)"
proof (cases "status = Done \<and> evidence = None")
  case True
  then show ?thesis by (simp add: set_roadmap_status_def)
next
  case False
  show ?thesis
  proof (cases "check_roadmap_shape txt")
    case (WellFormed rows)
    show ?thesis
    proof (cases "find (\<lambda>r. row_id r = nid) rows")
      case None
      then have "nid \<notin> row_id ` set rows" by (auto simp: find_None_iff)
      with None WellFormed False show ?thesis
        by (auto simp: set_roadmap_status_def well_formed_def)
    next
      case (Some row)
      then have "nid \<in> row_id ` set rows" by (auto simp: find_Some_iff)
      with Some WellFormed False show ?thesis
        by (auto simp: set_roadmap_status_def well_formed_def Let_def)
    qed
  next
    case (Malformed ps)
    with False show ?thesis by (auto simp: set_roadmap_status_def well_formed_def)
  qed
qed

text \<open>C39. Splitting a node keeps the plan: for children whose items hold no line feed and whose
  weights are \<open>u32\<close>, and while the largest ordinal under the node and the number of children
  together fit a \<open>u32\<close>, a successful \<open>insert_children\<close> gives a file whose
  table says all the old rows in their order and, in one block after the last row of that node's
  family, one fresh row per child, numbered on from the largest ordinal there, so that indices
  that were distinct stay distinct.\<close>

theorem insert_children_extends_plan:
  assumes "check_roadmap_shape txt = WellFormed rows"
    and "\<forall>c \<in> set cs. child_ok c" "last_ordinal_under p rows + length cs \<le> u32_max"
    and "insert_children txt p cs = Inr out"
  shows "\<exists>j \<le> length rows.
     check_roadmap_shape out =
       WellFormed (take j rows @ child_rows p (last_ordinal_under p rows) cs @ drop j rows) \<and>
     (\<forall>r \<in> set (drop j rows). row_id r \<noteq> p \<and> \<not> is_ancestor_of p (row_id r)) \<and>
     (distinct (map row_id rows) \<longrightarrow>
        distinct (map row_id (take j rows @ child_rows p (last_ordinal_under p rows) cs @ drop j rows)))"
  using assms by (rule insert_children_reads)

text \<open>C40. Adding a top-level row appends exactly that row: for a parsed index, an item that holds no
  line feed and a \<open>u32\<close> weight, a successful \<open>append_top_level\<close> gives a file whose table says the
  old rows and then the new one, under an index none of them had.\<close>

theorem append_top_level_appends:
  assumes "check_roadmap_shape txt = WellFormed rows" "node_wf nid" "child_ok c"
    and "append_top_level txt nid c = Inr out"
  shows "check_roadmap_shape out = WellFormed (rows @ [child_row nid c]) \<and> nid \<notin> row_id ` set rows"
  using assms by (rule append_top_level_reads)


section \<open>Sheets\<close>

text \<open>A file that holds the header and the drawn rows: what concrete plans are written as.\<close>

definition HEADER :: rstr where
  "HEADER = draw_cells [lit ''#'', lit ''Item'', lit ''Weight'', lit ''Needs'', lit ''Status'', lit ''Evidence'']"

definition cited :: "evidence_cell \<Rightarrow> locator option" where
  "cited e = (case e of Present loc \<Rightarrow> Some loc | _ \<Rightarrow> None)"

definition sheet :: "roadmap_row list \<Rightarrow> rstr" where
  "sheet rows = join_with [10]
     (HEADER # map (\<lambda>r. draw_row r (row_status r) (cited (row_evidence r))) rows)"

definition sheet_row :: "roadmap_row \<Rightarrow> bool" where
  "sheet_row r \<longleftrightarrow> row_wf r \<and> evidence_ok (cited (row_evidence r)) \<and>
     evidence_of (cited (row_evidence r)) = row_evidence r"

lemma HEADER_row: "split_table_row HEADER =
    Some [lit ''#'', lit ''Item'', lit ''Weight'', lit ''Needs'', lit ''Status'', lit ''Evidence'']"
  unfolding HEADER_def by (rule split_draw_cells) (simp_all add: text_eval trimmed_def is_whitespace_def)

lemma HEADER_no_newline: "10 \<notin> set HEADER"
  by (simp add: HEADER_def draw_cells_def text_eval)

lemma sheet_lines:
  assumes "\<forall>r \<in> set rows. sheet_row r"
  shows "split_on 10 (sheet rows) =
     HEADER # map (\<lambda>r. draw_row r (row_status r) (cited (row_evidence r))) rows"
  unfolding sheet_def using assms HEADER_no_newline
  by (intro split_join) (auto simp: sheet_row_def draw_row_reads_back(2))

lemma sheet_reads:
  assumes "\<forall>r \<in> set rows. sheet_row r"
  shows "check_roadmap_shape (sheet rows) = WellFormed rows"
proof -
  let ?d = "\<lambda>r. draw_row r (row_status r) (cited (row_evidence r))"
  have row: "is_row (?d r)" "cells_of (?d r) = row_cells r (row_status r) (cited (row_evidence r))"
    "body_row (cells_of (?d r))" "read_row (cells_of (?d r)) = Inr r" if "r \<in> set rows" for r
  proof -
    have r: "row_wf r" "evidence_ok (cited (row_evidence r))"
      "evidence_of (cited (row_evidence r)) = row_evidence r"
      using assms that by (auto simp: sheet_row_def)
    note back_row = draw_row_reads_back(1) [OF r(1,2), of "row_status r"]
    then show "is_row (?d r)" and cells: "cells_of (?d r) = row_cells r (row_status r) (cited (row_evidence r))"
      by (simp_all add: is_row_def cells_of_def)
    show "body_row (cells_of (?d r))" unfolding cells by (rule row_cells_body [OF r(1)])
    show "read_row (cells_of (?d r)) = Inr r"
      unfolding cells read_row_cells [OF r(1,2)] r(3) by simp
  qed
  have head: "is_row HEADER" "length (cells_of HEADER) = ROADMAP_COLUMNS"
    by (simp_all add: is_row_def cells_of_def HEADER_row ROADMAP_COLUMNS_def)
  have tab: "table_lines (split_on 10 (sheet rows)) = HEADER # map ?d rows"
    using table_lines_unique [of "[]" "HEADER # map ?d rows" "[]"] head row(1)
    by (simp add: sheet_lines [OF assms])
  have "body_cells (map ?d rows) = map (\<lambda>r. cells_of (?d r)) rows"
    unfolding body_cells_def map_map comp_def
    by (rule filter_True) (use row(3) in \<open>auto simp: body_row_def\<close>)
  moreover have "collect_ok read_row (map (\<lambda>r. cells_of (?d r)) rs) = Inr rs" if "set rs \<subseteq> set rows" for rs
    using that row(4) by (induction rs) auto
  ultimately have "table_reading (HEADER # map ?d rows) = Some rows"
    using head row(3) by (auto simp: table_reading_def body_row_def)
  then show ?thesis by (simp add: check_roadmap_shape_WellFormed tab)
qed

text \<open>Two rows of a small plan.\<close>

definition row_one :: roadmap_row where
  "row_one = \<lparr>row_id = node_of [2], row_item = lit ''frame'', row_weight = 1, row_needs = [],
     row_status = NotStarted, row_evidence = Empty\<rparr>"

definition row_two :: roadmap_row where
  "row_two = \<lparr>row_id = node_of [3], row_item = lit ''roof'', row_weight = 3, row_needs = [node_of [2]],
     row_status = NotStarted, row_evidence = Empty\<rparr>"

lemma node_wf_small: "node_wf (node_of [2])" "node_wf (node_of [3])"
  by (intro node_wf_of; simp add: path_wf_def NODE_DEPTH_MAX_def u_defs)+

lemma sheet_row_small: "sheet_row row_one" "sheet_row row_two"
  by (simp_all add: sheet_row_def row_wf_def row_one_def row_two_def node_wf_small trimmed_def
      is_whitespace_def text_eval u_defs evidence_ok_def evidence_of_def cited_def)

lemmas small_sheet = sheet_reads [of "[row_one, row_two]", simplified, OF conjI, OF sheet_row_small]

lemma small_ids: "row_id row_one = node_of [2]" "row_id row_two = node_of [3]"
  "node_of [2] \<noteq> node_of [3]"
  using node_path_of [of "[2]"] node_path_of [of "[3]"] by (auto simp: row_one_def row_two_def simp del: node_path_of)

theorem roadmap_row_round_trip_witness:
  "\<exists>cells. split_table_row (draw_row row_two Blocked None) = Some cells \<and>
     read_row cells = Inr (row_two\<lparr>row_status := Blocked, row_evidence := Empty\<rparr>)"
  using roadmap_row_round_trip [OF small_sheet, of row_two None Blocked]
  by (simp add: evidence_ok_def evidence_of_def)

theorem set_status_changes_one_row_witness:
  "\<exists>out. set_roadmap_status (sheet [row_one, row_two]) (node_of [2]) InProgress None = Inr out \<and>
     check_roadmap_shape out = WellFormed [row_one\<lparr>row_status := InProgress, row_evidence := Empty\<rparr>, row_two]"
proof -
  obtain out where out: "set_roadmap_status (sheet [row_one, row_two]) (node_of [2]) InProgress None = Inr out"
    using small_sheet small_ids by (auto simp: set_roadmap_status_def well_formed_def Let_def)
  have "distinct (map row_id [row_one, row_two])" "evidence_ok None"
    using small_ids by (simp_all add: evidence_ok_def)
  from set_status_changes_one_row [OF small_sheet this out] out small_ids show ?thesis
    by (simp add: evidence_of_def)
qed

definition wall :: new_child where
  "wall = \<lparr>child_item = lit ''wall'', child_weight = 2\<rparr>"

lemma wall_drawn: "node_wf nid \<Longrightarrow> child_ok wall \<and> (\<exists>line. draw_child nid wall action = Inr line)"
  by (simp add: wall_def child_ok_def draw_child_Inr text_eval u_defs)
    (simp add: trim_def trim_start_def trim_end_def is_whitespace_def)

lemma small_table: "\<exists>f l. locate_table (sheet [row_one, row_two]) = Some (f, l)"
  using small_sheet by (auto simp: check_roadmap_shape_WellFormed table_reading_def locate_table_parts Let_def
      split: if_splits)

theorem insert_children_extends_plan_witness:
  "\<exists>out. insert_children (sheet [row_one, row_two]) (node_of [2]) [wall] = Inr out \<and>
     (\<exists>rows. check_roadmap_shape out = WellFormed rows \<and> length rows = 3 \<and> distinct (map row_id rows))"
proof -
  have m: "last_ordinal_under (node_of [2]) [row_one, row_two] = 0"
    using small_ids by (simp add: last_ordinal_under_def parent_of)
  have c: "child (node_of [2]) (Suc 0) = Inr (node_of [2, Suc 0])"
    using child_Inr [OF node_wf_small(1), of "Suc 0" "node_of [2, Suc 0]"]
    by (simp add: u_defs NODE_DEPTH_MAX_def)
  then have wf: "node_wf (node_of [2, Suc 0])" by (auto simp: child_def node_parse_Inr)
  obtain line where "draw_child (node_of [2, Suc 0]) wall (lit ''split a plan node'') = Inr line"
    using wall_drawn [OF wf] by blast
  then have d: "draw_children (node_of [2]) 0 [wall] = Inr [line]"
    using c by (simp add: Let_def sat_add_def u_defs)
  obtain f l where "locate_table (sheet [row_one, row_two]) = Some (f, l)" using small_table by blast
  then obtain out where out: "insert_children (sheet [row_one, row_two]) (node_of [2]) [wall] = Inr out"
    using small_sheet small_ids d m
    by (auto simp: insert_children_def well_formed_def Let_def last_ordinal_under_def)
  have "\<forall>c \<in> set [wall]. child_ok c" "last_ordinal_under (node_of [2]) [row_one, row_two] + length [wall] \<le> u32_max"
    using wall_drawn [OF wf] by (simp_all add: m u_defs)
  from insert_children_extends_plan [OF small_sheet this out] out small_ids show ?thesis
    by (auto simp: child_rows_def) 
qed

theorem append_top_level_appends_witness:
  "\<exists>out. append_top_level (sheet [row_one]) (node_of [3]) wall = Inr out \<and>
     check_roadmap_shape out = WellFormed [row_one, child_row (node_of [3]) wall]"
proof -
  have one: "check_roadmap_shape (sheet [row_one]) = WellFormed [row_one]"
    by (rule sheet_reads) (simp add: sheet_row_small)
  then obtain f l where "locate_table (sheet [row_one]) = Some (f, l)"
    by (auto simp: check_roadmap_shape_WellFormed table_reading_def locate_table_parts Let_def split: if_splits)
  moreover obtain line where "draw_child (node_of [3]) wall (lit ''add a plan row'') = Inr line"
    using wall_drawn [OF node_wf_small(2)] by blast
  ultimately obtain out where out: "append_top_level (sheet [row_one]) (node_of [3]) wall = Inr out"
    using one small_ids by (auto simp: append_top_level_def well_formed_def Let_def parent_of)
  have "child_ok wall" using wall_drawn [OF node_wf_small(2)] by blast
  from append_top_level_appends [OF one node_wf_small(2) this out] out show ?thesis by auto
qed


section \<open>An item with a line feed in it\<close>

definition two_lines :: new_child where
  "two_lines = \<lparr>child_item = [97, 10, 98], child_weight = 2\<rparr>"

lemma two_lines_drawn:
  "draw_child nid two_lines action =
     Inr ((lit ''| '' @ node_str nid @ lit '' | a'') @ 10 # lit ''b | 2 |  | Not started |  |'')"
  by (simp add: draw_child_def two_lines_def Let_def trim_def trim_start_def trim_end_def is_whitespace_def
      spelling_def ROADMAP_STATUS_SPELLINGS_def show_nat.simps text_eval)

lemma broken_line_ends_table: "\<not> is_row (lit ''| '' @ node_str nid @ lit '' | a'')"
proof -
  have "trimmed (lit ''| '' @ node_str nid @ lit '' | a'')"
    by (simp add: trimmed_def is_whitespace_def text_eval)
  moreover have "strip_suffix [BAR] (32 # node_str nid @ [32, BAR, 32, 97]) = None"
    by (simp add: strip_suffix_def ends_with_iff)
  ultimately show ?thesis
    by (simp add: is_row_def split_table_row_def strip_prefix_def starts_with_def text_eval)
qed

text \<open>A child whose item holds a line feed is accepted, and the rows below it are gone from the
  plan the file says: the broken line ends the table.\<close>

theorem newline_item_truncates_plan:
  "\<exists>out. insert_children (sheet [row_one, row_two]) (node_of [2]) [two_lines] = Inr out \<and>
     check_roadmap_shape out = WellFormed [row_one]"
proof -
  let ?txt = "sheet [row_one, row_two]"
  let ?d = "\<lambda>r. draw_row r (row_status r) (cited (row_evidence r))"
  let ?x = "lit ''| '' @ node_str (node_of [2, Suc 0]) @ lit '' | a''"
  let ?y = "lit ''b | 2 |  | Not started |  |''"
  have ps: "split_on 10 ?txt = [HEADER, ?d row_one, ?d row_two]"
    by (subst sheet_lines) (simp_all add: sheet_row_small)
  have reads: "split_table_row (?d r) = Some (row_cells r (row_status r) (cited (row_evidence r)))"
    "body_row (row_cells r (row_status r) (cited (row_evidence r)))" "10 \<notin> set (?d r)"
    if "sheet_row r" for r
    using that draw_row_reads_back row_cells_body by (auto simp: sheet_row_def)
  note r1 = reads [OF sheet_row_small(1)] and r2 = reads [OF sheet_row_small(2)]
  have rows: "is_row HEADER" "is_row (?d row_one)" "is_row (?d row_two)"
    using r1 r2 HEADER_row by (simp_all add: is_row_def)
  have loc: "locate_table ?txt = Some (0, 2)"
    unfolding locate_table_parts Let_def ps using rows
    by (simp add: table_lines_def before_table_def)
  have fam: "\<not> family_line (node_of [2]) HEADER" "family_line (node_of [2]) (?d row_one)"
    "\<not> family_line (node_of [2]) (?d row_two)"
  proof -
    have "node_parse (lit ''#'') \<noteq> Inr n" for n
      by (simp add: node_parse_def Let_def NODE_DEPTH_MAX_def index_violation_def is_ascii_digit_def text_eval trimmed_def is_whitespace_def
          split: option.split)
    then show "\<not> family_line (node_of [2]) HEADER"
      by (simp add: family_line_def HEADER_row split: sum.split)
    show "family_line (node_of [2]) (?d row_one)"
      using r1 small_ids node_wf_small by (simp add: family_line_def row_cells_def node_parse_node_str)
    have "\<not> is_ancestor_of (node_of [2]) (node_of [3])"
      by (simp add: is_ancestor_of_path node_wf_small strict_prefix_def)
    then show "\<not> family_line (node_of [2]) (?d row_two)"
      using r2 small_ids node_wf_small by (simp add: family_line_def row_cells_def node_parse_node_str)
  qed
  have seam: "seam_of (node_of [2]) 0 2 ?txt = 1"
    unfolding seam_of_def ps using fam by simp
  have m: "last_ordinal_under (node_of [2]) [row_one, row_two] = 0"
    using small_ids by (simp add: last_ordinal_under_def parent_of)
  have "child (node_of [2]) (Suc 0) = Inr (node_of [2, Suc 0])"
    using child_Inr [OF node_wf_small(1), of "Suc 0" "node_of [2, Suc 0]"] by (simp add: u_defs NODE_DEPTH_MAX_def)
  then have drawn: "draw_children (node_of [2]) 0 [two_lines] = Inr [?x @ 10 # ?y]"
    using two_lines_drawn [of "node_of [2, Suc 0]"] by (simp add: Let_def sat_add_def u_defs)
  let ?out = "insert_after ?txt 1 [?x @ 10 # ?y]"
  have out: "insert_children ?txt (node_of [2]) [two_lines] = Inr ?out"
    using small_sheet small_ids drawn m loc seam
    by (simp add: insert_children_def well_formed_def Let_def last_ordinal_under_def)
  have out_lines: "?out = join_with [10] [HEADER, ?d row_one, ?x, ?y, ?d row_two]"
    unfolding insert_after_def ps by simp
  have "10 \<notin> set (node_str (node_of [2, Suc 0]))"
    using node_str_chars [of "node_of [2, Suc 0]" 10] node_wf_of [of "[2, Suc 0]"]
    by (auto simp: is_ascii_digit_def path_wf_def NODE_DEPTH_MAX_def u_defs)
  then have "10 \<notin> set ?x" by (simp add: text_eval)
  moreover have "10 \<notin> set ?y" by (simp add: text_eval)
  ultimately have nl: "\<forall>p \<in> set [HEADER, ?d row_one, ?x, ?y, ?d row_two]. 10 \<notin> set p"
    using r1(3) r2(3) HEADER_no_newline by (simp only: list.set ball_simps insert_iff) blast
  have "split_on 10 ?out = [HEADER, ?d row_one, ?x, ?y, ?d row_two]"
    unfolding out_lines using nl by (intro split_join) (simp, blast)
  moreover have "table_lines [HEADER, ?d row_one, ?x, ?y, ?d row_two] = [HEADER, ?d row_one]"
    using rows broken_line_ends_table by (simp add: table_lines_def)
  moreover have "table_reading [HEADER, ?d row_one] = Some [row_one]"
  proof -
    have "check_roadmap_shape (sheet [row_one]) = WellFormed [row_one]"
      by (rule sheet_reads) (simp add: sheet_row_small)
    moreover have "split_on 10 (sheet [row_one]) = [HEADER, ?d row_one]"
      by (subst sheet_lines) (simp_all add: sheet_row_small)
    moreover have "table_lines [HEADER, ?d row_one] = [HEADER, ?d row_one]"
      using rows by (simp add: table_lines_def)
    ultimately show ?thesis by (simp add: check_roadmap_shape_WellFormed)
  qed
  ultimately have "check_roadmap_shape ?out = WellFormed [row_one]"
    by (simp add: check_roadmap_shape_WellFormed)
  with out show ?thesis by blast
qed

end
