(* ===== verification/Payloads.thy ===== *)
theory Payloads
  imports Errors
begin

text \<open>
  Ledger payloads (\<open>kernel::event::payload\<close>, \<open>event/payload.rs\<close>): a JSON object is a payload when no
  float is in it and its containers nest at most \<open>PAYLOAD_DEPTH_MAX\<close> deep. The source walks the
  object with a stack of its own; the walk is shown to decide the recursive definition.
\<close>

section \<open>JSON values\<close>

text \<open>The values of \<open>serde_json::Value\<close>. A number is an integer of 64 bits or a float, of which only
  the text it prints as matters here. The entries of an object are in key order.\<close>

datatype json_number = PosInt nat | NegInt int | Float rstr

datatype json =
    JNull
  | JBool bool
  | JNumber json_number
  | JString rstr
  | JArray "json list"
  | JObject "(rstr \<times> json) list"

type_synonym json_map = "(rstr, json) btree"

fun is_float :: "json_number \<Rightarrow> bool" where
  "is_float (Float _) = True"
| "is_float _ = False"

fun show_float :: "json_number \<Rightarrow> rstr" where
  "show_float (Float shown) = shown"
| "show_float (PosInt n) = show_nat n"
| "show_float (NegInt i) = 45 # show_nat (nat (- i))"

fun held_values :: "json \<Rightarrow> json list" where
  "held_values (JArray items) = items"
| "held_values (JObject entries) = map snd entries"
| "held_values _ = []"

fun is_container :: "json \<Rightarrow> bool" where
  "is_container (JArray _) = True"
| "is_container (JObject _) = True"
| "is_container _ = False"

lemma held_smaller [termination_simp]: "x \<in> set (held_values v) \<Longrightarrow> size x < size v"
proof (cases v)
  case (JObject es)
  assume "x \<in> set (held_values v)"
  then obtain k where "(k, x) \<in> set es" using JObject by auto
  then have "size_prod (\<lambda>_. 0) size (k, x) \<le> size_list (size_prod (\<lambda>_. 0) size) es"
    by (rule size_list_estimation') simp
  then show ?thesis using JObject by simp
qed (auto intro: size_list_estimation' less_Suc_eq_le [THEN iffD2])

text \<open>How many values there are under a value, itself counted: what the walk has yet to look at.\<close>

function json_count :: "json \<Rightarrow> nat" where
  "json_count v = Suc (sum_list (map json_count (held_values v)))"
  by pat_completeness auto

termination json_count
  by (relation "measure size") (auto intro: held_smaller)

declare json_count.simps [simp del]

lemma json_count_simps:
  "json_count (JArray items) = Suc (sum_list (map json_count items))"
  "json_count (JObject entries) = Suc (\<Sum>entry\<leftarrow>entries. json_count (snd entry))"
  "0 < json_count v"
  by (simp_all add: json_count.simps [of "JArray items"] json_count.simps [of "JObject entries"]
      json_count.simps [of v] comp_def)


section \<open>The walk\<close>

definition PAYLOAD_DEPTH_MAX :: nat where
  "PAYLOAD_DEPTH_MAX = 126"

definition opened :: "nat \<Rightarrow> nat ax_result" where
  "opened lvl =
     ok_or
       (with_recovery (lit ''store the body in CAS and carry its locator in the payload; the ledger reader cannot parse this depth back'')
         (failure InvalidArgs (lit ''build payload'')
           (lit ''nesting deeper than '' @ show_nat PAYLOAD_DEPTH_MAX @ lit '' levels'')))
       (case checked_add u64_max lvl 1 of
          None \<Rightarrow> None
        | Some level \<Rightarrow> if level \<le> PAYLOAD_DEPTH_MAX then Some level else None)"

text \<open>The stack of the walk, its top first: what a container holds is pushed in order, so its last
  value is looked at first.\<close>

function walk_pending :: "(json \<times> nat) list \<Rightarrow> unit ax_result" where
  "walk_pending [] = Inr ()"
| "walk_pending ((value, lvl) # pending) =
     (case value of
        JNumber n \<Rightarrow>
          if is_float n then
            Inl (with_recovery (lit ''ledger payloads never carry floats; scale to integers'')
              (failure InvalidArgs (lit ''build payload'') (show_float n)))
          else walk_pending pending
      | JArray items \<Rightarrow>
          and_then (opened lvl) (\<lambda>level. walk_pending (rev (map (\<lambda>item. (item, level)) items) @ pending))
      | JObject entries \<Rightarrow>
          and_then (opened lvl)
            (\<lambda>level. walk_pending (rev (map (\<lambda>entry. (snd entry, level)) entries) @ pending))
      | _ \<Rightarrow> walk_pending pending)"
  by pat_completeness auto

termination walk_pending
  by (relation "measure (\<lambda>pending. sum_list (map (json_count \<circ> fst) pending))")
    (auto simp: json_count_simps rev_map comp_def sum_list_rev simp flip: rev_map)

definition reject_floats_and_depth :: "json_map \<Rightarrow> unit ax_result" where
  "reject_floats_and_depth m = walk_pending (rev (map (\<lambda>entry. (snd entry, 1)) m))"

datatype payload = Payload (payload_map: json_map)

definition payload_new :: "json_map \<Rightarrow> payload ax_result" where
  "payload_new m = and_then (reject_floats_and_depth m) (\<lambda>_. Inr (Payload m))"

definition payload_empty :: payload where
  "payload_empty = Payload bt_empty"


section \<open>What a payload is\<close>

function float_free :: "json \<Rightarrow> bool" where
  "float_free v \<longleftrightarrow>
     (case v of JNumber n \<Rightarrow> \<not> is_float n | _ \<Rightarrow> True) \<and> (\<forall>x \<in> set (held_values v). float_free x)"
  by pat_completeness auto

termination float_free
  by (relation "measure size") (auto intro: held_smaller)

declare float_free.simps [simp del]

function nesting :: "json \<Rightarrow> nat" where
  "nesting v = (if is_container v then Suc (Max (insert 0 (nesting ` set (held_values v)))) else 0)"
  by pat_completeness auto

termination nesting
  by (relation "measure size") (auto intro: held_smaller)

declare nesting.simps [simp del]

definition fits :: "json \<times> nat \<Rightarrow> bool" where
  "fits p \<longleftrightarrow> float_free (fst p) \<and> (is_container (fst p) \<longrightarrow> snd p + nesting (fst p) \<le> PAYLOAD_DEPTH_MAX)"

lemma opened_Inr: "opened lvl = Inr level \<longleftrightarrow> level = Suc lvl \<and> Suc lvl \<le> PAYLOAD_DEPTH_MAX"
  by (auto simp: opened_def checked_add_def PAYLOAD_DEPTH_MAX_def u_defs)

lemma opened_Inl: "opened lvl = Inl e \<Longrightarrow> err_code e = InvalidArgs \<and> PAYLOAD_DEPTH_MAX \<le> lvl"
  by (auto simp: opened_def checked_add_def ok_or_def PAYLOAD_DEPTH_MAX_def u_defs split: option.splits if_splits)

lemma fits_container:
  assumes "is_container v"
  shows "fits (v, lvl) \<longleftrightarrow> Suc lvl \<le> PAYLOAD_DEPTH_MAX \<and> (\<forall>x \<in> set (held_values v). fits (x, Suc lvl))"
proof -
  let ?xs = "set (held_values v)"
  have n: "nesting v = Suc (Max (insert 0 (nesting ` ?xs)))" by (subst nesting.simps) (simp add: assms)
  have "lvl + nesting v \<le> PAYLOAD_DEPTH_MAX \<longleftrightarrow>
      Suc lvl \<le> PAYLOAD_DEPTH_MAX \<and> (\<forall>x \<in> ?xs. Suc lvl + nesting x \<le> PAYLOAD_DEPTH_MAX)"
  proof -
    have "lvl + nesting v \<le> PAYLOAD_DEPTH_MAX \<longleftrightarrow>
        Suc lvl \<le> PAYLOAD_DEPTH_MAX \<and> Max (insert 0 (nesting ` ?xs)) \<le> PAYLOAD_DEPTH_MAX - Suc lvl"
      unfolding n by linarith
    also have "\<dots> \<longleftrightarrow> Suc lvl \<le> PAYLOAD_DEPTH_MAX \<and> (\<forall>x \<in> ?xs. nesting x \<le> PAYLOAD_DEPTH_MAX - Suc lvl)"
      by (subst Max_le_iff) auto
    also have "\<dots> \<longleftrightarrow> Suc lvl \<le> PAYLOAD_DEPTH_MAX \<and> (\<forall>x \<in> ?xs. Suc lvl + nesting x \<le> PAYLOAD_DEPTH_MAX)"
      by (auto simp: le_diff_conv2)
    finally show ?thesis .
  qed
  moreover have "float_free v \<longleftrightarrow> (\<forall>x \<in> ?xs. float_free x)"
    using assms by (subst float_free.simps) (cases v; simp)
  moreover have "Suc lvl + nesting x \<le> PAYLOAD_DEPTH_MAX" if "\<not> is_container x" "Suc lvl \<le> PAYLOAD_DEPTH_MAX" for x
    using that nesting.simps [of x] by simp
  ultimately show ?thesis using assms unfolding fits_def by auto
qed

lemma fits_plain: "\<not> is_container v \<Longrightarrow> fits (v, lvl) \<longleftrightarrow> (case v of JNumber n \<Rightarrow> \<not> is_float n | _ \<Rightarrow> True)"
  unfolding fits_def fst_conv by (subst float_free.simps) (cases v; simp)

lemma walk_pending_decides:
  "case walk_pending pending of
     Inr _ \<Rightarrow> (\<forall>p \<in> set pending. fits p)
   | Inl e \<Rightarrow> err_code e = InvalidArgs \<and> (\<exists>p \<in> set pending. \<not> fits p)"
proof (induction pending rule: walk_pending.induct)
  case (2 v lvl pending)
  show ?case
  proof (cases "is_container v")
    case False
    then show ?thesis using 2 fits_plain [OF False, of lvl]
      by (cases v) (auto split: sum.splits if_splits)
  next
    case True
    define inner where "inner level = rev (map (\<lambda>x. (x, level)) (held_values v))" for level :: nat
    have walk: "walk_pending ((v, lvl) # pending) =
        and_then (opened lvl) (\<lambda>level. walk_pending (inner level @ pending))"
      using True by (cases v) (auto simp: inner_def comp_def)
    show ?thesis
    proof (cases "opened lvl")
      case (Inl e)
      then show ?thesis using walk opened_Inl [OF Inl] fits_container [OF True, of lvl] by simp
    next
      case (Inr level)
      then have level: "level = Suc lvl" "Suc lvl \<le> PAYLOAD_DEPTH_MAX" by (simp_all add: opened_Inr)
      have IH: "case walk_pending (inner level @ pending) of
           Inr _ \<Rightarrow> (\<forall>p \<in> set (inner level @ pending). fits p)
         | Inl e \<Rightarrow> err_code e = InvalidArgs \<and> (\<exists>p \<in> set (inner level @ pending). \<not> fits p)"
        using True "2.IH" Inr by (cases v) (auto simp: inner_def comp_def cong: sum.case_cong)
      have "(\<forall>p \<in> set (inner level). fits p) \<longleftrightarrow> fits (v, lvl)"
        unfolding fits_container [OF True, of lvl] using level by (auto simp: inner_def)
      then show ?thesis using IH walk Inr by (auto split: sum.splits)
    qed
  qed
qed simp

text \<open>C32. \<open>Payload::new\<close> accepts a JSON object exactly when it is float-free and its containers,
  its own object counted, nest at most 126 deep, and keeps it as it was; every other object is
  refused with \<open>E_INVALID_ARGS\<close>. The iterative walk decides the recursive definition.\<close>

theorem payload_new_decides:
  "case payload_new m of
     Inr p \<Rightarrow> p = Payload m \<and> float_free (JObject m) \<and> nesting (JObject m) \<le> PAYLOAD_DEPTH_MAX
   | Inl e \<Rightarrow> err_code e = InvalidArgs \<and> \<not> (float_free (JObject m) \<and> nesting (JObject m) \<le> PAYLOAD_DEPTH_MAX)"
proof -
  have "fits (JObject m, 0) \<longleftrightarrow> (\<forall>p \<in> set (rev (map (\<lambda>entry. (snd entry, 1)) m)). fits p)"
    by (subst fits_container) (auto simp: PAYLOAD_DEPTH_MAX_def)
  moreover have "fits (JObject m, 0) \<longleftrightarrow> float_free (JObject m) \<and> nesting (JObject m) \<le> PAYLOAD_DEPTH_MAX"
    by (simp add: fits_def)
  ultimately show ?thesis
    using walk_pending_decides [of "rev (map (\<lambda>entry. (snd entry, 1)) m)"]
    by (auto simp: payload_new_def reject_floats_and_depth_def split: sum.splits)
qed

end
