(* ===== verification/Events.thy ===== *)
theory Events
  imports Payloads Locators
begin

text \<open>
  Events (\<open>kernel::event\<close>: \<open>event/kind.rs\<close>, \<open>event/kind/window.rs\<close>, \<open>event/identity.rs\<close>, the draft and
  the record of \<open>event/payload.rs\<close>) and what may be claimed on them (\<open>kernel::completion\<close>,
  \<open>completion.rs\<close>): the closed vocabulary of kinds, sequence numbers, drafts and records, and
  evidence, which cites only what the city wrote of an answer to a request it sent.

  A kind is held as the name of its variant. The word the ledger writes is that name in snake
  case, which is the rule \<open>rename_all = "snake_case"\<close> gives.
\<close>

section \<open>Kinds\<close>

datatype event_kind = EventKind (kind_name: rstr)

definition event_kind_ALL :: "event_kind list" where
  "event_kind_ALL = map (\<lambda>name. EventKind (lit name)) [
     ''CityInitialized'', ''BuildingCreated'', ''BuildingConfigured'', ''BuildingRemoved'',
     ''SessionOpened'', ''RunStarted'', ''RunForked'', ''PromptAssembled'',
     ''PromptShapeCompared'', ''ModelCalled'', ''ModelReturned'', ''ToolCalled'', ''ToolResult'',
     ''ResultOffloaded'', ''GateChecked'', ''GateDenied'', ''CheckpointCommitted'',
     ''HandoffWritten'', ''SteerReceived'', ''CancelReceived'', ''WatchdogFired'',
     ''BudgetLimit'', ''RunFrozen'', ''LogTruncated'', ''SignalEnqueued'', ''SignalConsumed'',
     ''DraftHeld'', ''DraftResolved'', ''GoalRegistered'', ''GoalConflict'',
     ''ArbitrationVerdict'', ''RepairStarted'', ''RepairReused'', ''WorktreeOpened'',
     ''PrOpened'', ''PrMerged'', ''PrRejected'', ''RoadmapClaimed'', ''RoadmapFinished'',
     ''RoadmapReleased'', ''RoadmapSplit'', ''RoadmapBlocked'', ''PursuitChanged'',
     ''ApprovalRequested'', ''ApprovalResolved'', ''PolicyCreated'', ''PolicyRevoked'',
     ''TaintPromoted'', ''CrossBuildingTransfer'', ''CityHalted'', ''BackpressureShed'',
     ''DigestInvalidated'', ''EndpointAttached'', ''EndpointProbed'', ''EndpointLost'',
     ''ModelSelected'', ''ProviderDegraded'', ''LoginStarted'', ''EvalRun'', ''AssetArchived'',
     ''CredentialLent'', ''SecretCaptured'', ''SecretEgressBlocked'', ''FileDiscarded'',
     ''DiscardRestored'', ''AutonomyChanged'', ''WentBack'', ''FileRestored'',
     ''GovernedDocumentWritten'', ''SpineDocumentWritten'', ''RulesChanged'',
     ''ToolkitLinkOpened'', ''EmbeddingCalled'', ''RerankCalled'', ''AdviserAsked'',
     ''AdviserAnswered'', ''AdviserFellBack'', ''CacheRenewed'', ''HarnessReported'',
     ''HarnessAnswered'', ''RemoteOpened'', ''RemoteClosed'', ''DevicePaired'', ''DeviceRevoked'',
     ''RemoteSessionStarted'', ''DocumentWritten'', ''ProposalOffered'', ''ProposalDecided'',
     ''ProposalWithdrawn'', ''RunPolicyChanged'', ''SessionNamed'', ''SkillAudited'',
     ''SignalWaitStarted'', ''SignalWaitEnded'', ''SignalLanded'', ''SkillShelved'',
     ''PrefixHeld'']"

abbreviation kind :: "string \<Rightarrow> event_kind" where
  "kind name \<equiv> EventKind (lit name)"

datatype window_class = InWindow | RecordOnly

definition in_window_kinds :: "event_kind list" where
  "in_window_kinds = map (\<lambda>name. EventKind (lit name)) [
     ''PromptAssembled'', ''ModelCalled'', ''ModelReturned'', ''ToolCalled'', ''ToolResult'',
     ''ResultOffloaded'', ''SteerReceived'', ''SignalConsumed'', ''AdviserAnswered'',
     ''RunPolicyChanged'', ''SignalWaitStarted'', ''SignalWaitEnded'']"

definition kind_window_class :: "event_kind \<Rightarrow> window_class" where
  "kind_window_class k = (if k \<in> set in_window_kinds then InWindow else RecordOnly)"

definition is_upper :: "codepoint \<Rightarrow> bool" where
  "is_upper c \<longleftrightarrow> 65 \<le> c \<and> c \<le> 90"

fun snake_tail :: "rstr \<Rightarrow> rstr" where
  "snake_tail [] = []"
| "snake_tail (c # cs) = (if is_upper c then 95 # (c + 32) # snake_tail cs else c # snake_tail cs)"

definition kind_word :: "event_kind \<Rightarrow> rstr" where
  "kind_word k =
     (case kind_name k of
        [] \<Rightarrow> []
      | c # cs \<Rightarrow> (if is_upper c then c + 32 else c) # snake_tail cs)"


section \<open>Identity\<close>

datatype run = RunId (run_bytes: "nat list")

definition run_CITY :: run where
  "run_CITY = RunId (replicate 16 0)"

text \<open>The \<open>uuid\<close> crate reads four spellings and writes one; both are arguments.\<close>

definition run_parse :: "(rstr \<Rightarrow> nat list option) \<Rightarrow> (nat list \<Rightarrow> rstr) \<Rightarrow> rstr \<Rightarrow> run ax_result" where
  "run_parse parse_str hyphenated raw =
     (let reject = Inl (with_recovery
            (lit ''use the hyphenated lower-case uuid this city writes, as `0198f6a2-7c4a-7bbb-9d1e-000000000001`'')
            (failure InvalidArgs (lit ''parse run id'') raw)) in
      case parse_str raw of
        None \<Rightarrow> reject
      | Some parsed \<Rightarrow> if hyphenated parsed \<noteq> raw then reject else Inr (RunId parsed))"

datatype seq = Seq (seq_value: nat)

definition seq_FIRST :: seq where
  "seq_FIRST = Seq 0"

definition seq_next :: "seq \<Rightarrow> seq ax_result" where
  "seq_next s =
     ok_or
       (with_recovery (lit ''sequence space exhausted; this ledger cannot grow further'')
         (failure InvalidArgs (lit ''advance seq'') (show_nat (seq_value s))))
       (map_option Seq (checked_add u64_max (seq_value s) 1))"

datatype time_ms = TimeMs (time_value: nat)


section \<open>Drafts and records\<close>

record event_draft =
  d_run :: run
  d_t :: time_ms
  d_who :: rstr
  d_addr :: "address option"
  d_kind :: event_kind
  d_data :: payload
  d_ig :: bool

record event_record =
  r_v :: nat
  r_run :: run
  r_seq :: seq
  r_prev :: b3hash
  r_t :: time_ms
  r_who :: rstr
  r_addr :: "address option"
  r_kind :: event_kind
  r_data :: payload
  r_ig :: bool

record event_ref =
  ref_seq :: seq
  ref_kind :: event_kind

definition EVENT_LOG_V :: nat where
  "EVENT_LOG_V = 2"

datatype log_version = LogCurrent | LogOlder | LogAhead | LogNotAVersion

definition EVENT_LOG_V_FIRST :: nat where
  "EVENT_LOG_V_FIRST = 1"

definition readable_log_v :: "nat \<Rightarrow> log_version" where
  "readable_log_v v =
     (if v < EVENT_LOG_V_FIRST then LogNotAVersion
      else if v > EVENT_LOG_V then LogAhead
      else if v = EVENT_LOG_V then LogCurrent
      else LogOlder)"

definition from_draft :: "event_draft \<Rightarrow> seq \<Rightarrow> b3hash \<Rightarrow> event_record" where
  "from_draft draft s prev =
     \<lparr>r_v = EVENT_LOG_V, r_run = d_run draft, r_seq = s, r_prev = prev, r_t = d_t draft,
      r_who = d_who draft, r_addr = d_addr draft, r_kind = d_kind draft, r_data = d_data draft,
      r_ig = d_ig draft\<rparr>"

definition to_ref :: "event_record \<Rightarrow> event_ref" where
  "to_ref r = \<lparr>ref_seq = r_seq r, ref_kind = r_kind r\<rparr>"


section \<open>Evidence and completion\<close>

definition CITABLE :: "event_kind list" where
  "CITABLE = [kind ''ToolResult'', kind ''ModelReturned'', kind ''HarnessAnswered'']"

text \<open>A JSON string of a word of letters and underscores is the word in quotes. Writing a variant
  without fields as JSON has no failing case, so this \<open>Result\<close> is always the words.\<close>

definition citable_words :: "rstr ax_result" where
  "citable_words = Inr (join_with (lit '', '') (map (\<lambda>k. [34] @ kind_word k @ [34]) CITABLE))"

datatype evidence = Evidence (evidence_refs: "event_ref list")

definition evidence_new :: "event_ref list \<Rightarrow> evidence ax_result" where
  "evidence_new refs =
     (if refs = [] then
        and_then citable_words (\<lambda>words.
          Inl (with_recovery (lit ''cite at least one '' @ words @ lit '' event'')
            (failure EvidenceMissing (lit ''construct evidence'') (lit ''empty ref list''))))
      else case find (\<lambda>r. ref_kind r \<notin> set CITABLE) refs of
             Some bad \<Rightarrow>
               and_then citable_words (\<lambda>words.
                 Inl (with_recovery (lit ''evidence kinds are '' @ words @ lit '' only'')
                   (failure EvidenceMissing (lit ''construct evidence'')
                     (lit ''ref kind '' @ kind_name (ref_kind bad)))))
           | None \<Rightarrow> Inr (Evidence refs))"

datatype completion = CompletionDone evidence | CompletionLimit | CompletionCancelled

fun completion_name :: "completion \<Rightarrow> rstr" where
  "completion_name (CompletionDone _) = lit ''done''"
| "completion_name CompletionLimit = lit ''limit''"
| "completion_name CompletionCancelled = lit ''cancelled''"

definition cited_entry :: "event_ref \<Rightarrow> json" where
  "cited_entry r =
     JObject (bt_insert (lit ''kind'') (JString (kind_word (ref_kind r)))
       (bt_insert (lit ''seq'') (JNumber (PosInt (seq_value (ref_seq r)))) bt_empty))"

definition extend_payload :: "completion \<Rightarrow> json_map \<Rightarrow> json_map" where
  "extend_payload c m =
     (let m = bt_insert (lit ''completion'') (JString (completion_name c)) m in
      case c of
        CompletionDone ev \<Rightarrow> bt_insert (lit ''evidence'') (JArray (map cited_entry (evidence_refs ev))) m
      | _ \<Rightarrow> m)"


section \<open>What evidence is\<close>

lemma evidence_new_Inr:
  "evidence_new refs = Inr ev \<longleftrightarrow> ev = Evidence refs \<and> refs \<noteq> [] \<and> (\<forall>r \<in> set refs. ref_kind r \<in> set CITABLE)"
  by (auto simp: evidence_new_def citable_words_def find_None_iff find_Some_iff split: option.splits)

text \<open>C31. Done cannot be claimed, only cited: evidence is built exactly from a non-empty list of
  references to results the city recorded of requests it sent, it carries those references
  unchanged, and everything else is refused with \<open>E_EVIDENCE_MISSING\<close>.\<close>

theorem evidence_cites_recorded_answers:
  "case evidence_new refs of
     Inr ev \<Rightarrow> evidence_refs ev = refs \<and> refs \<noteq> [] \<and>
       ref_kind ` set refs \<subseteq> {kind ''ToolResult'', kind ''ModelReturned'', kind ''HarnessAnswered''}
   | Inl e \<Rightarrow> err_code e = EvidenceMissing \<and>
       \<not> (refs \<noteq> [] \<and>
         ref_kind ` set refs \<subseteq> {kind ''ToolResult'', kind ''ModelReturned'', kind ''HarnessAnswered''})"
proof (cases "evidence_new refs")
  case (Inl e)
  then have "err_code e = EvidenceMissing"
    by (auto simp: evidence_new_def citable_words_def split: if_splits option.splits)
  moreover have "\<not> (refs \<noteq> [] \<and> (\<forall>r \<in> set refs. ref_kind r \<in> set CITABLE))"
    using Inl evidence_new_Inr [of refs "Evidence refs"] by auto
  ultimately show ?thesis using Inl by (auto simp: CITABLE_def)
next
  case (Inr ev)
  then have "ev = Evidence refs" "refs \<noteq> []" "ref_kind ` set refs \<subseteq> set CITABLE"
    by (auto simp: evidence_new_Inr)
  then show ?thesis using Inr by (simp add: CITABLE_def)
qed

end
