(* ===== verification/ClaimDesks.thy ===== *)
theory ClaimDesks
  imports PlanTrees SpineWriting Events Tools
begin

text \<open>
  The plan tool of \<open>collab\<close> (\<open>claim_effect.rs\<close>, \<open>claim_tool.rs\<close>, \<open>claim_tool/tool.rs\<close>): a run's desk holds
  a copy of the plan file, at most one node of it, and the effects the worker is to replay onto the
  file when the run lands. The operations are functions from a desk to the desk they leave and
  their answer, because a refusal may leave a changed desk.

  The booking, which asks the authority every run shares, and the pinner, which turns a path into
  a locator, are handed in from outside and are arguments. \<open>None\<close> is the division of the plan
  running out of fuel, which it never does.
\<close>

section \<open>Effects\<close>

datatype claim_effect =
    Claimed node_id rstr
  | PutDown node_id rstr plan_exit
  | SplitInto node_id "new_child list"
  | Added node_id new_child

fun effect_id :: "claim_effect \<Rightarrow> node_id" where
  "effect_id (Claimed nid _) = nid"
| "effect_id (PutDown nid _ _) = nid"
| "effect_id (Added nid _) = nid"
| "effect_id (SplitInto parent_id _) = parent_id"

fun effect_apply :: "claim_effect \<Rightarrow> rstr \<Rightarrow> rstr ax_result" where
  "effect_apply (Claimed nid _) txt = set_roadmap_status txt nid InProgress None"
| "effect_apply (PutDown nid _ ex) txt = set_roadmap_status txt nid (exit_status ex) (exit_evidence ex)"
| "effect_apply (SplitInto parent_id children) txt = insert_children txt parent_id children"
| "effect_apply (Added nid c) txt = append_top_level txt nid c"

fun effect_kind :: "claim_effect \<Rightarrow> event_kind option" where
  "effect_kind (Claimed _ _) = Some (kind ''RoadmapClaimed'')"
| "effect_kind (SplitInto _ _) = Some (kind ''RoadmapSplit'')"
| "effect_kind (PutDown _ _ (Finished _ _)) = Some (kind ''RoadmapFinished'')"
| "effect_kind (PutDown _ _ (Stopped _ why)) =
     Some (if is_red why then kind ''RoadmapBlocked'' else kind ''RoadmapReleased'')"
| "effect_kind (Added _ _) = None"

datatype roadmap_step =
    StepClaimed rstr
  | StepSplit "rstr list"
  | StepFinished rstr locator
  | StepReleased rstr stop_cause rstr
  | StepBlocked rstr stop_cause rstr

record roadmap_moved =
  moved_by :: rstr
  moved_node :: node_id
  moved_step :: roadmap_step

fun effect_moved :: "rstr \<Rightarrow> claim_effect \<Rightarrow> roadmap_moved ax_result" where
  "effect_moved who (Added nid _) =
     Inl (with_recovery (lit ''write the plan file; an added row has no record of its own'')
       (failure InvalidArgs (lit ''record a plan step'')
         (lit ''the row added as '' @ node_str nid @ lit '' is written with the plan file, not as a line'')))"
| "effect_moved who (Claimed nid item) =
     Inr \<lparr>moved_by = who, moved_node = nid, moved_step = StepClaimed item\<rparr>"
| "effect_moved who (SplitInto nid children) =
     Inr \<lparr>moved_by = who, moved_node = nid, moved_step = StepSplit (map child_item children)\<rparr>"
| "effect_moved who (PutDown nid item (Finished _ evidence)) =
     Inr \<lparr>moved_by = who, moved_node = nid, moved_step = StepFinished item evidence\<rparr>"
| "effect_moved who (PutDown nid item (Stopped _ why)) =
     Inr \<lparr>moved_by = who, moved_node = nid,
          moved_step = (if is_red why then StepBlocked item why (stop_line why)
                        else StepReleased item why (stop_line why))\<rparr>"

definition still_true :: "rstr \<Rightarrow> claim_effect \<Rightarrow> bool" where
  "still_true txt eff =
     (case eff of
        Claimed nid _ \<Rightarrow>
          (case check_roadmap_shape txt of
             WellFormed rows \<Rightarrow>
               (case find (\<lambda>row. row_id row = nid) rows of
                  Some row \<Rightarrow> row_status row = NotStarted
                | None \<Rightarrow> False)
           | Malformed _ \<Rightarrow> False)
      | _ \<Rightarrow> True)"


section \<open>The desk\<close>

record claim_desk =
  cd_who :: rstr
  cd_room :: address
  cd_text :: rstr
  cd_changed :: bool
  cd_held :: "held option"
  cd_effects :: "claim_effect list"

type_synonym booking = "claim_effect \<Rightarrow> unit ax_result"
type_synonym pinner = "rstr \<Rightarrow> locator ax_result"
type_synonym 'a desk_run = "(claim_desk \<times> 'a ax_result) option"

definition desk_new :: "rstr \<Rightarrow> address \<Rightarrow> rstr \<Rightarrow> claim_desk" where
  "desk_new who room roadmap =
     \<lparr>cd_who = who, cd_room = room, cd_text = roadmap, cd_changed = False, cd_held = None, cd_effects = []\<rparr>"

definition take_effects :: "claim_desk \<Rightarrow> claim_desk \<times> claim_effect list" where
  "take_effects desk = (desk\<lparr>cd_effects := []\<rparr>, cd_effects desk)"

definition desk_roadmap :: "claim_desk \<Rightarrow> rstr option" where
  "desk_roadmap desk = (if cd_changed desk then Some (cd_text desk) else None)"

definition holding :: "claim_desk \<Rightarrow> node_id option" where
  "holding desk = map_option held_id (cd_held desk)"

definition desk_tree :: "claim_desk \<Rightarrow> plan_tree ax_result option" where
  "desk_tree desk =
     (case check_roadmap_shape (cd_text desk) of
        WellFormed rows \<Rightarrow> plan_build rows
      | Malformed problems \<Rightarrow>
          Some (Inl (with_recovery
            (lit ''repair the six-column table in Roadmap.md, then claim a node; a plan that does not parse has no denominator'')
            (failure InvalidArgs (lit ''read the plan'') (join_with (lit ''; '') problems)))))"

text \<open>The first question of an operation: the plan, or the refusal it stops with.\<close>

definition with_tree :: "claim_desk \<Rightarrow> (plan_tree \<Rightarrow> 'a desk_run) \<Rightarrow> 'a desk_run" where
  "with_tree desk f =
     (case desk_tree desk of
        None \<Rightarrow> None
      | Some (Inl e) \<Rightarrow> Some (desk, Inl e)
      | Some (Inr tree) \<Rightarrow> f tree)"

definition item_of :: "plan_tree \<Rightarrow> node_id \<Rightarrow> rstr" where
  "item_of tree nid = (case plan_get tree nid of None \<Rightarrow> [] | Some node \<Rightarrow> row_item (pn_row node))"

definition desk_take :: "claim_effect \<Rightarrow> claim_desk \<Rightarrow> claim_desk \<times> unit ax_result" where
  "desk_take eff desk =
     (case effect_apply eff (cd_text desk) of
        Inl e \<Rightarrow> (desk, Inl e)
      | Inr txt \<Rightarrow> (desk\<lparr>cd_text := txt, cd_changed := True, cd_effects := cd_effects desk @ [eff]\<rparr>, Inr ()))"

definition desk_record :: "plan_exit \<Rightarrow> claim_desk \<Rightarrow> unit desk_run" where
  "desk_record ex desk =
     with_tree desk (\<lambda>tree.
       Some (desk_take (PutDown (exit_id ex) (item_of tree (exit_id ex)) ex) desk))"

definition abandon :: "claim_desk \<Rightarrow> unit desk_run" where
  "abandon desk =
     (case cd_held desk of
        None \<Rightarrow> Some (desk, Inr ())
      | Some h \<Rightarrow> desk_record (held_stop h FrozeWithoutEvidence) (desk\<lparr>cd_held := None\<rparr>))"

text \<open>An answer is a JSON object, built key by key and checked as every payload is.\<close>

definition answer :: "(rstr \<times> json) list \<Rightarrow> payload ax_result" where
  "answer entries = payload_new (fold (\<lambda>(key, v). bt_insert key v) entries bt_empty)"

definition desk_claim :: "booking \<Rightarrow> node_id \<Rightarrow> claim_desk \<Rightarrow> payload desk_run" where
  "desk_claim booking nid desk =
     (case holding desk of
        Some already \<Rightarrow>
          Some (desk, Inl (with_recovery
            (lit ''finish, block or release '' @ node_str already @ lit '' first; a run works on one node'')
            (failure InvalidArgs (lit ''claim a plan node'')
              (lit ''this run already holds '' @ node_str already))))
      | None \<Rightarrow>
          with_tree desk (\<lambda>tree.
            case claim tree nid of
              Inl e \<Rightarrow> Some (desk, Inl e)
            | Inr h \<Rightarrow>
                let item = item_of tree nid; claimed = Claimed nid item in
                (case booking claimed of
                   Inl e \<Rightarrow> Some (desk, Inl e)
                 | Inr _ \<Rightarrow>
                     (case desk_take claimed desk of
                        (desk', Inl e) \<Rightarrow> Some (desk', Inl e)
                      | (desk', Inr _) \<Rightarrow>
                          Some (desk'\<lparr>cd_held := Some h\<rparr>,
                            answer [(lit ''node'', JString (node_str nid)), (lit ''item'', JString item),
                              (lit ''held_by'', JString (cd_who desk))])))))"

definition take_held :: "node_id \<Rightarrow> claim_desk \<Rightarrow> claim_desk \<times> held ax_result" where
  "take_held nid desk =
     (case cd_held desk of
        Some h \<Rightarrow>
          if held_id h = nid then (desk\<lparr>cd_held := None\<rparr>, Inr h)
          else (desk, Inl (with_recovery
            (lit ''put down '' @ node_str (held_id h) @ lit '', or claim '' @ node_str nid @ lit '' first'')
            (failure InvalidArgs (lit ''put down a plan node'')
              (lit ''this run holds '' @ node_str (held_id h) @ lit '', not '' @ node_str nid))))
      | None \<Rightarrow>
          (desk, Inl (with_recovery (lit ''claim it first; a node is closed by the run that took it'')
            (failure InvalidArgs (lit ''put down a plan node'')
              (lit ''this run holds nothing, so it cannot put down '' @ node_str nid)))))"

definition leave :: "node_id \<Rightarrow> (held \<Rightarrow> plan_exit) \<Rightarrow> (rstr \<times> json) list \<Rightarrow> claim_desk \<Rightarrow> payload desk_run" where
  "leave nid way entries desk =
     (case take_held nid desk of
        (desk', Inl e) \<Rightarrow> Some (desk', Inl e)
      | (desk', Inr h) \<Rightarrow>
          (case desk_record (way h) desk' of
             None \<Rightarrow> None
           | Some (desk'', Inl e) \<Rightarrow> Some (desk'', Inl e)
           | Some (desk'', Inr _) \<Rightarrow> Some (desk'', answer entries)))"

definition desk_finish :: "node_id \<Rightarrow> locator \<Rightarrow> claim_desk \<Rightarrow> payload desk_run" where
  "desk_finish nid evidence desk =
     leave nid (\<lambda>h. held_finish h evidence)
       [(lit ''node'', JString (node_str nid)), (lit ''evidence'', JString (show_locator evidence))] desk"

definition put_down :: "node_id \<Rightarrow> stop_cause \<Rightarrow> claim_desk \<Rightarrow> payload desk_run" where
  "put_down nid why desk =
     leave nid (\<lambda>h. held_stop h why)
       [(lit ''node'', JString (node_str nid)), (lit ''red'', JBool (is_red why)),
        (lit ''why'', JString (stop_line why))] desk"

definition refuse_unless_holding :: "node_id \<Rightarrow> claim_desk \<Rightarrow> unit ax_result" where
  "refuse_unless_holding nid desk =
     (let refuse = (\<lambda>subject recovery.
            with_recovery recovery (failure InvalidArgs (lit ''split a plan node'') subject)) in
      case holding desk of
        Some h \<Rightarrow>
          if h = nid then Inr ()
          else Inl (refuse (lit ''this run holds '' @ node_str h @ lit '', not '' @ node_str nid)
            (lit ''split '' @ node_str h @ lit '', or put it down and claim '' @ node_str nid @ lit '' first''))
      | None \<Rightarrow>
          Inl (refuse (lit ''this run holds nothing, so it cannot split '' @ node_str nid)
            (lit ''claim '' @ node_str nid @ lit '' first; a row is divided by the run that holds it'')))"

definition trimmed_child :: "new_child \<Rightarrow> new_child" where
  "trimmed_child c = \<lparr>child_item = trim (child_item c), child_weight = child_weight c\<rparr>"

definition unfinished_under :: "plan_tree \<Rightarrow> node_id \<Rightarrow> nat" where
  "unfinished_under tree nid =
     (case plan_get tree nid of
        None \<Rightarrow> 0
      | Some parent_node \<Rightarrow>
          length (filter (\<lambda>c. node_status c \<noteq> Done) (List.map_filter (plan_get tree) (pn_children parent_node))))"

definition desk_split :: "node_id \<Rightarrow> new_child list \<Rightarrow> claim_desk \<Rightarrow> payload desk_run" where
  "desk_split nid children desk =
     (case refuse_unless_holding nid desk of
        Inl e \<Rightarrow> Some (desk, Inl e)
      | Inr _ \<Rightarrow>
          let eff = SplitInto nid (map trimmed_child children) in
          (case effect_apply eff (cd_text desk) of
             Inl e \<Rightarrow> Some (desk, Inl e)
           | Inr grown \<Rightarrow>
               (case check_roadmap_shape grown of
                  Malformed _ \<Rightarrow>
                    Some (desk, Inl (with_recovery
                      (lit ''shorten the child items; they must fit one table row each'')
                      (failure InvalidArgs (lit ''split a plan node'')
                        (lit ''the split would leave a table that does not parse''))))
                | WellFormed rows \<Rightarrow>
                    (case plan_build rows of
                       None \<Rightarrow> None
                     | Some (Inl e) \<Rightarrow> Some (desk, Inl e)
                     | Some (Inr after) \<Rightarrow>
                         Some (desk\<lparr>cd_text := grown, cd_changed := True, cd_effects := cd_effects desk @ [eff],
                                cd_held := None\<rparr>,
                           answer [(lit ''node'', JString (node_str nid)),
                             (lit ''children'', JArray (map (\<lambda>c. JString (trim (child_item c))) children)),
                             (lit ''unfinished'', JNumber (PosInt (unfinished_under after nid)))])))))"

definition HALL_MAYOR :: rstr where
  "HALL_MAYOR = lit ''hall/mayor''"

definition add_refusal :: "rstr \<Rightarrow> rstr \<Rightarrow> ax_error" where
  "add_refusal subject recovery = with_recovery recovery (failure InvalidArgs (lit ''add a plan row'') subject)"

fun add_rows :: "nat \<Rightarrow> nat \<Rightarrow> new_child list \<Rightarrow> rstr \<Rightarrow> (rstr \<times> claim_effect list) ax_result" where
  "add_rows last_top offset [] grown = Inr (grown, [])"
| "add_rows last_top offset (row # rows) grown =
     and_then
       (ok_or (add_refusal (lit ''the plan has no top-level index left'') (lit ''split an existing row instead''))
         (checked_add u32_max last_top offset)) (\<lambda>ord.
     and_then (node_parse (show_nat ord)) (\<lambda>nid.
     let eff = Added nid (trimmed_child row) in
     and_then (effect_apply eff grown) (\<lambda>grown.
     and_then (add_rows last_top (Suc offset) rows grown) (\<lambda>(grown, effs). Inr (grown, eff # effs)))))"

definition last_top_level :: "plan_tree \<Rightarrow> nat" where
  "last_top_level tree =
     Max (insert 0 ((\<lambda>node. ordinal (row_id (pn_row node))) `
       set (filter (\<lambda>node. parent (row_id (pn_row node)) = None) (map snd (plan_nodes tree)))))"

definition desk_add :: "new_child list \<Rightarrow> claim_desk \<Rightarrow> payload desk_run" where
  "desk_add rows desk =
     (if addr_str (cd_room desk) \<noteq> HALL_MAYOR then
        Some (desk, Inl (add_refusal
          (lit ''the plan's root belongs to the building's Mayor, and this run is '' @ addr_str (cd_room desk))
          (lit ''claim a row and split it to add work under it, or signal '' @ HALL_MAYOR @
           lit '' to add a top-level row'')))
      else if rows = [] then
        Some (desk, Inl (add_refusal (lit ''no rows given'')
          (lit ''pass `parts` as the rows to add, each `{item, weight}` or a plain string'')))
      else
        with_tree desk (\<lambda>tree.
          case add_rows (last_top_level tree) 1 rows (cd_text desk) of
            Inl e \<Rightarrow> Some (desk, Inl e)
          | Inr (grown, effs) \<Rightarrow>
              (case check_roadmap_shape grown of
                 Malformed _ \<Rightarrow>
                   Some (desk, Inl (add_refusal (lit ''the rows would leave a table that does not parse'')
                     (lit ''shorten the items; each must fit one table row'')))
               | WellFormed parsed \<Rightarrow>
                   (case plan_build parsed of
                      None \<Rightarrow> None
                    | Some (Inl e) \<Rightarrow> Some (desk, Inl e)
                    | Some (Inr _) \<Rightarrow>
                        Some (desk\<lparr>cd_text := grown, cd_changed := True, cd_effects := cd_effects desk @ effs\<rparr>,
                          answer [(lit ''nodes'', JArray (map (\<lambda>eff. JString (node_str (effect_id eff))) effs))])))))"

definition list_entry :: "rstr \<Rightarrow> rstr option \<Rightarrow> json" where
  "list_entry nid item =
     JObject (let m = bt_insert (lit ''node'') (JString nid) bt_empty in
       case item of None \<Rightarrow> m | Some i \<Rightarrow> bt_insert (lit ''item'') (JString i) m)"

definition row_entry :: "plan_node \<Rightarrow> json" where
  "row_entry node = list_entry (node_str (row_id (pn_row node))) (Some (row_item (pn_row node)))"

definition desk_list :: "claim_desk \<Rightarrow> payload desk_run" where
  "desk_list desk =
     with_tree desk (\<lambda>tree.
       let nodes = map snd (plan_nodes tree) in
       Some (desk, answer [
         (lit ''ready'', JArray (map (\<lambda>nid. list_entry (node_str nid)
            (map_option (\<lambda>node. row_item (pn_row node)) (plan_get tree nid))) (ready tree))),
         (lit ''in_progress'', JArray (map row_entry
            (filter (\<lambda>node. node_status node = InProgress \<and> is_leaf node) nodes))),
         (lit ''blocked'', JArray (map row_entry
            (filter (\<lambda>node. node_status node = Blocked \<or> node_status node = AwaitingApproval) nodes))),
         (lit ''nodes_total'', JNumber (PosInt (plan_len tree)))]))"


section \<open>The tool\<close>

definition pinned_evidence :: "pinner option \<Rightarrow> rstr \<Rightarrow> locator ax_result" where
  "pinned_evidence pinner raw =
     (let spelled_as_locator = (starts_with (lit ''cas:'') raw \<or> starts_with (lit ''file:'') raw) in
      case (locator_parse raw, pinner) of
        (Inr loc, _) \<Rightarrow> Inr loc
      | (Inl refused, None) \<Rightarrow> Inl refused
      | (Inl refused, Some pin) \<Rightarrow> if spelled_as_locator then Inl refused else pin raw)"

definition ACTIONS :: rstr where
  "ACTIONS = lit ''use `list`, `claim`, `finish`, `block`, `release`, `split` or `add`''"

fun as_str :: "json \<Rightarrow> rstr option" where
  "as_str (JString s) = Some s"
| "as_str _ = None"

fun as_array :: "json \<Rightarrow> json list option" where
  "as_array (JArray items) = Some items"
| "as_array _ = None"

fun as_u64 :: "json \<Rightarrow> nat option" where
  "as_u64 (JNumber (PosInt n)) = Some n"
| "as_u64 _ = None"

definition arg_str :: "string \<Rightarrow> json_map \<Rightarrow> rstr option" where
  "arg_str key args = Option.bind (bt_get args (lit key)) as_str"

definition node_arg :: "json_map \<Rightarrow> node_id ax_result" where
  "node_arg args =
     and_then
       (ok_or (with_recovery (lit ''pass `node` as the dotted index in the plan's first column'')
          (failure InvalidArgs (lit ''read a plan node index'') (lit ''missing string argument `node`'')))
         (arg_str ''node'' args)) node_parse"

definition reason_of :: "json_map \<Rightarrow> rstr \<Rightarrow> rstr ax_result" where
  "reason_of args action =
     ok_or (with_recovery (lit ''say in one line why, so the next run does not repeat what you already tried'')
         (failure InvalidArgs (lit ''read why a plan node stopped'')
           (lit ''`'' @ action @ lit ''` without a reason'')))
       (case map_option trim (arg_str ''reason'' args) of
          Some note \<Rightarrow> if note = [] then None else Some note
        | None \<Rightarrow> None)"

definition parts_refusal :: "string \<Rightarrow> ax_error" where
  "parts_refusal why =
     with_recovery (lit ''pass `parts` as a list of `{item, weight}`, or of plain strings'')
       (failure InvalidArgs (lit ''read the parts of a split'') (lit why))"

definition part_of :: "json \<Rightarrow> new_child ax_result" where
  "part_of entry =
     (case entry of
        JString item \<Rightarrow> Inr \<lparr>child_item = item, child_weight = 1\<rparr>
      | JObject m \<Rightarrow>
          and_then (ok_or (parts_refusal ''a part with no `item`'') (arg_str ''item'' m)) (\<lambda>item.
            let weight = (case Option.bind (bt_get m (lit ''weight'')) as_u64 of Some w \<Rightarrow> w | None \<Rightarrow> 1) in
            Inr \<lparr>child_item = item, child_weight = min weight u32_max\<rparr>)
      | _ \<Rightarrow> Inl (parts_refusal ''a part that is neither text nor an object''))"

definition parts_of :: "json_map \<Rightarrow> new_child list ax_result" where
  "parts_of args =
     and_then (ok_or (parts_refusal ''missing array argument `parts`'')
       (Option.bind (bt_get args (lit ''parts'')) as_array)) (collect_ok part_of)"

text \<open>An argument that does not read stops the call before the desk is asked.\<close>

definition with_arg :: "claim_desk \<Rightarrow> 'b ax_result \<Rightarrow> ('b \<Rightarrow> 'a desk_run) \<Rightarrow> 'a desk_run" where
  "with_arg desk arg f = (case arg of Inl e \<Rightarrow> Some (desk, Inl e) | Inr x \<Rightarrow> f x)"

definition invoke :: "booking \<Rightarrow> pinner option \<Rightarrow> rstr \<Rightarrow> json_map \<Rightarrow> claim_desk \<Rightarrow> payload desk_run" where
  "invoke booking pinner called args desk =
     (if called \<noteq> lit ''plan'' then
        Some (desk, Inl (with_recovery (lit ''call `plan`, the name this tool answers to'')
          (failure InvalidArgs (lit ''read the plan'')
            (lit ''call routed to the wrong tool: '' @ called))))
      else case arg_str ''action'' args of
        None \<Rightarrow>
          Some (desk, Inl (with_recovery ACTIONS
            (failure InvalidArgs (lit ''read a plan action'') (lit ''missing string argument `action`''))))
      | Some action \<Rightarrow>
          if action = lit ''list'' then desk_list desk
          else if action = lit ''claim'' then
            with_arg desk (node_arg args) (\<lambda>nid. desk_claim booking nid desk)
          else if action = lit ''finish'' then
            with_arg desk
              (ok_or (with_recovery
                  (lit ''pass the path of the file that shows the work, or a locator: `cas:<hash>` or `file:<path>@<oid>`'')
                  (failure EvidenceMissing (lit ''finish a plan node'') (lit ''missing string argument `evidence`'')))
                (arg_str ''evidence'' args)) (\<lambda>raw.
            with_arg desk (pinned_evidence pinner raw) (\<lambda>evidence.
            with_arg desk (node_arg args) (\<lambda>nid. desk_finish nid evidence desk)))
          else if action = lit ''block'' then
            with_arg desk (reason_of args (lit ''block'')) (\<lambda>note.
            with_arg desk (node_arg args) (\<lambda>nid. put_down nid (StopBlocked note) desk))
          else if action = lit ''release'' then
            with_arg desk (reason_of args (lit ''release'')) (\<lambda>note.
            with_arg desk (node_arg args) (\<lambda>nid. put_down nid (HandedBack note) desk))
          else if action = lit ''split'' then
            with_arg desk (node_arg args) (\<lambda>nid.
            with_arg desk (parts_of args) (\<lambda>parts. desk_split nid parts desk))
          else if action = lit ''add'' then
            with_arg desk (parts_of args) (\<lambda>parts. desk_add parts desk)
          else
            Some (desk, Inl (with_recovery ACTIONS (failure InvalidArgs (lit ''read a plan action'') action))))"

end
