(* ===== verification/DeskRuns.thy ===== *)
theory DeskRuns
  imports ClaimDesks
begin

text \<open>
  What a run can do to the plan through its desk: the operations as steps of one relation, the
  invariant they keep, the replay of a run's effects onto the file, and that a held node can always
  be put down.
\<close>

section \<open>A text that says a plan\<close>

definition plan_text :: "rstr \<Rightarrow> roadmap_row list \<Rightarrow> bool" where
  "plan_text txt rows \<longleftrightarrow>
     check_roadmap_shape txt = WellFormed rows \<and> is_plan rows"

lemma shape_typed: "check_roadmap_shape txt = WellFormed rows \<Longrightarrow> \<forall>row \<in> set rows. row_typed row"
  using roadmap_rows_wf by (auto simp: row_typed_def row_wf_def)

lemma is_plan_built:
  assumes "\<forall>row \<in> set rows. row_typed row" "is_plan rows"
  shows "\<exists>t. plan_build rows = Some (Inr t)"
  using assms(1)
proof (cases rule: plan_build_cases)
  case (refused e)
  then show ?thesis using place_accepts [OF assms] by simp
qed blast

text \<open>A built table whose dependencies are those of a plan is a plan, whatever its rows repeat.\<close>

lemma built_is_plan:
  assumes "\<forall>row \<in> set rows'. row_typed row" "plan_build rows' = Some (Inr t)"
    "is_plan rows" "row_edges rows' = row_edges rows"
  shows "is_plan rows'"
proof -
  obtain nodes where "place rows' = Inr nodes" by (rule plan_build_Inr [OF assms(1,2)])
  then have "orderly rows'" using place_sorts [OF assms(1)] by simp
  then show ?thesis using assms(3,4) by (simp add: is_plan_orderly)
qed

lemma row_edges_append: "row_edges (xs @ ys) = row_edges xs \<union> row_edges ys"
  by (auto simp: row_edges_def)

lemma row_edges_none: "\<forall>r \<in> set new. row_needs r = [] \<Longrightarrow> row_edges new = {}"
  by (auto simp: row_edges_def)

lemma row_edges_split:
  assumes "\<forall>r \<in> set new. row_needs r = []"
  shows "row_edges (take j rows @ new @ drop j rows) = row_edges rows"
proof -
  have "row_edges (take j rows @ new @ drop j rows) = row_edges (take j rows) \<union> row_edges (drop j rows)"
    by (simp add: row_edges_append row_edges_none [OF assms])
  also have "\<dots> = row_edges rows" unfolding row_edges_append [symmetric] by simp
  finally show ?thesis .
qed

lemma plan_text_tree:
  assumes "plan_text txt rows"
  obtains t where "plan_build rows = Some (Inr t)"
  using assms is_plan_built [of rows] shape_typed [of "txt" rows] unfolding plan_text_def by blast

text \<open>A change of status and evidence keeps a plan a plan, when the row is a leaf and was not done.\<close>

definition restate :: "node_id \<Rightarrow> roadmap_status \<Rightarrow> evidence_cell \<Rightarrow> roadmap_row list \<Rightarrow> roadmap_row list" where
  "restate n status ev rows =
     map (\<lambda>r. if row_id r = n then r\<lparr>row_status := status, row_evidence := ev\<rparr> else r) rows"

lemma restate_keeps:
  "map row_id (restate n status ev rows) = map row_id rows"
  "map row_needs (restate n status ev rows) = map row_needs rows"
  by (simp_all add: restate_def comp_def if_distrib cong: if_cong)

lemma restate_ids: "row_id ` set (restate n status ev rows) = row_id ` set rows"
  using restate_keeps(1) [of n status ev rows] by (metis list.set_map)

lemma restate_mem:
  assumes "r' \<in> set (restate n status ev rows)"
  obtains r where "r \<in> set rows" "row_id r' = row_id r" "row_needs r' = row_needs r"
    "row_status r' = (if row_id r = n then status else row_status r)"
  using assms by (auto simp: restate_def split: if_splits)

lemma restate_edges: "row_edges (restate n status ev rows) = row_edges rows"
proof -
  have "row_edges rows = (\<Union>p \<in> set (zip (map row_id rows) (map row_needs rows)). (\<lambda>need. (need, fst p)) ` set (snd p))" for rows
    by (induction rows) auto
  then show ?thesis by (simp add: restate_keeps)
qed

definition leaf_row :: "roadmap_row list \<Rightarrow> node_id \<Rightarrow> bool" where
  "leaf_row rows n \<longleftrightarrow> (\<forall>r \<in> set rows. parent (row_id r) \<noteq> Some n)"

lemma restate_plan:
  assumes "is_plan rows" "leaf_row rows n" "row \<in> set rows" "row_id row = n" "row_status row \<noteq> Done"
  shows "is_plan (restate n status ev rows)"
  unfolding is_plan_def
proof (intro conjI)
  note P = assms(1) [unfolded is_plan_def]
  show "distinct (map row_id (restate n status ev rows))" using P restate_keeps(1) by metis
  show "acyclic (row_edges (restate n status ev rows))" using P by (simp add: restate_edges)
  show "parents_there (restate n status ev rows)"
    unfolding parents_there_def restate_ids
  proof (intro ballI allI impI)
    fix r' up assume r': "r' \<in> set (restate n status ev rows)" "parent (row_id r') = Some up"
    then obtain r where "r \<in> set rows" "row_id r' = row_id r" by (blast elim: restate_mem)
    then show "up \<in> row_id ` set rows" using P r' by (auto simp: parents_there_def)
  qed
  show "\<forall>row \<in> set (restate n status ev rows).
      set (row_needs row) \<subseteq> row_id ` set (restate n status ev rows) - {row_id row}"
    unfolding restate_ids using P by (metis restate_mem)
  show "\<forall>row \<in> set (restate n status ev rows). \<forall>kid \<in> set (restate n status ev rows).
      row_status row = Done \<and> parent (row_id kid) = Some (row_id row) \<longrightarrow> row_status kid = Done"
  proof (intro ballI impI)
    fix a' k' assume a': "a' \<in> set (restate n status ev rows)" and k': "k' \<in> set (restate n status ev rows)"
      and d: "row_status a' = Done \<and> parent (row_id k') = Some (row_id a')"
    obtain a where a: "a \<in> set rows" "row_id a' = row_id a" "row_status a' = (if row_id a = n then status else row_status a)"
      using a' by (blast elim: restate_mem)
    obtain k where k: "k \<in> set rows" "row_id k' = row_id k" "row_status k' = (if row_id k = n then status else row_status k)"
      using k' by (blast elim: restate_mem)
    have an: "row_id a \<noteq> n" using assms(2) k d a by (auto simp: leaf_row_def)
    then have "row_status k = Done" using P a k d by (metis (no_types, lifting))
    moreover have "k = row" if "row_id k = n"
      using P k(1) assms(3,4) that by (metis (no_types, lifting) distinct_map inj_onD)
    ultimately show "row_status k' = Done" using k assms(5) by auto
  qed
qed

lemma restate_leaf: "leaf_row (restate n status ev rows) m \<longleftrightarrow> leaf_row rows m"
  unfolding leaf_row_def using restate_ids [of n status ev rows] by (metis (no_types, lifting) image_iff)

lemma set_status_plan:
  assumes doc: "plan_text txt rows" and leaf: "leaf_row rows n"
    and row: "row \<in> set rows" "row_id row = n" "row_status row \<noteq> Done"
    and ev: "evidence_ok evidence" "\<not> (status = Done \<and> evidence = None)"
  obtains out where "set_roadmap_status txt n status evidence = Inr out"
    "plan_text out (restate n status (evidence_of evidence) rows)"
proof -
  have shape: "check_roadmap_shape txt = WellFormed rows" and plan: "is_plan rows" using doc by (auto simp: plan_text_def)
  then have dist: "distinct (map row_id rows)" by (simp add: is_plan_def)
  then have "find (\<lambda>r. row_id r = n) rows = Some row" using find_key [OF dist row(1)] row(2) by simp
  then obtain out where out: "set_roadmap_status txt n status evidence = Inr out"
    using set_roadmap_status_Inr [of "txt" n status evidence] shape ev(2) by blast
  have "check_roadmap_shape out = WellFormed (restate n status (evidence_of evidence) rows)"
    using set_status_rows [OF shape dist ev(1) out] by (simp add: restate_def)
  moreover have "is_plan (restate n status (evidence_of evidence) rows)"
    by (rule restate_plan [OF plan leaf row])
  ultimately show thesis using out that by (auto simp: plan_text_def)
qed


section \<open>The invariant of a desk\<close>

definition held_in :: "roadmap_row list \<Rightarrow> node_id \<Rightarrow> bool" where
  "held_in rows n \<longleftrightarrow> leaf_row rows n \<and> (\<exists>row \<in> set rows. row_id row = n \<and> row_status row = InProgress)"

definition desk_ok :: "claim_desk \<Rightarrow> bool" where
  "desk_ok d \<longleftrightarrow> (\<exists>rows. plan_text (cd_text d) rows \<and> (\<forall>n. holding d = Some n \<longrightarrow> held_in rows n))"

lemma desk_tree_plan: "plan_text (cd_text d) rows \<Longrightarrow> desk_tree d = plan_build rows"
  by (simp add: desk_tree_def plan_text_def)

lemma claim_row:
  assumes doc: "plan_text txt rows" and t: "plan_build rows = Some (Inr t)" and c: "claim t n = Inr h"
  shows "h = Held n" "leaf_row rows n" "\<exists>row \<in> set rows. row_id row = n \<and> row_status row = NotStarted"
proof -
  have typed: "\<forall>row \<in> set rows. row_typed row" using doc shape_typed by (auto simp: plan_text_def)
  obtain node where node: "h = Held n" "plan_get t n = Some node" "is_leaf node" "node_status node = NotStarted"
    using c by (auto simp: claim_cases)
  show "h = Held n" by fact
  have ok: "plan_ok (plan_nodes t)" by (rule built_plan_ok [OF typed t])
  have keys: "set (bt_keys (plan_nodes t)) = row_id ` set rows" by (rule plan_keys [OF typed t])
  have "filter (\<lambda>m. parent m = Some n) (bt_keys (plan_nodes t)) = []"
    using plan_okD(4) [OF ok] node(2,3) by (auto simp: plan_get_def is_leaf_def)
  then have "\<forall>m \<in> set (bt_keys (plan_nodes t)). parent m \<noteq> Some n" by (simp add: filter_empty_conv)
  then show "leaf_row rows n" unfolding keys leaf_row_def by blast
  have "row_at rows n = Some (pn_row node)" using built_get [OF typed t, of n] node(2) by simp
  then show "\<exists>row \<in> set rows. row_id row = n \<and> row_status row = NotStarted"
    using row_at_Some node(4) by blast
qed


section \<open>Answers\<close>

lemma fold_insert_values:
  fixes entries :: "('b::linorder \<times> 'c) list"
  shows "snd ` set (fold (\<lambda>(key, v). bt_insert key v) entries m) \<subseteq> snd ` set entries \<union> snd ` set m"
proof (induction entries arbitrary: m)
  case (Cons e es)
  have "snd ` set (bt_insert k v m) \<subseteq> insert v (snd ` set m)" for k :: 'b and v :: 'c and m
    by (induction k v m rule: bt_insert.induct) auto
  from this [of "fst e" "snd e" m] Cons.IH [of "bt_insert (fst e) (snd e) m"] show ?case
    by (cases e) (simp, blast)
qed simp

lemma answer_Inr:
  assumes "\<forall>e \<in> set entries. fits (snd e, 1)"
  shows "\<exists>p. answer entries = Inr p"
proof -
  let ?m = "fold (\<lambda>(key, v). bt_insert key v) entries bt_empty"
  have "fits p" if pin: "p \<in> set (rev (map (\<lambda>entry. (snd entry, 1)) ?m))" for p
  proof -
    obtain e where e: "e \<in> set ?m" "p = (snd e, 1)" using pin by auto
    then have "snd e \<in> snd ` set entries"
      using fold_insert_values [of entries bt_empty] by (auto simp: bt_empty_def)
    then show ?thesis using assms e(2) by auto
  qed
  then show ?thesis
    using walk_pending_decides [of "rev (map (\<lambda>entry. (snd entry, 1)) ?m)"]
    by (auto simp: answer_def payload_new_def reject_floats_and_depth_def split: sum.splits)
qed

lemma fits_leaves [simp]: "fits (JString s, k)" "fits (JBool b, k)" "fits (JNumber (PosInt i), k)"
  by (simp_all add: fits_plain)

lemma fits_strings [simp]: "fits (JArray (map (\<lambda>x. JString (f x)) xs), 1)"
  by (subst fits_container) (auto simp: PAYLOAD_DEPTH_MAX_def)


section \<open>Operations on a desk in order\<close>

lemma exit_has_evidence: "\<not> (exit_status ex = Done \<and> exit_evidence ex = None)"
proof (cases ex)
  case (Stopped n why)
  then show ?thesis by (cases why) auto
qed simp

lemma desk_record_held:
  assumes doc: "plan_text (cd_text d) rows" and held: "held_in rows (exit_id ex)"
    and ev: "evidence_ok (exit_evidence ex)"
  obtains out item where
    "desk_record ex d = Some (d\<lparr>cd_text := out, cd_changed := True,
       cd_effects := cd_effects d @ [PutDown (exit_id ex) item ex]\<rparr>, Inr ())"
    "plan_text out (restate (exit_id ex) (exit_status ex) (evidence_of (exit_evidence ex)) rows)"
    "effect_apply (PutDown (exit_id ex) item ex) (cd_text d) = Inr out"
proof -
  obtain t where t: "plan_build rows = Some (Inr t)" by (rule plan_text_tree [OF doc])
  obtain row where row: "leaf_row rows (exit_id ex)" "row \<in> set rows" "row_id row = exit_id ex" "row_status row = InProgress"
    using held by (auto simp: held_in_def)
  obtain out where out: "set_roadmap_status (cd_text d) (exit_id ex) (exit_status ex) (exit_evidence ex) = Inr out"
    "plan_text out (restate (exit_id ex) (exit_status ex) (evidence_of (exit_evidence ex)) rows)"
    using set_status_plan [OF doc row(1-3) _ ev exit_has_evidence] row(4) by auto
  then have "desk_record ex d = Some (d\<lparr>cd_text := out, cd_changed := True,
      cd_effects := cd_effects d @ [PutDown (exit_id ex) (item_of t (exit_id ex)) ex]\<rparr>, Inr ())"
    by (simp add: desk_record_def with_tree_def desk_tree_plan [OF doc] t desk_take_def)
  then show thesis using that out by simp
qed

lemma leave_held:
  assumes doc: "plan_text (cd_text d) rows" and held: "cd_held d = Some h" "held_in rows (held_id h)"
    and way: "exit_id (way h) = held_id h" "evidence_ok (exit_evidence (way h))"
    and plain: "\<forall>e \<in> set entries. fits (snd e, 1)"
  obtains out eff p where
    "leave (held_id h) way entries d = Some (d\<lparr>cd_held := None, cd_text := out, cd_changed := True,
       cd_effects := cd_effects d @ [eff]\<rparr>, Inr p)"
    "plan_text out (restate (held_id h) (exit_status (way h)) (evidence_of (exit_evidence (way h))) rows)"
    "effect_apply eff (cd_text d) = Inr out"
proof -
  have doc': "plan_text (cd_text (d\<lparr>cd_held := None\<rparr>)) rows" using doc by simp
  have held': "held_in rows (exit_id (way h))" using held(2) way(1) by simp
  obtain out item where r: "desk_record (way h) (d\<lparr>cd_held := None\<rparr>) =
      Some (d\<lparr>cd_held := None, cd_text := out, cd_changed := True,
        cd_effects := cd_effects d @ [PutDown (held_id h) item (way h)]\<rparr>, Inr ())"
    "plan_text out (restate (held_id h) (exit_status (way h)) (evidence_of (exit_evidence (way h))) rows)"
    "effect_apply (PutDown (held_id h) item (way h)) (cd_text d) = Inr out"
    by (rule desk_record_held [OF doc' held' way(2)]) (use way(1) in simp)
  obtain p where p: "answer entries = Inr p" using answer_Inr [OF plain] by blast
  have "leave (held_id h) way entries d = Some (d\<lparr>cd_held := None, cd_text := out, cd_changed := True,
       cd_effects := cd_effects d @ [PutDown (held_id h) item (way h)]\<rparr>, Inr p)"
    using held(1) r(1) p by (simp add: leave_def take_held_def)
  then show thesis using that r(2,3) by blast
qed

lemma leave_other:
  assumes "holding d \<noteq> Some n"
  shows "\<exists>e. leave n way entries d = Some (d, Inl e) \<and> err_code e = InvalidArgs"
  using assms by (auto simp: leave_def take_held_def holding_def split: option.splits)

lemma desk_claim_fresh:
  assumes doc: "plan_text (cd_text d) rows" and t: "plan_build rows = Some (Inr t)"
    and free: "holding d = None" and c: "claim t n = Inr h" and b: "booking (Claimed n (item_of t n)) = Inr u"
  obtains out p where
    "desk_claim booking n d = Some (d\<lparr>cd_text := out, cd_changed := True,
       cd_effects := cd_effects d @ [Claimed n (item_of t n)], cd_held := Some (Held n)\<rparr>, Inr p)"
    "plan_text out (restate n InProgress Empty rows)" "held_in (restate n InProgress Empty rows) n"
    "effect_apply (Claimed n (item_of t n)) (cd_text d) = Inr out"
proof -
  note row = claim_row [OF doc t c]
  obtain r where r: "r \<in> set rows" "row_id r = n" "row_status r = NotStarted" using row(3) by blast
  obtain out where out: "set_roadmap_status (cd_text d) n InProgress None = Inr out"
    "plan_text out (restate n InProgress (evidence_of None) rows)"
    using set_status_plan [OF doc row(2) r(1,2), of None InProgress] r(3) by (auto simp: evidence_ok_def)
  have e: "evidence_of None = Empty" by (simp add: evidence_of_def)
  have "\<forall>e \<in> set [(lit ''node'', JString (node_str n)), (lit ''item'', JString (item_of t n)),
      (lit ''held_by'', JString (cd_who d))]. fits (snd e, 1)" by simp
  then obtain p where p: "answer [(lit ''node'', JString (node_str n)), (lit ''item'', JString (item_of t n)),
      (lit ''held_by'', JString (cd_who d))] = Inr p" using answer_Inr by blast
  have "held_in (restate n InProgress Empty rows) n"
  proof -
    have "r\<lparr>row_status := InProgress, row_evidence := Empty\<rparr> \<in> set (restate n InProgress Empty rows)"
      using r by (auto simp: restate_def image_iff intro!: bexI [of _ r])
    then show ?thesis using row(2) r(2) unfolding held_in_def restate_leaf
      by (intro conjI bexI [of _ "r\<lparr>row_status := InProgress, row_evidence := Empty\<rparr>"]) simp_all
  qed
  moreover have "desk_claim booking n d = Some (d\<lparr>cd_text := out, cd_changed := True,
       cd_effects := cd_effects d @ [Claimed n (item_of t n)], cd_held := Some (Held n)\<rparr>, Inr p)"
    using free c b row(1) out(1) p
    by (simp add: desk_claim_def with_tree_def desk_tree_plan [OF doc] t desk_take_def)
  ultimately show thesis using that out e by simp
qed

lemma desk_claim_refused:
  assumes doc: "plan_text (cd_text d) rows" and t: "plan_build rows = Some (Inr t)"
    and no: "\<not> (holding d = None \<and> (\<exists>h. claim t n = Inr h) \<and> (\<exists>u. booking (Claimed n (item_of t n)) = Inr u))"
  shows "\<exists>e. desk_claim booking n d = Some (d, Inl e)"
proof (cases "holding d")
  case None
  then show ?thesis using no
    by (cases "claim t n"; cases "booking (Claimed n (item_of t n))")
      (auto simp: desk_claim_def with_tree_def desk_tree_plan [OF doc] t)
qed (simp add: desk_claim_def)


lemma place_built:
  assumes "\<forall>row \<in> set rows. row_typed row"
  shows "\<exists>b. plan_build rows = Some b"
proof (cases "place rows")
  case (Inr nodes)
  have "plan_ok nodes" by (rule arranged_plan(1) [OF place_Inr_arranged [OF Inr] assms])
  then show ?thesis using divide_conserves Inr by (auto simp: plan_build_def)
qed (simp add: plan_build_def)

lemma shape_child_rows_needs: "row \<in> set (child_rows p m cs) \<Longrightarrow> row_needs row = []"
  by (auto simp: child_rows_def child_row_def in_set_enumerate_eq)

lemma trimmed_child_ok: "child_ok c \<Longrightarrow> child_ok (trimmed_child c)"
  using set_trim [of "child_item c"] by (auto simp: child_ok_def trimmed_child_def)

lemma leaf_row_last_ordinal: "leaf_row rows p \<Longrightarrow> last_ordinal_under p rows = 0"
  by (auto simp: last_ordinal_under_def leaf_row_def filter_empty_conv)

lemma desk_split_cases:
  assumes doc: "plan_text (cd_text d) rows" and held: "\<forall>n. holding d = Some n \<longrightarrow> held_in rows n"
    and ok: "\<forall>c \<in> set children. child_ok c" "length children \<le> u32_max"
  obtains e where "desk_split n children d = Some (d, Inl e)"
  | grown eff rows' p where "desk_split n children d = Some (d\<lparr>cd_text := grown, cd_changed := True,
       cd_effects := cd_effects d @ [eff], cd_held := None\<rparr>, Inr p)"
    "plan_text grown rows'" "effect_apply eff (cd_text d) = Inr grown"
proof -
  let ?cs = "map trimmed_child children" and ?eff = "SplitInto n (map trimmed_child children)"
  consider (refused) e where "refuse_unless_holding n d = Inl e" | (held) "refuse_unless_holding n d = Inr ()"
    by (cases "refuse_unless_holding n d") auto
  then show thesis
  proof cases
    case refused
    then show thesis using that(1) by (simp add: desk_split_def)
  next
    case held': held
    then have "holding d = Some n"
      by (auto simp: refuse_unless_holding_def Let_def split: option.splits if_splits)
    then have leaf: "leaf_row rows n" using held by (simp add: held_in_def)
    show thesis
    proof (cases "effect_apply ?eff (cd_text d)")
      case (Inl e)
      then show thesis using that(1) held' by (simp add: desk_split_def Let_def)
    next
      case (Inr grown)
      have shape: "check_roadmap_shape (cd_text d) = WellFormed rows" using doc by (simp add: plan_text_def)
      have cs: "\<forall>c \<in> set ?cs. child_ok c" using ok(1) trimmed_child_ok by auto
      have room: "last_ordinal_under n rows + length ?cs \<le> u32_max"
        using leaf_row_last_ordinal [OF leaf] ok(2) by simp
      have ins: "insert_children (cd_text d) n ?cs = Inr grown" using Inr by simp
      obtain rows' where rows': "check_roadmap_shape grown = WellFormed rows'" "row_edges rows' = row_edges rows"
      proof -
        obtain j where j: "check_roadmap_shape grown =
            WellFormed (take j rows @ child_rows n (last_ordinal_under n rows) ?cs @ drop j rows)"
          using insert_children_reads [OF shape cs room ins] by blast
        show thesis by (rule that [OF j row_edges_split]) (simp add: shape_child_rows_needs)
      qed
      have typed: "\<forall>r \<in> set rows'. row_typed r" by (rule shape_typed [OF rows'(1)])
      obtain b where b: "plan_build rows' = Some b"
        using place_built [OF typed] by blast
      show thesis
      proof (cases b)
        case (Inl e)
        then show thesis using that(1) held' Inr rows'(1) b by (simp add: desk_split_def Let_def)
      next
        case t: (Inr t)
        then have plan: "plan_text grown rows'"
          using built_is_plan [OF typed _ _ rows'(2)] b rows'(1) doc by (simp add: plan_text_def)
        have "\<exists>p. answer [(lit ''node'', JString (node_str n)),
             (lit ''children'', JArray (map (\<lambda>c. JString (trim (child_item c))) children)),
             (lit ''unfinished'', JNumber (PosInt (unfinished_under t n)))] = Inr p"
          by (rule answer_Inr) (simp add: fits_strings [unfolded One_nat_def])
        then show thesis using that(2) [OF _ plan Inr] held' Inr rows'(1) b t
          by (auto simp: desk_split_def Let_def)
      qed
    qed
  qed
qed

lemma add_rows_reads:
  assumes "check_roadmap_shape txt = WellFormed rows" "\<forall>c \<in> set cs. child_ok c" "add_rows m k cs txt = Inr (grown, effs)"
  shows "\<exists>new. check_roadmap_shape grown = WellFormed (rows @ new) \<and>
     (\<forall>r \<in> set new. row_needs r = [] \<and> parent (row_id r) = None)"
  using assms
proof (induction cs arbitrary: k "txt" rows effs)
  case (Cons c cs)
  then obtain ord n mid effs' where s: "node_parse (show_nat ord) = Inr n"
    "append_top_level txt n (trimmed_child c) = Inr mid" "add_rows m (Suc k) cs mid = Inr (grown, effs')"
    by (auto simp: and_then_eq_Inr Let_def)
  have n: "node_wf n" using s(1) by (simp add: node_parse_Inr)
  have "parent n = None" by (rule append_top_level_Inr [OF s(2)])
  moreover have mid: "check_roadmap_shape mid = WellFormed (rows @ [child_row n (trimmed_child c)])"
    using append_top_level_reads [OF Cons.prems(1) n trimmed_child_ok s(2)] Cons.prems(2) by simp
  moreover obtain new where "check_roadmap_shape grown = WellFormed ((rows @ [child_row n (trimmed_child c)]) @ new)"
    "\<forall>r \<in> set new. row_needs r = [] \<and> parent (row_id r) = None"
    using Cons.IH [OF mid _ s(3)] Cons.prems(2) by auto
  ultimately show ?case
    by (intro exI [of _ "child_row n (trimmed_child c) # new"]) (simp add: child_row_def)
qed simp

fun replay :: "claim_effect list \<Rightarrow> rstr \<Rightarrow> rstr ax_result" where
  "replay [] txt = Inr txt"
| "replay (eff # effs) txt = and_then (effect_apply eff txt) (replay effs)"

lemma add_rows_replay: "add_rows m k cs txt = Inr (grown, effs) \<Longrightarrow> replay effs txt = Inr grown"
  by (induction cs arbitrary: k "txt" effs) (auto simp: and_then_eq_Inr Let_def)

lemma desk_add_cases:
  assumes doc: "plan_text (cd_text d) rows" and held: "\<forall>n. holding d = Some n \<longrightarrow> held_in rows n"
    and ok: "\<forall>c \<in> set cs. child_ok c"
  obtains e where "desk_add cs d = Some (d, Inl e)"
  | grown effs rows' p where "desk_add cs d = Some (d\<lparr>cd_text := grown, cd_changed := True,
       cd_effects := cd_effects d @ effs\<rparr>, Inr p)"
    "plan_text grown rows'" "\<forall>n. holding d = Some n \<longrightarrow> held_in rows' n" "replay effs (cd_text d) = Inr grown"
proof (cases "addr_str (cd_room d) \<noteq> HALL_MAYOR \<or> cs = []")
  case True
  then have "\<exists>e. desk_add cs d = Some (d, Inl e)"
    unfolding desk_add_def by (cases "addr_str (cd_room d) \<noteq> HALL_MAYOR") (simp_all only: simp_thms if_True if_False, blast+)
  then show thesis using that(1) by blast
next
  case False
  obtain t where t: "plan_build rows = Some (Inr t)" by (rule plan_text_tree [OF doc])
  have run: "desk_add cs d = (case add_rows (last_top_level t) 1 cs (cd_text d) of
            Inl e \<Rightarrow> Some (d, Inl e)
          | Inr (grown, effs) \<Rightarrow>
              (case check_roadmap_shape grown of
                 Malformed _ \<Rightarrow>
                   Some (d, Inl (add_refusal (lit ''the rows would leave a table that does not parse'')
                     (lit ''shorten the items; each must fit one table row'')))
               | WellFormed parsed \<Rightarrow>
                   (case plan_build parsed of
                      None \<Rightarrow> None
                    | Some (Inl e) \<Rightarrow> Some (d, Inl e)
                    | Some (Inr _) \<Rightarrow>
                        Some (d\<lparr>cd_text := grown, cd_changed := True, cd_effects := cd_effects d @ effs\<rparr>,
                          answer [(lit ''nodes'', JArray (map (\<lambda>eff. JString (node_str (effect_id eff))) effs))]))))"
    using False unfolding desk_add_def with_tree_def desk_tree_plan [OF doc] t by simp
  show thesis
  proof (cases "add_rows (last_top_level t) 1 cs (cd_text d)")
    case (Inl e)
    then show thesis using that(1) run by simp
  next
    case (Inr ge)
    obtain grown effs where ge: "ge = (grown, effs)" by (cases ge)
    have shape: "check_roadmap_shape (cd_text d) = WellFormed rows" using doc by (simp add: plan_text_def)
    obtain new where new: "check_roadmap_shape grown = WellFormed (rows @ new)"
      "\<forall>r \<in> set new. row_needs r = [] \<and> parent (row_id r) = None"
      using add_rows_reads [OF shape ok Inr [unfolded ge]] by blast
    have typed: "\<forall>r \<in> set (rows @ new). row_typed r" by (rule shape_typed [OF new(1)])
    have edges: "row_edges (rows @ new) = row_edges rows"
      using new(2) by (simp add: row_edges_append row_edges_none)
    obtain b where b: "plan_build (rows @ new) = Some b" using place_built [OF typed] by blast
    show thesis
    proof (cases b)
      case (Inl e)
      then show thesis using that(1) run Inr ge new(1) b by simp
    next
      case t': (Inr t')
      have plan: "plan_text grown (rows @ new)"
        using built_is_plan [OF typed _ _ edges] b t' new(1) doc by (simp add: plan_text_def)
      have "\<forall>n. holding d = Some n \<longrightarrow> held_in (rows @ new) n"
        using held new(2) by (auto simp: held_in_def leaf_row_def)
      moreover have "\<exists>p. answer [(lit ''nodes'', JArray (map (\<lambda>eff. JString (node_str (effect_id eff))) effs))] = Inr p"
        by (rule answer_Inr) (simp add: fits_strings [unfolded One_nat_def])
      ultimately show thesis
        using that(2) [OF _ plan] add_rows_replay [OF Inr [unfolded ge]] run Inr ge new(1) b t' by auto
    qed
  qed
qed


section \<open>Runs of a desk\<close>

text \<open>
  What a run does to the plan, one operation at a time, refusals included. Three operations carry a
  condition the desk does not check: a node is finished with a well-formed locator whose text has no
  column separator and, for a file, whose address has no \<open>#\<close>; a split and an addition name items
  without a line feed and \<open>u32\<close> weights; and a split has at most \<open>u32::MAX\<close> parts. Without the first
  two the table can be left unreadable (\<open>barred_evidence_breaks_the_table\<close>) or cut short
  (\<open>newline_item_truncates_plan\<close>).
\<close>

inductive desk_step :: "claim_desk \<Rightarrow> claim_desk \<Rightarrow> bool" where
  step_list: "desk_list d = Some (d', r) \<Longrightarrow> desk_step d d'"
| step_claim: "desk_claim booking n d = Some (d', r) \<Longrightarrow> desk_step d d'"
| step_finish: "desk_finish n loc d = Some (d', r) \<Longrightarrow> evidence_ok (Some loc) \<Longrightarrow> desk_step d d'"
| step_put_down: "put_down n why d = Some (d', r) \<Longrightarrow> desk_step d d'"
| step_split: "desk_split n cs d = Some (d', r) \<Longrightarrow> \<forall>c \<in> set cs. child_ok c \<Longrightarrow> length cs \<le> u32_max \<Longrightarrow> desk_step d d'"
| step_add: "desk_add cs d = Some (d', r) \<Longrightarrow> \<forall>c \<in> set cs. child_ok c \<Longrightarrow> desk_step d d'"
| step_abandon: "abandon d = Some (d', u) \<Longrightarrow> desk_step d d'"

text \<open>What a step leaves: a desk in order, and effects that say what it did.\<close>

definition moved_on :: "claim_desk \<Rightarrow> claim_desk \<Rightarrow> bool" where
  "moved_on d d' \<longleftrightarrow> desk_ok d' \<and>
     (\<exists>effs. cd_effects d' = cd_effects d @ effs \<and> replay effs (cd_text d) = Inr (cd_text d'))"

lemma moved_on_refl: "desk_ok d \<Longrightarrow> moved_on d d"
  by (auto simp: moved_on_def)

lemma replay_append: "replay (es @ fs) txt = and_then (replay es txt) (replay fs)"
  by (induction es arbitrary: "txt") (simp_all add: and_then_def split: sum.split)

lemma moved_on_trans: "moved_on a b \<Longrightarrow> moved_on b c \<Longrightarrow> moved_on a c"
  unfolding moved_on_def by (auto simp: replay_append)

lemma leave_moves:
  assumes ok: "desk_ok d" and run: "leave n way entries d = Some (d', r)"
    and way: "\<And>h. exit_id (way h) = held_id h" "\<And>h. evidence_ok (exit_evidence (way h))"
    and plain: "\<forall>e \<in> set entries. fits (snd e, 1)"
  shows "moved_on d d'"
proof (cases "holding d = Some n")
  case True
  then obtain h where h: "cd_held d = Some h" "held_id h = n" by (auto simp: holding_def)
  obtain rows where rows: "plan_text (cd_text d) rows" "held_in rows (held_id h)"
    using ok True h(2) by (auto simp: desk_ok_def)
  obtain out eff p where o: "leave (held_id h) way entries d = Some (d\<lparr>cd_held := None, cd_text := out, cd_changed := True,
       cd_effects := cd_effects d @ [eff]\<rparr>, Inr p)"
    "plan_text out (restate (held_id h) (exit_status (way h)) (evidence_of (exit_evidence (way h))) rows)"
    "effect_apply eff (cd_text d) = Inr out"
    by (rule leave_held [where way = way, OF rows(1) h(1) rows(2) way plain])
  then have "d' = d\<lparr>cd_held := None, cd_text := out, cd_changed := True, cd_effects := cd_effects d @ [eff]\<rparr>"
    using run h(2) by simp
  then show ?thesis using o(2,3) by (auto simp: moved_on_def desk_ok_def holding_def)
next
  case False
  then show ?thesis using leave_other [OF False, of way entries] run moved_on_refl [OF ok] by auto
qed

lemma with_tree_desk: "with_tree d (\<lambda>t. Some (d, f t)) = Some (d', r) \<Longrightarrow> d' = d"
  by (auto simp: with_tree_def split: option.splits sum.splits)

lemma desk_step_moves:
  assumes "desk_step d d'" "desk_ok d"
  shows "moved_on d d'"
  using assms(1)
proof cases
  case (step_list r)
  have "d' = d" by (rule with_tree_desk [OF step_list [unfolded desk_list_def Let_def]])
  then show ?thesis using moved_on_refl assms(2) by simp
next
  case (step_claim booking n r)
  obtain rows where rows: "plan_text (cd_text d) rows" using assms(2) by (auto simp: desk_ok_def)
  obtain t where t: "plan_build rows = Some (Inr t)" by (rule plan_text_tree [OF rows])
  show ?thesis
  proof (cases "holding d = None \<and> (\<exists>h. claim t n = Inr h) \<and> (\<exists>u. booking (Claimed n (item_of t n)) = Inr u)")
    case True
    then obtain h u where c: "holding d = None" "claim t n = Inr h" "booking (Claimed n (item_of t n)) = Inr u" by blast
    obtain out p where o: "desk_claim booking n d = Some (d\<lparr>cd_text := out, cd_changed := True,
       cd_effects := cd_effects d @ [Claimed n (item_of t n)], cd_held := Some (Held n)\<rparr>, Inr p)"
      "plan_text out (restate n InProgress Empty rows)" "held_in (restate n InProgress Empty rows) n"
      "effect_apply (Claimed n (item_of t n)) (cd_text d) = Inr out"
      by (rule desk_claim_fresh [where booking = booking, OF rows t c])
    then show ?thesis using step_claim by (auto simp: moved_on_def desk_ok_def holding_def)
  next
    case False
    then show ?thesis using desk_claim_refused [where booking = booking, OF rows t False] step_claim moved_on_refl [OF assms(2)] by auto
  qed
next
  case (step_finish n loc r)
  show ?thesis
    by (rule leave_moves [OF assms(2) step_finish(1) [unfolded desk_finish_def]])
      (use step_finish(2) in \<open>simp_all add: held_finish_def\<close>)
next
  case (step_put_down n why r)
  show ?thesis
    by (rule leave_moves [OF assms(2) step_put_down(1) [unfolded put_down_def]])
      (simp_all add: held_stop_def evidence_ok_def)
next
  case (step_split n cs r)
  obtain rows where rows: "plan_text (cd_text d) rows" "\<forall>n. holding d = Some n \<longrightarrow> held_in rows n"
    using assms(2) by (auto simp: desk_ok_def)
  show ?thesis
  proof (rule desk_split_cases [OF rows step_split(2,3), of n])
    fix e assume "desk_split n cs d = Some (d, Inl e)"
    then show ?thesis using step_split(1) moved_on_refl [OF assms(2)] by simp
  next
    fix grown eff rows' p assume "desk_split n cs d = Some (d\<lparr>cd_text := grown, cd_changed := True,
        cd_effects := cd_effects d @ [eff], cd_held := None\<rparr>, Inr p)" "plan_text grown rows'"
      "effect_apply eff (cd_text d) = Inr grown"
    then show ?thesis using step_split(1) by (auto simp: moved_on_def desk_ok_def holding_def)
  qed
next
  case (step_add cs r)
  obtain rows where rows: "plan_text (cd_text d) rows" "\<forall>n. holding d = Some n \<longrightarrow> held_in rows n"
    using assms(2) by (auto simp: desk_ok_def)
  show ?thesis
  proof (rule desk_add_cases [OF rows step_add(2)])
    fix e assume "desk_add cs d = Some (d, Inl e)"
    then show ?thesis using step_add(1) moved_on_refl [OF assms(2)] by simp
  next
    fix grown effs rows' p assume "desk_add cs d = Some (d\<lparr>cd_text := grown, cd_changed := True,
        cd_effects := cd_effects d @ effs\<rparr>, Inr p)" "plan_text grown rows'"
      "\<forall>n. holding d = Some n \<longrightarrow> held_in rows' n" "replay effs (cd_text d) = Inr grown"
    then show ?thesis using step_add(1) by (auto simp: moved_on_def desk_ok_def holding_def)
  qed
next
  case (step_abandon u)
  show ?thesis
  proof (cases "cd_held d")
    case None
    then show ?thesis using step_abandon moved_on_refl [OF assms(2)] by (simp add: abandon_def)
  next
    case (Some h)
    obtain rows where rows: "plan_text (cd_text (d\<lparr>cd_held := None\<rparr>)) rows" "held_in rows (exit_id (held_stop h FrozeWithoutEvidence))"
      using assms(2) Some by (auto simp: desk_ok_def holding_def held_stop_def)
    have ev: "evidence_ok (exit_evidence (held_stop h FrozeWithoutEvidence))" by (simp add: held_stop_def evidence_ok_def)
    show ?thesis
      by (rule desk_record_held [OF rows ev])
        (use step_abandon Some in \<open>auto simp: abandon_def moved_on_def desk_ok_def holding_def\<close>)
  qed
qed

text \<open>C4. A run that writes what the table can hold keeps the plan a plan, and its effects say what
  it did: from a desk whose copy reads as a plan, after any sequence of listing, claiming, putting
  down and abandoning, of finishing with a well-formed locator whose text has no column separator
  and, for a file, whose address has no \<open>#\<close>, and of splitting (into at most \<open>u32::MAX\<close> parts) and
  adding with items that hold no line feed and \<open>u32\<close> weights, refusals included, the desk's copy
  still reads as a table that is a plan, a held node is a leaf of it in progress, and replaying the
  effects queued since onto the text the sequence began with gives exactly the desk's copy. The
  desk itself takes any locator and any item: the conditions are on what the run passes.\<close>

theorem desk_runs_keep_the_plan:
  assumes "desk_step\<^sup>*\<^sup>* d d'" "desk_ok d"
  shows "desk_ok d' \<and>
     (\<exists>effs. cd_effects d' = cd_effects d @ effs \<and> replay effs (cd_text d) = Inr (cd_text d'))"
proof -
  have "moved_on d d'" using assms
  proof (induction rule: rtranclp_induct)
    case base
    then show ?case by (rule moved_on_refl)
  next
    case (step y z)
    then have "moved_on d y" by blast
    then show ?case using moved_on_trans desk_step_moves [OF step(2)] by (auto simp: moved_on_def)
  qed
  then show ?thesis by (simp add: moved_on_def)
qed

text \<open>C5. A held node can always be put down, and is never stranded: on a desk in order, finishing
  it with evidence the table can hold, blocking or releasing it, and abandoning it at the freeze
  all succeed, leave the run holding nothing, and leave the row saying \<open>Done\<close> with that evidence,
  the status the cause gives with the evidence cleared, or \<open>Blocked\<close>.\<close>

theorem held_node_can_be_put_down:
  assumes "desk_ok d" "cd_held d = Some h"
  shows "(\<forall>loc. evidence_ok (Some loc) \<longrightarrow> (\<exists>d' p rows. desk_finish (held_id h) loc d = Some (d', Inr p) \<and>
        holding d' = None \<and> plan_text (cd_text d') rows \<and>
        (\<exists>row \<in> set rows. row_id row = held_id h \<and> row_status row = Done \<and> row_evidence row = Present loc))) \<and>
     (\<forall>why. \<exists>d' p rows. put_down (held_id h) why d = Some (d', Inr p) \<and>
        holding d' = None \<and> plan_text (cd_text d') rows \<and>
        (\<exists>row \<in> set rows. row_id row = held_id h \<and> row_status row = stop_status why \<and> row_evidence row = Empty)) \<and>
     (\<exists>d' rows. abandon d = Some (d', Inr ()) \<and> holding d' = None \<and> plan_text (cd_text d') rows \<and>
        (\<exists>row \<in> set rows. row_id row = held_id h \<and> row_status row = Blocked))"
proof -
  obtain rows where rows: "plan_text (cd_text d) rows" "held_in rows (held_id h)"
    using assms by (auto simp: desk_ok_def holding_def)
  obtain row where row: "row \<in> set rows" "row_id row = held_id h" using rows(2) by (auto simp: held_in_def)
  have said: "\<exists>r \<in> set (restate (held_id h) status ev rows). row_id r = held_id h \<and> row_status r = status \<and> row_evidence r = ev"
    for status ev
    using row by (intro bexI [of _ "row\<lparr>row_status := status, row_evidence := ev\<rparr>"])
      (auto simp: restate_def image_iff intro!: bexI [of _ row])
  have left: "\<exists>d' p rows'. leave (held_id h) way entries d = Some (d', Inr p) \<and> holding d' = None \<and>
      plan_text (cd_text d') rows' \<and> (\<exists>r \<in> set rows'. row_id r = held_id h \<and> row_status r = exit_status (way h) \<and>
        row_evidence r = evidence_of (exit_evidence (way h)))"
    if way: "exit_id (way h) = held_id h" "evidence_ok (exit_evidence (way h))" and plain: "\<forall>e \<in> set entries. fits (snd e, 1)"
    for way entries
  proof -
    obtain out eff p where o: "leave (held_id h) way entries d = Some (d\<lparr>cd_held := None, cd_text := out, cd_changed := True,
       cd_effects := cd_effects d @ [eff]\<rparr>, Inr p)"
      "plan_text out (restate (held_id h) (exit_status (way h)) (evidence_of (exit_evidence (way h))) rows)"
      by (rule leave_held [where way = way, OF rows(1) assms(2) rows(2) way plain])
    then show ?thesis using said [of "exit_status (way h)" "evidence_of (exit_evidence (way h))"]
      by (intro exI) (auto simp: holding_def)
  qed
  show ?thesis
  proof (intro conjI allI impI)
    fix loc assume ok: "evidence_ok (Some loc)"
    show "\<exists>d' p rows. desk_finish (held_id h) loc d = Some (d', Inr p) \<and>
        holding d' = None \<and> plan_text (cd_text d') rows \<and>
        (\<exists>row \<in> set rows. row_id row = held_id h \<and> row_status row = Done \<and> row_evidence row = Present loc)"
      using left [of "\<lambda>h. held_finish h loc" "[(lit ''node'', JString (node_str (held_id h))),
          (lit ''evidence'', JString (show_locator loc))]"] ok
      by (simp add: desk_finish_def held_finish_def evidence_of_def)
  next
    fix why
    show "\<exists>d' p rows. put_down (held_id h) why d = Some (d', Inr p) \<and>
        holding d' = None \<and> plan_text (cd_text d') rows \<and>
        (\<exists>row \<in> set rows. row_id row = held_id h \<and> row_status row = stop_status why \<and> row_evidence row = Empty)"
      using left [of "\<lambda>h. held_stop h why" "[(lit ''node'', JString (node_str (held_id h))),
          (lit ''red'', JBool (is_red why)), (lit ''why'', JString (stop_line why))]"]
      by (simp add: put_down_def held_stop_def evidence_of_def evidence_ok_def)
  next
    let ?ex = "held_stop h FrozeWithoutEvidence"
    have r: "plan_text (cd_text (d\<lparr>cd_held := None\<rparr>)) rows" "held_in rows (exit_id ?ex)" "evidence_ok (exit_evidence ?ex)"
      using rows by (simp_all add: held_stop_def evidence_ok_def)
    obtain out item where o: "desk_record ?ex (d\<lparr>cd_held := None\<rparr>) = Some (d\<lparr>cd_held := None, cd_text := out, cd_changed := True,
       cd_effects := cd_effects (d\<lparr>cd_held := None\<rparr>) @ [PutDown (exit_id ?ex) item ?ex]\<rparr>, Inr ())"
      "plan_text out (restate (exit_id ?ex) (exit_status ?ex) (evidence_of (exit_evidence ?ex)) rows)"
      by (rule desk_record_held [OF r])
    then show "\<exists>d' rows. abandon d = Some (d', Inr ()) \<and> holding d' = None \<and> plan_text (cd_text d') rows \<and>
        (\<exists>row \<in> set rows. row_id row = held_id h \<and> row_status row = Blocked)"
      using assms(2) said [of Blocked Empty]
      by (intro exI) (auto simp: abandon_def holding_def held_stop_def evidence_of_def)
  qed
qed

text \<open>C8. A claim is decided by the desk's plan and then by the booking, and a refused one changes
  nothing: on a desk in order \<open>claim\<close> succeeds exactly when the run holds nothing, the plan says the
  node may start, and the booking grants the claim it is shown; then the run holds that node.\<close>

theorem desk_claim_decides:
  assumes "desk_ok d" "check_roadmap_shape (cd_text d) = WellFormed rows" "plan_build rows = Some (Inr t)"
  shows "case desk_claim booking n d of
     None \<Rightarrow> False
   | Some (d', Inr _) \<Rightarrow> holding d = None \<and> may_start t n \<and> is_ok (booking (Claimed n (item_of t n))) \<and>
       holding d' = Some n
   | Some (d', Inl _) \<Rightarrow> d' = d \<and> \<not> (holding d = None \<and> may_start t n \<and> is_ok (booking (Claimed n (item_of t n))))"
proof -
  have doc: "plan_text (cd_text d) rows" using assms(1,2) by (auto simp: desk_ok_def plan_text_def)
  have ok: "plan_ok (plan_nodes t)" by (rule built_plan_ok [OF shape_typed [OF assms(2)] assms(3)])
  have start: "(\<exists>h. claim t n = Inr h) \<longleftrightarrow> may_start t n"
    using ready_may_start [OF ok, of n] ready_claim [OF ok, of n] claim_cases [of t n] by auto
  show ?thesis
  proof (cases "holding d = None \<and> (\<exists>h. claim t n = Inr h) \<and> (\<exists>u. booking (Claimed n (item_of t n)) = Inr u)")
    case True
    then obtain h u where c: "holding d = None" "claim t n = Inr h" "booking (Claimed n (item_of t n)) = Inr u" by blast
    obtain out p where o: "desk_claim booking n d = Some (d\<lparr>cd_text := out, cd_changed := True,
       cd_effects := cd_effects d @ [Claimed n (item_of t n)], cd_held := Some (Held n)\<rparr>, Inr p)"
      by (rule desk_claim_fresh [where booking = booking, OF doc assms(3) c])
    have "may_start t n" using start c(2) by blast
    then show ?thesis using o c by (simp add: holding_def)
  next
    case False
    then show ?thesis using desk_claim_refused [where booking = booking, OF doc assms(3) False] start by (auto simp: is_ok_iff)
  qed
qed


section \<open>A small run\<close>

definition small_desk :: claim_desk where
  "small_desk = desk_new (lit ''builder'') (Address (lit ''lab'')) (sheet [row_one, row_two])"

lemma small_plan: "plan_text (cd_text small_desk) [row_one, row_two]"
proof -
  have "row_edges [row_one, row_two] = {(node_of [2], node_of [3])}"
    by (simp add: row_one_def row_two_def)
  moreover have "acyclic ({} :: (node_id \<times> node_id) set)" by (simp add: acyclic_def)
  ultimately have "is_plan [row_one, row_two]"
    using small_ids by (auto simp: is_plan_def parents_there_def parent_of acyclic_insert row_one_def row_two_def)
  then show ?thesis using small_sheet by (simp add: plan_text_def small_desk_def desk_new_def row_one_def row_two_def)
qed

lemma small_desk_ok: "desk_ok small_desk"
  using small_plan by (auto simp: desk_ok_def holding_def small_desk_def desk_new_def)

lemma small_may_start:
  assumes "plan_build [row_one, row_two] = Some (Inr t)"
  shows "may_start t (node_of [2])"
proof -
  have typed: "\<forall>row \<in> set [row_one, row_two]. row_typed row"
    using small_plan shape_typed by (auto simp: plan_text_def)
  note get = built_get [OF typed assms] and ok = built_plan_ok [OF typed assms]
  have at: "row_at [row_one, row_two] n =
      (if n = node_of [2] then Some row_one else if n = node_of [3] then Some row_two else None)" for n
    using small_ids by (auto simp: row_at_def)
  then obtain a where a: "plan_get t (node_of [2]) = Some a" "pn_row a = row_one"
    using get [of "node_of [2]"] by auto
  have "set (bt_keys (plan_nodes t)) = {node_of [2], node_of [3]}"
    using plan_keys [OF typed assms] small_ids by simp
  then have "is_leaf a"
    using plan_okD(4) [OF ok, of "node_of [2]" a] a(1) by (auto simp: is_leaf_def plan_get_def filter_empty_conv parent_of)
  moreover have "node_needs (plan_nodes t) m = (if m = node_of [3] then [node_of [2]] else [])" for m
    using get [of m] at [of m] small_ids
    by (cases "plan_get t m") (auto simp: node_needs_def plan_get_def row_one_def row_two_def split: if_splits)
  moreover have "\<not> below (node_of [3]) (node_of [2])"
    by (simp add: below_prefix node_wf_small)
  ultimately show ?thesis using a by (auto simp: may_start_def row_one_def)
qed

theorem desk_claim_decides_witness:
  "\<exists>d p. desk_claim (\<lambda>_. Inr ()) (node_of [2]) small_desk = Some (d, Inr p) \<and> holding d = Some (node_of [2])"
proof -
  obtain t where t: "plan_build [row_one, row_two] = Some (Inr t)" by (rule plan_text_tree [OF small_plan])
  have shape: "check_roadmap_shape (cd_text small_desk) = WellFormed [row_one, row_two]"
    using small_plan by (simp add: plan_text_def)
  have "holding small_desk = None" by (simp add: holding_def small_desk_def desk_new_def)
  note said = desk_claim_decides [where booking = "\<lambda>_. Inr ()" and n = "node_of [2]", OF small_desk_ok shape t]
  show ?thesis
  proof (cases "desk_claim (\<lambda>_. Inr ()) (node_of [2]) small_desk")
    case None
    then show ?thesis using said by simp
  next
    case (Some run)
    then show ?thesis using said small_may_start [OF t] \<open>holding small_desk = None\<close>
      by (cases run; cases "snd run") auto
  qed
qed

lemma small_claimed:
  "\<exists>d p. desk_claim (\<lambda>_. Inr ()) (node_of [2]) small_desk = Some (d, Inr p) \<and> cd_held d = Some (Held (node_of [2]))"
proof -
  obtain t where t: "plan_build [row_one, row_two] = Some (Inr t)" by (rule plan_text_tree [OF small_plan])
  have ok: "plan_ok (plan_nodes t)"
    using built_plan_ok [OF _ t] small_plan shape_typed by (auto simp: plan_text_def)
  have c: "claim t (node_of [2]) = Inr (Held (node_of [2]))"
    using ready_claim [OF ok] ready_may_start [OF ok] small_may_start [OF t] by blast
  have free: "holding small_desk = None" by (simp add: holding_def small_desk_def desk_new_def)
  show ?thesis
    by (rule desk_claim_fresh [where booking = "\<lambda>_. Inr ()", OF small_plan t free c refl]) simp
qed

theorem desk_runs_keep_the_plan_witness:
  "\<exists>d. desk_step\<^sup>*\<^sup>* small_desk d \<and> desk_ok d \<and> cd_held d = Some (Held (node_of [2])) \<and>
     replay (cd_effects d) (cd_text small_desk) = Inr (cd_text d)"
proof -
  obtain d p where d: "desk_claim (\<lambda>_. Inr ()) (node_of [2]) small_desk = Some (d, Inr p)"
    "cd_held d = Some (Held (node_of [2]))" using small_claimed by blast
  have s: "desk_step\<^sup>*\<^sup>* small_desk d" using step_claim [OF d(1)] by blast
  from desk_runs_keep_the_plan [OF s small_desk_ok] show ?thesis
    using s d(2) by (auto simp: small_desk_def desk_new_def)
qed

theorem held_node_can_be_put_down_witness:
  "\<exists>d d'. cd_held d = Some (Held (node_of [2])) \<and> abandon d = Some (d', Inr ()) \<and> holding d' = None"
proof -
  obtain d p where d: "desk_claim (\<lambda>_. Inr ()) (node_of [2]) small_desk = Some (d, Inr p)"
    "cd_held d = Some (Held (node_of [2]))" using small_claimed by blast
  have "desk_ok d" using desk_step_moves [OF step_claim [OF d(1)] small_desk_ok] by (simp add: moved_on_def)
  from held_node_can_be_put_down [OF this d(2)] show ?thesis using d(2) by blast
qed

end
