(* ===== verification/StorageErrors.thy ===== *)
theory StorageErrors
  imports Events
begin

text \<open>
  What the storage crate says when persistence refuses (\<open>storage::error\<close>, \<open>error.rs\<close>), and the one
  door that turns it into the error every crate shares. A path is the list of its components; the
  separator it is printed with is the one of Unix. What the operating system says of a failed call is
  an \<open>io_error\<close>: the text its \<open>Display\<close> prints.
\<close>

type_synonym path = "rstr list"

datatype io_error = IoError (io_text: rstr)

definition show_path :: "path \<Rightarrow> rstr" where
  "show_path p = join_with (lit ''/'') p"

datatype alias_kind = AliasLink | AliasHardLink

fun show_alias_kind :: "alias_kind \<Rightarrow> rstr" where
  "show_alias_kind AliasLink = lit ''link (symlink or junction)''"
| "show_alias_kind AliasHardLink = lit ''hard link''"

datatype (plugins only: code) storage_error =
    Io rstr path io_error
  | StVersionAhead path nat
  | StEnvelope path nat ax_error
  | Draft ax_error
  | StCasMissing rstr
  | StCasCorrupt rstr path
  | RangeOutOfBounds rstr
  | SeqMissing nat
  | Checkpoint rstr rstr
  | StSecretEgress rstr
  | Bundle rstr rstr
  | Worktree rstr rstr
  | StWorktreeBusy rstr rstr
  | MergeStale rstr rstr
  | MergeWouldDiscard "rstr list"
  | Alias rstr path alias_kind
  | NameTaken path
  | StLedgerHeld path
  | LedgerBroken path seq
  | ChainHalted ax_error
  | Unproven
  | Snapshot rstr path io_error

type_synonym 'a storage_result = "storage_error + 'a"

definition io_err :: "rstr \<Rightarrow> path \<Rightarrow> io_error \<Rightarrow> storage_error" where
  "io_err op p source = Io op p source"

definition show_error :: "ax_error \<Rightarrow> rstr" where
  "show_error e = ax_code_as_str (err_code e) @ lit '': cannot '' @ err_action e @ lit '' on '' @ err_subject e"

primrec storage_into_ax :: "storage_error \<Rightarrow> ax_error" where
  "storage_into_ax (Io op p source) =
     with_recovery (lit ''storage failed ('' @ io_text source @ lit ''); halt cleanly '' @ [8212] @
         lit '' reopening will tail-truncate'')
       (failure StorageFatal op (show_path p))"
| "storage_into_ax (StVersionAhead p v) =
     with_recovery (lit ''open this ledger with the sprawling that wrote it; original path: '' @ show_path p)
       (failure LogVersionUnsupported (lit ''open ledger'')
         (show_path p @ lit '' (written by a newer sprawling, v'' @ show_nat v @ lit '')''))"
| "storage_into_ax (StEnvelope p line source) =
     with_recovery (lit ''non-tail damage cannot be auto-repaired ('' @ show_error source @
         lit ''); inspect the segment'')
       (failure LogVersionUnsupported (lit ''open ledger'') (show_path p @ lit '':'' @ show_nat line))"
| "storage_into_ax (Draft source) = source"
| "storage_into_ax (ChainHalted source) = source"
| "storage_into_ax Unproven =
     with_recovery (lit ''the city is still proving the history it opened from; send it again once the log says the history is proved'')
       (failure HistoryUnproven (lit ''append to the ledger'')
         (lit ''the history this city opened from is still being proved''))"
| "storage_into_ax (Worktree op detail) =
     with_recovery (lit ''the repository or the filesystem refused; fix that, then claim again'')
       (failure StorageFatal op detail)"
| "storage_into_ax (StWorktreeBusy name detail) =
     with_recovery (lit ''release a tree and claim again, or work on a node whose tree is free'')
       (failure WorktreeBusy (lit ''open a worktree'') (name @ lit '': '' @ detail))"
| "storage_into_ax (MergeStale name detail) =
     with_recovery (lit ''rebuild this node's tree on the trunk as it stands, then have it verified again'')
       (failure VersionConflict (lit ''merge a node's work'') (name @ lit '': '' @ detail))"
| "storage_into_ax (MergeWouldDiscard paths) =
     with_recovery (lit ''commit or set aside these changes in the city folder, then merge again'')
       (failure VersionConflict (lit ''merge a node's work'')
         (lit ''uncommitted changes to '' @ join_with (lit '', '') paths))"
| "storage_into_ax (StCasMissing hash) =
     with_recovery (lit ''the locator outlived its object; re-materialize or drop it'')
       (failure PathNotFound (lit ''read cas object'') hash)"
| "storage_into_ax (StCasCorrupt hash p) =
     with_recovery (lit ''bit rot or outside tampering; restore from export or drop the object'')
       (failure CasCorrupt (lit ''read cas object'') (hash @ lit '' at '' @ show_path p))"
| "storage_into_ax (RangeOutOfBounds hash) =
     with_recovery (lit ''range exceeds the object; ask within its size'')
       (failure InvalidArgs (lit ''read cas range'') hash)"
| "storage_into_ax (Snapshot op p source) =
     with_recovery (lit ''storage failed ('' @ io_text source @
         lit ''); a snapshot is rebuilt from the ledger, so remove '' @ show_path p @
         lit '' and free the disk; the next start folds from genesis'')
       (failure StorageFatal op (show_path p))"
| "storage_into_ax (SeqMissing n) =
     with_recovery (lit ''ask for a seq the ledger actually holds'')
       (failure InvalidArgs (lit ''read ledger line'') (show_nat n))"
| "storage_into_ax (Bundle op detail) =
     with_recovery (lit ''restore into an empty directory, and copy the bundle again if it is short'')
       (failure ConfigInvalid op detail)"
| "storage_into_ax (Checkpoint op detail) =
     with_recovery (lit ''resolve the repository state, then retry the wave'')
       (failure WorktreeBusy op detail)"
| "storage_into_ax (StSecretEgress locations) =
     with_recovery (lit ''remove the secret from the staged files, then retry'')
       (failure SecretEgress (lit ''commit checkpoint'') locations)"
| "storage_into_ax (StLedgerHeld dir) =
     with_recovery (lit ''another sprawling process is serving or changing this city; close it (/quit in its terminal, or Ctrl-C where it runs with no console), then run this again'')
       (failure LedgerHeld (lit ''open the ledger for writing'') (show_path dir))"
| "storage_into_ax (LedgerBroken dir at_seq) =
     with_recovery (lit ''a write to this ledger failed earlier; free the disk or fix the device, then restart sprawling so that opening the ledger repairs its tail'')
       (failure StorageFatal (lit ''append to the ledger'')
         (show_path dir @ lit '' at seq '' @ show_nat (seq_value at_seq)))"
| "storage_into_ax (Alias op p alias) =
     with_recovery (lit ''a '' @ show_alias_kind alias @
         lit '' at this name reaches a file other than this name; replace it with a plain file, then retry'')
       (failure OutsideWriteDomain op (show_path p))"
| "storage_into_ax (NameTaken p) =
     with_recovery (lit ''something already stands at this name; read it and change it against its version, or create the file under another name'')
       (failure VersionConflict (lit ''create a file'') (show_path p))"

end
