(* ===== verification/FaultDisks.thy ===== *)
theory FaultDisks
  imports StorageErrors
begin

text \<open>
  The filesystem seam of the storage crate (\<open>storage::vfs\<close>, \<open>vfs.rs\<close>) and its power-loss adapter
  (\<open>storage::fault_fs\<close>, \<open>fault_fs/plan.rs\<close> and \<open>fault_fs/fs.rs\<close>). The trait is a record of
  functions over the adapter's state, which is what \<open>Box<dyn Vfs>\<close> is. What the ledger relies on is
  the locale \<open>durable_disk\<close>, and the power-loss adapter is an instance of it.
\<close>

type_synonym bytes = "nat list"

section \<open>The seam\<close>

type_synonym ('d, 'a) io = "'d \<Rightarrow> (io_error + 'a) \<times> 'd"

record 'd vfs =
  vfs_create_dir_all :: "path \<Rightarrow> ('d, unit) io"
  vfs_list :: "path \<Rightarrow> ('d, path list) io"
  vfs_list_dirs :: "path \<Rightarrow> ('d, path list) io"
  vfs_read :: "path \<Rightarrow> ('d, bytes) io"
  vfs_size :: "path \<Rightarrow> ('d, nat) io"
  vfs_read_at :: "path \<Rightarrow> nat \<Rightarrow> nat \<Rightarrow> ('d, bytes) io"
  vfs_append :: "path \<Rightarrow> bytes \<Rightarrow> ('d, unit) io"
  vfs_write_at :: "path \<Rightarrow> nat \<Rightarrow> bytes \<Rightarrow> ('d, unit) io"
  vfs_truncate :: "path \<Rightarrow> nat \<Rightarrow> ('d, unit) io"
  vfs_sync_data :: "path \<Rightarrow> ('d, unit) io"
  vfs_rename :: "path \<Rightarrow> path \<Rightarrow> ('d, unit) io"
  vfs_sync_dir :: "path \<Rightarrow> ('d, unit) io"
  vfs_remove_file :: "path \<Rightarrow> ('d, unit) io"
  vfs_copy_permissions :: "path \<Rightarrow> path \<Rightarrow> ('d, unit) io"
  vfs_make_readonly :: "path \<Rightarrow> ('d, unit) io"
  vfs_exists :: "path \<Rightarrow> 'd \<Rightarrow> bool"

definition parent_is :: "path \<Rightarrow> path \<Rightarrow> bool" where
  "parent_is p dir \<longleftrightarrow> p \<noteq> [] \<and> butlast p = dir"


section \<open>The power-loss adapter\<close>

datatype torn_tail = TornNone | KeepBytes nat

record fault_plan =
  cut_at_op :: "nat option"
  cut_on_write :: "bytes option"
  plan_torn_tail :: torn_tail

record file_state =
  fs_durable :: bytes
  fs_live :: bytes
  fs_durable_entry :: bool

record fault_state =
  ff_files :: "(path, file_state) btree"
  ff_dirs :: "(path, unit) btree"
  ff_op :: nat
  ff_bytes_read :: nat
  ff_plan :: fault_plan

definition fault_new :: "fault_plan \<Rightarrow> fault_state" where
  "fault_new plan = \<lparr>ff_files = bt_empty, ff_dirs = bt_empty, ff_op = 0, ff_bytes_read = 0, ff_plan = plan\<rparr>"

definition settle_file :: "torn_tail \<Rightarrow> file_state \<Rightarrow> file_state" where
  "settle_file torn f =
     (let common = length (takeWhile (\<lambda>(a, b). a = b) (zip (fs_durable f) (fs_live f)));
          delta = drop common (fs_live f);
          keep = (case torn of TornNone \<Rightarrow> 0 | KeepBytes k \<Rightarrow> min k (length delta));
          reached = common + keep;
          settled = take reached (fs_live f) @ drop reached (fs_durable f) in
      f\<lparr>fs_durable := settled, fs_live := settled\<rparr>)"

definition cut :: "fault_state \<Rightarrow> fault_state" where
  "cut st =
     st\<lparr>ff_files := map (\<lambda>(p, f). (p, settle_file (plan_torn_tail (ff_plan st)) f))
         (filter (\<lambda>(p, f). fs_durable_entry f) (ff_files st))\<rparr>"

definition power_cut :: "fault_state \<Rightarrow> fault_state" where
  "power_cut st = cut st"

definition charge :: "rstr \<Rightarrow> (fault_state, unit) io" where
  "charge op_name st =
     (let st = st\<lparr>ff_op := sat_add u64_max (ff_op st) 1\<rparr> in
      if cut_at_op (ff_plan st) = Some (ff_op st) then
        let st = cut (st\<lparr>ff_plan := (ff_plan st)\<lparr>cut_at_op := None\<rparr>\<rparr>) in
        (Inl (IoError (lit ''power lost during '' @ op_name @ lit '' (op '' @ show_nat (ff_op st) @ lit '')'')), st)
      else (Inr (), st))"

definition charge_write :: "bytes \<Rightarrow> rstr \<Rightarrow> (fault_state, unit) io" where
  "charge_write bs op_name st =
     (case cut_on_write (ff_plan st) of
        Some needle \<Rightarrow>
          if contains_str needle bs then
            let st = cut (st\<lparr>ff_plan := (ff_plan st)\<lparr>cut_on_write := None\<rparr>, ff_op := sat_add u64_max (ff_op st) 1\<rparr>) in
            (Inl (IoError (lit ''power lost during '' @ op_name @ lit '' carrying `'' @ needle @ lit ''` (op '' @
               show_nat (ff_op st) @ lit '')'')), st)
          else charge op_name st
      | None \<Rightarrow> charge op_name st)"

definition not_found :: "path \<Rightarrow> io_error" where
  "not_found p = IoError (lit ''no such file: '' @ show_path p)"

definition new_file :: file_state where
  "new_file = \<lparr>fs_durable = [], fs_live = [], fs_durable_entry = False\<rparr>"

definition file_or_new :: "path \<Rightarrow> fault_state \<Rightarrow> file_state" where
  "file_or_new p st = (case bt_get (ff_files st) p of Some f \<Rightarrow> f | None \<Rightarrow> new_file)"

definition put_file :: "path \<Rightarrow> file_state \<Rightarrow> fault_state \<Rightarrow> fault_state" where
  "put_file p f st = st\<lparr>ff_files := bt_insert p f (ff_files st)\<rparr>"

text \<open>\<open>Vec::resize(len, 0)\<close>.\<close>

definition resize :: "nat \<Rightarrow> bytes \<Rightarrow> bytes" where
  "resize len bs = take len bs @ replicate (len - length bs) 0"

definition ff_create_dir_all :: "path \<Rightarrow> (fault_state, unit) io" where
  "ff_create_dir_all dir st = charge (lit ''create_dir_all'') (st\<lparr>ff_dirs := bt_insert dir () (ff_dirs st)\<rparr>)"

definition ff_list :: "path \<Rightarrow> (fault_state, path list) io" where
  "ff_list dir st =
     (case charge (lit ''list'') st of
        (Inl e, st) \<Rightarrow> (Inl e, st)
      | (Inr _, st) \<Rightarrow> (Inr (sort (filter (\<lambda>p. parent_is p dir) (bt_keys (ff_files st)))), st))"

definition ff_list_dirs :: "path \<Rightarrow> (fault_state, path list) io" where
  "ff_list_dirs dir st =
     (case charge (lit ''list_dirs'') st of
        (Inl e, st) \<Rightarrow> (Inl e, st)
      | (Inr _, st) \<Rightarrow>
          (Inr (remdups_adj (sort (filter (\<lambda>parent. parent_is parent dir)
             (map butlast (filter (\<lambda>p. p \<noteq> []) (bt_keys (ff_files st))))))), st))"

definition counted_read :: "bytes \<Rightarrow> fault_state \<Rightarrow> fault_state" where
  "counted_read bs st = st\<lparr>ff_bytes_read := sat_add u64_max (ff_bytes_read st) (length bs)\<rparr>"

definition ff_read :: "path \<Rightarrow> (fault_state, bytes) io" where
  "ff_read p st =
     (case charge (lit ''read'') st of
        (Inl e, st) \<Rightarrow> (Inl e, st)
      | (Inr _, st) \<Rightarrow>
          (case bt_get (ff_files st) p of
             None \<Rightarrow> (Inl (not_found p), st)
           | Some f \<Rightarrow> (Inr (fs_live f), counted_read (fs_live f) st)))"

definition ff_size :: "path \<Rightarrow> (fault_state, nat) io" where
  "ff_size p st =
     (case charge (lit ''size'') st of
        (Inl e, st) \<Rightarrow> (Inl e, st)
      | (Inr _, st) \<Rightarrow>
          (case bt_get (ff_files st) p of
             None \<Rightarrow> (Inl (not_found p), st)
           | Some f \<Rightarrow> (Inr (length (fs_live f)), st)))"

definition ff_read_at :: "path \<Rightarrow> nat \<Rightarrow> nat \<Rightarrow> (fault_state, bytes) io" where
  "ff_read_at p at len st =
     (case charge (lit ''read_at'') st of
        (Inl e, st) \<Rightarrow> (Inl e, st)
      | (Inr _, st) \<Rightarrow>
          (case bt_get (ff_files st) p of
             None \<Rightarrow> (Inl (not_found p), st)
           | Some f \<Rightarrow>
               let bs = take len (drop at (fs_live f)) in (Inr bs, counted_read bs st)))"

definition ff_append :: "path \<Rightarrow> bytes \<Rightarrow> (fault_state, unit) io" where
  "ff_append p bs st =
     (let f = file_or_new p st in
      charge_write bs (lit ''append'') (put_file p (f\<lparr>fs_live := fs_live f @ bs\<rparr>) st))"

definition ff_write_at :: "path \<Rightarrow> nat \<Rightarrow> bytes \<Rightarrow> (fault_state, unit) io" where
  "ff_write_at p from bs st =
     (let f = file_or_new p st; until = from + length bs in
      if until > u64_max then (Inl (IoError (lit ''a write past the address space'')), put_file p f st)
      else
        let live = (if length (fs_live f) < until then resize until (fs_live f) else fs_live f) in
        charge_write bs (lit ''write_at'')
          (put_file p (f\<lparr>fs_live := take from live @ bs @ drop until live\<rparr>) st))"

definition ff_truncate :: "path \<Rightarrow> nat \<Rightarrow> (fault_state, unit) io" where
  "ff_truncate p len st =
     (case bt_get (ff_files st) p of
        None \<Rightarrow> (Inl (not_found p), st)
      | Some f \<Rightarrow> charge (lit ''truncate'') (put_file p (f\<lparr>fs_live := resize len (fs_live f)\<rparr>) st))"

definition ff_rename :: "path \<Rightarrow> path \<Rightarrow> (fault_state, unit) io" where
  "ff_rename from to st =
     (case bt_get (ff_files st) from of
        None \<Rightarrow> (Inl (not_found from), st)
      | Some f \<Rightarrow>
          charge (lit ''rename'')
            (put_file to (f\<lparr>fs_durable_entry := False\<rparr>) (st\<lparr>ff_files := bt_remove from (ff_files st)\<rparr>)))"

definition ff_sync_data :: "path \<Rightarrow> (fault_state, unit) io" where
  "ff_sync_data p st =
     (case charge (lit ''sync_data'') st of
        (Inl e, st) \<Rightarrow> (Inl e, st)
      | (Inr _, st) \<Rightarrow>
          (case bt_get (ff_files st) p of
             None \<Rightarrow> (Inl (not_found p), st)
           | Some f \<Rightarrow> (Inr (), put_file p (f\<lparr>fs_durable := fs_live f\<rparr>) st)))"

definition ff_sync_dir :: "path \<Rightarrow> (fault_state, unit) io" where
  "ff_sync_dir dir st =
     (case charge (lit ''sync_dir'') st of
        (Inl e, st) \<Rightarrow> (Inl e, st)
      | (Inr _, st) \<Rightarrow>
          (Inr (), st\<lparr>ff_files := map (\<lambda>(p, f). (p, if parent_is p dir then f\<lparr>fs_durable_entry := True\<rparr> else f))
             (ff_files st)\<rparr>))"

definition ff_exists :: "path \<Rightarrow> fault_state \<Rightarrow> bool" where
  "ff_exists p st \<longleftrightarrow> bt_get (ff_files st) p \<noteq> None"

definition ff_remove_file :: "path \<Rightarrow> (fault_state, unit) io" where
  "ff_remove_file p st =
     (if ff_exists p st then charge (lit ''remove_file'') (st\<lparr>ff_files := bt_remove p (ff_files st)\<rparr>)
      else (Inl (not_found p), st))"

definition ff_copy_permissions :: "path \<Rightarrow> path \<Rightarrow> (fault_state, unit) io" where
  "ff_copy_permissions from to st =
     (if \<not> ff_exists from st then (Inl (not_found from), st)
      else if \<not> ff_exists to st then (Inl (not_found to), st)
      else charge (lit ''copy_permissions'') st)"

definition ff_make_readonly :: "path \<Rightarrow> (fault_state, unit) io" where
  "ff_make_readonly p st =
     (if ff_exists p st then charge (lit ''make_readonly'') st else (Inl (not_found p), st))"

definition fault_fs :: "fault_state vfs" where
  "fault_fs =
     \<lparr>vfs_create_dir_all = ff_create_dir_all, vfs_list = ff_list, vfs_list_dirs = ff_list_dirs,
      vfs_read = ff_read, vfs_size = ff_size, vfs_read_at = ff_read_at, vfs_append = ff_append,
      vfs_write_at = ff_write_at, vfs_truncate = ff_truncate, vfs_sync_data = ff_sync_data,
      vfs_rename = ff_rename, vfs_sync_dir = ff_sync_dir, vfs_remove_file = ff_remove_file,
      vfs_copy_permissions = ff_copy_permissions, vfs_make_readonly = ff_make_readonly,
      vfs_exists = ff_exists\<rparr>"

end
