(* ===== verification/Ledgers.thy ===== *)
theory Ledgers
  imports FaultDisks
begin

text \<open>
  The history of a city: the chain rule (\<open>kernel::ledger\<close>, \<open>ledger.rs\<close>), the one check every reader of a
  ledger applies to a line (\<open>storage::jsonl::verify\<close>), the writer's framing of a wave into lines and
  segments (\<open>storage::jsonl::append\<close>), the proof of the whole chain with and without the records of
  earlier proofs (\<open>storage::chain_audit\<close>, \<open>storage::verified_prefix\<close>), and the halt a failed proof trips.

  \<open>serde_json\<close> and \<open>blake3\<close> are not part of the repository. What the code asks of them is one record
  of functions, the \<open>codec\<close>, which the definitions take as an argument. A hasher that was fed some
  chunks is the bytes it was fed: finalizing it hashes their concatenation.
\<close>

section \<open>Bytes and their readers\<close>

record envelope =
  en_v :: nat
  en_seq :: seq
  en_prev :: b3hash
  en_kind :: rstr
  en_ig :: bool

record codec =
  blake3 :: "bytes \<Rightarrow> bytes"
  read_envelope :: "bytes \<Rightarrow> rstr + envelope"
  read_record :: "bytes \<Rightarrow> rstr + event_record"
  read_version :: "bytes \<Rightarrow> nat option"
  write_record :: "event_record \<Rightarrow> rstr + bytes"

definition digest :: "codec \<Rightarrow> bytes \<Rightarrow> b3hash" where
  "digest c bs = B3Hash (blake3 c bs)"

definition GENESIS_PREV :: b3hash where
  "GENESIS_PREV = B3Hash (replicate 32 0)"

definition chain_hash :: "codec \<Rightarrow> bytes \<Rightarrow> b3hash" where
  "chain_hash c raw_line = B3Hash (blake3 c raw_line)"

definition canonical_line :: "codec \<Rightarrow> event_record \<Rightarrow> bytes ax_result" where
  "canonical_line c r =
     map_err (\<lambda>why. with_recovery
         (lit ''JSON refused this payload ('' @ why @ lit ''); give the event's data only string keys and finite numbers'')
         (failure InvalidArgs (lit ''serialize event'')
           (kind_name (r_kind r) @ lit '' at seq '' @ show_nat (seq_value (r_seq r)))))
       (write_record c r)"

definition parse_line :: "codec \<Rightarrow> bytes \<Rightarrow> event_record ax_result" where
  "parse_line c raw =
     map_err (\<lambda>why. with_recovery (lit ''the line is not a canonical EventRecord'')
         (failure InvalidArgs (lit ''parse event line'') why))
       (read_record c raw)"


section \<open>The check of a line\<close>

record line_check =
  lc_prev :: b3hash
  lc_expected :: seq

datatype checked_line = Known event_record | IgnoredUnknown seq

datatype line_fault =
    NotALine rstr
  | VersionAhead nat
  | NotAVersion nat
  | ChainBreak
  | SeqGap seq seq
  | UnknownKind rstr
  | NotCanonical rstr
  | SeqExhausted ax_error

definition at_genesis :: line_check where
  "at_genesis = \<lparr>lc_prev = GENESIS_PREV, lc_expected = seq_FIRST\<rparr>"

definition readable_envelope :: "codec \<Rightarrow> bytes \<Rightarrow> line_fault + envelope" where
  "readable_envelope c raw =
     and_then (map_err (\<lambda>why. NotALine (lit ''not a ledger line: '' @ why)) (read_envelope c raw)) (\<lambda>env.
       case readable_log_v (en_v env) of
         LogCurrent \<Rightarrow> Inr env
       | LogOlder \<Rightarrow> Inr env
       | LogAhead \<Rightarrow> Inl (VersionAhead (en_v env))
       | LogNotAVersion \<Rightarrow> Inl (NotAVersion (en_v env)))"

definition canonical_record :: "codec \<Rightarrow> bytes \<Rightarrow> line_fault + event_record" where
  "canonical_record c raw =
     and_then (map_err (\<lambda>e. NotCanonical (lit ''typed parse failed: '' @ show_error e)) (parse_line c raw)) (\<lambda>r.
     and_then (map_err (\<lambda>e. NotCanonical (lit ''no canonical form: '' @ show_error e)) (canonical_line c r)) (\<lambda>echo.
       if echo \<noteq> raw then Inl (NotCanonical (lit ''bytes are not writer-canonical'')) else Inr r))"

definition is_known_kind :: "rstr \<Rightarrow> bool" where
  "is_known_kind word \<longleftrightarrow> word \<in> kind_word ` set event_kind_ALL"

definition classify :: "codec \<Rightarrow> envelope \<Rightarrow> bytes \<Rightarrow> line_fault + checked_line" where
  "classify c env raw =
     (if is_known_kind (en_kind env) then and_then (canonical_record c raw) (\<lambda>r. Inr (Known r))
      else if en_ig env then Inr (IgnoredUnknown (en_seq env))
      else Inl (UnknownKind (en_kind env)))"

definition advance :: "codec \<Rightarrow> bytes \<Rightarrow> line_check \<Rightarrow> line_fault + (checked_line \<times> line_check)" where
  "advance c raw chk =
     and_then (readable_envelope c raw) (\<lambda>env.
     if en_prev env \<noteq> lc_prev chk then Inl ChainBreak
     else if en_seq env \<noteq> lc_expected chk then Inl (SeqGap (en_seq env) (lc_expected chk))
     else
       and_then (classify c env raw) (\<lambda>checked.
       and_then (map_err SeqExhausted (seq_next (lc_expected chk))) (\<lambda>nxt.
       Inr (checked, \<lparr>lc_prev = chain_hash c raw, lc_expected = nxt\<rparr>))))"

definition carries_envelope :: "codec \<Rightarrow> bytes \<Rightarrow> bool" where
  "carries_envelope c raw \<longleftrightarrow> is_ok (read_envelope c (last (split_on 0 raw)))"

record judged =
  jd_seq :: seq
  jd_prev :: b3hash
  jd_checked :: checked_line

definition judge :: "codec \<Rightarrow> bytes \<Rightarrow> line_fault + judged" where
  "judge c raw =
     and_then (readable_envelope c raw) (\<lambda>env.
     and_then (classify c env raw) (\<lambda>checked.
     Inr \<lparr>jd_seq = en_seq env, jd_prev = en_prev env, jd_checked = checked\<rparr>))"

definition read_line :: "codec \<Rightarrow> bytes \<Rightarrow> line_fault + checked_line" where
  "read_line c raw = and_then (readable_envelope c raw) (\<lambda>env. classify c env raw)"

definition claimed_seq :: "codec \<Rightarrow> bytes \<Rightarrow> seq option" where
  "claimed_seq c raw = (case readable_envelope c raw of Inr env \<Rightarrow> Some (en_seq env) | Inl _ \<Rightarrow> None)"

fun fault_into_ax :: "nat \<Rightarrow> line_fault \<Rightarrow> ax_error" where
  "fault_into_ax line_no (VersionAhead v) =
     with_recovery (lit ''written by a newer sprawling; replay it with the version that wrote it'')
       (failure LogVersionUnsupported (lit ''verify ledger'')
         (lit ''line '' @ show_nat line_no @ lit '' carries v'' @ show_nat v))"
| "fault_into_ax line_no (UnknownKind word) =
     with_recovery (lit ''unknown kind without ig:true means a newer writer; use the sprawling that wrote it'')
       (failure LogVersionUnsupported (lit ''verify ledger'')
         (lit ''line '' @ show_nat line_no @ lit '' kind `'' @ word @ lit ''`''))"
| "fault_into_ax line_no (NotAVersion v) =
     with_recovery (lit ''impossible v'' @ show_nat v)
       (failure CasCorrupt (lit ''verify ledger'') (lit ''line '' @ show_nat line_no))"
| "fault_into_ax line_no (NotALine violation) =
     with_recovery violation (failure CasCorrupt (lit ''verify ledger'') (lit ''line '' @ show_nat line_no))"
| "fault_into_ax line_no (NotCanonical violation) =
     with_recovery violation (failure CasCorrupt (lit ''verify ledger'') (lit ''line '' @ show_nat line_no))"
| "fault_into_ax line_no ChainBreak =
     with_recovery (lit ''prev does not hash the previous line'')
       (failure CasCorrupt (lit ''verify ledger'') (lit ''line '' @ show_nat line_no))"
| "fault_into_ax line_no (SeqGap found expected) =
     with_recovery (lit ''seq '' @ show_nat (seq_value found) @ lit '' where '' @ show_nat (seq_value expected) @
         lit '' was expected'')
       (failure CasCorrupt (lit ''verify ledger'') (lit ''line '' @ show_nat line_no))"
| "fault_into_ax line_no (SeqExhausted source) = source"


section \<open>Framing a wave\<close>

definition SEGMENT_PREFIX :: rstr where
  "SEGMENT_PREFIX = lit ''ledger-''"

definition SEGMENT_SUFFIX :: rstr where
  "SEGMENT_SUFFIX = lit ''.jsonl''"

definition zero_padded :: "nat \<Rightarrow> nat \<Rightarrow> rstr" where
  "zero_padded width n = replicate (width - length (show_nat n)) 48 @ show_nat n"

definition segment_file_name :: "seq \<Rightarrow> rstr" where
  "segment_file_name first = SEGMENT_PREFIX @ zero_padded 20 (seq_value first) @ SEGMENT_SUFFIX"

definition segment_first_seq :: "rstr \<Rightarrow> seq option" where
  "segment_first_seq name =
     Option.bind (strip_prefix SEGMENT_PREFIX name) (\<lambda>rest.
     Option.bind (strip_suffix SEGMENT_SUFFIX rest) (\<lambda>digits.
     map_option Seq (parse_uint u64_max digits)))"

definition is_segment :: "path \<Rightarrow> bool" where
  "is_segment p \<longleftrightarrow> p \<noteq> [] \<and> starts_with SEGMENT_PREFIX (last p) \<and> ends_with SEGMENT_SUFFIX (last p)"

text \<open>A wave while it is framed: the position the next line takes, and what goes to the disk.\<close>

type_synonym segment_write = "path \<times> nat \<times> bytes"

record framing =
  fr_path :: path
  fr_len :: nat
  fr_seq :: seq
  fr_prev :: b3hash
  fr_writes :: "segment_write list"
  fr_created :: "path list"
  fr_records :: "event_record list"

definition push_write :: "path \<Rightarrow> nat \<Rightarrow> bytes \<Rightarrow> segment_write list \<Rightarrow> segment_write list" where
  "push_write p at terminated writes =
     (if writes \<noteq> [] \<and> fst (last writes) = p
      then butlast writes @ [(p, fst (snd (last writes)), snd (snd (last writes)) @ terminated)]
      else writes @ [(p, at, terminated)])"

definition frame_draft :: "codec \<Rightarrow> path \<Rightarrow> nat \<Rightarrow> event_draft \<Rightarrow> framing \<Rightarrow> framing storage_result" where
  "frame_draft c dir roll_bytes draft w =
     (let r = from_draft draft (fr_seq w) (fr_prev w) in
      and_then (map_err Draft (canonical_line c r)) (\<lambda>line.
        let line_len = sat_add u64_max (length line) 1;
            rolls = (fr_len w > 0 \<and> sat_add u64_max (fr_len w) line_len > roll_bytes);
            p = (if rolls then dir @ [segment_file_name (fr_seq w)] else fr_path w);
            at = (if rolls then 0 else fr_len w) in
        and_then (map_err Draft (seq_next (fr_seq w))) (\<lambda>nxt.
        Inr \<lparr>fr_path = p, fr_len = sat_add u64_max at line_len, fr_seq = nxt, fr_prev = chain_hash c line,
             fr_writes = push_write p at (line @ [10]) (fr_writes w),
             fr_created = (if rolls then fr_created w @ [p] else fr_created w),
             fr_records = fr_records w @ [r]\<rparr>)))"

fun frame_all :: "codec \<Rightarrow> path \<Rightarrow> nat \<Rightarrow> event_draft list \<Rightarrow> framing \<Rightarrow> framing storage_result" where
  "frame_all c dir roll_bytes [] w = Inr w"
| "frame_all c dir roll_bytes (draft # drafts) w =
     and_then (frame_draft c dir roll_bytes draft w) (frame_all c dir roll_bytes drafts)"


section \<open>Proving the chain\<close>

record proof_count =
  pc_lines_checked :: nat
  pc_segments_by_digest :: nat
  pc_bytes_read :: nat
  pc_bytes_hashed :: nat
  pc_waves :: nat

record segment_record =
  sr_version :: nat
  sr_len :: nat
  sr_lines :: nat
  sr_entry :: line_check
  sr_exit :: line_check
  sr_digest :: b3hash

definition prefix_length :: "segment_record \<Rightarrow> nat \<Rightarrow> nat \<Rightarrow> nat option" where
  "prefix_length r total_len version = (if sr_version r = version \<and> sr_len r \<le> total_len then Some (sr_len r) else None)"

definition record_prefix :: "segment_record \<Rightarrow> bytes \<Rightarrow> nat \<Rightarrow> bytes option" where
  "record_prefix r bs version = map_option (\<lambda>len. take len bs) (prefix_length r (length bs) version)"

definition stands :: "codec \<Rightarrow> segment_record \<Rightarrow> line_check \<Rightarrow> bytes \<Rightarrow> (nat \<times> line_check) option" where
  "stands c r entry hashed =
     (if sr_entry r = entry \<and> digest c hashed = sr_digest r then Some (sr_lines r, sr_exit r) else None)"

definition MAGIC :: bytes where
  "MAGIC = [83, 80, 82, 80, 82, 70, 48, 49]"

fun to_le_bytes :: "nat \<Rightarrow> nat \<Rightarrow> bytes" where
  "to_le_bytes 0 n = []"
| "to_le_bytes (Suc w) n = n mod 256 # to_le_bytes w (n div 256)"

fun from_le_bytes :: "bytes \<Rightarrow> nat" where
  "from_le_bytes [] = 0"
| "from_le_bytes (b # bs) = b + 256 * from_le_bytes bs"

definition encode_body :: "segment_record \<Rightarrow> bytes" where
  "encode_body r =
     MAGIC @ to_le_bytes 4 (sr_version r) @ to_le_bytes 8 (sr_len r) @ to_le_bytes 8 (sr_lines r) @
     b3_bytes (lc_prev (sr_entry r)) @ to_le_bytes 8 (seq_value (lc_expected (sr_entry r))) @
     b3_bytes (lc_prev (sr_exit r)) @ to_le_bytes 8 (seq_value (lc_expected (sr_exit r))) @
     b3_bytes (sr_digest r)"

definition encode :: "codec \<Rightarrow> segment_record \<Rightarrow> bytes" where
  "encode c r = encode_body r @ b3_bytes (digest c (encode_body r))"

text \<open>\<open>split_first_chunk\<close> and \<open>split_last_chunk\<close>: the first or last \<open>n\<close> bytes apart from the rest,
  when there are that many.\<close>

definition split_first_chunk :: "nat \<Rightarrow> bytes \<Rightarrow> (bytes \<times> bytes) option" where
  "split_first_chunk n bs = (if n \<le> length bs then Some (take n bs, drop n bs) else None)"

definition split_last_chunk :: "nat \<Rightarrow> bytes \<Rightarrow> (bytes \<times> bytes) option" where
  "split_last_chunk n bs =
     (if n \<le> length bs then Some (take (length bs - n) bs, drop (length bs - n) bs) else None)"

definition chain_state :: "bytes \<Rightarrow> (line_check \<times> bytes) option" where
  "chain_state bs =
     Option.bind (split_first_chunk 32 bs) (\<lambda>(prev, rest).
     Option.bind (split_first_chunk 8 rest) (\<lambda>(expected, rest).
     Some (\<lparr>lc_prev = B3Hash prev, lc_expected = Seq (from_le_bytes expected)\<rparr>, rest)))"

definition decode :: "codec \<Rightarrow> bytes \<Rightarrow> segment_record option" where
  "decode c bs =
     Option.bind (split_last_chunk 32 bs) (\<lambda>(body, seal).
     if b3_bytes (digest c body) \<noteq> seal then None else
     Option.bind (split_first_chunk 8 body) (\<lambda>(magic, rest).
     if magic \<noteq> MAGIC then None else
     Option.bind (split_first_chunk 4 rest) (\<lambda>(version, rest).
     Option.bind (split_first_chunk 8 rest) (\<lambda>(len, rest).
     Option.bind (split_first_chunk 8 rest) (\<lambda>(held_lines, rest).
     Option.bind (chain_state rest) (\<lambda>(entry, rest).
     Option.bind (chain_state rest) (\<lambda>(exit_check, rest).
     if length rest \<noteq> 32 then None
     else Some \<lparr>sr_version = from_le_bytes version, sr_len = from_le_bytes len,
       sr_lines = from_le_bytes held_lines, sr_entry = entry, sr_exit = exit_check,
       sr_digest = B3Hash rest\<rparr>)))))))"

text \<open>A segment as its wave read it: every byte, and the record that may stand in for a prefix of
  it, with that prefix hashed.\<close>

record segment_read =
  rd_bytes :: bytes
  rd_hashed :: "(segment_record \<times> bytes) option"

definition read_ahead :: "bytes \<Rightarrow> segment_record option \<Rightarrow> nat \<Rightarrow> segment_read" where
  "read_ahead bs kept version =
     \<lparr>rd_bytes = bs,
      rd_hashed = Option.bind kept (\<lambda>r. map_option (\<lambda>prefix_bytes. (r, prefix_bytes)) (record_prefix r bs version))\<rparr>"

record walked =
  wk_check :: line_check
  wk_lines :: nat
  wk_counted :: proof_count
  wk_unkept :: "ax_error option"

definition reuse :: "codec \<Rightarrow> segment_record \<times> bytes \<Rightarrow> walked \<Rightarrow> walked \<times> (nat \<times> nat \<times> bytes) option" where
  "reuse c hashed wk =
     (let r = fst hashed; hasher = snd hashed;
          counted = wk_counted wk;
          wk = wk\<lparr>wk_counted := counted\<lparr>pc_bytes_hashed := sat_add u64_max (pc_bytes_hashed counted) (length hasher)\<rparr>\<rparr> in
      case stands c r (wk_check wk) hasher of
        None \<Rightarrow> (wk, None)
      | Some (held_lines, exit_check) \<Rightarrow>
          (wk\<lparr>wk_lines := sat_add u64_max (wk_lines wk) held_lines, wk_check := exit_check,
              wk_counted := (wk_counted wk)\<lparr>pc_segments_by_digest :=
                sat_add u64_max (pc_segments_by_digest (wk_counted wk)) 1\<rparr>\<rparr>,
           Some (length hasher, held_lines, hasher)))"

definition complete_end :: "bytes \<Rightarrow> nat" where
  "complete_end bs = length bs - length (takeWhile (\<lambda>b. b \<noteq> 10) (rev bs))"

fun check_lines :: "codec \<Rightarrow> bytes list \<Rightarrow> nat \<Rightarrow> walked \<Rightarrow> walked \<times> nat ax_result" where
  "check_lines c [] in_segment wk = (wk, Inr in_segment)"
| "check_lines c (line # rest) in_segment wk =
     (if line = [] then check_lines c rest in_segment wk
      else
        let counted = wk_counted wk;
            wk = wk\<lparr>wk_lines := sat_add u64_max (wk_lines wk) 1,
              wk_counted := counted\<lparr>pc_lines_checked := sat_add u64_max (pc_lines_checked counted) 1\<rparr>\<rparr> in
        (case advance c line (wk_check wk) of
           Inl fault \<Rightarrow> (wk, Inl (fault_into_ax (wk_lines wk) fault))
         | Inr (_, chk) \<Rightarrow> check_lines c rest (sat_add u64_max in_segment 1) (wk\<lparr>wk_check := chk\<rparr>)))"

definition walk_segment :: "codec \<Rightarrow> segment_read \<Rightarrow> nat \<Rightarrow> walked \<Rightarrow> walked \<times> segment_record ax_result" where
  "walk_segment c rd version wk =
     (let bs = rd_bytes rd; counted = wk_counted wk;
          wk = wk\<lparr>wk_counted := counted\<lparr>pc_bytes_read := sat_add u64_max (pc_bytes_read counted) (length bs)\<rparr>\<rparr>;
          entry = wk_check wk;
          complete = complete_end bs;
          (wk, found) = (case rd_hashed rd of None \<Rightarrow> (wk, None) | Some hashed \<Rightarrow> reuse c hashed wk);
          (from_byte, in_segment, hasher) = (case found of Some f \<Rightarrow> f | None \<Rightarrow> (0, 0, []));
          rest = (if from_byte \<le> complete then drop from_byte (take complete bs) else []);
          hasher = hasher @ rest;
          counted = wk_counted wk;
          wk = wk\<lparr>wk_counted := counted\<lparr>pc_bytes_hashed := sat_add u64_max (pc_bytes_hashed counted) (length rest)\<rparr>\<rparr> in
      case check_lines c (split_on 10 rest) in_segment wk of
        (wk, Inl e) \<Rightarrow> (wk, Inl e)
      | (wk, Inr in_segment) \<Rightarrow>
          (wk, Inr \<lparr>sr_version = version, sr_len = complete, sr_lines = in_segment, sr_entry = entry,
                 sr_exit = wk_check wk, sr_digest = digest c hasher\<rparr>))"

datatype chain_audit = Whole nat | Broken ax_error

record proven =
  pv_audit :: chain_audit
  pv_counted :: proof_count
  pv_unkept :: "ax_error option"

text \<open>Keeping a record may fail, which changes no verdict: \<open>keep\<close> answers the failure.\<close>

type_synonym keeper = "rstr \<Rightarrow> segment_record \<Rightarrow> ax_error option"

fun walk_wave :: "codec \<Rightarrow> keeper option \<Rightarrow> nat \<Rightarrow> (rstr \<times> segment_read) list \<Rightarrow> walked \<Rightarrow> walked \<times> ax_error option" where
  "walk_wave c keep version [] wk = (wk, None)"
| "walk_wave c keep version ((name, rd) # rest) wk =
     (case walk_segment c rd version wk of
        (wk, Inl broken) \<Rightarrow> (wk, Some broken)
      | (wk, Inr proved) \<Rightarrow>
          walk_wave c keep version rest
            (case keep of
               None \<Rightarrow> wk
             | Some k \<Rightarrow> wk\<lparr>wk_unkept := (case wk_unkept wk of Some e \<Rightarrow> Some e | None \<Rightarrow> k name proved)\<rparr>))"

fun walk_waves :: "codec \<Rightarrow> keeper option \<Rightarrow> nat \<Rightarrow> (rstr \<times> segment_read) list list \<Rightarrow> walked \<Rightarrow> proven" where
  "walk_waves c keep version [] wk =
     \<lparr>pv_audit = Whole (wk_lines wk), pv_counted = wk_counted wk, pv_unkept = wk_unkept wk\<rparr>"
| "walk_waves c keep version (segs # waves) wk =
     (let counted = wk_counted wk;
          wk = wk\<lparr>wk_counted := counted\<lparr>pc_waves := sat_add u64_max (pc_waves counted) 1\<rparr>\<rparr> in
      case walk_wave c keep version segs wk of
        (wk, Some broken) \<Rightarrow>
          \<lparr>pv_audit = Broken broken, pv_counted = wk_counted wk, pv_unkept = wk_unkept wk\<rparr>
      | (wk, None) \<Rightarrow> walk_waves c keep version waves wk)"

definition PROOF_WAVE :: nat where
  "PROOF_WAVE = 8"

fun chunks :: "nat \<Rightarrow> 'a list \<Rightarrow> 'a list list" where
  "chunks n xs = (if xs = [] \<or> n = 0 then [] else take n xs # chunks n (drop n xs))"

declare chunks.simps [simp del]

definition walk_start :: walked where
  "walk_start = \<lparr>wk_check = at_genesis, wk_lines = 0,
     wk_counted = \<lparr>pc_lines_checked = 0, pc_segments_by_digest = 0, pc_bytes_read = 0, pc_bytes_hashed = 0,
       pc_waves = 0\<rparr>, wk_unkept = None\<rparr>"

text \<open>The walk over the segments of a directory: their names and bytes, and the record kept of each.\<close>

definition prove_chain :: "codec \<Rightarrow> keeper \<Rightarrow> nat \<Rightarrow> (rstr \<times> bytes \<times> segment_record option) list \<Rightarrow> proven" where
  "prove_chain c keep version segs =
     walk_waves c (Some keep) version
       (chunks PROOF_WAVE (map (\<lambda>(name, bs, kept). (name, read_ahead bs kept version)) segs)) walk_start"

definition audit_chain :: "codec \<Rightarrow> nat \<Rightarrow> (rstr \<times> bytes) list \<Rightarrow> chain_audit" where
  "audit_chain c version segs =
     pv_audit (walk_waves c None version
       (chunks PROOF_WAVE (map (\<lambda>(name, bs). (name, read_ahead bs None version)) segs)) walk_start)"


section \<open>The halt\<close>

datatype verdict = VerdictWhole | VerdictBroken ax_error

datatype before = BeforeAdmit | BeforeRefuse

record chain_halt =
  halt_verdict :: "verdict option"
  halt_before :: before

definition halt_default :: chain_halt where
  "halt_default = \<lparr>halt_verdict = None, halt_before = BeforeAdmit\<rparr>"

definition awaiting_proof :: chain_halt where
  "awaiting_proof = \<lparr>halt_verdict = None, halt_before = BeforeRefuse\<rparr>"

definition settle :: "verdict \<Rightarrow> chain_halt \<Rightarrow> chain_halt" where
  "settle v h = (if halt_verdict h = None then h\<lparr>halt_verdict := Some v\<rparr> else h)"

definition halt_prove :: "chain_halt \<Rightarrow> chain_halt" where
  "halt_prove h = settle VerdictWhole h"

definition trip :: "ax_error \<Rightarrow> chain_halt \<Rightarrow> chain_halt" where
  "trip why h = settle (VerdictBroken why) h"

definition halt_reason :: "chain_halt \<Rightarrow> ax_error option" where
  "halt_reason h = (case halt_verdict h of Some (VerdictBroken why) \<Rightarrow> Some why | _ \<Rightarrow> None)"

definition halt_proved :: "chain_halt \<Rightarrow> bool" where
  "halt_proved h \<longleftrightarrow> halt_verdict h = Some VerdictWhole"

definition halt_admit :: "chain_halt \<Rightarrow> unit storage_result" where
  "halt_admit h =
     (case (halt_verdict h, halt_before h) of
        (Some VerdictWhole, _) \<Rightarrow> Inr ()
      | (None, BeforeAdmit) \<Rightarrow> Inr ()
      | (Some (VerdictBroken why), _) \<Rightarrow> Inl (ChainHalted why)
      | (None, BeforeRefuse) \<Rightarrow> Inl Unproven)"

end
