(* ===== verification/LedgerWriting.thy ===== *)
theory LedgerWriting
  imports Ledgers
begin

text \<open>
  The durable ledger (\<open>storage::jsonl\<close>): its state (\<open>ledger.rs\<close>), the barrier a wave breaks and mends
  (\<open>barrier.rs\<close>), the wave that reaches the disk or is cut back (\<open>unwind.rs\<close>) and the append itself
  (\<open>append.rs\<close>), over any disk of the filesystem seam. The per-room session slices are a projection the
  append only informs, and the writer lock is the operating system's: neither is modelled. The
  observer is the list of the records it heard.
\<close>

section \<open>The ledger and its segments\<close>

datatype segment_preallocation = Grow | ToRollSize

definition SEGMENT_ROLL_BYTES :: nat where
  "SEGMENT_ROLL_BYTES = 64 * 1024 * 1024"

definition SEGMENT_PREALLOCATION :: segment_preallocation where
  "SEGMENT_PREALLOCATION = Grow"

fun length_after_open :: "segment_preallocation \<Rightarrow> nat \<Rightarrow> nat \<Rightarrow> nat \<Rightarrow> nat" where
  "length_after_open ToRollSize keep dropped total_len = (if dropped = 0 then total_len else keep)"
| "length_after_open Grow keep dropped total_len = keep"

definition records_end :: "bytes \<Rightarrow> nat" where
  "records_end segment = length segment - length (takeWhile (\<lambda>b. b = 0) (rev segment))"

fun complete_lines_from :: "bytes \<Rightarrow> bytes \<Rightarrow> bytes list" where
  "complete_lines_from line [] = []"
| "complete_lines_from line (b # bs) =
     (if b = 10 then line # complete_lines_from [] bs else complete_lines_from (line @ [b]) bs)"

definition complete_lines :: "bytes \<Rightarrow> bytes list \<times> nat" where
  "complete_lines bs = (complete_lines_from [] bs, complete_end bs)"

datatype barrier = BarrierWhole | BarrierBroken

record 'd jsonl_ledger =
  jl_disk :: 'd
  jl_dir :: path
  jl_seg_path :: path
  jl_seg_len :: nat
  jl_next_seq :: seq
  jl_prev :: b3hash
  jl_roll_bytes :: nat
  jl_preallocation :: segment_preallocation
  jl_barrier :: barrier
  jl_observer :: "event_record list option"
  jl_halt :: chain_halt
  jl_pending_unwind :: "path list option"

definition barrier_admit :: "path \<Rightarrow> seq \<Rightarrow> barrier \<Rightarrow> unit storage_result" where
  "barrier_admit dir at_seq b = (case b of BarrierWhole \<Rightarrow> Inr () | BarrierBroken \<Rightarrow> Inl (LedgerBroken dir at_seq))"


section \<open>Steps over a disk\<close>

text \<open>A step answers a result and the state after it; a refusal ends the sequence.\<close>

type_synonym ('s, 'a) step = "'s \<Rightarrow> 'a storage_result \<times> 's"

definition step_then :: "'a storage_result \<times> 's \<Rightarrow> ('a \<Rightarrow> ('s, 'b) step) \<Rightarrow> 'b storage_result \<times> 's" where
  "step_then m f = (case m of (Inl e, s) \<Rightarrow> (Inl e, s) | (Inr x, s) \<Rightarrow> f x s)"

definition at_op :: "rstr \<Rightarrow> path \<Rightarrow> (io_error + 'a) \<times> 's \<Rightarrow> 'a storage_result \<times> 's" where
  "at_op op p m = (map_err (io_err op p) (fst m), snd m)"

fun each_step :: "('x \<Rightarrow> ('s, unit) step) \<Rightarrow> 'x list \<Rightarrow> ('s, unit) step" where
  "each_step f [] s = (Inr (), s)"
| "each_step f (x # xs) s = step_then (f x s) (\<lambda>_. each_step f xs)"


section \<open>A wave on its way to the disk\<close>

definition land_write :: "'d vfs \<Rightarrow> segment_preallocation \<Rightarrow> nat \<Rightarrow> path list \<Rightarrow> segment_write \<Rightarrow> ('d, unit) step" where
  "land_write fs pre roll_bytes created write d =
     (case write of (p, at, bs) \<Rightarrow>
        step_then
          (at_op (lit ''append event line'') p
            (case pre of Grow \<Rightarrow> vfs_append fs p bs d | ToRollSize \<Rightarrow> vfs_write_at fs p at bs d))
          (\<lambda>_ d.
             if pre = ToRollSize \<and> p \<in> set created \<and> sat_add u64_max at (length bs) < roll_bytes
             then at_op (lit ''preallocate a new segment'') p (vfs_truncate fs p roll_bytes d)
             else (Inr (), d)))"

definition sync_segment :: "'d vfs \<Rightarrow> segment_write \<Rightarrow> ('d, unit) step" where
  "sync_segment fs write d = at_op (lit ''sync segment'') (fst write) (vfs_sync_data fs (fst write) d)"

definition land :: "'d vfs \<Rightarrow> segment_preallocation \<Rightarrow> nat \<Rightarrow> path \<Rightarrow> segment_write list \<Rightarrow> path list \<Rightarrow> ('d, unit) step" where
  "land fs pre roll_bytes dir writes created d =
     step_then (each_step (land_write fs pre roll_bytes created) writes d) (\<lambda>_ d.
     step_then (each_step (sync_segment fs) writes d) (\<lambda>_ d.
       if created \<noteq> [] then at_op (lit ''sync ledger dir'') dir (vfs_sync_dir fs dir d) else (Inr (), d)))"

text \<open>Removing what a failed wave created; the flag says whether anything was removed.\<close>

fun remove_created :: "'d vfs \<Rightarrow> path list \<Rightarrow> bool \<Rightarrow> ('d, bool) step" where
  "remove_created fs [] removed d = (Inr removed, d)"
| "remove_created fs (p # ps) removed d =
     (if vfs_exists fs p d then
        step_then (at_op (lit ''remove a segment the failed wave created'') p (vfs_remove_file fs p d))
          (\<lambda>_. remove_created fs ps True)
      else remove_created fs ps removed d)"

definition restore :: "'d vfs \<Rightarrow> path \<Rightarrow> path \<Rightarrow> nat \<Rightarrow> path list \<Rightarrow> ('d, unit) step" where
  "restore fs dir seg_path seg_len created d =
     step_then (remove_created fs created False d) (\<lambda>removed d.
     step_then
       (if removed then at_op (lit ''sync ledger dir'') dir (vfs_sync_dir fs dir d) else (Inr (), d)) (\<lambda>_ d.
       if seg_path \<notin> set created then
         step_then
           (at_op (lit ''truncate a segment back before the failed wave'') seg_path
             (vfs_truncate fs seg_path seg_len d))
           (\<lambda>_ d. at_op (lit ''sync a segment cut back before the failed wave'') seg_path
             (vfs_sync_data fs seg_path d))
       else (Inr (), d)))"

definition finish_unwind :: "'d vfs \<Rightarrow> ('d jsonl_ledger, unit) step" where
  "finish_unwind fs L =
     (case jl_pending_unwind L of
        None \<Rightarrow> (Inr (), L)
      | Some created \<Rightarrow>
          (case restore fs (jl_dir L) (jl_seg_path L) (jl_seg_len L) created (jl_disk L) of
             (Inr _, d) \<Rightarrow> (Inr (), L\<lparr>jl_disk := d, jl_pending_unwind := None, jl_barrier := BarrierWhole\<rparr>)
           | (Inl e, d) \<Rightarrow> (Inl e, L\<lparr>jl_disk := d, jl_pending_unwind := Some created\<rparr>)))"

definition write_wave :: "'d vfs \<Rightarrow> segment_write list \<Rightarrow> path list \<Rightarrow> ('d jsonl_ledger, unit) step" where
  "write_wave fs writes created L =
     (case land fs (jl_preallocation L) (jl_roll_bytes L) (jl_dir L) writes created (jl_disk L) of
        (Inr _, d) \<Rightarrow> (Inr (), L\<lparr>jl_disk := d\<rparr>)
      | (Inl e, d) \<Rightarrow>
          (Inl e, snd (finish_unwind fs (L\<lparr>jl_disk := d, jl_pending_unwind := Some created\<rparr>))))"


section \<open>The append\<close>

definition framing_start :: "'d vfs \<Rightarrow> 'd jsonl_ledger \<Rightarrow> framing" where
  "framing_start fs L =
     \<lparr>fr_path = jl_seg_path L, fr_len = jl_seg_len L, fr_seq = jl_next_seq L, fr_prev = jl_prev L,
      fr_writes = [],
      fr_created = (if jl_seg_len L = 0 \<and> \<not> vfs_exists fs (jl_seg_path L) (jl_disk L) then [jl_seg_path L] else []),
      fr_records = []\<rparr>"

definition settle_wave :: "framing \<Rightarrow> 'd jsonl_ledger \<Rightarrow> 'd jsonl_ledger" where
  "settle_wave w L =
     L\<lparr>jl_barrier := BarrierWhole, jl_seg_path := fr_path w, jl_seg_len := fr_len w, jl_next_seq := fr_seq w,
       jl_prev := fr_prev w, jl_observer := map_option (\<lambda>heard. heard @ fr_records w) (jl_observer L)\<rparr>"

definition append_all :: "'d vfs \<Rightarrow> codec \<Rightarrow> event_draft list \<Rightarrow> ('d jsonl_ledger, event_ref list) step" where
  "append_all fs c drafts L =
     step_then (finish_unwind fs L) (\<lambda>_ L.
     step_then (barrier_admit (jl_dir L) (jl_next_seq L) (jl_barrier L), L) (\<lambda>_ L.
     step_then (halt_admit (jl_halt L), L) (\<lambda>_ L.
       if drafts = [] then (Inr [], L)
       else
         step_then (frame_all c (jl_dir L) (jl_roll_bytes L) drafts (framing_start fs L), L) (\<lambda>w L.
         step_then (write_wave fs (fr_writes w) (fr_created w) (L\<lparr>jl_barrier := BarrierBroken\<rparr>)) (\<lambda>_ L.
           (Inr (map to_ref (fr_records w)), settle_wave w L))))))"

definition ledger_append :: "'d vfs \<Rightarrow> codec \<Rightarrow> event_draft \<Rightarrow> 'd jsonl_ledger \<Rightarrow> event_ref ax_result \<times> 'd jsonl_ledger" where
  "ledger_append fs c draft L =
     (case append_all fs c [draft] L of
        (Inl e, L) \<Rightarrow> (Inl (storage_into_ax e), L)
      | (Inr refs, L) \<Rightarrow>
          (case refs of
             r # _ \<Rightarrow> (Inr r, L)
           | [] \<Rightarrow>
               (Inl (with_recovery
                  (lit ''report this against storage::jsonl::append with the city path: append_all owes one echo per draft and returned none'')
                  (failure InvalidArgs (lit ''append event'') (lit ''empty wave echo''))), L)))"

definition halt_on :: "chain_halt \<Rightarrow> 'd jsonl_ledger \<Rightarrow> 'd jsonl_ledger" where
  "halt_on h L = L\<lparr>jl_halt := h\<rparr>"

definition ledger_admits :: "'d jsonl_ledger \<Rightarrow> unit storage_result" where
  "ledger_admits L = halt_admit (jl_halt L)"

definition observe :: "'d jsonl_ledger \<Rightarrow> 'd jsonl_ledger" where
  "observe L = L\<lparr>jl_observer := Some []\<rparr>"

end
