(* ===== verification/LedgerOpening.thy ===== *)
theory LedgerOpening
  imports LedgerWriting
begin

text \<open>
  Reading a ledger back and opening it for writing (\<open>storage::jsonl\<close>: \<open>reading.rs\<close>, \<open>first_line.rs\<close>,
  \<open>boundary.rs\<close>, \<open>open.rs\<close>, and the part of \<open>verified_prefix.rs\<close> an open uses). Every loop reads the disk
  window by window until a window comes back short; that such a loop ends is a property of the disk, so
  a loop is a partial function whose value \<open>None\<close> is the loop that does not end. The writer lock is the
  operating system's and is not modelled.
\<close>

section \<open>Scanning a segment\<close>

definition SCAN_WINDOW_BYTES :: nat where
  "SCAN_WINDOW_BYTES = 64 * 1024"

text \<open>The locals of the scan, and the state of the closure it hands every line to.\<close>

record 's scanning =
  sc_total :: nat
  sc_filled :: nat
  sc_line :: bytes
  sc_zeros :: nat
  sc_visitor :: 's

type_synonym 's visit = "bytes \<Rightarrow> nat \<Rightarrow> 's \<Rightarrow> 's storage_result"

definition scan_byte :: "path \<Rightarrow> 's visit \<Rightarrow> nat \<Rightarrow> 's scanning \<Rightarrow> 's scanning storage_result" where
  "scan_byte p visit b s =
     (if sc_total s + 1 > u64_max
      then Inl (io_err (lit ''measure segment'') p (IoError (lit ''segment offset overflow'')))
      else
        let s = s\<lparr>sc_total := sc_total s + 1\<rparr> in
        if b = 0 then
          if sc_zeros s + 1 > u64_max
          then Inl (io_err (lit ''measure zero run'') p (IoError (lit ''zero run overflow'')))
          else Inr (s\<lparr>sc_zeros := sc_zeros s + 1\<rparr>)
        else if length (sc_line s) + sc_zeros s > u64_max
        then Inl (io_err (lit ''measure segment line'') p (IoError (lit ''line length overflow'')))
        else
          let line = sc_line s @ replicate (sc_zeros s) 0;
              s = s\<lparr>sc_filled := sc_total s, sc_zeros := 0\<rparr> in
          if b = 10 then
            and_then (visit line (sc_total s) (sc_visitor s)) (\<lambda>v. Inr (s\<lparr>sc_line := [], sc_visitor := v\<rparr>))
          else Inr (s\<lparr>sc_line := line @ [b]\<rparr>))"

fun scan_bytes :: "path \<Rightarrow> 's visit \<Rightarrow> bytes \<Rightarrow> 's scanning \<Rightarrow> 's scanning storage_result" where
  "scan_bytes p visit [] s = Inr s"
| "scan_bytes p visit (b # bs) s = and_then (scan_byte p visit b s) (scan_bytes p visit bs)"

partial_function (option) scan_loop ::
  "'d vfs \<Rightarrow> path \<Rightarrow> 's visit \<Rightarrow> 's scanning \<Rightarrow> 'd \<Rightarrow> ('s scanning storage_result \<times> 'd) option" where
  "scan_loop fs p visit s d =
     (case at_op (lit ''read segment'') p (vfs_read_at fs p (sc_total s) SCAN_WINDOW_BYTES d) of
        (Inl e, d) \<Rightarrow> Some (Inl e, d)
      | (Inr chunk, d) \<Rightarrow>
          (case scan_bytes p visit chunk s of
             Inl e \<Rightarrow> Some (Inl e, d)
           | Inr s \<Rightarrow>
               if length chunk < SCAN_WINDOW_BYTES then Some (Inr s, d)
               else scan_loop fs p visit s d))"

definition scan :: "'d vfs \<Rightarrow> path \<Rightarrow> nat \<Rightarrow> 's visit \<Rightarrow> 's \<Rightarrow> 'd \<Rightarrow> ('s scanning storage_result \<times> 'd) option" where
  "scan fs p from visit v d =
     scan_loop fs p visit \<lparr>sc_total = from, sc_filled = from, sc_line = [], sc_zeros = 0, sc_visitor = v\<rparr> d"

definition keep_line :: "(bytes list) visit" where
  "keep_line line at_end held = Inr (if line \<noteq> [] then held @ [line] else held)"

definition read_lines :: "'d vfs \<Rightarrow> path \<Rightarrow> 'd \<Rightarrow> (bytes list storage_result \<times> 'd) option" where
  "read_lines fs p d =
     map_option (\<lambda>(r, d). (and_then r (\<lambda>s. Inr (sc_visitor s)), d)) (scan fs p 0 keep_line [] d)"

fun read_all :: "'d vfs \<Rightarrow> path list \<Rightarrow> bytes list \<Rightarrow> 'd \<Rightarrow> (bytes list storage_result \<times> 'd) option" where
  "read_all fs [] out d = Some (Inr out, d)"
| "read_all fs (p # ps) out d =
     (case read_lines fs p d of
        None \<Rightarrow> None
      | Some (Inl e, d) \<Rightarrow> Some (Inl e, d)
      | Some (Inr held, d) \<Rightarrow> read_all fs ps (out @ held) d)"

definition read_raw_lines :: "'d vfs \<Rightarrow> 'd jsonl_ledger \<Rightarrow> (bytes list storage_result \<times> 'd) option" where
  "read_raw_lines fs L =
     (case at_op (lit ''list ledger dir'') (jl_dir L) (vfs_list fs (jl_dir L) (jl_disk L)) of
        (Inl e, d) \<Rightarrow> Some (Inl e, d)
      | (Inr ps, d) \<Rightarrow> read_all fs (filter is_segment ps) [] d)"


section \<open>The first line and the last line\<close>

definition FIRST_WINDOW_BYTES :: nat where
  "FIRST_WINDOW_BYTES = 4096"

partial_function (option) first_line_loop ::
  "'d vfs \<Rightarrow> path \<Rightarrow> bytes \<Rightarrow> nat \<Rightarrow> 'd \<Rightarrow> ((io_error + bytes option) \<times> 'd) option" where
  "first_line_loop fs p line window d =
     (case vfs_read_at fs p (length line) window d of
        (Inl e, d) \<Rightarrow> Some (Inl e, d)
      | (Inr chunk, d) \<Rightarrow>
          if 10 \<in> set chunk then Some (Inr (Some (line @ takeWhile (\<lambda>b. b \<noteq> 10) chunk)), d)
          else if length chunk < window then Some (Inr None, d)
          else first_line_loop fs p (line @ chunk) (sat_mul u64_max window 2) d)"

definition first_line :: "'d vfs \<Rightarrow> path \<Rightarrow> 'd \<Rightarrow> ((io_error + bytes option) \<times> 'd) option" where
  "first_line fs p d = first_line_loop fs p [] FIRST_WINDOW_BYTES d"

definition BOUNDARY_WINDOW :: nat where
  "BOUNDARY_WINDOW = 16 * 1024"

text \<open>\<open>rposition\<close>: the bytes before the last line feed and those after it.\<close>

partial_function (option) last_line_loop ::
  "'d vfs \<Rightarrow> path \<Rightarrow> nat \<Rightarrow> nat \<Rightarrow> 'd \<Rightarrow> ((io_error + bytes option) \<times> 'd) option" where
  "last_line_loop fs p len window d =
     (let from = len - window in
      case vfs_read_at fs p from (len - from) d of
        (Inl e, d) \<Rightarrow> Some (Inl e, d)
      | (Inr tail, d) \<Rightarrow>
          (case rsplit_once 10 tail of
             Some (body, _) \<Rightarrow>
               (case rsplit_once 10 body of
                  Some (_, line) \<Rightarrow> Some (Inr (Some line), d)
                | None \<Rightarrow>
                    if from = 0 then Some (Inr (Some body), d)
                    else last_line_loop fs p len (sat_mul u64_max window 2) d)
           | None \<Rightarrow>
               if from = 0 then Some (Inr None, d)
               else last_line_loop fs p len (sat_mul u64_max window 2) d))"

definition last_line_of :: "'d vfs \<Rightarrow> path \<Rightarrow> nat \<Rightarrow> 'd \<Rightarrow> ((io_error + bytes option) \<times> 'd) option" where
  "last_line_of fs p len d = last_line_loop fs p len BOUNDARY_WINDOW d"


section \<open>The version probe and the boundary\<close>

definition unversioned :: "nat \<Rightarrow> ax_error" where
  "unversioned v =
     with_recovery (lit ''restore this segment from its checkpoint commit: the ledger version starts at 1 and this line declares less'')
       (failure InvalidArgs (lit ''read a ledger line's version'')
         (lit ''v'' @ show_nat v @ lit '' is below the first version any build wrote''))"

definition probe_version :: "'d vfs \<Rightarrow> codec \<Rightarrow> path list \<Rightarrow> 'd \<Rightarrow> (unit storage_result \<times> 'd) option" where
  "probe_version fs c found d =
     (case found of
        [] \<Rightarrow> Some (Inr (), d)
      | first # others \<Rightarrow>
          (case first_line fs first d of
             None \<Rightarrow> None
           | Some (Inl e, d) \<Rightarrow> Some (Inl (io_err (lit ''read segment'') first e), d)
           | Some (Inr None, d) \<Rightarrow> Some (Inr (), d)
           | Some (Inr (Some line), d) \<Rightarrow>
               Some (case read_version c line of
                  None \<Rightarrow>
                    if others \<noteq> [] then
                      Inl (StEnvelope first 1
                        (with_recovery (lit ''restore this segment from its checkpoint commit, then run `sprawling replay <ledger-dir>`: line 1 of every segment carries `v`'')
                          (failure InvalidArgs (lit ''probe ledger version'')
                            (lit ''first line is not a version-bearing record''))))
                    else Inr ()
                | Some v \<Rightarrow>
                    (case readable_log_v v of
                       LogCurrent \<Rightarrow> Inr ()
                     | LogOlder \<Rightarrow> Inr ()
                     | LogAhead \<Rightarrow> Inl (StVersionAhead first v)
                     | LogNotAVersion \<Rightarrow> Inl (StEnvelope first 1 (unversioned v))), d)))"

record tail_boundary =
  tb_prev :: b3hash
  tb_next_seq :: seq
  tb_prior :: "(path \<times> nat) option"

definition line_count :: "path \<Rightarrow> path \<Rightarrow> nat" where
  "line_count prior last_seg =
     (case (segment_first_seq (last prior), segment_first_seq (last last_seg)) of
        (Some a, Some b) \<Rightarrow> seq_value b - seq_value a
      | _ \<Rightarrow> 0)"

definition boundary_refusal :: "path \<Rightarrow> nat \<Rightarrow> line_fault \<Rightarrow> storage_error" where
  "boundary_refusal prior line fault =
     (case fault of
        VersionAhead v \<Rightarrow> StVersionAhead prior v
      | other \<Rightarrow> StEnvelope prior line (fault_into_ax line other))"

definition no_complete_line :: "path \<Rightarrow> storage_error" where
  "no_complete_line prior =
     StEnvelope prior 0
       (with_recovery (lit ''restore this segment from its checkpoint commit, or move it aside if it was never written: a segment that exists holds at least one line'')
         (failure InvalidArgs (lit ''read prior segment'') (lit ''segment holds no complete line'')))"

text \<open>The segment before \<open>last_seg\<close>: the last one of \<open>found\<close> that is not reached by the loop's break.\<close>

definition prior_of :: "path list \<Rightarrow> path \<Rightarrow> path option" where
  "prior_of found last_seg =
     (let earlier = takeWhile (\<lambda>p. p \<noteq> last_seg) found in if earlier = [] then None else Some (last earlier))"

definition boundary :: "'d vfs \<Rightarrow> codec \<Rightarrow> path list \<Rightarrow> path \<Rightarrow> 'd \<Rightarrow> (tail_boundary storage_result \<times> 'd) option" where
  "boundary fs c found last_seg d =
     (case prior_of found last_seg of
        None \<Rightarrow> Some (Inr \<lparr>tb_prev = GENESIS_PREV, tb_next_seq = seq_FIRST, tb_prior = None\<rparr>, d)
      | Some prior \<Rightarrow>
          (case at_op (lit ''measure segment'') prior (vfs_size fs prior d) of
             (Inl e, d) \<Rightarrow> Some (Inl e, d)
           | (Inr len, d) \<Rightarrow>
               (case last_line_of fs prior len d of
                  None \<Rightarrow> None
                | Some (Inl e, d) \<Rightarrow> Some (Inl (io_err (lit ''read segment'') prior e), d)
                | Some (Inr None, d) \<Rightarrow> Some (Inl (no_complete_line prior), d)
                | Some (Inr (Some line), d) \<Rightarrow>
                    Some (and_then (map_err (boundary_refusal prior (line_count prior last_seg)) (judge c line)) (\<lambda>judged.
                      and_then (map_err Draft (seq_next (jd_seq judged))) (\<lambda>nxt.
                      Inr \<lparr>tb_prev = chain_hash c line, tb_next_seq = nxt, tb_prior = Some (prior, len)\<rparr>)), d))))"


section \<open>Where checking the last segment starts\<close>

record tail_start =
  ts_from :: nat
  ts_lines :: nat
  ts_check :: line_check
  ts_counted :: proof_count

definition no_count :: proof_count where
  "no_count = \<lparr>pc_lines_checked = 0, pc_segments_by_digest = 0, pc_bytes_read = 0, pc_bytes_hashed = 0, pc_waves = 0\<rparr>"

definition tail_strict :: "line_check \<Rightarrow> tail_start" where
  "tail_strict entry = \<lparr>ts_from = 0, ts_lines = 0, ts_check = entry, ts_counted = no_count\<rparr>"

text \<open>Hashing the recorded prefix window by window; \<open>None\<close> in the answer is a prefix the file no longer
  holds.\<close>

partial_function (option) hash_prefix ::
  "'d vfs \<Rightarrow> path \<Rightarrow> nat \<Rightarrow> nat \<Rightarrow> bytes \<Rightarrow> proof_count \<Rightarrow> 'd \<Rightarrow>
   ((io_error + (bytes option \<times> proof_count)) \<times> 'd) option" where
  "hash_prefix fs p len at hasher counted d =
     (if at < len then
        case vfs_read_at fs p at (min SCAN_WINDOW_BYTES (len - at)) d of
          (Inl e, d) \<Rightarrow> Some (Inl e, d)
        | (Inr chunk, d) \<Rightarrow>
            if chunk = [] then Some (Inr (None, counted), d)
            else if at + length chunk > u64_max then Some (Inl (IoError (lit ''prefix offset overflow'')), d)
            else
              hash_prefix fs p len (at + length chunk) (hasher @ chunk)
                (counted\<lparr>pc_bytes_read := sat_add u64_max (pc_bytes_read counted) (length chunk),
                   pc_bytes_hashed := sat_add u64_max (pc_bytes_hashed counted) (length chunk)\<rparr>) d
      else Some (Inr (Some hasher, counted), d))"

definition tail_start_of ::
  "'d vfs \<Rightarrow> codec \<Rightarrow> nat \<Rightarrow> (rstr \<Rightarrow> segment_record option) \<Rightarrow> path \<Rightarrow> line_check \<Rightarrow> 'd \<Rightarrow>
   ((io_error + tail_start) \<times> 'd) option" where
  "tail_start_of fs c version records p entry d =
     (let start = tail_strict entry in
      case (if p = [] then None else records (last p)) of
        None \<Rightarrow> Some (Inr start, d)
      | Some record \<Rightarrow>
          (case vfs_size fs p d of
             (Inl e, d) \<Rightarrow> Some (Inl e, d)
           | (Inr total_len, d) \<Rightarrow>
               (case prefix_length record total_len version of
                  None \<Rightarrow> Some (Inr start, d)
                | Some len \<Rightarrow>
                    if sr_entry record \<noteq> entry then Some (Inr start, d)
                    else
                      (case hash_prefix fs p len 0 [] no_count d of
                         None \<Rightarrow> None
                       | Some (Inl e, d) \<Rightarrow> Some (Inl e, d)
                       | Some (Inr (None, counted), d) \<Rightarrow> Some (Inr (start\<lparr>ts_counted := counted\<rparr>), d)
                       | Some (Inr (Some hasher, counted), d) \<Rightarrow>
                           Some (Inr (case stands c record entry hasher of
                              None \<Rightarrow> start\<lparr>ts_counted := counted\<rparr>
                            | Some (held_lines, exit_check) \<Rightarrow>
                                \<lparr>ts_from = len, ts_lines = held_lines, ts_check = exit_check,
                                 ts_counted = counted\<lparr>pc_segments_by_digest := 1\<rparr>\<rparr>), d)))))"

datatype tail_proof = ProofStrict | ProofRecords "rstr \<Rightarrow> segment_record option"

definition proof_start ::
  "'d vfs \<Rightarrow> codec \<Rightarrow> nat \<Rightarrow> tail_proof \<Rightarrow> path \<Rightarrow> line_check \<Rightarrow> 'd \<Rightarrow> ((io_error + tail_start) \<times> 'd) option" where
  "proof_start fs c version proof p entry d =
     (case proof of
        ProofStrict \<Rightarrow> Some (Inr (tail_strict entry), d)
      | ProofRecords records \<Rightarrow> tail_start_of fs c version records p entry d)"


section \<open>Tail recovery\<close>

record recovering =
  rc_check :: line_check
  rc_at :: nat
  rc_valid_len :: nat
  rc_damaged :: "nat option"
  rc_counted :: proof_count

definition chain_refusal :: "path \<Rightarrow> nat \<Rightarrow> storage_error" where
  "chain_refusal last_seg line =
     StEnvelope last_seg line
       (with_recovery (lit ''run `sprawling replay <ledger-dir>` to see the first line that breaks, then restore that segment from its checkpoint commit'')
         (failure InvalidArgs (lit ''verify chain'') (lit ''a line does not continue the chain'')))"

definition recover_line :: "codec \<Rightarrow> path \<Rightarrow> recovering visit" where
  "recover_line c last_seg line at_end s =
     (let s = s\<lparr>rc_at := sat_add u64_max (rc_at s) 1\<rparr>; at = rc_at s in
      case rc_damaged s of
        Some first_fault \<Rightarrow>
          if carries_envelope c line then Inl (chain_refusal last_seg first_fault) else Inr s
      | None \<Rightarrow>
          let counted = rc_counted s;
              s = s\<lparr>rc_counted := counted\<lparr>pc_lines_checked := sat_add u64_max (pc_lines_checked counted) 1\<rparr>\<rparr> in
          (case advance c line (rc_check s) of
             Inr (_, chk) \<Rightarrow> Inr (s\<lparr>rc_check := chk, rc_valid_len := at_end\<rparr>)
           | Inl fault \<Rightarrow>
               (case fault of
                  VersionAhead v \<Rightarrow> Inl (StVersionAhead last_seg v)
                | NotAVersion v \<Rightarrow> Inl (StEnvelope last_seg at (unversioned v))
                | NotALine _ \<Rightarrow>
                    if carries_envelope c line then Inl (chain_refusal last_seg at)
                    else Inr (s\<lparr>rc_damaged := Some at\<rparr>)
                | ChainBreak \<Rightarrow> Inl (chain_refusal last_seg at)
                | SeqGap _ _ \<Rightarrow> Inl (chain_refusal last_seg at)
                | other \<Rightarrow> Inl (StEnvelope last_seg at (fault_into_ax at other)))))"

text \<open>What the repair leaves: the tail cut off, or a segment that is all tear removed and the segment
  before it taken up again.\<close>

definition cut_tail :: "'d vfs \<Rightarrow> path \<Rightarrow> nat \<Rightarrow> nat \<Rightarrow> nat \<Rightarrow> (path \<times> nat) option \<Rightarrow> ('d jsonl_ledger, unit) step" where
  "cut_tail fs last_seg keep dropped total_len prior L =
     (let at_disk = (\<lambda>op p f. \<lambda>L. case at_op op p (f (jl_disk L)) of (r, d) \<Rightarrow> (r, L\<lparr>jl_disk := d\<rparr>)) in
      if length_after_open (jl_preallocation L) keep dropped total_len < total_len then
        if keep = 0 then
          step_then (at_disk (lit ''truncate segment'') last_seg (vfs_truncate fs last_seg 0) L) (\<lambda>_ L.
          step_then (at_disk (lit ''sync segment'') last_seg (vfs_sync_data fs last_seg) L) (\<lambda>_ L.
          step_then (at_disk (lit ''remove empty segment'') last_seg (vfs_remove_file fs last_seg) L) (\<lambda>_ L.
          step_then (at_disk (lit ''sync ledger dir'') (jl_dir L) (vfs_sync_dir fs (jl_dir L)) L) (\<lambda>_ L.
            (Inr (), case prior of
               Some (p, len) \<Rightarrow> L\<lparr>jl_seg_path := p, jl_seg_len := len\<rparr>
             | None \<Rightarrow> L\<lparr>jl_seg_path := jl_dir L @ [segment_file_name seq_FIRST], jl_seg_len := 0\<rparr>)))))
        else
          step_then (at_disk (lit ''truncate segment'') last_seg (vfs_truncate fs last_seg keep) L) (\<lambda>_ L.
          step_then (at_disk (lit ''sync segment'') last_seg (vfs_sync_data fs last_seg) L) (\<lambda>_ L.
            (Inr (), L\<lparr>jl_seg_path := last_seg, jl_seg_len := keep\<rparr>)))
      else (Inr (), L\<lparr>jl_seg_path := last_seg, jl_seg_len := keep\<rparr>))"

definition recover_tail ::
  "'d vfs \<Rightarrow> codec \<Rightarrow> nat \<Rightarrow> path list \<Rightarrow> path \<Rightarrow> tail_proof \<Rightarrow> 'd jsonl_ledger \<Rightarrow>
   ((nat \<times> proof_count) storage_result \<times> 'd jsonl_ledger) option" where
  "recover_tail fs c version found last_seg proof L =
     (case boundary fs c found last_seg (jl_disk L) of
        None \<Rightarrow> None
      | Some (Inl e, d) \<Rightarrow> Some (Inl e, L\<lparr>jl_disk := d\<rparr>)
      | Some (Inr bound, d) \<Rightarrow>
     (case proof_start fs c version proof last_seg \<lparr>lc_prev = tb_prev bound, lc_expected = tb_next_seq bound\<rparr> d of
        None \<Rightarrow> None
      | Some (Inl e, d) \<Rightarrow> Some (Inl (io_err (lit ''read segment'') last_seg e), L\<lparr>jl_disk := d\<rparr>)
      | Some (Inr start, d) \<Rightarrow>
     (case scan fs last_seg (ts_from start) (recover_line c last_seg)
             \<lparr>rc_check = ts_check start, rc_at = ts_lines start, rc_valid_len = ts_from start, rc_damaged = None,
              rc_counted = ts_counted start\<rparr> d of
        None \<Rightarrow> None
      | Some (Inl e, d) \<Rightarrow> Some (Inl e, L\<lparr>jl_disk := d\<rparr>)
      | Some (Inr s, d) \<Rightarrow>
          let v = sc_visitor s;
              counted = (rc_counted v)\<lparr>pc_bytes_read :=
                sat_add u64_max (pc_bytes_read (rc_counted v)) (sc_total s - ts_from start)\<rparr>;
              dropped = sc_filled s - rc_valid_len v in
          Some (step_then (cut_tail fs last_seg (rc_valid_len v) dropped (sc_total s) (tb_prior bound) (L\<lparr>jl_disk := d\<rparr>))
            (\<lambda>_ L. (Inr (dropped, counted), L\<lparr>jl_prev := lc_prev (rc_check v), jl_next_seq := lc_expected (rc_check v)\<rparr>))))))"


section \<open>Opening\<close>

record open_report =
  or_recovered :: "nat option"
  or_counted :: proof_count

definition unopened :: "'d vfs \<Rightarrow> path \<Rightarrow> 'd \<Rightarrow> ('d jsonl_ledger \<times> path list) storage_result \<times> 'd" where
  "unopened fs dir d =
     step_then (at_op (lit ''create ledger dir'') dir (vfs_create_dir_all fs dir d)) (\<lambda>_ d.
     step_then (at_op (lit ''list ledger dir'') dir (vfs_list fs dir d)) (\<lambda>ps d.
       (Inr (\<lparr>jl_disk = d, jl_dir = dir, jl_seg_path = dir @ [segment_file_name seq_FIRST], jl_seg_len = 0,
          jl_next_seq = seq_FIRST, jl_prev = GENESIS_PREV, jl_roll_bytes = SEGMENT_ROLL_BYTES,
          jl_preallocation = SEGMENT_PREALLOCATION, jl_barrier = BarrierWhole, jl_observer = None,
          jl_halt = halt_default, jl_pending_unwind = None\<rparr>, filter is_segment ps), d)))"

definition append_log_truncated :: "'d vfs \<Rightarrow> codec \<Rightarrow> time_ms \<Rightarrow> nat \<Rightarrow> ('d jsonl_ledger, unit) step" where
  "append_log_truncated fs c now dropped L =
     step_then (map_err Draft (payload_new (bt_insert (lit ''dropped_bytes'') (JNumber (PosInt dropped)) bt_empty)), L) (\<lambda>data L.
     step_then (append_all fs c
         [\<lparr>d_run = run_CITY, d_t = now, d_who = lit ''city'', d_addr = None, d_kind = kind ''LogTruncated'',
           d_data = data, d_ig = False\<rparr>] L) (\<lambda>_ L. (Inr (), L)))"

definition resume ::
  "'d vfs \<Rightarrow> codec \<Rightarrow> nat \<Rightarrow> path list \<Rightarrow> time_ms \<Rightarrow> tail_proof \<Rightarrow> 'd jsonl_ledger \<Rightarrow>
   (open_report storage_result \<times> 'd jsonl_ledger) option" where
  "resume fs c version found now proof L =
     (if found = [] then Some (Inr \<lparr>or_recovered = None, or_counted = no_count\<rparr>, L)
      else
        case probe_version fs c found (jl_disk L) of
          None \<Rightarrow> None
        | Some (Inl e, d) \<Rightarrow> Some (Inl e, L\<lparr>jl_disk := d\<rparr>)
        | Some (Inr _, d) \<Rightarrow>
            (case recover_tail fs c version found (last found) proof (L\<lparr>jl_disk := d\<rparr>) of
               None \<Rightarrow> None
             | Some (Inl e, L) \<Rightarrow> Some (Inl e, L)
             | Some (Inr (dropped, counted), L) \<Rightarrow>
                 Some (if dropped > 0 then
                   step_then (if jl_next_seq L \<noteq> seq_FIRST then append_log_truncated fs c now dropped L else (Inr (), L))
                     (\<lambda>_ L. (Inr \<lparr>or_recovered = Some dropped, or_counted = counted\<rparr>, L))
                 else (Inr \<lparr>or_recovered = None, or_counted = counted\<rparr>, L))))"

definition open_through ::
  "'d vfs \<Rightarrow> codec \<Rightarrow> nat \<Rightarrow> path \<Rightarrow> time_ms \<Rightarrow> tail_proof \<Rightarrow> 'd \<Rightarrow>
   (('d jsonl_ledger \<times> open_report) storage_result \<times> 'd) option" where
  "open_through fs c version dir now proof d =
     (case unopened fs dir d of
        (Inl e, d) \<Rightarrow> Some (Inl e, d)
      | (Inr (L, found), d) \<Rightarrow>
          (case resume fs c version found now proof L of
             None \<Rightarrow> None
           | Some (Inl e, L) \<Rightarrow> Some (Inl e, jl_disk L)
           | Some (Inr report, L) \<Rightarrow> Some (Inr (L, report), jl_disk L)))"

end
