(* ===== verification/LedgerChains.thy ===== *)
theory LedgerChains
  imports LedgerWriting
begin

text \<open>
  What the chain gives: a reader that walks from genesis accepts exactly the lines a writer framed,
  a history that was changed does not end in the same state, and the framing of a wave cuts no line.
\<close>

section \<open>Walking a chain\<close>

fun read_chain :: "codec \<Rightarrow> bytes list \<Rightarrow> line_check \<Rightarrow> line_fault + line_check" where
  "read_chain c [] chk = Inr chk"
| "read_chain c (line # rest) chk = and_then (advance c line chk) (\<lambda>(_, chk). read_chain c rest chk)"

lemma read_chain_append:
  "read_chain c (xs @ ys) chk = and_then (read_chain c xs chk) (read_chain c ys)"
proof (induction xs arbitrary: chk)
  case (Cons x xs)
  then show ?case by (cases "advance c x chk") (auto simp: split_def)
qed simp

lemma seq_next_Inr: "seq_next s = Inr t \<longleftrightarrow> t = Seq (Suc (seq_value s)) \<and> seq_value s < u64_max"
  by (auto simp: seq_next_def checked_add_def ok_or_def split: option.splits if_splits)

lemma advance_Inr:
  "advance c raw chk = Inr (checked, chk') \<longleftrightarrow>
     (\<exists>env. readable_envelope c raw = Inr env \<and> en_prev env = lc_prev chk \<and> en_seq env = lc_expected chk \<and>
        classify c env raw = Inr checked \<and> seq_value (lc_expected chk) < u64_max \<and>
        chk' = \<lparr>lc_prev = chain_hash c raw, lc_expected = Seq (Suc (seq_value (lc_expected chk)))\<rparr>)"
  by (auto simp: advance_def result_simps seq_next_Inr split: if_splits)

lemma read_chain_expected:
  "read_chain c ls chk = Inr chk' \<Longrightarrow>
   seq_value (lc_expected chk') = seq_value (lc_expected chk) + length ls"
proof (induction ls arbitrary: chk)
  case (Cons l ls)
  then show ?case by (fastforce simp: result_simps advance_Inr)
qed simp

text \<open>The last state of a walk names the whole walk, while the hash has no two inputs for one output.\<close>

lemma read_chain_determines:
  assumes inj: "inj (blake3 c)"
  shows "read_chain c xs chk = Inr end1 \<Longrightarrow> read_chain c ys chk = Inr end1 \<Longrightarrow> xs = ys"
proof (induction xs arbitrary: ys end1 rule: rev_induct)
  case Nil
  then have "length ys = 0" using read_chain_expected [of c ys chk end1] by simp
  then show ?case by simp
next
  case (snoc x xs)
  have "length ys = Suc (length xs)"
    using read_chain_expected [OF snoc.prems(1)] read_chain_expected [OF snoc.prems(2)] by simp
  then obtain ys' y where ys: "ys = ys' @ [y]" by (metis Zero_not_Suc list.size(3) rev_exhaust)
  obtain mid1 where m1: "read_chain c xs chk = Inr mid1" "\<exists>k. advance c x mid1 = Inr (k, end1)"
    using snoc.prems(1) by (auto simp: read_chain_append result_simps)
  obtain mid2 where m2: "read_chain c ys' chk = Inr mid2" "\<exists>k. advance c y mid2 = Inr (k, end1)"
    using snoc.prems(2) by (auto simp: ys read_chain_append result_simps)
  have "chain_hash c x = chain_hash c y"
    using m1(2) m2(2) by (auto simp: advance_Inr)
  then have same: "x = y" using inj by (auto simp: chain_hash_def dest: injD)
  then have "mid1 = mid2" using m1(2) m2(2) by (auto simp: advance_Inr)
  with snoc.IH [OF m1(1)] m2(1) show ?case by (simp add: ys same)
qed


section \<open>What a writer may expect of the codec\<close>

text \<open>The documented behaviour of \<open>serde_json\<close> on the records this build writes: what it wrote it
  reads back, the envelope of a line and its version are those of its record, and a line is not empty and holds neither a
  line feed nor a zero byte, which compact JSON escapes inside strings. A vector holds fewer than
  \<open>2^63\<close> bytes.\<close>

definition envelope_of :: "event_record \<Rightarrow> envelope" where
  "envelope_of r = \<lparr>en_v = r_v r, en_seq = r_seq r, en_prev = r_prev r, en_kind = kind_word (r_kind r), en_ig = r_ig r\<rparr>"

definition reads_back :: "codec \<Rightarrow> bool" where
  "reads_back c \<longleftrightarrow> (\<forall>r bs. write_record c r = Inr bs \<longrightarrow>
     read_record c bs = Inr r \<and> read_envelope c bs = Inr (envelope_of r) \<and> read_version c bs = Some (r_v r) \<and>
     bs \<noteq> [] \<and> 10 \<notin> set bs \<and> 0 \<notin> set bs \<and> length bs < 2 ^ 63)"

definition known_draft :: "event_draft \<Rightarrow> bool" where
  "known_draft d \<longleftrightarrow> d_kind d \<in> set event_kind_ALL"

lemma canonical_line_Inr: "canonical_line c r = Inr bs \<longleftrightarrow> write_record c r = Inr bs"
  by (simp add: canonical_line_def)

lemma parse_line_Inr: "parse_line c bs = Inr r \<longleftrightarrow> read_record c bs = Inr r"
  by (simp add: parse_line_def)

text \<open>A line a writer framed is accepted where the writer stood, and leaves the reader where the writer
  stands next.\<close>

lemma framed_line_advances:
  assumes codec: "reads_back c" and draft: "known_draft d"
    and line: "write_record c (from_draft d s prev) = Inr bs" and nxt: "seq_next s = Inr s'"
  shows "advance c bs \<lparr>lc_prev = prev, lc_expected = s\<rparr> =
    Inr (Known (from_draft d s prev), \<lparr>lc_prev = chain_hash c bs, lc_expected = s'\<rparr>)"
proof -
  let ?r = "from_draft d s prev"
  have echo: "read_record c bs = Inr ?r" "read_envelope c bs = Inr (envelope_of ?r)"
    using codec line by (auto simp: reads_back_def)
  have env: "readable_envelope c bs = Inr (envelope_of ?r)"
    by (simp add: readable_envelope_def echo readable_log_v_def EVENT_LOG_V_def EVENT_LOG_V_FIRST_def
        envelope_of_def from_draft_def)
  have canon: "canonical_record c bs = Inr ?r"
    by (simp add: canonical_record_def result_simps parse_line_Inr canonical_line_Inr echo line)
  have "is_known_kind (en_kind (envelope_of ?r))"
    using draft by (simp add: is_known_kind_def envelope_of_def from_draft_def known_draft_def)
  then have "classify c (envelope_of ?r) bs = Inr (Known ?r)"
    by (simp add: classify_def canon)
  with nxt show ?thesis
    by (simp add: advance_Inr env seq_next_Inr) (simp add: envelope_of_def from_draft_def)
qed


section \<open>Segment names\<close>

abbreviation seg :: "path \<Rightarrow> nat \<Rightarrow> path" where
  "seg dir s \<equiv> dir @ [segment_file_name (Seq s)]"

lemma zero_padded_value: "digits_value 0 (zero_padded w n) = n"
proof -
  have "digits_value 0 (replicate k 48 @ xs) = digits_value 0 xs" for k xs
    by (induction k) simp_all
  then show ?thesis by (simp add: zero_padded_def)
qed

lemma segment_file_name_inject [simp]: "segment_file_name s = segment_file_name t \<longleftrightarrow> s = t"
proof
  assume "segment_file_name s = segment_file_name t"
  then have "zero_padded 20 (seq_value s) = zero_padded 20 (seq_value t)"
    by (simp add: segment_file_name_def)
  then have "seq_value s = seq_value t" by (metis zero_padded_value)
  then show "s = t" by (simp add: seq.expand)
qed simp

definition unlines :: "bytes list \<Rightarrow> bytes" where
  "unlines ls = concat (map (\<lambda>l. l @ [10]) ls)"

lemma unlines_simps [simp]:
  "unlines [] = []" "unlines (l # ls) = l @ 10 # unlines ls" "unlines (xs @ ys) = unlines xs @ unlines ys"
  by (simp_all add: unlines_def)


section \<open>What framing a wave yields\<close>

text \<open>The writer stands in segment \<open>f0\<close> with \<open>n0\<close> bytes in it, a fresh segment when it holds nothing.
  After the drafts of a wave, the writes are those of the segments \<open>ws\<close>: every line of the wave, in
  order, whole lines only, at most one write for each segment.\<close>

record wave_start =
  ws_dir :: path
  ws_first :: nat
  ws_len :: nat
  ws_seq :: nat
  ws_prev :: b3hash

definition start_ok :: "wave_start \<Rightarrow> bool" where
  "start_ok a \<longleftrightarrow> ws_first a \<le> ws_seq a \<and> (ws_first a = ws_seq a \<longleftrightarrow> ws_len a = 0)"

definition write_of :: "wave_start \<Rightarrow> nat \<times> bytes \<Rightarrow> segment_write" where
  "write_of a x = (seg (ws_dir a) (fst x), if fst x = ws_first a then ws_len a else 0, snd x)"

definition new_in :: "wave_start \<Rightarrow> (nat \<times> bytes) list \<Rightarrow> path list" where
  "new_in a ws = map (\<lambda>x. seg (ws_dir a) (fst x)) (filter (\<lambda>x. ws_len a = 0 \<or> fst x \<noteq> ws_first a) ws)"

definition framed :: "codec \<Rightarrow> wave_start \<Rightarrow> bytes list \<Rightarrow> (nat \<times> bytes) list \<Rightarrow> framing \<Rightarrow> bool" where
  "framed c a ls ws w \<longleftrightarrow>
     fr_writes w = map (write_of a) ws \<and>
     fr_created w = (if ws = [] then (if ws_len a = 0 then [seg (ws_dir a) (ws_first a)] else []) else new_in a ws) \<and>
     sorted_wrt (<) (map fst ws) \<and>
     (\<forall>x \<in> set ws. snd x \<noteq> [] \<and> fst x < seq_value (fr_seq w) \<and> (fst x = ws_first a \<or> ws_seq a \<le> fst x) \<and>
        last (snd x) = 10 \<and> (if fst x = ws_first a then ws_len a else 0) + length (snd x) \<le> u64_max) \<and>
     fr_path w = seg (ws_dir a) (if ws = [] then ws_first a else fst (last ws)) \<and>
     fr_len w = (if ws = [] then ws_len a
       else (if fst (last ws) = ws_first a then ws_len a else 0) + length (snd (last ws))) \<and>
     (ws_len a = 0 \<longrightarrow> ws = [] \<or> ws_first a \<in> fst ` set ws) \<and>
     concat (map snd ws) = unlines ls \<and>
     read_chain c ls \<lparr>lc_prev = ws_prev a, lc_expected = Seq (ws_seq a)\<rparr> =
       Inr \<lparr>lc_prev = fr_prev w, lc_expected = fr_seq w\<rparr> \<and>
     list_all2 (\<lambda>r l. write_record c r = Inr l) (fr_records w) ls"

lemma frame_draft_shape:
  assumes codec: "reads_back c" and roll: "roll < u64_max"
    and frame: "frame_draft c dir roll d w = Inr w'"
  obtains line rolls where
    "write_record c (from_draft d (fr_seq w) (fr_prev w)) = Inr line"
    "rolls \<Longrightarrow> fr_len w > 0"
    "seq_next (fr_seq w) = Inr (fr_seq w')"
    "fr_prev w' = chain_hash c line"
    "fr_path w' = (if rolls then seg dir (seq_value (fr_seq w)) else fr_path w)"
    "fr_len w' = (if rolls then 0 else fr_len w) + Suc (length line)" "fr_len w' \<le> u64_max"
    "fr_writes w' = push_write (fr_path w') (if rolls then 0 else fr_len w) (line @ [10]) (fr_writes w)"
    "fr_created w' = (if rolls then fr_created w @ [fr_path w'] else fr_created w)"
    "fr_records w' = fr_records w @ [from_draft d (fr_seq w) (fr_prev w)]"
proof -
  obtain line where line: "write_record c (from_draft d (fr_seq w) (fr_prev w)) = Inr line"
    using frame by (auto simp: frame_draft_def Let_def result_simps canonical_line_Inr)
  have "length line < 2 ^ 63" using codec line by (auto simp: reads_back_def)
  then have len: "sat_add u64_max (length line) (Suc 0) = Suc (length line)" "Suc (length line) \<le> u64_max"
    by (simp_all add: sat_add_def u_defs)
  define rolls where "rolls = (fr_len w > 0 \<and> sat_add u64_max (fr_len w) (Suc (length line)) > roll)"
  have exact: "sat_add u64_max (if rolls then 0 else fr_len w) (Suc (length line)) =
      (if rolls then 0 else fr_len w) + Suc (length line)"
    using len(2) roll by (auto simp: rolls_def sat_add_def min_def split: if_splits)
  obtain nxt where nxt: "seq_next (fr_seq w) = Inr nxt"
    and w': "w' = (let p = if rolls then seg dir (seq_value (fr_seq w)) else fr_path w;
        at = if rolls then 0 else fr_len w in
      \<lparr>fr_path = p, fr_len = at + Suc (length line), fr_seq = nxt, fr_prev = chain_hash c line,
        fr_writes = push_write p at (line @ [10]) (fr_writes w),
        fr_created = (if rolls then fr_created w @ [p] else fr_created w),
        fr_records = fr_records w @ [from_draft d (fr_seq w) (fr_prev w)]\<rparr>)"
    using frame exact unfolding rolls_def
    by (auto simp: frame_draft_def Let_def result_simps canonical_line_Inr line len(1) simp del: sat_add_exact
        split del: if_split cong: if_cong)
  have "(if rolls then 0 else fr_len w) + Suc (length line) \<le> u64_max"
    using exact by (metis sat_add_le)
  then show thesis
    by (intro that [OF line]) (auto simp: w' Let_def nxt rolls_def)
qed

lemma framed_start:
  assumes "w = \<lparr>fr_path = seg (ws_dir a) (ws_first a), fr_len = ws_len a, fr_seq = Seq (ws_seq a), fr_prev = ws_prev a,
    fr_writes = [], fr_created = (if ws_len a = 0 then [seg (ws_dir a) (ws_first a)] else []), fr_records = []\<rparr>"
  shows "framed c a [] [] w"
  by (simp add: framed_def assms)

text \<open>Where the next line of a wave goes: behind the last write, or into a segment named for its seq.\<close>

lemma push_write_roll:
  assumes "\<And>x. x \<in> set ws \<Longrightarrow> fst x < s"
  shows "push_write (seg (ws_dir a) s) at bs (map (write_of a) ws) = map (write_of a) ws @ [(seg (ws_dir a) s, at, bs)]"
proof -
  have "fst (last ws) \<noteq> s" if "ws \<noteq> []" using assms that last_in_set by blast
  then show ?thesis by (auto simp: push_write_def write_of_def last_map)
qed

lemma push_write_stay:
  assumes "ws \<noteq> []" "last ws = (s, old)"
  shows "push_write (seg (ws_dir a) s) at bs (map (write_of a) ws) = map (write_of a) (butlast ws @ [(s, old @ bs)])"
  using assms by (simp add: push_write_def write_of_def last_map map_butlast)

lemma framed_step:
  assumes codec: "reads_back c" and roll: "roll < u64_max" and draft: "known_draft d"
    and start: "start_ok a" and framed: "framed c a ls ws w"
    and frame: "frame_draft c (ws_dir a) roll d w = Inr w'"
  shows "\<exists>line ws'. framed c a (ls @ [line]) ws' w' \<and> ws' \<noteq> []"
  using frame_draft_shape [OF codec roll frame]
proof (cases rule: frame_draft_shape [OF codec roll frame])
  case (1 line rolls)
  let ?s = "seq_value (fr_seq w)"
  have nxt: "fr_seq w' = Seq (Suc ?s)" using 1(3) by (simp add: seq_next_Inr)
  have writes: "fr_writes w = map (write_of a) ws" and sorted: "sorted_wrt (<) (map fst ws)"
    and below: "\<And>x. x \<in> set ws \<Longrightarrow> snd x \<noteq> [] \<and> fst x < ?s \<and> (fst x = ws_first a \<or> ws_seq a \<le> fst x) \<and>
        last (snd x) = 10 \<and> (if fst x = ws_first a then ws_len a else 0) + length (snd x) \<le> u64_max"
    and path: "fr_path w = seg (ws_dir a) (if ws = [] then ws_first a else fst (last ws))"
    and len: "fr_len w = (if ws = [] then ws_len a
       else (if fst (last ws) = ws_first a then ws_len a else 0) + length (snd (last ws)))"
    and created: "fr_created w = (if ws = [] then (if ws_len a = 0 then [seg (ws_dir a) (ws_first a)] else []) else new_in a ws)"
    and fresh: "ws_len a = 0 \<longrightarrow> ws = [] \<or> ws_first a \<in> fst ` set ws"
    and text_so_far: "concat (map snd ws) = unlines ls"
    and chain: "read_chain c ls \<lparr>lc_prev = ws_prev a, lc_expected = Seq (ws_seq a)\<rparr> =
       Inr \<lparr>lc_prev = fr_prev w, lc_expected = fr_seq w\<rparr>"
    and recs: "list_all2 (\<lambda>r l. write_record c r = Inr l) (fr_records w) ls"
    using framed by (auto simp: framed_def)
  have seqs: "?s = ws_seq a + length ls" using read_chain_expected [OF chain] by simp
  have chain': "read_chain c (ls @ [line]) \<lparr>lc_prev = ws_prev a, lc_expected = Seq (ws_seq a)\<rparr> =
       Inr \<lparr>lc_prev = fr_prev w', lc_expected = fr_seq w'\<rparr>"
    using framed_line_advances [OF codec draft 1(1,3)] chain by (simp add: read_chain_append 1(4))
  have recs': "list_all2 (\<lambda>r l. write_record c r = Inr l) (fr_records w') (ls @ [line])"
    using recs 1(1) by (simp add: 1(10) list_all2_appendI)
  show ?thesis
  proof (cases rolls)
    case True
    define ws' where "ws' = ws @ [(?s, line @ [10])]"
    have "ws \<noteq> [] \<Longrightarrow> fst (last ws) < ?s \<and> (fst (last ws) = ws_first a \<or> ws_seq a \<le> fst (last ws))"
      using below last_in_set by blast
    then have other: "?s \<noteq> ws_first a"
      using 1(2) True start len seqs by (auto simp: start_ok_def split: if_splits)
    have "framed c a (ls @ [line]) ws' w'"
      unfolding framed_def
      using True other start seqs below sorted 1(2,6,7) len fresh
      by (auto simp: ws'_def 1(5,6,8,9) writes push_write_roll write_of_def created new_in_def path nxt text_so_far chain'
          recs' sorted_wrt_append less_Suc_eq start_ok_def simp del: segment_file_name_inject)
    then show ?thesis by (auto simp: ws'_def)
  next
    case False
    show ?thesis
    proof (cases "ws = []")
      case True
      define ws' where "ws' = [(ws_first a, line @ [10])]"
      have "framed c a (ls @ [line]) ws' w'"
        unfolding framed_def
        using False True start seqs len text_so_far 1(6,7)
        by (auto simp: ws'_def 1(5,6,8,9) writes write_of_def push_write_def created new_in_def path nxt chain' recs' start_ok_def)
      then show ?thesis by (auto simp: ws'_def)
    next
      case ne: False
      obtain s old where s: "last ws = (s, old)" by force
      then have mem: "(s, old) \<in> set ws" using ne last_in_set by metis
      have split: "ws = butlast ws @ [(s, old)]" using ne s by (metis append_butlast_last_id)
      define ws' where "ws' = butlast ws @ [(s, old @ line @ [10])]"
      have fsts: "map fst ws' = map fst ws"
        unfolding ws'_def by (subst split) simp
      have fresh_w: "ws_len a = 0 \<longrightarrow> ws_first a \<in> fst ` set ws'"
        using fresh ne fsts by (metis list.set_map)
      have "concat (map snd ws') = unlines (ls @ [line])"
        using text_so_far unfolding ws'_def by (subst (asm) split) simp
      moreover have "\<forall>x \<in> set ws'. snd x \<noteq> [] \<and> fst x < seq_value (fr_seq w') \<and> (fst x = ws_first a \<or> ws_seq a \<le> fst x) \<and>
          last (snd x) = 10 \<and> (if fst x = ws_first a then ws_len a else 0) + length (snd x) \<le> u64_max"
      proof
        fix x assume "x \<in> set ws'"
        then consider "x \<in> set ws" | "x = (s, old @ line @ [10])" by (auto simp: ws'_def dest: in_set_butlastD)
        then show "snd x \<noteq> [] \<and> fst x < seq_value (fr_seq w') \<and> (fst x = ws_first a \<or> ws_seq a \<le> fst x) \<and>
            last (snd x) = 10 \<and> (if fst x = ws_first a then ws_len a else 0) + length (snd x) \<le> u64_max"
        proof cases
          case 1
          from below [OF this] show ?thesis by (auto simp: nxt)
        next
          case 2
          with below [OF mem] 1(6,7) len ne s False show ?thesis by (auto simp: nxt less_Suc_eq)
        qed
      qed
      moreover have "new_in a ws' = new_in a ws"
        unfolding ws'_def new_in_def by (subst (2) split) simp
      moreover have "fr_writes w' = map (write_of a) ws'"
        using False ne s path by (simp add: 1(5,6,8,9) writes push_write_stay ws'_def)
      ultimately show ?thesis
        using False ne s sorted chain' recs' len path created fsts fresh_w
        by (intro exI [of _ line] exI [of _ ws']) (auto simp: framed_def 1(5,6,8,9) ws'_def)
    qed
  qed
qed

lemma frame_all_framed:
  assumes "reads_back c" "roll < u64_max" "start_ok a" "\<forall>d \<in> set drafts. known_draft d"
    and "framed c a ls ws w" "frame_all c (ws_dir a) roll drafts w = Inr w'"
  shows "\<exists>more_lines ws'. framed c a (ls @ more_lines) ws' w' \<and> length more_lines = length drafts \<and>
    (drafts \<noteq> [] \<longrightarrow> ws' \<noteq> [])"
  using assms(4-6)
proof (induction drafts arbitrary: ls ws w)
  case Nil
  then show ?case by auto
next
  case (Cons d drafts)
  obtain w1 where w1: "frame_draft c (ws_dir a) roll d w = Inr w1" "frame_all c (ws_dir a) roll drafts w1 = Inr w'"
    using Cons.prems(3) by (auto simp: result_simps)
  obtain line ws1 where f1: "framed c a (ls @ [line]) ws1 w1" "ws1 \<noteq> []"
    using framed_step [OF assms(1,2) _ assms(3) Cons.prems(2) w1(1)] Cons.prems(1) by auto
  obtain more_lines ws2 where f2: "framed c a ((ls @ [line]) @ more_lines) ws2 w'" "length more_lines = length drafts"
    "drafts \<noteq> [] \<longrightarrow> ws2 \<noteq> []"
    using Cons.IH [OF _ f1(1) w1(2)] Cons.prems(1) by auto
  have "ws2 \<noteq> []"
  proof
    assume "ws2 = []"
    then have "unlines ((ls @ [line]) @ more_lines) = []" using f2(1) by (simp add: framed_def)
    then show False by simp
  qed
  with f2 show ?case by (intro exI [of _ "line # more_lines"] exI [of _ ws2]) simp
qed

end
