(* ===== verification/DiskLaws.thy ===== *)
theory DiskLaws
  imports FaultDisks
begin

text \<open>
  What the ledger may rely on when it writes through the seam, whatever fails, and that the
  power-loss adapter keeps it. A disk shows three things of a file: the bytes a reader sees (\<open>live\<close>),
  the bytes that survive a loss of power (\<open>durable\<close>), and whether its directory entry survives
  (\<open>entered\<close>).
\<close>

section \<open>What a disk shows\<close>

locale disk_view =
  fixes live durable :: "'d \<Rightarrow> path \<Rightarrow> bytes option"
    and entered :: "'d \<Rightarrow> path \<Rightarrow> bool"
begin

text \<open>A file lies between \<open>old\<close> and \<open>new\<close> when both its planes extend \<open>old\<close> and neither goes beyond
  \<open>new\<close>; it rests at \<open>bs\<close> when both are \<open>bs\<close>.\<close>

definition lies :: "'d \<Rightarrow> path \<Rightarrow> bytes \<Rightarrow> bytes \<Rightarrow> bool" where
  "lies d q old new \<longleftrightarrow> entered d q \<and>
     (\<exists>l s. live d q = Some l \<and> durable d q = Some s \<and>
        prefix old l \<and> prefix l new \<and> prefix old s \<and> prefix s new)"

definition rests :: "'d \<Rightarrow> path \<Rightarrow> bytes \<Rightarrow> bool" where
  "rests d q bs \<longleftrightarrow> lies d q bs bs"

definition unchanged :: "'d \<Rightarrow> 'd \<Rightarrow> path \<Rightarrow> bool" where
  "unchanged d d' q \<longleftrightarrow> live d' q = live d q \<and> durable d' q = durable d q \<and> entered d' q = entered d q"

definition survives :: "'d \<Rightarrow> 'd \<Rightarrow> path \<Rightarrow> bool" where
  "survives d d' q \<longleftrightarrow> (live d q = None \<longrightarrow> live d' q = None) \<and> (entered d' q \<longrightarrow> entered d q) \<and>
     (\<forall>old new. lies d q old new \<longrightarrow> lies d' q old new)"

lemma unchanged_survives: "unchanged d d' q \<Longrightarrow> survives d d' q"
  by (simp add: unchanged_def survives_def lies_def)

lemma survives_refl: "survives d d q"
  by (simp add: survives_def)

lemma survives_trans: "survives d d' q \<Longrightarrow> survives d' d'' q \<Longrightarrow> survives d d'' q"
  by (simp add: survives_def)

lemma lies_survives: "survives d d' q \<Longrightarrow> lies d q old new \<Longrightarrow> lies d' q old new"
  by (simp add: survives_def)

lemma absent_survives: "survives d d' q \<Longrightarrow> live d q = None \<Longrightarrow> live d' q = None"
  by (simp add: survives_def)

lemma lies_wider: "lies d q old new \<Longrightarrow> prefix old' old \<Longrightarrow> prefix new new' \<Longrightarrow> lies d q old' new'"
  unfolding lies_def by (meson prefix_order.trans)

lemma rests_iff: "rests d q bs \<longleftrightarrow> entered d q \<and> live d q = Some bs \<and> durable d q = Some bs"
  by (auto simp: rests_def lies_def dest: prefix_order.antisym)

end

locale durable_disk = disk_view live durable entered
  for live durable :: "'d \<Rightarrow> path \<Rightarrow> bytes option" and entered :: "'d \<Rightarrow> path \<Rightarrow> bool" +
  fixes fs :: "'d vfs"
    and wf :: "'d \<Rightarrow> bool"
  assumes entered_live: "entered d q \<Longrightarrow> live d q \<noteq> None"
    and exists_iff: "vfs_exists fs p d \<longleftrightarrow> live d p \<noteq> None"
    and append_wf: "wf d \<Longrightarrow> vfs_append fs p bs d = (r, d') \<Longrightarrow> wf d'"
    and append_ok: "wf d \<Longrightarrow> vfs_append fs p bs d = (Inr x, d') \<Longrightarrow>
      live d' p = Some ((case live d p of None \<Rightarrow> [] | Some l \<Rightarrow> l) @ bs) \<and>
      durable d' p = Some (case durable d p of None \<Rightarrow> [] | Some s \<Rightarrow> s) \<and>
      entered d' p = entered d p \<and> (\<forall>q. q \<noteq> p \<longrightarrow> unchanged d d' q)"
    and append_err: "wf d \<Longrightarrow> vfs_append fs p bs d = (Inl e, d') \<Longrightarrow>
      (\<forall>q. q \<noteq> p \<longrightarrow> survives d d' q) \<and> (entered d' p \<longrightarrow> entered d p) \<and>
      (\<forall>old l. lies d p old l \<and> live d p = Some l \<longrightarrow> lies d' p old (l @ bs))"
    and truncate_wf: "wf d \<Longrightarrow> vfs_truncate fs p n d = (r, d') \<Longrightarrow> wf d'"
    and truncate_ok: "wf d \<Longrightarrow> vfs_truncate fs p n d = (Inr x, d') \<Longrightarrow>
      live d p \<noteq> None \<and> live d' p = map_option (resize n) (live d p) \<and> durable d' p = durable d p \<and>
      entered d' p = entered d p \<and> (\<forall>q. q \<noteq> p \<longrightarrow> unchanged d d' q)"
    and truncate_err: "wf d \<Longrightarrow> vfs_truncate fs p n d = (Inl e, d') \<Longrightarrow>
      (\<forall>q. q \<noteq> p \<longrightarrow> survives d d' q) \<and> (entered d' p \<longrightarrow> entered d p) \<and>
      (\<forall>old new l. lies d p old new \<and> live d p = Some l \<and> length old \<le> n \<and> n \<le> length l \<longrightarrow> lies d' p old new)"
    and sync_data_wf: "wf d \<Longrightarrow> vfs_sync_data fs p d = (r, d') \<Longrightarrow> wf d'"
    and sync_data_ok: "wf d \<Longrightarrow> vfs_sync_data fs p d = (Inr x, d') \<Longrightarrow>
      live d p \<noteq> None \<and> live d' p = live d p \<and> durable d' p = live d p \<and> entered d' p = entered d p \<and>
      (\<forall>q. q \<noteq> p \<longrightarrow> unchanged d d' q)"
    and sync_data_err: "wf d \<Longrightarrow> vfs_sync_data fs p d = (Inl e, d') \<Longrightarrow> survives d d' q"
    and sync_dir_wf: "wf d \<Longrightarrow> vfs_sync_dir fs dir d = (r, d') \<Longrightarrow> wf d'"
    and sync_dir_ok: "wf d \<Longrightarrow> vfs_sync_dir fs dir d = (Inr x, d') \<Longrightarrow>
      live d' q = live d q \<and> durable d' q = durable d q \<and>
      entered d' q = (entered d q \<or> parent_is q dir \<and> live d q \<noteq> None)"
    and sync_dir_err: "wf d \<Longrightarrow> vfs_sync_dir fs dir d = (Inl e, d') \<Longrightarrow> survives d d' q"
    and remove_wf: "wf d \<Longrightarrow> vfs_remove_file fs p d = (r, d') \<Longrightarrow> wf d'"
    and remove_ok: "wf d \<Longrightarrow> vfs_remove_file fs p d = (Inr x, d') \<Longrightarrow>
      live d' p = None \<and> \<not> entered d' p \<and> (\<forall>q. q \<noteq> p \<longrightarrow> unchanged d d' q)"
    and remove_err: "wf d \<Longrightarrow> vfs_remove_file fs p d = (Inl e, d') \<Longrightarrow>
      (\<forall>q. q \<noteq> p \<longrightarrow> survives d d' q) \<and> (entered d' p \<longrightarrow> entered d p)"


section \<open>The power-loss adapter as such a disk\<close>

definition ff_live :: "fault_state \<Rightarrow> path \<Rightarrow> bytes option" where
  "ff_live st p = map_option fs_live (bt_get (ff_files st) p)"

definition ff_durable :: "fault_state \<Rightarrow> path \<Rightarrow> bytes option" where
  "ff_durable st p = map_option fs_durable (bt_get (ff_files st) p)"

definition ff_entered :: "fault_state \<Rightarrow> path \<Rightarrow> bool" where
  "ff_entered st p \<longleftrightarrow> (case bt_get (ff_files st) p of Some f \<Rightarrow> fs_durable_entry f | None \<Rightarrow> False)"

definition ff_wf :: "fault_state \<Rightarrow> bool" where
  "ff_wf st \<longleftrightarrow> bt_wf (ff_files st)"

lemma common_length:
  assumes "prefix s new" "prefix l new"
  shows "length (takeWhile (\<lambda>(a, b). a = b) (zip s l)) = min (length s) (length l)"
proof -
  have "\<forall>x \<in> set (zip s l). case x of (a, b) \<Rightarrow> a = b"
    using assms by (auto simp: set_zip prefix_def nth_append split: if_splits) (metis nth_append)
  then have "takeWhile (\<lambda>(a, b). a = b) (zip s l) = zip s l"
    by (simp only: takeWhile_eq_all_conv)
  then show ?thesis by (simp only: length_zip)
qed

text \<open>A loss of power leaves a prefix of the wave's bytes, never less than both planes agreed on.\<close>

lemma settle_file_between:
  assumes "prefix old (fs_live f)" "prefix (fs_live f) new" "prefix old (fs_durable f)" "prefix (fs_durable f) new"
  shows "fs_live (settle_file torn f) = fs_durable (settle_file torn f)"
    and "prefix old (fs_live (settle_file torn f))"
    and "prefix (fs_live (settle_file torn f)) new"
proof -
  define a b where "a = length (fs_live f)" and "b = length (fs_durable f)"
  have l: "fs_live f = take a new"
    using assms(2) unfolding a_def by (metis append_eq_conv_conj prefix_def)
  have s: "fs_durable f = take b new"
    using assms(4) unfolding b_def by (metis append_eq_conv_conj prefix_def)
  have le: "a \<le> length new" "b \<le> length new"
    using prefix_length_le [OF assms(2)] prefix_length_le [OF assms(4)] by (simp_all add: a_def b_def)
  have common: "length (takeWhile (\<lambda>(a, b). a = b) (zip (fs_durable f) (fs_live f))) = min b a"
    using common_length [OF assms(4,2)] by (simp add: a_def b_def)
  define keep where "keep = (case torn of TornNone \<Rightarrow> 0 | KeepBytes k \<Rightarrow> min k (a - min b a))"
  have settled: "fs_live (settle_file torn f) = take (min b a + keep) (take a new) @ drop (min b a + keep) (take b new)"
    "fs_live (settle_file torn f) = fs_durable (settle_file torn f)"
    by (simp_all add: settle_file_def Let_def common keep_def a_def [symmetric] l [symmetric] s [symmetric]
        cong: torn_tail.case_cong)
  show "fs_live (settle_file torn f) = fs_durable (settle_file torn f)" by (rule settled(2))
  have keep: "min b a + keep \<le> a" by (auto simp: keep_def split: torn_tail.splits)
  have "\<exists>k. fs_live (settle_file torn f) = take k new \<and> min a b \<le> k"
  proof (cases "a \<le> b")
    case True
    with keep have "min b a + keep = a" by simp
    then have "fs_live (settle_file torn f) = take b new"
      using True le settled(1) by (simp add: min_def) (metis append_take_drop_id min.absorb_iff1 take_take)
    with True show ?thesis by (auto simp: min_def)
  next
    case False
    then have "fs_live (settle_file torn f) = take (b + keep) new"
      using keep le settled(1) by (simp add: min_def)
    with False show ?thesis by auto
  qed
  then obtain k where k: "fs_live (settle_file torn f) = take k new" "min a b \<le> k" by blast
  show "prefix (fs_live (settle_file torn f)) new" by (simp add: k(1) take_is_prefix)
  have "prefix old new" using assms(1,2) by (rule prefix_order.trans)
  have "length old \<le> min a b"
    using prefix_length_le [OF assms(1)] prefix_length_le [OF assms(3)]
    by (simp add: a_def b_def)
  then have "length old \<le> length (take k new)"
    using k(2) prefix_length_le [OF \<open>prefix old new\<close>] by (simp add: min_def split: if_splits)
  then show "prefix old (fs_live (settle_file torn f))"
    unfolding k(1) by (rule prefix_length_prefix [OF \<open>prefix old new\<close> take_is_prefix])
qed

lemma map_of_settled:
  "bt_wf m \<Longrightarrow>
   map_of (map (\<lambda>(p, f). (p, g f)) (filter (\<lambda>(p, f). keep f) m)) q =
   (case map_of m q of Some f \<Rightarrow> if keep f then Some (g f) else None | None \<Rightarrow> None)"
proof (induction m)
  case (Cons e m)
  obtain p f where e: "e = (p, f)" by force
  have wf: "bt_wf m" and fresh: "p \<notin> fst ` set m"
    using Cons.prems by (auto simp: e bt_wf_Cons)
  show ?case
  proof (cases "p = q")
    case True
    then have none: "map_of m q = None" using fresh by (simp add: map_of_eq_None_iff)
    with Cons.IH [OF wf] True show ?thesis by (auto simp: e)
  next
    case False
    with Cons.IH [OF wf] show ?thesis by (auto simp: e)
  qed
qed simp

lemma bt_get_cut:
  "ff_wf st \<Longrightarrow> bt_get (ff_files (cut st)) q =
     (case bt_get (ff_files st) q of
        Some f \<Rightarrow> if fs_durable_entry f then Some (settle_file (plan_torn_tail (ff_plan st)) f) else None
      | None \<Rightarrow> None)"
  by (simp add: cut_def ff_wf_def bt_get_def map_of_settled)

lemma sorted_wrt_filter_fst: "sorted_wrt (<) (map fst m) \<Longrightarrow> sorted_wrt (<) (map fst (filter P m))"
  by (induction m) auto

lemma cut_wf: "ff_wf st \<Longrightarrow> ff_wf (cut st)"
  by (simp add: cut_def ff_wf_def bt_wf_def comp_def case_prod_beta sorted_wrt_filter_fst)

interpretation ffv: disk_view ff_live ff_durable ff_entered .

lemmas ff_views = ff_live_def ff_durable_def ff_entered_def

lemma view_survives:
  assumes "ff_wf st" "ff_files st' = ff_files (cut st)"
  shows "ffv.survives st st' q"
proof -
  have get: "bt_get (ff_files st') q = (case bt_get (ff_files st) q of
        Some f \<Rightarrow> if fs_durable_entry f then Some (settle_file (plan_torn_tail (ff_plan st)) f) else None
      | None \<Rightarrow> None)"
    using bt_get_cut [OF assms(1)] by (simp add: assms(2))
  show ?thesis
  proof (cases "bt_get (ff_files st) q")
    case None
    then show ?thesis by (simp add: ffv.survives_def ffv.lies_def ff_views get)
  next
    case (Some f)
    have kept: "fs_durable_entry (settle_file torn f) = fs_durable_entry f" for torn
      by (simp add: settle_file_def Let_def)
    show ?thesis
      using settle_file_between [where f = f and torn = "plan_torn_tail (ff_plan st)"]
      by (auto simp: ffv.survives_def ffv.lies_def ff_views get Some kept)
  qed
qed

lemma charge_cases:
  obtains (ok) st' where "charge op st = (Inr (), st')" "ff_files st' = ff_files st"
  | (err) e st' st0 where "charge op st = (Inl e, st')" "ff_files st' = ff_files (cut st0)" "ff_files st0 = ff_files st"
    "plan_torn_tail (ff_plan st0) = plan_torn_tail (ff_plan st)"
proof (cases "fst (charge op st)")
  case (Inl e)
  then show ?thesis
    using err [of e "snd (charge op st)"
        "st\<lparr>ff_op := sat_add u64_max (ff_op st) 1, ff_plan := (ff_plan st)\<lparr>cut_at_op := None\<rparr>\<rparr>"]
    by (auto simp: charge_def Let_def split: if_splits)
next
  case (Inr x)
  then show ?thesis
    using ok [of "snd (charge op st)"] by (auto simp: charge_def Let_def split: if_splits)
qed

lemma charge_write_cases:
  obtains (ok) st' where "charge_write bs op st = (Inr (), st')" "ff_files st' = ff_files st"
  | (err) e st' st0 where "charge_write bs op st = (Inl e, st')" "ff_files st' = ff_files (cut st0)"
    "ff_files st0 = ff_files st" "plan_torn_tail (ff_plan st0) = plan_torn_tail (ff_plan st)"
proof (cases "\<exists>needle. cut_on_write (ff_plan st) = Some needle \<and> contains_str needle bs")
  case True
  then show ?thesis
    using err [of "case fst (charge_write bs op st) of Inl e \<Rightarrow> e" "snd (charge_write bs op st)"
        "st\<lparr>ff_plan := (ff_plan st)\<lparr>cut_on_write := None\<rparr>, ff_op := sat_add u64_max (ff_op st) 1\<rparr>"]
    by (auto simp: charge_write_def Let_def)
next
  case False
  then have "charge_write bs op st = charge op st"
    by (auto simp: charge_write_def split: option.splits)
  then show ?thesis
    using ok err by (cases rule: charge_cases [of op st]) auto
qed

text \<open>What a step that loses power leaves, and what one that succeeds leaves.\<close>

lemma cut_step:
  assumes "ff_wf st" "ff_files st' = ff_files (cut st0)" "ff_files st0 = ff_files st"
  shows "ffv.survives st st' q" "ff_wf st'"
proof -
  have wf: "ff_wf st0" using assms(1,3) by (simp add: ff_wf_def)
  have "ffv.survives st0 st' q" by (rule view_survives [OF wf assms(2)])
  moreover have "ffv.unchanged st st0 q" by (simp add: ffv.unchanged_def ff_views assms(3))
  ultimately show "ffv.survives st st' q" by (metis ffv.unchanged_survives ffv.survives_trans)
  show "ff_wf st'" using cut_wf [OF wf] assms(2) by (simp add: ff_wf_def)
qed

lemma charge_ok: "charge op st = (Inr x, st') \<Longrightarrow> ff_files st' = ff_files st"
  by (cases rule: charge_cases [of op st]) auto

lemma charge_err:
  assumes "ff_wf st" "charge op st = (Inl e, st')"
  shows "ffv.survives st st' q" "ff_wf st'"
  using assms cut_step [OF assms(1)] by (cases rule: charge_cases [of op st]; simp)+

lemma charge_write_ok: "charge_write bs op st = (Inr x, st') \<Longrightarrow> ff_files st' = ff_files st"
  by (cases rule: charge_write_cases [of bs op st]) auto

lemma charge_write_err:
  assumes "ff_wf st" "charge_write bs op st = (Inl e, st')"
  shows "ffv.survives st st' q" "ff_wf st'"
  using assms cut_step [OF assms(1)] by (cases rule: charge_write_cases [of bs op st]; simp)+

lemma charge_wf: "ff_wf st \<Longrightarrow> charge op st = (r, st') \<Longrightarrow> ff_wf st'"
  by (cases r) (blast intro: charge_err(2), metis charge_ok ff_wf_def)

lemma charge_write_wf: "ff_wf st \<Longrightarrow> charge_write bs op st = (r, st') \<Longrightarrow> ff_wf st'"
  by (cases r) (blast intro: charge_write_err(2), metis charge_write_ok ff_wf_def)

lemma put_file_views:
  "ff_live (put_file p f st) q = (if q = p then Some (fs_live f) else ff_live st q)"
  "ff_durable (put_file p f st) q = (if q = p then Some (fs_durable f) else ff_durable st q)"
  "ff_entered (put_file p f st) q = (if q = p then fs_durable_entry f else ff_entered st q)"
  by (simp_all add: ff_views put_file_def map_simps)

lemma put_file_wf: "ff_wf st \<Longrightarrow> ff_wf (put_file p f st)"
  by (simp add: ff_wf_def put_file_def bt_wf_insert)

lemma same_files_views:
  assumes "ff_files st' = ff_files st"
  shows "ff_live st' = ff_live st" "ff_durable st' = ff_durable st" "ff_entered st' = ff_entered st"
  by (simp_all add: fun_eq_iff ff_views assms)

lemma ff_append_ok:
  assumes "ff_append p bs st = (Inr x, st')"
  shows "ff_live st' p = Some ((case ff_live st p of None \<Rightarrow> [] | Some l \<Rightarrow> l) @ bs) \<and>
    ff_durable st' p = Some (case ff_durable st p of None \<Rightarrow> [] | Some s \<Rightarrow> s) \<and>
    ff_entered st' p = ff_entered st p \<and> (\<forall>q. q \<noteq> p \<longrightarrow> ffv.unchanged st st' q)"
proof -
  define f where "f = file_or_new p st"
  have same: "ff_files st' = ff_files (put_file p (f\<lparr>fs_live := fs_live f @ bs\<rparr>) st)"
    using assms charge_write_ok by (simp add: ff_append_def Let_def f_def)
  show ?thesis
    unfolding ffv.unchanged_def same_files_views [OF same] put_file_views
    by (auto simp: ff_views f_def file_or_new_def new_file_def split: option.splits)
qed

lemma ff_append_err:
  assumes "ff_wf st" "ff_append p bs st = (Inl e, st')"
  shows "(\<forall>q. q \<noteq> p \<longrightarrow> ffv.survives st st' q) \<and> (ff_entered st' p \<longrightarrow> ff_entered st p) \<and>
    (\<forall>old l. ffv.lies st p old l \<and> ff_live st p = Some l \<longrightarrow> ffv.lies st' p old (l @ bs))"
proof -
  define f where "f = file_or_new p st"
  define st1 where "st1 = put_file p (f\<lparr>fs_live := fs_live f @ bs\<rparr>) st"
  have "ff_wf st1" by (simp add: st1_def put_file_wf assms(1))
  then have sur: "ffv.survives st1 st' q" for q
    using assms(2) charge_write_err(1) by (fastforce simp: ff_append_def Let_def f_def st1_def)
  have "ffv.survives st st' q" if "q \<noteq> p" for q
  proof -
    have "ffv.unchanged st st1 q" using that by (simp add: ffv.unchanged_def st1_def put_file_views)
    then show ?thesis using sur ffv.unchanged_survives ffv.survives_trans by blast
  qed
  moreover have "ff_entered st1 p = ff_entered st p"
    by (simp add: st1_def put_file_views) (simp add: ff_entered_def f_def file_or_new_def new_file_def split: option.splits)
  then have "ff_entered st' p \<longrightarrow> ff_entered st p" using sur [of p] by (simp add: ffv.survives_def)
  moreover have "ffv.lies st' p old (l @ bs)" if between: "ffv.lies st p old l" and l: "ff_live st p = Some l" for old l
  proof (rule ffv.lies_survives [OF sur])
    obtain s where s: "ff_durable st p = Some s" "prefix old l" "prefix old s" "prefix s l" "ff_entered st p"
      using between l by (auto simp: ffv.lies_def)
    have "fs_live f = l" "fs_durable f = s"
      using l s(1) by (auto simp: ff_views f_def file_or_new_def)
    then have "ff_live st1 p = Some (l @ bs)" "ff_durable st1 p = Some s"
      by (simp_all add: st1_def put_file_views)
    then show "ffv.lies st1 p old (l @ bs)"
      using s \<open>ff_entered st1 p = ff_entered st p\<close> by (auto simp: ffv.lies_def prefix_prefix)
  qed
  ultimately show ?thesis by blast
qed

lemma ff_truncate_ok:
  assumes "ff_truncate p n st = (Inr x, st')"
  shows "ff_live st p \<noteq> None \<and> ff_live st' p = map_option (resize n) (ff_live st p) \<and>
    ff_durable st' p = ff_durable st p \<and> ff_entered st' p = ff_entered st p \<and>
    (\<forall>q. q \<noteq> p \<longrightarrow> ffv.unchanged st st' q)"
proof (cases "bt_get (ff_files st) p")
  case None
  with assms show ?thesis by (simp add: ff_truncate_def)
next
  case (Some f)
  then have same: "ff_files st' = ff_files (put_file p (f\<lparr>fs_live := resize n (fs_live f)\<rparr>) st)"
    using assms charge_ok by (simp add: ff_truncate_def)
  show ?thesis
    unfolding ffv.unchanged_def same_files_views [OF same] put_file_views
    by (simp add: ff_views Some)
qed

lemma ff_truncate_err:
  assumes "ff_wf st" "ff_truncate p n st = (Inl e, st')"
  shows "(\<forall>q. q \<noteq> p \<longrightarrow> ffv.survives st st' q) \<and> (ff_entered st' p \<longrightarrow> ff_entered st p) \<and>
    (\<forall>old new l. ffv.lies st p old new \<and> ff_live st p = Some l \<and> length old \<le> n \<and> n \<le> length l \<longrightarrow>
       ffv.lies st' p old new)"
proof (cases "bt_get (ff_files st) p")
  case None
  with assms(2) show ?thesis by (simp add: ff_truncate_def ffv.survives_refl)
next
  case (Some f)
  define st1 where "st1 = put_file p (f\<lparr>fs_live := resize n (fs_live f)\<rparr>) st"
  have "ff_wf st1" by (simp add: st1_def put_file_wf assms(1))
  then have sur: "ffv.survives st1 st' q" for q
    using assms(2) charge_err(1) [of st1] by (simp add: ff_truncate_def Some st1_def)
  have "ffv.survives st st' q" if "q \<noteq> p" for q
  proof -
    have "ffv.unchanged st st1 q" using that by (simp add: ffv.unchanged_def st1_def put_file_views)
    then show ?thesis using sur ffv.unchanged_survives ffv.survives_trans by blast
  qed
  moreover have entry: "ff_entered st1 p = ff_entered st p"
    by (simp add: st1_def put_file_views) (simp add: ff_entered_def Some)
  then have "ff_entered st' p \<longrightarrow> ff_entered st p" using sur [of p] by (simp add: ffv.survives_def)
  moreover have "ffv.lies st' p old new"
    if between: "ffv.lies st p old new" and l: "ff_live st p = Some l" and n: "length old \<le> n" "n \<le> length l"
    for old new l
  proof (rule ffv.lies_survives [OF sur])
    obtain s where s: "ff_durable st p = Some s" "prefix old l" "prefix l new" "prefix old s" "prefix s new" "ff_entered st p"
      using between l by (auto simp: ffv.lies_def)
    have now: "ff_live st1 p = Some (take n l)" "ff_durable st1 p = Some s"
      using l s(1) n(2) unfolding st1_def put_file_views by (auto simp: ff_views Some resize_def)
    have "prefix old (take n l)"
      using prefix_length_prefix [OF s(2) take_is_prefix [of n l]] n by simp
    then show "ffv.lies st1 p old new"
      using s now entry prefix_order.trans [OF take_is_prefix [of n l]] by (auto simp: ffv.lies_def)
  qed
  ultimately show ?thesis by blast
qed

lemma ff_sync_data_ok:
  assumes "ff_sync_data p st = (Inr x, st')"
  shows "ff_live st p \<noteq> None \<and> ff_live st' p = ff_live st p \<and> ff_durable st' p = ff_live st p \<and>
    ff_entered st' p = ff_entered st p \<and> (\<forall>q. q \<noteq> p \<longrightarrow> ffv.unchanged st st' q)"
proof (cases rule: charge_cases [of "lit ''sync_data''" st])
  case (ok st1)
  then obtain f where f: "bt_get (ff_files st) p = Some f"
    and st': "st' = put_file p (f\<lparr>fs_durable := fs_live f\<rparr>) st1"
    using assms by (auto simp: ff_sync_data_def split: option.splits)
  show ?thesis
    unfolding st' ffv.unchanged_def put_file_views same_files_views [OF ok(2)] by (simp add: ff_views f)
next
  case (err e st1 st0)
  with assms show ?thesis by (simp add: ff_sync_data_def)
qed

lemma ff_sync_data_err:
  assumes "ff_wf st" "ff_sync_data p st = (Inl e, st')"
  shows "ffv.survives st st' q"
proof (cases rule: charge_cases [of "lit ''sync_data''" st])
  case (ok st1)
  then have same: "ff_files st' = ff_files st"
    using assms by (auto simp: ff_sync_data_def split: option.splits)
  show ?thesis
    by (rule ffv.unchanged_survives) (simp add: ffv.unchanged_def same_files_views [OF same])
next
  case (err e' st1 st0)
  then have "st' = st1" using assms(2) by (simp add: ff_sync_data_def)
  with charge_err(1) [OF assms(1) err(1)] show ?thesis by simp
qed

lemma bt_get_entered:
  "bt_get (map (\<lambda>(p, f). (p, g p f)) m) q = map_option (g q) (bt_get m q)"
  by (induction m) (auto simp: bt_get_def)

lemma ff_sync_dir_ok:
  assumes "ff_sync_dir dir st = (Inr x, st')"
  shows "ff_live st' q = ff_live st q \<and> ff_durable st' q = ff_durable st q \<and>
    ff_entered st' q = (ff_entered st q \<or> parent_is q dir \<and> ff_live st q \<noteq> None)"
proof (cases rule: charge_cases [of "lit ''sync_dir''" st])
  case (ok st1)
  then have "ff_files st' =
      map (\<lambda>(p, f). (p, if parent_is p dir then f\<lparr>fs_durable_entry := True\<rparr> else f)) (ff_files st)"
    using assms by (auto simp: ff_sync_dir_def)
  then show ?thesis
    by (simp add: ff_views bt_get_entered split: option.splits)
next
  case (err e st1 st0)
  with assms show ?thesis by (simp add: ff_sync_dir_def)
qed

lemma ff_sync_dir_err:
  assumes "ff_wf st" "ff_sync_dir dir st = (Inl e, st')"
  shows "ffv.survives st st' q"
proof (cases rule: charge_cases [of "lit ''sync_dir''" st])
  case (ok st1)
  with assms show ?thesis by (simp add: ff_sync_dir_def)
next
  case (err e' st1 st0)
  then have "st' = st1" using assms(2) by (simp add: ff_sync_dir_def)
  with charge_err(1) [OF assms(1) err(1)] show ?thesis by simp
qed

lemma ff_remove_ok:
  assumes "ff_remove_file p st = (Inr x, st')"
  shows "ff_live st' p = None \<and> \<not> ff_entered st' p \<and> (\<forall>q. q \<noteq> p \<longrightarrow> ffv.unchanged st st' q)"
proof -
  have "ff_files st' = bt_remove p (ff_files st)"
    using assms charge_ok by (fastforce simp: ff_remove_file_def split: if_splits)
  then show ?thesis by (simp add: ffv.unchanged_def ff_views map_simps)
qed

lemma ff_remove_err:
  assumes "ff_wf st" "ff_remove_file p st = (Inl e, st')"
  shows "(\<forall>q. q \<noteq> p \<longrightarrow> ffv.survives st st' q) \<and> (ff_entered st' p \<longrightarrow> ff_entered st p)"
proof (cases "ff_exists p st")
  case True
  define st1 where "st1 = st\<lparr>ff_files := bt_remove p (ff_files st)\<rparr>"
  have "ff_wf st1" using assms(1) by (simp add: st1_def ff_wf_def bt_wf_remove)
  then have sur: "ffv.survives st1 st' q" for q
    using assms(2) charge_err(1) [of st1] True by (simp add: ff_remove_file_def st1_def)
  have "\<not> ff_entered st1 p" by (simp add: st1_def ff_views map_simps)
  then have "\<not> ff_entered st' p" using sur [of p] by (auto simp: ffv.survives_def)
  moreover have "ffv.survives st st' q" if "q \<noteq> p" for q
  proof -
    have "ffv.unchanged st st1 q" using that by (simp add: ffv.unchanged_def st1_def ff_views map_simps)
    then show ?thesis using sur ffv.unchanged_survives ffv.survives_trans by blast
  qed
  ultimately show ?thesis by blast
next
  case False
  with assms(2) show ?thesis by (simp add: ff_remove_file_def ffv.survives_refl)
qed

lemma ff_wf_steps:
  assumes "ff_wf st"
  shows "ff_append p bs st = (r, st') \<Longrightarrow> ff_wf st'"
    and "ff_truncate p n st = (r, st') \<Longrightarrow> ff_wf st'"
    and "ff_sync_data p st = (r, st') \<Longrightarrow> ff_wf st'"
    and "ff_sync_dir p st = (r, st') \<Longrightarrow> ff_wf st'"
    and "ff_remove_file p st = (r, st') \<Longrightarrow> ff_wf st'"
proof -
  show "ff_append p bs st = (r, st') \<Longrightarrow> ff_wf st'"
    using charge_write_wf put_file_wf [OF assms] unfolding ff_append_def Let_def by blast
  show "ff_truncate p n st = (r, st') \<Longrightarrow> ff_wf st'"
    using assms by (cases "bt_get (ff_files st) p")
      (auto simp: ff_truncate_def elim!: charge_wf [OF put_file_wf])
  obtain r1 st1 where c: "charge (lit ''sync_data'') st = (r1, st1)" by fastforce
  have "ff_wf st1" by (rule charge_wf [OF assms c])
  then show "ff_sync_data p st = (r, st') \<Longrightarrow> ff_wf st'"
    by (auto simp: ff_sync_data_def c put_file_wf split: sum.splits option.splits)
  obtain r2 st2 where c: "charge (lit ''sync_dir'') st = (r2, st2)" by fastforce
  have "ff_wf st2" by (rule charge_wf [OF assms c])
  then show "ff_sync_dir p st = (r, st') \<Longrightarrow> ff_wf st'"
    by (auto simp: ff_sync_dir_def c ff_wf_def bt_wf_def comp_def case_prod_beta split: sum.splits)
  have wf: "ff_wf (st\<lparr>ff_files := bt_remove p (ff_files st)\<rparr>)"
    using assms by (simp add: ff_wf_def bt_wf_remove)
  show "ff_remove_file p st = (r, st') \<Longrightarrow> ff_wf st'"
    using assms by (auto simp: ff_remove_file_def elim!: charge_wf [OF wf] split: if_splits)
qed

lemma fault_fs_sel [simp]:
  "vfs_exists fault_fs = ff_exists" "vfs_append fault_fs = ff_append" "vfs_truncate fault_fs = ff_truncate"
  "vfs_sync_data fault_fs = ff_sync_data" "vfs_sync_dir fault_fs = ff_sync_dir"
  "vfs_remove_file fault_fs = ff_remove_file" "vfs_list fault_fs = ff_list" "vfs_read_at fault_fs = ff_read_at"
  "vfs_size fault_fs = ff_size" "vfs_create_dir_all fault_fs = ff_create_dir_all" "vfs_read fault_fs = ff_read"
  by (simp_all add: fault_fs_def)

interpretation ff: durable_disk ff_live ff_durable ff_entered fault_fs ff_wf
proof (unfold_locales, unfold fault_fs_sel)
  show "ff_live d q \<noteq> None" if "ff_entered d q" for d q
    using that by (simp add: ff_views split: option.splits)
  show "ff_exists p d \<longleftrightarrow> ff_live d p \<noteq> None" for p d
    by (simp add: ff_exists_def ff_live_def)
qed ((rule ff_append_ok ff_append_err ff_truncate_ok ff_truncate_err ff_sync_data_ok ff_sync_data_err
    ff_sync_dir_ok ff_sync_dir_err ff_remove_ok ff_remove_err ff_wf_steps, assumption+)+)

end
