(* ===== verification/LedgerWaves.thy ===== *)
theory LedgerWaves
  imports LedgerChains DiskLaws
begin

text \<open>
  A wave on any disk of the seam, whatever fails: the segments written before it are kept, what it
  leaves behind extends only the last of them, and a restore brings the disk back to what it was.
\<close>

section \<open>Layouts\<close>

definition in_dir :: "path \<Rightarrow> path \<Rightarrow> bool" where
  "in_dir dir q \<longleftrightarrow> parent_is q dir \<and> is_segment q"

lemma in_dir_seg [simp]: "in_dir dir (seg dir s)"
  by (auto simp: in_dir_def parent_is_def is_segment_def segment_file_name_def starts_with_iff ends_with_iff)

lemma seg_inject [simp]: "seg dir s = seg dir t \<longleftrightarrow> s = t"
  by simp

lemma seg_image [simp]: "seg dir s \<in> (\<lambda>x. seg dir (fst x)) ` A \<longleftrightarrow> s \<in> fst ` A"
  by (simp add: image_iff)

text \<open>The bytes a wave \<open>ws\<close> puts behind segment \<open>s\<close>, and the layout it leaves.\<close>

definition grow :: "(nat \<times> bytes) list \<Rightarrow> nat \<Rightarrow> bytes" where
  "grow ws s = (case map_of ws s of None \<Rightarrow> [] | Some b \<Rightarrow> b)"

lemma grow_mem: "distinct (map fst ws) \<Longrightarrow> x \<in> set ws \<Longrightarrow> grow ws (fst x) = snd x"
  unfolding grow_def by (metis map_of_is_SomeI option.simps(5) prod.collapse)

lemma grow_none: "s \<notin> fst ` set ws \<Longrightarrow> grow ws s = []"
  by (simp add: grow_def map_of_eq_None_iff [THEN iffD2])

definition fresh_in :: "(nat \<times> bytes) list \<Rightarrow> (nat \<times> bytes) list \<Rightarrow> (nat \<times> bytes) list" where
  "fresh_in segs ws = filter (\<lambda>x. fst x \<notin> fst ` set segs) ws"

definition grown :: "(nat \<times> bytes) list \<Rightarrow> (nat \<times> bytes) list \<Rightarrow> (nat \<times> bytes) list" where
  "grown segs ws = map (\<lambda>x. (fst x, snd x @ grow ws (fst x))) segs @ fresh_in segs ws"

lemma fst_fresh: "fst ` set (fresh_in segs ws) = fst ` set ws - fst ` set segs"
  by (auto simp: fresh_in_def)

lemma fst_grown: "fst ` set (grown segs ws) = fst ` set segs \<union> fst ` set ws"
  by (simp add: grown_def image_Un image_image fst_fresh)

context disk_view
begin

definition laid :: "'d \<Rightarrow> path \<Rightarrow> (nat \<times> bytes) list \<Rightarrow> bool" where
  "laid d dir segs \<longleftrightarrow> (\<forall>x \<in> set segs. rests d (seg dir (fst x)) (snd x)) \<and>
     (\<forall>q. in_dir dir q \<and> live d q \<noteq> None \<longrightarrow> q \<in> (\<lambda>x. seg dir (fst x)) ` set segs)"

definition midwave :: "'d \<Rightarrow> path \<Rightarrow> (nat \<times> bytes) list \<Rightarrow> (nat \<times> bytes) list \<Rightarrow> bool" where
  "midwave d dir segs ws \<longleftrightarrow>
     (\<forall>x \<in> set segs. lies d (seg dir (fst x)) (snd x) (snd x @ grow ws (fst x))) \<and>
     (\<forall>q. in_dir dir q \<and> live d q \<noteq> None \<longrightarrow> q \<in> (\<lambda>x. seg dir (fst x)) ` (set segs \<union> set ws)) \<and>
     (\<forall>x \<in> set (fresh_in segs ws). \<not> entered d (seg dir (fst x)))"

lemma laid_midwave:
  assumes "laid d dir segs" "\<And>x. x \<in> set (fresh_in segs ws) \<Longrightarrow> \<not> entered d (seg dir (fst x))"
  shows "midwave d dir segs ws"
proof -
  have "lies d (seg dir (fst x)) (snd x) (snd x @ grow ws (fst x))" if "x \<in> set segs" for x
    using assms(1) that lies_wider [of d _ "snd x" "snd x" "snd x" "snd x @ grow ws (fst x)"]
    by (auto simp: laid_def rests_def)
  then show ?thesis using assms by (auto simp: midwave_def laid_def)
qed

text \<open>Anything that happens outside the segments of the layout keeps it, and so does a failure that
  every segment survives.\<close>

lemma midwave_survives:
  assumes mid: "midwave d dir segs ws"
    and sur: "\<And>q. q \<notin> (\<lambda>x. seg dir (fst x)) ` set (fresh_in segs ws) \<Longrightarrow> survives d d' q"
    and new: "\<And>x. x \<in> set (fresh_in segs ws) \<Longrightarrow> entered d' (seg dir (fst x)) \<Longrightarrow> entered d (seg dir (fst x))"
  shows "midwave d' dir segs ws"
proof -
  have own: "seg dir (fst x) \<notin> (\<lambda>x. seg dir (fst x)) ` set (fresh_in segs ws)" if "x \<in> set segs" for x
    using that by (auto simp: fresh_in_def)
  have "lies d' (seg dir (fst x)) (snd x) (snd x @ grow ws (fst x))" if "x \<in> set segs" for x
  proof (rule lies_survives [OF sur [OF own [OF that]]])
    show "lies d (seg dir (fst x)) (snd x) (snd x @ grow ws (fst x))"
      using mid that unfolding midwave_def by blast
  qed
  moreover have "q \<in> (\<lambda>x. seg dir (fst x)) ` (set segs \<union> set ws)" if "in_dir dir q" "live d' q \<noteq> None" for q
  proof (cases "q \<in> (\<lambda>x. seg dir (fst x)) ` set (fresh_in segs ws)")
    case True
    then show ?thesis by (auto simp: fresh_in_def)
  next
    case False
    then have "live d q \<noteq> None" using absent_survives [OF sur [OF False]] that(2) by auto
    with mid that(1) show ?thesis unfolding midwave_def by blast
  qed
  ultimately show ?thesis using mid new by (auto simp: midwave_def)
qed

end

context durable_disk
begin

definition base :: "(nat \<times> bytes) list \<Rightarrow> nat \<Rightarrow> bytes" where
  "base segs s = (case map_of segs s of None \<Rightarrow> [] | Some b \<Rightarrow> b)"

text \<open>A segment of the wave before its write and after it.\<close>

definition unwritten :: "'d \<Rightarrow> path \<Rightarrow> (nat \<times> bytes) list \<Rightarrow> nat \<times> bytes \<Rightarrow> bool" where
  "unwritten d dir segs x \<longleftrightarrow>
     (case map_of segs (fst x) of None \<Rightarrow> live d (seg dir (fst x)) = None | Some b \<Rightarrow> rests d (seg dir (fst x)) b)"

definition written :: "'d \<Rightarrow> path \<Rightarrow> (nat \<times> bytes) list \<Rightarrow> nat \<times> bytes \<Rightarrow> bool" where
  "written d dir segs x \<longleftrightarrow> live d (seg dir (fst x)) = Some (base segs (fst x) @ snd x)"

definition untouched :: "'d \<Rightarrow> path \<Rightarrow> (nat \<times> bytes) list \<Rightarrow> (nat \<times> bytes) list \<Rightarrow> bool" where
  "untouched d dir segs ws \<longleftrightarrow>
     (\<forall>x \<in> set segs. fst x \<notin> fst ` set ws \<longrightarrow> rests d (seg dir (fst x)) (snd x))"

lemma rests_unchanged: "unchanged d d' q \<Longrightarrow> rests d q bs \<Longrightarrow> rests d' q bs"
  by (simp add: rests_iff unchanged_def)

lemma append_any:
  assumes wf: "wf d" and step: "vfs_append fs p bs d = (r, d')"
  shows "q \<noteq> p \<Longrightarrow> survives d d' q"
    and "entered d' p \<Longrightarrow> entered d p"
    and "rests d p b \<Longrightarrow> lies d' p b (b @ bs)"
proof -
  have "(\<forall>q. q \<noteq> p \<longrightarrow> survives d d' q) \<and> (entered d' p \<longrightarrow> entered d p) \<and> (rests d p b \<longrightarrow> lies d' p b (b @ bs))"
  proof (cases r)
    case (Inl e)
    have "rests d p b \<Longrightarrow> lies d p b b \<and> live d p = Some b"
      using rests_iff by (simp add: rests_def)
    then show ?thesis using append_err [OF wf step [unfolded Inl]] by blast
  next
    case (Inr u)
    show ?thesis
      using append_ok [OF wf step [unfolded Inr]] unchanged_survives by (auto simp: rests_iff lies_def)
  qed
  then show "q \<noteq> p \<Longrightarrow> survives d d' q" "entered d' p \<Longrightarrow> entered d p"
    "rests d p b \<Longrightarrow> lies d' p b (b @ bs)" by simp_all
qed

lemma append_step:
  assumes wf: "wf d" and mid: "midwave d dir segs ws" and x: "x \<in> set ws" "unwritten d dir segs x"
    and ws: "distinct (map fst ws)" and segs: "distinct (map fst segs)"
    and step: "vfs_append fs (seg dir (fst x)) (snd x) d = (r, d')"
  shows "wf d' \<and> midwave d' dir segs ws"
proof
  show "wf d'" by (rule append_wf [OF wf step])
  let ?p = "seg dir (fst x)"
  note sur = append_any(1) [OF wf step] and ent = append_any(2) [OF wf step]
    and low = append_any(3) [OF wf step]
  show "midwave d' dir segs ws"
  proof (cases "map_of segs (fst x)")
    case None
    then have new: "x \<in> set (fresh_in segs ws)"
      using x(1) by (simp add: fresh_in_def map_of_eq_None_iff)
    show ?thesis
    proof (rule midwave_survives [OF mid])
      show "survives d d' q" if "q \<notin> (\<lambda>x. seg dir (fst x)) ` set (fresh_in segs ws)" for q
        using that new by (blast intro: sur)
      show "entered d (seg dir (fst y))" if "y \<in> set (fresh_in segs ws)" "entered d' (seg dir (fst y))" for y
        using that ent sur [of "seg dir (fst y)"] by (cases "fst y = fst x") (auto simp: survives_def)
    qed
  next
    case (Some b)
    then have rests: "rests d ?p b" using x(2) by (simp add: unwritten_def)
    have grows: "grow ws (fst x) = snd x"
      by (rule grow_mem [OF ws x(1)])
    have here: "lies d' ?p b (b @ grow ws (fst x))"
      using low [OF rests] by (simp add: grows)
    have "lies d' (seg dir (fst y)) (snd y) (snd y @ grow ws (fst y))" if "y \<in> set segs" for y
    proof (cases "fst y = fst x")
      case True
      then have "snd y = b" using Some segs that by (metis map_of_eq_Some_iff option.inject prod.collapse)
      with here True show ?thesis by simp
    next
      case False
      then have "survives d d' (seg dir (fst y))" using sur by simp
      then show ?thesis using mid that unfolding midwave_def survives_def by blast
    qed
    moreover have "q \<in> (\<lambda>x. seg dir (fst x)) ` (set segs \<union> set ws)" if "in_dir dir q" "live d' q \<noteq> None" for q
    proof (cases "q = ?p")
      case True
      then show ?thesis using x(1) by auto
    next
      case False
      then have "live d q \<noteq> None" using absent_survives [OF sur [OF False]] that(2) by auto
      with mid that(1) show ?thesis unfolding midwave_def by blast
    qed
    moreover have "\<not> entered d' (seg dir (fst y))" if "y \<in> set (fresh_in segs ws)" for y
    proof -
      have "fst y \<noteq> fst x" using that Some by (auto simp: fresh_in_def simp flip: map_of_eq_None_iff)
      then show ?thesis using sur [of "seg dir (fst y)"] mid that unfolding midwave_def survives_def by auto
    qed
    ultimately show ?thesis unfolding midwave_def by blast
  qed
qed

lemma step_then_Pair [simp]:
  "step_then (Inl e, s) f = (Inl e, s)" "step_then (Inr x, s) f = f x s"
  by (simp_all add: step_then_def)

lemma at_op_cases:
  "at_op op p m = (Inl e, d) \<longleftrightarrow> (\<exists>e'. m = (Inl e', d) \<and> e = io_err op p e')"
  "at_op op p m = (Inr x, d) \<longleftrightarrow> m = (Inr x, d)"
  by (cases m; cases "fst m"; auto simp: at_op_def)+

lemma step_then_eq:
  "step_then m f = (r, s') \<longleftrightarrow>
     (\<exists>e. m = (Inl e, s') \<and> r = Inl e) \<or> (\<exists>x s. m = (Inr x, s) \<and> f x s = (r, s'))"
  by (cases m; cases "fst m") (auto simp: step_then_def)

lemma land_write_Grow:
  "land_write fs Grow roll created (write_of a x) d =
     at_op (lit ''append event line'') (seg (ws_dir a) (fst x)) (vfs_append fs (seg (ws_dir a) (fst x)) (snd x) d)"
  by (simp add: land_write_def write_of_def step_then_def split: prod.splits sum.splits)

text \<open>The writes of a wave: whatever happens the segments hold; when all of them succeed every one
  shows its bytes.\<close>

lemma land_writes:
  assumes "wf d" "midwave d dir segs ws" "untouched d dir segs ws"
    and "set now \<subseteq> set ws" "distinct (map fst (past @ now))" "set past \<subseteq> set ws"
    and "\<forall>x \<in> set now. unwritten d dir segs x" "\<forall>x \<in> set past. written d dir segs x"
    and "distinct (map fst ws)" "distinct (map fst segs)"
    and "each_step (land_write fs Grow roll created) (map (write_of a) now) d = (r, d')" "ws_dir a = dir"
  shows "wf d' \<and> midwave d' dir segs ws \<and>
    (\<forall>u. r = Inr u \<longrightarrow> untouched d' dir segs ws \<and> (\<forall>x \<in> set (past @ now). written d' dir segs x))"
  using assms
proof (induction now arbitrary: d past)
  case Nil
  then show ?case by simp
next
  case (Cons x now)
  obtain r1 d1 where app: "vfs_append fs (seg dir (fst x)) (snd x) d = (r1, d1)" by fastforce
  have keep: "wf d1 \<and> midwave d1 dir segs ws"
    using append_step [OF Cons.prems(1,2) _ _ Cons.prems(9,10) app] Cons.prems(4,7) by simp
  show ?case
  proof (cases r1)
    case (Inl e)
    then have "\<exists>e. r = Inl e" "d' = d1"
      using Cons.prems(11) by (auto simp: land_write_Grow app Cons.prems(12) at_op_def)
    with keep show ?thesis by auto
  next
    case (Inr u)
    note ok = append_ok [OF Cons.prems(1) app [unfolded Inr]]
    have rest: "each_step (land_write fs Grow roll created) (map (write_of a) now) d1 = (r, d')"
      using Cons.prems(11) by (simp add: land_write_Grow app Cons.prems(12) at_op_def Inr)
    have "fst x \<notin> fst ` set past" "fst x \<notin> fst ` set now" using Cons.prems(5) by auto
    then have fresh_x: "\<And>y. y \<in> set past \<Longrightarrow> fst y \<noteq> fst x" "\<And>y. y \<in> set now \<Longrightarrow> fst y \<noteq> fst x"
      by (metis imageI)+
    have other: "unchanged d d1 (seg dir (fst y))" if "fst y \<noteq> fst x" for y using ok that by simp
    have "untouched d1 dir segs ws"
      unfolding untouched_def
    proof (intro ballI impI)
      fix y assume y: "y \<in> set segs" "fst y \<notin> fst ` set ws"
      then have "fst y \<noteq> fst x" using Cons.prems(4) by auto
      moreover have "rests d (seg dir (fst y)) (snd y)" using y Cons.prems(3) by (simp add: untouched_def)
      ultimately show "rests d1 (seg dir (fst y)) (snd y)" using rests_unchanged [OF other] by blast
    qed
    moreover have "\<forall>y \<in> set now. unwritten d1 dir segs y"
    proof
      fix y assume y: "y \<in> set now"
      then have "fst y \<noteq> fst x" using fresh_x by blast
      then have "unchanged d d1 (seg dir (fst y))" by (rule other)
      moreover have "unwritten d dir segs y" using Cons.prems(7) y by simp
      ultimately show "unwritten d1 dir segs y"
        using rests_unchanged [of d d1 "seg dir (fst y)"] by (simp add: unwritten_def unchanged_def split: option.splits)
    qed
    moreover have "\<forall>y \<in> set (past @ [x]). written d1 dir segs y"
    proof
      fix y assume y: "y \<in> set (past @ [x])"
      show "written d1 dir segs y"
      proof (cases "fst y = fst x")
        case True
        then have "y = x" using y fresh_x(1) [of y] by auto
        moreover have "live d (seg dir (fst x)) = map_of segs (fst x)"
          using Cons.prems(7) by (auto simp: unwritten_def rests_iff split: option.splits)
        ultimately show ?thesis using ok by (simp add: written_def base_def)
      next
        case False
        with y have "y \<in> set past" by auto
        with other [OF False] Cons.prems(8) show ?thesis by (auto simp: written_def unchanged_def)
      qed
    qed
    ultimately show ?thesis
      using Cons.IH [of d1 "past @ [x]", OF _ _ _ _ _ _ _ _ Cons.prems(9,10) rest Cons.prems(12)]
        keep Cons.prems(4,5,6) by auto
  qed
qed

text \<open>A step every segment survives, or that changes nothing but what is durable.\<close>

lemma sync_data_any:
  assumes "wf d" "vfs_sync_data fs p d = (r, d')"
  shows "survives d d' q"
proof (cases r)
  case (Inl e)
  then show ?thesis using sync_data_err assms by blast
next
  case (Inr u)
  note ok = sync_data_ok [OF assms(1) assms(2) [unfolded Inr]]
  show ?thesis
  proof (cases "q = p")
    case True
    with ok show ?thesis by (auto simp: survives_def lies_def)
  next
    case False
    with ok show ?thesis using unchanged_survives by blast
  qed
qed

lemma sync_step:
  assumes "wf d" "midwave d dir segs ws" "vfs_sync_data fs p d = (r, d')"
  shows "wf d' \<and> midwave d' dir segs ws"
  using sync_data_wf [OF assms(1,3)] midwave_survives [OF assms(2)] sync_data_any [OF assms(1,3)]
  by (simp add: survives_def)

definition synced :: "'d \<Rightarrow> path \<Rightarrow> (nat \<times> bytes) list \<Rightarrow> nat \<times> bytes \<Rightarrow> bool" where
  "synced d dir segs x \<longleftrightarrow> written d dir segs x \<and> durable d (seg dir (fst x)) = live d (seg dir (fst x))"

lemma rests_survives: "survives d d' q \<Longrightarrow> rests d q bs \<Longrightarrow> rests d' q bs"
  by (simp add: rests_def lies_survives)

lemma sync_segment_write:
  "sync_segment fs (write_of a x) d =
     at_op (lit ''sync segment'') (seg (ws_dir a) (fst x)) (vfs_sync_data fs (seg (ws_dir a) (fst x)) d)"
  by (simp add: sync_segment_def write_of_def)

lemma land_syncs:
  assumes "wf d" "midwave d dir segs ws" "untouched d dir segs ws"
    and "\<forall>x \<in> set past. synced d dir segs x" "\<forall>x \<in> set now. written d dir segs x"
    and "each_step (sync_segment fs) (map (write_of a) now) d = (r, d')" "ws_dir a = dir"
  shows "wf d' \<and> midwave d' dir segs ws \<and>
    (\<forall>u. r = Inr u \<longrightarrow> untouched d' dir segs ws \<and> (\<forall>x \<in> set (past @ now). synced d' dir segs x))"
  using assms
proof (induction now arbitrary: d past)
  case Nil
  then show ?case by simp
next
  case (Cons x now)
  obtain r1 d1 where sync: "vfs_sync_data fs (seg dir (fst x)) d = (r1, d1)" by fastforce
  have keep: "wf d1 \<and> midwave d1 dir segs ws" by (rule sync_step [OF Cons.prems(1,2) sync])
  show ?case
  proof (cases r1)
    case (Inl e)
    then have "\<exists>e. r = Inl e" "d' = d1"
      using Cons.prems(6) by (auto simp: sync_segment_write sync Cons.prems(7) at_op_def)
    with keep show ?thesis by auto
  next
    case (Inr u)
    note ok = sync_data_ok [OF Cons.prems(1) sync [unfolded Inr]]
    have rest: "each_step (sync_segment fs) (map (write_of a) now) d1 = (r, d')"
      using Cons.prems(6)
      by (simp add: sync_segment_write sync Cons.prems(7) at_op_def Inr)
    have live_same: "live d1 q = live d q" for q
      using ok by (cases "q = seg dir (fst x)") (auto simp: unchanged_def)
    have durable_same: "durable d1 q = (if q = seg dir (fst x) then live d q else durable d q)" for q
      using ok by (auto simp: unchanged_def)
    have "untouched d1 dir segs ws"
      using Cons.prems(3) rests_survives [OF sync_data_any [OF Cons.prems(1) sync]]
      unfolding untouched_def by blast
    moreover have "\<forall>y \<in> set (past @ [x]). synced d1 dir segs y" "\<forall>y \<in> set now. written d1 dir segs y"
      using Cons.prems(4,5) by (auto simp: synced_def written_def live_same durable_same)
    ultimately show ?thesis
      using Cons.IH [of d1 "past @ [x]", OF _ _ _ _ _ rest Cons.prems(7)] keep by auto
  qed
qed

text \<open>Once every write is synced and every new entry is durable, the disk holds the grown layout.\<close>

lemma synced_laid:
  assumes mid: "midwave d dir segs ws" and un: "untouched d dir segs ws"
    and sync: "\<forall>x \<in> set ws. synced d dir segs x"
    and ws: "distinct (map fst ws)" and segs: "distinct (map fst segs)"
    and same: "\<And>q. live d' q = live d q" "\<And>q. durable d' q = durable d q"
    and ent: "\<And>q. entered d q \<Longrightarrow> entered d' q" "\<And>x. x \<in> set (fresh_in segs ws) \<Longrightarrow> entered d' (seg dir (fst x))"
  shows "laid d' dir (grown segs ws)"
proof -
  have old: "rests d' (seg dir (fst x)) (snd x @ grow ws (fst x))" if x: "x \<in> set segs" for x
  proof (cases "fst x \<in> fst ` set ws")
    case True
    then obtain y where y: "y \<in> set ws" "fst y = fst x" by auto
    have "map_of segs (fst x) = Some (snd x)" using segs x by simp
    moreover have "grow ws (fst x) = snd y" using grow_mem [OF ws y(1)] y(2) by simp
    moreover have "entered d (seg dir (fst x))" using mid x unfolding midwave_def lies_def by blast
    ultimately show ?thesis
      using sync y ent(1) by (auto simp: rests_iff same synced_def written_def base_def)
  next
    case False
    then show ?thesis
      using un x ent(1) by (auto simp: untouched_def grow_none rests_iff same)
  qed
  have new: "rests d' (seg dir (fst x)) (snd x)" if x: "x \<in> set (fresh_in segs ws)" for x
  proof -
    have "x \<in> set ws" "map_of segs (fst x) = None"
      using x by (auto simp: fresh_in_def map_of_eq_None_iff)
    with sync ent(2) [OF x] show ?thesis
      by (auto simp: rests_iff same synced_def written_def base_def)
  qed
  have "q \<in> (\<lambda>x. seg dir (fst x)) ` set (grown segs ws)" if "in_dir dir q" "live d' q \<noteq> None" for q
  proof -
    have "q \<in> (\<lambda>x. seg dir (fst x)) ` (set segs \<union> set ws)"
      using mid that same(1) unfolding midwave_def by auto
    then obtain s where "q = seg dir s" "s \<in> fst ` (set segs \<union> set ws)" by auto
    then show ?thesis by (simp only: seg_image fst_grown image_Un)
  qed
  with old new show ?thesis by (auto simp: laid_def grown_def)
qed

text \<open>The wave as a whole.\<close>

lemma land_any:
  assumes wf: "wf d" and laid: "laid d dir segs" and ws: "distinct (map fst ws)" and segs: "distinct (map fst segs)"
    and not_yet: "\<And>x. x \<in> set (fresh_in segs ws) \<Longrightarrow> \<not> entered d (seg dir (fst x))"
    and dir: "ws_dir a = dir" and created: "created = map (\<lambda>x. seg dir (fst x)) (fresh_in segs ws)"
    and land: "land fs Grow roll dir (map (write_of a) ws) created d = (r, d')"
  shows "wf d' \<and> (case r of Inl _ \<Rightarrow> midwave d' dir segs ws | Inr _ \<Rightarrow> laid d' dir (grown segs ws))"
proof -
  have mid: "midwave d dir segs ws" by (rule laid_midwave [OF laid not_yet])
  have un: "untouched d dir segs ws" using laid by (simp add: untouched_def laid_def)
  have before: "\<forall>x \<in> set ws. unwritten d dir segs x"
  proof
    fix x assume "x \<in> set ws"
    show "unwritten d dir segs x"
    proof (cases "map_of segs (fst x)")
      case None
      then have "seg dir (fst x) \<notin> (\<lambda>x. seg dir (fst x)) ` set segs" by (simp add: map_of_eq_None_iff)
      then have "live d (seg dir (fst x)) = None" using laid in_dir_seg unfolding laid_def by blast
      with None show ?thesis by (simp add: unwritten_def)
    next
      case (Some b)
      then have "(fst x, b) \<in> set segs" by (rule map_of_SomeD)
      with laid Some show ?thesis by (force simp: unwritten_def laid_def)
    qed
  qed
  obtain r1 d1 where s1: "each_step (land_write fs Grow roll created) (map (write_of a) ws) d = (r1, d1)" by fastforce
  have k1: "wf d1 \<and> midwave d1 dir segs ws \<and>
      (\<forall>u. r1 = Inr u \<longrightarrow> untouched d1 dir segs ws \<and> (\<forall>x \<in> set ([] @ ws). written d1 dir segs x))"
    by (rule land_writes [OF wf mid un _ _ _ before _ ws segs s1 dir]) (use ws in simp_all)
  show ?thesis
  proof (cases r1)
    case (Inl e)
    with land s1 k1 show ?thesis by (auto simp: land_def)
  next
    case (Inr u)
    obtain r2 d2 where s2: "each_step (sync_segment fs) (map (write_of a) ws) d1 = (r2, d2)" by fastforce
    have k2: "wf d2 \<and> midwave d2 dir segs ws \<and>
        (\<forall>u. r2 = Inr u \<longrightarrow> untouched d2 dir segs ws \<and> (\<forall>x \<in> set ([] @ ws). synced d2 dir segs x))"
      by (rule land_syncs [OF _ _ _ _ _ s2 dir]) (use k1 Inr in simp_all)
    show ?thesis
    proof (cases r2)
      case (Inl e)
      with land s1 Inr s2 k2 show ?thesis by (auto simp: land_def)
    next
      case r2: (Inr u2)
      have land': "(if created \<noteq> [] then at_op (lit ''sync ledger dir'') dir (vfs_sync_dir fs dir d2) else (Inr (), d2)) = (r, d')"
        using land s1 Inr s2 r2 by (simp add: land_def)
      have done2: "untouched d2 dir segs ws" "\<forall>x \<in> set ws. synced d2 dir segs x" using k2 r2 by simp_all
      show ?thesis
      proof (cases "created = []")
        case True
        then have "fresh_in segs ws = []" "r = Inr ()" "d' = d2" using land' created by auto
        moreover have "laid d2 dir (grown segs ws)"
          using k2 done2 \<open>fresh_in segs ws = []\<close> by (intro synced_laid [OF _ _ _ ws segs]) auto
        ultimately show ?thesis using k2 by simp
      next
        case False
        obtain r3 d3 where s3: "vfs_sync_dir fs dir d2 = (r3, d3)" by fastforce
        have wf3: "wf d3" using k2 s3 sync_dir_wf by blast
        show ?thesis
        proof (cases r3)
          case (Inl e)
          have sur: "survives d2 d3 q" for q
            using k2 by (intro sync_dir_err [OF _ s3 [unfolded Inl]]) simp
          have "midwave d3 dir segs ws"
          proof (rule midwave_survives [OF _ sur])
            show "midwave d2 dir segs ws" using k2 by simp
            show "entered d2 q" if "entered d3 q" for q using sur [of q] that by (simp add: survives_def)
          qed
          then show ?thesis using land' False s3 Inl wf3 by (auto simp: at_op_def)
        next
          case (Inr u3)
          have ok: "live d3 q = live d2 q \<and> durable d3 q = durable d2 q \<and>
              entered d3 q = (entered d2 q \<or> parent_is q dir \<and> live d2 q \<noteq> None)" for q
            using k2 by (intro sync_dir_ok [OF _ s3 [unfolded Inr]]) simp
          have "laid d3 dir (grown segs ws)"
          proof (rule synced_laid [OF _ done2 ws segs])
            show "midwave d2 dir segs ws" using k2 by simp
            show "entered d3 (seg dir (fst x))" if "x \<in> set (fresh_in segs ws)" for x
            proof -
              have "live d2 (seg dir (fst x)) \<noteq> None"
                using that done2(2) by (auto simp: fresh_in_def synced_def written_def)
              then show ?thesis using ok [of "seg dir (fst x)"] in_dir_seg [of dir "fst x"] by (simp add: in_dir_def)
            qed
          qed (use ok in blast)+
          then show ?thesis using land' False s3 Inr wf3 by (auto simp: at_op_def)
        qed
      qed
    qed
  qed
qed

section \<open>Putting the disk back\<close>

lemma remove_any:
  assumes wf: "wf d" and mid: "midwave d dir segs ws" and x: "x \<in> set (fresh_in segs ws)"
    and step: "vfs_remove_file fs (seg dir (fst x)) d = (r, d')"
  shows "wf d'" "midwave d' dir segs ws" "live d q = None \<Longrightarrow> q \<noteq> seg dir (fst x) \<Longrightarrow> live d' q = None"
proof -
  have facts: "(\<forall>q. q \<noteq> seg dir (fst x) \<longrightarrow> survives d d' q) \<and>
      (entered d' (seg dir (fst x)) \<longrightarrow> entered d (seg dir (fst x)))"
    using remove_ok [OF wf] remove_err [OF wf] step unchanged_survives by (cases r) blast+
  show "wf d'" by (rule remove_wf [OF wf step])
  show "midwave d' dir segs ws"
  proof (rule midwave_survives [OF mid])
    show "survives d d' q" if "q \<notin> (\<lambda>x. seg dir (fst x)) ` set (fresh_in segs ws)" for q
      using facts that x by blast
    show "entered d (seg dir (fst y))" if "entered d' (seg dir (fst y))" for y
      using facts that by (cases "fst y = fst x") (auto simp: survives_def)
  qed
  show "live d' q = None" if "live d q = None" "q \<noteq> seg dir (fst x)"
    using facts that by (simp add: survives_def)
qed

lemma remove_created_any:
  assumes "wf d" "midwave d dir segs ws" "set xs \<subseteq> set (fresh_in segs ws)"
    and "remove_created fs (map (\<lambda>x. seg dir (fst x)) xs) removed d = (r, d')"
  shows "wf d' \<and> midwave d' dir segs ws \<and>
    (\<forall>u. r = Inr u \<longrightarrow> (\<forall>x \<in> set xs. live d' (seg dir (fst x)) = None)) \<and>
    (\<forall>q. live d q = None \<longrightarrow> (\<exists>u. r = Inr u) \<longrightarrow> live d' q = None)"
  using assms
proof (induction xs arbitrary: d removed)
  case Nil
  then show ?case by auto
next
  case (Cons x xs)
  let ?p = "seg dir (fst x)"
  have x: "x \<in> set (fresh_in segs ws)" using Cons.prems(3) by simp
  show ?case
  proof (cases "live d ?p = None")
    case True
    have rest: "remove_created fs (map (\<lambda>x. seg dir (fst x)) xs) removed d = (r, d')"
      using Cons.prems(4) True by (simp add: exists_iff)
    show ?thesis using Cons.IH [OF Cons.prems(1,2) _ rest] Cons.prems(3) True by auto
  next
    case False
    obtain r1 d1 where s1: "vfs_remove_file fs ?p d = (r1, d1)" by fastforce
    note any = remove_any [OF Cons.prems(1,2) x s1]
    show ?thesis
    proof (cases r1)
      case (Inl e)
      then have "\<exists>e. r = Inl e" "d' = d1"
        using Cons.prems(4) False s1 by (auto simp: exists_iff at_op_def)
      with any(1,2) show ?thesis by auto
    next
      case (Inr u)
      have rest: "remove_created fs (map (\<lambda>x. seg dir (fst x)) xs) True d1 = (r, d')"
        using Cons.prems(4) False s1 Inr by (simp add: exists_iff at_op_def)
      have gone: "live d1 ?p = None" using remove_ok [OF Cons.prems(1) s1 [unfolded Inr]] by simp
      have "live d1 q = None" if "live d q = None" for q
        using any(3) [OF that] gone by (cases "q = ?p") auto
      then show ?thesis
        using Cons.IH [OF any(1,2) _ rest] Cons.prems(3) gone by auto
    qed
  qed
qed

lemma truncate_any:
  assumes wf: "wf d" and mid: "midwave d dir segs ws" and x: "x \<in> set segs" and segs: "distinct (map fst segs)"
    and step: "vfs_truncate fs (seg dir (fst x)) (length (snd x)) d = (r, d')"
  shows "wf d'" "midwave d' dir segs ws"
    and "r = Inr u \<Longrightarrow> live d' (seg dir (fst x)) = Some (snd x)"
    and "q \<noteq> seg dir (fst x) \<Longrightarrow> survives d d' q"
proof -
  let ?p = "seg dir (fst x)"
  obtain l s where ls: "live d ?p = Some l" "durable d ?p = Some s" "entered d ?p" "prefix (snd x) l"
      "prefix l (snd x @ grow ws (fst x))" "prefix (snd x) s" "prefix s (snd x @ grow ws (fst x))"
    using mid x unfolding midwave_def lies_def by blast
  have len: "length (snd x) \<le> length l" using ls(4) by (rule prefix_length_le)
  have cut: "resize (length (snd x)) l = snd x"
    using ls(4) len by (auto simp: resize_def prefix_def)
  have facts: "(\<forall>q. q \<noteq> ?p \<longrightarrow> survives d d' q) \<and> lies d' ?p (snd x) (snd x @ grow ws (fst x)) \<and>
     (\<forall>u. r = Inr u \<longrightarrow> live d' ?p = Some (snd x))"
  proof (cases r)
    case (Inl e)
    have "lies d ?p (snd x) (snd x @ grow ws (fst x))" using mid x unfolding midwave_def by blast
    with truncate_err [OF wf step [unfolded Inl]] ls(1) len Inl show ?thesis by auto
  next
    case (Inr u)
    show ?thesis
      using truncate_ok [OF wf step [unfolded Inr]] ls cut unchanged_survives by (auto simp: lies_def)
  qed
  show "wf d'" by (rule truncate_wf [OF wf step])
  show "r = Inr u \<Longrightarrow> live d' ?p = Some (snd x)" using facts by simp
  show sur: "q \<noteq> ?p \<Longrightarrow> survives d d' q" for q using facts by simp
  have "lies d' (seg dir (fst y)) (snd y) (snd y @ grow ws (fst y))" if "y \<in> set segs" for y
  proof (cases "fst y = fst x")
    case True
    then have "y = x" using segs x that by (metis eq_key_imp_eq_value prod.collapse)
    with facts show ?thesis by simp
  next
    case False
    then have "survives d d' (seg dir (fst y))" using sur by simp
    then show ?thesis using mid that unfolding midwave_def survives_def by blast
  qed
  moreover have "q \<in> (\<lambda>x. seg dir (fst x)) ` (set segs \<union> set ws)" if "in_dir dir q" "live d' q \<noteq> None" for q
  proof (cases "q = ?p")
    case True
    then show ?thesis using x by auto
  next
    case False
    then have "live d q \<noteq> None" using absent_survives [OF sur [OF False]] that(2) by auto
    with mid that(1) show ?thesis unfolding midwave_def by blast
  qed
  moreover have "\<not> entered d' (seg dir (fst y))" if "y \<in> set (fresh_in segs ws)" for y
  proof -
    have "fst y \<noteq> fst x" using that x by (auto simp: fresh_in_def)
    then show ?thesis using sur [of "seg dir (fst y)"] mid that unfolding midwave_def survives_def by auto
  qed
  ultimately show "midwave d' dir segs ws" unfolding midwave_def by blast
qed

lemma midwave_laid:
  assumes mid: "midwave d dir segs ws" and gone: "\<forall>x \<in> set (fresh_in segs ws). live d (seg dir (fst x)) = None"
    and still: "\<forall>x \<in> set segs. x \<noteq> last segs \<longrightarrow> grow ws (fst x) = []"
    and tail: "segs \<noteq> [] \<Longrightarrow> rests d (seg dir (fst (last segs))) (snd (last segs))"
  shows "laid d dir segs"
proof -
  have "rests d (seg dir (fst x)) (snd x)" if "x \<in> set segs" for x
  proof (cases "x = last segs")
    case True
    then have "segs \<noteq> []" using that by auto
    with tail True show ?thesis by simp
  next
    case False
    then have "grow ws (fst x) = []" using still that by simp
    moreover have "lies d (seg dir (fst x)) (snd x) (snd x @ grow ws (fst x))" using mid that by (simp add: midwave_def)
    ultimately show ?thesis by (simp add: rests_def)
  qed
  moreover have "q \<in> (\<lambda>x. seg dir (fst x)) ` set segs" if "in_dir dir q" "live d q \<noteq> None" for q
  proof -
    obtain x where x: "x \<in> set segs \<union> set ws" "q = seg dir (fst x)"
      using mid \<open>in_dir dir q\<close> \<open>live d q \<noteq> None\<close> unfolding midwave_def by blast
    have "fst x \<in> fst ` set segs"
    proof (rule ccontr)
      assume "fst x \<notin> fst ` set segs"
      with x have "x \<in> set (fresh_in segs ws)" by (auto simp: fresh_in_def)
      with gone x that show False by auto
    qed
    with x(2) show ?thesis by simp
  qed
  ultimately show ?thesis by (simp add: laid_def)
qed

lemma sync_dir_removed:
  assumes wf: "wf d" and mid: "midwave d dir segs ws"
    and gone: "\<forall>x \<in> set (fresh_in segs ws). live d (seg dir (fst x)) = None"
    and step: "vfs_sync_dir fs dir d = (r, d')"
  shows "wf d'" "midwave d' dir segs ws" "\<forall>x \<in> set (fresh_in segs ws). live d' (seg dir (fst x)) = None"
proof -
  have ent: "entered d' (seg dir (fst x)) \<longrightarrow> entered d (seg dir (fst x))" if "x \<in> set (fresh_in segs ws)" for x
    using sync_dir_ok [OF wf] sync_dir_err [OF wf] step gone that by (cases r) (auto simp: survives_def)
  have keep: "lies d' q old new" if "lies d q old new" for q old new
    using sync_dir_ok [OF wf] sync_dir_err [OF wf] step that by (cases r) (auto simp: survives_def lies_def)
  have none: "live d' q = None" if "live d q = None" for q
    using sync_dir_ok [OF wf] sync_dir_err [OF wf] step that by (cases r) (auto simp: survives_def)
  show "wf d'" by (rule sync_dir_wf [OF wf step])
  have "q \<in> (\<lambda>x. seg dir (fst x)) ` (set segs \<union> set ws)" if "in_dir dir q" "live d' q \<noteq> None" for q
  proof -
    have "live d q \<noteq> None" using none [of q] that(2) by auto
    with mid that(1) show ?thesis unfolding midwave_def by blast
  qed
  moreover have "lies d' (seg dir (fst x)) (snd x) (snd x @ grow ws (fst x))" if "x \<in> set segs" for x
    using keep mid that by (simp add: midwave_def)
  ultimately show "midwave d' dir segs ws" using mid ent by (auto simp: midwave_def)
  show "\<forall>x \<in> set (fresh_in segs ws). live d' (seg dir (fst x)) = None" using gone none by blast
qed

lemma cut_back_any:
  assumes wf: "wf d" and mid: "midwave d dir segs ws" and segs: "distinct (map fst segs)" and ne: "segs \<noteq> []"
    and gone: "\<forall>x \<in> set (fresh_in segs ws). live d (seg dir (fst x)) = None"
    and still: "\<forall>x \<in> set segs. x \<noteq> last segs \<longrightarrow> grow ws (fst x) = []"
    and tail: "p = seg dir (fst (last segs))" "n = length (snd (last segs))"
    and step: "step_then (at_op op p (vfs_truncate fs p n d)) (\<lambda>_ d. at_op op' p (vfs_sync_data fs p d)) = (r, d')"
  shows "wf d' \<and> (case r of Inl _ \<Rightarrow> midwave d' dir segs ws | Inr _ \<Rightarrow> laid d' dir segs)"
proof -
  have last: "last segs \<in> set segs" using ne by simp
  obtain r3 d3 where s3: "vfs_truncate fs p n d = (r3, d3)" by fastforce
  note any3 = truncate_any [OF wf mid last segs s3 [unfolded tail]]
  show ?thesis
  proof (cases r3)
    case (Inl e)
    with step s3 any3(1,2) show ?thesis by (auto simp: at_op_def)
  next
    case r3: (Inr u3)
    obtain r4 d4 where s4: "vfs_sync_data fs p d3 = (r4, d4)" by fastforce
    have any4: "wf d4 \<and> midwave d4 dir segs ws" by (rule sync_step [OF any3(1,2) s4])
    have "step_then (Inr u3, d3) (\<lambda>_ d. at_op op' p (vfs_sync_data fs p d)) = (r, d')"
      using step s3 r3 by (simp add: at_op_def)
    then have res: "(r, d') = at_op op' p (r4, d4)" using s4 by simp
    show ?thesis
    proof (cases r4)
      case (Inl e)
      with res any4 show ?thesis by (simp add: at_op_def)
    next
      case (Inr u4)
      have here: "live d3 p = Some (snd (last segs))" using any3(3) [OF r3] tail by simp
      note sync = sync_data_ok [OF any3(1) s4 [unfolded Inr]]
      have "entered d3 p"
        using any3(2) last unfolding midwave_def lies_def tail(1) by blast
      then have "rests d4 (seg dir (fst (last segs))) (snd (last segs))"
        using sync here by (simp add: rests_iff tail(1))
      moreover have "\<forall>x \<in> set (fresh_in segs ws). live d4 (seg dir (fst x)) = None"
      proof
        fix x assume x: "x \<in> set (fresh_in segs ws)"
        have "fst x \<noteq> fst (last segs)" using x last by (auto simp: fresh_in_def)
        then have "survives d d4 (seg dir (fst x))"
          using any3(4) sync_data_any [OF any3(1) s4] survives_trans by (metis seg_inject)
        then show "live d4 (seg dir (fst x)) = None" using gone x absent_survives by blast
      qed
      ultimately have "laid d4 dir segs" using any4 still by (intro midwave_laid) auto
      then show ?thesis using res Inr any4 by (simp add: at_op_def)
    qed
  qed
qed

text \<open>A restore succeeds only when the disk is what it was before the wave; however it fails it may be
  tried again.\<close>

lemma restore_any:
  assumes wf: "wf d" and mid: "midwave d dir segs ws" and segs: "distinct (map fst segs)"
    and created: "created = map (\<lambda>x. seg dir (fst x)) (fresh_in segs ws)"
    and still: "\<forall>x \<in> set segs. x \<noteq> last segs \<longrightarrow> grow ws (fst x) = []"
    and none: "segs = [] \<Longrightarrow> seg_path \<in> set created"
    and tail: "segs \<noteq> [] \<Longrightarrow> seg_path = seg dir (fst (last segs)) \<and> seg_len = length (snd (last segs))"
    and step: "restore fs dir seg_path seg_len created d = (r, d')"
  shows "wf d' \<and> (case r of Inl _ \<Rightarrow> midwave d' dir segs ws | Inr _ \<Rightarrow> laid d' dir segs)"
proof -
  obtain r1 d1 where s1: "remove_created fs created False d = (r1, d1)" by fastforce
  note any1 = remove_created_any [OF wf mid order_refl s1 [unfolded created]]
  have own: "seg_path \<in> set created \<longleftrightarrow> segs = []"
  proof
    assume "seg_path \<in> set created"
    then have "fst (last segs) \<in> fst ` set (fresh_in segs ws)" if "segs \<noteq> []"
      using tail [OF that] created by auto
    then show "segs = []" by (auto simp: fst_fresh)
  qed (rule none)
  show ?thesis
  proof (cases r1)
    case (Inl e)
    with step s1 any1 show ?thesis by (auto simp: restore_def)
  next
    case r1: (Inr removed)
    obtain r2 d2 where s2: "(if removed then at_op (lit ''sync ledger dir'') dir (vfs_sync_dir fs dir d1) else (Inr (), d1)) = (r2, d2)"
      by fastforce
    have gone1: "\<forall>x \<in> set (fresh_in segs ws). live d1 (seg dir (fst x)) = None" using any1 r1 by simp
    have any2: "wf d2" "midwave d2 dir segs ws" "\<forall>x \<in> set (fresh_in segs ws). live d2 (seg dir (fst x)) = None"
    proof (atomize(full), cases removed)
      case True
      then obtain r2' where "vfs_sync_dir fs dir d1 = (r2', d2)"
        using s2 by (metis at_op_def prod.collapse snd_conv)
      from sync_dir_removed [OF _ _ gone1 this] any1
      show "wf d2 \<and> midwave d2 dir segs ws \<and> (\<forall>x \<in> set (fresh_in segs ws). live d2 (seg dir (fst x)) = None)" by blast
    next
      case False
      with s2 any1 gone1
      show "wf d2 \<and> midwave d2 dir segs ws \<and> (\<forall>x \<in> set (fresh_in segs ws). live d2 (seg dir (fst x)) = None)" by auto
    qed
    show ?thesis
    proof (cases r2)
      case (Inl e)
      with step s1 r1 s2 any2 show ?thesis by (auto simp: restore_def)
    next
      case r2: (Inr u2)
      show ?thesis
      proof (cases "segs = []")
        case True
        then have "r = Inr ()" "d' = d2" using step s1 r1 s2 r2 own by (auto simp: restore_def)
        then show ?thesis using any2 True midwave_laid [OF any2(2,3) still] by simp
      next
        case False
        have "step_then (at_op (lit ''truncate a segment back before the failed wave'') seg_path (vfs_truncate fs seg_path seg_len d2))
            (\<lambda>_ d. at_op (lit ''sync a segment cut back before the failed wave'') seg_path (vfs_sync_data fs seg_path d)) = (r, d')"
          using step s1 r1 s2 r2 own False by (simp add: restore_def)
        with tail [OF False] show ?thesis by (intro cut_back_any [OF any2(1,2) segs False any2(3) still]) auto
      qed
    qed
  qed
qed

end

end
