(* ===== verification/LedgerHistory.thy ===== *)
theory LedgerHistory
  imports LedgerWaves
begin

text \<open>
  The history a ledger holds. A position names the end of the lines answered so far; a wave that
  succeeds extends them by its lines, and a wave that fails leaves them, whatever the disk did.
\<close>

section \<open>The position of a writer\<close>

definition placed :: "codec \<Rightarrow> bytes list \<Rightarrow> (nat \<times> bytes) list \<Rightarrow> 'd jsonl_ledger \<Rightarrow> bool" where
  "placed c hs segs L \<longleftrightarrow>
     concat (map snd segs) = unlines hs \<and>
     read_chain c hs at_genesis = Inr \<lparr>lc_prev = jl_prev L, lc_expected = jl_next_seq L\<rparr> \<and>
     sorted_wrt (<) (map fst segs) \<and>
     (\<forall>x \<in> set segs. snd x \<noteq> [] \<and> fst x < seq_value (jl_next_seq L) \<and> last (snd x) = 10 \<and>
        length (snd x) \<le> u64_max) \<and>
     (\<forall>l \<in> set hs. \<exists>r. write_record c r = Inr l) \<and>
     jl_seg_path L = seg (jl_dir L) (if segs = [] then 0 else fst (last segs)) \<and>
     jl_seg_len L = (if segs = [] then 0 else length (snd (last segs))) \<and>
     jl_roll_bytes L < u64_max \<and> jl_preallocation L = Grow"

definition start_of :: "(nat \<times> bytes) list \<Rightarrow> 'd jsonl_ledger \<Rightarrow> wave_start" where
  "start_of segs L =
     \<lparr>ws_dir = jl_dir L, ws_first = (if segs = [] then 0 else fst (last segs)), ws_len = jl_seg_len L,
      ws_seq = seq_value (jl_next_seq L), ws_prev = jl_prev L\<rparr>"

lemma start_of_sel [simp]:
  "ws_dir (start_of segs L) = jl_dir L" "ws_len (start_of segs L) = jl_seg_len L"
  "ws_seq (start_of segs L) = seq_value (jl_next_seq L)" "ws_prev (start_of segs L) = jl_prev L"
  "ws_first (start_of segs L) = (if segs = [] then 0 else fst (last segs))"
  by (simp_all add: start_of_def)

lemma placed_empty: "placed c hs [] L \<Longrightarrow> hs = [] \<and> jl_next_seq L = Seq 0 \<and> jl_seg_len L = 0"
  by (cases hs) (auto simp: placed_def at_genesis_def seq_FIRST_def)

lemma placed_last:
  assumes "placed c hs segs L" "segs \<noteq> []"
  shows "fst (last segs) < seq_value (jl_next_seq L)" "jl_seg_len L > 0" "last segs \<in> set segs"
  using assms last_in_set [OF assms(2)] by (auto simp: placed_def)

lemma placed_start_ok: "placed c hs segs L \<Longrightarrow> start_ok (start_of segs L)"
  using placed_empty [of c hs L] placed_last [of c hs segs L]
  by (cases "segs = []") (auto simp: start_ok_def)

text \<open>What a framed wave does to the layout it starts from: it continues the last segment or starts a new
  one, and every other segment stays as it is.\<close>

lemma wave_sorted: "framed c a ls ws w \<Longrightarrow> sorted_wrt (<) (map fst ws) \<and> distinct (map fst ws)"
  by (simp add: framed_def strict_sorted_iff)

lemma wave_where:
  assumes "placed c hs segs L" "framed c (start_of segs L) ls ws w" "x \<in> set ws"
  shows "fst x \<in> fst ` set segs \<longleftrightarrow> segs \<noteq> [] \<and> fst x = fst (last segs)"
proof -
  have "fst x = ws_first (start_of segs L) \<or> seq_value (jl_next_seq L) \<le> fst x"
    using assms(2,3) by (auto simp: framed_def)
  moreover have "fst y < seq_value (jl_next_seq L)" if "y \<in> set segs" for y
    using assms(1) that by (auto simp: placed_def)
  ultimately show ?thesis using placed_last(3) [OF assms(1)]
    by (cases "segs = []") (auto simp: image_iff, fastforce+)
qed

lemma wave_created:
  assumes "placed c hs segs L" "framed c (start_of segs L) ls ws w" "ws \<noteq> []"
  shows "fr_created w = map (\<lambda>x. seg (jl_dir L) (fst x)) (fresh_in segs ws)"
proof -
  have "filter (\<lambda>x. jl_seg_len L = 0 \<or> fst x \<noteq> ws_first (start_of segs L)) ws = fresh_in segs ws"
    unfolding fresh_in_def
  proof (rule filter_cong [OF refl])
    fix x assume "x \<in> set ws"
    from wave_where [OF assms(1,2) this]
    show "(jl_seg_len L = 0 \<or> fst x \<noteq> ws_first (start_of segs L)) = (fst x \<notin> fst ` set segs)"
      using placed_empty [of c hs L] placed_last(2) [OF assms(1)] assms(1) by (cases "segs = []") auto
  qed
  then show ?thesis using assms(2,3) by (simp add: framed_def new_in_def)
qed

lemma wave_still:
  assumes "placed c hs segs L" "framed c (start_of segs L) ls ws w"
  shows "\<forall>x \<in> set segs. x \<noteq> last segs \<longrightarrow> grow ws (fst x) = []"
proof (intro ballI impI)
  fix x assume x: "x \<in> set segs" "x \<noteq> last segs"
  have "distinct (map fst segs)" using assms(1) by (simp add: placed_def strict_sorted_iff)
  then have "fst x \<noteq> fst (last segs)"
    using x placed_last(3) [OF assms(1)] by (metis eq_key_imp_eq_value empty_iff empty_set prod.collapse)
  then have "fst x \<notin> fst ` set ws"
    using wave_where [OF assms] x(1) by (metis (no_types, lifting) image_iff)
  then show "grow ws (fst x) = []" by (rule grow_none)
qed

lemma wave_first:
  assumes "placed c hs segs L" "framed c (start_of segs L) ls ws w" "ws \<noteq> []" "segs = []"
  shows "jl_seg_path L \<in> set (fr_created w)"
proof -
  have "ws_len (start_of segs L) = 0" using placed_empty [of c hs L] assms(1,4) by simp
  then have "0 \<in> fst ` set ws" using assms(2,3,4) by (simp add: framed_def)
  moreover have "jl_seg_path L = seg (jl_dir L) 0" using assms(1,4) by (simp add: placed_def)
  ultimately show ?thesis
    using wave_created [OF assms(1-3)] assms(4) by (auto simp: fresh_in_def)
qed

text \<open>The layout after the wave, spelled out.\<close>

lemma grown_shape:
  assumes "placed c hs segs L" "framed c (start_of segs L) ls ws w"
  shows "grown segs ws =
    (if segs \<noteq> [] \<and> ws \<noteq> [] \<and> fst (hd ws) = fst (last segs)
     then butlast segs @ (fst (last segs), snd (last segs) @ snd (hd ws)) # tl ws
     else segs @ ws)"
proof -
  have still: "\<forall>x \<in> set segs. x \<noteq> last segs \<longrightarrow> grow ws (fst x) = []" by (rule wave_still [OF assms])
  have d: "distinct (map fst segs)" using assms(1) by (simp add: placed_def strict_sorted_iff)
  have s: "sorted_wrt (<) (map fst ws)" "distinct (map fst ws)" using wave_sorted [OF assms(2)] by auto
  note wh = wave_where [OF assms]
  show ?thesis
  proof (cases "segs \<noteq> [] \<and> fst (last segs) \<in> fst ` set ws")
    case False
    then have "\<forall>x \<in> set ws. fst x \<notin> fst ` set segs" using wh by (metis imageI)
    then have "fresh_in segs ws = ws" by (simp add: fresh_in_def filter_id_conv)
    moreover have "grow ws (fst x) = []" if "x \<in> set segs" for x
      using False grow_none still that by (cases "x = last segs") auto
    moreover have "\<not> (segs \<noteq> [] \<and> ws \<noteq> [] \<and> fst (hd ws) = fst (last segs))"
      using False hd_in_set by (metis imageI)
    ultimately show ?thesis by (subst if_not_P) (simp_all add: grown_def map_idI)
  next
    case True
    then obtain b where b: "(fst (last segs), b) \<in> set ws" by auto
    have low: "fst (last segs) \<le> fst x" if "x \<in> set ws" for x
    proof -
      have "fst x = fst (last segs) \<or> seq_value (jl_next_seq L) \<le> fst x"
        using assms(2) that True by (auto simp: framed_def)
      then show ?thesis using placed_last(1) [OF assms(1)] True by auto
    qed
    obtain y ws' where ws: "ws = y # ws'" using b by (cases ws) auto
    have y: "fst y = fst (last segs)"
      using s(1) low [of y] b by (auto simp: ws)
    have rest: "fst x \<noteq> fst (last segs)" if "x \<in> set ws'" for x
      using s(1) that y by (auto simp: ws)
    have "fresh_in segs ws = ws'"
      using wh True y rest by (auto simp: fresh_in_def ws filter_id_conv)
    moreover have "map (\<lambda>x. (fst x, snd x @ grow ws (fst x))) segs =
        butlast segs @ [(fst (last segs), snd (last segs) @ snd y)]"
    proof -
      have split: "segs = butlast segs @ [last segs]" using True by simp
      have "distinct segs" using d by (simp add: distinct_map)
      then have "distinct (butlast segs @ [last segs])" using True by simp
      then have "last segs \<notin> set (butlast segs)" by simp
      then have "grow ws (fst x) = []" if "x \<in> set (butlast segs)" for x
        using still that in_set_butlastD by metis
      then have "map (\<lambda>x. (fst x, snd x @ grow ws (fst x))) (butlast segs) = butlast segs"
        by (simp add: map_idI)
      moreover have "grow ws (fst (last segs)) = snd y" using grow_mem [OF s(2), of y] y by (simp add: ws)
      ultimately show ?thesis by (subst split) simp
    qed
    ultimately show ?thesis using True y by (simp add: grown_def ws)
  qed
qed

lemma placed_grown:
  assumes placed: "placed c hs segs L" and framed: "framed c (start_of segs L) ls ws w" and ws: "ws \<noteq> []"
    and same: "jl_dir L' = jl_dir L" "jl_roll_bytes L' = jl_roll_bytes L" "jl_preallocation L' = jl_preallocation L"
    and now: "jl_seg_path L' = fr_path w" "jl_seg_len L' = fr_len w" "jl_next_seq L' = fr_seq w" "jl_prev L' = fr_prev w"
  shows "placed c (hs @ ls) (grown segs ws) L'"
proof -
  have chain: "read_chain c (hs @ ls) at_genesis = Inr \<lparr>lc_prev = fr_prev w, lc_expected = fr_seq w\<rparr>"
    using placed framed by (simp add: placed_def framed_def read_chain_append start_of_def)
  have later: "seq_value (jl_next_seq L) \<le> seq_value (fr_seq w)"
    using read_chain_expected [of c ls] framed by (fastforce simp: framed_def)
  note shape = grown_shape [OF placed framed]
  have "list_all2 (\<lambda>r l. write_record c r = Inr l) (fr_records w) ls" using framed by (simp add: framed_def)
  then have "\<exists>r. write_record c r = Inr l" if "l \<in> set ls" for l
    using that by (auto simp: list_all2_conv_all_nth in_set_conv_nth)
  then have plain: "\<forall>l \<in> set (hs @ ls). \<exists>r. write_record c r = Inr l"
    using placed by (simp add: placed_def ball_Un)
  have s: "sorted_wrt (<) (map fst ws)"
    and b: "\<forall>x \<in> set ws. snd x \<noteq> [] \<and> fst x < seq_value (fr_seq w) \<and> last (snd x) = 10 \<and>
      (if fst x = ws_first (start_of segs L) then ws_len (start_of segs L) else 0) + length (snd x) \<le> u64_max"
    and c: "concat (map snd ws) = unlines ls"
    using framed by (auto simp: framed_def)
  have s': "sorted_wrt (<) (map fst segs)"
    and b': "\<forall>x \<in> set segs. snd x \<noteq> [] \<and> fst x < seq_value (jl_next_seq L) \<and> last (snd x) = 10 \<and> length (snd x) \<le> u64_max"
    and c': "concat (map snd segs) = unlines hs"
    using placed by (auto simp: placed_def)
  have place: "fst x = ws_first (start_of segs L) \<or> seq_value (jl_next_seq L) \<le> fst x" if "x \<in> set ws" for x
    using framed that by (auto simp: framed_def)
  have ends: "fr_path w = seg (jl_dir L) (fst (last ws))"
    "fr_len w = (if fst (last ws) = ws_first (start_of segs L) then jl_seg_len L else 0) + length (snd (last ws))"
    using framed ws by (auto simp: framed_def)
  show ?thesis
  proof (cases "segs \<noteq> [] \<and> fst (hd ws) = fst (last segs)")
    case True
    obtain y ws' where y: "ws = y # ws'" using ws by (cases ws) auto
    have split: "segs = butlast segs @ [last segs]" using True by simp
    have g: "grown segs ws = butlast segs @ (fst (last segs), snd (last segs) @ snd y) # ws'"
      using shape True ws by (simp add: y)
    have fsts: "map fst (grown segs ws) = map fst segs @ map fst ws'"
      unfolding g by (subst (2) split) simp
    have up: "fst u < fst v" if "u \<in> set segs" "v \<in> set ws'" for u v
    proof -
      have "fst v \<noteq> fst (last segs)" using s that(2) True by (auto simp: y)
      then have "seq_value (jl_next_seq L) \<le> fst v" using place [of v] that(2) True by (auto simp: y)
      with b' that(1) show ?thesis by fastforce
    qed
    have "sorted_wrt (<) (map fst (grown segs ws))"
      unfolding fsts using s s' up by (auto simp: sorted_wrt_append y)
    moreover have "concat (map snd (grown segs ws)) = unlines (hs @ ls)"
    proof -
      have "unlines hs = concat (map snd (butlast segs)) @ snd (last segs)"
        unfolding c' [symmetric] by (subst (1) split) simp
      then show ?thesis using c unfolding g by (simp add: y)
    qed
    moreover have "\<forall>x \<in> set (grown segs ws). snd x \<noteq> [] \<and> fst x < seq_value (fr_seq w) \<and> last (snd x) = 10 \<and> length (snd x) \<le> u64_max"
    proof
      have len: "jl_seg_len L = length (snd (last segs))" using placed True by (auto simp: placed_def)
      fix x assume "x \<in> set (grown segs ws)"
      then consider "x \<in> set segs" | "x = (fst (last segs), snd (last segs) @ snd y)" | "x \<in> set ws'"
        unfolding g by (auto dest: in_set_butlastD)
      then show "snd x \<noteq> [] \<and> fst x < seq_value (fr_seq w) \<and> last (snd x) = 10 \<and> length (snd x) \<le> u64_max"
      proof cases
        case 1
        with b' later show ?thesis by fastforce
      next
        case 2
        have "snd y \<noteq> [] \<and> last (snd y) = 10 \<and> length (snd (last segs)) + length (snd y) \<le> u64_max"
          using b True len by (simp add: y)
        with 2 later placed_last [OF placed] True show ?thesis by auto
      next
        case 3
        with b show ?thesis by (fastforce simp: y)
      qed
    qed
    moreover have "fr_path w = seg (jl_dir L) (fst (last (grown segs ws)))" "fr_len w = length (snd (last (grown segs ws)))"
      "grown segs ws \<noteq> []"
    proof -
      have len: "jl_seg_len L = length (snd (last segs))" using placed True by (auto simp: placed_def)
      have far: "fst (last ws') \<noteq> fst (last segs)" if "ws' \<noteq> []"
        using up [of "last segs" "last ws'"] that True by auto
      show "fr_path w = seg (jl_dir L) (fst (last (grown segs ws)))" "fr_len w = length (snd (last (grown segs ws)))"
        "grown segs ws \<noteq> []"
        unfolding g using ends True len far by (auto simp: y)
    qed
    ultimately show ?thesis
      using chain placed now same plain by (auto simp: placed_def)
  next
    case False
    then have g: "grown segs ws = segs @ ws" using shape ws by auto
    have far: "fst v \<noteq> fst (last segs)" if "segs \<noteq> []" "v \<in> set ws" for v
    proof
      assume eq: "fst v = fst (last segs)"
      have "fst (hd ws) \<le> fst v" using s that(2) by (cases ws) auto
      moreover have "fst (last segs) \<le> fst (hd ws)"
        using place [of "hd ws"] ws that(1) placed_last(1) [OF placed that(1)] by auto
      ultimately show False using False that(1) eq by auto
    qed
    have up: "fst u < fst v" if "u \<in> set segs" "v \<in> set ws" for u v
    proof -
      have "segs \<noteq> []" using that(1) by auto
      then have "seq_value (jl_next_seq L) \<le> fst v" using place [OF that(2)] far [OF _ that(2)] by auto
      with b' that(1) show ?thesis by fastforce
    qed
    have "sorted_wrt (<) (map fst (grown segs ws))"
      unfolding g using s s' up by (auto simp: sorted_wrt_append)
    moreover have "concat (map snd (grown segs ws)) = unlines (hs @ ls)" using c c' by (simp add: g)
    moreover have "\<forall>x \<in> set (grown segs ws). snd x \<noteq> [] \<and> fst x < seq_value (fr_seq w) \<and> last (snd x) = 10 \<and> length (snd x) \<le> u64_max"
      using b b' later by (fastforce simp: g)
    moreover have "fr_path w = seg (jl_dir L) (fst (last (grown segs ws)))" "fr_len w = length (snd (last (grown segs ws)))"
      "grown segs ws \<noteq> []"
      using ends ws far [of "last ws"] placed_empty [of c hs L] placed by (auto simp: g)
    ultimately show ?thesis
      using chain placed now same plain by (auto simp: placed_def)
  qed
qed


section \<open>The history on a disk\<close>

lemma placed_upd [simp]:
  "placed c hs segs (L\<lparr>jl_disk := d\<rparr>) = placed c hs segs L"
  "placed c hs segs (L\<lparr>jl_pending_unwind := p\<rparr>) = placed c hs segs L"
  "placed c hs segs (L\<lparr>jl_barrier := b\<rparr>) = placed c hs segs L"
  "start_of segs (L\<lparr>jl_disk := d\<rparr>) = start_of segs L"
  "start_of segs (L\<lparr>jl_pending_unwind := p\<rparr>) = start_of segs L"
  "start_of segs (L\<lparr>jl_barrier := b\<rparr>) = start_of segs L"
  by (simp_all add: placed_def start_of_def)

context durable_disk
begin

text \<open>A ledger holds the lines \<open>hs\<close>: either its barrier is whole and the segments are exactly those lines,
  or a failed wave is owed a restore that will make them so.\<close>

definition holds :: "codec \<Rightarrow> bytes list \<Rightarrow> 'd jsonl_ledger \<Rightarrow> bool" where
  "holds c hs L \<longleftrightarrow> wf (jl_disk L) \<and> (\<exists>segs. placed c hs segs L \<and>
     (case jl_pending_unwind L of
        None \<Rightarrow> jl_barrier L = BarrierWhole \<and> laid (jl_disk L) (jl_dir L) segs
      | Some created \<Rightarrow> jl_barrier L = BarrierBroken \<and>
          (\<exists>ls ws w. framed c (start_of segs L) ls ws w \<and> ws \<noteq> [] \<and> created = fr_created w \<and>
             midwave (jl_disk L) (jl_dir L) segs ws)))"

lemma finish_unwind_any:
  assumes holds: "holds c hs L" and step: "finish_unwind fs L = (r, L')"
  shows "holds c hs L' \<and> (case r of Inl _ \<Rightarrow> True | Inr _ \<Rightarrow> jl_pending_unwind L' = None)"
proof (cases "jl_pending_unwind L")
  case None
  then show ?thesis using assms by (auto simp: finish_unwind_def)
next
  case (Some created)
  obtain segs ls ws w where wf: "wf (jl_disk L)" and placed: "placed c hs segs L"
    and framed: "framed c (start_of segs L) ls ws w" and ws: "ws \<noteq> []" and created: "created = fr_created w"
    and mid: "midwave (jl_disk L) (jl_dir L) segs ws" and broken: "jl_barrier L = BarrierBroken"
    using holds by (auto simp: holds_def Some)
  obtain r1 d where res: "restore fs (jl_dir L) (jl_seg_path L) (jl_seg_len L) created (jl_disk L) = (r1, d)" by fastforce
  have seg: "segs \<noteq> [] \<Longrightarrow> jl_seg_path L = seg (jl_dir L) (fst (last segs)) \<and> jl_seg_len L = length (snd (last segs))"
    using placed by (simp add: placed_def)
  have distinct: "distinct (map fst segs)" using placed by (simp add: placed_def strict_sorted_iff)
  have first: "segs = [] \<Longrightarrow> jl_seg_path L \<in> set created" unfolding created by (rule wave_first [OF placed framed ws])
  have any: "wf d \<and> (case r1 of Inl _ \<Rightarrow> midwave d (jl_dir L) segs ws | Inr _ \<Rightarrow> laid d (jl_dir L) segs)"
    by (rule restore_any [OF wf mid distinct _ wave_still [OF placed framed] first seg res])
      (simp_all add: created wave_created [OF placed framed ws])
  show ?thesis
  proof (cases r1)
    case (Inl e)
    define L1 where "L1 = L\<lparr>jl_disk := d, jl_pending_unwind := Some created\<rparr>"
    have "placed c hs segs L1" "start_of segs L1 = start_of segs L"
      using placed by (simp_all add: L1_def)
    then have "holds c hs L1"
      using any Inl framed ws created broken by (auto simp: holds_def L1_def)
    then show ?thesis using step Some res Inl by (auto simp: finish_unwind_def L1_def)
  next
    case (Inr u)
    define L1 where "L1 = L\<lparr>jl_disk := d, jl_pending_unwind := None, jl_barrier := BarrierWhole\<rparr>"
    have "placed c hs segs L1" using placed by (simp add: L1_def)
    then have "holds c hs L1" using any Inr by (auto simp: holds_def L1_def)
    then show ?thesis using step Some res Inr by (auto simp: finish_unwind_def L1_def)
  qed
qed

lemma write_wave_any:
  assumes wf: "wf (jl_disk L)" and placed: "placed c hs segs L" and laid: "laid (jl_disk L) (jl_dir L) segs"
    and framed: "framed c (start_of segs L) ls ws w" and ws: "ws \<noteq> []" and broken: "jl_barrier L = BarrierBroken"
    and step: "write_wave fs (fr_writes w) (fr_created w) L = (r, L')"
  shows "case r of Inl _ \<Rightarrow> holds c hs L'
    | Inr _ \<Rightarrow> (\<exists>d. L' = L\<lparr>jl_disk := d\<rparr> \<and> wf d \<and> laid d (jl_dir L) (grown segs ws))"
proof -
  obtain r1 d where land: "land fs (jl_preallocation L) (jl_roll_bytes L) (jl_dir L) (fr_writes w) (fr_created w) (jl_disk L) = (r1, d)"
    by fastforce
  have grow: "jl_preallocation L = Grow" and distinct: "distinct (map fst segs)"
    using placed by (auto simp: placed_def strict_sorted_iff)
  have writes: "fr_writes w = map (write_of (start_of segs L)) ws" using framed by (simp add: framed_def)
  have any: "wf d \<and> (case r1 of Inl _ \<Rightarrow> midwave d (jl_dir L) segs ws | Inr _ \<Rightarrow> laid d (jl_dir L) (grown segs ws))"
  proof (rule land_any [OF wf laid _ distinct _ _ wave_created [OF placed framed ws] land [unfolded grow writes]])
    show "distinct (map fst ws)" using wave_sorted [OF framed] by simp
    show "\<not> entered (jl_disk L) (seg (jl_dir L) (fst x))" if "x \<in> set (fresh_in segs ws)" for x
    proof
      assume "entered (jl_disk L) (seg (jl_dir L) (fst x))"
      then have "live (jl_disk L) (seg (jl_dir L) (fst x)) \<noteq> None" by (rule entered_live)
      then have "seg (jl_dir L) (fst x) \<in> (\<lambda>x. seg (jl_dir L) (fst x)) ` set segs"
        using laid in_dir_seg unfolding laid_def by blast
      with that show False by (simp only: seg_image) (simp add: fresh_in_def)
    qed
  qed simp
  show ?thesis
  proof (cases r1)
    case (Inr u)
    then show ?thesis using step land any by (auto simp: write_wave_def)
  next
    case (Inl e)
    define L1 where "L1 = L\<lparr>jl_disk := d, jl_pending_unwind := Some (fr_created w)\<rparr>"
    have "placed c hs segs L1" "start_of segs L1 = start_of segs L"
      using placed by (simp_all add: L1_def)
    then have "holds c hs L1"
      using any Inl framed ws broken by (auto simp: holds_def L1_def)
    then have "holds c hs (snd (finish_unwind fs L1))"
      using finish_unwind_any by (metis prod.collapse)
    then show ?thesis using step land Inl by (auto simp: write_wave_def L1_def)
  qed
qed

text \<open>An append that answers \<open>Ok\<close> extended the history by the lines of its drafts, and the references it
  answers are theirs; one that does not left the history as it was.\<close>

lemma append_all_any:
  assumes codec: "reads_back c" and known: "\<forall>d \<in> set drafts. known_draft d"
    and holds: "holds c hs L" and step: "append_all fs c drafts L = (r, L')"
  shows "case r of Inl _ \<Rightarrow> holds c hs L'
    | Inr refs \<Rightarrow> jl_pending_unwind L' = None \<and>
        (\<exists>rs ls. holds c (hs @ ls) L' \<and> refs = map to_ref rs \<and> length rs = length drafts \<and>
           list_all2 (\<lambda>r l. write_record c r = Inr l) rs ls)"
proof -
  obtain r1 L1 where s1: "finish_unwind fs L = (r1, L1)" by fastforce
  note any1 = finish_unwind_any [OF holds s1]
  show ?thesis
  proof (cases "(\<exists>e. r1 = Inl e) \<or> (\<exists>e. halt_admit (jl_halt L1) = Inl e) \<or> drafts = []")
    case True
    have whole: "jl_barrier L1 = BarrierWhole" if "r1 = Inr u" for u
      using any1 that by (auto simp: holds_def)
    show ?thesis
    proof (cases "r = Inr []")
      case True
      then have "L' = L1 \<and> drafts = [] \<and> (\<exists>u. r1 = Inr u)"
        using step s1 whole \<open>_ \<or> _\<close> by (cases r1; cases "halt_admit (jl_halt L1)") (auto simp: append_all_def barrier_admit_def)
      then show ?thesis using any1 True by force
    next
      case False
      then have "(\<exists>e. r = Inl e) \<and> L' = L1"
        using step s1 whole \<open>_ \<or> _\<close> by (cases r1; cases "halt_admit (jl_halt L1)") (auto simp: append_all_def barrier_admit_def)
      then show ?thesis using any1 by auto
    qed
  next
    case False
    then obtain u1 u2 where ok: "r1 = Inr u1" "halt_admit (jl_halt L1) = Inr u2" and ne: "drafts \<noteq> []"
      by (metis obj_sumE)
    obtain segs where wf: "wf (jl_disk L1)" and placed: "placed c hs segs L1" and pend: "jl_pending_unwind L1 = None"
      and whole: "jl_barrier L1 = BarrierWhole" and laid: "laid (jl_disk L1) (jl_dir L1) segs"
      using any1 ok(1) by (auto simp: holds_def)
    have rest: "step_then (frame_all c (jl_dir L1) (jl_roll_bytes L1) drafts (framing_start fs L1), L1) (\<lambda>w L.
         step_then (write_wave fs (fr_writes w) (fr_created w) (L\<lparr>jl_barrier := BarrierBroken\<rparr>)) (\<lambda>_ L.
           (Inr (map to_ref (fr_records w)), settle_wave w L))) = (r, L')"
      using step s1 ok ne whole by (simp add: append_all_def barrier_admit_def)
    show ?thesis
    proof (cases "frame_all c (jl_dir L1) (jl_roll_bytes L1) drafts (framing_start fs L1)")
      case (Inl e)
      then show ?thesis using rest any1 by auto
    next
      case (Inr w)
      let ?a = "start_of segs L1"
      have roll: "jl_roll_bytes L1 < u64_max" using placed by (simp add: placed_def)
      have absent: "jl_seg_len L1 = 0 \<Longrightarrow> \<not> vfs_exists fs (jl_seg_path L1) (jl_disk L1)"
      proof -
        assume zero: "jl_seg_len L1 = 0"
        then have "segs = []" using placed_last(2) [OF placed] by (cases "segs = []") auto
        then show ?thesis
          using laid placed in_dir_seg [of "jl_dir L1" 0] by (auto simp: exists_iff laid_def placed_def)
      qed
      have start: "framed c ?a [] [] (framing_start fs L1)"
      proof (rule framed_start)
        show "framing_start fs L1 = \<lparr>fr_path = seg (ws_dir ?a) (ws_first ?a), fr_len = ws_len ?a, fr_seq = Seq (ws_seq ?a),
            fr_prev = ws_prev ?a, fr_writes = [],
            fr_created = (if ws_len ?a = 0 then [seg (ws_dir ?a) (ws_first ?a)] else []), fr_records = []\<rparr>"
          using placed absent by (auto simp: framing_start_def placed_def)
      qed
      obtain ls ws where fr: "framed c ?a ([] @ ls) ws w" "length ls = length drafts" "ws \<noteq> []"
        using frame_all_framed [OF codec roll placed_start_ok [OF placed] known start] Inr ne by auto
      define L2 where "L2 = L1\<lparr>jl_barrier := BarrierBroken\<rparr>"
      have L2: "placed c hs segs L2" "start_of segs L2 = ?a"
        using placed by (simp_all add: L2_def)
      obtain r3 L3 where s3: "write_wave fs (fr_writes w) (fr_created w) L2 = (r3, L3)" by fastforce
      have wave: "case r3 of Inl _ \<Rightarrow> holds c hs L3
          | Inr _ \<Rightarrow> (\<exists>d. L3 = L2\<lparr>jl_disk := d\<rparr> \<and> wf d \<and> laid d (jl_dir L2) (grown segs ws))"
        by (rule write_wave_any [OF _ L2(1) _ _ fr(3) _ s3, of ls]) (use wf laid fr(1) L2(2) in \<open>simp_all add: L2_def\<close>)
      show ?thesis
      proof (cases r3)
        case (Inl e)
        then show ?thesis using rest \<open>frame_all _ _ _ _ _ = Inr w\<close> s3 wave by (auto simp: L2_def)
      next
        case r3: (Inr u3)
        then obtain d where d: "L3 = L2\<lparr>jl_disk := d\<rparr>" "wf d" "laid d (jl_dir L2) (grown segs ws)" using wave by auto
        have res: "r = Inr (map to_ref (fr_records w))" "L' = settle_wave w L3"
          using rest \<open>frame_all _ _ _ _ _ = Inr w\<close> s3 r3 by (auto simp: L2_def)
        have framed: "framed c ?a ls ws w" using fr(1) by simp
        have "placed c (hs @ ls) (grown segs ws) L'"
          by (rule placed_grown [OF placed framed fr(3)]) (simp_all add: res(2) settle_wave_def d(1) L2_def)
        then have "holds c (hs @ ls) L'"
          using d(2,3) pend by (auto simp: holds_def res(2) settle_wave_def d(1) L2_def)
        moreover have "list_all2 (\<lambda>r l. write_record c r = Inr l) (fr_records w) ls" using fr(1) by (simp add: framed_def)
        ultimately show ?thesis
          using res fr(2) pend by (auto simp: settle_wave_def d(1) L2_def dest: list_all2_lengthD
              intro!: exI [of _ "fr_records w"] exI [of _ ls])
      qed
    qed
  qed
qed

end

end
