(* ===== verification/DiskReads.thy ===== *)
theory DiskReads
  imports DiskLaws
begin

text \<open>
  What a reader of a ledger may rely on, and what a loss of power leaves: a read that succeeds shows
  the live bytes and changes nothing, a read that fails may have been the loss itself, and after a loss
  both planes of every file agree and a file whose entry was never synced is gone. A calm disk is one
  on which nothing fails.
\<close>

context disk_view
begin

definition kept :: "('d \<Rightarrow> bool) \<Rightarrow> ('d \<Rightarrow> bool) \<Rightarrow> 'd \<Rightarrow> 'd \<Rightarrow> bool" where
  "kept ok calm d d' \<longleftrightarrow> ok d' \<and> (calm d \<longrightarrow> calm d') \<and> (\<forall>q. unchanged d d' q)"

definition shaken :: "('d \<Rightarrow> bool) \<Rightarrow> 'd \<Rightarrow> 'd \<Rightarrow> bool" where
  "shaken ok d d' \<longleftrightarrow> ok d' \<and> (\<forall>q. survives d d' q)"

lemma kept_shaken: "kept ok calm d d' \<Longrightarrow> shaken ok d d'"
  by (simp add: kept_def shaken_def unchanged_survives)

lemma kept_refl: "ok d \<Longrightarrow> kept ok calm d d"
  by (simp add: kept_def unchanged_def)

lemma kept_trans: "kept ok calm d d' \<Longrightarrow> kept ok calm d' d'' \<Longrightarrow> kept ok calm d d''"
  by (simp add: kept_def unchanged_def)

lemma kept_shaken_trans: "kept ok calm d d' \<Longrightarrow> shaken ok d' d'' \<Longrightarrow> shaken ok d d''"
  unfolding kept_def shaken_def using unchanged_survives survives_trans by blast

lemma kept_live: "kept ok calm d d' \<Longrightarrow> live d' = live d"
  by (simp add: kept_def unchanged_def fun_eq_iff)

lemma kept_ok: "kept ok calm d d' \<Longrightarrow> ok d' \<and> (calm d \<longrightarrow> calm d')"
  by (simp add: kept_def)

end

locale readable_disk = durable_disk live durable entered fs wf
  for live durable :: "'d \<Rightarrow> path \<Rightarrow> bytes option" and entered :: "'d \<Rightarrow> path \<Rightarrow> bool"
    and fs :: "'d vfs" and wf :: "'d \<Rightarrow> bool" +
  fixes lose :: "'d \<Rightarrow> 'd" and calm :: "'d \<Rightarrow> bool"
  assumes create_ok: "wf d \<Longrightarrow> vfs_create_dir_all fs dir d = (Inr x, d') \<Longrightarrow> kept wf calm d d'"
    and create_err: "wf d \<Longrightarrow> vfs_create_dir_all fs dir d = (Inl e, d') \<Longrightarrow> shaken wf d d' \<and> \<not> calm d"
    and list_ok: "wf d \<Longrightarrow> vfs_list fs dir d = (Inr ps, d') \<Longrightarrow>
      kept wf calm d d' \<and> sorted_wrt (<) ps \<and> set ps = {q. parent_is q dir \<and> live d q \<noteq> None}"
    and list_err: "wf d \<Longrightarrow> vfs_list fs dir d = (Inl e, d') \<Longrightarrow> shaken wf d d' \<and> \<not> calm d"
    and size_ok: "wf d \<Longrightarrow> vfs_size fs p d = (Inr n, d') \<Longrightarrow> kept wf calm d d' \<and> map_option length (live d p) = Some n"
    and size_err: "wf d \<Longrightarrow> vfs_size fs p d = (Inl e, d') \<Longrightarrow> shaken wf d d' \<and> (live d p \<noteq> None \<longrightarrow> \<not> calm d)"
    and read_at_ok: "wf d \<Longrightarrow> vfs_read_at fs p at len d = (Inr bs, d') \<Longrightarrow>
      kept wf calm d d' \<and> map_option (\<lambda>l. take len (drop at l)) (live d p) = Some bs"
    and read_at_err: "wf d \<Longrightarrow> vfs_read_at fs p at len d = (Inl e, d') \<Longrightarrow>
      shaken wf d d' \<and> (live d p \<noteq> None \<longrightarrow> \<not> calm d)"
    and lose_wf: "wf d \<Longrightarrow> wf (lose d)"
    and lose_survives: "wf d \<Longrightarrow> survives d (lose d) q"
    and lose_gone: "wf d \<Longrightarrow> \<not> entered d q \<Longrightarrow> live (lose d) q = None"
    and lose_settled: "wf d \<Longrightarrow> durable (lose d) q = live (lose d) q"
    and lose_calm: "calm d \<Longrightarrow> calm (lose d)"
    and append_calm: "calm d \<Longrightarrow> vfs_append fs p bs d = (r, d') \<Longrightarrow> is_ok r \<and> calm d'"
    and truncate_calm: "calm d \<Longrightarrow> vfs_truncate fs p n d = (r, d') \<Longrightarrow> calm d' \<and> (live d p \<noteq> None \<longrightarrow> is_ok r)"
    and sync_data_calm: "calm d \<Longrightarrow> vfs_sync_data fs p d = (r, d') \<Longrightarrow> calm d' \<and> (live d p \<noteq> None \<longrightarrow> is_ok r)"
    and sync_dir_calm: "calm d \<Longrightarrow> vfs_sync_dir fs dir d = (r, d') \<Longrightarrow> is_ok r \<and> calm d'"
    and remove_calm: "calm d \<Longrightarrow> vfs_remove_file fs p d = (r, d') \<Longrightarrow> calm d' \<and> (live d p \<noteq> None \<longrightarrow> is_ok r)"


section \<open>The power-loss adapter as such a disk\<close>

definition ff_calm :: "fault_state \<Rightarrow> bool" where
  "ff_calm st \<longleftrightarrow> cut_at_op (ff_plan st) = None \<and> cut_on_write (ff_plan st) = None"

lemma calm_charge: "ff_calm st \<Longrightarrow> charge op st = (Inr (), st\<lparr>ff_op := sat_add u64_max (ff_op st) 1\<rparr>)"
  by (simp add: charge_def ff_calm_def Let_def)

lemma charge_calm:
  assumes "charge op st = (r, st')" "ff_calm st"
  shows "ff_calm st'"
proof -
  have "st' = st\<lparr>ff_op := sat_add u64_max (ff_op st) 1\<rparr>" using assms(1) calm_charge [OF assms(2)] by simp
  then show ?thesis using assms(2) by (simp add: ff_calm_def)
qed

lemma charge_ok_kept:
  assumes "ff_wf st" "charge op st = (Inr x, st')"
  shows "ffv.kept ff_wf ff_calm st st'"
  unfolding ffv.kept_def ffv.unchanged_def same_files_views [OF charge_ok [OF assms(2)]]
  using charge_wf [OF assms] charge_calm [OF assms(2)] by simp

lemma charge_err_shaken:
  assumes "ff_wf st" "charge op st = (Inl e, st')"
  shows "ffv.shaken ff_wf st st'" "\<not> ff_calm st"
proof -
  show "ffv.shaken ff_wf st st'" using charge_err [OF assms] by (simp add: ffv.shaken_def)
  show "\<not> ff_calm st" using assms(2) calm_charge [of st op] by (metis Inl_Inr_False prod.inject)
qed

lemma kept_same_files:
  "ffv.kept ff_wf ff_calm st st' \<Longrightarrow> ff_files st'' = ff_files st' \<Longrightarrow> ff_plan st'' = ff_plan st' \<Longrightarrow>
   ffv.kept ff_wf ff_calm st st''"
  by (simp add: ffv.kept_def ffv.unchanged_def ff_wf_def ff_views ff_calm_def)

lemma shaken_same_files:
  assumes "ffv.shaken ff_wf st st'" "ff_files st'' = ff_files st"
  shows "ffv.shaken ff_wf st'' st'"
  using assms(1) unfolding ffv.shaken_def ffv.survives_def ffv.lies_def same_files_views [OF assms(2)] .

lemma ff_create_laws:
  assumes "ff_wf st"
  shows "ff_create_dir_all dir st = (Inr x, st') \<Longrightarrow> ffv.kept ff_wf ff_calm st st'"
    and "ff_create_dir_all dir st = (Inl e, st') \<Longrightarrow> ffv.shaken ff_wf st st' \<and> \<not> ff_calm st"
proof -
  define st1 where "st1 = st\<lparr>ff_dirs := bt_insert dir () (ff_dirs st)\<rparr>"
  have wf: "ff_wf st1" using assms by (simp add: st1_def ff_wf_def)
  show "ff_create_dir_all dir st = (Inr x, st') \<Longrightarrow> ffv.kept ff_wf ff_calm st st'"
    using charge_ok_kept [OF wf, of "lit ''create_dir_all''" x st']
    by (simp add: ff_create_dir_all_def st1_def ffv.kept_def ffv.unchanged_def ff_views ff_calm_def)
  show "ff_create_dir_all dir st = (Inl e, st') \<Longrightarrow> ffv.shaken ff_wf st st' \<and> \<not> ff_calm st"
    using charge_err_shaken [OF wf, of "lit ''create_dir_all''" e st'] shaken_same_files [of st1 st' st]
    by (simp add: ff_create_dir_all_def st1_def ff_calm_def)
qed

lemma ff_list_laws:
  assumes "ff_wf st"
  shows "ff_list dir st = (Inr ps, st') \<Longrightarrow>
      ffv.kept ff_wf ff_calm st st' \<and> sorted_wrt (<) ps \<and> set ps = {q. parent_is q dir \<and> ff_live st q \<noteq> None}"
    and "ff_list dir st = (Inl e, st') \<Longrightarrow> ffv.shaken ff_wf st st' \<and> \<not> ff_calm st"
proof -
  obtain r st1 where c: "charge (lit ''list'') st = (r, st1)" by fastforce
  show "ff_list dir st = (Inl e, st') \<Longrightarrow> ffv.shaken ff_wf st st' \<and> \<not> ff_calm st"
    using charge_err_shaken [OF assms, of "lit ''list''"] by (cases r) (auto simp: ff_list_def c)
  assume "ff_list dir st = (Inr ps, st')"
  then obtain x where r: "r = Inr x" and st': "st' = st1"
    and ps: "ps = sort (filter (\<lambda>p. parent_is p dir) (bt_keys (ff_files st1)))"
    by (cases r) (auto simp: ff_list_def c)
  have same: "ff_files st1 = ff_files st" using c by (simp add: r charge_ok)
  have "distinct (bt_keys (ff_files st))"
    using assms by (simp add: ff_wf_def bt_keys_def bt_wf_distinct)
  then have "sorted_wrt (<) ps" by (simp add: ps same strict_sorted_iff)
  with charge_ok_kept [OF assms c [unfolded r]]
  show "ffv.kept ff_wf ff_calm st st' \<and> sorted_wrt (<) ps \<and> set ps = {q. parent_is q dir \<and> ff_live st q \<noteq> None}"
    by (auto simp: ps same st' bt_keys_iff ff_live_def)
qed

lemma ff_size_laws:
  assumes "ff_wf st"
  shows "ff_size p st = (Inr n, st') \<Longrightarrow> ffv.kept ff_wf ff_calm st st' \<and> map_option length (ff_live st p) = Some n"
    and "ff_size p st = (Inl e, st') \<Longrightarrow> ffv.shaken ff_wf st st' \<and> (ff_live st p \<noteq> None \<longrightarrow> \<not> ff_calm st)"
proof -
  obtain r st1 where c: "charge (lit ''size'') st = (r, st1)" by fastforce
  have ok: "ffv.kept ff_wf ff_calm st st1 \<and> ff_files st1 = ff_files st" if "r = Inr x" for x
    using charge_ok_kept [OF assms c [unfolded that]] charge_ok [OF c [unfolded that]] by simp
  show "ff_size p st = (Inr n, st') \<Longrightarrow> ffv.kept ff_wf ff_calm st st' \<and> map_option length (ff_live st p) = Some n"
    using ok by (cases r; cases "bt_get (ff_files st) p") (simp_all add: ff_size_def c ff_live_def)
  show "ffv.shaken ff_wf st st' \<and> (ff_live st p \<noteq> None \<longrightarrow> \<not> ff_calm st)" if "ff_size p st = (Inl e, st')"
  proof (cases r)
    case (Inl e')
    then show ?thesis using that charge_err_shaken [OF assms c [unfolded Inl]] by (simp add: ff_size_def c)
  next
    case (Inr x)
    then show ?thesis using that ok ffv.kept_shaken
      by (cases "bt_get (ff_files st) p") (auto simp: ff_size_def c ff_live_def)
  qed
qed

lemma ff_read_at_laws:
  assumes "ff_wf st"
  shows "ff_read_at p at len st = (Inr bs, st') \<Longrightarrow>
      ffv.kept ff_wf ff_calm st st' \<and> map_option (\<lambda>l. take len (drop at l)) (ff_live st p) = Some bs"
    and "ff_read_at p at len st = (Inl e, st') \<Longrightarrow> ffv.shaken ff_wf st st' \<and> (ff_live st p \<noteq> None \<longrightarrow> \<not> ff_calm st)"
proof -
  obtain r st1 where c: "charge (lit ''read_at'') st = (r, st1)" by fastforce
  have ok: "ffv.kept ff_wf ff_calm st st1 \<and> ff_files st1 = ff_files st" if "r = Inr x" for x
    using charge_ok_kept [OF assms c [unfolded that]] charge_ok [OF c [unfolded that]] by simp
  have after: "ffv.kept ff_wf ff_calm st (counted_read bs st1)" if "ffv.kept ff_wf ff_calm st st1" for bs
    by (rule kept_same_files [OF that]) (simp_all add: counted_read_def)
  show "ff_read_at p at len st = (Inr bs, st') \<Longrightarrow>
      ffv.kept ff_wf ff_calm st st' \<and> map_option (\<lambda>l. take len (drop at l)) (ff_live st p) = Some bs"
    using ok after by (cases r; cases "bt_get (ff_files st) p") (auto simp: ff_read_at_def c ff_live_def Let_def)
  show "ffv.shaken ff_wf st st' \<and> (ff_live st p \<noteq> None \<longrightarrow> \<not> ff_calm st)" if "ff_read_at p at len st = (Inl e, st')"
  proof (cases r)
    case (Inl e')
    then show ?thesis using that charge_err_shaken [OF assms c [unfolded Inl]] by (simp add: ff_read_at_def c)
  next
    case (Inr x)
    then show ?thesis using that ok ffv.kept_shaken
      by (cases "bt_get (ff_files st) p") (auto simp: ff_read_at_def c ff_live_def Let_def)
  qed
qed

lemma power_cut_laws:
  assumes "ff_wf st"
  shows "ff_wf (power_cut st)" "ffv.survives st (power_cut st) q"
    and "\<not> ff_entered st q \<Longrightarrow> ff_live (power_cut st) q = None"
    and "ff_durable (power_cut st) q = ff_live (power_cut st) q"
  using cut_wf [OF assms] view_survives [OF assms] bt_get_cut [OF assms, of q]
  by (auto simp: power_cut_def ff_views settle_file_def Let_def split: option.splits if_splits)

lemma calm_put_file: "ff_calm (put_file p f st) = ff_calm st"
  by (simp add: put_file_def ff_calm_def)

lemma calm_charge_write:
  assumes "ff_calm st"
  shows "charge_write bs op st = (Inr (), st\<lparr>ff_op := sat_add u64_max (ff_op st) 1\<rparr>)"
  unfolding charge_write_def using calm_charge [OF assms] assms by (simp add: ff_calm_def)

lemma ff_calm_steps:
  assumes "ff_calm st"
  shows "ff_calm (power_cut st)"
    and "ff_append p bs st = (r, st') \<Longrightarrow> is_ok r \<and> ff_calm st'"
    and "ff_truncate p n st = (r, st') \<Longrightarrow> ff_calm st' \<and> (ff_live st p \<noteq> None \<longrightarrow> is_ok r)"
    and "ff_sync_data p st = (r, st') \<Longrightarrow> ff_calm st' \<and> (ff_live st p \<noteq> None \<longrightarrow> is_ok r)"
    and "ff_sync_dir dir st = (r, st') \<Longrightarrow> is_ok r \<and> ff_calm st'"
    and "ff_remove_file p st = (r, st') \<Longrightarrow> ff_calm st' \<and> (ff_live st p \<noteq> None \<longrightarrow> is_ok r)"
proof -
  show "ff_calm (power_cut st)" using assms by (simp add: power_cut_def cut_def ff_calm_def)
  have put: "ff_calm (put_file q f st)" for q f using assms by (simp add: calm_put_file)
  show "ff_append p bs st = (r, st') \<Longrightarrow> is_ok r \<and> ff_calm st'"
    using assms by (auto simp: ff_append_def Let_def calm_charge_write [OF put]) (simp add: ff_calm_def put_file_def)
  show "ff_truncate p n st = (r, st') \<Longrightarrow> ff_calm st' \<and> (ff_live st p \<noteq> None \<longrightarrow> is_ok r)"
    using assms by (cases "bt_get (ff_files st) p")
      (auto simp: ff_truncate_def ff_live_def calm_charge [OF put], simp add: ff_calm_def put_file_def)
  show "ff_sync_data p st = (r, st') \<Longrightarrow> ff_calm st' \<and> (ff_live st p \<noteq> None \<longrightarrow> is_ok r)"
    using assms by (cases "bt_get (ff_files st) p")
      (auto simp: ff_sync_data_def ff_live_def calm_charge [OF assms], simp_all add: ff_calm_def put_file_def)
  show "ff_sync_dir dir st = (r, st') \<Longrightarrow> is_ok r \<and> ff_calm st'"
    using assms by (auto simp: ff_sync_dir_def calm_charge [OF assms]) (simp add: ff_calm_def)
  have rem: "ff_calm (st\<lparr>ff_files := m\<rparr>)" for m using assms by (simp add: ff_calm_def)
  show "ff_remove_file p st = (r, st') \<Longrightarrow> ff_calm st' \<and> (ff_live st p \<noteq> None \<longrightarrow> is_ok r)"
    using assms by (cases "ff_exists p st")
      (auto simp: ff_remove_file_def ff_exists_def ff_live_def calm_charge [OF rem], simp add: ff_calm_def)
qed

interpretation ffr: readable_disk ff_live ff_durable ff_entered fault_fs ff_wf power_cut ff_calm
proof (unfold_locales, unfold fault_fs_sel)
qed (rule ff_create_laws ff_list_laws ff_size_laws ff_read_at_laws power_cut_laws ff_calm_steps, assumption+)+

end
