(* ===== verification/LedgerScans.thy ===== *)
theory LedgerScans
  imports LedgerOpening LedgerHistory DiskReads
begin

text \<open>
  The windowed readers read what the disk shows: whatever the window, a scan hands over the complete
  lines in order, the first-line reader answers the first of them and the last-line reader the last. A
  read that fails is the only other way out, and on a calm disk there is none.
\<close>

section \<open>A scan over bytes\<close>

fun visit_all :: "'s visit \<Rightarrow> bytes list \<Rightarrow> nat \<Rightarrow> 's \<Rightarrow> 's storage_result" where
  "visit_all visit [] off v = Inr v"
| "visit_all visit (l # ls) off v =
     and_then (visit l (off + length l + 1) v) (visit_all visit ls (off + length l + 1))"

definition plain :: "bytes \<Rightarrow> bool" where
  "plain bs \<longleftrightarrow> 10 \<notin> set bs \<and> 0 \<notin> set bs"

lemma scan_bytes_append:
  "scan_bytes p visit (xs @ ys) s = and_then (scan_bytes p visit xs s) (scan_bytes p visit ys)"
proof (induction xs arbitrary: s)
  case (Cons b xs)
  then show ?case by (cases "scan_byte p visit b s") auto
qed simp

lemma scan_byte_total: "scan_byte p visit b s = Inr s' \<Longrightarrow> sc_total s' = Suc (sc_total s)"
  by (auto simp: scan_byte_def Let_def result_simps split: if_splits)

lemma scan_bytes_total: "scan_bytes p visit bs s = Inr s' \<Longrightarrow> sc_total s' = sc_total s + length bs"
  by (induction bs arbitrary: s) (auto simp: result_simps dest: scan_byte_total)

lemma scan_plain:
  assumes "plain bs" "sc_zeros s = 0" "length (sc_line s) \<le> sc_total s" "sc_total s + length bs \<le> u64_max"
  shows "scan_bytes p visit bs s = Inr (s\<lparr>sc_total := sc_total s + length bs,
    sc_filled := (if bs = [] then sc_filled s else sc_total s + length bs), sc_line := sc_line s @ bs\<rparr>)"
  using assms
proof (induction bs arbitrary: s)
  case (Cons b bs)
  define s1 where "s1 = s\<lparr>sc_total := sc_total s + 1, sc_filled := sc_total s + 1, sc_line := sc_line s @ [b]\<rparr>"
  have "scan_byte p visit b s = Inr s1"
    using Cons.prems by (simp add: scan_byte_def s1_def plain_def Let_def)
  moreover have "scan_bytes p visit bs s1 = Inr (s1\<lparr>sc_total := sc_total s1 + length bs,
      sc_filled := (if bs = [] then sc_filled s1 else sc_total s1 + length bs), sc_line := sc_line s1 @ bs\<rparr>)"
    by (rule Cons.IH) (use Cons.prems in \<open>simp_all add: plain_def s1_def\<close>)
  ultimately show ?case by (simp add: s1_def)
qed simp

lemma scan_lines:
  assumes "\<forall>l \<in> set ls. plain l" "sc_zeros s = 0" "sc_line s = []" "sc_total s + length (unlines ls) \<le> u64_max"
  shows "scan_bytes p visit (unlines ls) s = and_then (visit_all visit ls (sc_total s) (sc_visitor s)) (\<lambda>v.
    Inr (s\<lparr>sc_total := sc_total s + length (unlines ls),
      sc_filled := (if ls = [] then sc_filled s else sc_total s + length (unlines ls)), sc_visitor := v\<rparr>))"
  using assms
proof (induction ls arbitrary: s)
  case (Cons l ls)
  define at_end where "at_end = sc_total s + length l + 1"
  define s1 where "s1 = s\<lparr>sc_total := sc_total s + length l,
    sc_filled := (if l = [] then sc_filled s else sc_total s + length l), sc_line := l\<rparr>"
  have one: "scan_bytes p visit l s = Inr s1"
    using scan_plain [of l s p visit] Cons.prems by (simp add: s1_def)
  have feed: "scan_byte p visit 10 s1 = and_then (visit l at_end (sc_visitor s)) (\<lambda>v.
      Inr (s\<lparr>sc_total := at_end, sc_filled := at_end, sc_line := [], sc_visitor := v\<rparr>))"
    using Cons.prems by (cases s) (simp add: scan_byte_def s1_def at_end_def Let_def)
  show ?case
  proof (cases "visit l at_end (sc_visitor s)")
    case (Inl e)
    then show ?thesis using one feed by (simp add: scan_bytes_append at_end_def)
  next
    case (Inr v)
    define s2 where "s2 = s\<lparr>sc_total := at_end, sc_filled := at_end, sc_line := [], sc_visitor := v\<rparr>"
    have rest: "scan_bytes p visit (unlines ls) s2 = and_then (visit_all visit ls (sc_total s2) (sc_visitor s2)) (\<lambda>v.
      Inr (s2\<lparr>sc_total := sc_total s2 + length (unlines ls),
        sc_filled := (if ls = [] then sc_filled s2 else sc_total s2 + length (unlines ls)), sc_visitor := v\<rparr>))"
      by (rule Cons.IH) (use Cons.prems in \<open>simp_all add: s2_def at_end_def\<close>)
    have "scan_bytes p visit (unlines (l # ls)) s = scan_bytes p visit (unlines ls) s2"
      using one feed Inr by (simp add: scan_bytes_append s2_def)
    then show ?thesis
      using Inr rest Cons.prems(3) by (cases "visit_all visit ls at_end v") (simp_all add: s2_def at_end_def ac_simps)
  qed
qed simp

text \<open>Complete lines and a torn one behind them.\<close>

lemma scan_text:
  assumes "\<forall>l \<in> set ls. plain l" "plain t" "from + length (unlines ls @ t) \<le> u64_max"
  shows "scan_bytes p visit (unlines ls @ t)
      \<lparr>sc_total = from, sc_filled = from, sc_line = [], sc_zeros = 0, sc_visitor = v\<rparr> =
    and_then (visit_all visit ls from v) (\<lambda>v. Inr \<lparr>sc_total = from + length (unlines ls @ t),
      sc_filled = from + length (unlines ls @ t), sc_line = t, sc_zeros = 0, sc_visitor = v\<rparr>)"
proof -
  define s where "s = \<lparr>sc_total = from, sc_filled = from, sc_line = [], sc_zeros = 0, sc_visitor = v\<rparr>"
  have one: "scan_bytes p visit (unlines ls) s = and_then (visit_all visit ls (sc_total s) (sc_visitor s)) (\<lambda>v.
    Inr (s\<lparr>sc_total := sc_total s + length (unlines ls),
      sc_filled := (if ls = [] then sc_filled s else sc_total s + length (unlines ls)), sc_visitor := v\<rparr>))"
    by (rule scan_lines) (use assms in \<open>simp_all add: s_def\<close>)
  show ?thesis
  proof (cases "visit_all visit ls from v")
    case (Inl e)
    then show ?thesis using one by (simp add: scan_bytes_append s_def)
  next
    case (Inr v1)
    define s1 where "s1 = s\<lparr>sc_total := from + length (unlines ls), sc_filled := from + length (unlines ls), sc_visitor := v1\<rparr>"
    have "scan_bytes p visit t s1 = Inr (s1\<lparr>sc_total := sc_total s1 + length t,
      sc_filled := (if t = [] then sc_filled s1 else sc_total s1 + length t), sc_line := sc_line s1 @ t\<rparr>)"
      by (rule scan_plain) (use assms in \<open>simp_all add: s1_def s_def\<close>)
    moreover have "scan_bytes p visit (unlines ls) s = Inr s1"
      using one Inr by (cases ls) (simp_all add: s1_def s_def)
    ultimately show ?thesis
      using Inr by (simp add: scan_bytes_append s_def [symmetric]) (simp add: s1_def s_def)
  qed
qed


section \<open>The readers on a disk\<close>

lemma last_unlines: "ls \<noteq> [] \<Longrightarrow> last (unlines ls) = 10"
  by (induction ls) (auto simp: unlines_def)

lemma first_cut: "10 \<notin> set l \<Longrightarrow> takeWhile (\<lambda>b. b \<noteq> 10) (l @ rest) = l @ takeWhile (\<lambda>b. b \<noteq> 10) (rest :: bytes)"
  by (induction l) auto

context readable_disk
begin

lemma scan_loop_any:
  assumes "wf d" "live d p = Some l" "sc_total s \<le> length l"
  shows "\<exists>r d'. scan_loop fs p visit s d = Some (r, d') \<and>
    (case r of
       Inr s' \<Rightarrow> kept wf calm d d' \<and> scan_bytes p visit (drop (sc_total s) l) s = Inr s'
     | Inl e \<Rightarrow> shaken wf d d' \<and> (\<not> calm d \<or> scan_bytes p visit (drop (sc_total s) l) s = Inl e))"
  using assms
proof (induction "length l - sc_total s" arbitrary: s d rule: less_induct)
  case less
  obtain r d1 where read: "vfs_read_at fs p (sc_total s) SCAN_WINDOW_BYTES d = (r, d1)" by fastforce
  show ?case
  proof (cases r)
    case (Inl e)
    have "shaken wf d d1 \<and> \<not> calm d" using read_at_err [OF less.prems(1) read [unfolded Inl]] less.prems(2) by auto
    then show ?thesis by (subst scan_loop.simps) (simp add: read Inl at_op_def)
  next
    case (Inr chunk)
    have k: "kept wf calm d d1" and chunk: "chunk = take SCAN_WINDOW_BYTES (drop (sc_total s) l)"
      using read_at_ok [OF less.prems(1) read [unfolded Inr]] less.prems(2) by auto
    have split: "drop (sc_total s) l = chunk @ drop (sc_total s + length chunk) l"
      using append_take_drop_id [of SCAN_WINDOW_BYTES "drop (sc_total s) l"] drop_all [of l]
      by (cases "length (drop (sc_total s) l) \<le> SCAN_WINDOW_BYTES") (auto simp: chunk add.commute)
    show ?thesis
    proof (cases "scan_bytes p visit chunk s")
      case (Inl e)
      then have "scan_bytes p visit (drop (sc_total s) l) s = Inl e" by (subst split) (simp add: scan_bytes_append)
      then show ?thesis using kept_shaken [OF k]
        by (subst scan_loop.simps) (simp add: read Inr at_op_def Inl)
    next
      case s1: (Inr s1)
      have total: "sc_total s1 = sc_total s + length chunk" by (rule scan_bytes_total [OF s1])
      have whole: "scan_bytes p visit (drop (sc_total s) l) s = scan_bytes p visit (drop (sc_total s1) l) s1"
        by (subst split) (simp add: scan_bytes_append s1 total)
      show ?thesis
      proof (cases "length chunk < SCAN_WINDOW_BYTES")
        case True
        then have "drop (sc_total s1) l = []" by (auto simp: total chunk)
        then have "scan_bytes p visit (drop (sc_total s) l) s = Inr s1" using whole by simp
        then show ?thesis using k True by (subst scan_loop.simps) (simp add: read Inr at_op_def s1)
      next
        case False
        have pos: "0 < SCAN_WINDOW_BYTES" by (simp add: SCAN_WINDOW_BYTES_def)
        have le: "sc_total s1 \<le> length l" "length l - sc_total s1 < length l - sc_total s"
          using False pos less.prems(3) by (auto simp: total chunk)
        have prem: "wf d1" "live d1 p = Some l" using k less.prems kept_live kept_ok by fastforce+
        obtain r2 d2 where rec: "scan_loop fs p visit s1 d1 = Some (r2, d2)"
          "case r2 of
             Inr s' \<Rightarrow> kept wf calm d1 d2 \<and> scan_bytes p visit (drop (sc_total s1) l) s1 = Inr s'
           | Inl e \<Rightarrow> shaken wf d1 d2 \<and> (\<not> calm d1 \<or> scan_bytes p visit (drop (sc_total s1) l) s1 = Inl e)"
          using less.hyps [OF le(2) prem le(1)] by blast
        have "scan_loop fs p visit s d = Some (r2, d2)"
          using False rec(1) by (subst scan_loop.simps) (simp add: read Inr at_op_def s1)
        then show ?thesis
          using rec(2) whole k kept_trans [OF k] kept_shaken_trans [OF k] kept_ok [OF k]
          by (cases r2) (auto simp del: scan_bytes.simps)
      qed
    qed
  qed
qed

lemma scan_any:
  assumes "wf d" "live d p = Some (before @ unlines ls @ t)" "\<forall>l \<in> set ls. plain l" "plain t"
    "length (before @ unlines ls @ t) \<le> u64_max"
  shows "\<exists>r d'. scan fs p (length before) visit v d = Some (r, d') \<and>
    (case r of
       Inr s \<Rightarrow> kept wf calm d d' \<and> sc_total s = length (before @ unlines ls @ t) \<and> sc_filled s = sc_total s \<and>
         visit_all visit ls (length before) v = Inr (sc_visitor s)
     | Inl e \<Rightarrow> shaken wf d d' \<and> (\<not> calm d \<or> visit_all visit ls (length before) v = Inl e))"
proof -
  define s where "s = \<lparr>sc_total = length before, sc_filled = length before, sc_line = [], sc_zeros = 0, sc_visitor = v\<rparr>"
  have bytes: "scan_bytes p visit (unlines ls @ t) s =
    and_then (visit_all visit ls (length before) v) (\<lambda>v. Inr \<lparr>sc_total = length before + length (unlines ls @ t),
      sc_filled = length before + length (unlines ls @ t), sc_line = t, sc_zeros = 0, sc_visitor = v\<rparr>)"
    unfolding s_def by (rule scan_text) (use assms in simp_all)
  have rest: "drop (sc_total s) (before @ unlines ls @ t) = unlines ls @ t" by (simp add: s_def)
  obtain r d' where "scan fs p (length before) visit v d = Some (r, d')"
    "case r of
       Inr s' \<Rightarrow> kept wf calm d d' \<and> scan_bytes p visit (unlines ls @ t) s = Inr s'
     | Inl e \<Rightarrow> shaken wf d d' \<and> (\<not> calm d \<or> scan_bytes p visit (unlines ls @ t) s = Inl e)"
    using scan_loop_any [OF assms(1,2), of s visit, unfolded rest] by (auto simp: scan_def s_def)
  then show ?thesis
    using bytes by (cases r; cases "visit_all visit ls (length before) v") auto
qed

text \<open>The first line, however many windows it takes.\<close>

lemma first_line_loop_any:
  assumes "wf d" "live d p = Some content" "10 \<in> set content" "content = line @ rest" "10 \<notin> set line" "0 < window"
  shows "\<exists>r d'. first_line_loop fs p line window d = Some (r, d') \<and>
    (case r of Inr x \<Rightarrow> kept wf calm d d' \<and> x = Some (takeWhile (\<lambda>b. b \<noteq> 10) content)
     | Inl e \<Rightarrow> shaken wf d d' \<and> \<not> calm d)"
  using assms
proof (induction "length rest" arbitrary: d line rest window rule: less_induct)
  case less
  obtain r d1 where read: "vfs_read_at fs p (length line) window d = (r, d1)" by fastforce
  show ?case
  proof (cases r)
    case (Inl e)
    then show ?thesis using read_at_err [OF less.prems(1) read [unfolded Inl]] less.prems(2)
      by (subst first_line_loop.simps) (auto simp: read)
  next
    case (Inr chunk)
    have k: "kept wf calm d d1" and chunk: "chunk = take window rest"
      using read_at_ok [OF less.prems(1) read [unfolded Inr]] less.prems(2,4) by auto
    have split: "rest = chunk @ drop window rest" by (simp add: chunk)
    have far: "takeWhile (\<lambda>b. b \<noteq> 10) content = line @ takeWhile (\<lambda>b. b \<noteq> 10) rest"
      using less.prems(4,5) by (simp add: first_cut)
    show ?thesis
    proof (cases "10 \<in> set chunk")
      case True
      then have "takeWhile (\<lambda>b. b \<noteq> 10) rest = takeWhile (\<lambda>b. b \<noteq> 10) chunk"
        by (subst split) (simp add: takeWhile_append1)
      then show ?thesis using True k far by (subst first_line_loop.simps) (simp add: read Inr)
    next
      case False
      have "10 \<in> set rest" using less.prems(3,4,5) by auto
      then have long: "window < length rest" using False unfolding chunk by (metis leI take_all)
      then have len: "length chunk = window" by (simp add: chunk)
      have prem: "wf d1" "live d1 p = Some content" using k less.prems kept_live kept_ok by fastforce+
      have pos: "0 < sat_mul u64_max window 2" using less.prems(6) by (simp add: sat_mul_def u_defs)
      have shorter: "length (drop window rest) < length rest" using long less.prems(6) by simp
      have cont: "content = (line @ chunk) @ drop window rest" using less.prems(4) split by simp
      obtain r2 d2 where rec: "first_line_loop fs p (line @ chunk) (sat_mul u64_max window 2) d1 = Some (r2, d2)"
        "case r2 of Inr x \<Rightarrow> kept wf calm d1 d2 \<and> x = Some (takeWhile (\<lambda>b. b \<noteq> 10) content)
         | Inl e \<Rightarrow> shaken wf d1 d2 \<and> \<not> calm d1"
        using less.hyps [OF shorter prem less.prems(3) cont _ pos] less.prems(5) False by (metis UnE set_append)
      have "first_line_loop fs p line window d = Some (r2, d2)"
        using False rec(1) len by (subst first_line_loop.simps) (simp add: read Inr)
      then show ?thesis
        using rec(2) k kept_trans [OF k] kept_shaken_trans [OF k] kept_ok [OF k] by (cases r2) auto
    qed
  qed
qed

lemma first_line_any:
  assumes "wf d" "live d p = Some (l @ 10 # rest)" "10 \<notin> set l"
  shows "\<exists>r d'. first_line fs p d = Some (r, d') \<and>
    (case r of Inr x \<Rightarrow> kept wf calm d d' \<and> x = Some l | Inl e \<Rightarrow> shaken wf d d' \<and> \<not> calm d)"
proof -
  have "takeWhile (\<lambda>b. b \<noteq> 10) (l @ 10 # rest) = l"
    using assms(3) by (simp add: first_cut)
  then show ?thesis
    unfolding first_line_def
    using first_line_loop_any [OF assms(1,2), of "[]" "l @ 10 # rest" FIRST_WINDOW_BYTES, unfolded \<open>_ = l\<close>]
    by (simp add: FIRST_WINDOW_BYTES_def)
qed

text \<open>The last line, read from the end.\<close>

lemma last_line_loop_any:
  assumes "wf d" "live d p = Some content" "content = before @ line @ [10]" "10 \<notin> set line"
    "before = [] \<or> last before = 10" "len = length content" "len \<le> u64_max" "0 < window"
  shows "\<exists>r d'. last_line_loop fs p len window d = Some (r, d') \<and>
    (case r of Inr x \<Rightarrow> kept wf calm d d' \<and> x = Some line | Inl e \<Rightarrow> shaken wf d d' \<and> \<not> calm d)"
  using assms(1,2,8)
proof (induction "len - window" arbitrary: d window rule: less_induct)
  case less
  define start where "start = len - window"
  obtain r d1 where read: "vfs_read_at fs p start (len - start) d = (r, d1)" by fastforce
  show ?case
  proof (cases r)
    case (Inl e)
    then show ?thesis using read_at_err [OF less.prems(1) read [unfolded Inl]] less.prems(2)
      by (subst last_line_loop.simps) (auto simp: read Let_def start_def [symmetric])
  next
    case (Inr tail)
    have k: "kept wf calm d d1" and tail: "tail = drop start content"
      using read_at_ok [OF less.prems(1) read [unfolded Inr]] less.prems(2) by (auto simp: assms(6))
    define body where "body = drop start (before @ line)"
    have "start \<le> length (before @ line)" using less.prems(3) by (auto simp: start_def assms(3,6))
    then have "rsplit_once 10 tail = Some (body, [])"
      by (simp add: rsplit_once_Some tail body_def assms(3))
    show ?thesis
    proof (cases "start < length before")
      case True
      define b0 where "b0 = butlast (drop start before)"
      have b0: "drop start before = b0 @ [10]"
        using True assms(5) append_butlast_last_id [of "drop start before"] by (auto simp: b0_def last_drop)
      have "rsplit_once 10 body = Some (b0, line)"
        using True assms(4) by (simp add: rsplit_once_Some body_def b0)
      then show ?thesis using k \<open>rsplit_once 10 tail = _\<close>
        by (subst last_line_loop.simps) (simp add: read Let_def start_def [symmetric] Inr)
    next
      case False
      then have "body = drop (start - length before) line" by (simp add: body_def)
      then have none: "rsplit_once 10 body = None"
        using assms(4) by (simp add: rsplit_once_None) (meson in_set_dropD)
      show ?thesis
      proof (cases "start = 0")
        case True
        then have "body = line" using False by (simp add: body_def)
        then show ?thesis using k none True \<open>rsplit_once 10 tail = _\<close>
          by (subst last_line_loop.simps) (simp add: read [unfolded True, simplified] Let_def start_def [symmetric] Inr)
      next
        case nz: False
        then have "window < len" by (simp add: start_def)
        then have grow: "window < sat_mul u64_max window 2"
          using less.prems(3) assms(7) by (simp add: sat_mul_def)
        then have less': "len - sat_mul u64_max window 2 < len - window" "0 < sat_mul u64_max window 2"
          using \<open>window < len\<close> by simp_all
        have prem: "wf d1" "live d1 p = Some content" using k less.prems kept_live kept_ok by fastforce+
        obtain r2 d2 where rec: "last_line_loop fs p len (sat_mul u64_max window 2) d1 = Some (r2, d2)"
          "case r2 of Inr x \<Rightarrow> kept wf calm d1 d2 \<and> x = Some line | Inl e \<Rightarrow> shaken wf d1 d2 \<and> \<not> calm d1"
          using less.hyps [OF less'(1) prem less'(2)] by blast
        have "last_line_loop fs p len window d = Some (r2, d2)"
          using rec(1) none nz \<open>rsplit_once 10 tail = _\<close>
          by (subst last_line_loop.simps) (simp add: read Let_def start_def [symmetric] Inr)
        then show ?thesis
          using rec(2) k kept_trans [OF k] kept_shaken_trans [OF k] kept_ok [OF k] by (cases r2) auto
      qed
    qed
  qed
qed

lemma last_line_any:
  assumes "wf d" "live d p = Some (unlines (ls @ [l]))" "10 \<notin> set l" "length (unlines (ls @ [l])) \<le> u64_max"
  shows "\<exists>r d'. last_line_of fs p (length (unlines (ls @ [l]))) d = Some (r, d') \<and>
    (case r of Inr x \<Rightarrow> kept wf calm d d' \<and> x = Some l | Inl e \<Rightarrow> shaken wf d d' \<and> \<not> calm d)"
  unfolding last_line_of_def
proof (rule last_line_loop_any [OF assms(1,2) _ assms(3) _ refl assms(4)])
  show "unlines (ls @ [l]) = unlines ls @ l @ [10]" by simp
  show "unlines ls = [] \<or> last (unlines ls) = 10" using last_unlines [of ls] by (cases "ls = []") auto
qed (simp add: BOUNDARY_WINDOW_def)

end

end
