(* ===== verification/LedgerCrashes.thy ===== *)
theory LedgerCrashes
  imports LedgerScans
begin

text \<open>
  A ledger across losses of power. What a writer was answered survives any loss, at any moment, and
  opening the ledger again finds it: the history up to the answer, perhaps some whole lines of the wave
  that was under way, and no more.
\<close>

section \<open>The order of segments\<close>

lemma digits_value_less:
  assumes "length xs = length ys" "a < b" "\<forall>x \<in> set xs. x \<le> 57" "\<forall>y \<in> set ys. 48 \<le> y \<and> y \<le> 57"
  shows "digits_value a xs < digits_value b ys"
  using assms
proof (induction xs arbitrary: a b ys)
  case (Cons x xs)
  then obtain y ys' where ys: "ys = y # ys'" by (cases ys) auto
  have "10 * a + (x - 48) < 10 * b + (y - 48)" using Cons.prems by (auto simp: ys)
  then show ?case using Cons by (auto simp: ys)
qed simp

lemma digits_value_mono:
  assumes "length xs = length ys" "\<forall>x \<in> set xs. 48 \<le> x \<and> x \<le> 57" "\<forall>y \<in> set ys. 48 \<le> y \<and> y \<le> 57" "xs < ys"
  shows "digits_value a xs < digits_value a ys"
  using assms
proof (induction xs arbitrary: a ys)
  case (Cons x xs)
  then obtain y ys' where ys: "ys = y # ys'" by (cases ys) auto
  show ?case
  proof (cases "x = y")
    case True
    then show ?thesis using Cons by (auto simp: ys)
  next
    case False
    then have "x < y" using Cons.prems(4) by (simp add: ys)
    then show ?thesis using Cons.prems by (auto simp: ys intro!: digits_value_less)
  qed
qed simp

lemma show_nat_length: "n < 10 ^ k \<Longrightarrow> 0 < k \<Longrightarrow> length (show_nat n) \<le> k"
proof (induction k arbitrary: n)
  case (Suc k)
  show ?case
  proof (cases "n < 10")
    case True
    then show ?thesis by (subst show_nat.simps) simp
  next
    case False
    then have "n div 10 < 10 ^ k" using Suc.prems by (simp add: less_mult_imp_div_less mult.commute)
    moreover have "0 < k" using False Suc.prems(1) by (cases k) auto
    ultimately have "length (show_nat (n div 10)) \<le> k" by (rule Suc.IH)
    then show ?thesis using False by (subst show_nat.simps) simp
  qed
qed simp

lemma zero_padded_length: "n \<le> u64_max \<Longrightarrow> length (zero_padded 20 n) = 20"
  using show_nat_length [of n 20] by (simp add: zero_padded_def u_defs)

lemma zero_padded_digit: "x \<in> set (zero_padded w n) \<Longrightarrow> 48 \<le> x \<and> x \<le> 57"
  using show_nat_digit by (auto simp: zero_padded_def is_ascii_digit_def split: if_splits)

lemma append_less_same: "length xs = length ys \<Longrightarrow> (xs @ zs < ys @ zs) = (xs < (ys :: 'a :: order list))"
  by (induction xs ys rule: list_induct2) auto

lemma append_less_left: "(zs @ xs < zs @ ys) = (xs < (ys :: 'a :: order list))"
  by (induction zs) auto

lemma seg_less:
  assumes "s \<le> u64_max" "t \<le> u64_max" "s < t"
  shows "seg dir s < seg dir t"
proof -
  have "zero_padded 20 s < zero_padded 20 t"
  proof (rule ccontr)
    assume not: "\<not> zero_padded 20 s < zero_padded 20 t"
    then have "zero_padded 20 t < zero_padded 20 s"
      using assms(3) zero_padded_value [of 20 s] zero_padded_value [of 20 t] by (metis linorder_neqE nat_neq_iff)
    then have "digits_value 0 (zero_padded 20 t) < digits_value 0 (zero_padded 20 s)"
      by (intro digits_value_mono) (use assms in \<open>auto simp: zero_padded_length dest: zero_padded_digit\<close>)
    then show False using assms(3) by (simp add: zero_padded_value)
  qed
  then have "segment_file_name (Seq s) < segment_file_name (Seq t)"
    using assms by (simp add: segment_file_name_def append_less_left append_less_same zero_padded_length)
  then show ?thesis by (simp add: append_less_left)
qed

lemma segs_sorted:
  assumes "sorted_wrt (<) (map fst segs)" "\<forall>x \<in> set segs. fst x \<le> u64_max"
  shows "sorted_wrt (<) (map (\<lambda>x. seg dir (fst x)) segs)"
  using assms by (induction segs) (auto intro!: seg_less)


section \<open>Lines and torn lines\<close>

lemma prefix_unlines:
  assumes "bs @ rest = unlines hs @ t" "10 \<notin> set t" "\<forall>l \<in> set hs. 10 \<notin> set l"
  shows "\<exists>h1 h2 t1. hs = h1 @ h2 \<and> bs = unlines h1 @ t1 \<and> 10 \<notin> set t1 \<and> t1 @ rest = unlines h2 @ t"
  using assms(1,3)
proof (induction hs arbitrary: bs)
  case Nil
  then have "10 \<notin> set bs" using assms(2) by (metis Un_iff append_Nil set_append unlines_simps(1))
  with Nil show ?case by (intro exI [of _ "[]"] exI [of _ bs]) auto
next
  case (Cons l hs)
  have eq: "bs @ rest = l @ 10 # unlines hs @ t" using Cons.prems(1) by simp
  show ?case
  proof (cases "length bs \<le> length l")
    case True
    then have "bs = take (length bs) l" using eq by (metis append_eq_append_conv_if append_eq_conv_conj)
    then have "10 \<notin> set bs" using Cons.prems(2) by (metis in_set_takeD list.set_intros(1))
    with Cons.prems(1) show ?thesis by (intro exI [of _ "[]"] exI [of _ "l # hs"] exI [of _ bs]) auto
  next
    case False
    then obtain us where us: "bs = l @ us" "us @ rest = 10 # unlines hs @ t" "us \<noteq> []"
      using eq by (auto simp: append_eq_append_conv2)
    then obtain bs' where bs: "bs = l @ 10 # bs'" "bs' @ rest = unlines hs @ t" by (cases us) auto
    from Cons.IH [OF bs(2)] Cons.prems(2) obtain h1 h2 t1 where
      "hs = h1 @ h2" "bs' = unlines h1 @ t1" "10 \<notin> set t1" "t1 @ rest = unlines h2 @ t" by auto
    then show ?thesis by (intro exI [of _ "l # h1"] exI [of _ h2] exI [of _ t1]) (simp add: bs)
  qed
qed

text \<open>Segments of whole lines are the lines of the history, cut between lines.\<close>

lemma split_segs:
  assumes "concat (map snd segs) = unlines hs" "\<forall>x \<in> set segs. snd x \<noteq> [] \<and> last (snd x) = 10"
    "\<forall>l \<in> set hs. 10 \<notin> set l"
  shows "\<exists>lss. concat lss = hs \<and> map snd segs = map unlines lss \<and> [] \<notin> set lss"
  using assms
proof (induction segs arbitrary: hs)
  case Nil
  then have "hs = []" by (cases hs) auto
  then show ?case by (intro exI [of _ "[]"]) simp
next
  case (Cons x segs)
  obtain h1 h2 t1 where h: "hs = h1 @ h2" "snd x = unlines h1 @ t1" "10 \<notin> set t1"
    "t1 @ concat (map snd segs) = unlines h2"
    using prefix_unlines [of "snd x" "concat (map snd segs)" hs "[]"] Cons.prems(1,3) by auto
  have x: "snd x \<noteq> []" "last (snd x) = 10" using Cons.prems(2) by auto
  have t1: "t1 = []"
  proof (rule ccontr)
    assume ne: "t1 \<noteq> []"
    then have "last t1 = 10" using x(2) by (simp add: h(2))
    then show False using h(3) last_in_set [OF ne] by simp
  qed
  obtain lss where "concat lss = h2" "map snd segs = map unlines lss" "[] \<notin> set lss"
    using Cons.IH [of h2] Cons.prems(2,3) h(1,4) t1 by auto
  then show ?case using h(1,2) x(1) t1 by (intro exI [of _ "h1 # lss"]) auto
qed

lemma read_chain_bound:
  "read_chain c ls chk = Inr chk' \<Longrightarrow> seq_value (lc_expected chk) \<le> u64_max \<Longrightarrow> seq_value (lc_expected chk') \<le> u64_max"
proof (induction ls arbitrary: chk)
  case (Cons l ls)
  then show ?case by (auto simp: result_simps advance_Inr)
qed simp

definition written_lines :: "codec \<Rightarrow> bytes list \<Rightarrow> bool" where
  "written_lines c ls \<longleftrightarrow> (\<forall>l \<in> set ls. \<exists>r. write_record c r = Inr l)"

lemma written_plain: "reads_back c \<Longrightarrow> written_lines c ls \<Longrightarrow> l \<in> set ls \<Longrightarrow> plain l"
  unfolding written_lines_def reads_back_def plain_def by blast

definition position :: "'d jsonl_ledger \<Rightarrow> line_check" where
  "position L = \<lparr>lc_prev = jl_prev L, lc_expected = jl_next_seq L\<rparr>"

text \<open>Bytes behind the last segment of a layout.\<close>

definition behind :: "(nat \<times> bytes) list \<Rightarrow> bytes \<Rightarrow> (nat \<times> bytes) list" where
  "behind segs t = (if t = [] then segs else butlast segs @ [(fst (last segs), snd (last segs) @ t)])"

lemma behind_snoc: "behind (xs @ [x]) t = xs @ [(fst x, snd x @ t)]"
  by (simp add: behind_def)

lemma fst_behind: "segs \<noteq> [] \<or> t = [] \<Longrightarrow> map fst (behind segs t) = map fst segs"
  by (cases segs rule: rev_cases) (simp_all add: behind_def)

lemma seg_images:
  fixes A B :: "(nat \<times> 'b) set"
  assumes "fst ` A = fst ` B"
  shows "(\<lambda>x. seg dir (fst x)) ` A = (\<lambda>x. seg dir (fst x)) ` B"
proof -
  have "(\<lambda>x. seg dir (fst x)) ` X = seg dir ` (fst ` X)" for X :: "(nat \<times> 'b) set" by (simp add: image_image)
  then show ?thesis using assms by metis
qed

lemma framed_written:
  assumes "framed c a ls ws w"
  shows "written_lines c ls"
proof -
  have "list_all2 (\<lambda>r l. write_record c r = Inr l) (fr_records w) ls" using assms by (simp add: framed_def)
  then show ?thesis unfolding written_lines_def by (induction rule: list_all2_induct) auto
qed

lemma placed_extend:
  assumes placed: "placed c hs segs L" and ne: "segs \<noteq> [] \<or> ls = []" and written: "written_lines c ls"
    and chain: "read_chain c ls (position L) = Inr chk" and len: "jl_seg_len L + length (unlines ls) \<le> u64_max"
  shows "placed c (hs @ ls) (behind segs (unlines ls))
    (L\<lparr>jl_seg_len := jl_seg_len L + length (unlines ls), jl_prev := lc_prev chk, jl_next_seq := lc_expected chk\<rparr>)"
proof (cases "ls = []")
  case True
  then show ?thesis using placed chain by (auto simp: behind_def position_def placed_def)
next
  case False
  then obtain xs x where segs: "segs = xs @ [x]" using ne by (metis rev_exhaust)
  have later: "seq_value (jl_next_seq L) \<le> seq_value (lc_expected chk)"
    using read_chain_expected [OF chain] by (simp add: position_def)
  have "last (unlines ls) = 10" using False by (rule last_unlines)
  moreover have "unlines ls \<noteq> []" using False by (cases ls) auto
  moreover have "read_chain c (hs @ ls) at_genesis = Inr \<lparr>lc_prev = lc_prev chk, lc_expected = lc_expected chk\<rparr>"
    using placed chain by (simp add: placed_def read_chain_append position_def)
  moreover have "fst y < seq_value (lc_expected chk)" if "y \<in> set segs" for y
    using placed later that by (fastforce simp: placed_def)
  ultimately show ?thesis
    using placed written len by (auto simp: placed_def segs behind_snoc written_lines_def)
qed

lemma placed_lines:
  assumes codec: "reads_back c" and placed: "placed c hs segs L"
  shows "\<exists>lss. concat lss = hs \<and> map snd segs = map unlines lss \<and> [] \<notin> set lss"
proof (rule split_segs)
  show "concat (map snd segs) = unlines hs" "\<forall>x \<in> set segs. snd x \<noteq> [] \<and> last (snd x) = 10"
    using placed by (auto simp: placed_def)
  have "written_lines c hs" using placed by (simp add: placed_def written_lines_def)
  then show "\<forall>l \<in> set hs. 10 \<notin> set l" using written_plain [OF codec] by (auto simp: plain_def)
qed

lemma placed_bounds:
  assumes "placed c hs segs L"
  shows "\<forall>x \<in> set segs. fst x \<le> u64_max" "sorted_wrt (<) (map fst segs)" "written_lines c hs"
proof -
  have "seq_value (jl_next_seq L) \<le> u64_max"
    using assms read_chain_bound [of c hs at_genesis] by (auto simp: placed_def at_genesis_def seq_FIRST_def)
  then show "\<forall>x \<in> set segs. fst x \<le> u64_max" using assms by (auto simp: placed_def)
  show "sorted_wrt (<) (map fst segs)" "written_lines c hs" using assms by (simp_all add: placed_def written_lines_def)
qed


section \<open>What a disk still holds\<close>

context readable_disk
begin

text \<open>The disk is on its way from the history \<open>hs\<close> to more of it: the last segment lies between its
  bytes and those with \<open>new\<close> behind them, every other one rests, and nothing else would survive.\<close>

definition wavering :: "codec \<Rightarrow> path \<Rightarrow> bytes list \<Rightarrow> 'd \<Rightarrow> bool" where
  "wavering c dir hs d \<longleftrightarrow> wf d \<and> (\<exists>segs (L :: 'd jsonl_ledger) ls t chk.
     placed c hs segs L \<and> jl_dir L = dir \<and> (segs \<noteq> [] \<or> unlines ls @ t = []) \<and>
     plain t \<and> written_lines c ls \<and> read_chain c ls (position L) = Inr chk \<and>
     jl_seg_len L + length (unlines ls @ t) \<le> u64_max \<and>
     (\<forall>x \<in> set segs. lies d (seg dir (fst x)) (snd x) (snd x @ (if x = last segs then unlines ls @ t else []))) \<and>
     (\<forall>q. in_dir dir q \<and> entered d q \<longrightarrow> q \<in> (\<lambda>x. seg dir (fst x)) ` set segs))"

text \<open>The disk rests on the history \<open>hs\<close>, with the torn line \<open>t\<close> behind it.\<close>

definition resting :: "codec \<Rightarrow> path \<Rightarrow> bytes list \<Rightarrow> bytes \<Rightarrow> 'd \<Rightarrow> bool" where
  "resting c dir hs t d \<longleftrightarrow> wf d \<and> plain t \<and> (\<exists>segs (L :: 'd jsonl_ledger).
     placed c hs segs L \<and> jl_dir L = dir \<and> (segs \<noteq> [] \<or> t = []) \<and> jl_seg_len L + length t \<le> u64_max \<and>
     laid d dir (behind segs t))"

lemma laid_shaken:
  assumes "laid d dir segs" "shaken wf d d'"
  shows "laid d' dir segs"
proof -
  have sur: "survives d d' q" for q using assms(2) by (simp add: shaken_def)
  have "rests d' (seg dir (fst x)) (snd x)" if "x \<in> set segs" for x
    using assms(1) that lies_survives [OF sur] by (auto simp: laid_def rests_def)
  moreover have "live d q \<noteq> None" if "live d' q \<noteq> None" for q
    using absent_survives [OF sur, of q] that by auto
  ultimately show ?thesis using assms(1) by (auto simp: laid_def)
qed

lemma resting_shaken: "resting c dir hs t d \<Longrightarrow> shaken wf d d' \<Longrightarrow> resting c dir hs t d'"
  unfolding resting_def using laid_shaken shaken_def by blast

lemma wavering_lost:
  assumes codec: "reads_back c" and wav: "wavering c dir hs d"
  shows "\<exists>taken t. resting c dir (hs @ taken) t (lose d)"
proof -
  obtain segs and L :: "'d jsonl_ledger" and ls t chk where wf: "wf d" and placed: "placed c hs segs L" and dir: "jl_dir L = dir"
    and ne: "segs \<noteq> [] \<or> unlines ls @ t = []" and t: "plain t" and written: "written_lines c ls"
    and chain: "read_chain c ls (position L) = Inr chk" and len: "jl_seg_len L + length (unlines ls @ t) \<le> u64_max"
    and lies: "\<And>x. x \<in> set segs \<Longrightarrow>
      lies d (seg dir (fst x)) (snd x) (snd x @ (if x = last segs then unlines ls @ t else []))"
    and own: "\<And>q. in_dir dir q \<Longrightarrow> entered d q \<Longrightarrow> q \<in> (\<lambda>x. seg dir (fst x)) ` set segs"
    using wav unfolding wavering_def by blast
  have wf': "wf (lose d)" by (rule lose_wf [OF wf])
  have lies': "lies (lose d) (seg dir (fst x)) (snd x) (snd x @ (if x = last segs then unlines ls @ t else []))"
    if "x \<in> set segs" for x
    by (rule lies_survives [OF lose_survives [OF wf] lies [OF that]])
  have own': "q \<in> (\<lambda>x. seg dir (fst x)) ` set segs" if "in_dir dir q" "live (lose d) q \<noteq> None" for q
    using own [OF that(1)] lose_gone [OF wf, of q] that(2) by auto
  show ?thesis
  proof (cases "segs = []")
    case True
    then have "live (lose d) q = None" if "in_dir dir q" for q using own' [OF that] by force
    then have "laid (lose d) dir (behind segs [])" using True by (auto simp: laid_def behind_def)
    moreover have "jl_seg_len L + length ([] :: bytes) \<le> u64_max" using len by simp
    ultimately have "resting c dir hs [] (lose d)"
      using wf' placed dir unfolding resting_def by (auto simp: plain_def)
    then show ?thesis by (metis append_Nil2)
  next
    case False
    define f old where "f = fst (last segs)" and "old = snd (last segs)"
    have lastp: "last segs = (f, old)" by (simp add: f_def old_def)
    have mem: "last segs \<in> set segs" using False by simp
    obtain u where u: "live (lose d) (seg dir f) = Some (old @ u)" "prefix u (unlines ls @ t)" "entered (lose d) (seg dir f)"
      using lies' [OF mem] by (auto simp: lies_def lastp prefix_def)
    then obtain rest where "u @ rest = unlines ls @ t" by (auto simp: prefix_def)
    moreover have "\<forall>l \<in> set ls. 10 \<notin> set l" using written_plain [OF codec written] by (auto simp: plain_def)
    ultimately obtain h1 h2 t1 where h: "ls = h1 @ h2" "u = unlines h1 @ t1" "10 \<notin> set t1" "t1 @ rest = unlines h2 @ t"
      using prefix_unlines t unfolding plain_def by metis
    have "0 \<notin> set (unlines h2 @ t)"
      using written_plain [OF codec written] t by (auto simp: plain_def unlines_def h(1))
    then have t1: "plain t1" using h(3) unfolding h(4) [symmetric] by (simp add: plain_def)
    have w1: "written_lines c h1" using written by (simp add: written_lines_def h(1))
    obtain chk1 where chain1: "read_chain c h1 (position L) = Inr chk1"
      using chain by (auto simp: h(1) read_chain_append result_simps)
    have lu: "length u \<le> length (unlines ls @ t)" using u(2) by (rule prefix_length_le)
    define L1 where "L1 = L\<lparr>jl_seg_len := jl_seg_len L + length (unlines h1), jl_prev := lc_prev chk1, jl_next_seq := lc_expected chk1\<rparr>"
    have p1: "placed c (hs @ h1) (behind segs (unlines h1)) L1"
      unfolding L1_def by (rule placed_extend [OF placed _ w1 chain1]) (use False lu len h(2) in auto)
    have beh: "behind (behind segs (unlines h1)) t1 = behind segs u"
      using False by (auto simp: behind_def h(2))
    have "laid (lose d) dir (behind segs u)"
    proof -
      have rest_at: "rests (lose d) (seg dir (fst x)) (snd x)" if "x \<in> set (behind segs u)" for x
      proof (cases "x = (f, old @ u)")
        case True
        then show ?thesis using u lose_settled [OF wf] by (simp add: rests_iff)
      next
        case xn: False
        have "distinct segs" using placed by (auto simp: placed_def strict_sorted_iff distinct_map)
        then have "distinct (butlast segs @ [last segs])" using False by simp
        then have "x \<in> set segs \<and> x \<noteq> last segs"
          using that xn lastp False by (cases "u = []") (auto simp: behind_def dest: in_set_butlastD)
        then show ?thesis using lies' [of x] by (simp add: rests_def)
      qed
      have "fst ` set (behind segs u) = fst ` set segs"
        using fst_behind [of segs u] False by (metis list.set_map)
      then have same: "(\<lambda>x. seg dir (fst x)) ` set (behind segs u) = (\<lambda>x. seg dir (fst x)) ` set segs"
        by (rule seg_images)
      show ?thesis unfolding laid_def same using rest_at own' by (intro conjI ballI allI impI) auto
    qed
    then have "laid (lose d) dir (behind (behind segs (unlines h1)) t1)" by (simp add: beh)
    moreover have "jl_seg_len L1 + length t1 \<le> u64_max" using lu len by (simp add: L1_def h(2))
    moreover have "behind segs (unlines h1) \<noteq> []" using False by (simp add: behind_def)
    ultimately have "resting c dir (hs @ h1) t1 (lose d)"
      using wf' t1 p1 dir unfolding resting_def by (intro conjI exI [of _ "behind segs (unlines h1)"] exI [of _ L1]) (auto simp: L1_def)
    then show ?thesis by blast
  qed
qed

lemma laid_wavering:
  fixes L :: "'d jsonl_ledger"
  assumes wf: "wf d" and placed: "placed c hs segs L" and dir: "jl_dir L = dir" and laid: "laid d dir segs"
  shows "wavering c dir hs d"
proof -
  have "jl_seg_len L \<le> u64_max" using placed by (auto simp: placed_def)
  moreover have "q \<in> (\<lambda>x. seg dir (fst x)) ` set segs" if "in_dir dir q" "entered d q" for q
    using laid that entered_live [OF that(2)] by (auto simp: laid_def)
  moreover have "lies d (seg dir (fst x)) (snd x) (snd x)" if "x \<in> set segs" for x
    using laid that by (simp add: laid_def rests_def)
  ultimately show ?thesis
    unfolding wavering_def using wf placed dir
    by (intro conjI exI [of _ segs] exI [of _ L] exI [of _ "[]"] exI [of _ "position L"])
      (auto simp: plain_def written_lines_def)
qed

lemma grow_last:
  assumes placed: "placed c hs segs L" and framed: "framed c (start_of segs L) ls ws w" and ne: "segs \<noteq> []"
  shows "\<exists>rest. grow ws (fst (last segs)) @ rest = unlines ls"
    and "jl_seg_len L + length (grow ws (fst (last segs))) \<le> u64_max"
proof -
  let ?f = "fst (last segs)"
  have s: "sorted_wrt (<) (map fst ws)" "distinct (map fst ws)" using wave_sorted [OF framed] by auto
  have whole: "concat (map snd ws) = unlines ls" using framed by (simp add: framed_def)
  have len: "jl_seg_len L \<le> u64_max" using placed by (auto simp: placed_def)
  show "\<exists>rest. grow ws ?f @ rest = unlines ls"
  proof (cases "?f \<in> fst ` set ws")
    case False
    then show ?thesis by (simp add: grow_none)
  next
    case True
    then obtain y where y: "y \<in> set ws" "fst y = ?f" by auto
    have low: "?f \<le> fst x" if "x \<in> set ws" for x
    proof -
      have "fst x = ?f \<or> seq_value (jl_next_seq L) \<le> fst x"
        using framed that ne by (auto simp: framed_def)
      then show ?thesis using placed_last(1) [OF placed ne] by auto
    qed
    obtain z ws' where ws: "ws = z # ws'" using y(1) by (cases ws) auto
    have "fst z = ?f" using s(1) low [of z] y by (auto simp: ws)
    then have "grow ws ?f = snd z" using grow_mem [OF s(2), of z] by (simp add: ws)
    then show ?thesis using whole by (auto simp: ws)
  qed
  show "jl_seg_len L + length (grow ws ?f) \<le> u64_max"
  proof (cases "?f \<in> fst ` set ws")
    case False
    then show ?thesis using len by (simp add: grow_none)
  next
    case True
    then obtain y where y: "y \<in> set ws" "fst y = ?f" by auto
    then show ?thesis using grow_mem [OF s(2) y(1)] framed ne by (fastforce simp: framed_def)
  qed
qed

lemma holds_wavering:
  assumes codec: "reads_back c" and holds: "holds c hs L"
  shows "wavering c (jl_dir L) hs (jl_disk L)"
proof (cases "jl_pending_unwind L")
  case None
  then show ?thesis using holds laid_wavering by (auto simp: holds_def)
next
  case (Some created)
  let ?d = "jl_disk L" and ?dir = "jl_dir L"
  obtain segs ls ws w where wf: "wf ?d" and placed: "placed c hs segs L"
    and framed: "framed c (start_of segs L) ls ws w" and mid: "midwave ?d ?dir segs ws"
    using holds by (auto simp: holds_def Some)
  have own: "q \<in> (\<lambda>x. seg ?dir (fst x)) ` set segs" if "in_dir ?dir q" "entered ?d q" for q
  proof -
    have "q \<in> (\<lambda>x. seg ?dir (fst x)) ` (set segs \<union> set ws)"
      using mid that entered_live [OF that(2)] unfolding midwave_def by blast
    then obtain x where x: "x \<in> set segs \<union> set ws" "q = seg ?dir (fst x)" by blast
    have "x \<notin> set (fresh_in segs ws)" using mid that(2) x(2) unfolding midwave_def by blast
    then have "fst x \<in> fst ` set segs" using x(1) by (auto simp: fresh_in_def)
    then show ?thesis by (simp only: x(2) seg_image)
  qed
  have lies: "lies ?d (seg ?dir (fst x)) (snd x) (snd x @ grow ws (fst x))" if "x \<in> set segs" for x
    using mid that by (auto simp: midwave_def)
  have still: "grow ws (fst x) = []" if "x \<in> set segs" "x \<noteq> last segs" for x
    using wave_still [OF placed framed] that by blast
  define new where "new = (if segs = [] then [] else grow ws (fst (last segs)))"
  obtain rest where "new @ rest = unlines ls @ []"
    using grow_last(1) [OF placed framed] by (cases "segs = []") (auto simp: new_def)
  moreover have written: "written_lines c ls"
    by (rule framed_written [OF framed])
  moreover have "\<forall>l \<in> set ls. 10 \<notin> set l" using written_plain [OF codec written] by (auto simp: plain_def)
  ultimately obtain h1 h2 t where h: "ls = h1 @ h2" "new = unlines h1 @ t" "10 \<notin> set t" "t @ rest = unlines h2"
    using prefix_unlines [of new rest ls "[]"] by auto
  have "0 \<notin> set (unlines h2)"
    using written_plain [OF codec written] by (auto simp: plain_def unlines_def h(1))
  then have t: "plain t" using h(3) unfolding h(4) [symmetric] by (simp add: plain_def)
  obtain chk where chain: "read_chain c h1 (position L) = Inr chk"
    using framed by (auto simp: framed_def h(1) read_chain_append result_simps position_def)
  have "jl_seg_len L + length new \<le> u64_max"
    using grow_last(2) [OF placed framed] placed by (cases "segs = []") (auto simp: new_def placed_def)
  moreover have "lies ?d (seg ?dir (fst x)) (snd x) (snd x @ (if x = last segs then unlines h1 @ t else []))"
    if "x \<in> set segs" for x
    using lies [OF that] still [OF that] that by (cases "x = last segs") (auto simp: h(2) [symmetric] new_def)
  moreover have "segs \<noteq> [] \<or> unlines h1 @ t = []" by (simp add: h(2) [symmetric] new_def)
  moreover have "written_lines c h1" using written by (simp add: written_lines_def h(1))
  ultimately show ?thesis
    unfolding wavering_def using wf placed own chain t by (metis (no_types, lifting) h(2))
qed

end

end
