(* ===== verification/LineCodecs.thy ===== *)
theory LineCodecs
  imports LedgerChains "HOL-Library.Countable"
begin

text \<open>
  A codec that keeps every law a writer relies on: each record is written as a line of its own, and read
  back from it. It shows that the laws can hold together, for a codec that writes every record and a hash
  that has no two inputs for one output.
\<close>

instance json_number :: countable by countable_datatype

instance json :: countable by countable_datatype

instance payload :: countable by countable_datatype

instance event_kind :: countable by countable_datatype

instance run :: countable by countable_datatype

instance seq :: countable by countable_datatype

instance time_ms :: countable by countable_datatype

instance b3hash :: countable by countable_datatype

instance address :: countable by countable_datatype

definition record_fields where
  "record_fields r = (r_v r, r_run r, r_seq r, r_prev r, r_t r, r_who r, r_addr r, r_kind r, r_data r, r_ig r)"

definition of_fields :: "_ \<Rightarrow> event_record" where
  "of_fields = (\<lambda>(v, ru, s, p, t, w, a, k, d, ig). \<lparr>r_v = v, r_run = ru, r_seq = s, r_prev = p, r_t = t, r_who = w, r_addr = a,
     r_kind = k, r_data = d, r_ig = ig\<rparr>)"

definition record_line :: "event_record \<Rightarrow> bytes" where
  "record_line r = [to_nat (record_fields r) + 11]"

definition line_record :: "bytes \<Rightarrow> event_record" where
  "line_record bs = of_fields (from_nat (hd bs - 11))"

definition total_codec :: codec where
  "total_codec =
     \<lparr>blake3 = (\<lambda>bs. bs), read_envelope = (\<lambda>bs. Inr (envelope_of (line_record bs))), read_record = (\<lambda>bs. Inr (line_record bs)),
      read_version = (\<lambda>bs. Some (r_v (line_record bs))), write_record = (\<lambda>r. Inr (record_line r))\<rparr>"

definition writes_all :: "codec \<Rightarrow> bool" where
  "writes_all c \<longleftrightarrow> (\<forall>r. is_ok (write_record c r))"

lemma line_record_line: "line_record (record_line r) = r"
  by (simp add: line_record_def record_line_def of_fields_def record_fields_def)

lemma total_codec_laws: "reads_back total_codec" "writes_all total_codec" "inj (blake3 total_codec)"
  by (simp_all add: reads_back_def writes_all_def total_codec_def line_record_line)
    (simp_all add: record_line_def)

text \<open>The first event of a city, and its line.\<close>

definition first_draft :: event_draft where
  "first_draft = \<lparr>d_run = run_CITY, d_t = TimeMs 1, d_who = lit ''city'', d_addr = None, d_kind = kind ''CityInitialized'',
     d_data = payload_empty, d_ig = False\<rparr>"

lemma first_draft_known: "known_draft first_draft"
  unfolding known_draft_def first_draft_def by code_simp

definition first_line_bytes :: bytes where
  "first_line_bytes = record_line (from_draft first_draft seq_FIRST GENESIS_PREV)"

lemma first_line_checks:
  "read_chain total_codec [first_line_bytes] at_genesis =
     Inr \<lparr>lc_prev = chain_hash total_codec first_line_bytes, lc_expected = Seq 1\<rparr>"
proof -
  have "write_record total_codec (from_draft first_draft seq_FIRST GENESIS_PREV) = Inr first_line_bytes"
    by (simp add: total_codec_def first_line_bytes_def)
  moreover have "seq_next seq_FIRST = Inr (Seq 1)" by (simp add: seq_next_Inr seq_FIRST_def u_defs)
  ultimately show ?thesis
    using framed_line_advances [OF total_codec_laws(1) first_draft_known] by (simp add: at_genesis_def)
qed

end
