(* ===== verification/LedgerCalm.thy ===== *)
theory LedgerCalm
  imports LedgerHistory DiskReads LineCodecs
begin

text \<open>
  On a calm disk nothing keeps a ledger from writing: a restore that is owed is finished, and the next
  wave is answered, whatever happened before.
\<close>

lemma frame_all_ok:
  assumes "writes_all c" "seq_value (fr_seq w) + length drafts \<le> u64_max"
  shows "\<exists>w'. frame_all c dir roll drafts w = Inr w'"
  using assms(2)
proof (induction drafts arbitrary: w)
  case (Cons d drafts)
  obtain line where line: "canonical_line c (from_draft d (fr_seq w) (fr_prev w)) = Inr line"
    using assms(1) unfolding writes_all_def canonical_line_Inr by (metis is_ok_def sum.case_eq_if sum.collapse(2))
  have nxt: "seq_next (fr_seq w) = Inr (Seq (Suc (seq_value (fr_seq w))))" using Cons.prems by (simp add: seq_next_Inr)
  obtain w1 where w1: "frame_draft c dir roll d w = Inr w1" "fr_seq w1 = Seq (Suc (seq_value (fr_seq w)))"
    using line nxt by (simp add: frame_draft_def Let_def)
  then show ?case using Cons.IH [of w1] Cons.prems by simp
qed simp

context readable_disk
begin

lemma appends_calm:
  assumes "wf d" "calm d"
  shows "\<exists>d'. each_step (land_write fs Grow roll created) writes d = (Inr (), d') \<and> wf d' \<and> calm d' \<and>
    (\<forall>w \<in> set writes. live d' (fst w) \<noteq> None) \<and> (\<forall>q. live d q \<noteq> None \<longrightarrow> live d' q \<noteq> None)"
  using assms
proof (induction writes arbitrary: d)
  case (Cons w writes)
  obtain p at bs where w: "w = (p, at, bs)" by (cases w)
  obtain r d1 where s: "vfs_append fs p bs d = (r, d1)" by fastforce
  obtain x where x: "r = Inr x" and calm1: "calm d1" using append_calm [OF Cons.prems(2) s] by (cases r) auto
  have wf1: "wf d1" by (rule append_wf [OF Cons.prems(1) s])
  note ok = append_ok [OF Cons.prems(1) s [unfolded x]]
  have here: "live d1 p \<noteq> None" "\<And>q. live d q \<noteq> None \<Longrightarrow> live d1 q \<noteq> None"
    using ok by (simp, metis option.distinct(1) unchanged_def)
  have step: "land_write fs Grow roll created w d = (Inr (), d1)" using s x by (simp add: land_write_def w at_op_def step_then_def)
  from Cons.IH [OF wf1 calm1] obtain d2 where "each_step (land_write fs Grow roll created) writes d1 = (Inr (), d2)" "wf d2" "calm d2"
    "\<forall>w \<in> set writes. live d2 (fst w) \<noteq> None" "\<forall>q. live d1 q \<noteq> None \<longrightarrow> live d2 q \<noteq> None" by blast
  then show ?case using here by (intro exI [of _ d2]) (auto simp: step [unfolded w] step_then_def w)
qed simp

lemma syncs_calm:
  assumes "wf d" "calm d" "\<forall>w \<in> set writes. live d (fst w) \<noteq> None"
  shows "\<exists>d'. each_step (sync_segment fs) writes d = (Inr (), d') \<and> wf d' \<and> calm d'"
  using assms
proof (induction writes arbitrary: d)
  case (Cons w writes)
  obtain r d1 where s: "vfs_sync_data fs (fst w) d = (r, d1)" by fastforce
  obtain x where x: "r = Inr x" and calm1: "calm d1"
    using sync_data_calm [OF Cons.prems(2) s] Cons.prems(3) by (cases r) auto
  have wf1: "wf d1" by (rule sync_data_wf [OF Cons.prems(1) s])
  have "live d1 q = live d q" for q
    using sync_data_ok [OF Cons.prems(1) s [unfolded x]] by (cases "q = fst w") (auto simp: unchanged_def)
  then obtain d2 where "each_step (sync_segment fs) writes d1 = (Inr (), d2)" "wf d2" "calm d2"
    using Cons.IH [OF wf1 calm1] Cons.prems(3) by auto
  moreover have "sync_segment fs w d = (Inr (), d1)" using s x by (simp add: sync_segment_def at_op_def)
  ultimately show ?case by (simp add: step_then_def)
qed simp

lemma land_calm:
  assumes "wf d" "calm d"
  shows "\<exists>d'. land fs Grow roll dir writes created d = (Inr (), d') \<and> calm d'"
proof -
  obtain d1 where a: "each_step (land_write fs Grow roll created) writes d = (Inr (), d1)" "wf d1" "calm d1"
    "\<forall>w \<in> set writes. live d1 (fst w) \<noteq> None"
    using appends_calm [OF assms] by blast
  obtain d2 where b: "each_step (sync_segment fs) writes d1 = (Inr (), d2)" "wf d2" "calm d2"
    using syncs_calm [OF a(2-4)] by blast
  obtain r d3 where c: "vfs_sync_dir fs dir d2 = (r, d3)" by fastforce
  then have "is_ok r" "calm d3" using sync_dir_calm [OF b(3) c] by auto
  then show ?thesis using a(1) b c by (cases r) (auto simp: land_def step_then_def at_op_def)
qed

lemma remove_created_calm:
  assumes "wf d" "calm d"
  shows "\<exists>b d'. remove_created fs created removed d = (Inr b, d') \<and> wf d' \<and> calm d' \<and>
    (\<forall>q. q \<notin> set created \<longrightarrow> live d' q = live d q)"
  using assms
proof (induction created arbitrary: d removed)
  case (Cons p ps)
  show ?case
  proof (cases "vfs_exists fs p d")
    case False
    then show ?thesis using Cons.IH [OF Cons.prems, of removed] by auto
  next
    case True
    obtain r d1 where s: "vfs_remove_file fs p d = (r, d1)" by fastforce
    obtain x where x: "r = Inr x" and calm1: "calm d1"
      using remove_calm [OF Cons.prems(2) s] True by (cases r) (auto simp: exists_iff)
    have wf1: "wf d1" by (rule remove_wf [OF Cons.prems(1) s])
    have same: "live d1 q = live d q" if "q \<noteq> p" for q
      using remove_ok [OF Cons.prems(1) s [unfolded x]] that by (simp add: unchanged_def)
    obtain b d2 where "remove_created fs ps True d1 = (Inr b, d2)" "wf d2" "calm d2" "\<forall>q. q \<notin> set ps \<longrightarrow> live d2 q = live d1 q"
      using Cons.IH [OF wf1 calm1, of True] by blast
    then show ?thesis using True s x same by (simp add: at_op_def step_then_def)
  qed
qed simp

lemma restore_calm:
  assumes "wf d" "calm d" "seg_path \<notin> set created \<Longrightarrow> live d seg_path \<noteq> None"
  shows "\<exists>d'. restore fs dir seg_path seg_len created d = (Inr (), d') \<and> calm d'"
proof -
  obtain b d1 where a: "remove_created fs created False d = (Inr b, d1)" "wf d1" "calm d1"
    "\<forall>q. q \<notin> set created \<longrightarrow> live d1 q = live d q"
    using remove_created_calm [OF assms(1,2)] by blast
  obtain d2 where s: "(if b then at_op (lit ''sync ledger dir'') dir (vfs_sync_dir fs dir d1) else (Inr (), d1)) = (Inr (), d2)"
    "wf d2" "calm d2" "\<And>q. live d2 q = live d1 q"
  proof (cases b)
    case True
    obtain r d2 where c: "vfs_sync_dir fs dir d1 = (r, d2)" by fastforce
    obtain x where x: "r = Inr x" "calm d2" using sync_dir_calm [OF a(3) c] by (cases r) auto
    show thesis
      using that [of d2] c x True sync_dir_wf [OF a(2) c] sync_dir_ok [OF a(2) c [unfolded x(1)]] by (simp add: at_op_def)
  next
    case False
    then show thesis using that [of d1] a by simp
  qed
  show ?thesis
  proof (cases "seg_path \<in> set created")
    case True
    then show ?thesis using a(1) s(1,3) by (simp add: restore_def step_then_def)
  next
    case False
    then have there: "live d2 seg_path \<noteq> None" using assms(3) a(4) s(4) by simp
    obtain r3 d3 where t: "vfs_truncate fs seg_path seg_len d2 = (r3, d3)" by fastforce
    obtain x3 where x3: "r3 = Inr x3" "calm d3" using truncate_calm [OF s(3) t] there by (cases r3) auto
    have "live d3 seg_path \<noteq> None" using truncate_ok [OF s(2) t [unfolded x3(1)]] by auto
    moreover obtain r4 d4 where u: "vfs_sync_data fs seg_path d3 = (r4, d4)" by fastforce
    ultimately obtain x4 where x4: "r4 = Inr x4" "calm d4" using sync_data_calm [OF x3(2) u] by (cases r4) auto
    then show ?thesis using a(1) s(1) t x3 u False by (simp add: restore_def step_then_def at_op_def)
  qed
qed

lemma finish_unwind_calm:
  assumes holds: "holds c hs L" and calm: "calm (jl_disk L)"
  shows "\<exists>L'. finish_unwind fs L = (Inr (), L') \<and> calm (jl_disk L') \<and> jl_halt L' = jl_halt L \<and> jl_next_seq L' = jl_next_seq L"
proof (cases "jl_pending_unwind L")
  case None
  then show ?thesis using calm by (simp add: finish_unwind_def)
next
  case (Some created)
  obtain segs ls ws w where wf: "wf (jl_disk L)" and placed: "placed c hs segs L"
    and framed: "framed c (start_of segs L) ls ws w" and ws: "ws \<noteq> []" and created: "created = fr_created w"
    and mid: "midwave (jl_disk L) (jl_dir L) segs ws"
    using holds by (auto simp: holds_def Some)
  have "live (jl_disk L) (jl_seg_path L) \<noteq> None" if "jl_seg_path L \<notin> set created"
  proof -
    have ne: "segs \<noteq> []" using wave_first [OF placed framed ws] that created by blast
    then have "lies (jl_disk L) (seg (jl_dir L) (fst (last segs))) (snd (last segs)) (snd (last segs) @ grow ws (fst (last segs)))"
      using mid by (simp add: midwave_def)
    then show ?thesis using placed ne by (auto simp: lies_def placed_def)
  qed
  then obtain d where "restore fs (jl_dir L) (jl_seg_path L) (jl_seg_len L) created (jl_disk L) = (Inr (), d)" "calm d"
    using restore_calm [OF wf calm] by blast
  then show ?thesis by (simp add: finish_unwind_def Some)
qed

lemma append_all_calm:
  assumes holds: "holds c hs L" and calm: "calm (jl_disk L)" and writes: "writes_all c"
    and admits: "halt_admit (jl_halt L) = Inr ()" and room: "seq_value (jl_next_seq L) + length drafts \<le> u64_max"
  shows "\<exists>refs L'. append_all fs c drafts L = (Inr refs, L') \<and> calm (jl_disk L')"
proof -
  obtain L1 where f: "finish_unwind fs L = (Inr (), L1)" "calm (jl_disk L1)" "jl_halt L1 = jl_halt L" "jl_next_seq L1 = jl_next_seq L"
    using finish_unwind_calm [OF holds calm] by blast
  have any: "holds c hs L1" "jl_pending_unwind L1 = None" using finish_unwind_any [OF holds f(1)] by auto
  then have L1: "jl_barrier L1 = BarrierWhole" "wf (jl_disk L1)" "jl_preallocation L1 = Grow"
    by (auto simp: holds_def placed_def)
  show ?thesis
  proof (cases "drafts = []")
    case True
    then show ?thesis using f L1 admits by (simp add: append_all_def step_then_def barrier_admit_def)
  next
    case False
    have "seq_value (fr_seq (framing_start fs L1)) + length drafts \<le> u64_max" using room f(4) by (simp add: framing_start_def)
    then obtain w where w: "frame_all c (jl_dir L1) (jl_roll_bytes L1) drafts (framing_start fs L1) = Inr w"
      using frame_all_ok [OF writes] by blast
    obtain d where "land fs Grow (jl_roll_bytes L1) (jl_dir L1) (fr_writes w) (fr_created w) (jl_disk L1) = (Inr (), d)" "calm d"
      using land_calm [OF L1(2) f(2)] by blast
    then show ?thesis
      using f L1 admits False w by (simp add: append_all_def step_then_def barrier_admit_def write_wave_def settle_wave_def)
  qed
qed

end

end
