(* ===== verification/LedgerReopening.thy ===== *)
theory LedgerReopening
  imports LedgerCrashes LedgerCalm
begin

text \<open>
  Opening a ledger again. The listing finds the segments in their order, the version probe and the
  boundary accept what a writer wrote, the scan of the last segment stops at the tear, the repair cuts it,
  and the writer stands at the end of the history the disk rested on. Reading the ledger then gives it back.
\<close>

section \<open>Opening\<close>

context readable_disk
begin

text \<open>What the listing of the directory finds.\<close>

lemma found_segments:
  assumes "placed c hs segs L" "laid d dir (behind segs t)" "segs \<noteq> [] \<or> t = []"
    "sorted_wrt (<) ps" "set ps = {q. parent_is q dir \<and> live d q \<noteq> None}"
  shows "filter is_segment ps = map (\<lambda>x. seg dir (fst x)) segs"
proof (rule sorted_distinct_set_unique)
  have f: "fst ` set (behind segs t) = fst ` set segs" using fst_behind [OF assms(3)] by (metis list.set_map)
  have "sorted_wrt (<) (map (\<lambda>x. seg dir (fst x)) segs)"
    using segs_sorted placed_bounds(1,2) [OF assms(1)] by blast
  then show "sorted (map (\<lambda>x. seg dir (fst x)) segs)" "distinct (map (\<lambda>x. seg dir (fst x)) segs)"
    by (simp_all only: strict_sorted_iff)
  show "sorted (filter is_segment ps)" "distinct (filter is_segment ps)"
    using assms(4) by (simp_all add: strict_sorted_iff sorted_wrt_filter)
  have there: "live d q \<noteq> None" if "q \<in> (\<lambda>x. seg dir (fst x)) ` set segs" for q
  proof -
    have "q \<in> (\<lambda>x. seg dir (fst x)) ` set (behind segs t)" using that seg_images [OF f] by blast
    then show ?thesis using assms(2) by (auto simp: laid_def rests_iff)
  qed
  have inside: "in_dir dir q" if "q \<in> (\<lambda>x. seg dir (fst x)) ` set segs" for q using that by auto
  have own: "q \<in> (\<lambda>x. seg dir (fst x)) ` set segs" if "in_dir dir q" "live d q \<noteq> None" for q
    using assms(2) that seg_images [OF f] unfolding laid_def by blast
  show "set (filter is_segment ps) = set (map (\<lambda>x. seg dir (fst x)) segs)"
  proof (rule set_eqI)
    fix q
    have "q \<in> set (filter is_segment ps) \<longleftrightarrow> in_dir dir q \<and> live d q \<noteq> None"
      by (auto simp: assms(5) in_dir_def)
    also have "\<dots> \<longleftrightarrow> q \<in> (\<lambda>x. seg dir (fst x)) ` set segs" using there inside own by blast
    finally show "q \<in> set (filter is_segment ps) \<longleftrightarrow> q \<in> set (map (\<lambda>x. seg dir (fst x)) segs)" by (simp only: set_map)
  qed
qed

end

text \<open>Checking the lines of the last segment from the state before it.\<close>

lemma recover_lines:
  assumes "read_chain c ls (rc_check v) = Inr chk" "rc_damaged v = None" "rc_valid_len v = off"
  shows "\<exists>v'. visit_all (recover_line c p) ls off v = Inr v' \<and> rc_check v' = chk \<and> rc_damaged v' = None \<and>
    rc_valid_len v' = off + length (unlines ls)"
  using assms
proof (induction ls arbitrary: v off)
  case (Cons l ls)
  obtain k chk1 where adv: "advance c l (rc_check v) = Inr (k, chk1)" and rest: "read_chain c ls chk1 = Inr chk"
    using Cons.prems(1) by (auto simp: result_simps)
  obtain v1 where "recover_line c p l (off + length l + 1) v = Inr v1" "rc_check v1 = chk1" "rc_damaged v1 = None"
    "rc_valid_len v1 = off + length l + 1"
    using Cons.prems(2) adv by (simp add: recover_line_def Let_def)
  then show ?case using Cons.IH [of v1 "off + length l + 1"] rest by (auto simp: ac_simps)
qed simp

lemma judge_advance:
  assumes "advance c l chk = Inr (k, chk')"
  shows "\<exists>j. judge c l = Inr j \<and> jd_seq j = lc_expected chk" "chain_hash c l = lc_prev chk'"
    "seq_next (lc_expected chk) = Inr (lc_expected chk')"
  using assms by (auto simp: advance_Inr judge_def seq_next_Inr)

text \<open>An append stays in its directory and leaves the halt alone.\<close>

lemma finish_unwind_same [simp]:
  "jl_dir (snd (finish_unwind fs L)) = jl_dir L" "jl_halt (snd (finish_unwind fs L)) = jl_halt L"
  by (auto simp: finish_unwind_def split: option.splits sum.splits prod.splits)

lemma write_wave_same: "write_wave fs ws created L = (r, L') \<Longrightarrow> jl_dir L' = jl_dir L \<and> jl_halt L' = jl_halt L"
  by (auto simp: write_wave_def split: sum.splits prod.splits)

lemma append_all_same:
  assumes "append_all fs c drafts L = (r, L')"
  shows "jl_dir L' = jl_dir L \<and> jl_halt L' = jl_halt L"
proof -
  obtain r1 L1 where s1: "finish_unwind fs L = (r1, L1)" by fastforce
  have d1: "jl_dir L1 = jl_dir L" "jl_halt L1 = jl_halt L" using finish_unwind_same [of fs L] by (simp_all add: s1)
  have "jl_dir L3 = jl_dir L1 \<and> jl_halt L3 = jl_halt L1"
    if "write_wave fs ws created (L1\<lparr>jl_barrier := b\<rparr>) = (r3, L3)" for ws created b r3 L3
    using write_wave_same [OF that] by simp
  then show ?thesis
    using assms s1 d1 unfolding append_all_def step_then_def settle_wave_def
    by (auto split: sum.splits prod.splits if_splits)
qed

text \<open>What is enough for an append to be answered on a calm disk.\<close>

definition fits :: "codec \<Rightarrow> bytes list \<Rightarrow> nat \<Rightarrow> bool" where
  "fits c hs n \<longleftrightarrow> writes_all c \<and> length hs + n \<le> u64_max"

lemma dropped_payload: "\<exists>data. payload_new (bt_insert (lit ''dropped_bytes'') (JNumber (PosInt n)) bt_empty) = Inr data"
  by (simp add: payload_new_def reject_floats_and_depth_def bt_empty_def)

lemma log_truncated_known: "kind ''LogTruncated'' \<in> set event_kind_ALL"
  by code_simp

lemma written_version:
  assumes "reads_back c" "write_record c r = Inr l" "advance c l chk = Inr z"
  shows "\<exists>v. read_version c l = Some v \<and> (readable_log_v v = LogCurrent \<or> readable_log_v v = LogOlder)"
proof -
  have r: "read_envelope c l = Inr (envelope_of r)" "read_version c l = Some (r_v r)"
    using assms(1,2) by (auto simp: reads_back_def)
  obtain k chk' where "z = (k, chk')" by force
  then obtain env where "readable_envelope c l = Inr env" using assms(3) by (auto simp: advance_Inr)
  then have "readable_log_v (r_v r) = LogCurrent \<or> readable_log_v (r_v r) = LogOlder"
    by (auto simp: readable_envelope_def r envelope_of_def split: log_version.splits)
  then show ?thesis using r(2) by blast
qed

lemma prior_of_last:
  assumes "distinct (map fst (xs @ [x]))"
  shows "prior_of (map (\<lambda>x. seg dir (fst x)) (xs @ [x])) (seg dir (fst x)) =
    (if xs = [] then None else Some (seg dir (fst (last xs))))"
proof -
  have "fst x \<notin> fst ` set xs" using assms by simp
  then have "\<forall>p \<in> set (map (\<lambda>x. seg dir (fst x)) xs). p \<noteq> seg dir (fst x)"
    unfolding set_map by (metis (no_types, lifting) imageE imageI seg_inject)
  then have "takeWhile (\<lambda>p. p \<noteq> seg dir (fst x)) (map (\<lambda>x. seg dir (fst x)) xs @ [seg dir (fst x)]) =
      map (\<lambda>x. seg dir (fst x)) xs"
    using takeWhile_append2 [of "map (\<lambda>x. seg dir (fst x)) xs" "\<lambda>p. p \<noteq> seg dir (fst x)"] by force
  then show ?thesis by (simp add: prior_of_def Let_def last_map)
qed

context readable_disk
begin

lemma probe_version_any:
  assumes "wf d" "live d first = Some (l @ 10 # rest)" "10 \<notin> set l" "read_version c l = Some v"
    "readable_log_v v = LogCurrent \<or> readable_log_v v = LogOlder"
  shows "\<exists>r d'. probe_version fs c (first # others) d = Some (r, d') \<and>
    (case r of Inr _ \<Rightarrow> kept wf calm d d' | Inl e \<Rightarrow> shaken wf d d' \<and> \<not> calm d)"
proof -
  obtain r d' where f: "first_line fs first d = Some (r, d')"
    "case r of Inr x \<Rightarrow> kept wf calm d d' \<and> x = Some l | Inl e \<Rightarrow> shaken wf d d' \<and> \<not> calm d"
    using first_line_any [OF assms(1-3)] by blast
  then show ?thesis using assms(4,5) by (cases r) (auto simp: probe_version_def)
qed

lemma boundary_any:
  assumes wf: "wf d" and distinct: "distinct (map fst (xs @ [x]))"
    and prior: "xs \<noteq> [] \<Longrightarrow> live d (seg dir (fst (last xs))) = Some (unlines (ls @ [l])) \<and>
      length (unlines (ls @ [l])) \<le> u64_max \<and> 10 \<notin> set l \<and> advance c l mid = Inr (k, chk)"
    and root: "xs = [] \<Longrightarrow> chk = at_genesis"
  shows "\<exists>r d'. boundary fs c (map (\<lambda>x. seg dir (fst x)) (xs @ [x])) (seg dir (fst x)) d = Some (r, d') \<and>
    (case r of
       Inr b \<Rightarrow> kept wf calm d d' \<and> \<lparr>lc_prev = tb_prev b, lc_expected = tb_next_seq b\<rparr> = chk
     | Inl e \<Rightarrow> shaken wf d d' \<and> \<not> calm d)"
proof (cases "xs = []")
  case True
  then show ?thesis using root kept_refl [where ok = wf, OF wf] prior_of_last [OF distinct, of dir]
    by (simp add: boundary_def at_genesis_def)
next
  case False
  define p where "p = seg dir (fst (last xs))"
  define n where "n = length (unlines (ls @ [l]))"
  have p: "live d p = Some (unlines (ls @ [l]))" "n \<le> u64_max" "10 \<notin> set l" and adv: "advance c l mid = Inr (k, chk)"
    using prior [OF False] by (simp_all add: p_def n_def)
  define found where "found = map (\<lambda>x. seg dir (fst x)) (xs @ [x])"
  have prior_p: "prior_of found (seg dir (fst x)) = Some p"
    unfolding found_def prior_of_last [OF distinct] using False by (simp add: p_def)
  obtain r1 d1 where s1: "vfs_size fs p d = (r1, d1)" by fastforce
  show ?thesis
  proof (cases r1)
    case (Inl e)
    then show ?thesis unfolding found_def [symmetric] using size_err [OF wf s1 [unfolded Inl]] p(1)
      by (simp add: boundary_def prior_p s1 at_op_def)
  next
    case (Inr len)
    then have k1: "kept wf calm d d1" and len: "len = n" using size_ok [OF wf s1 [unfolded Inr]] p(1) by (auto simp: n_def)
    have d1: "wf d1" "live d1 p = Some (unlines (ls @ [l]))" using k1 p(1) kept_live [OF k1] kept_ok [OF k1] by auto
    obtain r2 d2 where s2: "last_line_of fs p n d1 = Some (r2, d2)"
      "case r2 of Inr x \<Rightarrow> kept wf calm d1 d2 \<and> x = Some l | Inl e \<Rightarrow> shaken wf d1 d2 \<and> \<not> calm d1"
      using last_line_any [OF d1 p(3)] p(2) unfolding n_def by blast
    obtain j where j: "judge c l = Inr j" "jd_seq j = lc_expected mid" using judge_advance(1) [OF adv] by blast
    show ?thesis unfolding found_def [symmetric]
      using s2 kept_trans [OF k1] kept_shaken_trans [OF k1] kept_ok [OF k1] judge_advance(2,3) [OF adv]
      by (cases r2) (auto simp: boundary_def prior_p s1 at_op_def Inr len j)
  qed
qed

lemma cut_tail_any:
  assumes wf: "wf (jl_disk L)" and rests: "rests (jl_disk L) p (old @ t)" and old: "old \<noteq> []"
    and grow: "jl_preallocation L = Grow"
    and step: "cut_tail fs p (length old) (length t) (length (old @ t)) prior L = (r, L')"
  shows "wf (jl_disk L') \<and> (case r of
      Inr _ \<Rightarrow> rests (jl_disk L') p old \<and> (\<forall>q. q \<noteq> p \<longrightarrow> unchanged (jl_disk L) (jl_disk L') q) \<and>
        L' = L\<lparr>jl_disk := jl_disk L', jl_seg_path := p, jl_seg_len := length old\<rparr>
    | Inl _ \<Rightarrow> lies (jl_disk L') p old (old @ t) \<and> (\<forall>q. q \<noteq> p \<longrightarrow> survives (jl_disk L) (jl_disk L') q)) \<and>
    (calm (jl_disk L) \<longrightarrow> is_ok r \<and> calm (jl_disk L'))"
proof (cases "t = []")
  case True
  then have "r = Inr () \<and> L' = L\<lparr>jl_seg_path := p, jl_seg_len := length old\<rparr>"
    using step by (simp add: cut_tail_def grow Let_def)
  then show ?thesis using wf rests True by (simp add: unchanged_def)
next
  case False
  let ?d = "jl_disk L"
  have at_p: "live ?d p = Some (old @ t)" "durable ?d p = Some (old @ t)" "entered ?d p"
    using rests by (auto simp: rests_iff)
  have full: "lies ?d p old (old @ t)" using at_p by (simp add: lies_def)
  obtain r1 d1 where s1: "vfs_truncate fs p (length old) ?d = (r1, d1)" by fastforce
  have wf1: "wf d1" by (rule truncate_wf [OF wf s1])
  have go: "step_then (at_op (lit ''truncate segment'') p (r1, d1)) (\<lambda>_ d.
        step_then (at_op (lit ''sync segment'') p (vfs_sync_data fs p d)) (\<lambda>_ d. (Inr (), d))) = (r, jl_disk L') \<and>
      (case r of Inl _ \<Rightarrow> True | Inr _ \<Rightarrow> L' = L\<lparr>jl_disk := jl_disk L', jl_seg_path := p, jl_seg_len := length old\<rparr>)"
    using step False old s1
    by (cases r1; cases "vfs_sync_data fs p d1"; cases "fst (vfs_sync_data fs p d1)")
      (auto simp: cut_tail_def grow Let_def at_op_def step_then_def)
  show ?thesis
  proof (cases r1)
    case (Inl e)
    have "lies d1 p old (old @ t)" "\<And>q. q \<noteq> p \<Longrightarrow> survives ?d d1 q"
      using truncate_err [OF wf s1 [unfolded Inl]] full at_p(1) by auto
    moreover have "(\<exists>e. r = Inl e) \<and> jl_disk L' = d1" using go by (auto simp: Inl at_op_def step_then_def)
    moreover have "\<not> calm ?d" using truncate_calm [OF _ s1] at_p(1) by (auto simp: Inl)
    ultimately show ?thesis using wf1 by auto
  next
    case (Inr u)
    have t1: "live d1 p = Some old" "durable d1 p = Some (old @ t)" "entered d1 p" and u1: "\<And>q. q \<noteq> p \<Longrightarrow> unchanged ?d d1 q"
      using truncate_ok [OF wf s1 [unfolded Inr]] at_p by (auto simp: resize_def)
    obtain r2 d2 where s2: "vfs_sync_data fs p d1 = (r2, d2)" by fastforce
    have wf2: "wf d2" by (rule sync_data_wf [OF wf1 s2])
    show ?thesis
    proof (cases r2)
      case (Inl e)
      have "lies d1 p old (old @ t)" using t1 by (simp add: lies_def)
      then have "lies d2 p old (old @ t)" using sync_data_err [OF wf1 s2 [unfolded Inl]] lies_survives by blast
      moreover have "survives ?d d2 q" if "q \<noteq> p" for q
        using unchanged_survives [OF u1 [OF that]] sync_data_err [OF wf1 s2 [unfolded Inl]] survives_trans by blast
      moreover have "(\<exists>e. r = Inl e) \<and> jl_disk L' = d2" using go s2 by (auto simp: Inr Inl at_op_def step_then_def)
      moreover have "\<not> calm ?d"
        using truncate_calm [OF _ s1] sync_data_calm [OF _ s2] t1(1) by (auto simp: Inl)
      ultimately show ?thesis using wf2 by auto
    next
      case r2: (Inr u')
      have "rests d2 p old" using sync_data_ok [OF wf1 s2 [unfolded r2]] t1 by (simp add: rests_iff)
      moreover have "unchanged ?d d2 q" if "q \<noteq> p" for q
        using u1 [OF that] sync_data_ok [OF wf1 s2 [unfolded r2]] that by (simp add: unchanged_def)
      moreover have "r = Inr () \<and> jl_disk L' = d2" using go s2 by (auto simp: Inr r2 at_op_def step_then_def)
      moreover have "calm ?d \<longrightarrow> calm d2" using truncate_calm [OF _ s1] sync_data_calm [OF _ s2] by auto
      ultimately show ?thesis using wf2 go by auto
    qed
  qed
qed

text \<open>How a tail recovery ends.\<close>

definition recovered :: "codec \<Rightarrow> path \<Rightarrow> bytes list \<Rightarrow> 'd jsonl_ledger \<Rightarrow> 'x storage_result \<Rightarrow> 'd jsonl_ledger \<Rightarrow> bool" where
  "recovered c dir hs L0 r L' \<longleftrightarrow>
     (case r of
        Inr _ \<Rightarrow> holds c hs L' \<and> jl_dir L' = dir \<and> jl_halt L' = jl_halt L0 \<and> jl_pending_unwind L' = None
      | Inl _ \<Rightarrow> wavering c dir hs (jl_disk L'))"

text \<open>The layout of a resting disk, segment by segment.\<close>

lemma resting_layout:
  assumes codec: "reads_back c" and placed: "placed c hs (xs @ [x]) L" and laid: "laid d dir (behind (xs @ [x]) t)"
  obtains yss ys where "hs = concat yss @ ys" "ys \<noteq> []" "[] \<notin> set yss" "map snd xs = map unlines yss" "snd x = unlines ys"
    "rests d (seg dir (fst x)) (unlines ys @ t)" "\<And>y. y \<in> set xs \<Longrightarrow> rests d (seg dir (fst y)) (snd y)"
    "\<And>l. l \<in> set hs \<Longrightarrow> plain l" "distinct (map fst (xs @ [x]))"
proof -
  obtain lss where lss: "concat lss = hs" "map snd (xs @ [x]) = map unlines lss" "[] \<notin> set lss"
    using placed_lines [OF codec placed] by blast
  then obtain yss ys where split: "lss = yss @ [ys]"
    by (metis list.map_disc_iff rev_exhaust snoc_eq_iff_butlast)
  have "\<And>l. l \<in> set hs \<Longrightarrow> plain l" using written_plain [OF codec placed_bounds(3) [OF placed]] by blast
  moreover have "distinct (map fst (xs @ [x]))" using placed_bounds(2) [OF placed] by (simp only: strict_sorted_iff)
  moreover have "rests d (seg dir (fst x)) (unlines ys @ t)" "\<And>y. y \<in> set xs \<Longrightarrow> rests d (seg dir (fst y)) (snd y)"
    using laid lss(2) by (auto simp: laid_def behind_snoc split)
  ultimately show thesis using that [of yss ys] lss by (auto simp: split)
qed

lemma laid_cut:
  assumes laid: "laid d dir (behind (xs @ [x]) t)" and distinct: "distinct (map fst (xs @ [x]))"
    and cut: "rests d' (seg dir (fst x)) (snd x)" and same: "\<And>q. q \<noteq> seg dir (fst x) \<Longrightarrow> unchanged d d' q"
  shows "laid d' dir (xs @ [x])"
proof -
  have other: "seg dir (fst y) \<noteq> seg dir (fst x)" if "y \<in> set xs" for y
    using distinct that by (metis append_is_Nil_conv distinct_append imageI list.set_map map_append not_distinct_conv_prefix
        distinct.simps(2) disjoint_iff list.set_intros(1) list.simps(9) seg_inject)
  have "rests d' (seg dir (fst y)) (snd y)" if "y \<in> set (xs @ [x])" for y
    using that cut laid rests_unchanged [OF same [OF other [of y]], of "snd y"]
    by (cases "y = x") (auto simp: laid_def behind_snoc)
  moreover have "q \<in> (\<lambda>x. seg dir (fst x)) ` set (xs @ [x])" if "in_dir dir q" "live d' q \<noteq> None" for q
  proof (cases "q = seg dir (fst x)")
    case False
    then have "live d q \<noteq> None" using same [of q] that(2) by (simp add: unchanged_def)
    then have "q \<in> (\<lambda>x. seg dir (fst x)) ` set (behind (xs @ [x]) t)" using laid that(1) by (auto simp: laid_def)
    then show ?thesis by (auto simp: behind_snoc)
  qed simp
  ultimately show ?thesis by (auto simp: laid_def)
qed

text \<open>A repair that failed half way: the tear is still there, or part of it.\<close>

lemma torn_wavering:
  fixes L :: "'d jsonl_ledger"
  assumes wf: "wf d'" and placed: "placed c hs (xs @ [x]) L" and dir: "jl_dir L = dir"
    and t: "plain t" and len: "jl_seg_len L + length t \<le> u64_max" and laid: "laid d dir (behind (xs @ [x]) t)"
    and lies: "lies d' (seg dir (fst x)) (snd x) (snd x @ t)"
    and sur: "\<And>q. q \<noteq> seg dir (fst x) \<Longrightarrow> survives d d' q"
  shows "wavering c dir hs d'"
proof -
  have distinct: "distinct (map fst (xs @ [x]))" using placed_bounds(2) [OF placed] by (simp only: strict_sorted_iff)
  have li: "lies d' (seg dir (fst y)) (snd y) (snd y @ (if y = last (xs @ [x]) then unlines [] @ t else []))"
    if "y \<in> set (xs @ [x])" for y
  proof (cases "y = x")
    case True
    then show ?thesis using lies by simp
  next
    case False
    then have "y \<in> set xs" using that by auto
    have "fst x \<notin> fst ` set xs" using distinct by simp
    then have "fst y \<noteq> fst x" using \<open>y \<in> set xs\<close> by (metis imageI)
    moreover have "lies d (seg dir (fst y)) (snd y) (snd y)"
      using laid \<open>y \<in> set xs\<close> by (simp add: laid_def behind_snoc rests_def)
    ultimately show ?thesis using False lies_survives [OF sur] by simp
  qed
  have own: "q \<in> (\<lambda>x. seg dir (fst x)) ` set (xs @ [x])" if "in_dir dir q" "entered d' q" for q
  proof (cases "q = seg dir (fst x)")
    case False
    then have "live d q \<noteq> None" using absent_survives [OF sur [OF False]] entered_live [OF that(2)] by auto
    then have "q \<in> (\<lambda>x. seg dir (fst x)) ` set (behind (xs @ [x]) t)" using laid that(1) by (auto simp: laid_def)
    then show ?thesis by (auto simp: behind_snoc)
  qed simp
  show ?thesis
    unfolding wavering_def
  proof (intro conjI exI [of _ "xs @ [x]"] exI [of _ L] exI [of _ "[] :: bytes list"] exI [of _ t] exI [of _ "position L"] ballI allI impI)
    show "wf d'" "placed c hs (xs @ [x]) L" "jl_dir L = dir" "plain t" by (fact wf placed dir t)+
    show "q \<in> (\<lambda>x. seg dir (fst x)) ` set (xs @ [x])" if "in_dir dir q \<and> entered d' q" for q
      using own that by blast
    show "lies d' (seg dir (fst y)) (snd y) (snd y @ (if y = last (xs @ [x]) then unlines [] @ t else []))"
      if "y \<in> set (xs @ [x])" for y by (rule li [OF that])
  qed (use len in \<open>simp_all add: written_lines_def\<close>)
qed

lemma resting_wavering: "resting c dir hs t d \<Longrightarrow> wavering c dir hs d"
proof -
  assume rest: "resting c dir hs t d"
  then obtain segs and L :: "'d jsonl_ledger" where site: "wf d" "plain t" "placed c hs segs L" "jl_dir L = dir" "segs \<noteq> [] \<or> t = []"
    "jl_seg_len L + length t \<le> u64_max" "laid d dir (behind segs t)"
    by (auto simp: resting_def)
  show "wavering c dir hs d"
  proof (cases segs rule: rev_cases)
    case Nil
    then show ?thesis using site laid_wavering [OF site(1,3,4)] by (simp add: behind_def)
  next
    case (snoc xs x)
    have "rests d (seg dir (fst x)) (snd x @ t)" using site(7) by (auto simp: laid_def behind_snoc snoc)
    then have "lies d (seg dir (fst x)) (snd x) (snd x @ t)" by (auto simp: rests_iff lies_def)
    then show ?thesis
      using torn_wavering [OF site(1) _ site(4) site(2,6)] site(3,7) survives_refl by (simp add: snoc)
  qed
qed

lemma recover_tail_any:
  fixes L L0 :: "'d jsonl_ledger"
  assumes codec: "reads_back c" and wf: "wf (jl_disk L0)" and placed: "placed c hs (xs @ [x]) L" and dir: "jl_dir L = jl_dir L0"
    and t: "plain t" and len: "jl_seg_len L + length t \<le> u64_max" and laid: "laid (jl_disk L0) (jl_dir L0) (behind (xs @ [x]) t)"
    and ready: "jl_preallocation L0 = Grow" "jl_roll_bytes L0 < u64_max" "jl_barrier L0 = BarrierWhole" "jl_pending_unwind L0 = None"
  shows "\<exists>r L'. recover_tail fs c v (map (\<lambda>x. seg (jl_dir L0) (fst x)) (xs @ [x])) (seg (jl_dir L0) (fst x)) ProofStrict L0 = Some (r, L') \<and>
    recovered c (jl_dir L0) hs L0 r L' \<and> (calm (jl_disk L0) \<longrightarrow> is_ok r \<and> calm (jl_disk L'))"
proof -
  define d dir' p where "d = jl_disk L0" and "dir' = jl_dir L0" and "p = seg (jl_dir L0) (fst x)"
  obtain yss ys where lay: "hs = concat yss @ ys" "ys \<noteq> []" "[] \<notin> set yss" "map snd xs = map unlines yss" "snd x = unlines ys"
    "rests d p (unlines ys @ t)" "\<And>y. y \<in> set xs \<Longrightarrow> rests d (seg dir' (fst y)) (snd y)"
    "\<And>l. l \<in> set hs \<Longrightarrow> plain l" "distinct (map fst (xs @ [x]))"
    using resting_layout [OF codec placed laid] unfolding d_def dir'_def p_def by metis
  have chain: "read_chain c hs at_genesis = Inr (position L)" using placed by (simp add: placed_def position_def)
  obtain chk where chk: "read_chain c (concat yss) at_genesis = Inr chk" "read_chain c ys chk = Inr (position L)"
    using chain by (auto simp: lay(1) read_chain_append result_simps)
  have rest0: "resting c dir' hs t d"
    unfolding resting_def d_def dir'_def using wf placed dir t len laid
    by (intro conjI exI [of _ "xs @ [x]"] exI [of _ L]) auto
  have wav: "wavering c dir' hs d1" if "shaken wf d d1" for d1
    using resting_wavering resting_shaken [OF rest0 that] by blast
  obtain ls l mid k where prior: "xs \<noteq> [] \<Longrightarrow> live d (seg dir' (fst (last xs))) = Some (unlines (ls @ [l])) \<and>
      length (unlines (ls @ [l])) \<le> u64_max \<and> 10 \<notin> set l \<and> advance c l mid = Inr (k, chk)"
  proof (cases xs rule: rev_cases)
    case Nil
    then show thesis using that by simp
  next
    case (snoc xs' y)
    then obtain yss' zs where yss: "yss = yss' @ [zs]" "snd y = unlines zs" using lay(4) by (cases yss rule: rev_cases) auto
    then obtain zs' z where zs: "zs = zs' @ [z]" using lay(3) by (cases zs rule: rev_cases) auto
    obtain mid k where "advance c z mid = Inr (k, chk)"
      using chk(1) by (auto simp: yss(1) zs read_chain_append result_simps)
    moreover have "live d (seg dir' (fst y)) = Some (unlines (zs' @ [z]))"
      using lay(7) [of y] by (simp add: snoc rests_iff yss(2) zs)
    moreover have "10 \<notin> set z" using lay(8) [of z] by (simp add: lay(1) yss(1) zs plain_def)
    moreover have "length (snd y) \<le> u64_max" using placed by (simp add: placed_def snoc)
    ultimately show thesis using that [of zs' z mid k] by (simp add: snoc yss(2) zs)
  qed
  have root: "xs = [] \<Longrightarrow> chk = at_genesis" using lay(4) chk(1) by simp
  obtain r1 d1 where b: "boundary fs c (map (\<lambda>x. seg dir' (fst x)) (xs @ [x])) p d = Some (r1, d1)"
    "case r1 of
       Inr b \<Rightarrow> kept wf calm d d1 \<and> \<lparr>lc_prev = tb_prev b, lc_expected = tb_next_seq b\<rparr> = chk
     | Inl e \<Rightarrow> shaken wf d d1 \<and> \<not> calm d"
    using boundary_any [OF wf lay(9) _ root, of dir' ls l c mid k] prior unfolding d_def dir'_def p_def by blast
  show ?thesis
    unfolding p_def [symmetric] unfolding dir'_def [symmetric]
  proof (cases r1)
    case (Inl e)
    then show "\<exists>r L'. recover_tail fs c v (map (\<lambda>x. seg dir' (fst x)) (xs @ [x])) p ProofStrict L0 = Some (r, L') \<and>
      recovered c dir' hs L0 r L' \<and> (calm (jl_disk L0) \<longrightarrow> is_ok r \<and> calm (jl_disk L'))"
      using b wav by (simp add: recover_tail_def d_def [symmetric] recovered_def del: map_append)
  next
    case (Inr bound)
    have k1: "kept wf calm d d1" and entry: "\<lparr>lc_prev = tb_prev bound, lc_expected = tb_next_seq bound\<rparr> = chk"
      using b(2) Inr by auto
    define v0 where "v0 = \<lparr>rc_check = chk, rc_at = 0, rc_valid_len = 0, rc_damaged = None, rc_counted = no_count\<rparr>"
    have live1: "live d1 p = Some ([] @ unlines ys @ t)" "wf d1"
      using lay(6) kept_live [OF k1] kept_ok [OF k1] by (simp_all add: rests_iff)
    have bytes: "length ([] @ unlines ys @ t) \<le> u64_max" using placed len by (simp add: placed_def lay(5))
    have plain: "\<forall>l \<in> set ys. plain l" using lay(8) by (simp add: lay(1))
    obtain r2 d2 where sc: "scan fs p 0 (recover_line c p) v0 d1 = Some (r2, d2)"
      "case r2 of
         Inr s \<Rightarrow> kept wf calm d1 d2 \<and> sc_total s = length (unlines ys @ t) \<and> sc_filled s = sc_total s \<and>
           visit_all (recover_line c p) ys 0 v0 = Inr (sc_visitor s)
       | Inl e \<Rightarrow> shaken wf d1 d2 \<and> (\<not> calm d1 \<or> visit_all (recover_line c p) ys 0 v0 = Inl e)"
      using scan_any [OF live1(2,1) plain t bytes, of "recover_line c p" v0, unfolded list.size(3) append_Nil] by blast
    obtain v1 where v1: "visit_all (recover_line c p) ys 0 v0 = Inr v1" "rc_check v1 = position L"
      "rc_valid_len v1 = length (unlines ys)"
      using recover_lines [of c ys v0 "position L" 0 p] chk(2) by (auto simp: v0_def)
    show "\<exists>r L'. recover_tail fs c v (map (\<lambda>x. seg dir' (fst x)) (xs @ [x])) p ProofStrict L0 = Some (r, L') \<and>
      recovered c dir' hs L0 r L' \<and> (calm (jl_disk L0) \<longrightarrow> is_ok r \<and> calm (jl_disk L'))"
    proof (cases r2)
      case (Inl e)
      then have "shaken wf d d2" "\<not> calm d" using sc(2) kept_shaken_trans [OF k1] kept_ok [OF k1] v1(1) by auto
      then show ?thesis
        using b(1) sc(1) wav Inl
        by (simp add: recover_tail_def d_def [symmetric] Inr proof_start_def tail_strict_def entry v0_def recovered_def
            del: map_append)
    next
      case r2: (Inr s)
      define L2 where "L2 = L0\<lparr>jl_disk := d2\<rparr>"
      have disk2: "jl_disk L2 = d2" by (simp add: L2_def)
      define prior' where "prior' = tb_prior bound"
      obtain r3 L3 where cut: "cut_tail fs p (length (unlines ys)) (length t) (length (unlines ys @ t)) prior' L2 = (r3, L3)"
        by fastforce
      have k2: "kept wf calm d d2" using sc(2) r2 kept_trans [OF k1] by simp
      have laid2: "laid d2 dir' (behind (xs @ [x]) t)"
        using laid_shaken [OF laid] kept_shaken [OF k2] by (simp add: d_def dir'_def)
      have "rests d2 p (unlines ys @ t)" using laid2 by (auto simp: laid_def behind_snoc lay(5) p_def dir'_def)
      moreover have "unlines ys \<noteq> []" using lay(2) by (cases ys) auto
      ultimately have any: "wf (jl_disk L3) \<and> (case r3 of
          Inr _ \<Rightarrow> rests (jl_disk L3) p (unlines ys) \<and> (\<forall>q. q \<noteq> p \<longrightarrow> unchanged d2 (jl_disk L3) q) \<and>
            L3 = L2\<lparr>jl_disk := jl_disk L3, jl_seg_path := p, jl_seg_len := length (unlines ys)\<rparr>
        | Inl _ \<Rightarrow> lies (jl_disk L3) p (unlines ys) (unlines ys @ t) \<and> (\<forall>q. q \<noteq> p \<longrightarrow> survives d2 (jl_disk L3) q)) \<and>
        (calm d2 \<longrightarrow> is_ok r3 \<and> calm (jl_disk L3))"
        using cut_tail_any [of L2 p "unlines ys" t prior' r3 L3, unfolded disk2] cut kept_ok [OF k2] ready(1)
        by (simp add: L2_def)
      have result: "\<exists>cnt. recover_tail fs c v (map (\<lambda>x. seg dir' (fst x)) (xs @ [x])) p ProofStrict L0 =
        Some (step_then (r3, L3) (\<lambda>_ L'. (Inr (length t, cnt), L'\<lparr>jl_prev := lc_prev (position L), jl_next_seq := lc_expected (position L)\<rparr>)))"
        using b(1) sc v1 r2 cut
        by (simp add: recover_tail_def d_def [symmetric] Inr proof_start_def tail_strict_def entry v0_def [symmetric] Let_def
            L2_def prior'_def del: map_append) (rule exI, rule refl)
      show ?thesis
      proof (cases r3)
        case (Inl e)
        have "wavering c dir' hs (jl_disk L3)"
          by (rule torn_wavering [OF _ placed _ t len laid2])
            (use any Inl dir in \<open>auto simp: lay(5) p_def dir'_def\<close>)
        moreover have "\<not> calm d" using any Inl kept_ok [OF k2] by auto
        ultimately show ?thesis using result by (auto simp: Inl step_then_def recovered_def d_def)
      next
        case r3: (Inr u)
        define L4 where "L4 = L3\<lparr>jl_prev := lc_prev (position L), jl_next_seq := lc_expected (position L)\<rparr>"
        have after: "wf (jl_disk L3)" "rests (jl_disk L3) p (unlines ys)" "\<And>q. q \<noteq> p \<Longrightarrow> unchanged d2 (jl_disk L3) q"
          and "L3 = L2\<lparr>jl_disk := jl_disk L3, jl_seg_path := p, jl_seg_len := length (unlines ys)\<rparr>"
          and calm3: "calm d \<longrightarrow> calm (jl_disk L3)"
          using any kept_ok [OF k2] unfolding r3 sum.case by blast+
        then obtain d3 where L3: "L3 = L2\<lparr>jl_disk := d3, jl_seg_path := p, jl_seg_len := length (unlines ys)\<rparr>" by blast
        have "laid (jl_disk L3) dir' (xs @ [x])"
          by (rule laid_cut [OF laid2 lay(9)]) (use after(2,3) in \<open>auto simp: lay(5) p_def dir'_def\<close>)
        moreover have "placed c hs (xs @ [x]) L4"
          using placed ready dir by (subst (asm) placed_def, subst placed_def)
            (simp add: L4_def L3 L2_def position_def p_def lay(5))
        moreover note after(1)
        moreover have "jl_disk L4 = jl_disk L3" "jl_dir L4 = dir'" "jl_barrier L4 = BarrierWhole" "jl_pending_unwind L4 = None"
          using ready by (simp_all add: L3 L4_def L2_def dir'_def)
        ultimately have "holds c hs L4" by (auto simp: holds_def)
        then show ?thesis using result calm3 by (auto simp: r3 step_then_def L4_def L3 L2_def ready dir'_def recovered_def d_def)
      qed
    qed
  qed
qed

lemma holds_next: "holds c hs L \<Longrightarrow> seq_value (jl_next_seq L) = length hs"
  using read_chain_expected by (fastforce simp: holds_def placed_def at_genesis_def seq_FIRST_def)

lemma append_log_truncated_any:
  assumes codec: "reads_back c" and holds: "holds c hs L" and step: "append_log_truncated fs c now n L = (r, L')"
  shows "jl_dir L' = jl_dir L \<and> jl_halt L' = jl_halt L \<and>
    (\<exists>more_lines. holds c (hs @ more_lines) L' \<and> length more_lines \<le> 1) \<and>
    (is_ok r \<longrightarrow> jl_pending_unwind L' = None) \<and>
    (calm (jl_disk L) \<and> fits c hs 1 \<and> halt_admit (jl_halt L) = Inr () \<longrightarrow> is_ok r \<and> calm (jl_disk L'))"
proof -
  obtain data where data: "payload_new (bt_insert (lit ''dropped_bytes'') (JNumber (PosInt n)) bt_empty) = Inr data"
    using dropped_payload by blast
  define drafts where "drafts = [\<lparr>d_run = run_CITY, d_t = now, d_who = lit ''city'', d_addr = None, d_kind = kind ''LogTruncated'',
     d_data = data, d_ig = False\<rparr>]"
  have known: "\<forall>d \<in> set drafts. known_draft d" by (simp add: drafts_def known_draft_def log_truncated_known)
  obtain r1 L1 where s1: "append_all fs c drafts L = (r1, L1)" by fastforce
  have "L' = L1" "is_ok r = is_ok r1"
    using step s1 data by (cases r1; auto simp: append_log_truncated_def drafts_def step_then_def)+
  moreover have "(\<exists>more_lines. holds c (hs @ more_lines) L1 \<and> length more_lines \<le> 1) \<and> (is_ok r1 \<longrightarrow> jl_pending_unwind L1 = None)"
  proof (cases r1)
    case (Inl e)
    then have "holds c (hs @ []) L1" using append_all_any [OF codec known holds s1] by simp
    moreover have "length ([] :: bytes list) \<le> 1" by simp
    ultimately show ?thesis unfolding Inl is_ok_def sum.case by blast
  next
    case (Inr refs)
    then obtain rs ls where "holds c (hs @ ls) L1" "length rs = length drafts" "list_all2 (\<lambda>r l. write_record c r = Inr l) rs ls"
      "jl_pending_unwind L1 = None"
      using append_all_any [OF codec known holds s1] by auto
    moreover from this have "length ls \<le> 1" using list_all2_lengthD by (fastforce simp: drafts_def)
    ultimately show ?thesis by blast
  qed
  moreover have "is_ok r1 \<and> calm (jl_disk L1)"
    if "calm (jl_disk L)" "fits c hs 1" "halt_admit (jl_halt L) = Inr ()"
    using append_all_calm [OF holds that(1) _ that(3), of drafts] that(2) s1 holds_next [OF holds]
    by (auto simp: fits_def drafts_def)
  ultimately show ?thesis using append_all_same [OF s1] by auto
qed

lemma opening_line:
  assumes codec: "reads_back c" and placed: "placed c hs (xs @ [x]) L" and laid: "laid d dir (behind (xs @ [x]) t)"
  shows "\<exists>l rest ver. live d (hd (map (\<lambda>x. seg dir (fst x)) (xs @ [x]))) = Some (l @ 10 # rest) \<and> 10 \<notin> set l \<and>
    read_version c l = Some ver \<and> (readable_log_v ver = LogCurrent \<or> readable_log_v ver = LogOlder)"
proof -
  obtain yss ys where lay: "hs = concat yss @ ys" "ys \<noteq> []" "[] \<notin> set yss" "map snd xs = map unlines yss" "snd x = unlines ys"
    "rests d (seg dir (fst x)) (unlines ys @ t)" "\<And>y. y \<in> set xs \<Longrightarrow> rests d (seg dir (fst y)) (snd y)"
    "\<And>l. l \<in> set hs \<Longrightarrow> plain l"
    using resting_layout [OF codec placed laid] by metis
  have "\<exists>l zs rest. hs = l # zs \<and> live d (hd (map (\<lambda>x. seg dir (fst x)) (xs @ [x]))) = Some (l @ 10 # rest)"
  proof (cases xs)
    case Nil
    then have "yss = []" using lay(4) by simp
    then show ?thesis using lay(1,2,6) by (cases ys) (auto simp: Nil rests_iff)
  next
    case (Cons y xs')
    then obtain zs yss' where "yss = zs # yss'" "snd y = unlines zs" using lay(4) by (cases yss) auto
    then show ?thesis using lay(1,3) lay(7) [of y] by (cases zs) (auto simp: Cons rests_iff)
  qed
  then obtain l zs rest where l: "hs = l # zs" "live d (hd (map (\<lambda>x. seg dir (fst x)) (xs @ [x]))) = Some (l @ 10 # rest)"
    by blast
  obtain k chk where "advance c l at_genesis = Inr (k, chk)"
    using placed by (auto simp: placed_def l(1) result_simps)
  moreover obtain r where "write_record c r = Inr l" using placed_bounds(3) [OF placed] by (auto simp: written_lines_def l(1))
  ultimately obtain ver where "read_version c l = Some ver" "readable_log_v ver = LogCurrent \<or> readable_log_v ver = LogOlder"
    using written_version [OF codec] by blast
  moreover have "10 \<notin> set l" using lay(8) [of l] by (simp add: l(1) plain_def)
  ultimately show ?thesis using l(2) by blast
qed

text \<open>Opening a resting disk, whatever fails meanwhile: the ledger comes back with at least the history the
  disk rested on, or the disk still holds it.\<close>

lemma resume_any:
  fixes L L0 :: "'d jsonl_ledger"
  assumes codec: "reads_back c" and wf: "wf (jl_disk L0)" and placed: "placed c hs (xs @ [x]) L" and dir: "jl_dir L = jl_dir L0"
    and t: "plain t" and len: "jl_seg_len L + length t \<le> u64_max" and laid: "laid (jl_disk L0) (jl_dir L0) (behind (xs @ [x]) t)"
    and ready: "jl_preallocation L0 = Grow" "jl_roll_bytes L0 < u64_max" "jl_barrier L0 = BarrierWhole" "jl_pending_unwind L0 = None"
  shows "\<exists>r L'. resume fs c v (map (\<lambda>x. seg (jl_dir L0) (fst x)) (xs @ [x])) now ProofStrict L0 = Some (r, L') \<and>
    (\<exists>more_lines. recovered c (jl_dir L0) (hs @ more_lines) L0 r L' \<and> length more_lines \<le> 1) \<and>
    (calm (jl_disk L0) \<and> fits c hs 1 \<and> halt_admit (jl_halt L0) = Inr () \<longrightarrow> is_ok r \<and> calm (jl_disk L'))"
proof -
  define d dir' where "d = jl_disk L0" and "dir' = jl_dir L0"
  define found where "found = map (\<lambda>x. seg dir' (fst x)) (xs @ [x])"
  have found: "found \<noteq> []" "last found = seg dir' (fst x)" by (simp_all add: found_def)
  obtain first others where fo: "found = first # others" using found(1) by (cases found) auto
  have rest0: "resting c dir' hs t d"
    unfolding resting_def d_def dir'_def using wf placed dir t len laid
    by (intro conjI exI [of _ "xs @ [x]"] exI [of _ L]) auto
  obtain l rest ver where l: "live d first = Some (l @ 10 # rest)" "10 \<notin> set l" "read_version c l = Some ver"
    "readable_log_v ver = LogCurrent \<or> readable_log_v ver = LogOlder"
    using opening_line [OF codec placed laid] that fo unfolding found_def d_def dir'_def by (metis list.sel(1))
  obtain r1 d1 where p: "probe_version fs c found d = Some (r1, d1)"
    "case r1 of Inr _ \<Rightarrow> kept wf calm d d1 | Inl e \<Rightarrow> shaken wf d d1 \<and> \<not> calm d"
    using probe_version_any [OF _ l] wf unfolding fo d_def by blast
  show ?thesis
    unfolding dir'_def [symmetric] unfolding found_def [symmetric]
  proof (cases r1)
    case (Inl e)
    then have "wavering c dir' (hs @ []) d1" using p(2) resting_wavering [OF resting_shaken [OF rest0, of d1]] by simp
    then have "\<exists>more_lines. wavering c dir' (hs @ more_lines) d1 \<and> length more_lines \<le> 1" by fastforce
    then show "\<exists>r L'. resume fs c v found now ProofStrict L0 = Some (r, L') \<and>
      (\<exists>more_lines. recovered c dir' (hs @ more_lines) L0 r L' \<and> length more_lines \<le> 1) \<and>
    (calm (jl_disk L0) \<and> fits c hs 1 \<and> halt_admit (jl_halt L0) = Inr () \<longrightarrow> is_ok r \<and> calm (jl_disk L'))"
      using p Inl found(1) unfolding d_def by (auto simp: resume_def recovered_def)
  next
    case (Inr u)
    define L1 where "L1 = L0\<lparr>jl_disk := d1\<rparr>"
    have L1: "jl_disk L1 = d1" "jl_dir L1 = dir'" by (simp_all add: L1_def dir'_def)
    have k: "kept wf calm d d1" using p(2) Inr by simp
    have laid1: "laid (jl_disk L1) (jl_dir L1) (behind (xs @ [x]) t)"
      using laid_shaken [OF laid] kept_shaken [OF k] by (simp add: L1 d_def dir'_def)
    obtain r2 L2 where rt: "recover_tail fs c v found (last found) ProofStrict L1 = Some (r2, L2)"
      "recovered c dir' hs L1 r2 L2" "calm d1 \<longrightarrow> is_ok r2 \<and> calm (jl_disk L2)"
      using recover_tail_any [OF codec _ placed _ t len laid1, of v, unfolded L1] kept_ok [OF k] ready dir
      unfolding found(2) found_def by (auto simp: L1_def dir'_def)
    show "\<exists>r L'. resume fs c v found now ProofStrict L0 = Some (r, L') \<and>
      (\<exists>more_lines. recovered c dir' (hs @ more_lines) L0 r L' \<and> length more_lines \<le> 1) \<and>
    (calm (jl_disk L0) \<and> fits c hs 1 \<and> halt_admit (jl_halt L0) = Inr () \<longrightarrow> is_ok r \<and> calm (jl_disk L'))"
    proof (cases r2)
      case (Inl e)
      then have "wavering c dir' (hs @ []) (jl_disk L2)" using rt(2) by (simp add: recovered_def)
      then have "\<exists>more_lines. wavering c dir' (hs @ more_lines) (jl_disk L2) \<and> length more_lines \<le> 1" by fastforce
      moreover have "\<not> calm d" using rt(3) Inl kept_ok [OF k] by auto
      ultimately show ?thesis
        using p(1) rt(1) Inr Inl found(1) unfolding d_def by (auto simp: resume_def L1_def recovered_def)
    next
      case r2: (Inr dc)
      obtain dropped counted where dc: "dc = (dropped, counted)" by force
      have L2: "holds c (hs @ []) L2" "jl_dir L2 = dir'" "jl_pending_unwind L2 = None" "jl_halt L2 = jl_halt L0"
        and calm2: "calm d \<longrightarrow> calm (jl_disk L2)"
        using rt(2,3) r2 kept_ok [OF k] by (auto simp: recovered_def L1_def)
      define appends where "appends \<longleftrightarrow> dropped > 0 \<and> jl_next_seq L2 \<noteq> seq_FIRST"
      have quiet: "\<exists>rep. resume fs c v found now ProofStrict L0 = Some (Inr rep, L2)" if "\<not> appends"
        using p(1) rt(1) Inr r2 found(1) that unfolding d_def
        by (auto simp: resume_def L1_def dc appends_def step_then_def)
      obtain r3 L3 where lt: "append_log_truncated fs c now dropped L2 = (r3, L3)" by fastforce
      have loud: "\<exists>r. resume fs c v found now ProofStrict L0 = Some (r, L3) \<and> is_ok r = is_ok r3" if "appends"
        using p(1) rt(1) Inr r2 found(1) that lt unfolding d_def
        by (cases r3) (auto simp: resume_def L1_def dc appends_def step_then_def)
      note any = append_log_truncated_any [OF codec L2(1) [simplified] lt]
      show ?thesis
      proof (cases appends)
        case False
        obtain rep where rep: "resume fs c v found now ProofStrict L0 = Some (Inr rep, L2)" using quiet [OF False] by blast
        have "recovered c dir' (hs @ []) L0 (Inr rep) L2" using L2 by (simp add: recovered_def)
        moreover have "length ([] :: bytes list) \<le> 1" by simp
        ultimately show ?thesis using rep calm2 unfolding d_def by (metis is_ok_simps(1))
      next
        case True
        obtain more_lines where m: "holds c (hs @ more_lines) L3" "length more_lines \<le> 1" using any by blast
        then have "wavering c dir' (hs @ more_lines) (jl_disk L3)" using holds_wavering [OF codec] any L2(2) by metis
        moreover obtain r where r: "resume fs c v found now ProofStrict L0 = Some (r, L3)" "is_ok r = is_ok r3"
          using loud [OF True] by blast
        ultimately have "recovered c dir' (hs @ more_lines) L0 r L3"
          using any m L2(2,4) by (cases r; cases r3) (auto simp: recovered_def)
        moreover have "calm d \<and> fits c hs 1 \<and> halt_admit (jl_halt L0) = Inr () \<longrightarrow> is_ok r \<and> calm (jl_disk L3)"
          using any calm2 r(2) L2(4) by simp
        ultimately show ?thesis using r(1) m(2) unfolding d_def by blast
      qed
    qed
  qed
qed

text \<open>How an opening ends: with a ledger that holds the history, or with a disk that still does.\<close>

definition opened_with :: "codec \<Rightarrow> path \<Rightarrow> bytes list \<Rightarrow> ('d jsonl_ledger \<times> open_report) storage_result \<Rightarrow> 'd \<Rightarrow> bool" where
  "opened_with c dir hs r d' \<longleftrightarrow>
     (case r of
        Inr (L, _) \<Rightarrow> jl_disk L = d' \<and> jl_dir L = dir \<and> jl_halt L = halt_default \<and> jl_pending_unwind L = None \<and> holds c hs L
      | Inl _ \<Rightarrow> wavering c dir hs d')"

lemma open_any:
  assumes codec: "reads_back c" and rest: "resting c dir hs t d"
  shows "\<exists>r d'. open_through fs c v dir now ProofStrict d = Some (r, d') \<and>
    (\<exists>more_lines. opened_with c dir (hs @ more_lines) r d' \<and> length more_lines \<le> 1) \<and>
    (calm d \<and> fits c hs 1 \<longrightarrow> is_ok r \<and> calm d')"
proof -
  obtain segs and L :: "'d jsonl_ledger" where wf: "wf d" and t: "plain t" and placed: "placed c hs segs L" and dir: "jl_dir L = dir"
    and ne: "segs \<noteq> [] \<or> t = []" and len: "jl_seg_len L + length t \<le> u64_max" and laid: "laid d dir (behind segs t)"
    using rest by (auto simp: resting_def)
  have wav: "\<exists>more_lines. opened_with c dir (hs @ more_lines) (Inl e) d1 \<and> length more_lines \<le> 1" if "shaken wf d d1" for d1 e
    using resting_wavering [OF resting_shaken [OF rest that]] by (intro exI [of _ "[]"]) (simp add: opened_with_def)
  obtain r1 d1 where s1: "vfs_create_dir_all fs dir d = (r1, d1)" by fastforce
  show ?thesis
  proof (cases r1)
    case (Inl e)
    then have "shaken wf d d1" "\<not> calm d" using create_err [OF wf s1 [unfolded Inl]] by simp_all
    then show ?thesis using wav s1 Inl by (simp add: open_through_def unopened_def at_op_def step_then_def)
  next
    case (Inr u1)
    have k1: "kept wf calm d d1" by (rule create_ok [OF wf s1 [unfolded Inr]])
    obtain r2 d2 where s2: "vfs_list fs dir d1 = (r2, d2)" by fastforce
    have wf1: "wf d1" using kept_ok [OF k1] by simp
    show ?thesis
    proof (cases r2)
      case (Inl e)
      then have "shaken wf d d2" "\<not> calm d"
        using list_err [OF wf1 s2 [unfolded Inl]] kept_shaken_trans [OF k1] kept_ok [OF k1] by auto
      then show ?thesis using wav s1 s2 Inr Inl by (simp add: open_through_def unopened_def at_op_def step_then_def)
    next
      case r2: (Inr ps)
      have k2: "kept wf calm d1 d2" "sorted_wrt (<) ps" "set ps = {q. parent_is q dir \<and> live d1 q \<noteq> None}"
        using list_ok [OF wf1 s2 [unfolded r2]] by auto
      have k: "kept wf calm d d2" by (rule kept_trans [OF k1 k2(1)])
      have laid1: "laid d1 dir (behind segs t)" by (rule laid_shaken [OF laid kept_shaken [OF k1]])
      have laid2: "laid d2 dir (behind segs t)" by (rule laid_shaken [OF laid kept_shaken [OF k]])
      have found: "filter is_segment ps = map (\<lambda>x. seg dir (fst x)) segs"
        by (rule found_segments [OF placed laid1 ne k2(2,3)])
      define L0 where "L0 = \<lparr>jl_disk = d2, jl_dir = dir, jl_seg_path = dir @ [segment_file_name seq_FIRST], jl_seg_len = 0,
          jl_next_seq = seq_FIRST, jl_prev = GENESIS_PREV, jl_roll_bytes = SEGMENT_ROLL_BYTES,
          jl_preallocation = SEGMENT_PREALLOCATION, jl_barrier = BarrierWhole, jl_observer = None,
          jl_halt = halt_default, jl_pending_unwind = None\<rparr>"
      have L0: "jl_disk L0 = d2" "jl_dir L0 = dir" by (simp_all add: L0_def)
      have ready: "jl_preallocation L0 = Grow" "jl_roll_bytes L0 < u64_max" "jl_barrier L0 = BarrierWhole" "jl_pending_unwind L0 = None"
        by (simp_all add: L0_def SEGMENT_PREALLOCATION_def SEGMENT_ROLL_BYTES_def u_defs)
      have un: "unopened fs dir d = (Inr (L0, map (\<lambda>x. seg dir (fst x)) segs), d2)"
        using s1 s2 Inr r2 found by (simp add: unopened_def at_op_def step_then_def L0_def)
      show ?thesis
      proof (cases segs rule: rev_cases)
        case Nil
        then have hs: "hs = []" and tn: "t = []" using placed_empty placed ne by blast+
        have "placed c [] [] L0"
          by (simp add: placed_def L0_def at_genesis_def SEGMENT_PREALLOCATION_def SEGMENT_ROLL_BYTES_def u_defs seq_FIRST_def)
        then have "holds c (hs @ []) L0"
          using laid2 kept_ok [OF k] ready hs by (auto simp: holds_def L0 Nil tn behind_def)
        then have "opened_with c dir (hs @ []) (Inr (L0, rep)) d2" for rep
          using ready L0 by (simp add: opened_with_def L0_def)
        moreover have "length ([] :: bytes list) \<le> 1" by simp
        ultimately have "\<exists>more_lines. opened_with c dir (hs @ more_lines) (Inr (L0, rep)) d2 \<and> length more_lines \<le> 1" for rep by blast
        then show ?thesis using un L0 kept_ok [OF k] by (simp add: open_through_def resume_def Nil)
      next
        case (snoc xs x)
        have admits: "halt_admit (jl_halt L0) = Inr ()" "jl_halt L0 = halt_default" by (simp_all add: L0_def halt_admit_def halt_default_def)
        obtain r3 L3 more_lines where res: "resume fs c v (map (\<lambda>x. seg dir (fst x)) (xs @ [x])) now ProofStrict L0 = Some (r3, L3)"
          "recovered c dir (hs @ more_lines) L0 r3 L3" "length more_lines \<le> 1"
          "calm d2 \<and> fits c hs 1 \<and> halt_admit (jl_halt L0) = Inr () \<longrightarrow> is_ok r3 \<and> calm (jl_disk L3)"
          using resume_any [OF codec _ placed [unfolded snoc] _ t len _ ready, unfolded L0, of v now] kept_ok [OF k] dir laid2
          unfolding snoc by blast
        have "\<exists>r. open_through fs c v dir now ProofStrict d = Some (r, jl_disk L3) \<and> is_ok r = is_ok r3 \<and>
            opened_with c dir (hs @ more_lines) r (jl_disk L3)"
          using un res(1,2) admits(2)
          by (cases r3) (simp_all add: open_through_def snoc recovered_def opened_with_def del: map_append)
        then show ?thesis using res(3,4) admits(1) kept_ok [OF k] by metis
      qed
    qed
  qed
qed

section \<open>Reading the history back\<close>

lemma read_lines_any:
  assumes "wf d" "live d p = Some (unlines ls)" "\<forall>l \<in> set ls. plain l \<and> l \<noteq> []" "length (unlines ls) \<le> u64_max"
  shows "\<exists>r d'. read_lines fs p d = Some (r, d') \<and>
    (case r of Inr held \<Rightarrow> kept wf calm d d' \<and> held = ls | Inl e \<Rightarrow> shaken wf d d' \<and> \<not> calm d)"
proof -
  have keep: "visit_all keep_line ls off held = Inr (held @ ls)" for off held
    using assms(3) by (induction ls arbitrary: off held) (auto simp: keep_line_def)
  have "live d p = Some ([] @ unlines ls @ [])" "\<forall>l \<in> set ls. plain l" "plain []" "length ([] @ unlines ls @ []) \<le> u64_max"
    using assms by (auto simp: plain_def)
  from scan_any [OF assms(1) this, of keep_line "[]", unfolded list.size(3)] obtain r d' where
    s: "scan fs p 0 keep_line [] d = Some (r, d')"
      "case r of
         Inr s \<Rightarrow> kept wf calm d d' \<and> sc_total s = length ([] @ unlines ls @ []) \<and> sc_filled s = sc_total s \<and>
           visit_all keep_line ls 0 [] = Inr (sc_visitor s)
       | Inl e \<Rightarrow> shaken wf d d' \<and> (\<not> calm d \<or> visit_all keep_line ls 0 [] = Inl e)"
    by blast
  then show ?thesis using keep by (cases r) (auto simp: read_lines_def)
qed

lemma read_all_any:
  assumes "wf d" "live d = shown"
    "list_all2 (\<lambda>p ls. shown p = Some (unlines ls) \<and> (\<forall>l \<in> set ls. plain l \<and> l \<noteq> []) \<and> length (unlines ls) \<le> u64_max) ps lss"
  shows "\<exists>r d'. read_all fs ps out d = Some (r, d') \<and>
    (case r of Inr held \<Rightarrow> kept wf calm d d' \<and> held = out @ concat lss | Inl e \<Rightarrow> shaken wf d d' \<and> \<not> calm d)"
  using assms(3,1,2)
proof (induction ps lss arbitrary: out d rule: list_all2_induct)
  case Nil
  then show ?case by (simp add: kept_refl)
next
  case (Cons p ps ls lss)
  obtain r1 d1 where s1: "read_lines fs p d = Some (r1, d1)"
    "case r1 of Inr held \<Rightarrow> kept wf calm d d1 \<and> held = ls | Inl e \<Rightarrow> shaken wf d d1 \<and> \<not> calm d"
    using read_lines_any [OF Cons.prems(1), of p ls] Cons.hyps(1) Cons.prems(2) by blast
  show ?case
  proof (cases r1)
    case (Inl e)
    then show ?thesis using s1 by simp
  next
    case (Inr held)
    then have k: "kept wf calm d d1" "held = ls" using s1(2) by auto
    obtain r2 d2 where s2: "read_all fs ps (out @ ls) d1 = Some (r2, d2)"
      "case r2 of Inr held \<Rightarrow> kept wf calm d1 d2 \<and> held = (out @ ls) @ concat lss | Inl e \<Rightarrow> shaken wf d1 d2 \<and> \<not> calm d1"
      using Cons.IH [of d1 "out @ ls"] kept_ok [OF k(1)] kept_live [OF k(1)] Cons.prems(2) by metis
    then show ?thesis
      using s1 Inr k kept_trans [OF k(1)] kept_shaken_trans [OF k(1)] kept_ok [OF k(1)] by (cases r2) auto
  qed
qed

lemma read_raw_lines_any:
  assumes codec: "reads_back c" and holds: "holds c hs L" and whole: "jl_pending_unwind L = None"
  shows "\<exists>r d'. read_raw_lines fs L = Some (r, d') \<and>
    (case r of Inr held \<Rightarrow> kept wf calm (jl_disk L) d' \<and> held = hs | Inl e \<Rightarrow> shaken wf (jl_disk L) d' \<and> \<not> calm (jl_disk L))"
proof -
  obtain segs where wf: "wf (jl_disk L)" and placed: "placed c hs segs L" and laid: "laid (jl_disk L) (jl_dir L) segs"
    using holds whole by (auto simp: holds_def)
  obtain lss where lss: "concat lss = hs" "map snd segs = map unlines lss" "[] \<notin> set lss"
    using placed_lines [OF codec placed] by blast
  obtain r1 d1 where s1: "vfs_list fs (jl_dir L) (jl_disk L) = (r1, d1)" by fastforce
  show ?thesis
  proof (cases r1)
    case (Inl e)
    then show ?thesis using s1 list_err [OF wf s1 [unfolded Inl]] by (simp add: read_raw_lines_def at_op_def)
  next
    case (Inr ps)
    have k: "kept wf calm (jl_disk L) d1" "sorted_wrt (<) ps" "set ps = {q. parent_is q (jl_dir L) \<and> live (jl_disk L) q \<noteq> None}"
      using list_ok [OF wf s1 [unfolded Inr]] by auto
    have found: "filter is_segment ps = map (\<lambda>x. seg (jl_dir L) (fst x)) segs"
      by (rule found_segments [OF placed _ _ k(2,3), of "[]"]) (use laid in \<open>simp_all add: behind_def\<close>)
    have "list_all2 (\<lambda>p ls. live (jl_disk L) p = Some (unlines ls) \<and> (\<forall>l \<in> set ls. plain l \<and> l \<noteq> []) \<and> length (unlines ls) \<le> u64_max)
        (map (\<lambda>x. seg (jl_dir L) (fst x)) segs) lss"
    proof (rule list_all2_all_nthI)
      show len: "length (map (\<lambda>x. seg (jl_dir L) (fst x)) segs) = length lss" using lss(2) by (metis length_map)
      fix n assume n: "n < length (map (\<lambda>x. seg (jl_dir L) (fst x)) segs)"
      then have mem: "segs ! n \<in> set segs" "lss ! n \<in> set lss" using len by auto
      have snd: "snd (segs ! n) = unlines (lss ! n)" using lss(2) n len by (metis length_map nth_map)
      have "rests (jl_disk L) (seg (jl_dir L) (fst (segs ! n))) (unlines (lss ! n))"
        using laid mem(1) snd by (metis laid_def)
      moreover have "plain l \<and> l \<noteq> []" if "l \<in> set (lss ! n)" for l
      proof -
        have "l \<in> set hs" using that mem(2) lss(1) by auto
        then show ?thesis using written_plain [OF codec placed_bounds(3) [OF placed]] placed_bounds(3) [OF placed] codec
          by (auto simp: written_lines_def reads_back_def)
      qed
      moreover have "length (unlines (lss ! n)) \<le> u64_max" using placed mem(1) snd by (auto simp: placed_def)
      ultimately show "live (jl_disk L) (map (\<lambda>x. seg (jl_dir L) (fst x)) segs ! n) = Some (unlines (lss ! n)) \<and>
          (\<forall>l \<in> set (lss ! n). plain l \<and> l \<noteq> []) \<and> length (unlines (lss ! n)) \<le> u64_max"
        using n by (simp add: rests_iff)
    qed
    from read_all_any [OF _ kept_live [OF k(1)] this, of "[]"] obtain r2 d2 where
      "read_all fs (map (\<lambda>x. seg (jl_dir L) (fst x)) segs) [] d1 = Some (r2, d2)"
      "case r2 of Inr held \<Rightarrow> kept wf calm d1 d2 \<and> held = [] @ concat lss | Inl e \<Rightarrow> shaken wf d1 d2 \<and> \<not> calm d1"
      using kept_ok [OF k(1)] by blast
    then show ?thesis
      using s1 Inr found lss(1) kept_trans [OF k(1)] kept_shaken_trans [OF k(1)] kept_ok [OF k(1)]
      by (cases r2) (auto simp: read_raw_lines_def at_op_def)
  qed
qed

end

end
