(* ===== verification/LedgerRuns.thy ===== *)
theory LedgerRuns
  imports LedgerReopening
begin

text \<open>
  A ledger through a whole life: waves appended, power lost at any operation, the ledger opened again.
  The driver is a list of what happens to it; the disk decides by its plan where power is lost meanwhile.
\<close>

section \<open>Lives\<close>

datatype ledger_act = Wave "event_draft list" | PowerLoss time_ms

datatype 'd session = Up "'d jsonl_ledger" | Down 'd

fun session_disk :: "'d session \<Rightarrow> 'd" where
  "session_disk (Up L) = jl_disk L"
| "session_disk (Down d) = d"

text \<open>A wave is answered with its references or not at all; after a loss of power the ledger is opened
  again, on whatever the loss left.\<close>

fun ledger_step ::
  "'d vfs \<Rightarrow> ('d \<Rightarrow> 'd) \<Rightarrow> codec \<Rightarrow> nat \<Rightarrow> path \<Rightarrow> ledger_act \<Rightarrow> 'd session \<Rightarrow> (event_ref list \<times> 'd session) option" where
  "ledger_step fs lose c v dir (Wave drafts) (Up L) =
     (case append_all fs c drafts L of
        (Inr refs, L) \<Rightarrow> Some (refs, Up L)
      | (Inl _, L) \<Rightarrow> Some ([], Up L))"
| "ledger_step fs lose c v dir (Wave drafts) (Down d) = Some ([], Down d)"
| "ledger_step fs lose c v dir (PowerLoss now) s =
     (case open_through fs c v dir now ProofStrict (lose (session_disk s)) of
        None \<Rightarrow> None
      | Some (Inr (L, _), _) \<Rightarrow> Some ([], Up L)
      | Some (Inl _, d) \<Rightarrow> Some ([], Down d))"

fun ledger_run ::
  "'d vfs \<Rightarrow> ('d \<Rightarrow> 'd) \<Rightarrow> codec \<Rightarrow> nat \<Rightarrow> path \<Rightarrow> ledger_act list \<Rightarrow> 'd session \<Rightarrow> (event_ref list \<times> 'd session) option" where
  "ledger_run fs lose c v dir [] s = Some ([], s)"
| "ledger_run fs lose c v dir (act # acts) s =
     (case ledger_step fs lose c v dir act s of
        None \<Rightarrow> None
      | Some (refs, s) \<Rightarrow> map_option (\<lambda>(later, s). (refs @ later, s)) (ledger_run fs lose c v dir acts s))"

fun known_act :: "ledger_act \<Rightarrow> bool" where
  "known_act (Wave drafts) \<longleftrightarrow> list_all known_draft drafts"
| "known_act (PowerLoss now) \<longleftrightarrow> True"

definition line_ref :: "codec \<Rightarrow> bytes \<Rightarrow> event_ref option" where
  "line_ref c line = (case parse_line c line of Inr r \<Rightarrow> Some (to_ref r) | Inl _ \<Rightarrow> None)"

text \<open>What opening the ledger once more, and reading it, finds of the history \<open>hs\<close>.\<close>

definition found_again :: "'d vfs \<Rightarrow> codec \<Rightarrow> nat \<Rightarrow> path \<Rightarrow> time_ms \<Rightarrow> bytes list \<Rightarrow> 'd \<Rightarrow> bool" where
  "found_again fs c v dir now hs d \<longleftrightarrow>
     (case open_through fs c v dir now ProofStrict d of
        None \<Rightarrow> False
      | Some (Inl _, _) \<Rightarrow> True
      | Some (Inr (L, _), _) \<Rightarrow>
          (case read_raw_lines fs L of
             None \<Rightarrow> False
           | Some (Inl _, _) \<Rightarrow> True
           | Some (Inr found, _) \<Rightarrow>
               prefix hs found \<and>
               read_chain c found at_genesis = Inr \<lparr>lc_prev = jl_prev L, lc_expected = jl_next_seq L\<rparr>))"

lemma written_refs:
  assumes "reads_back c" "list_all2 (\<lambda>r l. write_record c r = Inr l) rs ls"
  shows "map (line_ref c) ls = map Some (map to_ref rs)"
  using assms(2)
proof (induction rule: list_all2_induct)
  case (Cons r rs l ls)
  have "read_record c l = Inr r" using assms(1) Cons.hyps(1) by (auto simp: reads_back_def)
  then show ?case using Cons.IH by (simp add: line_ref_def parse_line_def)
qed simp

lemma placed_chain: "placed c hs segs L \<Longrightarrow> read_chain c hs at_genesis = Inr \<lparr>lc_prev = jl_prev L, lc_expected = jl_next_seq L\<rparr>"
  by (simp add: placed_def)

context readable_disk
begin

definition safe :: "codec \<Rightarrow> path \<Rightarrow> bytes list \<Rightarrow> 'd session \<Rightarrow> bool" where
  "safe c dir hs s = (case s of Up L \<Rightarrow> jl_dir L = dir \<and> holds c hs L | Down d \<Rightarrow> wavering c dir hs d)"

lemma safe_lost:
  assumes "reads_back c" "safe c dir hs s"
  shows "\<exists>taken t. resting c dir (hs @ taken) t (lose (session_disk s))"
proof -
  have "wavering c dir hs (session_disk s)"
    using assms holds_wavering [OF assms(1)] by (cases s) (auto simp: safe_def)
  then show ?thesis by (rule wavering_lost [OF assms(1)])
qed

lemma step_safe:
  assumes codec: "reads_back c" and safe: "safe c dir hs s" and known: "known_act act"
  shows "\<exists>refs s' more_lines. ledger_step fs lose c v dir act s = Some (refs, s') \<and> safe c dir (hs @ more_lines) s' \<and>
    subseq (map Some refs) (map (line_ref c) more_lines)"
proof -
  consider (wave) drafts L where "act = Wave drafts" "s = Up L" | (off) drafts d where "act = Wave drafts" "s = Down d"
    | (loss) now where "act = PowerLoss now" by (metis ledger_act.exhaust session.exhaust)
  then show ?thesis
  proof cases
    case wave
    have holds: "holds c hs L" and dir: "jl_dir L = dir" using safe by (auto simp: safe_def wave)
    have drafts: "\<forall>d \<in> set drafts. known_draft d" using known by (simp add: wave list_all_iff)
    obtain r L' where s: "append_all fs c drafts L = (r, L')" by fastforce
    note any = append_all_any [OF codec drafts holds s] and dir' = append_all_same [OF s, THEN conjunct1]
    show ?thesis
    proof (cases r)
      case (Inl e)
      then have "safe c dir (hs @ []) (Up L')" using any dir dir' by (simp add: safe_def)
      moreover have "subseq (map Some []) (map (line_ref c) [])" by simp
      ultimately show ?thesis using s Inl wave by (metis (no_types, lifting) ledger_step.simps(1) old.prod.case sum.case(1))
    next
      case (Inr refs)
      then obtain rs ls where a: "holds c (hs @ ls) L'" "refs = map to_ref rs" "list_all2 (\<lambda>r l. write_record c r = Inr l) rs ls"
        using any by auto
      have "map (line_ref c) ls = map Some refs" using written_refs [OF codec a(3)] by (simp add: a(2))
      then have "subseq (map Some refs) (map (line_ref c) ls)" by simp
      moreover have "safe c dir (hs @ ls) (Up L')" using a(1) dir dir' by (simp add: safe_def)
      ultimately show ?thesis using s Inr wave by (intro exI [of _ refs] exI [of _ "Up L'"] exI [of _ ls]) simp
    qed
  next
    case off
    then show ?thesis using safe by (intro exI [of _ "[]"] exI [of _ s]) (simp add: off)
  next
    case loss
    obtain taken t where rest: "resting c dir (hs @ taken) t (lose (session_disk s))" using safe_lost [OF codec safe] by blast
    obtain r d' more_lines where o: "open_through fs c v dir now ProofStrict (lose (session_disk s)) = Some (r, d')"
      "opened_with c dir ((hs @ taken) @ more_lines) r d'"
      using open_any [OF codec rest] by blast
    show ?thesis
    proof (cases r)
      case (Inl e)
      then have "safe c dir (hs @ taken @ more_lines) (Down d')" using o(2) by (simp add: safe_def opened_with_def)
      then show ?thesis using o(1) Inl loss by (intro exI [of _ "[]"] exI [of _ "Down d'"] exI [of _ "taken @ more_lines"]) simp
    next
      case (Inr z)
      obtain L rep where z: "z = (L, rep)" by force
      then have "safe c dir (hs @ taken @ more_lines) (Up L)" using o(2) Inr by (simp add: safe_def opened_with_def)
      then show ?thesis using o(1) Inr z loss by (intro exI [of _ "[]"] exI [of _ "Up L"] exI [of _ "taken @ more_lines"]) simp
    qed
  qed
qed

lemma run_safe:
  assumes codec: "reads_back c" and safe: "safe c dir hs s" and known: "list_all known_act acts"
  shows "\<exists>refs s' more_lines. ledger_run fs lose c v dir acts s = Some (refs, s') \<and> safe c dir (hs @ more_lines) s' \<and>
    subseq (map Some refs) (map (line_ref c) more_lines)"
  using safe known
proof (induction acts arbitrary: hs s)
  case Nil
  then show ?case by (intro exI [of _ "[]"] exI [of _ s]) simp
next
  case (Cons act acts)
  obtain refs1 s1 m1 where a: "ledger_step fs lose c v dir act s = Some (refs1, s1)" "safe c dir (hs @ m1) s1"
    "subseq (map Some refs1) (map (line_ref c) m1)"
    using step_safe [OF codec Cons.prems(1)] Cons.prems(2) by fastforce
  obtain refs2 s2 m2 where b: "ledger_run fs lose c v dir acts s1 = Some (refs2, s2)" "safe c dir ((hs @ m1) @ m2) s2"
    "subseq (map Some refs2) (map (line_ref c) m2)"
    using Cons.IH [OF a(2)] Cons.prems(2) by fastforce
  have "subseq (map Some (refs1 @ refs2)) (map (line_ref c) (m1 @ m2))" using a(3) b(3) by (simp add: list_emb_append_mono)
  then show ?case using a(1) b(1,2) by (intro exI [of _ "refs1 @ refs2"] exI [of _ s2] exI [of _ "m1 @ m2"]) simp
qed

lemma safe_found:
  assumes codec: "reads_back c" and safe: "safe c dir hs s"
  shows "found_again fs c v dir now hs (lose (session_disk s))"
proof -
  obtain taken t where rest: "resting c dir (hs @ taken) t (lose (session_disk s))" using safe_lost [OF assms] by blast
  obtain r d' more_lines where o: "open_through fs c v dir now ProofStrict (lose (session_disk s)) = Some (r, d')"
    "opened_with c dir ((hs @ taken) @ more_lines) r d'"
    using open_any [OF codec rest] by blast
  show ?thesis
  proof (cases r)
    case (Inl e)
    then show ?thesis using o(1) by (simp add: found_again_def)
  next
    case (Inr z)
    obtain L rep where z: "z = (L, rep)" by force
    then have holds: "holds c ((hs @ taken) @ more_lines) L" and whole: "jl_pending_unwind L = None"
      using o(2) Inr by (auto simp: opened_with_def)
    obtain r2 d2 where "read_raw_lines fs L = Some (r2, d2)"
      "case r2 of Inr held \<Rightarrow> kept wf calm (jl_disk L) d2 \<and> held = (hs @ taken) @ more_lines
       | Inl e \<Rightarrow> shaken wf (jl_disk L) d2 \<and> \<not> calm (jl_disk L)"
      using read_raw_lines_any [OF codec holds whole] by blast
    moreover have "read_chain c ((hs @ taken) @ more_lines) at_genesis = Inr \<lparr>lc_prev = jl_prev L, lc_expected = jl_next_seq L\<rparr>"
      using holds placed_chain unfolding holds_def by blast
    ultimately show ?thesis using o(1) Inr z by (cases r2) (auto simp: found_again_def)
  qed
qed

text \<open>No more lines than bytes.\<close>

lemma unlines_length: "length ls \<le> length (unlines ls)"
  by (induction ls) auto

lemma resting_lines:
  assumes "resting c dir hs t d"
  shows "\<exists>ps. distinct ps \<and> length hs \<le> (\<Sum>p\<leftarrow>ps. case live d p of None \<Rightarrow> 0 | Some b \<Rightarrow> length b)"
proof -
  obtain segs and L :: "'d jsonl_ledger" where placed: "placed c hs segs L" and ne: "segs \<noteq> [] \<or> t = []" and laid: "laid d dir (behind segs t)"
    using assms by (auto simp: resting_def)
  define ps where "ps = map (\<lambda>x. seg dir (fst x)) (behind segs t)"
  have "distinct (map fst (behind segs t))"
    using placed_bounds(2) [OF placed] fst_behind [OF ne] by (simp only: strict_sorted_iff)
  then have "distinct ps" unfolding ps_def by (auto simp: distinct_map inj_on_def)
  moreover have "(\<Sum>p\<leftarrow>ps. case live d p of None \<Rightarrow> 0 | Some b \<Rightarrow> length b) = (\<Sum>x\<leftarrow>behind segs t. length (snd x))"
    unfolding ps_def map_map comp_def
    by (rule arg_cong [where f = sum_list], rule map_cong [OF refl]) (use laid in \<open>auto simp: laid_def rests_iff\<close>)
  moreover have "length (concat (map snd segs)) \<le> (\<Sum>x\<leftarrow>behind segs t. length (snd x))"
    by (cases segs rule: rev_cases) (auto simp: behind_def length_concat comp_def)
  moreover have "length hs \<le> length (concat (map snd segs))" using placed unlines_length [of hs] by (simp add: placed_def)
  ultimately show ?thesis by (metis order_trans)
qed

lemma calm_revives:
  assumes codec: "reads_back c" "writes_all c" and safe: "safe c dir hs s" and calm: "calm (session_disk s)"
    and known: "list_all known_draft drafts"
    and room: "\<And>ps. distinct ps \<Longrightarrow>
      (\<Sum>p\<leftarrow>ps. case live (lose (session_disk s)) p of None \<Rightarrow> 0 | Some b \<Rightarrow> length b) + length drafts < u64_max"
  shows "\<exists>answer s'. ledger_run fs lose c v dir [PowerLoss now, Wave drafts] s = Some (answer, s') \<and> length answer = length drafts"
proof -
  let ?d = "lose (session_disk s)"
  obtain taken t where rest: "resting c dir (hs @ taken) t ?d" using safe_lost [OF codec(1) safe] by blast
  obtain ps where "distinct ps" "length (hs @ taken) \<le> (\<Sum>p\<leftarrow>ps. case live ?d p of None \<Rightarrow> 0 | Some b \<Rightarrow> length b)"
    using resting_lines [OF rest] by blast
  then have len: "length (hs @ taken) + length drafts < u64_max" using room [of ps] by linarith
  then have fits: "fits c (hs @ taken) 1" using codec(2) by (simp add: fits_def)
  obtain r d' m where o: "open_through fs c v dir now ProofStrict ?d = Some (r, d')"
    "opened_with c dir ((hs @ taken) @ m) r d'" "length m \<le> 1" "is_ok r" "calm d'"
    using open_any [OF codec(1) rest, of v now] lose_calm [OF calm] fits by blast
  then obtain L rep where r: "r = Inr (L, rep)" by (cases r) auto
  have L: "holds c ((hs @ taken) @ m) L" "calm (jl_disk L)" "halt_admit (jl_halt L) = Inr ()"
    using o(2,5) by (auto simp: r opened_with_def halt_admit_def halt_default_def)
  have "seq_value (jl_next_seq L) + length drafts \<le> u64_max" using holds_next [OF L(1)] len o(3) by simp
  then obtain refs L' where a: "append_all fs c drafts L = (Inr refs, L')"
    using append_all_calm [OF L(1,2) codec(2) L(3)] by blast
  have "\<forall>d \<in> set drafts. known_draft d" using known by (simp add: list_all_iff)
  then have "length refs = length drafts" using append_all_any [OF codec(1) _ L(1) a] by auto
  then show ?thesis using o(1) r a by simp
qed

end


section \<open>On the power-loss adapter\<close>

lemma fresh_disk_safe: "ffr.safe c dir [] (Down (fault_new plan))"
proof -
  define L :: "fault_state jsonl_ledger" where
    "L = \<lparr>jl_disk = fault_new plan, jl_dir = dir, jl_seg_path = seg dir 0, jl_seg_len = 0, jl_next_seq = seq_FIRST,
       jl_prev = GENESIS_PREV, jl_roll_bytes = 0, jl_preallocation = Grow, jl_barrier = BarrierWhole, jl_observer = None,
       jl_halt = halt_default, jl_pending_unwind = None\<rparr>"
  have "placed c [] [] L" by (simp add: placed_def L_def at_genesis_def u_defs)
  moreover have "ff_wf (fault_new plan)" by (simp add: ff_wf_def fault_new_def bt_empty_def bt_wf_def)
  moreover have "ffv.laid (fault_new plan) dir []"
    by (simp add: ffv.laid_def ff_live_def fault_new_def bt_empty_def bt_get_def)
  ultimately have "ffr.wavering c dir [] (fault_new plan)"
    using ffr.laid_wavering [of "fault_new plan" c "[]" "[]" L dir] by (simp add: L_def)
  then show ?thesis by (simp add: ffr.safe_def)
qed

definition disk_bytes :: "fault_state \<Rightarrow> nat" where
  "disk_bytes st = (\<Sum>e\<leftarrow>ff_files st. length (fs_live (snd e)))"

lemma live_bytes:
  assumes "ff_wf st" "distinct ps"
  shows "(\<Sum>p\<leftarrow>ps. case ff_live st p of None \<Rightarrow> 0 | Some b \<Rightarrow> length b) \<le> disk_bytes st"
proof -
  let ?f = "\<lambda>p. case ff_live st p of None \<Rightarrow> 0 | Some b \<Rightarrow> length b"
  have d: "distinct (map fst (ff_files st))" using assms(1) by (simp add: ff_wf_def bt_wf_distinct)
  have "(\<Sum>p\<leftarrow>ps. ?f p) = sum ?f (set ps)" using assms(2) by (simp add: sum_list_distinct_conv_sum_set)
  also have "\<dots> = sum ?f (set ps \<inter> set (map fst (ff_files st)))"
  proof (rule sum.mono_neutral_right)
    show "\<forall>p \<in> set ps - set ps \<inter> set (map fst (ff_files st)). ?f p = 0"
      by (auto simp: ff_live_def bt_get_def map_of_eq_None_iff split: option.splits) (metis fst_conv imageI map_of_SomeD)
  qed auto
  also have "\<dots> \<le> sum ?f (set (map fst (ff_files st)))" by (rule sum_mono2) auto
  also have "\<dots> = (\<Sum>p\<leftarrow>map fst (ff_files st). ?f p)"
    by (rule sum_list_distinct_conv_sum_set [OF d, symmetric])
  also have "\<dots> = disk_bytes st"
    unfolding disk_bytes_def map_map comp_def
  proof (rule arg_cong [where f = sum_list], rule map_cong [OF refl])
    fix e assume "e \<in> set (ff_files st)"
    then have "bt_get (ff_files st) (fst e) = Some (snd e)" using d by (simp add: bt_get_def)
    then show "?f (fst e) = length (fs_live (snd e))" by (simp add: ff_live_def)
  qed
  finally show ?thesis .
qed


section \<open>The properties\<close>

text \<open>C1. No answered event is ever lost. A ledger lives on a disk that loses power at whatever
  operation its plan says, keeping however much of a torn write; it is given any sequence of waves of
  drafts, and after every loss it is opened again, be the opening cut short or not. Every step ends. There
  is a history \<open>hs\<close> in which the references answered so far stand in the order they were answered, and if
  power is lost once more, opening the ledger and reading it finds that history first: it may be followed
  by whole lines that were never answered, and all that is read is one unbroken chain from genesis up to the
  position the writer resumes at.\<close>

theorem answered_events_survive_power_loss:
  assumes "reads_back c" "list_all known_act acts"
  shows "\<exists>refs s hs. ledger_run fault_fs power_cut c v dir acts (Down (fault_new plan)) = Some (refs, s) \<and>
    subseq (map Some refs) (map (line_ref c) hs) \<and>
    found_again fault_fs c v dir now hs (power_cut (session_disk s))"
proof -
  obtain refs s hs where run: "ledger_run fault_fs power_cut c v dir acts (Down (fault_new plan)) = Some (refs, s)"
    "ffr.safe c dir ([] @ hs) s" "subseq (map Some refs) (map (line_ref c) hs)"
    using ffr.run_safe [OF assms(1) fresh_disk_safe assms(2)] by blast
  moreover have "found_again fault_fs c v dir now hs (power_cut (session_disk s))"
    using ffr.safe_found [OF assms(1) run(2)] by simp
  ultimately show ?thesis by blast
qed

definition torn_plan :: fault_plan where
  "torn_plan = \<lparr>cut_at_op = Some 5, cut_on_write = None, plan_torn_tail = KeepBytes 1\<rparr>"

theorem answered_events_survive_power_loss_witness:
  "reads_back total_codec \<and>
   list_all known_act [PowerLoss (TimeMs 0), Wave [first_draft], PowerLoss (TimeMs 1), Wave [first_draft, first_draft]] \<and>
   (\<exists>refs s hs. ledger_run fault_fs power_cut total_codec 1 [lit ''ledger'']
        [PowerLoss (TimeMs 0), Wave [first_draft], PowerLoss (TimeMs 1), Wave [first_draft, first_draft]]
        (Down (fault_new torn_plan)) = Some (refs, s) \<and>
      subseq (map Some refs) (map (line_ref total_codec) hs) \<and>
      found_again fault_fs total_codec 1 [lit ''ledger''] (TimeMs 2) hs (power_cut (session_disk s)))"
  using answered_events_survive_power_loss [OF total_codec_laws(1),
      of "[PowerLoss (TimeMs 0), Wave [first_draft], PowerLoss (TimeMs 1), Wave [first_draft, first_draft]]"]
    total_codec_laws(1) first_draft_known by simp

text \<open>C2. A ledger always comes back. Whatever was done to it and wherever power was lost, once
  nothing more fails the ledger opens again and answers the next wave with one reference for each draft,
  provided only that the serializer writes its records and the sequence numbers do not run out, which
  a disk of fewer than \<open>2^64\<close> bytes cannot make happen.\<close>

theorem calm_disk_revives_the_ledger:
  assumes "reads_back c" "writes_all c" "list_all known_act acts" "list_all known_draft drafts"
    and run: "ledger_run fault_fs power_cut c v dir acts (Down (fault_new plan)) = Some (refs, s)"
    and calm: "ff_calm (session_disk s)" and room: "disk_bytes (power_cut (session_disk s)) + length drafts < u64_max"
  shows "\<exists>answer s'. ledger_run fault_fs power_cut c v dir [PowerLoss now, Wave drafts] s = Some (answer, s') \<and>
    length answer = length drafts"
proof -
  obtain hs where safe: "ffr.safe c dir ([] @ hs) s"
    using ffr.run_safe [OF assms(1) fresh_disk_safe [of c dir plan] assms(3), of v] run by auto
  then obtain taken t where "ffr.resting c dir (([] @ hs) @ taken) t (power_cut (session_disk s))"
    using ffr.safe_lost [OF assms(1)] by blast
  then have wf: "ff_wf (power_cut (session_disk s))" by (simp add: ffr.resting_def)
  show ?thesis
    by (rule ffr.calm_revives [OF assms(1,2) safe calm assms(4)])
      (use live_bytes [OF wf] room in fastforce)
qed

definition calm_plan :: fault_plan where
  "calm_plan = \<lparr>cut_at_op = None, cut_on_write = None, plan_torn_tail = KeepBytes 7\<rparr>"

theorem calm_disk_revives_the_ledger_witness:
  "\<exists>answer s'. ledger_run fault_fs power_cut total_codec 1 [lit ''ledger''] [PowerLoss (TimeMs 2), Wave [first_draft]]
     (Down (fault_new calm_plan)) = Some (answer, s') \<and> length answer = 1"
proof -
  have "disk_bytes (power_cut (session_disk (Down (fault_new calm_plan)))) = 0"
    by (simp add: disk_bytes_def power_cut_def cut_def fault_new_def bt_empty_def)
  then show ?thesis
    using calm_disk_revives_the_ledger [OF total_codec_laws(1,2), of "[]" "[first_draft]" 1 "[lit ''ledger'']" calm_plan "[]"
        "Down (fault_new calm_plan)" "TimeMs 2"] first_draft_known
    by (simp add: ff_calm_def fault_new_def calm_plan_def u_defs)
qed

text \<open>C22. The chain is tamper-evident: two histories that both check from genesis and end in the same
  state, the hash of the last line and the next sequence number, are the same history, line for line, so
  long as the hash has no two inputs for one output. A line changed, dropped, added or moved shows at
  the end.\<close>

theorem final_state_names_the_history:
  assumes "inj (blake3 c)" "read_chain c xs at_genesis = Inr end_state" "read_chain c ys at_genesis = Inr end_state"
  shows "xs = ys"
  by (rule read_chain_determines [OF assms])

theorem final_state_names_the_history_witness:
  "read_chain total_codec [first_line_bytes] at_genesis =
     Inr \<lparr>lc_prev = chain_hash total_codec first_line_bytes, lc_expected = Seq 1\<rparr> \<and> [first_line_bytes] = [first_line_bytes]"
  using final_state_names_the_history [OF total_codec_laws(3) first_line_checks first_line_checks] first_line_checks by blast

end
