(* ===== verification/LedgerProofs.thy ===== *)
theory LedgerProofs
  imports LineCodecs
begin

text \<open>
  Proving the whole chain (\<open>storage::chain_audit\<close>). An earlier proof leaves a record for each segment:
  the digest of the bytes it walked, and the chain state before and after them. A later proof that finds
  the same bytes takes the state after them from the record. It comes to the verdict of a walk that
  checks every line.
\<close>

section \<open>What a record vouches for\<close>

fun check_states :: "codec \<Rightarrow> bytes list \<Rightarrow> line_check \<Rightarrow> nat \<Rightarrow> (nat \<times> line_fault) + (nat \<times> line_check)" where
  "check_states c [] chk n = Inr (n, chk)"
| "check_states c (line # rest) chk n =
     (if line = [] then check_states c rest chk n
      else case advance c line chk of
        Inl fault \<Rightarrow> Inl (Suc n, fault)
      | Inr (_, chk) \<Rightarrow> check_states c rest chk (Suc n))"

lemma check_states_append:
  "check_states c (xs @ ys) chk n =
     (case check_states c xs chk n of Inl e \<Rightarrow> Inl e | Inr (m, chk) \<Rightarrow> check_states c ys chk m)"
  by (induction c xs chk n rule: check_states.induct) (auto split: sum.splits prod.splits)

lemma check_states_from:
  "check_states c ls chk n =
     (case check_states c ls chk 0 of Inl (m, f) \<Rightarrow> Inl (n + m, f) | Inr (m, chk) \<Rightarrow> Inr (n + m, chk))"
proof (induction ls arbitrary: chk n)
  case (Cons l ls)
  show ?case
  proof (cases "l = []")
    case True
    then show ?thesis using Cons [of chk n] by simp
  next
    case False
    show ?thesis
    proof (cases "advance c l chk")
      case (Inl f)
      then show ?thesis using False by simp
    next
      case (Inr z)
      then show ?thesis
        using False Cons [of "snd z" "Suc n"] Cons [of "snd z" "Suc 0"]
        by (cases z; cases "check_states c ls (snd z) 0") (auto split: prod.splits)
    qed
  qed
qed simp

definition walk_bytes :: "codec \<Rightarrow> bytes \<Rightarrow> line_check \<Rightarrow> (nat \<times> line_fault) + (nat \<times> line_check)" where
  "walk_bytes c bs chk = check_states c (split_on 10 bs) chk 0"

definition whole_lines :: "bytes \<Rightarrow> bool" where
  "whole_lines bs \<longleftrightarrow> bs = [] \<or> last bs = 10"

lemma walk_bytes_append:
  assumes "whole_lines bs" "walk_bytes c bs chk = Inr (m, chk')"
  shows "walk_bytes c (bs @ rest) chk =
    (case walk_bytes c rest chk' of Inl (k, f) \<Rightarrow> Inl (m + k, f) | Inr (k, chk) \<Rightarrow> Inr (m + k, chk))"
proof (cases bs rule: rev_cases)
  case Nil
  then show ?thesis using assms(2) by (auto simp: walk_bytes_def split: sum.splits)
next
  case (snoc b0 b)
  then have b: "b = 10" using assms(1) by (simp add: whole_lines_def)
  have "check_states c (split_on 10 b0) chk 0 = Inr (m, chk')"
    using assms(2) by (auto simp: walk_bytes_def snoc b split_on_append check_states_append split: sum.splits)
  then show ?thesis
    using check_states_from [of c "split_on 10 rest" chk' m]
    by (simp add: walk_bytes_def snoc b split_on_append check_states_append)
qed

text \<open>A record vouches for bytes of whole lines that check from its entry to its exit.\<close>

definition vouches :: "codec \<Rightarrow> segment_record \<Rightarrow> bool" where
  "vouches c r \<longleftrightarrow> (\<exists>bs m. whole_lines bs \<and> length bs = sr_len r \<and> sr_digest r = digest c bs \<and>
     walk_bytes c bs (sr_entry r) = Inr (m, sr_exit r) \<and> sr_lines r = min u64_max m)"

lemma sat_add_min: "sat_add m a b = min m (a + b)"
  by (simp add: sat_add_def)

lemma check_lines_states:
  assumes "wk_lines wk \<le> u64_max" "k \<le> u64_max"
  shows "\<exists>wk'. wk_unkept wk' = wk_unkept wk \<and>
    (case check_states c ls (wk_check wk) 0 of
       Inl (m, f) \<Rightarrow> check_lines c ls k wk = (wk', Inl (fault_into_ax (min u64_max (wk_lines wk + m)) f))
     | Inr (m, chk) \<Rightarrow> check_lines c ls k wk = (wk', Inr (min u64_max (k + m))) \<and> wk_check wk' = chk \<and>
         wk_lines wk' = min u64_max (wk_lines wk + m))"
  using assms
proof (induction ls arbitrary: wk k)
  case Nil
  then show ?case by (auto simp: min_def)
next
  case (Cons l ls)
  show ?case
  proof (cases "l = []")
    case True
    have same: "check_lines c (l # ls) k wk = check_lines c ls k wk"
      "check_states c (l # ls) (wk_check wk) 0 = check_states c ls (wk_check wk) 0" using True by simp_all
    show ?thesis unfolding same by (rule Cons.IH [OF Cons.prems])
  next
    case False
    define wk1 where "wk1 = wk\<lparr>wk_lines := sat_add u64_max (wk_lines wk) 1,
      wk_counted := (wk_counted wk)\<lparr>pc_lines_checked := sat_add u64_max (pc_lines_checked (wk_counted wk)) 1\<rparr>\<rparr>"
    show ?thesis
    proof (cases "advance c l (wk_check wk)")
      case (Inl f)
      then show ?thesis using False by (auto simp: Let_def sat_add_min)
    next
      case (Inr z)
      obtain kd chk1 where z: "z = (kd, chk1)" by force
      define wk2 where "wk2 = wk1\<lparr>wk_check := chk1\<rparr>"
      have le: "wk_lines wk2 \<le> u64_max" "sat_add u64_max k 1 \<le> u64_max" by (simp_all add: wk2_def wk1_def sat_add_min)
      have step: "check_lines c (l # ls) k wk = check_lines c ls (sat_add u64_max k 1) wk2"
        using False Inr by (simp add: z wk2_def wk1_def Let_def)
      have states: "check_states c (l # ls) (wk_check wk) 0 =
          (case check_states c ls chk1 0 of Inl (m, f) \<Rightarrow> Inl (Suc m, f) | Inr (m, chk) \<Rightarrow> Inr (Suc m, chk))"
        using False Inr check_states_from [of c ls chk1 "Suc 0"] by (simp add: z split: sum.splits prod.splits)
      have wk2: "wk_check wk2 = chk1" "wk_lines wk2 = min u64_max (Suc (wk_lines wk))" "wk_unkept wk2 = wk_unkept wk"
        by (simp_all add: wk2_def wk1_def sat_add_min)
      show ?thesis
        using Cons.IH [OF le] unfolding step states wk2
        by (auto simp: sat_add_min split: sum.splits prod.splits intro!: arg_cong [where f = "\<lambda>n. fault_into_ax n _"])
    qed
  qed
qed

section \<open>One segment\<close>

definition body_of :: "bytes \<Rightarrow> bytes" where
  "body_of bs = take (complete_end bs) bs"

lemma complete_end_le: "complete_end bs \<le> length bs"
  by (simp add: complete_end_def)

lemma body_whole: "whole_lines (body_of bs)"
proof (cases "10 \<in> set bs")
  case False
  then have "takeWhile (\<lambda>x. x \<noteq> 10) (rev bs) = rev bs" by (subst takeWhile_eq_all_conv) auto
  then have "complete_end bs = 0" unfolding complete_end_def by (simp only: length_rev diff_self_eq_0)
  then show ?thesis by (simp add: whole_lines_def body_of_def)
next
  case True
  then obtain a b where ab: "bs = a @ 10 # b" "10 \<notin> set b" by (metis split_list_last)
  have "takeWhile (\<lambda>x. x \<noteq> 10) (rev b @ 10 # rev a) = rev b"
    using ab(2) takeWhile_append2 [of "rev b" "\<lambda>x. x \<noteq> 10" "10 # rev a"] by force
  then have "complete_end bs = length a + 1" by (simp add: complete_end_def ab(1))
  then show ?thesis by (simp add: whole_lines_def body_of_def ab(1))
qed

lemma prefix_in_body:
  assumes "whole_lines (take n bs)" "n \<le> length bs"
  shows "n \<le> complete_end bs"
proof (cases "n = 0")
  case False
  define m where "m = length (takeWhile (\<lambda>x. x \<noteq> 10) (rev bs))"
  have "bs ! (n - 1) = 10"
  proof -
    have "take n bs \<noteq> []" using assms(2) False by auto
    then have "last (take n bs) = take n bs ! (n - 1)" using assms(2) by (simp add: last_conv_nth)
    moreover have "last (take n bs) = 10" using assms(1) \<open>take n bs \<noteq> []\<close> by (simp add: whole_lines_def)
    ultimately show ?thesis using False by simp
  qed
  have "\<not> length bs - m < n"
  proof
    assume "length bs - m < n"
    then have "length bs - n < m" using assms(2) False by auto
    then have "rev bs ! (length bs - n) \<noteq> 10"
      unfolding m_def by (metis (mono_tags, lifting) nth_mem set_takeWhileD takeWhile_nth)
    then show False using \<open>bs ! (n - 1) = 10\<close> assms(2) False by (simp add: rev_nth)
  qed
  then show ?thesis by (simp add: complete_end_def m_def)
qed simp

text \<open>What a walk of a segment comes to, from its bytes alone.\<close>

definition segment_verdict :: "codec \<Rightarrow> bytes \<Rightarrow> line_check \<Rightarrow> nat \<Rightarrow> ax_error + (nat \<times> line_check)" where
  "segment_verdict c bs chk n =
     (case walk_bytes c (body_of bs) chk of
        Inl (m, f) \<Rightarrow> Inl (fault_into_ax (min u64_max (n + m)) f)
      | Inr (m, chk) \<Rightarrow> Inr (min u64_max (n + m), chk))"

lemma finish_segment:
  assumes "whole_lines h" "h @ rest = body_of bs" "walk_bytes c h chk0 = Inr (m0, wk_check wkx)"
    "wk_lines wkx = min u64_max (n + m0)"
  shows "case segment_verdict c bs chk0 n of
      Inl e \<Rightarrow> \<exists>wk'. check_lines c (split_on 10 rest) (min u64_max m0) wkx = (wk', Inl e)
    | Inr (n', chk) \<Rightarrow> \<exists>wk' m. check_lines c (split_on 10 rest) (min u64_max m0) wkx = (wk', Inr (min u64_max m)) \<and>
        wk_check wk' = chk \<and> wk_lines wk' = n' \<and> walk_bytes c (body_of bs) chk0 = Inr (m, chk)"
proof -
  have whole: "walk_bytes c (body_of bs) chk0 =
    (case walk_bytes c rest (wk_check wkx) of Inl (k, f) \<Rightarrow> Inl (m0 + k, f) | Inr (k, chk) \<Rightarrow> Inr (m0 + k, chk))"
    using walk_bytes_append [OF assms(1,3), of rest] assms(2) by simp
  have "wk_lines wkx \<le> u64_max" "min u64_max m0 \<le> u64_max" by (simp_all add: assms(4))
  from check_lines_states [OF this, of c "split_on 10 rest"] obtain wk' where
    chk: "case walk_bytes c rest (wk_check wkx) of
       Inl (m, f) \<Rightarrow> check_lines c (split_on 10 rest) (min u64_max m0) wkx = (wk', Inl (fault_into_ax (min u64_max (wk_lines wkx + m)) f))
     | Inr (m, chk) \<Rightarrow> check_lines c (split_on 10 rest) (min u64_max m0) wkx = (wk', Inr (min u64_max (min u64_max m0 + m))) \<and>
         wk_check wk' = chk \<and> wk_lines wk' = min u64_max (wk_lines wkx + m)"
    unfolding walk_bytes_def by blast
  have add: "min u64_max (min u64_max a + b) = min u64_max (a + b)" for a b by simp
  show ?thesis
  proof (cases "walk_bytes c rest (wk_check wkx)")
    case (Inl z)
    then show ?thesis using chk whole by (cases z) (simp add: segment_verdict_def assms(4) add add.assoc)
  next
    case (Inr z)
    then show ?thesis using chk whole by (cases z) (auto simp: segment_verdict_def assms(4) add add.assoc)
  qed
qed

lemma walk_segment_found:
  assumes "(case rd_hashed (read_ahead bs kept v) of
      None \<Rightarrow> (wk1, None)
    | Some hashed \<Rightarrow> reuse c hashed wk1) = (wk2, found)"
    and "wk1 = wk\<lparr>wk_counted := (wk_counted wk)\<lparr>pc_bytes_read := sat_add u64_max (pc_bytes_read (wk_counted wk)) (length bs)\<rparr>\<rparr>"
    and "(case found of Some f \<Rightarrow> f | None \<Rightarrow> (0, 0, [])) = (n, k, h)"
    and "rest = (if n \<le> complete_end bs then drop n (take (complete_end bs) bs) else [])"
    and "wkx = wk2\<lparr>wk_counted := (wk_counted wk2)\<lparr>pc_bytes_hashed := sat_add u64_max (pc_bytes_hashed (wk_counted wk2)) (length rest)\<rparr>\<rparr>"
  shows "walk_segment c (read_ahead bs kept v) v wk =
      (case check_lines c (split_on 10 rest) k wkx of
         (wk', Inl e) \<Rightarrow> (wk', Inl e)
       | (wk', Inr k) \<Rightarrow> (wk', Inr \<lparr>sr_version = v, sr_len = complete_end bs, sr_lines = k, sr_entry = wk_check wk,
           sr_exit = wk_check wk', sr_digest = digest c (h @ rest)\<rparr>))"
proof -
  have rd: "rd_bytes (read_ahead bs kept v) = bs" by (simp add: read_ahead_def)
  show ?thesis
    unfolding walk_segment_def Let_def rd assms(1) [unfolded assms(2)] prod.case assms(3) unfolding assms(4,5)
    by (simp cong: if_cong)
qed

text \<open>However a walk starts, from the record or from the first byte, it goes on the same way.\<close>

lemma walk_segment_shape:
  assumes inj: "inj (blake3 c)" and honest: "\<And>r. kept = Some r \<Longrightarrow> vouches c r" and lines: "wk_lines wk \<le> u64_max"
  shows "\<exists>wkx h rest m0. whole_lines h \<and> h @ rest = body_of bs \<and> walk_bytes c h (wk_check wk) = Inr (m0, wk_check wkx) \<and>
    wk_lines wkx = min u64_max (wk_lines wk + m0) \<and>
    walk_segment c (read_ahead bs kept v) v wk =
      (case check_lines c (split_on 10 rest) (min u64_max m0) wkx of
         (wk', Inl e) \<Rightarrow> (wk', Inl e)
       | (wk', Inr k) \<Rightarrow> (wk', Inr \<lparr>sr_version = v, sr_len = complete_end bs, sr_lines = k, sr_entry = wk_check wk,
           sr_exit = wk_check wk', sr_digest = digest c (h @ rest)\<rparr>))"
proof -
  define wk1 where "wk1 = wk\<lparr>wk_counted := (wk_counted wk)\<lparr>pc_bytes_read := sat_add u64_max (pc_bytes_read (wk_counted wk)) (length bs)\<rparr>\<rparr>"
  define found where "found = (case rd_hashed (read_ahead bs kept v) of None \<Rightarrow> (wk1, None) | Some hashed \<Rightarrow> reuse c hashed wk1)"
  have wk1: "wk_check wk1 = wk_check wk" "wk_lines wk1 = wk_lines wk" by (simp_all add: wk1_def)
  show ?thesis
  proof (cases "snd found")
    case None
    define wkx where "wkx = (fst found)\<lparr>wk_counted := (wk_counted (fst found))\<lparr>pc_bytes_hashed :=
      sat_add u64_max (pc_bytes_hashed (wk_counted (fst found))) (length (body_of bs))\<rparr>\<rparr>"
    have "wk_check (fst found) = wk_check wk" "wk_lines (fst found) = wk_lines wk"
      using None wk1 by (auto simp: found_def reuse_def Let_def split: option.splits)
    then have x: "wk_check wkx = wk_check wk" "wk_lines wkx = wk_lines wk" by (simp_all add: wkx_def)
    have "walk_segment c (read_ahead bs kept v) v wk =
      (case check_lines c (split_on 10 (body_of bs)) 0 wkx of
         (wk', Inl e) \<Rightarrow> (wk', Inl e)
       | (wk', Inr k) \<Rightarrow> (wk', Inr \<lparr>sr_version = v, sr_len = complete_end bs, sr_lines = k, sr_entry = wk_check wk,
           sr_exit = wk_check wk', sr_digest = digest c ([] @ body_of bs)\<rparr>))"
      by (rule walk_segment_found [OF _ wk1_def, where n = 0 and ?wk2.0 = "fst found" and found = None])
        (use None in \<open>simp_all add: found_def [symmetric] wkx_def body_of_def prod_eq_iff\<close>)
    then show ?thesis
      using x lines by (intro exI [of _ wkx] exI [of _ "[]"] exI [of _ "body_of bs"] exI [of _ 0])
        (simp add: whole_lines_def walk_bytes_def)
  next
    case (Some f)
    obtain r h where r: "kept = Some r" "record_prefix r bs v = Some h"
      using Some by (auto simp: found_def read_ahead_def bind_eq_Some_conv split: option.splits)
    have h: "h = take (sr_len r) bs" "sr_len r \<le> length bs"
      using r(2) by (auto simp: record_prefix_def prefix_length_def split: if_splits)
    have fnd: "found = reuse c (r, h) wk1" using r by (simp add: found_def read_ahead_def)
    have st: "sr_entry r = wk_check wk" "digest c h = sr_digest r" "f = (length h, sr_lines r, h)"
      and fst: "wk_check (fst found) = sr_exit r" "wk_lines (fst found) = sat_add u64_max (wk_lines wk) (sr_lines r)"
      using Some wk1 by (auto simp: fnd reuse_def Let_def stands_def split: if_splits)
    obtain bs0 m0 where v: "whole_lines bs0" "length bs0 = sr_len r" "sr_digest r = digest c bs0"
      "walk_bytes c bs0 (sr_entry r) = Inr (m0, sr_exit r)" "sr_lines r = min u64_max m0"
      using honest [OF r(1)] by (auto simp: vouches_def)
    have same: "bs0 = h" using inj st(2) v(3) by (auto simp: digest_def dest: injD)
    have within: "sr_len r \<le> complete_end bs" using prefix_in_body [of "sr_len r" bs] v(1) h same by simp
    define rest where "rest = drop (length h) (take (complete_end bs) bs)"
    have lenh: "length h = sr_len r" using v(2) same by simp
    have body: "h @ rest = body_of bs"
      using within append_take_drop_id [of "sr_len r" "take (complete_end bs) bs"]
      by (simp add: rest_def lenh body_of_def h(1) min_def)
    define wkx where "wkx = (fst found)\<lparr>wk_counted := (wk_counted (fst found))\<lparr>pc_bytes_hashed :=
      sat_add u64_max (pc_bytes_hashed (wk_counted (fst found))) (length rest)\<rparr>\<rparr>"
    have "walk_segment c (read_ahead bs kept v) v wk =
      (case check_lines c (split_on 10 rest) (sr_lines r) wkx of
         (wk', Inl e) \<Rightarrow> (wk', Inl e)
       | (wk', Inr k) \<Rightarrow> (wk', Inr \<lparr>sr_version = v, sr_len = complete_end bs, sr_lines = k, sr_entry = wk_check wk,
           sr_exit = wk_check wk', sr_digest = digest c (h @ rest)\<rparr>))"
      by (rule walk_segment_found [OF _ wk1_def, where n = "length h" and ?wk2.0 = "fst found" and found = "Some f"])
        (use Some within in \<open>simp_all add: found_def [symmetric] wkx_def rest_def st(3) lenh prod_eq_iff\<close>)
    moreover have "wk_check wkx = sr_exit r" "wk_lines wkx = min u64_max (wk_lines wk + m0)"
      using fst by (simp_all add: wkx_def sat_add_min v(5))
    ultimately show ?thesis
      using body v st(1) same by (intro exI [of _ wkx] exI [of _ h] exI [of _ rest] exI [of _ m0]) simp
  qed
qed

lemma walk_segment_verdict:
  assumes inj: "inj (blake3 c)" and honest: "\<And>r. kept = Some r \<Longrightarrow> vouches c r" and lines: "wk_lines wk \<le> u64_max"
    and walk: "walk_segment c (read_ahead bs kept v) v wk = (wk', res)"
  shows "case segment_verdict c bs (wk_check wk) (wk_lines wk) of
      Inl e \<Rightarrow> res = Inl e
    | Inr (n, chk) \<Rightarrow> wk_check wk' = chk \<and> wk_lines wk' = n \<and> (\<exists>r. res = Inr r \<and> vouches c r)"
proof -
  obtain wkx h rest m0 where h: "whole_lines h" "h @ rest = body_of bs" "walk_bytes c h (wk_check wk) = Inr (m0, wk_check wkx)"
    "wk_lines wkx = min u64_max (wk_lines wk + m0)"
    and shape: "walk_segment c (read_ahead bs kept v) v wk =
      (case check_lines c (split_on 10 rest) (min u64_max m0) wkx of
         (wk', Inl e) \<Rightarrow> (wk', Inl e)
       | (wk', Inr k) \<Rightarrow> (wk', Inr \<lparr>sr_version = v, sr_len = complete_end bs, sr_lines = k, sr_entry = wk_check wk,
           sr_exit = wk_check wk', sr_digest = digest c (h @ rest)\<rparr>))"
    using walk_segment_shape [OF assms(1-3)] by blast
  have len: "length (body_of bs) = complete_end bs" using complete_end_le [of bs] by (simp add: body_of_def)
  note fin = finish_segment [OF h]
  show ?thesis
  proof (cases "segment_verdict c bs (wk_check wk) (wk_lines wk)")
    case (Inl e)
    then show ?thesis using fin walk shape by auto
  next
    case (Inr z)
    obtain n chk where z: "z = (n, chk)" by force
    obtain wk2 m where m: "check_lines c (split_on 10 rest) (min u64_max m0) wkx = (wk2, Inr (min u64_max m))" "wk_check wk2 = chk"
      "wk_lines wk2 = n" "walk_bytes c (body_of bs) (wk_check wk) = Inr (m, chk)"
      using fin Inr z by auto
    have "vouches c \<lparr>sr_version = v, sr_len = complete_end bs, sr_lines = min u64_max m, sr_entry = wk_check wk,
        sr_exit = wk_check wk2, sr_digest = digest c (h @ rest)\<rparr>"
      unfolding vouches_def using body_whole [of bs] len m(2,4) h(2) by (intro exI [of _ "body_of bs"] exI [of _ m]) simp
    then show ?thesis using walk shape m Inr z by auto
  qed
qed

section \<open>The whole chain\<close>

text \<open>The verdict over a list of segments, from their bytes alone.\<close>

fun chain_verdict :: "codec \<Rightarrow> bytes list \<Rightarrow> line_check \<Rightarrow> nat \<Rightarrow> chain_audit" where
  "chain_verdict c [] chk n = Whole n"
| "chain_verdict c (bs # rest) chk n =
     (case segment_verdict c bs chk n of Inl e \<Rightarrow> Broken e | Inr (n, chk) \<Rightarrow> chain_verdict c rest chk n)"

definition honest :: "codec \<Rightarrow> rstr \<times> bytes \<times> segment_record option \<Rightarrow> bool" where
  "honest c x \<longleftrightarrow> (case snd (snd x) of None \<Rightarrow> True | Some r \<Rightarrow> vouches c r)"

abbreviation ahead :: "nat \<Rightarrow> rstr \<times> bytes \<times> segment_record option \<Rightarrow> rstr \<times> segment_read" where
  "ahead v \<equiv> \<lambda>(name, bs, kept). (name, read_ahead bs kept v)"

lemma segment_verdict_lines: "segment_verdict c bs chk n = Inr (n', chk') \<Longrightarrow> n' \<le> u64_max"
  by (auto simp: segment_verdict_def split: sum.splits prod.splits)

lemma walk_wave_verdict:
  assumes "inj (blake3 c)" "\<forall>x \<in> set segs. honest c x" "wk_lines wk \<le> u64_max"
    and "walk_wave c keep v (map (ahead v) segs) wk = (wk', broken)"
  shows "chain_verdict c (map (fst \<circ> snd) segs @ rest) (wk_check wk) (wk_lines wk) =
      (case broken of Some e \<Rightarrow> Broken e | None \<Rightarrow> chain_verdict c rest (wk_check wk') (wk_lines wk')) \<and>
    (broken = None \<longrightarrow> wk_lines wk' \<le> u64_max)"
  using assms(2-4)
proof (induction segs arbitrary: wk)
  case (Cons x segs)
  obtain name bs kept where x: "x = (name, bs, kept)" by (cases x)
  obtain wk1 res where w: "walk_segment c (read_ahead bs kept v) v wk = (wk1, res)" by fastforce
  have "vouches c r" if "kept = Some r" for r using Cons.prems(1) that by (simp add: x honest_def)
  note verdict = walk_segment_verdict [OF assms(1) this Cons.prems(2) w]
  show ?case
  proof (cases "segment_verdict c bs (wk_check wk) (wk_lines wk)")
    case (Inl e)
    then show ?thesis using Cons.prems(3) verdict w by (auto simp: x)
  next
    case (Inr z)
    obtain n chk where z: "z = (n, chk)" by force
    obtain r where r: "res = Inr r" "wk_check wk1 = chk" "wk_lines wk1 = n" using verdict Inr z by auto
    define wk2 where "wk2 = (case keep of None \<Rightarrow> wk1
      | Some k \<Rightarrow> wk1\<lparr>wk_unkept := (case wk_unkept wk1 of Some e \<Rightarrow> Some e | None \<Rightarrow> k name r)\<rparr>)"
    have wk2: "wk_check wk2 = chk" "wk_lines wk2 = n" "wk_lines wk2 \<le> u64_max"
      using r segment_verdict_lines [of c bs _ _ n chk] Inr z by (auto simp: wk2_def split: option.splits)
    have "walk_wave c keep v (map (ahead v) segs) wk2 = (wk', broken)"
      using Cons.prems(3) w r(1) by (simp add: x wk2_def)
    from Cons.IH [OF _ wk2(3) this] Cons.prems(1) show ?thesis using Inr z wk2 by (simp add: x)
  qed
qed simp

lemma walk_waves_verdict:
  assumes "inj (blake3 c)" "\<forall>x \<in> set (concat waves). honest c x" "wk_lines wk \<le> u64_max"
  shows "pv_audit (walk_waves c keep v (map (map (ahead v)) waves) wk) =
    chain_verdict c (map (fst \<circ> snd) (concat waves)) (wk_check wk) (wk_lines wk)"
  using assms(2,3)
proof (induction waves arbitrary: wk)
  case (Cons segs waves)
  define wk1 where "wk1 = wk\<lparr>wk_counted := (wk_counted wk)\<lparr>pc_waves := sat_add u64_max (pc_waves (wk_counted wk)) 1\<rparr>\<rparr>"
  have wk1: "wk_check wk1 = wk_check wk" "wk_lines wk1 = wk_lines wk" by (simp_all add: wk1_def)
  obtain wk2 broken where w: "walk_wave c keep v (map (ahead v) segs) wk1 = (wk2, broken)" by fastforce
  have "\<forall>x \<in> set segs. honest c x" "wk_lines wk1 \<le> u64_max" using Cons.prems wk1 by auto
  note verdict = walk_wave_verdict [OF assms(1) this w, of "map (fst \<circ> snd) (concat waves)", unfolded wk1]
  have step: "walk_waves c keep v (map (map (ahead v)) (segs # waves)) wk =
      (case broken of Some e \<Rightarrow> \<lparr>pv_audit = Broken e, pv_counted = wk_counted wk2, pv_unkept = wk_unkept wk2\<rparr>
       | None \<Rightarrow> walk_waves c keep v (map (map (ahead v)) waves) wk2)"
    using w by (simp add: wk1_def Let_def split: option.splits)
  show ?case
    using verdict Cons.IH [of wk2] Cons.prems(1) unfolding step by (cases broken) (auto simp: comp_def)
qed simp

lemma chunks_map: "chunks n (map f xs) = map (map f) (chunks n xs)"
  by (induction n xs rule: chunks.induct) (subst (1 2) chunks.simps, simp add: take_map drop_map)

lemma concat_chunks: "0 < n \<Longrightarrow> concat (chunks n xs) = xs"
  by (induction n xs rule: chunks.induct) (subst chunks.simps, simp)

lemma prove_chain_verdict:
  assumes "inj (blake3 c)" "\<forall>x \<in> set segs. honest c x"
  shows "pv_audit (prove_chain c keep v segs) = chain_verdict c (map (fst \<circ> snd) segs) at_genesis 0"
  using walk_waves_verdict [OF assms(1), of "chunks PROOF_WAVE segs" walk_start "Some keep" v] assms(2)
  by (simp add: prove_chain_def chunks_map concat_chunks PROOF_WAVE_def walk_start_def)

lemma audit_chain_verdict:
  assumes "inj (blake3 c)"
  shows "audit_chain c v segs = chain_verdict c (map snd segs) at_genesis 0"
proof -
  let ?bare = "\<lambda>(name, bs). (name, bs, None :: segment_record option)"
  have same: "map (\<lambda>(name, bs). (name, read_ahead bs None v)) segs = map (ahead v) (map ?bare segs)" by auto
  have "\<forall>x \<in> set (map ?bare segs). honest c x" by (auto simp: honest_def)
  then show ?thesis
    using walk_waves_verdict [OF assms, of "chunks PROOF_WAVE (map ?bare segs)" walk_start None v]
    unfolding audit_chain_def same chunks_map [of _ "ahead v"]
    by (simp add: concat_chunks PROOF_WAVE_def walk_start_def comp_def split_def)
qed

text \<open>The lines of a segment, and what the verdict says of them.\<close>

definition lines_in :: "bytes \<Rightarrow> bytes list" where
  "lines_in bs = filter (\<lambda>l. l \<noteq> []) (split_on 10 (body_of bs))"

lemma check_states_chain:
  "case check_states c ls chk n of
     Inl _ \<Rightarrow> \<not> is_ok (read_chain c (filter (\<lambda>l. l \<noteq> []) ls) chk)
   | Inr (_, chk') \<Rightarrow> read_chain c (filter (\<lambda>l. l \<noteq> []) ls) chk = Inr chk'"
proof (induction ls arbitrary: chk n)
  case (Cons l ls)
  show ?case
  proof (cases "l = []")
    case True
    then show ?thesis using Cons [of chk n] by (simp cong: sum.case_cong prod.case_cong)
  next
    case False
    then show ?thesis using Cons [of _ "Suc n"]
      by (cases "advance c l chk") (auto cong: sum.case_cong prod.case_cong)
  qed
qed simp

lemma chain_verdict_whole:
  "(\<exists>n'. chain_verdict c bss chk n = Whole n') \<longleftrightarrow> (\<exists>chk'. read_chain c (concat (map lines_in bss)) chk = Inr chk')"
proof (induction bss arbitrary: chk n)
  case (Cons bs bss)
  show ?case
  proof (cases "walk_bytes c (body_of bs) chk")
    case (Inl z)
    have "read_chain c (lines_in bs) chk \<noteq> Inr chk'" for chk'
      using check_states_chain [of c "split_on 10 (body_of bs)" chk 0] Inl by (auto simp: walk_bytes_def lines_in_def)
    then show ?thesis using Inl by (cases z) (auto simp: segment_verdict_def read_chain_append result_simps)
  next
    case (Inr z)
    obtain m chk1 where z: "z = (m, chk1)" by force
    then have "read_chain c (lines_in bs) chk = Inr chk1"
      using check_states_chain [of c "split_on 10 (body_of bs)" chk 0] Inr by (auto simp: walk_bytes_def lines_in_def)
    then show ?thesis using Inr z Cons.IH by (simp add: segment_verdict_def read_chain_append)
  qed
qed simp

section \<open>A segment and its record\<close>

text \<open>A segment of one line that begins the chain, and the record of it.\<close>

definition only_segment :: bytes where
  "only_segment = first_line_bytes @ [10]"

definition only_record :: segment_record where
  "only_record = \<lparr>sr_version = 1, sr_len = 2, sr_lines = 1, sr_entry = at_genesis,
     sr_exit = \<lparr>lc_prev = chain_hash total_codec first_line_bytes, lc_expected = Seq 1\<rparr>,
     sr_digest = digest total_codec only_segment\<rparr>"

lemma first_line_plain: "10 \<notin> set first_line_bytes" "length first_line_bytes = 1"
  by (simp_all add: first_line_bytes_def record_line_def)

lemma only_segment_walks:
  "walk_bytes total_codec only_segment at_genesis =
     Inr (1, \<lparr>lc_prev = chain_hash total_codec first_line_bytes, lc_expected = Seq 1\<rparr>)"
proof -
  have "split_on 10 only_segment = [first_line_bytes, []]"
    using split_on_append [of 10 first_line_bytes "[]"] first_line_plain by (simp add: only_segment_def split_on_no_sep)
  moreover obtain k where "advance total_codec first_line_bytes at_genesis =
      Inr (k, \<lparr>lc_prev = chain_hash total_codec first_line_bytes, lc_expected = Seq 1\<rparr>)"
    using first_line_checks by (auto simp: result_simps)
  moreover have "first_line_bytes \<noteq> []" using first_line_plain(2) by auto
  ultimately show ?thesis by (simp add: walk_bytes_def)
qed

lemma only_record_vouches: "vouches total_codec only_record"
  unfolding vouches_def using only_segment_walks first_line_plain(2)
  by (intro exI [of _ only_segment] exI [of _ 1]) (simp add: only_record_def whole_lines_def only_segment_def u_defs)

lemma only_segment_body: "body_of only_segment = only_segment"
  by (simp add: body_of_def complete_end_def only_segment_def)

section \<open>The properties\<close>

text \<open>C23. Proving the chain with the records of earlier proofs comes to the verdict of the audit that
  checks every line, to the very line a break is reported at, whatever records were kept, so long as each of
  them vouches for the bytes its digest names; and the verdict is that the chain is whole exactly when the
  complete lines of all segments, in order, continue one chain from genesis.\<close>

theorem proof_with_records_is_the_audit:
  assumes "inj (blake3 c)" "list_all (honest c) segs"
  shows "pv_audit (prove_chain c keep v segs) = audit_chain c v (map (\<lambda>(name, bs, kept). (name, bs)) segs) \<and>
    ((\<exists>n. pv_audit (prove_chain c keep v segs) = Whole n) \<longleftrightarrow>
     (\<exists>chk. read_chain c (concat (map (\<lambda>(name, bs, kept). lines_in bs) segs)) at_genesis = Inr chk))"
proof -
  have h: "\<forall>x \<in> set segs. honest c x" using assms(2) by (simp add: list_all_iff)
  have "map lines_in (map (fst \<circ> snd) segs) = map (\<lambda>(name, bs, kept). lines_in bs) segs"
    "map snd (map (\<lambda>(name, bs, kept). (name, bs)) segs) = map (fst \<circ> snd) segs" by auto
  then show ?thesis
    using chain_verdict_whole [of c "map (fst \<circ> snd) segs" at_genesis 0]
    by (simp only: prove_chain_verdict [OF assms(1) h] audit_chain_verdict [OF assms(1)])
qed

theorem proof_with_records_is_the_audit_witness:
  "list_all (honest total_codec) [(lit ''ledger-0'', only_segment, Some only_record)] \<and>
   pv_audit (prove_chain total_codec (\<lambda>_ _. None) 1 [(lit ''ledger-0'', only_segment, Some only_record)]) =
     audit_chain total_codec 1 [(lit ''ledger-0'', only_segment)]"
proof -
  have "list_all (honest total_codec) [(lit ''ledger-0'', only_segment, Some only_record)]"
    using only_record_vouches by (simp add: honest_def)
  from this proof_with_records_is_the_audit [OF total_codec_laws(3) this, of "\<lambda>_ _. None" 1]
  show ?thesis by simp
qed

text \<open>C24. The records a proof keeps are honest: whatever a walk of a segment reused, if that vouched for
  its bytes then so does the record the walk ends with, for all the complete lines the segment now has.\<close>

theorem proof_records_stay_honest:
  assumes "inj (blake3 c)" "honest c (name, bs, kept)" "wk_lines wk \<le> u64_max"
    and "walk_segment c (read_ahead bs kept v) v wk = (wk', Inr r)"
  shows "honest c (name, bs, Some r) \<and> sr_entry r = wk_check wk \<and> sr_exit r = wk_check wk' \<and>
    record_prefix r bs v = Some (body_of bs)"
proof -
  have kept: "vouches c k" if "kept = Some k" for k using assms(2) that by (simp add: honest_def)
  obtain wkx h rest m0 where h: "h @ rest = body_of bs"
    and shape: "walk_segment c (read_ahead bs kept v) v wk =
      (case check_lines c (split_on 10 rest) (min u64_max m0) wkx of
         (wk', Inl e) \<Rightarrow> (wk', Inl e)
       | (wk', Inr k) \<Rightarrow> (wk', Inr \<lparr>sr_version = v, sr_len = complete_end bs, sr_lines = k, sr_entry = wk_check wk,
           sr_exit = wk_check wk', sr_digest = digest c (h @ rest)\<rparr>))"
    using walk_segment_shape [OF assms(1) kept assms(3)] by blast
  have "sr_version r = v \<and> sr_len r = complete_end bs \<and> sr_entry r = wk_check wk \<and> sr_exit r = wk_check wk'"
    using shape assms(4) by (auto split: prod.splits sum.splits)
  moreover have "vouches c r"
    using walk_segment_verdict [OF assms(1) kept assms(3,4)] by (auto split: sum.splits prod.splits)
  ultimately show ?thesis
    using complete_end_le [of bs] by (simp add: honest_def record_prefix_def prefix_length_def body_of_def)
qed

theorem proof_records_stay_honest_witness:
  "\<exists>wk' r. walk_segment total_codec (read_ahead only_segment (Some only_record) 1) 1 walk_start = (wk', Inr r) \<and>
     honest total_codec (lit ''ledger-0'', only_segment, Some r) \<and> sr_entry r = at_genesis \<and> sr_exit r = wk_check wk' \<and>
     record_prefix r only_segment 1 = Some only_segment"
proof -
  obtain wk' res where walk: "walk_segment total_codec (read_ahead only_segment (Some only_record) 1) 1 walk_start = (wk', res)"
    by fastforce
  have start: "wk_check walk_start = at_genesis" "wk_lines walk_start \<le> u64_max" by (simp_all add: walk_start_def)
  have "vouches total_codec r" if "Some only_record = Some r" for r using that only_record_vouches by simp
  then obtain r where r: "res = Inr r"
    using walk_segment_verdict [OF total_codec_laws(3) _ start(2) walk] only_segment_walks
    by (auto simp: start(1) segment_verdict_def only_segment_body)
  show ?thesis
    using proof_records_stay_honest [OF total_codec_laws(3) _ start(2) walk [unfolded r], of "lit ''ledger-0''"] walk r
      only_record_vouches
    by (simp add: honest_def start(1) only_segment_body)
qed

end
