(* ===== verification/AccountRounds.thy ===== *)
theory AccountRounds
  imports Tools
begin

text \<open>
  \<open>kernel/src/retries.rs\<close> and \<open>kernel/src/account_recovery.rs\<close>: the ceiling a person sets on
  retries, and one round of a request over the accounts of a provider. The counts are the source's
  saturating \<open>u32\<close> values. A round is driven by the relation \<open>round_run\<close> below: whoever drives it
  only carries out the step it answers to a failure, or the repair it admits, and writes down every
  send. The lemmas show that the state of the round is a summary of that record, which bounds it.
\<close>


section \<open>The ceiling on retries\<close>

datatype retries = UntilHalted | AtMost nat

fun without_a_brake :: "retries \<Rightarrow> nat" where
  "without_a_brake UntilHalted = 1"
| "without_a_brake (AtMost ceiling) = ceiling"

fun stated :: "retries \<Rightarrow> nat option" where
  "stated UntilHalted = None"
| "stated (AtMost ceiling) = Some ceiling"

fun retries_of :: "nat option \<Rightarrow> retries" where
  "retries_of None = UntilHalted"
| "retries_of (Some ceiling) = AtMost ceiling"

lemma retries_of_stated [simp]: "retries_of (stated r) = r"
  by (cases r) simp_all


section \<open>Rounds\<close>

datatype account_retries = One | Two

fun retries_count :: "account_retries \<Rightarrow> nat" where
  "retries_count One = 1"
| "retries_count Two = 2"

datatype roster = Single | Several "server_label list" account_retries

datatype round_end = RequestRefused | EffectUnknown | CapReached | AccountsExhausted

datatype account_step = Resend | Switch server_label | StopRound round_end

record account_round =
  ar_roster :: roster
  ar_usable :: "server_label set"
  ar_cap :: retries
  ar_current :: "server_label option"
  ar_tried :: "server_label set"
  ar_here :: nat
  ar_total :: nat

fun cap_admits :: "retries \<Rightarrow> nat \<Rightarrow> bool" where
  "cap_admits UntilHalted sent = True"
| "cap_admits (AtMost ceiling) sent = (sent \<le> ceiling)"

definition opening_account :: "server_label list \<Rightarrow> server_label set \<Rightarrow> server_label option \<Rightarrow> server_label option" where
  "opening_account accounts usable held =
     (case held of
        Some account \<Rightarrow>
          if account \<in> set accounts \<and> account \<in> usable then Some account
          else find (\<lambda>account. account \<in> usable) accounts
      | None \<Rightarrow> find (\<lambda>account. account \<in> usable) accounts)"

definition round_start ::
  "roster \<Rightarrow> server_label set \<Rightarrow> retries \<Rightarrow> server_label option \<Rightarrow> round_end + account_round" where
  "round_start roster usable cap held =
     and_then
       (case roster of
          Single \<Rightarrow> Inr None
        | Several accounts _ \<Rightarrow>
            and_then (ok_or AccountsExhausted (opening_account accounts usable held))
              (\<lambda>opening. Inr (Some opening))) (\<lambda>current.
     Inr \<lparr>ar_roster = roster, ar_usable = usable, ar_cap = cap, ar_current = current,
          ar_tried = set_option current, ar_here = 1, ar_total = 1\<rparr>)"

definition resend :: "account_round \<Rightarrow> account_step" where
  "resend r = (if cap_admits (ar_cap r) (ar_total r) then Resend else StopRound CapReached)"

definition switch :: "account_round \<Rightarrow> account_step" where
  "switch r =
     (case ar_roster r of
        Single \<Rightarrow> StopRound AccountsExhausted
      | Several accounts _ \<Rightarrow>
          (case find (\<lambda>account. account \<in> ar_usable r \<and> account \<notin> ar_tried r) accounts of
             None \<Rightarrow> StopRound AccountsExhausted
           | Some to_account \<Rightarrow>
               if cap_admits (ar_cap r) (ar_total r) then Switch to_account else StopRound CapReached))"

definition round_next :: "ax_error \<Rightarrow> account_round \<Rightarrow> account_step" where
  "round_next e r =
     (case ar_roster r of
        Single \<Rightarrow>
          (case err_retry e of
             No \<Rightarrow> StopRound RequestRefused
           | Yes \<Rightarrow> resend r
           | Unknown \<Rightarrow> resend r)
      | Several _ retries \<Rightarrow>
          let spare = ar_here r \<le> retries_count retries in
          (case (err_retry e, err_account e) of
             (Unknown, _) \<Rightarrow> if spare then resend r else StopRound EffectUnknown
           | (_, Advance) \<Rightarrow> switch r
           | (Yes, Keep) \<Rightarrow> if spare then resend r else switch r
           | (No, Keep) \<Rightarrow> StopRound RequestRefused))"

fun round_apply :: "account_step \<Rightarrow> account_round \<Rightarrow> account_round" where
  "round_apply Resend r =
     r\<lparr>ar_here := sat_add u32_max (ar_here r) 1, ar_total := sat_add u32_max (ar_total r) 1\<rparr>"
| "round_apply (Switch to_account) r =
     r\<lparr>ar_current := Some to_account, ar_tried := insert to_account (ar_tried r), ar_here := 1,
       ar_total := sat_add u32_max (ar_total r) 1\<rparr>"
| "round_apply (StopRound _) r = r"

definition admits_repair :: "account_round \<Rightarrow> bool" where
  "admits_repair r =
     (case ar_roster r of
        Single \<Rightarrow> True
      | Several _ retries \<Rightarrow> ar_here r \<le> retries_count retries \<and> cap_admits (ar_cap r) (ar_total r))"

definition repaired :: "account_round \<Rightarrow> account_round" where
  "repaired r = (case ar_roster r of Single \<Rightarrow> r | Several _ _ \<Rightarrow> round_apply Resend r)"


section \<open>Driving a round\<close>

text \<open>
  The record of a round, the newest send first: why the request went out, and on which account.
\<close>

datatype cause = Opening | After ax_error | Repairing

type_synonym sends = "(cause \<times> server_label option) list"

inductive round_run :: "account_round \<Rightarrow> account_round \<Rightarrow> sends \<Rightarrow> bool" for r0 where
  opened: "round_run r0 r0 [(Opening, ar_current r0)]"
| resent: "round_run r0 r log \<Longrightarrow> round_next e r = Resend \<Longrightarrow>
    round_run r0 (round_apply Resend r) ((After e, ar_current r) # log)"
| switched: "round_run r0 r log \<Longrightarrow> round_next e r = Switch a \<Longrightarrow>
    round_run r0 (round_apply (Switch a) r) ((After e, Some a) # log)"
| repairs: "round_run r0 r log \<Longrightarrow> admits_repair r \<Longrightarrow>
    round_run r0 (repaired r) ((Repairing, ar_current r) # log)"

abbreviation accounts_of :: "sends \<Rightarrow> server_label option list" where
  "accounts_of log \<equiv> map snd log"

text \<open>What a send after a failure may be: never one the failure rules out.\<close>

fun sends_obey :: "sends \<Rightarrow> bool" where
  "sends_obey [] = True"
| "sends_obey ((Opening, a) # log) = (log = [])"
| "sends_obey ((Repairing, a) # log) = (log \<noteq> [] \<and> a = snd (hd log) \<and> sends_obey log)"
| "sends_obey ((After e, a) # log) =
     (log \<noteq> [] \<and> sends_obey log \<and>
      (case (err_retry e, err_account e) of
         (Unknown, _) \<Rightarrow> a = snd (hd log)
       | (_, Advance) \<Rightarrow> a \<notin> set (accounts_of log)
       | (Yes, Keep) \<Rightarrow> a = snd (hd log) \<or> a \<notin> set (accounts_of log)
       | (No, Keep) \<Rightarrow> False))"



section \<open>The state is a summary of the record\<close>

definition summarises :: "server_label list \<Rightarrow> account_retries \<Rightarrow> account_round \<Rightarrow> sends \<Rightarrow> bool" where
  "summarises accounts retries r log \<longleftrightarrow>
     ar_roster r = Several accounts retries \<and> log \<noteq> [] \<and>
     ar_current r = snd (hd log) \<and> set (accounts_of log) = Some ` ar_tried r \<and>
     ar_tried r \<subseteq> set accounts \<inter> ar_usable r \<and>
     ar_here r = count_list (accounts_of log) (ar_current r) \<and>
     ar_total r = min u32_max (length log) \<and>
     (\<forall>a. count_list (accounts_of log) a \<le> Suc (retries_count retries)) \<and>
     distinct (remdups_adj (accounts_of log)) \<and> sends_obey log \<and>
     (case ar_cap r of AtMost ceiling \<Rightarrow> ceiling < u32_max \<longrightarrow> length log \<le> Suc ceiling | UntilHalted \<Rightarrow> True)"

lemma retries_count_bound: "retries_count k \<le> 2"
  by (cases k) simp_all

lemma cap_admits_room:
  "cap_admits cap (min u32_max n) \<Longrightarrow> cap = AtMost ceiling \<Longrightarrow> ceiling < u32_max \<Longrightarrow> n \<le> ceiling"
  by (auto simp: min_def split: if_splits)

lemma resend_Resend [simp]: "resend r = Resend \<longleftrightarrow> cap_admits (ar_cap r) (ar_total r)"
  by (simp add: resend_def)

lemma resend_not_Switch [simp]: "resend r \<noteq> Switch a"
  by (simp add: resend_def)

lemma switch_not_Resend [simp]: "switch r \<noteq> Resend"
  by (simp add: switch_def split: roster.splits option.splits)

lemma switch_Switch:
  assumes "switch r = Switch a" and "ar_roster r = Several accounts k"
  shows "a \<in> set accounts" and "a \<in> ar_usable r" and "a \<notin> ar_tried r" and "cap_admits (ar_cap r) (ar_total r)"
  using assms by (auto simp: switch_def find_Some_iff split: option.splits if_splits)

lemma round_next_Resend:
  assumes "round_next e r = Resend" and "ar_roster r = Several accounts k"
  shows "ar_here r \<le> retries_count k" and "cap_admits (ar_cap r) (ar_total r)"
    and "err_retry e = Unknown \<or> err_retry e = Yes \<and> err_account e = Keep"
  using assms
  by (auto simp: round_next_def Let_def split: retry.splits account_disposition.splits if_splits)

lemma round_next_Switch:
  assumes "round_next e r = Switch a" and "ar_roster r = Several accounts k"
  shows "switch r = Switch a"
    and "err_retry e \<noteq> Unknown \<and> (err_retry e = Yes \<or> err_account e = Advance)"
  using assms
  by (auto simp: round_next_def Let_def split: retry.splits account_disposition.splits if_splits)

lemma summarisesD:
  assumes "summarises accounts k r log"
  shows "ar_roster r = Several accounts k" and "log \<noteq> []" and "ar_current r = snd (hd log)"
    and "set (accounts_of log) = Some ` ar_tried r" and "ar_tried r \<subseteq> set accounts \<inter> ar_usable r"
    and "ar_here r = count_list (accounts_of log) (ar_current r)"
    and "ar_total r = min u32_max (length log)"
    and "\<And>a. count_list (accounts_of log) a \<le> Suc (retries_count k)"
    and "distinct (remdups_adj (accounts_of log))" and "sends_obey log"
  using assms unfolding summarises_def by blast+

text \<open>One more send, on the current account or on one that was not tried, keeps the summary.\<close>

lemma summarises_send:
  assumes S: "summarises accounts k r log" and cap: "cap_admits (ar_cap r) (ar_total r)"
    and obey: "sends_obey ((c, a) # log)"
    and r': "ar_roster r' = ar_roster r" "ar_usable r' = ar_usable r" "ar_cap r' = ar_cap r"
      "ar_current r' = a" "Some ` ar_tried r' = insert a (Some ` ar_tried r)"
      "ar_tried r' \<subseteq> set accounts \<inter> ar_usable r"
      "ar_here r' = Suc (count_list (accounts_of log) a)" "ar_total r' = sat_add u32_max (ar_total r) 1"
    and few: "count_list (accounts_of log) a \<le> retries_count k"
    and place: "a = ar_current r \<or> a \<notin> set (accounts_of log)"
  shows "summarises accounts k r' ((c, a) # log)"
  unfolding summarises_def
proof (intro conjI allI)
  note D = summarisesD [OF S]
  obtain s log' where log: "log = s # log'"
    using D(2) by (cases log) auto
  show "ar_total r' = min u32_max (length ((c, a) # log))"
    using r'(8) D(7) by (simp add: sat_add_def)
  show "count_list (accounts_of ((c, a) # log)) b \<le> Suc (retries_count k)" for b
    using D(8) [of b] few by auto
  show "distinct (remdups_adj (accounts_of ((c, a) # log)))"
    using D(3,9) place by (cases "accounts_of log") (auto simp: log)
  have "length log \<le> ceiling" if "ar_cap r = AtMost ceiling" "ceiling < u32_max" for ceiling
    using cap_admits_room [OF cap [unfolded D(7)] that] .
  then show "case ar_cap r' of AtMost ceiling \<Rightarrow> ceiling < u32_max \<longrightarrow> length ((c, a) # log) \<le> Suc ceiling
      | UntilHalted \<Rightarrow> True"
    using r'(3) by (simp split: retries.splits)
qed (use r' summarisesD [OF S] obey in simp_all)

lemma summarises_again:
  assumes S: "summarises accounts k r log" and here: "ar_here r \<le> retries_count k"
    and cap: "cap_admits (ar_cap r) (ar_total r)"
    and obey: "sends_obey ((c, ar_current r) # log)"
  shows "summarises accounts k (round_apply Resend r) ((c, ar_current r) # log)"
proof (rule summarises_send [OF S cap obey])
  note D = summarisesD [OF S]
  have "ar_current r \<in> Some ` ar_tried r"
    using D(2-4) by (metis hd_in_set list.set_map imageI)
  then show "Some ` ar_tried (round_apply Resend r) = insert (ar_current r) (Some ` ar_tried r)"
    by (simp add: insert_absorb)
  have "ar_here r + 1 \<le> u32_max"
    using here retries_count_bound [of k] by (simp add: u_defs)
  then show "ar_here (round_apply Resend r) = Suc (count_list (accounts_of log) (ar_current r))"
    using D(6) by simp
qed (use here summarisesD [OF S] in simp_all)

lemma summarises_switch:
  assumes S: "summarises accounts k r log" and sw: "switch r = Switch a"
    and obey: "sends_obey ((c, Some a) # log)"
  shows "summarises accounts k (round_apply (Switch a) r) ((c, Some a) # log)"
proof (rule summarises_send [OF S _ obey])
  note D = summarisesD [OF S]
  note W = switch_Switch [OF sw D(1)]
  have fresh: "Some a \<notin> set (accounts_of log)"
    unfolding D(4) using W(3) by auto
  then have none: "count_list (accounts_of log) (Some a) = 0"
    by (simp add: count_list_0_iff)
  show "Some a = ar_current r \<or> Some a \<notin> set (accounts_of log)"
    using fresh by simp
  show "ar_here (round_apply (Switch a) r) = Suc (count_list (accounts_of log) (Some a))"
    "count_list (accounts_of log) (Some a) \<le> retries_count k"
    using none by simp_all
  show "ar_tried (round_apply (Switch a) r) \<subseteq> set accounts \<inter> ar_usable r"
    using W(1,2) D(5) by simp
qed (use switch_Switch [OF sw summarisesD(1) [OF S]] in simp_all)

lemma round_start_summarises:
  assumes "round_start (Several accounts k) usable cap held = Inr r0"
  shows "summarises accounts k r0 [(Opening, ar_current r0)]" and "ar_usable r0 = usable" and "ar_cap r0 = cap"
proof -
  obtain a where a: "opening_account accounts usable held = Some a"
    and r0: "r0 = \<lparr>ar_roster = Several accounts k, ar_usable = usable, ar_cap = cap, ar_current = Some a,
      ar_tried = {a}, ar_here = 1, ar_total = 1\<rparr>"
    using assms by (auto simp: round_start_def result_simps)
  have "a \<in> set accounts \<inter> usable"
    using a by (auto simp: opening_account_def find_Some_iff split: option.splits if_splits)
  then show "summarises accounts k r0 [(Opening, ar_current r0)]"
    by (simp add: summarises_def r0 u_defs split: retries.splits)
qed (use assms in \<open>auto simp: round_start_def result_simps\<close>)

lemma round_run_summarises:
  assumes "round_run r0 r log" and "summarises accounts k r0 [(Opening, ar_current r0)]"
  shows "summarises accounts k r log \<and> ar_usable r = ar_usable r0 \<and> ar_cap r = ar_cap r0"
  using assms
proof (induction rule: round_run.induct)
  case opened
  then show ?case by simp
next
  case (resent r log e)
  then have S: "summarises accounts k r log" by simp
  note D = summarisesD [OF S]
  note N = round_next_Resend [OF resent.hyps(2) D(1)]
  have "sends_obey ((After e, ar_current r) # log)"
    using D(2,3,10) N(3) by auto
  from summarises_again [OF S N(1,2) this] resent show ?case by simp
next
  case (switched r log e a)
  then have S: "summarises accounts k r log" by simp
  note D = summarisesD [OF S]
  note N = round_next_Switch [OF switched.hyps(2) D(1)]
  have "Some a \<notin> set (accounts_of log)"
    unfolding D(4) using switch_Switch(3) [OF N(1) D(1)] by auto
  then have "sends_obey ((After e, Some a) # log)"
    using D(2,10) N(2) by (auto split: retry.splits account_disposition.splits)
  from summarises_switch [OF S N(1) this] switched show ?case by simp
next
  case (repairs r log)
  then have S: "summarises accounts k r log" by simp
  note D = summarisesD [OF S]
  have "ar_here r \<le> retries_count k" "cap_admits (ar_cap r) (ar_total r)"
    using repairs.hyps(2) D(1) by (simp_all add: admits_repair_def)
  moreover have "sends_obey ((Repairing, ar_current r) # log)"
    using D(2,3,10) by simp
  ultimately show ?case
    using summarises_again [OF S] repairs D(1) by (simp add: repaired_def)
qed



section \<open>What a round can send\<close>

text \<open>C26. However a round over several accounts is driven, it sends on listed and redeemable
  accounts only, at most one time more on each than the person's retries, never comes back to an
  account it left, and its record is bounded by the accounts there are and by the ceiling, so every
  round ends (a ceiling of \<open>u32::MAX\<close> is none, because the count saturates there). A refused request
  is never sent again, an unusable account is never asked again, and a request whose effect is
  unknown stays on its account.
\<close>

theorem account_round_is_bounded:
  assumes "round_start (Several accounts k) usable cap held = Inr r0"
    and "round_run r0 r log"
  shows "set (accounts_of log) \<subseteq> Some ` (set accounts \<inter> usable) \<and>
    (\<forall>a. count_list (accounts_of log) a \<le> Suc (retries_count k)) \<and>
    length log \<le> card (set accounts \<inter> usable) * Suc (retries_count k) \<and>
    (\<forall>ceiling. cap = AtMost ceiling \<and> ceiling < u32_max \<longrightarrow> length log \<le> Suc ceiling) \<and>
    distinct (remdups_adj (accounts_of log)) \<and> sends_obey log"
proof (intro conjI allI impI)
  have S: "summarises accounts k r log" "ar_usable r = usable" "ar_cap r = cap"
    using round_run_summarises [OF assms(2) round_start_summarises(1) [OF assms(1)]]
      round_start_summarises(2,3) [OF assms(1)] by simp_all
  note D = summarisesD [OF S(1)]
  show inside: "set (accounts_of log) \<subseteq> Some ` (set accounts \<inter> usable)"
    unfolding D(4) using D(5) S(2) by (intro image_mono) simp
  show "count_list (accounts_of log) a \<le> Suc (retries_count k)" for a
    by (rule D(8))
  let ?all = "Some ` (set accounts \<inter> usable)"
  have "length log = (\<Sum>a \<in> ?all. count_list (accounts_of log) a)"
    using sum_count_set [OF inside] by simp
  also have "\<dots> \<le> card ?all * Suc (retries_count k)"
    using sum_bounded_above [of ?all "count_list (accounts_of log)" "Suc (retries_count k)"] D(8) by simp
  also have "card ?all = card (set accounts \<inter> usable)"
    by (rule card_image) simp
  finally show "length log \<le> card (set accounts \<inter> usable) * Suc (retries_count k)" .
  show "length log \<le> Suc ceiling" if "cap = AtMost ceiling \<and> ceiling < u32_max" for ceiling
    using S(1,3) that unfolding summarises_def by simp
  show "distinct (remdups_adj (accounts_of log))" "sends_obey log"
    using D(9,10) by simp_all
qed


text \<open>
  A round over two accounts: the first is busy, is asked once more, turns out unusable, and the
  request goes out on the second.
\<close>

definition example_busy :: ax_error where
  "example_busy = retriable (failure Provider [] [])"

definition example_unusable :: ax_error where
  "example_unusable = account_unusable (failure Provider [] [])"

definition example_accounts :: "server_label list" where
  "example_accounts = [ServerLabel [97], ServerLabel [98]]"

definition example_round :: account_round where
  "example_round = \<lparr>ar_roster = Several example_accounts One, ar_usable = set example_accounts,
     ar_cap = AtMost 4, ar_current = Some (ServerLabel [97]), ar_tried = {ServerLabel [97]},
     ar_here = 1, ar_total = 1\<rparr>"

definition example_sends :: sends where
  "example_sends =
     [(After example_unusable, Some (ServerLabel [98])), (After example_busy, Some (ServerLabel [97])),
      (Opening, Some (ServerLabel [97]))]"

lemma example_errors [simp]:
  "err_retry example_busy = Yes" "err_account example_busy = Keep"
  "err_retry example_unusable = No" "err_account example_unusable = Advance"
  by (simp_all add: example_busy_def example_unusable_def retriable_def account_unusable_def)

lemma example_round_starts:
  "round_start (Several example_accounts One) (set example_accounts) (AtMost 4) None = Inr example_round"
  by (simp add: round_start_def opening_account_def example_round_def example_accounts_def)

lemma example_round_runs: "\<exists>r. round_run example_round r example_sends"
proof -
  let ?r1 = "round_apply Resend example_round"
  have 0: "round_run example_round example_round [(Opening, Some (ServerLabel [97]))]"
    using round_run.opened [of example_round] by (simp add: example_round_def)
  have 1: "round_run example_round ?r1
      [(After example_busy, Some (ServerLabel [97])), (Opening, Some (ServerLabel [97]))]"
    using round_run.resent [OF 0, of example_busy]
    by (simp add: round_next_def resend_def example_round_def)
  have "round_next example_unusable ?r1 = Switch (ServerLabel [98])"
    by (simp add: round_next_def switch_def example_round_def example_accounts_def u_defs)
  from round_run.switched [OF 1 this] show ?thesis
    unfolding example_sends_def by (rule exI)
qed

theorem account_round_is_bounded_witness:
  "length example_sends \<le> card (set example_accounts) * 2 \<and> length example_sends \<le> Suc 4 \<and>
   sends_obey example_sends \<and>
   round_start (Several example_accounts One) (set example_accounts) (AtMost 4) None = Inr example_round \<and>
   (\<exists>r. round_run example_round r example_sends)"
proof -
  obtain r where run: "round_run example_round r example_sends"
    using example_round_runs by blast
  note bounded = account_round_is_bounded [OF example_round_starts run]
  show ?thesis
    using bounded run example_round_starts by (auto simp: u_defs)
qed

end
