(* ===== verification/Queues.thy ===== *)
theory Queues
  imports Ledgers
begin

text \<open>
  \<open>kernel/src/idem.rs\<close>, \<open>kernel/src/backpressure.rs\<close> and \<open>storage/src/queue.rs\<close>: the key an action is
  recognised by, the rule that admits one more item, and the queue that holds what was admitted.
  The extendable output of blake3 is an argument of the definitions that use it.

  The lemmas read the queue as a list: an admitted item is appended, a consumed one is the head, and
  what is refused or recognised changes nothing that is queued.
\<close>


section \<open>Keys\<close>

definition IDEM_DERIVE_V :: nat where
  "IDEM_DERIVE_V = 1"

datatype idem_key = IdemKey (ik_v: nat) (ik_digest: "nat list")

text \<open>The derived order compares the version, then the digest.\<close>

instantiation idem_key :: linorder
begin

definition less_eq_idem_key :: "idem_key \<Rightarrow> idem_key \<Rightarrow> bool" where
  "a \<le> b \<longleftrightarrow> ik_v a < ik_v b \<or> ik_v a = ik_v b \<and> ik_digest a \<le> ik_digest b"

definition less_idem_key :: "idem_key \<Rightarrow> idem_key \<Rightarrow> bool" where
  "a < b \<longleftrightarrow> ik_v a < ik_v b \<or> ik_v a = ik_v b \<and> ik_digest a < ik_digest b"

instance
  by standard (auto simp: less_eq_idem_key_def less_idem_key_def idem_key.expand)

end

definition idem_frame :: "run \<Rightarrow> seq \<Rightarrow> nat list \<Rightarrow> nat list" where
  "idem_frame who sq action_canonical = run_bytes who @ to_le_bytes 8 (seq_value sq) @ action_canonical"

definition idem_derive :: "(nat list \<Rightarrow> nat list) \<Rightarrow> run \<Rightarrow> seq \<Rightarrow> nat list \<Rightarrow> idem_key" where
  "idem_derive xof who sq action_canonical = IdemKey IDEM_DERIVE_V (xof (idem_frame who sq action_canonical))"

definition idem_parse :: "rstr \<Rightarrow> idem_key option" where
  "idem_parse raw =
     Option.bind (strip_prefix (lit ''idem'') raw) (\<lambda>rest.
     Option.bind (split_once 45 rest) (\<lambda>(v_raw, hex).
     if v_raw \<noteq> lit ''1'' then None
     else map_option (IdemKey IDEM_DERIVE_V) (decode_hex_fixed 16 hex)))"

definition show_idem_key :: "idem_key \<Rightarrow> rstr" where
  "show_idem_key k = lit ''idem'' @ show_nat (ik_v k) @ lit ''-'' @ write_hex (ik_digest k)"

datatype idem_outcome = Guard idem_key | Duplicate idem_key

definition idem_claim :: "idem_key \<Rightarrow> idem_key set \<Rightarrow> idem_outcome \<times> idem_key set" where
  "idem_claim k seen = (if k \<in> seen then (Duplicate k, seen) else (Guard k, insert k seen))"


section \<open>Admission\<close>

record queue_stats =
  qs_depth :: nat
  qs_capacity :: nat

datatype shed_reason = CapacityExhausted

datatype admission = Admit | Shed shed_reason

definition admit :: "queue_stats \<Rightarrow> nat \<Rightarrow> admission" where
  "admit stats cost =
     (case checked_add u64_max (qs_depth stats) cost of
        Some sum_cost \<Rightarrow> if sum_cost \<le> qs_capacity stats then Admit else Shed CapacityExhausted
      | None \<Rightarrow> Shed CapacityExhausted)"

lemma admit_Admit: "admit stats cost = Admit \<longleftrightarrow> qs_depth stats + cost \<le> min u64_max (qs_capacity stats)"
  by (auto simp: admit_def checked_add_def)


section \<open>The queue\<close>

definition IDEM_WINDOW_MS :: nat where
  "IDEM_WINDOW_MS = 6 * 60 * 60 * 1000"

datatype queue_lane = SignalLane | ApprovalLane | RepairLane

record queue_item =
  qi_id :: nat
  qi_key :: idem_key
  qi_payload :: payload
  qi_enqueued_t :: time_ms

record event_queue =
  eq_lane :: queue_lane
  eq_items :: "(nat, queue_item) btree"
  eq_next_id :: nat
  eq_seen :: "(idem_key, time_ms) btree"
  eq_capacity :: nat
  eq_shed :: nat
  eq_duplicates :: nat

definition queue_new :: "queue_lane \<Rightarrow> nat \<Rightarrow> event_queue" where
  "queue_new lane capacity =
     \<lparr>eq_lane = lane, eq_items = bt_empty, eq_next_id = 0, eq_seen = bt_empty, eq_capacity = capacity,
      eq_shed = 0, eq_duplicates = 0\<rparr>"

definition queue_len :: "event_queue \<Rightarrow> nat" where
  "queue_len q = min u64_max (length (eq_items q))"

definition queue_stats_of :: "event_queue \<Rightarrow> queue_stats" where
  "queue_stats_of q = \<lparr>qs_depth = queue_len q, qs_capacity = eq_capacity q\<rparr>"

definition forget_stale :: "time_ms \<Rightarrow> event_queue \<Rightarrow> event_queue" where
  "forget_stale now q =
     (if time_value now < IDEM_WINDOW_MS then q
      else q\<lparr>eq_seen := filter (\<lambda>e. time_value (snd e) > time_value now - IDEM_WINDOW_MS) (eq_seen q)\<rparr>)"

definition enqueue :: "idem_key \<Rightarrow> payload \<Rightarrow> time_ms \<Rightarrow> event_queue \<Rightarrow> admission \<times> event_queue" where
  "enqueue k p now q0 =
     (let q = forget_stale now q0 in
      if bt_get (eq_seen q) k \<noteq> None then
        (Admit, q\<lparr>eq_duplicates := sat_add u64_max (eq_duplicates q) 1\<rparr>)
      else
        (case admit (queue_stats_of q) 1 of
           Shed why \<Rightarrow> (Shed why, q\<lparr>eq_shed := sat_add u64_max (eq_shed q) 1\<rparr>)
         | Admit \<Rightarrow>
             (let i = eq_next_id q in
              (Admit, q\<lparr>eq_next_id := sat_add u64_max i 1, eq_seen := bt_insert k now (eq_seen q),
                 eq_items := bt_insert i \<lparr>qi_id = i, qi_key = k, qi_payload = p, qi_enqueued_t = now\<rparr>
                   (eq_items q)\<rparr>))))"

definition consume :: "event_queue \<Rightarrow> queue_item option \<times> event_queue" where
  "consume q =
     (case bt_keys (eq_items q) of
        [] \<Rightarrow> (None, q)
      | i # _ \<Rightarrow> (bt_get (eq_items q) i, q\<lparr>eq_items := bt_remove i (eq_items q)\<rparr>))"



section \<open>The queue as a list\<close>

definition contents :: "event_queue \<Rightarrow> queue_item list" where
  "contents q = map snd (eq_items q)"

definition queue_wf :: "event_queue \<Rightarrow> bool" where
  "queue_wf q \<longleftrightarrow> bt_wf (eq_items q) \<and> bt_wf (eq_seen q) \<and> (\<forall>i \<in> set (bt_keys (eq_items q)). i < eq_next_id q)"

definition seen_keys :: "event_queue \<Rightarrow> idem_key set" where
  "seen_keys q = set (bt_keys (eq_seen q))"

lemma queue_new_simps [simp]:
  "queue_wf (queue_new lane capacity)" "contents (queue_new lane capacity) = []"
  "seen_keys (queue_new lane capacity) = {}" "eq_next_id (queue_new lane capacity) = 0"
  "eq_capacity (queue_new lane capacity) = capacity"
  by (simp_all add: queue_wf_def contents_def seen_keys_def queue_new_def bt_empty_def bt_wf_def bt_keys_def)

lemma bt_insert_last:
  "(\<forall>k' \<in> set (bt_keys m). k' < k) \<Longrightarrow> bt_insert k v m = m @ [(k, v)]"
  by (induction k v m rule: bt_insert.induct) (auto simp: bt_keys_def)

lemma bt_wf_filter: "bt_wf m \<Longrightarrow> bt_wf (filter P m)"
  by (induction m) (auto simp: bt_wf_def)

lemma forget_stale_simps [simp]:
  "eq_items (forget_stale now q) = eq_items q" "eq_next_id (forget_stale now q) = eq_next_id q"
  "eq_capacity (forget_stale now q) = eq_capacity q" "contents (forget_stale now q) = contents q"
  "queue_len (forget_stale now q) = queue_len q"
  by (simp_all add: forget_stale_def contents_def queue_len_def)

lemma forget_stale_wf [simp]: "queue_wf q \<Longrightarrow> queue_wf (forget_stale now q)"
  by (auto simp: queue_wf_def forget_stale_def bt_wf_filter)

lemma forget_stale_seen: "seen_keys (forget_stale now q) \<subseteq> seen_keys q"
  by (auto simp: seen_keys_def forget_stale_def bt_keys_def)

text \<open>
  The three answers of \<open>enqueue\<close>: a key still remembered, a queue with no room, and an item at the
  end of the queue.
\<close>

lemma enqueue_cases:
  assumes "enqueue k p now q = (verdict, q')" and "queue_wf q" and "eq_next_id q < u64_max"
  obtains
    (known) "verdict = Admit" "k \<in> seen_keys (forget_stale now q)" "contents q' = contents q"
      "queue_wf q'" "eq_next_id q' = eq_next_id q" "seen_keys q' \<subseteq> seen_keys q" "eq_capacity q' = eq_capacity q"
  | (full) "verdict = Shed CapacityExhausted" "\<not> length (contents q) + 1 \<le> eq_capacity q \<or> u64_max \<le> length (contents q)"
      "contents q' = contents q" "queue_wf q'" "eq_next_id q' = eq_next_id q" "seen_keys q' \<subseteq> seen_keys q"
      "eq_capacity q' = eq_capacity q"
  | (fresh) "verdict = Admit" "k \<notin> seen_keys (forget_stale now q)"
      "contents q' = contents q @ [\<lparr>qi_id = eq_next_id q, qi_key = k, qi_payload = p, qi_enqueued_t = now\<rparr>]"
      "queue_wf q'" "eq_next_id q' = Suc (eq_next_id q)" "seen_keys q' \<subseteq> insert k (seen_keys q)"
      "eq_capacity q' = eq_capacity q"
proof -
  let ?q = "forget_stale now q"
  have wf: "queue_wf ?q" using assms(2) by simp
  have seen: "seen_keys ?q \<subseteq> seen_keys q" by (rule forget_stale_seen)
  consider "bt_get (eq_seen ?q) k \<noteq> None"
    | why where "bt_get (eq_seen ?q) k = None" "admit (queue_stats_of ?q) 1 = Shed why"
    | "bt_get (eq_seen ?q) k = None" "admit (queue_stats_of ?q) 1 = Admit"
    by (metis admission.exhaust)
  then show thesis
  proof cases
    case 1
    then have "q' = ?q\<lparr>eq_duplicates := sat_add u64_max (eq_duplicates ?q) 1\<rparr>" "verdict = Admit"
      using assms(1) by (simp_all add: enqueue_def Let_def)
    moreover have "k \<in> seen_keys ?q"
      using 1 by (simp add: seen_keys_def bt_keys_iff)
    ultimately show thesis
      using known wf seen by (simp add: contents_def queue_wf_def seen_keys_def)
  next
    case 2
    then have q': "q' = ?q\<lparr>eq_shed := sat_add u64_max (eq_shed ?q) 1\<rparr>" "verdict = Shed why"
      using assms(1) by (simp_all add: enqueue_def Let_def)
    have "\<not> queue_len ?q + 1 \<le> min u64_max (eq_capacity ?q)"
      using 2(2) admit_Admit [of "queue_stats_of ?q" 1] by (simp add: queue_stats_of_def)
    then have "\<not> length (contents q) + 1 \<le> eq_capacity q \<or> u64_max \<le> length (contents q)"
      by (auto simp: queue_len_def contents_def)
    then show thesis
      using full q' wf seen by (cases why) (simp add: contents_def queue_wf_def seen_keys_def)
  next
    case 3
    let ?it = "\<lparr>qi_id = eq_next_id q, qi_key = k, qi_payload = p, qi_enqueued_t = now\<rparr>"
    have q': "q' = ?q\<lparr>eq_next_id := Suc (eq_next_id q), eq_seen := bt_insert k now (eq_seen ?q),
        eq_items := eq_items q @ [(eq_next_id q, ?it)]\<rparr>" "verdict = Admit"
      using assms 3 bt_insert_last [of "eq_items q" "eq_next_id q"]
      by (simp_all add: enqueue_def Let_def queue_wf_def)
    have keys: "set (bt_keys (bt_insert k now (eq_seen ?q))) = insert k (seen_keys ?q)"
      using set_bt_insert [of k now "eq_seen ?q"] by (simp add: bt_keys_def seen_keys_def)
    have "bt_wf (eq_items q @ [(eq_next_id q, ?it)])"
      using assms(2) by (auto simp: queue_wf_def bt_wf_def bt_keys_def sorted_wrt_append)
    then have "queue_wf q'"
      using wf q'(1) assms(2) bt_wf_insert [of "eq_seen ?q" k now] by (auto simp: queue_wf_def bt_keys_def)
    moreover have "k \<notin> seen_keys ?q"
      using 3(1) by (simp add: seen_keys_def bt_keys_iff)
    moreover have "seen_keys q' \<subseteq> insert k (seen_keys q)"
      using q'(1) keys seen by (auto simp: seen_keys_def)
    ultimately show thesis
      using fresh q' by (simp add: contents_def)
  qed
qed

lemma consume_empty [simp]: "contents q = [] \<Longrightarrow> consume q = (None, q)"
  by (simp add: consume_def contents_def bt_keys_def)

lemma consume_head:
  assumes "queue_wf q" and "contents q = it # rest"
  obtains q' where "consume q = (Some it, q')" and "contents q' = rest" and "queue_wf q'"
    and "eq_next_id q' = eq_next_id q" and "seen_keys q' = seen_keys q" and "eq_capacity q' = eq_capacity q"
proof -
  obtain i m where items: "eq_items q = (i, it) # m" and rest: "map snd m = rest"
    using assms(2) by (cases "eq_items q") (auto simp: contents_def)
  have "\<forall>e \<in> set m. fst e \<noteq> i"
    using assms(1) items by (auto simp: queue_wf_def bt_wf_def)
  then have "bt_remove i (eq_items q) = m"
    unfolding items by (auto simp: bt_remove_def filter_id_conv)
  then have "consume q = (Some it, q\<lparr>eq_items := m\<rparr>)"
    using items by (simp add: consume_def bt_keys_def bt_get_def)
  moreover have "queue_wf (q\<lparr>eq_items := m\<rparr>)"
    using assms(1) items by (auto simp: queue_wf_def bt_wf_def bt_keys_def)
  ultimately show thesis
    using that rest by (simp add: contents_def seen_keys_def)
qed

end
