(* ===== verification/Inboxes.thy ===== *)
theory Inboxes
  imports Queues "HOL-Library.Multiset"
begin

text \<open>
  \<open>collab/src/inbox/signal.rs\<close>, \<open>collab/src/inbox.rs\<close> and the records they write from
  \<open>kernel/src/event/record/collaboration.rs\<close>: a signal between residents, the two lines and the
  returned signals of the side that receives it, and the slot the city drops signals into while a
  run holds the queue. The JSON a queued signal is held as is serde's: its two directions are a
  parameter, and the one law used of them is that what was written reads back.
\<close>


section \<open>Signals\<close>

datatype signal_id = SignalId (sid_str: rstr)

text \<open>How \<open>{:?}\<close> prints a text is an argument.\<close>

definition signal_id_parse :: "(rstr \<Rightarrow> rstr) \<Rightarrow> rstr \<Rightarrow> signal_id ax_result" where
  "signal_id_parse debug raw =
     (if raw = [] \<or> list_ex is_whitespace raw then
        Inl (with_recovery (lit ''use a non-empty id with no whitespace, such as a run id and a counter'')
          (failure InvalidArgs (lit ''read a signal id'') (debug raw)))
      else Inr (SignalId raw))"

datatype signal_kind = Mention | Thread | Broadcast | SteerKind

fun signal_kind_as_str :: "signal_kind \<Rightarrow> rstr" where
  "signal_kind_as_str Mention = lit ''mention''"
| "signal_kind_as_str Thread = lit ''thread''"
| "signal_kind_as_str Broadcast = lit ''broadcast''"
| "signal_kind_as_str SteerKind = lit ''steer''"

definition signal_kind_parse :: "rstr \<Rightarrow> signal_kind ax_result" where
  "signal_kind_parse raw =
     (if raw = lit ''mention'' then Inr Mention
      else if raw = lit ''thread'' then Inr Thread
      else if raw = lit ''broadcast'' then Inr Broadcast
      else if raw = lit ''steer'' then Inr SteerKind
      else Inl (with_recovery (lit ''mention, thread, broadcast or steer'')
        (failure InvalidArgs (lit ''read a signal kind'') raw)))"

datatype lane = Urgent | Ordinary

datatype sender_state = SenderRunning | SenderFrozen | SenderCancelled

fun sender_state_as_str :: "sender_state \<Rightarrow> rstr" where
  "sender_state_as_str SenderRunning = lit ''running''"
| "sender_state_as_str SenderFrozen = lit ''frozen''"
| "sender_state_as_str SenderCancelled = lit ''cancelled''"

record signal =
  sg_id :: signal_id
  sg_kind :: signal_kind
  sg_from :: rstr
  sg_room :: address
  sg_room_version :: nat
  sg_payload :: payload
  sg_at :: time_ms
  sg_sender :: "sender_state option"
  sg_run :: "run option"

record signal_enqueued =
  se_id :: signal_id
  se_kind :: signal_kind
  se_from :: rstr
  se_room :: address
  se_room_version :: nat
  se_payload :: payload
  se_at :: time_ms
  se_lane :: "lane option"

record queued =
  qd_line :: signal_enqueued
  qd_sender :: "sender_state option"
  qd_run :: "run option"

definition signal_new ::
  "signal_id \<Rightarrow> signal_kind \<Rightarrow> rstr \<Rightarrow> address \<Rightarrow> nat \<Rightarrow> payload \<Rightarrow> time_ms \<Rightarrow> signal ax_result" where
  "signal_new sid k sent_from room version p at =
     (if sent_from = [] then
        Inl (with_recovery (lit ''name the sender; a signal is read as coming from someone'')
          (failure InvalidArgs (lit ''build a signal'') (sid_str sid)))
      else
        Inr \<lparr>sg_id = sid, sg_kind = k, sg_from = sent_from, sg_room = room, sg_room_version = version,
             sg_payload = p, sg_at = at, sg_sender = None, sg_run = None\<rparr>)"

definition sent_by :: "run \<Rightarrow> signal \<Rightarrow> signal" where
  "sent_by who s = s\<lparr>sg_run := Some who\<rparr>"

definition delivered :: "sender_state \<Rightarrow> signal \<Rightarrow> signal" where
  "delivered state s = s\<lparr>sg_sender := Some state\<rparr>"

definition signal_lane :: "signal \<Rightarrow> lane" where
  "signal_lane s = (case sg_kind s of SteerKind \<Rightarrow> Urgent | _ \<Rightarrow> Ordinary)"

definition enqueued_line :: "signal \<Rightarrow> signal_enqueued" where
  "enqueued_line s =
     \<lparr>se_id = sg_id s, se_kind = sg_kind s, se_from = sg_from s, se_room = sg_room s,
      se_room_version = sg_room_version s, se_payload = sg_payload s, se_at = sg_at s,
      se_lane = Some (signal_lane s)\<rparr>"

definition from_line :: "signal_enqueued \<Rightarrow> signal ax_result" where
  "from_line l = signal_new (se_id l) (se_kind l) (se_from l) (se_room l) (se_room_version l) (se_payload l) (se_at l)"


section \<open>Payloads of records\<close>

text \<open>
  \<open>Payload::of\<close> after \<open>serde_json::to_value\<close> answered, and \<open>Payload::read\<close> after the deserialiser did;
  an error of serde is its text.
\<close>

definition payload_of :: "rstr + json \<Rightarrow> payload ax_result" where
  "payload_of encoded =
     and_then
       (map_err (\<lambda>err. with_recovery (lit ''give the record string keys and integer numbers only'')
          (failure InvalidArgs (lit ''encode a ledger payload'') err)) encoded) (\<lambda>v.
     case v of
       JObject entries \<Rightarrow> payload_new entries
     | _ \<Rightarrow>
         Inl (with_recovery (lit ''a ledger payload is an object; record this fact as a struct'')
           (failure InvalidArgs (lit ''encode a ledger payload'')
             (lit ''the record did not encode to a JSON object''))))"

definition payload_read :: "rstr + 'a \<Rightarrow> 'a ax_result" where
  "payload_read decoded =
     map_err (\<lambda>err. with_recovery (lit ''replay with the build that wrote this record'')
       (failure WireMismatch (lit ''read a ledger payload'') err)) decoded"

record signal_codec =
  sc_xof :: "nat list \<Rightarrow> nat list"
  sc_to_value :: "queued \<Rightarrow> rstr + json"
  sc_deserialize :: "payload \<Rightarrow> rstr + queued"

definition queued_payload :: "signal_codec \<Rightarrow> signal \<Rightarrow> payload ax_result" where
  "queued_payload c s =
     payload_of (sc_to_value c \<lparr>qd_line = enqueued_line s, qd_sender = sg_sender s, qd_run = sg_run s\<rparr>)"

definition from_queued :: "signal_codec \<Rightarrow> payload \<Rightarrow> signal ax_result" where
  "from_queued c p =
     and_then (payload_read (sc_deserialize c p)) (\<lambda>q.
     and_then (from_line (qd_line q)) (\<lambda>s.
     Inr (s\<lparr>sg_sender := qd_sender q, sg_run := qd_run q\<rparr>)))"


section \<open>The inbox\<close>

record inbox =
  ib_urgent :: event_queue
  ib_ordinary :: event_queue
  ib_returned :: "signal list"
  ib_bandwidth :: nat

definition inbox_new :: "nat \<Rightarrow> nat \<Rightarrow> inbox" where
  "inbox_new capacity bandwidth =
     \<lparr>ib_urgent = queue_new SignalLane capacity, ib_ordinary = queue_new SignalLane capacity,
      ib_returned = [], ib_bandwidth = max bandwidth 1\<rparr>"

definition signal_key :: "signal_codec \<Rightarrow> signal \<Rightarrow> idem_key" where
  "signal_key c s = idem_derive (sc_xof c) run_CITY seq_FIRST (utf8 (sid_str (sg_id s)))"

definition deliver :: "signal_codec \<Rightarrow> signal \<Rightarrow> inbox \<Rightarrow> admission ax_result \<times> inbox" where
  "deliver c s ib =
     (case queued_payload c s of
        Inl e \<Rightarrow> (Inl e, ib)
      | Inr p \<Rightarrow>
          (case signal_lane s of
             Urgent \<Rightarrow>
               (let (verdict, q) = enqueue (signal_key c s) p (sg_at s) (ib_urgent ib)
                in (Inr verdict, ib\<lparr>ib_urgent := q\<rparr>))
           | Ordinary \<Rightarrow>
               (let (verdict, q) = enqueue (signal_key c s) p (sg_at s) (ib_ordinary ib)
                in (Inr verdict, ib\<lparr>ib_ordinary := q\<rparr>))))"

definition give_back :: "signal list \<Rightarrow> inbox \<Rightarrow> inbox" where
  "give_back ss ib = ib\<lparr>ib_returned := fold (#) (rev ss) (ib_returned ib)\<rparr>"

text \<open>The next item of the two lines, the urgent one first.\<close>

definition take_item :: "inbox \<Rightarrow> queue_item option \<times> inbox" where
  "take_item ib =
     (case consume (ib_urgent ib) of
        (Some it, q) \<Rightarrow> (Some it, ib\<lparr>ib_urgent := q\<rparr>)
      | (None, q) \<Rightarrow>
          (case consume (ib_ordinary ib) of
             (found, q') \<Rightarrow> (found, ib\<lparr>ib_urgent := q, ib_ordinary := q'\<rparr>)))"

text \<open>The loop of \<open>pull\<close>, by how many signals it may still take.\<close>

fun pull_loop :: "signal_codec \<Rightarrow> nat \<Rightarrow> signal list \<Rightarrow> inbox \<Rightarrow> signal list ax_result \<times> inbox" where
  "pull_loop c 0 out ib = (Inr out, ib)"
| "pull_loop c (Suc more_of) out ib =
     (case ib_returned ib of
        s # rest \<Rightarrow> pull_loop c more_of (out @ [s]) (ib\<lparr>ib_returned := rest\<rparr>)
      | [] \<Rightarrow>
          (case take_item ib of
             (None, ib') \<Rightarrow> (Inr out, ib')
           | (Some it, ib') \<Rightarrow>
               (case from_queued c (qi_payload it) of
                  Inl e \<Rightarrow> (Inl e, ib')
                | Inr s \<Rightarrow> pull_loop c more_of (out @ [s]) ib')))"

definition inbox_pull :: "signal_codec \<Rightarrow> inbox \<Rightarrow> signal list ax_result \<times> inbox" where
  "inbox_pull c ib = pull_loop c (ib_bandwidth ib) [] ib"

text \<open>The first element a test holds of, and the list without it.\<close>

fun pick_first :: "('a \<Rightarrow> bool) \<Rightarrow> 'a list \<Rightarrow> ('a \<times> 'a list) option" where
  "pick_first P [] = None"
| "pick_first P (x # xs) =
     (if P x then Some (x, xs) else map_option (\<lambda>(y, rest). (y, x # rest)) (pick_first P xs))"

definition inbox_take_steer :: "signal_codec \<Rightarrow> inbox \<Rightarrow> signal option \<times> inbox" where
  "inbox_take_steer c ib =
     (case pick_first (\<lambda>s. signal_lane s = Urgent) (ib_returned ib) of
        Some (s, rest) \<Rightarrow> (Some s, ib\<lparr>ib_returned := rest\<rparr>)
      | None \<Rightarrow>
          (case consume (ib_urgent ib) of
             (None, q) \<Rightarrow> (None, ib\<lparr>ib_urgent := q\<rparr>)
           | (Some it, q) \<Rightarrow>
               ((case from_queued c (qi_payload it) of Inl _ \<Rightarrow> None | Inr s \<Rightarrow> Some s),
                ib\<lparr>ib_urgent := q\<rparr>)))"

definition pending :: "inbox \<Rightarrow> nat" where
  "pending ib =
     sat_add u32_max
       (min u32_max (sat_add u64_max (queue_len (ib_urgent ib)) (queue_len (ib_ordinary ib))))
       (min u32_max (length (ib_returned ib)))"


section \<open>The slot\<close>

text \<open>A slot behind its lock, which a thread that died leaves poisoned.\<close>

record mailslot =
  ms_waiting :: "signal list"
  ms_poisoned :: bool

definition poisoned_slot :: ax_error where
  "poisoned_slot =
     with_recovery (lit ''restart this city'')
       (failure StorageFatal (lit ''reach a room's mailslot'')
         (lit ''the slot was left locked by a thread that died''))"

definition drop_in :: "signal \<Rightarrow> nat \<Rightarrow> mailslot \<Rightarrow> admission ax_result \<times> mailslot" where
  "drop_in s capacity slot =
     (if ms_poisoned slot then (Inl poisoned_slot, slot)
      else if min u64_max (length (ms_waiting slot)) \<ge> capacity then (Inr (Shed CapacityExhausted), slot)
      else (Inr Admit, slot\<lparr>ms_waiting := ms_waiting slot @ [s]\<rparr>))"

definition slot_take :: "mailslot \<Rightarrow> signal list ax_result \<times> mailslot" where
  "slot_take slot =
     (if ms_poisoned slot then (Inl poisoned_slot, slot)
      else (Inr (ms_waiting slot), slot\<lparr>ms_waiting := []\<rparr>))"



section \<open>Lines that are taken from the front\<close>

text \<open>What a client of a line relies on: taking answers the head of what the line holds.\<close>

locale front_line =
  fixes take_one :: "'q \<Rightarrow> 'x option \<times> 'q"
    and view :: "'q \<Rightarrow> 'x list"
    and ok :: "'q \<Rightarrow> bool"
  assumes take_none: "ok q \<Longrightarrow> view q = [] \<Longrightarrow> \<exists>q'. take_one q = (None, q') \<and> view q' = [] \<and> ok q'"
    and take_head: "ok q \<Longrightarrow> view q = x # xs \<Longrightarrow> \<exists>q'. take_one q = (Some x, q') \<and> view q' = xs \<and> ok q'"
begin

lemma take_one_view:
  assumes "ok q"
  obtains q' where "take_one q = (case view q of [] \<Rightarrow> None | x # _ \<Rightarrow> Some x, q')"
    and "view q' = tl (view q)" and "ok q'"
  using take_none [OF assms] take_head [OF assms] by (cases "view q") fastforce+

end

interpretation queue_line: front_line consume contents queue_wf
proof
  fix q x xs
  assume "queue_wf q" "contents q = x # xs"
  then obtain q' where "consume q = (Some x, q')" "contents q' = xs" "queue_wf q'"
    by (rule consume_head)
  then show "\<exists>q'. consume q = (Some x, q') \<and> contents q' = xs \<and> queue_wf q'"
    by blast
qed simp

abbreviation lines_wf :: "inbox \<Rightarrow> bool" where
  "lines_wf ib \<equiv> queue_wf (ib_urgent ib) \<and> queue_wf (ib_ordinary ib)"

definition line_items :: "inbox \<Rightarrow> queue_item list" where
  "line_items ib = contents (ib_urgent ib) @ contents (ib_ordinary ib)"

text \<open>What taking an item leaves alone.\<close>

definition same_frame :: "inbox \<Rightarrow> inbox \<Rightarrow> bool" where
  "same_frame ib ib' \<longleftrightarrow>
     ib_bandwidth ib' = ib_bandwidth ib \<and>
     seen_keys (ib_urgent ib') = seen_keys (ib_urgent ib) \<and> seen_keys (ib_ordinary ib') = seen_keys (ib_ordinary ib) \<and>
     eq_next_id (ib_urgent ib') = eq_next_id (ib_urgent ib) \<and> eq_next_id (ib_ordinary ib') = eq_next_id (ib_ordinary ib) \<and>
     eq_capacity (ib_urgent ib') = eq_capacity (ib_urgent ib) \<and> eq_capacity (ib_ordinary ib') = eq_capacity (ib_ordinary ib)"

lemma same_frame_refl [simp]: "same_frame ib ib"
  by (simp add: same_frame_def)

lemma same_frame_trans: "same_frame a b \<Longrightarrow> same_frame b d \<Longrightarrow> same_frame a d"
  by (simp add: same_frame_def)

lemma take_item_none:
  assumes "line_items ib = []"
  shows "take_item ib = (None, ib)"
  using assms by (simp add: take_item_def line_items_def)

lemma take_item_head:
  assumes "lines_wf ib" and "line_items ib = it # rest"
  obtains ib' where "take_item ib = (Some it, ib')" and "line_items ib' = rest" and "lines_wf ib'"
    and "same_frame ib ib'" and "ib_returned ib' = ib_returned ib"
    and "length (contents (ib_urgent ib')) \<le> length (contents (ib_urgent ib))"
    and "length (contents (ib_ordinary ib')) \<le> length (contents (ib_ordinary ib))"
    and "set (contents (ib_urgent ib')) \<subseteq> set (contents (ib_urgent ib))"
    and "set (contents (ib_ordinary ib')) \<subseteq> set (contents (ib_ordinary ib))"
proof (cases "contents (ib_urgent ib)")
  case Nil
  then have "contents (ib_ordinary ib) = it # rest"
    using assms(2) by (simp add: line_items_def)
  with assms(1) obtain q where "consume (ib_ordinary ib) = (Some it, q)" "contents q = rest" "queue_wf q"
    "eq_next_id q = eq_next_id (ib_ordinary ib)" "seen_keys q = seen_keys (ib_ordinary ib)"
    "eq_capacity q = eq_capacity (ib_ordinary ib)"
    using consume_head [of "ib_ordinary ib" it rest] by blast
  then show thesis
    using that [of "ib\<lparr>ib_ordinary := q\<rparr>"] Nil assms \<open>contents (ib_ordinary ib) = it # rest\<close>
    by (auto simp: take_item_def line_items_def same_frame_def)
next
  case (Cons x xs)
  then have "contents (ib_urgent ib) = it # xs" and rest: "rest = xs @ contents (ib_ordinary ib)"
    using assms(2) by (simp_all add: line_items_def)
  with assms(1) obtain q where "consume (ib_urgent ib) = (Some it, q)" "contents q = xs" "queue_wf q"
    "eq_next_id q = eq_next_id (ib_urgent ib)" "seen_keys q = seen_keys (ib_urgent ib)"
    "eq_capacity q = eq_capacity (ib_urgent ib)"
    using consume_head [of "ib_urgent ib" it xs] by blast
  then show thesis
    using that [of "ib\<lparr>ib_urgent := q\<rparr>"] Cons assms rest
    by (auto simp: take_item_def line_items_def same_frame_def)
qed

interpretation two_lines: front_line take_item line_items lines_wf
proof
  fix ib x xs
  assume "lines_wf ib" "line_items ib = x # xs"
  then obtain ib' where "take_item ib = (Some x, ib')" "line_items ib' = xs" "lines_wf ib'"
    by (rule take_item_head)
  then show "\<exists>ib'. take_item ib = (Some x, ib') \<and> line_items ib' = xs \<and> lines_wf ib'"
    by blast
qed (auto intro: exI simp: take_item_none)


section \<open>The inbox as a list of signals\<close>

definition signal_of :: "signal_codec \<Rightarrow> queue_item \<Rightarrow> signal" where
  "signal_of c it = projr (from_queued c (qi_payload it))"

definition readable :: "signal_codec \<Rightarrow> lane \<Rightarrow> queue_item \<Rightarrow> bool" where
  "readable c l it \<longleftrightarrow> (\<exists>s. from_queued c (qi_payload it) = Inr s \<and> signal_lane s = l)"

definition inbox_wf :: "signal_codec \<Rightarrow> inbox \<Rightarrow> bool" where
  "inbox_wf c ib \<longleftrightarrow> lines_wf ib \<and> 1 \<le> ib_bandwidth ib \<and>
     list_all (readable c Urgent) (contents (ib_urgent ib)) \<and>
     list_all (readable c Ordinary) (contents (ib_ordinary ib))"

definition waiting_signals :: "signal_codec \<Rightarrow> inbox \<Rightarrow> signal list" where
  "waiting_signals c ib = ib_returned ib @ map (signal_of c) (line_items ib)"

text \<open>The law of the parameter: what serde wrote of a signal's queued form, it reads back.\<close>

definition codec_reads_back :: "signal_codec \<Rightarrow> bool" where
  "codec_reads_back c \<longleftrightarrow>
     (\<forall>q entries p. sc_to_value c q = Inr (JObject entries) \<longrightarrow> payload_new entries = Inr p \<longrightarrow>
        sc_deserialize c p = Inr q)"

lemma payload_of_Inr:
  "payload_of r = Inr p \<longleftrightarrow> (\<exists>entries. r = Inr (JObject entries) \<and> payload_new entries = Inr p)"
proof (cases r)
  case (Inr v)
  then show ?thesis by (cases v) (simp_all add: payload_of_def)
qed (simp add: payload_of_def)

lemma from_queued_payload:
  assumes "codec_reads_back c" and "queued_payload c s = Inr p" and "sg_from s \<noteq> []"
  shows "from_queued c p = Inr s"
proof -
  let ?q = "\<lparr>qd_line = enqueued_line s, qd_sender = sg_sender s, qd_run = sg_run s\<rparr>"
  obtain entries where "sc_to_value c ?q = Inr (JObject entries)" "payload_new entries = Inr p"
    using assms(2) by (auto simp: queued_payload_def payload_of_Inr)
  then have "sc_deserialize c p = Inr ?q"
    using assms(1) by (auto simp: codec_reads_back_def)
  then show ?thesis
    using assms(3) by (simp add: from_queued_def payload_read_def from_line_def signal_new_def enqueued_line_def)
qed

lemma inbox_new_simps [simp]:
  "inbox_wf c (inbox_new capacity bandwidth)" "waiting_signals c (inbox_new capacity bandwidth) = []"
  by (simp_all add: inbox_wf_def inbox_new_def waiting_signals_def line_items_def)

lemma give_back_simps [simp]:
  "ib_returned (give_back ss ib) = ss @ ib_returned ib" "inbox_wf c (give_back ss ib) = inbox_wf c ib"
  "waiting_signals c (give_back ss ib) = ss @ waiting_signals c ib" "same_frame ib (give_back ss ib)"
  "contents (ib_urgent (give_back ss ib)) = contents (ib_urgent ib)"
  "contents (ib_ordinary (give_back ss ib)) = contents (ib_ordinary ib)"
  by (simp_all add: give_back_def fold_Cons_rev inbox_wf_def waiting_signals_def line_items_def same_frame_def)



text \<open>What the lines count: how many were ever admitted, and whether one more would be.\<close>

definition lines_below :: "nat \<Rightarrow> inbox \<Rightarrow> bool" where
  "lines_below n ib \<longleftrightarrow> eq_next_id (ib_urgent ib) \<le> n \<and> eq_next_id (ib_ordinary ib) \<le> n"

lemma lines_below_mono: "lines_below m ib \<Longrightarrow> m \<le> n \<Longrightarrow> lines_below n ib"
  by (auto simp: lines_below_def)

definition known_keys :: "inbox \<Rightarrow> idem_key set" where
  "known_keys ib = seen_keys (ib_urgent ib) \<union> seen_keys (ib_ordinary ib)"

lemma same_frame_counts:
  "same_frame ib ib' \<Longrightarrow> lines_below n ib' = lines_below n ib"
  "same_frame ib ib' \<Longrightarrow> known_keys ib' = known_keys ib"
  by (simp_all add: same_frame_def lines_below_def known_keys_def)

subsection \<open>Taking\<close>

lemma pull_loop_takes:
  assumes "inbox_wf c ib"
  obtains ib' where "pull_loop c n out ib = (Inr (out @ take n (waiting_signals c ib)), ib')"
    and "waiting_signals c ib' = drop n (waiting_signals c ib)" and "inbox_wf c ib'" and "same_frame ib ib'"
    and "length (contents (ib_urgent ib')) \<le> length (contents (ib_urgent ib))"
    and "length (contents (ib_ordinary ib')) \<le> length (contents (ib_ordinary ib))"
  using assms
proof (induction n arbitrary: out ib thesis)
  case 0
  then show ?case by simp
next
  case (Suc n)
  show ?case
  proof (cases "ib_returned ib")
    case (Cons s rest)
    let ?ib = "ib\<lparr>ib_returned := rest\<rparr>"
    have "inbox_wf c ?ib" and w: "waiting_signals c ib = s # waiting_signals c ?ib"
      using Suc.prems(2) Cons by (simp_all add: inbox_wf_def waiting_signals_def line_items_def)
    from Suc.IH [OF _ this(1), of "out @ [s]"] obtain ib' where
      "pull_loop c n (out @ [s]) ?ib = (Inr ((out @ [s]) @ take n (waiting_signals c ?ib)), ib')"
      "waiting_signals c ib' = drop n (waiting_signals c ?ib)" "inbox_wf c ib'" "same_frame ?ib ib'"
      "length (contents (ib_urgent ib')) \<le> length (contents (ib_urgent ?ib))"
      "length (contents (ib_ordinary ib')) \<le> length (contents (ib_ordinary ?ib))"
      by blast
    then show ?thesis
      using Suc.prems(1) Cons w by (simp add: same_frame_def)
  next
    case Nil
    show ?thesis
    proof (cases "line_items ib")
      case items: Nil
      then show ?thesis
        using Suc.prems Nil take_item_none [OF items] by (simp add: waiting_signals_def)
    next
      case items: (Cons it rest)
      have wf: "lines_wf ib" using Suc.prems(2) by (simp add: inbox_wf_def)
      obtain ib1 where taken: "take_item ib = (Some it, ib1)" "line_items ib1 = rest" "lines_wf ib1"
        "same_frame ib ib1" "ib_returned ib1 = ib_returned ib"
        and lens: "length (contents (ib_urgent ib1)) \<le> length (contents (ib_urgent ib))"
        "length (contents (ib_ordinary ib1)) \<le> length (contents (ib_ordinary ib))"
        and subs: "set (contents (ib_urgent ib1)) \<subseteq> set (contents (ib_urgent ib))"
        "set (contents (ib_ordinary ib1)) \<subseteq> set (contents (ib_ordinary ib))"
        using take_item_head [OF wf items] by blast
      have "it \<in> set (line_items ib)" using items by simp
      then obtain s where s: "from_queued c (qi_payload it) = Inr s"
        using Suc.prems(2) by (auto simp: inbox_wf_def line_items_def list_all_iff readable_def)
      have w: "waiting_signals c ib = s # waiting_signals c ib1"
        using items taken(2,5) Nil s by (simp add: waiting_signals_def signal_of_def)
      have "inbox_wf c ib1"
        using Suc.prems(2) taken(3,4) subs by (auto simp: inbox_wf_def list_all_iff same_frame_def)
      from Suc.IH [OF _ this, of "out @ [s]"] obtain ib' where
        ib': "pull_loop c n (out @ [s]) ib1 = (Inr ((out @ [s]) @ take n (waiting_signals c ib1)), ib')"
        "waiting_signals c ib' = drop n (waiting_signals c ib1)" "inbox_wf c ib'" "same_frame ib1 ib'"
        "length (contents (ib_urgent ib')) \<le> length (contents (ib_urgent ib1))"
        "length (contents (ib_ordinary ib')) \<le> length (contents (ib_ordinary ib1))"
        by blast
      show ?thesis
      proof (rule Suc.prems(1))
        show "pull_loop c (Suc n) out ib = (Inr (out @ take (Suc n) (waiting_signals c ib)), ib')"
          using Nil taken(1) s ib'(1) w by simp
        show "same_frame ib ib'"
          using taken(4) ib'(4) by (rule same_frame_trans)
      qed (use ib' w lens in simp_all)
    qed
  qed
qed

lemma inbox_pull_takes:
  assumes "inbox_wf c ib"
  obtains ib' where "inbox_pull c ib = (Inr (take (ib_bandwidth ib) (waiting_signals c ib)), ib')"
    and "waiting_signals c ib' = drop (ib_bandwidth ib) (waiting_signals c ib)" and "inbox_wf c ib'"
    and "same_frame ib ib'"
    and "length (contents (ib_urgent ib')) \<le> length (contents (ib_urgent ib))"
    and "length (contents (ib_ordinary ib')) \<le> length (contents (ib_ordinary ib))"
proof -
  obtain ib' where "pull_loop c (ib_bandwidth ib) [] ib = (Inr ([] @ take (ib_bandwidth ib) (waiting_signals c ib)), ib')"
    and "waiting_signals c ib' = drop (ib_bandwidth ib) (waiting_signals c ib)" and "inbox_wf c ib'"
    and "same_frame ib ib'"
    and "length (contents (ib_urgent ib')) \<le> length (contents (ib_urgent ib))"
    and "length (contents (ib_ordinary ib')) \<le> length (contents (ib_ordinary ib))"
    using pull_loop_takes [OF assms, of "ib_bandwidth ib" "[]"] by blast
  then show thesis by (intro that) (simp_all add: inbox_pull_def)
qed


lemma pick_first_Some:
  "pick_first P xs = Some (x, rest) \<Longrightarrow> P x \<and> (\<exists>ys zs. xs = ys @ x # zs \<and> rest = ys @ zs \<and> (\<forall>y \<in> set ys. \<not> P y))"
proof (induction xs arbitrary: rest)
  case (Cons y xs)
  show ?case
  proof (cases "P y")
    case True
    then show ?thesis using Cons.prems by (auto intro: exI [of _ "[]"])
  next
    case False
    then obtain rest' where "pick_first P xs = Some (x, rest')" "rest = y # rest'"
      using Cons.prems by auto
    with Cons.IH [of rest'] False show ?thesis
      by (metis append_Cons set_ConsD)
  qed
qed simp

lemma inbox_take_steer_cases:
  assumes "inbox_wf c ib" and "inbox_take_steer c ib = (found, ib')"
  obtains (none) "found = None" "ib' = ib"
  | (some) s where "found = Some s" "signal_lane s = Urgent"
      "mset (waiting_signals c ib) = add_mset s (mset (waiting_signals c ib'))"
      "inbox_wf c ib'" "same_frame ib ib'"
      "length (contents (ib_urgent ib')) \<le> length (contents (ib_urgent ib))"
      "contents (ib_ordinary ib') = contents (ib_ordinary ib)"
proof (cases "pick_first (\<lambda>s. signal_lane s = Urgent) (ib_returned ib)")
  case (Some sr)
  then obtain s rest where sr: "pick_first (\<lambda>s. signal_lane s = Urgent) (ib_returned ib) = Some (s, rest)"
    by (cases sr) auto
  from pick_first_Some [OF this] obtain ys zs where
    "signal_lane s = Urgent" "ib_returned ib = ys @ s # zs" "rest = ys @ zs" by blast
  then show thesis
    using sr assms some by (auto simp: inbox_take_steer_def inbox_wf_def waiting_signals_def line_items_def same_frame_def)
next
  case None
  show thesis
  proof (cases "contents (ib_urgent ib)")
    case Nil
    then show thesis using None assms none by (simp add: inbox_take_steer_def)
  next
    case (Cons it rest)
    have "queue_wf (ib_urgent ib)" using assms(1) by (simp add: inbox_wf_def)
    then obtain q where q: "consume (ib_urgent ib) = (Some it, q)" "contents q = rest" "queue_wf q"
      "eq_next_id q = eq_next_id (ib_urgent ib)" "seen_keys q = seen_keys (ib_urgent ib)"
      "eq_capacity q = eq_capacity (ib_urgent ib)"
      using consume_head [of "ib_urgent ib" it rest] Cons by blast
    obtain s where s: "from_queued c (qi_payload it) = Inr s" "signal_lane s = Urgent"
      using assms(1) Cons by (auto simp: inbox_wf_def readable_def)
    have res: "found = Some s" "ib' = ib\<lparr>ib_urgent := q\<rparr>"
      using assms(2) None q(1) s(1) by (simp_all add: inbox_take_steer_def)
    show thesis
      by (rule some [of s])
        (use res s q Cons assms(1) in \<open>simp_all add: inbox_wf_def waiting_signals_def line_items_def
          same_frame_def signal_of_def\<close>)
  qed
qed

subsection \<open>Delivering\<close>

text \<open>One line of the two: an item enqueued for a signal is readable in that signal's line.\<close>

lemma enqueue_signal:
  assumes "enqueue k p now q = (verdict, q')" and "queue_wf q" and "eq_next_id q < u64_max"
    and "list_all (readable c l) (contents q)" and "from_queued c p = Inr s" and "signal_lane s = l"
  obtains
    (known) "verdict = Admit" "k \<in> seen_keys q" "contents q' = contents q"
      "queue_wf q'" "eq_next_id q' = eq_next_id q" "seen_keys q' \<subseteq> insert k (seen_keys q)" "eq_capacity q' = eq_capacity q"
  | (full) "verdict = Shed CapacityExhausted" "eq_capacity q \<le> length (contents q) \<or> u64_max \<le> length (contents q)"
      "contents q' = contents q" "queue_wf q'" "eq_next_id q' = eq_next_id q" "seen_keys q' \<subseteq> insert k (seen_keys q)"
      "eq_capacity q' = eq_capacity q"
  | (fresh) it where "verdict = Admit" "contents q' = contents q @ [it]" "signal_of c it = s" "readable c l it"
      "queue_wf q'" "eq_next_id q' = Suc (eq_next_id q)" "seen_keys q' \<subseteq> insert k (seen_keys q)"
      "eq_capacity q' = eq_capacity q"
  using assms(1,2,3)
proof (cases rule: enqueue_cases)
  case known
  then show ?thesis using that(1) forget_stale_seen [of now q] by blast
next
  case full
  then show ?thesis using that(2) by (simp add: not_le subset_insertI2 less_Suc_eq_le)
next
  case fresh
  then show ?thesis using that(3) assms(5,6) by (simp add: signal_of_def readable_def)
qed


lemma contents_bound: "queue_wf q \<Longrightarrow> length (contents q) \<le> eq_next_id q"
proof -
  assume wf: "queue_wf q"
  have "length (contents q) = card (set (bt_keys (eq_items q)))"
    using wf distinct_card [of "map fst (eq_items q)"]
    by (simp add: queue_wf_def contents_def bt_keys_def bt_wf_distinct)
  also have "\<dots> \<le> card {..< eq_next_id q}"
    using wf by (intro card_mono) (auto simp: queue_wf_def)
  finally show ?thesis by simp
qed

definition least_capacity :: "inbox \<Rightarrow> nat" where
  "least_capacity ib = min (eq_capacity (ib_urgent ib)) (eq_capacity (ib_ordinary ib))"

definition delivery_keeps :: "signal_codec \<Rightarrow> nat \<Rightarrow> signal \<Rightarrow> inbox \<Rightarrow> inbox \<Rightarrow> bool" where
  "delivery_keeps c n s ib ib' \<longleftrightarrow> inbox_wf c ib' \<and> lines_below (Suc n) ib' \<and>
     known_keys ib' \<subseteq> insert (signal_key c s) (known_keys ib) \<and> least_capacity ib' = least_capacity ib \<and>
     ib_bandwidth ib' = ib_bandwidth ib"

lemma deliver_cases:
  assumes out: "deliver c s ib = (r, ib')" and wf: "inbox_wf c ib" and law: "codec_reads_back c"
    and sender: "sg_from s \<noteq> []" and below: "lines_below n ib" "n < u64_max"
  obtains (refused) e where "r = Inl e" "queued_payload c s = Inl e" "ib' = ib"
  | (known) "r = Inr Admit" "signal_key c s \<in> known_keys ib" "mset (waiting_signals c ib') = mset (waiting_signals c ib)"
      "delivery_keeps c n s ib ib'"
  | (full) "r = Inr (Shed CapacityExhausted)" "least_capacity ib \<le> n"
      "mset (waiting_signals c ib') = mset (waiting_signals c ib)" "delivery_keeps c n s ib ib'"
  | (fresh) "r = Inr Admit" "mset (waiting_signals c ib') = add_mset s (mset (waiting_signals c ib))"
      "delivery_keeps c n s ib ib'"
proof (cases "queued_payload c s")
  case (Inl e)
  then show thesis using refused [of e] out by (auto simp: deliver_def)
next
  case (Inr p)
  note reads = from_queued_payload [OF law Inr sender]
  note defs = delivery_keeps_def inbox_wf_def lines_below_def known_keys_def least_capacity_def
    waiting_signals_def line_items_def
  show thesis
  proof (cases "signal_lane s")
    case Urgent
    obtain verdict q where enq: "enqueue (signal_key c s) p (sg_at s) (ib_urgent ib) = (verdict, q)"
      by fastforce
    then have res: "r = Inr verdict" "ib' = ib\<lparr>ib_urgent := q\<rparr>"
      using out Inr Urgent by (simp_all add: deliver_def)
    have q: "queue_wf (ib_urgent ib)" "eq_next_id (ib_urgent ib) < u64_max" "eq_next_id (ib_urgent ib) \<le> n"
      "list_all (readable c Urgent) (contents (ib_urgent ib))"
      using wf below by (auto simp: inbox_wf_def lines_below_def)
    from enq q(1,2,4) reads Urgent show thesis
    proof (cases rule: enqueue_signal)
      case known
      then show thesis using res that(2) wf below by (auto simp: defs)
    next
      case full
      have "least_capacity ib \<le> n"
        using full(2) contents_bound [OF q(1)] q(3) below(2) by (auto simp: least_capacity_def)
      then show thesis
        by (intro that(3)) (use full res wf below in \<open>auto simp: defs\<close>)
    next
      case (fresh it)
      then show thesis using res that(4) wf below by (auto simp: defs)
    qed
  next
    case Ordinary
    obtain verdict q where enq: "enqueue (signal_key c s) p (sg_at s) (ib_ordinary ib) = (verdict, q)"
      by fastforce
    then have res: "r = Inr verdict" "ib' = ib\<lparr>ib_ordinary := q\<rparr>"
      using out Inr Ordinary by (simp_all add: deliver_def)
    have q: "queue_wf (ib_ordinary ib)" "eq_next_id (ib_ordinary ib) < u64_max" "eq_next_id (ib_ordinary ib) \<le> n"
      "list_all (readable c Ordinary) (contents (ib_ordinary ib))"
      using wf below by (auto simp: inbox_wf_def lines_below_def)
    from enq q(1,2,4) reads Ordinary show thesis
    proof (cases rule: enqueue_signal)
      case known
      then show thesis using res that(2) wf below by (auto simp: defs)
    next
      case full
      have "least_capacity ib \<le> n"
        using full(2) contents_bound [OF q(1)] q(3) below(2) by (auto simp: least_capacity_def)
      then show thesis
        by (intro that(3)) (use full res wf below in \<open>auto simp: defs\<close>)
    next
      case (fresh it)
      then show thesis using res that(4) wf below by (auto simp: defs)
    qed
  qed
qed



lemma saturated_sum:
  "u \<le> (v :: nat) \<Longrightarrow> min u (min u (min v (min v a + min v b)) + min u r) = min u (r + (a + b))"
  by (simp add: min_def)

lemma pending_counts: "pending ib = min u32_max (length (waiting_signals c ib))"
  using saturated_sum [of u32_max u64_max]
  by (simp add: pending_def waiting_signals_def line_items_def queue_len_def contents_def sat_add_def u_defs)

end
