(* ===== verification/SignalDesks.thy ===== *)
theory SignalDesks
  imports Inboxes ClaimDesks
begin

text \<open>
  \<open>collab/src/signal_desk.rs\<close>, \<open>collab/src/reply_wait.rs\<close>, \<open>collab/src/steer.rs\<close> and the routing of
  \<open>collab/src/signal_tool.rs\<close>: a run's side of the signal traffic. A desk holds the inbox of its room
  on loan, the slot the city drops signals into, the signals it took and nobody's answer has read
  yet, and at most one wait for a reply. The post, which records every line, is a function on a
  state of its own; it may refuse, and each refusal is a branch here.
\<close>


section \<open>Words at their landing\<close>

datatype steer = Steer (steer_text: rstr)

definition non_empty :: "rstr \<Rightarrow> rstr ax_result" where
  "non_empty t =
     (if trim t = [] then
        Inl (with_recovery (lit ''say what should change; a steer with no words costs a turn'')
          (failure InvalidArgs (lit ''build a steer'') (lit ''empty text'')))
      else Inr (trim t))"

definition steer_from_person :: "rstr \<Rightarrow> steer ax_result" where
  "steer_from_person t = and_then (non_empty t) (\<lambda>words. Inr (Steer words))"

datatype letter_kind = SteerLetter | ReplyLetter

record letter =
  lt_from :: rstr
  lt_run :: "run option"
  lt_kind :: letter_kind
  lt_sender :: "sender_state option"
  lt_text :: rstr

definition letter_reply :: "signal \<Rightarrow> letter" where
  "letter_reply s =
     \<lparr>lt_from = sg_from s, lt_run = sg_run s, lt_kind = ReplyLetter, lt_sender = sg_sender s,
      lt_text = trim (case arg_str ''text'' (payload_map (sg_payload s)) of Some t \<Rightarrow> t | None \<Rightarrow> [])\<rparr>"

definition letter_from_signal :: "signal \<Rightarrow> letter ax_result" where
  "letter_from_signal s =
     (if sg_kind s \<noteq> SteerKind then
        Inl (with_recovery (lit ''only a steer-kind signal overtakes; deliver the rest to the inbox'')
          (failure InvalidArgs (lit ''read a signal as a steer'') (signal_kind_as_str (sg_kind s))))
      else
        (let l = letter_reply s in
         and_then (non_empty (lt_text l)) (\<lambda>words. Inr (l\<lparr>lt_text := words, lt_kind := SteerLetter\<rparr>))))"

definition sender_note :: "sender_state \<Rightarrow> rstr" where
  "sender_note state = lit ''(the sender's run was '' @ sender_state_as_str state @ lit '' when this arrived)''"


section \<open>Waiting for a reply\<close>

definition PATIENCE_MS :: nat where
  "PATIENCE_MS = 240000"

datatype wait_end = WaitReply signal_id | WaitTimeout | WaitLeft

record signal_wait_started =
  ws_on :: address
  ws_signal :: signal_id
  ws_deadline_ms :: nat

datatype signal_effect =
    Enqueued signal
  | Consumed signal rstr
  | WaitStarted signal_wait_started
  | WaitEnded signal_id wait_end

record reply_wait =
  rw_on :: address
  rw_signal :: signal_id
  rw_deadline :: "time_ms option"
  rw_kept :: "signal option"

definition wait_asked :: "address \<Rightarrow> signal_id \<Rightarrow> reply_wait" where
  "wait_asked on sid = \<lparr>rw_on = on, rw_signal = sid, rw_deadline = None, rw_kept = None\<rparr>"

definition wait_answers :: "reply_wait \<Rightarrow> address \<Rightarrow> signal \<Rightarrow> bool" where
  "wait_answers w room s \<longleftrightarrow> sg_from s = addr_str (rw_on w) \<and> sg_room s = room"

definition wait_keep :: "signal \<Rightarrow> address \<Rightarrow> reply_wait \<Rightarrow> signal option \<times> reply_wait" where
  "wait_keep s room w =
     (if rw_kept w = None \<and> wait_answers w room s then (None, w\<lparr>rw_kept := Some s\<rparr>) else (Some s, w))"

definition wait_unkeep :: "reply_wait \<Rightarrow> signal option \<times> reply_wait" where
  "wait_unkeep w = (rw_kept w, w\<lparr>rw_kept := None\<rparr>)"

definition wait_park :: "time_ms \<Rightarrow> reply_wait \<Rightarrow> (time_ms \<times> signal_wait_started option) \<times> reply_wait" where
  "wait_park now w =
     (case rw_deadline w of
        Some deadline \<Rightarrow> ((deadline, None), w)
      | None \<Rightarrow>
          (let deadline = TimeMs (sat_add u64_max (time_value now) PATIENCE_MS) in
           ((deadline, Some \<lparr>ws_on = rw_on w, ws_signal = rw_signal w, ws_deadline_ms = time_value deadline\<rparr>),
            w\<lparr>rw_deadline := Some deadline\<rparr>)))"

definition wait_promise :: "reply_wait \<Rightarrow> rstr" where
  "wait_promise w =
     lit ''you stop at your next step without a model call until '' @ addr_str (rw_on w) @
     lit '' replies or '' @ show_nat (PATIENCE_MS div 1000) @ lit '' s pass''"

definition wait_ended :: "reply_wait \<Rightarrow> wait_end \<Rightarrow> signal_effect" where
  "wait_ended w how = WaitEnded (rw_signal w) how"

text \<open>The \<open>wait\<close> argument of a send; how a JSON value prints is an argument.\<close>

definition wait_wanted :: "(json \<Rightarrow> rstr) \<Rightarrow> json_map \<Rightarrow> bool \<Rightarrow> bool ax_result" where
  "wait_wanted show_json args already =
     and_then
       (case bt_get args (lit ''wait'') of
          None \<Rightarrow> Inr False
        | Some v \<Rightarrow>
            if v = JNull then Inr False
            else if v = JBool True \<or> v = JString (lit ''true'') then Inr True
            else if v = JBool False \<or> v = JString (lit ''false'') then Inr False
            else Inl (with_recovery (lit ''pass `wait` as true or false, or leave it out'')
              (failure InvalidArgs (lit ''send a signal'') (lit ''`wait` is '' @ show_json v)))) (\<lambda>wants.
     if wants \<and> already then
       Inl (with_recovery (lit ''send without `wait`; the wait you started ends on its own'')
         (failure InvalidArgs (lit ''send a signal'') (lit ''this run already waits for a reply'')))
     else Inr wants)"

datatype wait_turn = Idle | Waiting | Replied letter | TimedOut rstr


section \<open>The desk\<close>

record 'p signal_desk =
  sd_run :: run
  sd_room :: address
  sd_who :: rstr
  sd_reach :: address
  sd_at :: time_ms
  sd_inbox :: inbox
  sd_slot :: mailslot
  sd_post :: 'p
  sd_held :: "signal list"
  sd_waiting :: "reply_wait option"
  sd_unread :: "signal list"
  sd_minted :: nat

text \<open>What a desk is given: the codec, the printers of the libraries, and the post.\<close>

record 'p desk_env =
  de_codec :: signal_codec
  de_show_json :: "json \<Rightarrow> rstr"
  de_hyphenated :: "nat list \<Rightarrow> rstr"
  de_debug :: "rstr \<Rightarrow> rstr"
  de_write :: "signal_effect \<Rightarrow> 'p \<Rightarrow> unit ax_result \<times> 'p"

type_synonym ('p, 'a) desk_step = "'p signal_desk \<Rightarrow> 'a ax_result \<times> 'p signal_desk"

definition desk_then :: "'a ax_result \<times> 's \<Rightarrow> ('a \<Rightarrow> 's \<Rightarrow> 'b ax_result \<times> 's) \<Rightarrow> 'b ax_result \<times> 's" where
  "desk_then r f = (case r of (Inl e, s) \<Rightarrow> (Inl e, s) | (Inr x, s) \<Rightarrow> f x s)"

definition signal_desk_new ::
  "run \<Rightarrow> address \<Rightarrow> rstr \<Rightarrow> address \<Rightarrow> time_ms \<Rightarrow> inbox \<Rightarrow> mailslot \<Rightarrow> 'p \<Rightarrow> 'p signal_desk" where
  "signal_desk_new who_runs room who reach at ib slot post =
     \<lparr>sd_run = who_runs, sd_room = room, sd_who = who, sd_reach = reach, sd_at = at, sd_inbox = ib,
      sd_slot = slot, sd_post = post, sd_held = [], sd_waiting = None, sd_unread = [], sd_minted = 0\<rparr>"

definition post_line :: "'p desk_env \<Rightarrow> signal_effect \<Rightarrow> ('p, unit) desk_step" where
  "post_line env eff d =
     (case de_write env eff (sd_post d) of (r, p) \<Rightarrow> (r, d\<lparr>sd_post := p\<rparr>))"

definition desk_admit :: "'p desk_env \<Rightarrow> signal \<Rightarrow> ('p, unit) desk_step" where
  "desk_admit env s d =
     (case deliver (de_codec env) s (sd_inbox d) of
        (Inl e, ib) \<Rightarrow> (Inl e, d\<lparr>sd_inbox := ib\<rparr>)
      | (Inr (Shed _), ib) \<Rightarrow>
          (Inl (with_recovery (lit ''the queue is full; pull what is waiting, then ask again'')
             (failure BackpressureShed (lit ''deliver a signal to a running room'')
               (lit ''room '' @ addr_str (sd_room d) @ lit '' shed signal '' @ sid_str (sg_id s)))),
           d\<lparr>sd_inbox := ib\<rparr>)
      | (Inr Admit, ib) \<Rightarrow> (Inr (), d\<lparr>sd_inbox := ib\<rparr>))"

text \<open>The loop of \<open>collect\<close> over what it took out of the slot: an error drops the rest of it.\<close>

fun collect_each :: "'p desk_env \<Rightarrow> signal list \<Rightarrow> ('p, unit) desk_step" where
  "collect_each env [] d = (Inr (), d)"
| "collect_each env (s # rest) d =
     (let (queue_it, d1) =
        (case sd_waiting d of
           Some w \<Rightarrow> (case wait_keep s (sd_room d) w of (given, w') \<Rightarrow> (given, d\<lparr>sd_waiting := Some w'\<rparr>))
         | None \<Rightarrow> (Some s, d)) in
      case queue_it of
        None \<Rightarrow> collect_each env rest d1
      | Some s' \<Rightarrow> desk_then (desk_admit env s' d1) (\<lambda>_ d2. collect_each env rest d2))"

definition take_slot :: "('p, signal list) desk_step" where
  "take_slot d = (case slot_take (sd_slot d) of (r, slot) \<Rightarrow> (r, d\<lparr>sd_slot := slot\<rparr>))"

definition collect :: "'p desk_env \<Rightarrow> ('p, unit) desk_step" where
  "collect env d = desk_then (take_slot d) (\<lambda>arrived d. collect_each env arrived d)"

definition desk_take_steer :: "'p desk_env \<Rightarrow> ('p, letter option) desk_step" where
  "desk_take_steer env d =
     desk_then (collect env d) (\<lambda>_ d.
     case inbox_take_steer (de_codec env) (sd_inbox d) of
       (None, ib) \<Rightarrow> (Inr None, d\<lparr>sd_inbox := ib\<rparr>)
     | (Some s, ib) \<Rightarrow>
         (let d = d\<lparr>sd_inbox := ib\<rparr> in
          case letter_from_signal s of
            Inr l \<Rightarrow> (Inr (Some l), d\<lparr>sd_held := sd_held d @ [s]\<rparr>)
          | Inl unreadable \<Rightarrow>
              desk_then (post_line env (Consumed s (sd_who d)) d) (\<lambda>_ d. (Inl unreadable, d))))"

text \<open>The loop of \<open>answered\<close>: what was not recorded stays held.\<close>

fun answer_each :: "'p desk_env \<Rightarrow> signal list \<Rightarrow> ('p, unit) desk_step" where
  "answer_each env [] d = (Inr (), d)"
| "answer_each env (s # rest) d =
     (case post_line env (Consumed s (sd_who d)) d of
        (Inl refused, d') \<Rightarrow> (Inl refused, d'\<lparr>sd_held := s # rest\<rparr>)
      | (Inr _, d') \<Rightarrow> answer_each env rest d')"

definition answered :: "'p desk_env \<Rightarrow> ('p, unit) desk_step" where
  "answered env d = answer_each env (sd_held d) (d\<lparr>sd_held := []\<rparr>)"

definition take_inbox :: "'p signal_desk \<Rightarrow> inbox \<times> 'p signal_desk" where
  "take_inbox d =
     (let (kept, waiting) =
        (case sd_waiting d of
           None \<Rightarrow> (None, None)
         | Some w \<Rightarrow> (case wait_unkeep w of (k, w') \<Rightarrow> (k, Some w')));
        (arrived, slot) = slot_take (sd_slot d);
        unread = sd_held d @ (case kept of None \<Rightarrow> [] | Some s \<Rightarrow> [s]) @
          (case arrived of Inl _ \<Rightarrow> [] | Inr ss \<Rightarrow> ss)
      in (give_back unread (sd_inbox d),
          d\<lparr>sd_held := [], sd_waiting := waiting, sd_slot := slot, sd_unread := unread,
            sd_inbox := inbox_new 0 1\<rparr>))"

definition take_unread :: "'p signal_desk \<Rightarrow> signal list \<times> 'p signal_desk" where
  "take_unread d = (sd_unread d, d\<lparr>sd_unread := []\<rparr>)"


definition text_arg :: "json_map \<Rightarrow> string \<Rightarrow> rstr \<Rightarrow> rstr ax_result" where
  "text_arg args key action =
     ok_or (with_recovery (lit ''pass `'' @ lit key @ lit ''` as a string'')
       (failure InvalidArgs action (lit ''missing string argument `'' @ lit key @ lit ''`'')))
       (arg_str key args)"

definition mint :: "'p desk_env \<Rightarrow> ('p, signal_id) desk_step" where
  "mint env d =
     (case checked_add u32_max (sd_minted d) 1 of
        None \<Rightarrow>
          (Inl (with_recovery (lit ''freeze the run and dispatch again'')
             (failure InvalidArgs (lit ''mint a signal id'')
               (lit ''this run has sent as many signals as one run can''))), d)
      | Some n \<Rightarrow>
          (signal_id_parse (de_debug env) (de_hyphenated env (run_bytes (sd_run d)) @ lit ''-s'' @ show_nat n),
           d\<lparr>sd_minted := n\<rparr>))"

definition VERSION_FIRST :: nat where
  "VERSION_FIRST = 1"

text \<open>The arguments of a send, up to the address, the kind and the words.\<close>

definition send_args :: "json_map \<Rightarrow> 'p signal_desk \<Rightarrow> (address \<times> signal_kind \<times> rstr) ax_result" where
  "send_args args d =
     and_then (text_arg args ''to'' (lit ''send a signal'')) (\<lambda>raw.
     and_then (address_parse raw) (\<lambda>to_room.
     if \<not> is_within to_room (sd_reach d) then
       Inl (with_recovery
         (lit ''signal an address inside '' @ addr_str (sd_reach d) @ lit '', or ask the User to carry it across'')
         (failure CrossBuildingDenied (lit ''send a signal'') (addr_str to_room)))
     else
       and_then
         (case arg_str ''kind'' args of Some raw \<Rightarrow> signal_kind_parse raw | None \<Rightarrow> Inr Mention) (\<lambda>k.
       and_then (text_arg args ''text'' (lit ''send a signal'')) (\<lambda>body.
       Inr (to_room, k, body)))))"

definition desk_send :: "'p desk_env \<Rightarrow> json_map \<Rightarrow> ('p, payload) desk_step" where
  "desk_send env args d0 =
     desk_then (send_args args d0, d0) (\<lambda>(to_room, k, body) d.
     desk_then (mint env d) (\<lambda>sid d.
     desk_then (answer [(lit ''text'', JString body)], d) (\<lambda>p d.
     desk_then (signal_new sid k (sd_who d) to_room VERSION_FIRST p (sd_at d), d) (\<lambda>s d.
     desk_then (wait_wanted (de_show_json env) args (sd_waiting d \<noteq> None), d) (\<lambda>wants d.
     desk_then (post_line env (Enqueued s) d) (\<lambda>_ d.
     let told =
       [(lit ''id'', JString (sid_str (sg_id s))), (lit ''to'', JString (addr_str to_room)),
        (lit ''kind'', JString (signal_kind_as_str (sg_kind s))), (lit ''delivered'', JBool True)]
     in
     if wants then
       (let w = wait_asked to_room (sg_id s) in
        (answer (told @ [(lit ''waiting'', JString (wait_promise w))]), d\<lparr>sd_waiting := Some w\<rparr>))
     else (answer told, d)))))))"

definition pull_row :: "signal \<Rightarrow> json" where
  "pull_row s =
     JObject (fold (\<lambda>(key, v). bt_insert key v)
       ([(lit ''from'', JString (sg_from s)), (lit ''kind'', JString (signal_kind_as_str (sg_kind s))),
         (lit ''text'', (case bt_get (payload_map (sg_payload s)) (lit ''text'') of Some v \<Rightarrow> v | None \<Rightarrow> JString []))] @
        (case sg_sender s of Some state \<Rightarrow> [(lit ''sender'', JString (sender_note state))] | None \<Rightarrow> []))
       bt_empty)"

definition desk_pull :: "'p desk_env \<Rightarrow> ('p, payload) desk_step" where
  "desk_pull env d0 =
     desk_then (collect env d0) (\<lambda>_ d.
     desk_then (case inbox_pull (de_codec env) (sd_inbox d) of (r, ib) \<Rightarrow> (r, d\<lparr>sd_inbox := ib\<rparr>)) (\<lambda>taken d.
     (answer [(lit ''signals'', JArray (map pull_row taken)),
              (lit ''remaining'', JNumber (PosInt (pending (sd_inbox d))))],
      d\<lparr>sd_held := sd_held d @ taken\<rparr>)))"

text \<open>The loop of \<open>wait_out\<close> over the slot: the first reply is set aside, the rest is queued.\<close>

fun wait_each :: "'p desk_env \<Rightarrow> reply_wait \<Rightarrow> signal option \<Rightarrow> signal list \<Rightarrow> ('p, signal option) desk_step" where
  "wait_each env w reply [] d = (Inr reply, d)"
| "wait_each env w reply (s # rest) d =
     (if reply = None \<and> wait_answers w (sd_room d) s then wait_each env w (Some s) rest d
      else desk_then (desk_admit env s d) (\<lambda>_ d. wait_each env w reply rest d))"

text \<open>What \<open>wait_out\<close> does once its slot is queued.\<close>

definition wait_rest :: "'p desk_env \<Rightarrow> time_ms \<Rightarrow> time_ms \<Rightarrow> reply_wait \<Rightarrow> signal option \<Rightarrow> ('p, wait_turn) desk_step" where
  "wait_rest env now deadline w reply d =
     (case reply of
        Some s \<Rightarrow>
          desk_then (post_line env (wait_ended w (WaitReply (sg_id s))) d) (\<lambda>_ d.
          (Inr (Replied (letter_reply s)), d\<lparr>sd_waiting := None, sd_held := sd_held d @ [s]\<rparr>))
      | None \<Rightarrow>
          if time_value now < time_value deadline then (Inr Waiting, d)
          else
            desk_then (post_line env (wait_ended w WaitTimeout) d) (\<lambda>_ d.
            (Inr (TimedOut (lit ''no reply came from '' @ addr_str (rw_on w) @ lit '' within '' @
               show_nat (PATIENCE_MS div 1000) @ lit '' s; go on without it'')),
             d\<lparr>sd_waiting := None\<rparr>)))"

definition wait_out :: "'p desk_env \<Rightarrow> time_ms \<Rightarrow> ('p, wait_turn) desk_step" where
  "wait_out env now d0 =
     (case sd_waiting d0 of
        None \<Rightarrow> (Inr Idle, d0)
      | Some w0 \<Rightarrow>
          (case wait_park now w0 of ((deadline, started), w1) \<Rightarrow>
             desk_then
               (case started of
                  None \<Rightarrow> (Inr (), d0)
                | Some line \<Rightarrow>
                    desk_then (post_line env (WaitStarted line) d0) (\<lambda>_ d. (Inr (), d\<lparr>sd_waiting := Some w1\<rparr>))) (\<lambda>_ d.
             case wait_unkeep w1 of (kept, w) \<Rightarrow>
             desk_then (take_slot d) (\<lambda>arrived d.
             desk_then (wait_each env w kept arrived d) (\<lambda>reply d.
             wait_rest env now deadline w reply d)))))"

definition wait_left :: "'p desk_env \<Rightarrow> ('p, unit) desk_step" where
  "wait_left env d =
     (case sd_waiting d of
        None \<Rightarrow> (Inr (), d)
      | Some w0 \<Rightarrow>
          (case wait_unkeep w0 of (kept, w) \<Rightarrow>
             let d = d\<lparr>sd_waiting := None,
                 sd_inbox := (case kept of Some s \<Rightarrow> give_back [s] (sd_inbox d) | None \<Rightarrow> sd_inbox d)\<rparr> in
             case rw_deadline w of
               Some _ \<Rightarrow> post_line env (wait_ended w WaitLeft) d
             | None \<Rightarrow> (Inr (), d)))"

definition signal_invoke :: "'p desk_env \<Rightarrow> rstr \<Rightarrow> json_map \<Rightarrow> ('p, payload) desk_step" where
  "signal_invoke env name args d =
     (if name \<noteq> lit ''signal'' then
        (Inl (with_recovery (lit ''call `signal`, the name this tool answers to'')
           (failure InvalidArgs (lit ''send a signal'') (lit ''call routed to the wrong tool: '' @ name))), d)
      else
        desk_then (text_arg args ''action'' (lit ''read a signal action''), d) (\<lambda>action d.
        if action = lit ''send'' then desk_send env args d
        else if action = lit ''pull'' then desk_pull env d
        else
          (Inl (with_recovery (lit ''use `send` or `pull`'')
             (failure InvalidArgs (lit ''read a signal action'') action)), d)))"

end
