(* ===== verification/MailMoves.thy ===== *)
theory MailMoves
  imports SignalDesks
begin

text \<open>
  What becomes of the mail of a room over any run of the desk's operations, with any post. The
  account of a desk is every signal it can still be asked for or has recorded as consumed: the slot,
  the inbox, the signals held, the reply kept, and the consumed lines the post accepted. The account
  never grows but by what the city drops in, so nothing is read twice; and while the post accepts
  and the lines have room it never shrinks, so nothing is lost.
\<close>


section \<open>The account of a desk\<close>

definition kept_of :: "'p signal_desk \<Rightarrow> signal multiset" where
  "kept_of d = (case sd_waiting d of None \<Rightarrow> {#} | Some w \<Rightarrow> (case rw_kept w of None \<Rightarrow> {#} | Some s \<Rightarrow> {#s#}))"

text \<open>The signals a desk has taken out of the slot and still has.\<close>

definition desk_mail :: "signal_codec \<Rightarrow> 'p signal_desk \<Rightarrow> signal multiset" where
  "desk_mail c d = mset (waiting_signals c (sd_inbox d)) + mset (sd_held d) + kept_of d"

text \<open>The post with a record of the lines it accepted.\<close>

definition logging :: "'p desk_env \<Rightarrow> ('p \<times> signal_effect list) desk_env" where
  "logging env =
     \<lparr>de_codec = de_codec env, de_show_json = de_show_json env, de_hyphenated = de_hyphenated env,
      de_debug = de_debug env,
      de_write = (\<lambda>eff (p, accepted).
        case de_write env eff p of
          (Inl e, p') \<Rightarrow> (Inl e, (p', accepted))
        | (Inr _, p') \<Rightarrow> (Inr (), (p', accepted @ [eff])))\<rparr>"

fun consumed_by :: "signal_effect \<Rightarrow> signal multiset" where
  "consumed_by (Consumed s _) = {#s#}"
| "consumed_by _ = {#}"

definition consumed_mail :: "signal_effect list \<Rightarrow> signal multiset" where
  "consumed_mail effs = sum_list (map consumed_by effs)"

definition account :: "signal_codec \<Rightarrow> ('p \<times> signal_effect list) signal_desk \<Rightarrow> signal multiset" where
  "account c d = mset (ms_waiting (sd_slot d)) + desk_mail c d + consumed_mail (snd (sd_post d))"

lemma consumed_mail_simps [simp]:
  "consumed_mail [] = {#}" "consumed_mail (effs @ [eff]) = consumed_mail effs + consumed_by eff"
  by (simp_all add: consumed_mail_def)

lemma logging_codec [simp]: "de_codec (logging env) = de_codec env"
  by (simp add: logging_def)

text \<open>A line posted: accepted and recorded, or refused and nothing changed but the post.\<close>

definition accepting :: "'p desk_env \<Rightarrow> bool" where
  "accepting env \<longleftrightarrow> (\<forall>eff p. is_ok (fst (de_write env eff p)))"

lemma post_line_cases:
  assumes "post_line (logging env) eff d = (r, d')"
  obtains (accepted) p where "r = Inr ()" "d' = d\<lparr>sd_post := p\<rparr>"
      "consumed_mail (snd p) = consumed_mail (snd (sd_post d)) + consumed_by eff"
  | (refused) e p where "r = Inl e" "d' = d\<lparr>sd_post := p\<rparr>" "snd p = snd (sd_post d)" "\<not> accepting env"
proof (cases "de_write env eff (fst (sd_post d))")
  case (Pair r' p')
  obtain p0 effs where post: "sd_post d = (p0, effs)" by fastforce
  show thesis
  proof (cases r')
    case (Inl e)
    have "\<not> accepting env"
      unfolding accepting_def using Pair Inl by (metis fst_conv is_ok_simps(2))
    then show thesis
      using refused [of e "(p', effs)"] assms Pair Inl post by (auto simp: post_line_def logging_def)
  next
    case (Inr u)
    then show thesis
      using accepted [of "(p', effs @ [eff])"] assms Pair post by (auto simp: post_line_def logging_def)
  qed
qed


section \<open>Queueing what the slot held\<close>

definition settled :: "signal_codec \<Rightarrow> nat \<Rightarrow> inbox \<Rightarrow> bool" where
  "settled c m ib \<longleftrightarrow> inbox_wf c ib \<and> lines_below m ib"

definition signed :: "signal list \<Rightarrow> bool" where
  "signed ss \<longleftrightarrow> (\<forall>s \<in> set ss. sg_from s \<noteq> [])"

definition roomy :: "signal_codec \<Rightarrow> nat \<Rightarrow> signal list \<Rightarrow> inbox \<Rightarrow> bool" where
  "roomy c m ss ib \<longleftrightarrow> (\<forall>s \<in> set ss. is_ok (queued_payload c s)) \<and> distinct (map (signal_key c) ss) \<and>
     signal_key c ` set ss \<inter> known_keys ib = {} \<and> m + length ss \<le> least_capacity ib"

text \<open>What queueing a list of signals does to the inbox, whatever it answers.\<close>

definition grows :: "signal_codec \<Rightarrow> nat \<Rightarrow> signal list \<Rightarrow> inbox \<Rightarrow> inbox \<Rightarrow> bool" where
  "grows c m ss ib ib' \<longleftrightarrow> settled c (m + length ss) ib' \<and> known_keys ib' \<subseteq> known_keys ib \<union> signal_key c ` set ss \<and>
     least_capacity ib' = least_capacity ib"

lemma grows_none: "settled c m ib \<Longrightarrow> grows c m ss ib ib"
  by (auto simp: grows_def settled_def lines_below_mono)

lemma grows_one:
  "grows c m [s] ib ib1 \<Longrightarrow> grows c (Suc m) ss ib1 ib2 \<Longrightarrow> grows c m (s # ss) ib ib2"
  by (auto simp: grows_def)

lemma apart_from_insert: "B \<subseteq> insert k K \<Longrightarrow> k \<notin> A \<Longrightarrow> A \<inter> K = {} \<Longrightarrow> A \<inter> B = {}"
  by blast

lemma roomy_rest:
  "roomy c m (s # ss) ib \<Longrightarrow> grows c m [s] ib ib1 \<Longrightarrow> roomy c (Suc m) ss ib1"
proof -
  assume R: "roomy c m (s # ss) ib" and G: "grows c m [s] ib ib1"
  have cap: "least_capacity ib1 = least_capacity ib"
    using G by (simp add: grows_def)
  have "known_keys ib1 \<subseteq> insert (signal_key c s) (known_keys ib)"
    using G by (simp add: grows_def)
  moreover have "signal_key c s \<notin> signal_key c ` set ss" "signal_key c ` set ss \<inter> known_keys ib = {}"
    using R by (simp_all add: roomy_def)
  ultimately have "signal_key c ` set ss \<inter> known_keys ib1 = {}"
    by (rule apart_from_insert)
  then show ?thesis
    using R cap by (simp add: roomy_def)
qed

lemma desk_admit_queues:
  assumes law: "codec_reads_back (de_codec env)" and settled: "settled (de_codec env) m (sd_inbox d)"
    and m: "m < u64_max" and s: "sg_from s \<noteq> []" and out: "desk_admit env s d = (r, d')"
  obtains ib' where "d' = d\<lparr>sd_inbox := ib'\<rparr>" and "grows (de_codec env) m [s] (sd_inbox d) ib'"
    and "mset (waiting_signals (de_codec env) ib') \<subseteq># add_mset s (mset (waiting_signals (de_codec env) (sd_inbox d)))"
    and "roomy (de_codec env) m [s] (sd_inbox d) \<Longrightarrow> r = Inr () \<and>
      mset (waiting_signals (de_codec env) ib') = add_mset s (mset (waiting_signals (de_codec env) (sd_inbox d)))"
proof -
  let ?c = "de_codec env"
  obtain v ib' where del: "deliver ?c s (sd_inbox d) = (v, ib')" by fastforce
  have wf: "inbox_wf ?c (sd_inbox d)" "lines_below m (sd_inbox d)"
    using settled by (simp_all add: settled_def)
  have d': "d' = d\<lparr>sd_inbox := ib'\<rparr>"
    using out del by (auto simp: desk_admit_def split: sum.splits admission.splits)
  from del wf(1) law s wf(2) m show thesis
  proof (cases rule: deliver_cases)
    case (refused e)
    then show thesis
      using that [OF d'] grows_none [OF settled] by (simp add: roomy_def)
  next
    case known
    then have "grows ?c m [s] (sd_inbox d) ib'"
      by (auto simp: grows_def delivery_keeps_def settled_def)
    then show thesis using that [OF d'] known by (simp add: roomy_def)
  next
    case full
    then have "grows ?c m [s] (sd_inbox d) ib'"
      by (auto simp: grows_def delivery_keeps_def settled_def)
    then show thesis using that [OF d'] full by (simp add: roomy_def)
  next
    case fresh
    then have "grows ?c m [s] (sd_inbox d) ib'"
      by (auto simp: grows_def delivery_keeps_def settled_def)
    moreover have "r = Inr ()"
      using out del fresh(1) by (simp add: desk_admit_def)
    ultimately show thesis using that [OF d'] fresh by simp
  qed
qed


text \<open>
  The two loops over the slot. Each leaves the slot, the held signals and the post alone, and moves
  every signal it is given into the inbox or into the reply it sets aside.
\<close>

lemma kept_of_simps [simp]:
  "kept_of (d\<lparr>sd_inbox := ib\<rparr>) = kept_of d" "kept_of (d\<lparr>sd_post := p\<rparr>) = kept_of d"
  "kept_of (d\<lparr>sd_held := hs\<rparr>) = kept_of d" "kept_of (d\<lparr>sd_slot := sl\<rparr>) = kept_of d"
  "kept_of (d\<lparr>sd_minted := n\<rparr>) = kept_of d" "kept_of (d\<lparr>sd_waiting := None\<rparr>) = {#}"
  by (simp_all add: kept_of_def)

lemma desk_mail_inbox [simp]:
  "desk_mail c (d\<lparr>sd_inbox := ib\<rparr>) = mset (waiting_signals c ib) + mset (sd_held d) + kept_of d"
  by (simp add: desk_mail_def)

definition keeps :: "'p signal_desk \<Rightarrow> signal \<Rightarrow> bool" where
  "keeps d s \<longleftrightarrow> (\<exists>w. sd_waiting d = Some w \<and> rw_kept w = None \<and> wait_answers w (sd_room d) s)"

definition keep_it :: "'p signal_desk \<Rightarrow> signal \<Rightarrow> 'p signal_desk" where
  "keep_it d s = d\<lparr>sd_waiting := map_option (\<lambda>w. w\<lparr>rw_kept := Some s\<rparr>) (sd_waiting d)\<rparr>"

lemma same_waiting: "sd_waiting d = w \<Longrightarrow> d\<lparr>sd_waiting := w\<rparr> = d"
  by (cases d) simp

lemma collect_each_Cons:
  "collect_each env (s # ss) d =
     (if keeps d s then collect_each env ss (keep_it d s)
      else desk_then (desk_admit env s d) (\<lambda>_ d2. collect_each env ss d2))"
proof (cases "sd_waiting d")
  case None
  then show ?thesis by (simp add: keeps_def)
next
  case (Some w)
  show ?thesis
  proof (cases "keeps d s")
    case True
    then show ?thesis using Some by (auto simp: keeps_def keep_it_def wait_keep_def)
  next
    case False
    then have "wait_keep s (sd_room d) w = (Some s, w)"
      using Some by (auto simp: keeps_def wait_keep_def)
    then show ?thesis using Some False by (simp add: same_waiting)
  qed
qed

declare collect_each.simps(2) [simp del]

lemma keep_it_simps:
  assumes "keeps d s"
  shows "sd_inbox (keep_it d s) = sd_inbox d" "desk_mail c (keep_it d s) = add_mset s (desk_mail c d)"
    "sd_slot (keep_it d s) = sd_slot d" "sd_held (keep_it d s) = sd_held d" "sd_post (keep_it d s) = sd_post d"
  using assms by (auto simp: keeps_def keep_it_def desk_mail_def kept_of_def)

definition beside :: "'p signal_desk \<Rightarrow> 'p signal_desk \<Rightarrow> bool" where
  "beside d d' \<longleftrightarrow> sd_slot d' = sd_slot d \<and> sd_held d' = sd_held d \<and> sd_post d' = sd_post d"

lemma collect_each_queues:
  assumes law: "codec_reads_back (de_codec env)" and "settled (de_codec env) m (sd_inbox d)"
    and "m + length ss \<le> u64_max" and "signed ss" and "collect_each env ss d = (r, d')"
  shows "beside d d'" and "grows (de_codec env) m ss (sd_inbox d) (sd_inbox d')"
    and "desk_mail (de_codec env) d' \<subseteq># desk_mail (de_codec env) d + mset ss"
    and "roomy (de_codec env) m ss (sd_inbox d) \<Longrightarrow> r = Inr () \<and> desk_mail (de_codec env) d' = desk_mail (de_codec env) d + mset ss"
proof -
  let ?c = "de_codec env"
  have "beside d d' \<and> grows ?c m ss (sd_inbox d) (sd_inbox d') \<and> desk_mail ?c d' \<subseteq># desk_mail ?c d + mset ss \<and>
      (roomy ?c m ss (sd_inbox d) \<longrightarrow> r = Inr () \<and> desk_mail ?c d' = desk_mail ?c d + mset ss)"
    using assms(2-)
  proof (induction ss arbitrary: m d)
    case Nil
    then show ?case by (simp add: beside_def grows_none)
  next
    case (Cons s ss)
    have s: "sg_from s \<noteq> []" "signed ss" and m: "m < u64_max" "Suc m + length ss \<le> u64_max"
      using Cons.prems(2,3) by (simp_all add: signed_def)
    show ?case
    proof (cases "keeps d s")
      case True
      note k = keep_it_simps [OF True]
      have "settled ?c (Suc m) (sd_inbox (keep_it d s))"
        using Cons.prems(1) k(1) by (auto simp: settled_def lines_below_mono)
      from Cons.IH [OF this m(2) s(2)] Cons.prems(4) True have
        IH: "beside (keep_it d s) d'" "grows ?c (Suc m) ss (sd_inbox d) (sd_inbox d')"
          "desk_mail ?c d' \<subseteq># desk_mail ?c (keep_it d s) + mset ss"
          "roomy ?c (Suc m) ss (sd_inbox d) \<longrightarrow> r = Inr () \<and> desk_mail ?c d' = desk_mail ?c (keep_it d s) + mset ss"
        by (simp_all add: collect_each_Cons k(1))
      have one: "grows ?c m [s] (sd_inbox d) (sd_inbox d)"
        by (rule grows_none [OF Cons.prems(1)])
      show ?thesis
        using IH k grows_one [OF one IH(2)] roomy_rest [OF _ one] by (simp add: beside_def)
    next
      case False
      obtain r1 d1 where adm: "desk_admit env s d = (r1, d1)" by fastforce
      obtain ib1 where d1: "d1 = d\<lparr>sd_inbox := ib1\<rparr>" and one: "grows ?c m [s] (sd_inbox d) ib1"
        and sub: "mset (waiting_signals ?c ib1) \<subseteq># add_mset s (mset (waiting_signals ?c (sd_inbox d)))"
        and all: "roomy ?c m [s] (sd_inbox d) \<Longrightarrow> r1 = Inr () \<and>
          mset (waiting_signals ?c ib1) = add_mset s (mset (waiting_signals ?c (sd_inbox d)))"
        using desk_admit_queues [OF law Cons.prems(1) m(1) s(1) adm] by blast
      have mail1: "desk_mail ?c d1 \<subseteq># add_mset s (desk_mail ?c d)"
        using sub by (simp add: d1 desk_mail_def subset_mset.add_mono)
      have first: "roomy ?c m [s] (sd_inbox d)" if "roomy ?c m (s # ss) (sd_inbox d)"
        using that by (auto simp: roomy_def)
      have mail1': "r1 = Inr () \<and> desk_mail ?c d1 = add_mset s (desk_mail ?c d)" if "roomy ?c m (s # ss) (sd_inbox d)"
        using all [OF first [OF that]] by (simp add: d1 desk_mail_def)
      show ?thesis
      proof (cases r1)
        case (Inl e)
        then have d': "d' = d1" "r = Inl e"
          using Cons.prems(4) False adm by (simp_all add: collect_each_Cons desk_then_def)
        have "grows ?c m (s # ss) (sd_inbox d) ib1"
          using one grows_one [OF one grows_none, of ss] by (simp add: grows_def)
        moreover have "desk_mail ?c d1 \<subseteq># desk_mail ?c d + mset (s # ss)"
          using subset_mset.order_trans [OF mail1, of "desk_mail ?c d + mset (s # ss)"] by simp
        ultimately show ?thesis
          using d' d1 mail1' Inl by (auto simp: beside_def)
      next
        case (Inr u)
        have "settled ?c (Suc m) (sd_inbox d1)"
          using one by (simp add: d1 grows_def)
        from Cons.IH [OF this m(2) s(2)] Cons.prems(4) False adm Inr have
          IH: "beside d1 d'" "grows ?c (Suc m) ss ib1 (sd_inbox d')"
            "desk_mail ?c d' \<subseteq># desk_mail ?c d1 + mset ss"
            "roomy ?c (Suc m) ss ib1 \<longrightarrow> r = Inr () \<and> desk_mail ?c d' = desk_mail ?c d1 + mset ss"
          by (simp_all add: collect_each_Cons desk_then_def d1)
        have "desk_mail ?c d1 + mset ss \<subseteq># desk_mail ?c d + mset (s # ss)"
          using mail1 by (simp add: subset_mset.add_right_mono [of _ "add_mset s (desk_mail ?c d)" "mset ss", simplified])
        then have "desk_mail ?c d' \<subseteq># desk_mail ?c d + mset (s # ss)"
          using IH(3) by (rule subset_mset.order_trans [rotated])
        then show ?thesis
          using IH d1 grows_one [OF one IH(2)] roomy_rest [OF _ one] mail1' by (auto simp: beside_def)
      qed
    qed
  qed
  then show "beside d d'" "grows ?c m ss (sd_inbox d) (sd_inbox d')" "desk_mail ?c d' \<subseteq># desk_mail ?c d + mset ss"
    "roomy ?c m ss (sd_inbox d) \<Longrightarrow> r = Inr () \<and> desk_mail ?c d' = desk_mail ?c d + mset ss"
    by simp_all
qed


definition omset :: "'a option \<Rightarrow> 'a multiset" where
  "omset v = (case v of None \<Rightarrow> {#} | Some x \<Rightarrow> {#x#})"

lemma omset_simps [simp]: "omset None = {#}" "omset (Some x) = {#x#}"
  by (simp_all add: omset_def)

lemma wait_each_queues:
  assumes law: "codec_reads_back (de_codec env)" and "settled (de_codec env) m (sd_inbox d)"
    and "m + length ss \<le> u64_max" and "signed ss" and "wait_each env w reply ss d = (r, d')"
  obtains ib' where "d' = d\<lparr>sd_inbox := ib'\<rparr>" and "grows (de_codec env) m ss (sd_inbox d) ib'"
    and "mset (waiting_signals (de_codec env) ib') \<subseteq># mset (waiting_signals (de_codec env) (sd_inbox d)) + mset ss"
    and "\<And>reply'. r = Inr reply' \<Longrightarrow> mset (waiting_signals (de_codec env) ib') + omset reply' \<subseteq>#
      mset (waiting_signals (de_codec env) (sd_inbox d)) + omset reply + mset ss"
    and "\<And>reply' k. r = Inr reply' \<Longrightarrow> reply = Some k \<Longrightarrow> reply' = Some k"
    and "roomy (de_codec env) m ss (sd_inbox d) \<Longrightarrow> \<exists>reply'. r = Inr reply' \<and>
      mset (waiting_signals (de_codec env) ib') + omset reply' =
      mset (waiting_signals (de_codec env) (sd_inbox d)) + omset reply + mset ss"
  using assms(2-)
proof (induction ss arbitrary: m d reply thesis)
  case Nil
  show ?case
    by (rule Nil.prems(1) [of "sd_inbox d"]) (use Nil.prems(2,5) in \<open>auto simp: grows_none\<close>)
next
  case (Cons s ss)
  let ?c = "de_codec env"
  let ?w = "\<lambda>ib. mset (waiting_signals ?c ib)"
  have s: "sg_from s \<noteq> []" "signed ss" and m: "m < u64_max" "Suc m + length ss \<le> u64_max"
    using Cons.prems(3,4) by (simp_all add: signed_def)
  show ?case
  proof (cases "reply = None \<and> wait_answers w (sd_room d) s")
    case True
    have up: "settled ?c (Suc m) (sd_inbox d)"
      using Cons.prems(2) by (auto simp: settled_def lines_below_mono)
    have each: "wait_each env w (Some s) ss d = (r, d')"
      using Cons.prems(5) True by simp
    have one: "grows ?c m [s] (sd_inbox d) (sd_inbox d)"
      by (rule grows_none [OF Cons.prems(2)])
    obtain ib' where ib': "d' = d\<lparr>sd_inbox := ib'\<rparr>" "grows ?c (Suc m) ss (sd_inbox d) ib'"
      "?w ib' \<subseteq># ?w (sd_inbox d) + mset ss"
      "\<And>reply'. r = Inr reply' \<Longrightarrow> ?w ib' + omset reply' \<subseteq># ?w (sd_inbox d) + omset (Some s) + mset ss"
      "roomy ?c (Suc m) ss (sd_inbox d) \<Longrightarrow> \<exists>reply'. r = Inr reply' \<and>
        ?w ib' + omset reply' = ?w (sd_inbox d) + omset (Some s) + mset ss"
      using Cons.IH [OF _ up m(2) s(2) each] by blast
    show ?thesis
    proof (rule Cons.prems(1) [OF ib'(1) grows_one [OF one ib'(2)]])
      show "?w ib' \<subseteq># ?w (sd_inbox d) + mset (s # ss)"
        using ib'(3) by (simp add: subset_mset.order_trans)
      show "?w ib' + omset reply' \<subseteq># ?w (sd_inbox d) + omset reply + mset (s # ss)" if "r = Inr reply'" for reply'
        using ib'(4) [OF that] True by simp
      show "\<exists>reply'. r = Inr reply' \<and> ?w ib' + omset reply' = ?w (sd_inbox d) + omset reply + mset (s # ss)"
        if "roomy ?c m (s # ss) (sd_inbox d)"
        using ib'(5) [OF roomy_rest [OF that one]] True by simp
    qed (use True in simp)
  next
    case False
    obtain r1 d1 where adm: "desk_admit env s d = (r1, d1)" by fastforce
    obtain ib1 where d1: "d1 = d\<lparr>sd_inbox := ib1\<rparr>" and one: "grows ?c m [s] (sd_inbox d) ib1"
      and sub: "?w ib1 \<subseteq># add_mset s (?w (sd_inbox d))"
      and all: "roomy ?c m [s] (sd_inbox d) \<Longrightarrow> r1 = Inr () \<and> ?w ib1 = add_mset s (?w (sd_inbox d))"
      using desk_admit_queues [OF law Cons.prems(2) m(1) s(1) adm] by blast
    have first: "roomy ?c m [s] (sd_inbox d)" if "roomy ?c m (s # ss) (sd_inbox d)"
      using that by (auto simp: roomy_def)
    have more_of: "?w ib1 + X \<subseteq># ?w (sd_inbox d) + add_mset s X" for X
      using sub by (simp add: subset_mset.add_right_mono [of _ "add_mset s (?w (sd_inbox d))" X, simplified])
    show ?thesis
    proof (cases r1)
      case (Inl e)
      then have d': "d' = d1" "r = Inl e"
        using Cons.prems(5) False adm by (auto simp: desk_then_def)
      have up: "settled ?c (Suc m) ib1"
        using one by (simp add: grows_def)
      show ?thesis
      proof (rule Cons.prems(1) [of ib1])
        show "grows ?c m (s # ss) (sd_inbox d) ib1"
          by (rule grows_one [OF one grows_none [OF up]])
        show "?w ib1 \<subseteq># ?w (sd_inbox d) + mset (s # ss)"
          using subset_mset.order_trans [OF subset_mset.le_add_same_cancel1 [THEN iffD2] more_of, of "mset ss"] by simp
        show "\<exists>reply'. r = Inr reply' \<and> ?w ib1 + omset reply' = ?w (sd_inbox d) + omset reply + mset (s # ss)"
          if "roomy ?c m (s # ss) (sd_inbox d)"
          using all [OF first [OF that]] Inl by simp
      qed (use d' d1 in simp_all)
    next
      case (Inr u)
      have up: "settled ?c (Suc m) (sd_inbox d1)"
        using one by (simp add: d1 grows_def)
      have each: "wait_each env w reply ss d1 = (r, d')"
        using Cons.prems(5) False adm Inr by (auto simp: desk_then_def)
      obtain ib' where ib': "d' = d1\<lparr>sd_inbox := ib'\<rparr>" "grows ?c (Suc m) ss (sd_inbox d1) ib'"
        "?w ib' \<subseteq># ?w (sd_inbox d1) + mset ss"
        "\<And>reply'. r = Inr reply' \<Longrightarrow> ?w ib' + omset reply' \<subseteq># ?w (sd_inbox d1) + omset reply + mset ss"
        "\<And>reply' k. r = Inr reply' \<Longrightarrow> reply = Some k \<Longrightarrow> reply' = Some k"
        "roomy ?c (Suc m) ss (sd_inbox d1) \<Longrightarrow> \<exists>reply'. r = Inr reply' \<and>
          ?w ib' + omset reply' = ?w (sd_inbox d1) + omset reply + mset ss"
        using Cons.IH [OF _ up m(2) s(2) each] by blast
      show ?thesis
      proof (rule Cons.prems(1) [of ib'])
        show "grows ?c m (s # ss) (sd_inbox d) ib'"
          using grows_one [OF one] ib'(2) by (simp add: d1)
        show "?w ib' \<subseteq># ?w (sd_inbox d) + mset (s # ss)"
          using subset_mset.order_trans [OF ib'(3)] more_of [of "mset ss"] by (simp add: d1)
        show "?w ib' + omset reply' \<subseteq># ?w (sd_inbox d) + omset reply + mset (s # ss)" if "r = Inr reply'" for reply'
          using subset_mset.order_trans [OF ib'(4) [OF that]] more_of [of "omset reply + mset ss"]
          by (simp add: d1 ac_simps)
        show "reply' = Some k" if "r = Inr reply'" "reply = Some k" for reply' k
          using ib'(5) that by blast
        show "\<exists>reply'. r = Inr reply' \<and> ?w ib' + omset reply' = ?w (sd_inbox d) + omset reply + mset (s # ss)"
          if "roomy ?c m (s # ss) (sd_inbox d)"
          using ib'(6) roomy_rest [OF that one] all [OF first [OF that]] by (simp add: d1)
      qed (use ib'(1) d1 in simp)
    qed
  qed
qed

end
