(* ===== verification/SignalCodecs.thy ===== *)
theory SignalCodecs
  imports Inboxes LineCodecs
begin

text \<open>
  A codec for queued signals that keeps the law the inbox relies on, and two signals to try it on. The
  codec writes a queued signal as an object with one number, which names it.
\<close>


section \<open>A codec that reads back\<close>

instance signal_id :: countable by countable_datatype

instance signal_kind :: countable by countable_datatype

instance lane :: countable by countable_datatype

instance sender_state :: countable by countable_datatype

definition queued_number :: "queued \<Rightarrow> nat" where
  "queued_number q =
     to_nat (se_id (qd_line q), se_kind (qd_line q), se_from (qd_line q), se_room (qd_line q), se_room_version (qd_line q),
       se_payload (qd_line q), se_at (qd_line q), se_lane (qd_line q), qd_sender q, qd_run q)"

definition numbered :: "nat \<Rightarrow> queued" where
  "numbered n =
     (case from_nat n of (sid, k, sent_from, room, version, p, at, l, state, who) \<Rightarrow>
        \<lparr>qd_line = \<lparr>se_id = sid, se_kind = k, se_from = sent_from, se_room = room, se_room_version = version,
           se_payload = p, se_at = at, se_lane = l\<rparr>, qd_sender = state, qd_run = who\<rparr>)"

lemma numbered_number [simp]: "numbered (queued_number q) = q"
  by (simp add: numbered_def queued_number_def)

definition number_key :: rstr where
  "number_key = lit ''n''"

definition number_codec :: signal_codec where
  "number_codec =
     \<lparr>sc_xof = (\<lambda>bs. bs),
      sc_to_value = (\<lambda>q. Inr (JObject [(number_key, JNumber (PosInt (queued_number q)))])),
      sc_deserialize = (\<lambda>p. case payload_map p of
          [(_, JNumber (PosInt n))] \<Rightarrow> Inr (numbered n)
        | _ \<Rightarrow> Inl [])\<rparr>"

lemma payload_number: "payload_new [(number_key, JNumber (PosInt n))] = Inr (Payload [(number_key, JNumber (PosInt n))])"
  by (simp add: payload_new_def reject_floats_and_depth_def walk_pending.simps)

lemma number_codec_reads_back: "codec_reads_back number_codec"
  by (auto simp: codec_reads_back_def number_codec_def payload_number)

lemma number_codec_queues: "\<exists>p. queued_payload number_codec s = Inr p"
  by (simp add: queued_payload_def payload_of_Inr number_codec_def payload_number)


section \<open>Two signals\<close>

definition example_signal :: "rstr \<Rightarrow> signal_kind \<Rightarrow> signal" where
  "example_signal sid k =
     \<lparr>sg_id = SignalId sid, sg_kind = k, sg_from = lit ''lab'', sg_room = Address (lit ''hall''), sg_room_version = 1,
      sg_payload = Payload [], sg_at = TimeMs 9, sg_sender = None, sg_run = None\<rparr>"

definition example_mention :: signal where
  "example_mention = example_signal (lit ''s1'') Mention"

definition example_steer :: signal where
  "example_steer = example_signal (lit ''s2'') SteerKind"

end
