(* ===== verification/InboxRuns.thy ===== *)
theory InboxRuns
  imports SignalCodecs
begin

text \<open>
  What an inbox promises, and that \<open>collab/src/inbox.rs\<close> over \<open>storage/src/queue.rs\<close> keeps it. The
  promise is a mailbox: the signals given back, one list and one memory of keys for each lane, and a
  rule for every operation that says what it answers. A run of the inbox is any sequence of its
  operations from a new one, with what each of them answered; the theorem replays it on the mailbox.
\<close>


section \<open>The mailbox\<close>

record mailbox =
  mb_back :: "signal list"
  mb_line :: "lane \<Rightarrow> signal list"
  mb_seen :: "lane \<Rightarrow> idem_key \<Rightarrow> time_ms option"

definition mb_empty :: mailbox where
  "mb_empty = \<lparr>mb_back = [], mb_line = (\<lambda>_. []), mb_seen = (\<lambda>_ _. None)\<rparr>"

text \<open>The keys still known at a time: those that came less than a window before it.\<close>

definition still_known :: "time_ms \<Rightarrow> (idem_key \<Rightarrow> time_ms option) \<Rightarrow> idem_key \<Rightarrow> time_ms option" where
  "still_known now seen k =
     (case seen k of
        None \<Rightarrow> None
      | Some t \<Rightarrow> if time_value t + IDEM_WINDOW_MS \<le> time_value now then None else Some t)"

text \<open>A signal that comes: one whose key its lane still knows changes no list, one that finds its
  lane full is shed, and any other is the last of its lane and known from then on.\<close>

definition mb_deliver :: "nat \<Rightarrow> signal_codec \<Rightarrow> signal \<Rightarrow> mailbox \<Rightarrow> admission \<times> mailbox" where
  "mb_deliver capacity c s mb =
     (let l = signal_lane s; k = signal_key c s; known = still_known (sg_at s) (mb_seen mb l);
          reminded = mb\<lparr>mb_seen := (mb_seen mb)(l := known)\<rparr>
      in if known k \<noteq> None then (Admit, reminded)
         else if length (mb_line mb l) < capacity then
           (Admit, mb\<lparr>mb_line := (mb_line mb)(l := mb_line mb l @ [s]),
                      mb_seen := (mb_seen mb)(l := known(k \<mapsto> sg_at s))\<rparr>)
         else (Shed CapacityExhausted, reminded))"

text \<open>The order signals leave in: those given back, the urgent ones, the ordinary ones.\<close>

definition mb_all :: "mailbox \<Rightarrow> signal list" where
  "mb_all mb = mb_back mb @ mb_line mb Urgent @ mb_line mb Ordinary"

definition mb_drop :: "nat \<Rightarrow> mailbox \<Rightarrow> mailbox" where
  "mb_drop n mb =
     mb\<lparr>mb_back := drop n (mb_back mb),
        mb_line := (mb_line mb)
          (Urgent := drop (n - length (mb_back mb)) (mb_line mb Urgent),
           Ordinary := drop (n - length (mb_back mb) - length (mb_line mb Urgent)) (mb_line mb Ordinary))\<rparr>"

text \<open>The first urgent signal, a returned one before the line.\<close>

definition mb_steer :: "mailbox \<Rightarrow> signal option \<times> mailbox" where
  "mb_steer mb =
     (case filter (\<lambda>s. signal_lane s = Urgent) (mb_back mb) of
        s # _ \<Rightarrow> (Some s, mb\<lparr>mb_back := remove1 s (mb_back mb)\<rparr>)
      | [] \<Rightarrow>
          (case mb_line mb Urgent of
             [] \<Rightarrow> (None, mb)
           | s # rest \<Rightarrow> (Some s, mb\<lparr>mb_line := (mb_line mb)(Urgent := rest)\<rparr>)))"

datatype inbox_event =
    Arrived signal admission
  | HandedOut "signal list ax_result"
  | Steered "signal option"
  | GivenBack "signal list"

text \<open>One event on the mailbox: nothing, when the mailbox would have answered otherwise.\<close>

fun mb_step :: "nat \<Rightarrow> nat \<Rightarrow> signal_codec \<Rightarrow> inbox_event \<Rightarrow> mailbox \<Rightarrow> mailbox option" where
  "mb_step capacity bandwidth c (Arrived s verdict) mb =
     (case mb_deliver capacity c s mb of (answer, mb') \<Rightarrow> if verdict = answer then Some mb' else None)"
| "mb_step capacity bandwidth c (HandedOut r) mb =
     (if r = Inr (take bandwidth (mb_all mb)) then Some (mb_drop bandwidth mb) else None)"
| "mb_step capacity bandwidth c (Steered found) mb =
     (case mb_steer mb of (answer, mb') \<Rightarrow> if found = answer then Some mb' else None)"
| "mb_step capacity bandwidth c (GivenBack ss) mb = Some (mb\<lparr>mb_back := ss @ mb_back mb\<rparr>)"

fun mb_replay :: "nat \<Rightarrow> nat \<Rightarrow> signal_codec \<Rightarrow> inbox_event list \<Rightarrow> mailbox \<Rightarrow> mailbox option" where
  "mb_replay capacity bandwidth c [] mb = Some mb"
| "mb_replay capacity bandwidth c (ev # evs) mb =
     Option.bind (mb_step capacity bandwidth c ev mb) (mb_replay capacity bandwidth c evs)"

lemma mb_replay_append:
  "mb_replay capacity bandwidth c (evs @ evs') mb =
     Option.bind (mb_replay capacity bandwidth c evs mb) (mb_replay capacity bandwidth c evs')"
proof (induction evs arbitrary: mb)
  case (Cons ev evs)
  then show ?case by (cases "mb_step capacity bandwidth c ev mb") simp_all
qed simp


section \<open>Runs of the inbox\<close>

inductive inbox_run :: "signal_codec \<Rightarrow> inbox \<Rightarrow> inbox \<Rightarrow> inbox_event list \<Rightarrow> bool" for c ib0 where
  opened: "inbox_run c ib0 ib0 []"
| arrives: "inbox_run c ib0 ib log \<Longrightarrow> sg_from s \<noteq> [] \<Longrightarrow> deliver c s ib = (Inr verdict, ib') \<Longrightarrow>
    inbox_run c ib0 ib' (log @ [Arrived s verdict])"
| unwritable: "inbox_run c ib0 ib log \<Longrightarrow> deliver c s ib = (Inl e, ib') \<Longrightarrow> inbox_run c ib0 ib' log"
| pulls: "inbox_run c ib0 ib log \<Longrightarrow> inbox_pull c ib = (r, ib') \<Longrightarrow> inbox_run c ib0 ib' (log @ [HandedOut r])"
| steers: "inbox_run c ib0 ib log \<Longrightarrow> inbox_take_steer c ib = (found, ib') \<Longrightarrow>
    inbox_run c ib0 ib' (log @ [Steered found])"
| returns: "inbox_run c ib0 ib log \<Longrightarrow> inbox_run c ib0 (give_back ss ib) (log @ [GivenBack ss])"

fun line_of :: "lane \<Rightarrow> inbox \<Rightarrow> event_queue" where
  "line_of Urgent ib = ib_urgent ib"
| "line_of Ordinary ib = ib_ordinary ib"

definition mailbox_of :: "signal_codec \<Rightarrow> inbox \<Rightarrow> mailbox" where
  "mailbox_of c ib =
     \<lparr>mb_back = ib_returned ib, mb_line = (\<lambda>l. map (signal_of c) (contents (line_of l ib))),
      mb_seen = (\<lambda>l. bt_get (eq_seen (line_of l ib)))\<rparr>"

lemma mailbox_of_simps [simp]:
  "mb_back (mailbox_of c ib) = ib_returned ib"
  "mb_line (mailbox_of c ib) l = map (signal_of c) (contents (line_of l ib))"
  "mb_seen (mailbox_of c ib) l = bt_get (eq_seen (line_of l ib))"
  by (simp_all add: mailbox_of_def)

lemma mailbox_eqI:
  assumes "mb_back a = mb_back b" "\<And>l. mb_line a l = mb_line b l" "\<And>l. mb_seen a l = mb_seen b l"
  shows "(a :: mailbox) = b"
  using assms by (intro mailbox.equality) (auto simp: fun_eq_iff)

lemma mb_all_waiting: "mb_all (mailbox_of c ib) = waiting_signals c ib"
  by (simp add: mb_all_def waiting_signals_def line_items_def)


section \<open>Delivering\<close>

lemma map_of_filter_snd:
  "distinct (map fst m) \<Longrightarrow>
     map_of (filter (\<lambda>e. P (snd e)) m) k = (case map_of m k of None \<Rightarrow> None | Some v \<Rightarrow> if P v then Some v else None)"
proof (induction m)
  case (Cons e m)
  have "map_of m (fst e) = None" using Cons.prems by (simp add: map_of_eq_None_iff)
  then show ?case using Cons by (cases e) auto
qed simp

lemma forget_stale_get:
  assumes "queue_wf q"
  shows "bt_get (eq_seen (forget_stale now q)) = still_known now (bt_get (eq_seen q))"
proof
  fix k
  have d: "distinct (map fst (eq_seen q))"
    using assms by (simp add: queue_wf_def bt_wf_distinct)
  show "bt_get (eq_seen (forget_stale now q)) k = still_known now (bt_get (eq_seen q)) k"
  proof (cases "time_value now < IDEM_WINDOW_MS")
    case True
    then show ?thesis by (auto simp: forget_stale_def still_known_def split: option.split)
  next
    case False
    then have fresh: "time_value now - IDEM_WINDOW_MS < time_value t \<longleftrightarrow> \<not> time_value t + IDEM_WINDOW_MS \<le> time_value now" for t
      by linarith
    show ?thesis
      using False map_of_filter_snd [OF d, of "\<lambda>t. time_value now - IDEM_WINDOW_MS < time_value t" k]
      by (auto simp: forget_stale_def still_known_def bt_get_def fresh split: option.split)
  qed
qed

text \<open>The answer of \<open>enqueue\<close> and what it leaves, exactly.\<close>

definition queue_rule :: "idem_key \<Rightarrow> payload \<Rightarrow> time_ms \<Rightarrow> event_queue \<Rightarrow> admission \<Rightarrow> event_queue \<Rightarrow> bool" where
  "queue_rule k p now q verdict q' \<longleftrightarrow>
     (let known = still_known now (bt_get (eq_seen q)) in
      if known k \<noteq> None then
        verdict = Admit \<and> contents q' = contents q \<and> bt_get (eq_seen q') = known
      else if length (contents q) < eq_capacity q then
        verdict = Admit \<and>
        contents q' = contents q @ [\<lparr>qi_id = eq_next_id q, qi_key = k, qi_payload = p, qi_enqueued_t = now\<rparr>] \<and>
        bt_get (eq_seen q') = known(k \<mapsto> now)
      else verdict = Shed CapacityExhausted \<and> contents q' = contents q \<and> bt_get (eq_seen q') = known)"

lemma enqueue_rule:
  assumes out: "enqueue k p now q = (verdict, q')" and wf: "queue_wf q" and below: "eq_next_id q < u64_max"
  shows "queue_rule k p now q verdict q'"
proof -
  let ?q = "forget_stale now q"
  note known = forget_stale_get [OF wf, of now]
  have len: "length (contents q) < u64_max" using contents_bound [OF wf] below by simp
  have adm: "admit (queue_stats_of ?q) 1 = (if length (contents q) < eq_capacity q then Admit else Shed CapacityExhausted)"
    using len by (auto simp: admit_def checked_add_def queue_stats_of_def queue_len_def contents_def)
  show ?thesis
  proof (cases "bt_get (eq_seen ?q) k = None \<and> length (contents q) < eq_capacity q")
    case True
    let ?it = "\<lparr>qi_id = eq_next_id q, qi_key = k, qi_payload = p, qi_enqueued_t = now\<rparr>"
    have "q' = ?q\<lparr>eq_next_id := Suc (eq_next_id q), eq_seen := bt_insert k now (eq_seen ?q),
        eq_items := eq_items q @ [(eq_next_id q, ?it)]\<rparr>" "verdict = Admit"
      using out True adm below wf bt_insert_last [of "eq_items q" "eq_next_id q"]
      by (simp_all add: enqueue_def Let_def queue_wf_def)
    moreover have "bt_get (bt_insert k now (eq_seen ?q)) = (bt_get (eq_seen ?q))(k \<mapsto> now)"
      by (rule ext) (simp add: map_simps)
    ultimately show ?thesis using True known by (simp add: queue_rule_def Let_def contents_def)
  next
    case False
    then show ?thesis
      using out adm known by (auto simp: queue_rule_def enqueue_def Let_def contents_def split: if_splits)
  qed
qed

lemma deliver_rule:
  assumes out: "deliver c s ib = (Inr verdict, ib')" and wf: "inbox_wf c ib" and law: "codec_reads_back c"
    and sender: "sg_from s \<noteq> []" and below: "lines_below n ib" "n < u64_max"
    and caps: "eq_capacity (line_of (signal_lane s) ib) = capacity"
  shows "mb_deliver capacity c s (mailbox_of c ib) = (verdict, mailbox_of c ib')"
proof -
  let ?l = "signal_lane s"
  obtain p where p: "queued_payload c s = Inr p" using out by (cases "queued_payload c s") (auto simp: deliver_def)
  obtain q where enq: "enqueue (signal_key c s) p (sg_at s) (line_of ?l ib) = (verdict, q)"
    and own: "line_of ?l ib' = q" and other: "\<And>l. l \<noteq> ?l \<Longrightarrow> line_of l ib' = line_of l ib"
    and kept: "ib_returned ib' = ib_returned ib"
  proof (cases ?l)
    case Urgent
    then obtain q where "enqueue (signal_key c s) p (sg_at s) (ib_urgent ib) = (verdict, q)" "ib' = ib\<lparr>ib_urgent := q\<rparr>"
      using out p by (auto simp: deliver_def split: prod.splits)
    moreover have "line_of l (ib\<lparr>ib_urgent := q\<rparr>) = line_of l ib" if "l \<noteq> Urgent" for l
      using that by (cases l) simp_all
    ultimately show thesis using that [of q] Urgent by simp
  next
    case Ordinary
    then obtain q where "enqueue (signal_key c s) p (sg_at s) (ib_ordinary ib) = (verdict, q)" "ib' = ib\<lparr>ib_ordinary := q\<rparr>"
      using out p by (auto simp: deliver_def split: prod.splits)
    moreover have "line_of l (ib\<lparr>ib_ordinary := q\<rparr>) = line_of l ib" if "l \<noteq> Ordinary" for l
      using that by (cases l) simp_all
    ultimately show thesis using that [of q] Ordinary by simp
  qed
  have q: "queue_wf (line_of ?l ib)" "eq_next_id (line_of ?l ib) < u64_max"
    using wf below by (cases ?l; auto simp: inbox_wf_def lines_below_def)+
  have reads: "signal_of c it = s" if "qi_payload it = p" for it
    using from_queued_payload [OF law p sender] that by (simp add: signal_of_def)
  have rule: "queue_rule (signal_key c s) p (sg_at s) (line_of ?l ib) verdict (line_of ?l ib')"
    unfolding own by (rule enqueue_rule [OF enq q])
  let ?known = "still_known (sg_at s) (bt_get (eq_seen (line_of ?l ib)))"
  show ?thesis
  proof (cases "?known (signal_key c s) \<noteq> None \<or> \<not> length (contents (line_of ?l ib)) < capacity")
    case True
    then have "contents (line_of ?l ib') = contents (line_of ?l ib)" "bt_get (eq_seen (line_of ?l ib')) = ?known"
      "verdict = (if ?known (signal_key c s) \<noteq> None then Admit else Shed CapacityExhausted)"
      using rule caps by (auto simp: queue_rule_def Let_def split: if_splits)
    then have same: "contents (line_of l ib') = contents (line_of l ib)"
        "bt_get (eq_seen (line_of l ib')) = (if l = ?l then ?known else bt_get (eq_seen (line_of l ib)))"
      and v: "verdict = (if ?known (signal_key c s) \<noteq> None then Admit else Shed CapacityExhausted)" for l
      using other [of l] by (cases "l = ?l"; simp)+
    have "mailbox_of c ib' = (mailbox_of c ib)\<lparr>mb_seen := (mb_seen (mailbox_of c ib))(?l := ?known)\<rparr>"
      using kept same by (intro mailbox_eqI) simp_all
    then show ?thesis using True v by (auto simp: mb_deliver_def Let_def)
  next
    case False
    let ?it = "\<lparr>qi_id = eq_next_id (line_of ?l ib), qi_key = signal_key c s, qi_payload = p, qi_enqueued_t = sg_at s\<rparr>"
    have new: "contents (line_of ?l ib') = contents (line_of ?l ib) @ [?it]" "verdict = Admit"
      "bt_get (eq_seen (line_of ?l ib')) = ?known(signal_key c s \<mapsto> sg_at s)"
      using rule caps False by (auto simp: queue_rule_def Let_def split: if_splits)
    have grown: "map (signal_of c) (contents (line_of l ib')) =
        (if l = ?l then map (signal_of c) (contents (line_of ?l ib)) @ [s] else map (signal_of c) (contents (line_of l ib)))"
      "bt_get (eq_seen (line_of l ib')) =
        (if l = ?l then ?known(signal_key c s \<mapsto> sg_at s) else bt_get (eq_seen (line_of l ib)))" for l
      using new other [of l] reads [of ?it] by (cases "l = ?l"; simp)+
    have "mailbox_of c ib' = (mailbox_of c ib)
        \<lparr>mb_line := (mb_line (mailbox_of c ib))(?l := mb_line (mailbox_of c ib) ?l @ [s]),
         mb_seen := (mb_seen (mailbox_of c ib))(?l := ?known(signal_key c s \<mapsto> sg_at s))\<rparr>"
      using kept grown by (intro mailbox_eqI) simp_all
    then show ?thesis using False new(2) by (simp add: mb_deliver_def Let_def)
  qed
qed


section \<open>Taking\<close>

lemma consume_seen: "consume q = (found, q') \<Longrightarrow> eq_seen q' = eq_seen q"
  by (auto simp: consume_def split: list.splits)

lemma mailbox_take_urgent:
  assumes "consume (ib_urgent ib) = (Some it, q)"
  shows "mailbox_of c (ib\<lparr>ib_urgent := q\<rparr>) = (mailbox_of c ib)\<lparr>mb_line := (mb_line (mailbox_of c ib))
     (Urgent := map (signal_of c) (contents q))\<rparr>"
proof (rule mailbox_eqI)
  fix l
  show "mb_line (mailbox_of c (ib\<lparr>ib_urgent := q\<rparr>)) l = mb_line ((mailbox_of c ib)\<lparr>mb_line := (mb_line (mailbox_of c ib))
     (Urgent := map (signal_of c) (contents q))\<rparr>) l"
    by (cases l) simp_all
  show "mb_seen (mailbox_of c (ib\<lparr>ib_urgent := q\<rparr>)) l = mb_seen ((mailbox_of c ib)\<lparr>mb_line := (mb_line (mailbox_of c ib))
     (Urgent := map (signal_of c) (contents q))\<rparr>) l"
    using consume_seen [OF assms] by (cases l) simp_all
qed simp

lemma mailbox_take_ordinary:
  assumes "consume (ib_ordinary ib) = (Some it, q)"
  shows "mailbox_of c (ib\<lparr>ib_ordinary := q\<rparr>) = (mailbox_of c ib)\<lparr>mb_line := (mb_line (mailbox_of c ib))
     (Ordinary := map (signal_of c) (contents q))\<rparr>"
proof (rule mailbox_eqI)
  fix l
  show "mb_line (mailbox_of c (ib\<lparr>ib_ordinary := q\<rparr>)) l = mb_line ((mailbox_of c ib)\<lparr>mb_line := (mb_line (mailbox_of c ib))
     (Ordinary := map (signal_of c) (contents q))\<rparr>) l"
    by (cases l) simp_all
  show "mb_seen (mailbox_of c (ib\<lparr>ib_ordinary := q\<rparr>)) l = mb_seen ((mailbox_of c ib)\<lparr>mb_line := (mb_line (mailbox_of c ib))
     (Ordinary := map (signal_of c) (contents q))\<rparr>) l"
    using consume_seen [OF assms] by (cases l) simp_all
qed simp

lemma mb_drop_simps [simp]:
  "mb_back (mb_drop n mb) = drop n (mb_back mb)"
  "mb_line (mb_drop n mb) Urgent = drop (n - length (mb_back mb)) (mb_line mb Urgent)"
  "mb_line (mb_drop n mb) Ordinary = drop (n - length (mb_back mb) - length (mb_line mb Urgent)) (mb_line mb Ordinary)"
  "mb_seen (mb_drop n mb) = mb_seen mb"
  by (simp_all add: mb_drop_def)

lemma mb_drop_eqI:
  assumes "mb_back a = drop n (mb_back mb)"
    "mb_line a Urgent = drop (n - length (mb_back mb)) (mb_line mb Urgent)"
    "mb_line a Ordinary = drop (n - length (mb_back mb) - length (mb_line mb Urgent)) (mb_line mb Ordinary)"
    "mb_seen a = mb_seen mb"
  shows "a = mb_drop n mb"
proof (rule mailbox_eqI)
  fix l
  show "mb_line a l = mb_line (mb_drop n mb) l" using assms by (cases l) simp_all
qed (use assms in simp_all)

lemma mb_all_drop: "mb_all (mb_drop n mb) = drop n (mb_all mb)"
  by (simp add: mb_all_def)

text \<open>Taking the first signal of a mailbox.\<close>

lemma mb_drop_head:
  "mb_back mb = s # rest \<Longrightarrow> mb_drop (Suc n) mb = mb_drop n (mb\<lparr>mb_back := rest\<rparr>)"
  "mb_back mb = [] \<Longrightarrow> mb_line mb Urgent = s # rest \<Longrightarrow>
     mb_drop (Suc n) mb = mb_drop n (mb\<lparr>mb_line := (mb_line mb)(Urgent := rest)\<rparr>)"
  "mb_back mb = [] \<Longrightarrow> mb_line mb Urgent = [] \<Longrightarrow> mb_line mb Ordinary = s # rest \<Longrightarrow>
     mb_drop (Suc n) mb = mb_drop n (mb\<lparr>mb_line := (mb_line mb)(Ordinary := rest)\<rparr>)"
  by (rule mb_drop_eqI [symmetric]; simp)+

lemma mb_drop_none: "mb_all mb = [] \<Longrightarrow> mb_drop n mb = mb"
  by (rule mb_drop_eqI [symmetric]) (simp_all add: mb_all_def)

lemma inbox_wf_heads:
  assumes "inbox_wf c ib"
  shows "contents (ib_urgent ib) = it # rest \<Longrightarrow> \<exists>q. consume (ib_urgent ib) = (Some it, q) \<and> contents q = rest \<and>
      inbox_wf c (ib\<lparr>ib_urgent := q\<rparr>) \<and> from_queued c (qi_payload it) = Inr (signal_of c it)"
    and "contents (ib_ordinary ib) = it # rest \<Longrightarrow> \<exists>q. consume (ib_ordinary ib) = (Some it, q) \<and> contents q = rest \<and>
      inbox_wf c (ib\<lparr>ib_ordinary := q\<rparr>) \<and> from_queued c (qi_payload it) = Inr (signal_of c it)"
proof -
  have reads: "from_queued c (qi_payload it) = Inr (signal_of c it)" if "readable c l it" for l
    using that by (auto simp: readable_def signal_of_def)
  show "\<exists>q. consume (ib_urgent ib) = (Some it, q) \<and> contents q = rest \<and>
      inbox_wf c (ib\<lparr>ib_urgent := q\<rparr>) \<and> from_queued c (qi_payload it) = Inr (signal_of c it)"
    if items: "contents (ib_urgent ib) = it # rest"
  proof -
    have "queue_wf (ib_urgent ib)" using assms by (simp add: inbox_wf_def)
    then obtain q where "consume (ib_urgent ib) = (Some it, q)" "contents q = rest" "queue_wf q"
      using items by (rule consume_head)
    then show ?thesis using assms items reads by (auto simp: inbox_wf_def)
  qed
  show "\<exists>q. consume (ib_ordinary ib) = (Some it, q) \<and> contents q = rest \<and>
      inbox_wf c (ib\<lparr>ib_ordinary := q\<rparr>) \<and> from_queued c (qi_payload it) = Inr (signal_of c it)"
    if items: "contents (ib_ordinary ib) = it # rest"
  proof -
    have "queue_wf (ib_ordinary ib)" using assms by (simp add: inbox_wf_def)
    then obtain q where "consume (ib_ordinary ib) = (Some it, q)" "contents q = rest" "queue_wf q"
      using items by (rule consume_head)
    then show ?thesis using assms items reads by (auto simp: inbox_wf_def)
  qed
qed

lemma pull_loop_mailbox:
  assumes "inbox_wf c ib"
  shows "\<exists>ib'. pull_loop c n out ib = (Inr (out @ take n (mb_all (mailbox_of c ib))), ib') \<and>
     mailbox_of c ib' = mb_drop n (mailbox_of c ib)"
  using assms
proof (induction n arbitrary: out ib)
  case 0
  have "mb_drop 0 mb = mb" for mb by (rule mb_drop_eqI [symmetric]) simp_all
  then show ?case by simp
next
  case (Suc n)
  let ?mb = "mailbox_of c ib"
  consider (given) s rest where "ib_returned ib = s # rest"
    | (urgent) it rest where "ib_returned ib = []" "contents (ib_urgent ib) = it # rest"
    | (ordinary) it rest where "ib_returned ib = []" "contents (ib_urgent ib) = []" "contents (ib_ordinary ib) = it # rest"
    | (none) "ib_returned ib = []" "contents (ib_urgent ib) = []" "contents (ib_ordinary ib) = []"
    by (metis list.exhaust)
  then show ?case
  proof cases
    case given
    have wf: "inbox_wf c (ib\<lparr>ib_returned := rest\<rparr>)" using Suc.prems by (simp add: inbox_wf_def)
    have mb: "mailbox_of c (ib\<lparr>ib_returned := rest\<rparr>) = ?mb\<lparr>mb_back := rest\<rparr>"
    proof (rule mailbox_eqI)
      fix l
      show "mb_line (mailbox_of c (ib\<lparr>ib_returned := rest\<rparr>)) l = mb_line (?mb\<lparr>mb_back := rest\<rparr>) l"
        "mb_seen (mailbox_of c (ib\<lparr>ib_returned := rest\<rparr>)) l = mb_seen (?mb\<lparr>mb_back := rest\<rparr>) l"
        by (cases l; simp)+
    qed simp
    show ?thesis
      using Suc.IH [OF wf, of "out @ [s]"] given mb_drop_head(1) [of ?mb s rest n] by (auto simp: mb mb_all_def)
  next
    case urgent
    then obtain q where q: "consume (ib_urgent ib) = (Some it, q)" "contents q = rest" "inbox_wf c (ib\<lparr>ib_urgent := q\<rparr>)"
      "from_queued c (qi_payload it) = Inr (signal_of c it)"
      using inbox_wf_heads(1) [OF Suc.prems] by blast
    note mb = mailbox_take_urgent [OF q(1), of c]
    show ?thesis
      using Suc.IH [OF q(3), of "out @ [signal_of c it]"] urgent q mb_drop_head(2) [of ?mb "signal_of c it" "map (signal_of c) rest" n]
      by (auto simp: mb mb_all_def take_item_def)
  next
    case ordinary
    then obtain q where q: "consume (ib_ordinary ib) = (Some it, q)" "contents q = rest" "inbox_wf c (ib\<lparr>ib_ordinary := q\<rparr>)"
      "from_queued c (qi_payload it) = Inr (signal_of c it)"
      using inbox_wf_heads(2) [OF Suc.prems] by blast
    note mb = mailbox_take_ordinary [OF q(1), of c]
    show ?thesis
      using Suc.IH [OF q(3), of "out @ [signal_of c it]"] ordinary q mb_drop_head(3) [of ?mb "signal_of c it" "map (signal_of c) rest" n]
      by (auto simp: mb mb_all_def take_item_def)
  next
    case none
    then have "mb_all ?mb = []" by (simp add: mb_all_def)
    with none show ?thesis using take_item_none [of ib] mb_drop_none [of ?mb "Suc n"] by (simp add: line_items_def)
  qed
qed


lemma mailbox_returned: "mailbox_of c (ib\<lparr>ib_returned := ss\<rparr>) = (mailbox_of c ib)\<lparr>mb_back := ss\<rparr>"
proof (rule mailbox_eqI)
  fix l
  show "mb_line (mailbox_of c (ib\<lparr>ib_returned := ss\<rparr>)) l = mb_line ((mailbox_of c ib)\<lparr>mb_back := ss\<rparr>) l"
    "mb_seen (mailbox_of c (ib\<lparr>ib_returned := ss\<rparr>)) l = mb_seen ((mailbox_of c ib)\<lparr>mb_back := ss\<rparr>) l"
    by (cases l; simp)+
qed simp

lemma pick_first_filter:
  "pick_first P xs = (case filter P xs of [] \<Rightarrow> None | x # _ \<Rightarrow> Some (x, remove1 x xs))"
proof (induction xs)
  case (Cons y xs)
  then show ?case by (cases "filter P xs") (auto dest: filter_eq_ConsD)
qed simp

lemma steer_mailbox:
  assumes "inbox_wf c ib" and "inbox_take_steer c ib = (found, ib')"
  shows "mb_steer (mailbox_of c ib) = (found, mailbox_of c ib')"
proof (cases "filter (\<lambda>s. signal_lane s = Urgent) (ib_returned ib)")
  case (Cons s rest)
  then show ?thesis
    using assms(2) by (auto simp: inbox_take_steer_def pick_first_filter mb_steer_def mailbox_returned)
next
  case none: Nil
  show ?thesis
  proof (cases "contents (ib_urgent ib)")
    case Nil
    then show ?thesis using assms(2) none by (simp add: inbox_take_steer_def pick_first_filter mb_steer_def)
  next
    case (Cons it rest)
    then obtain q where q: "consume (ib_urgent ib) = (Some it, q)" "contents q = rest"
      "from_queued c (qi_payload it) = Inr (signal_of c it)"
      using inbox_wf_heads(1) [OF assms(1)] by blast
    then have "found = Some (signal_of c it)" "ib' = ib\<lparr>ib_urgent := q\<rparr>"
      using assms(2) none by (simp_all add: inbox_take_steer_def pick_first_filter)
    then show ?thesis
      using none Cons q(2) mailbox_take_urgent [OF q(1), of c] by (simp add: mb_steer_def)
  qed
qed

section \<open>The inbox keeps the mailbox's promise\<close>

definition run_keeps :: "signal_codec \<Rightarrow> nat \<Rightarrow> nat \<Rightarrow> inbox \<Rightarrow> inbox_event list \<Rightarrow> bool" where
  "run_keeps c capacity bandwidth ib log \<longleftrightarrow>
     inbox_wf c ib \<and> lines_below (length log) ib \<and> ib_bandwidth ib = max bandwidth 1 \<and>
     (\<forall>l. eq_capacity (line_of l ib) = capacity) \<and>
     mb_replay capacity (max bandwidth 1) c log mb_empty = Some (mailbox_of c ib)"

lemma deliver_capacity:
  "deliver c s ib = (r, ib') \<Longrightarrow> eq_capacity (line_of l ib') = eq_capacity (line_of l ib)"
  by (cases l; cases "signal_lane s")
    (auto simp: deliver_def enqueue_def Let_def split: sum.splits prod.splits if_splits admission.splits)

lemma consume_capacity: "consume q = (found, q') \<Longrightarrow> eq_capacity q' = eq_capacity q"
  by (auto simp: consume_def split: list.splits)

lemma same_frame_capacity: "same_frame ib ib' \<Longrightarrow> eq_capacity (line_of l ib') = eq_capacity (line_of l ib)"
  by (cases l) (simp_all add: same_frame_def)

lemma run_keeps_snoc:
  assumes "run_keeps c capacity bandwidth ib log" and "inbox_wf c ib'" and "lines_below (Suc (length log)) ib'"
    and "ib_bandwidth ib' = ib_bandwidth ib" and "\<And>l. eq_capacity (line_of l ib') = eq_capacity (line_of l ib)"
    and "mb_step capacity (max bandwidth 1) c ev (mailbox_of c ib) = Some (mailbox_of c ib')"
  shows "run_keeps c capacity bandwidth ib' (log @ [ev])"
  using assms by (simp add: run_keeps_def mb_replay_append)

lemma same_frame_keeps:
  assumes "run_keeps c capacity bandwidth ib log" and "same_frame ib ib'"
  shows "lines_below (Suc (length log)) ib'" "ib_bandwidth ib' = ib_bandwidth ib"
  using assms lines_below_mono [of "length log" ib "Suc (length log)"] same_frame_counts(1) [OF assms(2)]
  by (simp_all add: run_keeps_def same_frame_def)

lemma run_arrives:
  assumes keeps: "run_keeps c capacity bandwidth ib log" and law: "codec_reads_back c" and short: "length log < u64_max"
    and s: "sg_from s \<noteq> []" and out: "deliver c s ib = (Inr verdict, ib')"
  shows "run_keeps c capacity bandwidth ib' (log @ [Arrived s verdict])"
proof -
  have wf: "inbox_wf c ib" "lines_below (length log) ib" using keeps by (simp_all add: run_keeps_def)
  have "delivery_keeps c (length log) s ib ib'"
    using out wf(1) law s wf(2) short by (cases rule: deliver_cases) simp_all
  then have kept: "inbox_wf c ib'" "lines_below (Suc (length log)) ib'" "ib_bandwidth ib' = ib_bandwidth ib"
    by (simp_all add: delivery_keeps_def)
  have "mb_deliver capacity c s (mailbox_of c ib) = (verdict, mailbox_of c ib')"
    by (rule deliver_rule [OF out wf(1) law s wf(2) short]) (use keeps in \<open>simp add: run_keeps_def\<close>)
  then show ?thesis
    by (intro run_keeps_snoc [OF keeps kept]) (simp_all add: deliver_capacity [OF out])
qed

lemma run_pulls:
  assumes keeps: "run_keeps c capacity bandwidth ib log" and out: "inbox_pull c ib = (r, ib')"
  shows "run_keeps c capacity bandwidth ib' (log @ [HandedOut r])"
proof -
  have wf: "inbox_wf c ib" and bw: "ib_bandwidth ib = max bandwidth 1" using keeps by (simp_all add: run_keeps_def)
  obtain ib2 where two: "inbox_pull c ib = (Inr (take (ib_bandwidth ib) (mb_all (mailbox_of c ib))), ib2)"
    "mailbox_of c ib2 = mb_drop (ib_bandwidth ib) (mailbox_of c ib)"
    using pull_loop_mailbox [OF wf, of "ib_bandwidth ib" "[]"] by (auto simp: inbox_pull_def)
  obtain ib3 where three: "inbox_pull c ib = (Inr (take (ib_bandwidth ib) (waiting_signals c ib)), ib3)"
    "inbox_wf c ib3" "same_frame ib ib3"
    using inbox_pull_takes [OF wf] by blast
  have "ib2 = ib'" "ib3 = ib'" using out two(1) three(1) by simp_all
  then show ?thesis
    using two out three same_frame_keeps [OF keeps, of ib'] same_frame_capacity [of ib ib']
    by (intro run_keeps_snoc [OF keeps]) (simp_all add: bw)
qed

lemma run_steers:
  assumes keeps: "run_keeps c capacity bandwidth ib log" and out: "inbox_take_steer c ib = (found, ib')"
  shows "run_keeps c capacity bandwidth ib' (log @ [Steered found])"
proof -
  have wf: "inbox_wf c ib" using keeps by (simp add: run_keeps_def)
  have "inbox_wf c ib' \<and> same_frame ib ib'"
    using wf out by (cases rule: inbox_take_steer_cases) (use wf in simp_all)
  then show ?thesis
    using steer_mailbox [OF wf out] same_frame_keeps [OF keeps, of ib'] same_frame_capacity [of ib ib']
    by (intro run_keeps_snoc [OF keeps]) simp_all
qed

lemma inbox_run_keeps:
  assumes "inbox_run c (inbox_new capacity bandwidth) ib log" and law: "codec_reads_back c" and "length log \<le> u64_max"
  shows "run_keeps c capacity bandwidth ib log"
  using assms(1,3)
proof (induction rule: inbox_run.induct)
  case opened
  have "mailbox_of c (inbox_new capacity bandwidth) = mb_empty"
  proof (rule mailbox_eqI)
    fix l
    show "mb_line (mailbox_of c (inbox_new capacity bandwidth)) l = mb_line mb_empty l"
      "mb_seen (mailbox_of c (inbox_new capacity bandwidth)) l = mb_seen mb_empty l"
      by (cases l; simp add: mb_empty_def inbox_new_def queue_new_def contents_def bt_empty_def bt_get_def fun_eq_iff)+
  qed (simp add: mb_empty_def inbox_new_def)
  moreover have "eq_capacity (line_of l (inbox_new capacity bandwidth)) = capacity" for l
    by (cases l) (simp_all add: inbox_new_def)
  ultimately show ?case
    by (simp add: run_keeps_def lines_below_def) (simp add: inbox_new_def)
next
  case (arrives ib log s verdict ib')
  then show ?case using run_arrives [OF _ law] by simp
next
  case (unwritable ib log s e ib')
  then have "ib' = ib" by (auto simp: deliver_def split: sum.splits lane.splits prod.splits)
  then show ?case using unwritable by simp
next
  case (pulls ib log r ib')
  then show ?case using run_pulls by simp
next
  case (steers ib log found ib')
  then show ?case using run_steers by simp
next
  case (returns ib log ss)
  then have keeps: "run_keeps c capacity bandwidth ib log" by simp
  have "mailbox_of c (give_back ss ib) = (mailbox_of c ib)\<lparr>mb_back := ss @ ib_returned ib\<rparr>"
    unfolding give_back_def mailbox_returned by (simp add: fold_Cons_rev)
  then show ?case
    using keeps same_frame_keeps [OF keeps, of "give_back ss ib"] same_frame_capacity [of ib "give_back ss ib"]
    by (intro run_keeps_snoc [OF keeps]) (simp_all add: run_keeps_def)
qed


section \<open>Once within the window\<close>

fun out_of :: "inbox_event \<Rightarrow> signal list" where
  "out_of (HandedOut (Inr ss)) = ss"
| "out_of (Steered (Some s)) = [s]"
| "out_of _ = []"

definition handed :: "inbox_event list \<Rightarrow> signal list" where
  "handed log = concat (map out_of log)"

fun arrival_of :: "inbox_event \<Rightarrow> signal list" where
  "arrival_of (Arrived s _) = [s]"
| "arrival_of _ = []"

fun admitted_of :: "inbox_event \<Rightarrow> signal list" where
  "admitted_of (Arrived s Admit) = [s]"
| "admitted_of _ = []"

definition arrivals :: "inbox_event list \<Rightarrow> signal list" where
  "arrivals log = concat (map arrival_of log)"

definition admitted :: "inbox_event list \<Rightarrow> signal list" where
  "admitted log = concat (map admitted_of log)"

definition no_returns :: "inbox_event list \<Rightarrow> bool" where
  "no_returns log \<longleftrightarrow> (\<forall>ss. GivenBack ss \<notin> set log)"

definition in_window :: "inbox_event list \<Rightarrow> bool" where
  "in_window log \<longleftrightarrow>
     (\<forall>s \<in> set (arrivals log). \<forall>s' \<in> set (arrivals log).
        time_value (sg_at s') < time_value (sg_at s) + IDEM_WINDOW_MS)"

text \<open>What a copy of a signal has in common with it: the lane and the key.\<close>

definition mark :: "signal_codec \<Rightarrow> signal \<Rightarrow> lane \<times> idem_key" where
  "mark c s = (signal_lane s, signal_key c s)"

definition once :: "signal_codec \<Rightarrow> inbox_event list \<Rightarrow> mailbox \<Rightarrow> bool" where
  "once c log mb \<longleftrightarrow>
     distinct (map (mark c) (handed log @ mb_all mb)) \<and>
     mark c ` set (handed log @ mb_all mb) = mark c ` set (admitted log) \<and>
     set (handed log @ mb_all mb) \<subseteq> set (admitted log)"

definition once_inv :: "signal_codec \<Rightarrow> inbox_event list \<Rightarrow> mailbox \<Rightarrow> bool" where
  "once_inv c log mb \<longleftrightarrow>
     once c log mb \<and> mb_back mb = [] \<and>
     (\<forall>l k. mb_seen mb l k \<noteq> None \<longleftrightarrow> (l, k) \<in> mark c ` set (admitted log)) \<and>
     (\<forall>l k t. mb_seen mb l k = Some t \<longrightarrow> t \<in> sg_at ` set (arrivals log))"

lemma log_snoc [simp]:
  "handed (log @ [ev]) = handed log @ out_of ev" "arrivals (log @ [ev]) = arrivals log @ arrival_of ev"
  "admitted (log @ [ev]) = admitted log @ admitted_of ev"
  by (simp_all add: handed_def arrivals_def admitted_def)

lemma once_moved:
  assumes "once_inv c log mb" and "mb_seen mb' = mb_seen mb" and "mb_back mb' = []"
    and "handed log @ mb_all mb = handed (log @ [ev]) @ mb_all mb'"
    and "arrival_of ev = []" "admitted_of ev = []"
  shows "once_inv c (log @ [ev]) mb'"
  using assms unfolding once_inv_def once_def by simp

lemma once_known:
  assumes inv: "once_inv c log mb" and mb': "mb' = mb\<lparr>mb_seen := (mb_seen mb)(l := mb_seen mb l)\<rparr>"
    and ev: "out_of ev = []" "set (admitted_of ev) \<subseteq> set (admitted log) \<or> admitted_of ev = [] \<or>
      (\<exists>s. admitted_of ev = [s] \<and> mark c s \<in> mark c ` set (admitted log))"
  shows "once_inv c (log @ [ev]) mb'"
proof -
  have "mb' = mb" using mb' by simp
  moreover have "mark c ` set (admitted (log @ [ev])) = mark c ` set (admitted log)"
    using ev(2) by auto
  ultimately show ?thesis
    using inv ev(1) unfolding once_inv_def once_def by (auto simp: image_Un)
qed

lemma once_fresh:
  assumes inv: "once_inv c log mb" and new: "mark c s \<notin> mark c ` set (admitted log)"
    and mb': "mb' = mb\<lparr>mb_line := (mb_line mb)(signal_lane s := mb_line mb (signal_lane s) @ [s]),
        mb_seen := (mb_seen mb)(signal_lane s := (mb_seen mb (signal_lane s))(signal_key c s \<mapsto> sg_at s))\<rparr>"
  shows "once_inv c (log @ [Arrived s Admit]) mb'"
proof -
  have perm: "mset (handed log @ mb_all mb') = add_mset s (mset (handed log @ mb_all mb))"
    unfolding mb' by (cases "signal_lane s") (simp_all add: mb_all_def)
  then have sets: "set (handed log @ mb_all mb') = insert s (set (handed log @ mb_all mb))"
    by (metis set_mset_add_mset_insert set_mset_mset)
  have old: "distinct (map (mark c) (handed log @ mb_all mb))" "mark c s \<notin> mark c ` set (handed log @ mb_all mb)"
    using inv new unfolding once_inv_def once_def by auto
  have "mset (map (mark c) (handed log @ mb_all mb')) = mset (map (mark c) (s # handed log @ mb_all mb))"
    using perm by (metis mset.simps(2) mset_map)
  moreover have "distinct (map (mark c) (s # handed log @ mb_all mb))" using old by (simp only: list.map distinct.simps set_map) simp
  ultimately have "distinct (map (mark c) (handed log @ mb_all mb'))" by (metis mset_eq_imp_distinct_iff)
  moreover have "mb_seen mb' l k \<noteq> None \<longleftrightarrow> (l, k) \<in> mark c ` set (admitted (log @ [Arrived s Admit]))" for l k
  proof -
    have "(l, k) = mark c s \<longleftrightarrow> l = signal_lane s \<and> k = signal_key c s" by (simp add: mark_def)
    then show ?thesis using inv unfolding once_inv_def mb' by auto
  qed
  moreover have "t \<in> sg_at ` set (arrivals (log @ [Arrived s Admit]))" if "mb_seen mb' l k = Some t" for l k t
    using inv that unfolding once_inv_def mb' by (auto split: if_splits)
  ultimately show ?thesis
    using inv sets unfolding once_inv_def once_def mb' by auto
qed

lemma window_known:
  assumes "once_inv c log mb" and "in_window (log @ [Arrived s verdict])"
  shows "still_known (sg_at s) (mb_seen mb l) = mb_seen mb l"
proof
  fix k
  have "\<not> time_value t + IDEM_WINDOW_MS \<le> time_value (sg_at s)" if "mb_seen mb l k = Some t" for t
    using assms that unfolding once_inv_def in_window_def by (fastforce simp: not_le)
  then show "still_known (sg_at s) (mb_seen mb l) k = mb_seen mb l k"
    by (auto simp: still_known_def split: option.split)
qed

lemma once_arrives:
  assumes inv: "once_inv c log mb" and window: "in_window (log @ [Arrived s verdict])"
    and step: "mb_deliver capacity c s mb = (verdict, mb')"
  shows "once_inv c (log @ [Arrived s verdict]) mb'"
proof -
  let ?l = "signal_lane s" and ?k = "signal_key c s"
  note known = window_known [OF inv window, of ?l]
  show ?thesis
  proof (cases "mb_seen mb ?l ?k \<noteq> None")
    case True
    then have "verdict = Admit" "mb' = mb\<lparr>mb_seen := (mb_seen mb)(?l := mb_seen mb ?l)\<rparr>"
      using step by (simp_all add: mb_deliver_def Let_def known)
    moreover have "mark c s \<in> mark c ` set (admitted log)"
      using True inv unfolding once_inv_def mark_def by simp
    ultimately show ?thesis by (intro once_known [OF inv]) auto
  next
    case unknown: False
    show ?thesis
    proof (cases "length (mb_line mb ?l) < capacity")
      case True
      then have v: "verdict = Admit" "mb' = mb\<lparr>mb_line := (mb_line mb)(?l := mb_line mb ?l @ [s]),
          mb_seen := (mb_seen mb)(?l := (mb_seen mb ?l)(?k \<mapsto> sg_at s))\<rparr>"
        using step unknown by (simp_all add: mb_deliver_def Let_def known)
      have "mark c s \<notin> mark c ` set (admitted log)"
        using unknown inv unfolding once_inv_def mark_def by blast
      then show ?thesis unfolding v(1) by (rule once_fresh [OF inv _ v(2)])
    next
      case False
      then have "verdict = Shed CapacityExhausted" "mb' = mb\<lparr>mb_seen := (mb_seen mb)(?l := mb_seen mb ?l)\<rparr>"
        using step unknown by (simp_all add: mb_deliver_def Let_def known)
      then show ?thesis by (intro once_known [OF inv]) auto
    qed
  qed
qed

lemma replay_once:
  assumes "mb_replay capacity bandwidth c log mb_empty = Some mb" and "no_returns log" and "in_window log"
  shows "once_inv c log mb"
  using assms
proof (induction log arbitrary: mb rule: rev_induct)
  case Nil
  then show ?case by (auto simp: once_inv_def once_def mb_empty_def mb_all_def handed_def admitted_def arrivals_def)
next
  case (snoc ev log)
  obtain mb1 where one: "mb_replay capacity bandwidth c log mb_empty = Some mb1" "mb_step capacity bandwidth c ev mb1 = Some mb"
    using snoc.prems(1) by (auto simp: mb_replay_append bind_eq_Some_conv)
  have "no_returns log" "in_window log"
    using snoc.prems(2,3) by (auto simp: no_returns_def in_window_def)
  then have inv: "once_inv c log mb1" using snoc.IH one(1) by blast
  then have none: "mb_back mb1 = []" by (simp add: once_inv_def)
  show ?case
  proof (cases ev)
    case (Arrived s verdict)
    then have "mb_deliver capacity c s mb1 = (verdict, mb)"
      using one(2) by (auto split: prod.splits if_splits)
    then show ?thesis using once_arrives [OF inv] snoc.prems(3) Arrived by simp
  next
    case (HandedOut r)
    then have r: "r = Inr (take bandwidth (mb_all mb1))" "mb = mb_drop bandwidth mb1"
      using one(2) by (simp_all split: if_splits)
    show ?thesis
      by (rule once_moved [OF inv]) (simp_all add: HandedOut r none mb_all_drop)
  next
    case (Steered found)
    then have st: "mb_steer mb1 = (found, mb)" using one(2) by (auto split: prod.splits if_splits)
    show ?thesis
    proof (cases "mb_line mb1 Urgent")
      case Nil
      then have "found = None" "mb = mb1" using st none by (simp_all add: mb_steer_def)
      then show ?thesis by (intro once_moved [OF inv]) (simp_all add: Steered none)
    next
      case (Cons s rest)
      then have "found = Some s" "mb = mb1\<lparr>mb_line := (mb_line mb1)(Urgent := rest)\<rparr>"
        using st none by (simp_all add: mb_steer_def)
      then show ?thesis by (intro once_moved [OF inv]) (simp_all add: Steered none mb_all_def Cons)
    qed
  next
    case (GivenBack ss)
    then show ?thesis using snoc.prems(2) by (auto simp: no_returns_def)
  qed
qed


section \<open>Properties\<close>

text \<open>C7. An inbox keeps the promise of a mailbox. From a new inbox, over any sequence of deliveries of
  signed signals, pulls, steers taken and signals given back, with a codec that reads back what it
  wrote and fewer operations than a \<open>u64\<close> counts, every operation answered what the mailbox
  answers, and the inbox holds what the mailbox holds: a delivery is recognised exactly when its
  lane still knows the key, shed exactly when the lane is full, and otherwise put last in its lane; a
  pull never fails and hands out the first signals, as many as the bandwidth allows, those given back
  before the urgent ones and the urgent before the ordinary; a steer is the first urgent one. What
  \<open>status\<close> reports is how many wait. And while nothing is given back and all signals come within one
  window of each other, what was handed out and what waits holds every admitted signal exactly once
  by lane and key, however often it was delivered.\<close>

theorem inbox_keeps_order_and_delivers_once:
  assumes "codec_reads_back c" and "inbox_run c (inbox_new capacity bandwidth) ib log" and "length log \<le> u64_max"
  shows "mb_replay capacity (max bandwidth 1) c log mb_empty = Some (mailbox_of c ib) \<and>
    pending ib = min u32_max (length (mb_all (mailbox_of c ib))) \<and>
    (no_returns log \<and> in_window log \<longrightarrow> once c log (mailbox_of c ib))"
proof -
  have "run_keeps c capacity bandwidth ib log" by (rule inbox_run_keeps [OF assms(2,1,3)])
  then have "mb_replay capacity (max bandwidth 1) c log mb_empty = Some (mailbox_of c ib)"
    by (simp add: run_keeps_def)
  then show ?thesis
    using replay_once pending_counts [of ib c] mb_all_waiting [of c ib] by (auto simp: once_inv_def)
qed


text \<open>A mention delivered twice and a steer after it: the steer is pulled first, and one mention waits.\<close>

lemma deliver_writes: "\<exists>verdict ib'. deliver number_codec s ib = (Inr verdict, ib')"
proof -
  obtain p where "queued_payload number_codec s = Inr p" using number_codec_queues by blast
  then show ?thesis by (cases "signal_lane s") (simp_all add: deliver_def split: prod.split)
qed

theorem inbox_keeps_order_and_delivers_once_witness:
  "\<exists>ib log. inbox_run number_codec (inbox_new 4 1) ib log \<and>
     log = [Arrived example_mention Admit, Arrived example_mention Admit, Arrived example_steer Admit,
       HandedOut (Inr [example_steer])] \<and>
     pending ib = 1 \<and> handed log @ mb_all (mailbox_of number_codec ib) = [example_steer, example_mention]"
proof -
  let ?c = number_codec and ?m = example_mention and ?s = example_steer
  have sent: "sg_from ?m \<noteq> []" "sg_from ?s \<noteq> []"
    by (simp_all add: example_mention_def example_steer_def example_signal_def lit_def)
  have lanes: "signal_lane ?m = Ordinary" "signal_lane ?s = Urgent"
    by (simp_all add: example_mention_def example_steer_def example_signal_def signal_lane_def)
  obtain v1 ib1 where 1: "deliver ?c ?m (inbox_new 4 1) = (Inr v1, ib1)" using deliver_writes by blast
  obtain v2 ib2 where 2: "deliver ?c ?m ib1 = (Inr v2, ib2)" using deliver_writes by blast
  obtain v3 ib3 where 3: "deliver ?c ?s ib2 = (Inr v3, ib3)" using deliver_writes by blast
  obtain r ib where 4: "inbox_pull ?c ib3 = (r, ib)" by fastforce
  let ?log = "[Arrived ?m v1, Arrived ?m v2, Arrived ?s v3, HandedOut r]"
  have run: "inbox_run ?c (inbox_new 4 1) ib ?log"
    using inbox_run.pulls [OF inbox_run.arrives [OF inbox_run.arrives [OF inbox_run.arrives
      [OF inbox_run.opened sent(1) 1] sent(1) 2] sent(2) 3] 4] by simp
  have "length ?log \<le> u64_max" by (simp add: u_defs)
  note kept = inbox_keeps_order_and_delivers_once [OF number_codec_reads_back run this]
  have "v1 = Admit \<and> v2 = Admit \<and> v3 = Admit \<and> r = Inr [?s] \<and> mb_all mb = [?m]"
    if "mb_replay 4 (max 1 1) ?c ?log mb_empty = Some mb" for mb
    using that by (auto simp: mb_deliver_def mb_empty_def still_known_def lanes Let_def IDEM_WINDOW_MS_def mb_all_def
        mb_drop_def bind_eq_Some_conv split: if_splits)
  from this [OF conjunct1 [OF kept]] show ?thesis using run kept by (intro exI [of _ ib] exI [of _ ?log]) (simp add: handed_def u_defs)
qed

end
