(* ===== verification/MailRuns.thy ===== *)
theory MailRuns
  imports MailMoves InboxRuns
begin

text \<open>
  Runs of a desk. Every operation is shown to be a flow: it keeps the desk sound, its account does not
  grow, and with an accepting post and room in the lines it does not shrink. Flows compose, so the
  theorems about runs follow by induction.
\<close>


section \<open>Flows\<close>

text \<open>The slot is signed, and the lines were given no more than the signals there ever were.\<close>

definition sound :: "signal_codec \<Rightarrow> nat \<Rightarrow> 'p signal_desk \<Rightarrow> bool" where
  "sound c n d \<longleftrightarrow> signed (ms_waiting (sd_slot d)) \<and>
     (\<exists>m. settled c m (sd_inbox d) \<and> m + length (ms_waiting (sd_slot d)) \<le> n)"

definition slot_keys :: "signal_codec \<Rightarrow> 'p signal_desk \<Rightarrow> idem_key set" where
  "slot_keys c d = signal_key c ` set (ms_waiting (sd_slot d))"

text \<open>Nothing in the slot would be dropped as a repeat, refused, or shed.\<close>

definition easy :: "signal_codec \<Rightarrow> nat \<Rightarrow> 'p signal_desk \<Rightarrow> bool" where
  "easy c n d \<longleftrightarrow> (\<forall>s \<in> set (ms_waiting (sd_slot d)). is_ok (queued_payload c s)) \<and>
     distinct (map (signal_key c) (ms_waiting (sd_slot d))) \<and>
     slot_keys c d \<inter> known_keys (sd_inbox d) = {} \<and> n \<le> least_capacity (sd_inbox d)"

text \<open>The slot is left alone or emptied, and the lines learn no key but those of the slot.\<close>

definition slot_moves :: "signal_codec \<Rightarrow> 'p signal_desk \<Rightarrow> 'p signal_desk \<Rightarrow> bool" where
  "slot_moves c d d' \<longleftrightarrow> least_capacity (sd_inbox d') = least_capacity (sd_inbox d) \<and>
     (ms_waiting (sd_slot d') = ms_waiting (sd_slot d) \<and> known_keys (sd_inbox d') \<subseteq> known_keys (sd_inbox d) \<or>
      ms_waiting (sd_slot d') = [] \<and> known_keys (sd_inbox d') \<subseteq> known_keys (sd_inbox d) \<union> slot_keys c d)"

definition flows :: "'p desk_env \<Rightarrow> nat \<Rightarrow> ('p \<times> signal_effect list) signal_desk \<Rightarrow> ('p \<times> signal_effect list) signal_desk \<Rightarrow> bool" where
  "flows env n d d' \<longleftrightarrow> sound (de_codec env) n d' \<and> slot_moves (de_codec env) d d' \<and>
     account (de_codec env) d' \<subseteq># account (de_codec env) d \<and>
     (easy (de_codec env) n d \<and> accepting env \<longrightarrow> account (de_codec env) d' = account (de_codec env) d)"

lemma slot_moves_trans:
  "slot_moves c d1 d2 \<Longrightarrow> slot_moves c d2 d3 \<Longrightarrow> slot_moves c d1 d3"
  unfolding slot_moves_def slot_keys_def by auto

lemma slot_moves_easy: "slot_moves c d d' \<Longrightarrow> easy c n d \<Longrightarrow> easy c n d'"
proof -
  assume moved: "slot_moves c d d'" and easy: "easy c n d"
  have apart: "A \<inter> K' = {}" if "A \<inter> K = {}" "K' \<subseteq> K" for A K K' :: "idem_key set"
    using that by blast
  from moved consider
      "ms_waiting (sd_slot d') = ms_waiting (sd_slot d)" "known_keys (sd_inbox d') \<subseteq> known_keys (sd_inbox d)"
    | "ms_waiting (sd_slot d') = []"
    by (auto simp: slot_moves_def)
  then show ?thesis
  proof cases
    case 1
    have "slot_keys c d \<inter> known_keys (sd_inbox d') = {}"
      by (rule apart [OF _ 1(2)]) (use easy in \<open>simp add: easy_def\<close>)
    then show ?thesis
      using moved easy 1(1) by (simp add: slot_moves_def easy_def slot_keys_def)
  next
    case 2
    then show ?thesis
      using moved easy by (simp add: slot_moves_def easy_def slot_keys_def)
  qed
qed

lemma flows_refl: "sound (de_codec env) n d \<Longrightarrow> flows env n d d"
  by (simp add: flows_def slot_moves_def)

lemma flows_trans:
  assumes "flows env n d1 d2" and "flows env n d2 d3"
  shows "flows env n d1 d3"
  using assms slot_moves_trans [of "de_codec env" d1 d2 d3] slot_moves_easy [of "de_codec env" d1 d2 n]
  unfolding flows_def by (metis subset_mset.order_trans)

text \<open>Steps that keep the slot and the keys of the lines: only the account is left to show.\<close>

definition same_room :: "'p signal_desk \<Rightarrow> 'p signal_desk \<Rightarrow> bool" where
  "same_room d d' \<longleftrightarrow> sd_slot d' = sd_slot d \<and> same_frame (sd_inbox d) (sd_inbox d')"

lemma flows_inside:
  assumes "sound (de_codec env) n d" and "same_room d d'" and "inbox_wf (de_codec env) (sd_inbox d')"
    and "account (de_codec env) d' \<subseteq># account (de_codec env) d"
    and "accepting env \<Longrightarrow> account (de_codec env) d' = account (de_codec env) d"
  shows "flows env n d d'"
proof -
  have "same_frame (sd_inbox d) (sd_inbox d')" "sd_slot d' = sd_slot d"
    using assms(2) by (simp_all add: same_room_def)
  then show ?thesis
    using assms same_frame_counts [of "sd_inbox d" "sd_inbox d'"]
    by (auto simp: flows_def sound_def settled_def slot_moves_def least_capacity_def same_frame_def)
qed

lemma sound_inbox: "sound c n d \<Longrightarrow> inbox_wf c (sd_inbox d)"
  by (auto simp: sound_def settled_def)



section \<open>Every operation flows\<close>

lemma account_held [simp]:
  "account c (d\<lparr>sd_held := hs\<rparr>) =
     mset (ms_waiting (sd_slot d)) + mset (waiting_signals c (sd_inbox d)) + mset hs + kept_of d + consumed_mail (snd (sd_post d))"
  by (simp add: account_def desk_mail_def)

lemmas account_defs = account_def desk_mail_def same_room_def

lemma slot_take_cases:
  assumes "slot_take slot = (r, slot')"
  obtains (shut) e where "r = Inl e" "slot' = slot" | (taken) "r = Inr (ms_waiting slot)" "ms_waiting slot' = []"
  using assms by (auto simp: slot_take_def split: if_splits)

text \<open>Taking the slot and queueing it. The step that is left after it flows from what is then there.\<close>

lemma easy_roomy:
  "easy c n d \<Longrightarrow> m + length (ms_waiting (sd_slot d)) \<le> n \<Longrightarrow> roomy c m (ms_waiting (sd_slot d)) (sd_inbox d)"
  by (simp add: easy_def roomy_def slot_keys_def)

lemma grows_slot:
  assumes "grows c m (ms_waiting (sd_slot d)) (sd_inbox d) (sd_inbox d')" and "ms_waiting (sd_slot d') = []"
    and "m + length (ms_waiting (sd_slot d)) \<le> n"
  shows "sound c n d'" and "slot_moves c d d'"
proof -
  have "settled c (m + length (ms_waiting (sd_slot d))) (sd_inbox d')"
    using assms(1) by (simp add: grows_def)
  then show "sound c n d'"
    using assms(2,3) by (auto simp: sound_def signed_def)
  show "slot_moves c d d'"
    using assms(1,2) by (simp add: slot_moves_def grows_def slot_keys_def)
qed

lemma collect_flows:
  assumes law: "codec_reads_back (de_codec env)" and sound: "sound (de_codec env) n d" and n: "n \<le> u64_max"
    and out: "collect (logging env) d = (r, d')"
  shows "flows env n d d'"
proof -
  let ?c = "de_codec env" and ?ss = "ms_waiting (sd_slot d)"
  obtain m where m: "settled ?c m (sd_inbox d)" "m + length ?ss \<le> n" and signed: "signed ?ss"
    using sound by (auto simp: sound_def)
  obtain r0 slot where slot: "slot_take (sd_slot d) = (r0, slot)" by fastforce
  then show ?thesis
  proof (cases rule: slot_take_cases)
    case (shut e)
    then have "d' = d\<lparr>sd_slot := sd_slot d\<rparr>"
      using out slot by (simp add: collect_def take_slot_def desk_then_def)
    then show ?thesis using flows_refl [OF sound] by simp
  next
    case taken
    let ?d = "d\<lparr>sd_slot := slot\<rparr>"
    have each: "collect_each (logging env) ?ss ?d = (r, d')"
      using out slot taken(1) by (simp add: collect_def take_slot_def desk_then_def)
    note q = collect_each_queues [OF _ _ _ signed each, of m, simplified]
    have lawful: "beside ?d d'" "grows ?c m ?ss (sd_inbox d) (sd_inbox d')"
      "desk_mail ?c d' \<subseteq># desk_mail ?c ?d + mset ?ss"
      "roomy ?c m ?ss (sd_inbox d) \<Longrightarrow> desk_mail ?c d' = desk_mail ?c ?d + mset ?ss"
      using q [OF law m(1)] m(2) n by simp_all
    have mail: "desk_mail ?c ?d = desk_mail ?c d"
      by (simp add: desk_mail_def)
    have parts: "account ?c d' = desk_mail ?c d' + consumed_mail (snd (sd_post d))"
      "account ?c d = desk_mail ?c d + mset ?ss + consumed_mail (snd (sd_post d))"
      using lawful(1) taken(2) by (simp_all add: account_def beside_def)
    show ?thesis
      unfolding flows_def
    proof (intro conjI impI)
      show "sound ?c n d'" "slot_moves ?c d d'"
        using grows_slot [OF lawful(2) _ m(2)] lawful(1) taken(2) by (simp_all add: beside_def)
      show "account ?c d' \<subseteq># account ?c d"
        unfolding parts using lawful(3) mail by simp
      show "account ?c d' = account ?c d" if "easy ?c n d \<and> accepting env"
        unfolding parts using lawful(4) easy_roomy [of ?c n d m] that m(2) mail by simp
    qed
  qed
qed


lemma desk_then_cases:
  assumes "desk_then (r0, d0) f = (r, d')"
  obtains (stop) e where "r0 = Inl e" "r = Inl e" "d' = d0" | (go) v where "r0 = Inr v" "f v d0 = (r, d')"
  using assms by (cases r0) (auto simp: desk_then_def)

text \<open>An operation that collects first flows if what it does afterwards flows.\<close>

lemma after_collect:
  assumes law: "codec_reads_back (de_codec env)" and sound: "sound (de_codec env) n d" and n: "n \<le> u64_max"
    and out: "desk_then (collect (logging env) d) f = (r, d')"
    and rest: "\<And>d1. sound (de_codec env) n d1 \<Longrightarrow> f () d1 = (r, d') \<Longrightarrow> flows env n d1 d'"
  shows "flows env n d d'"
proof -
  obtain r1 d1 where c: "collect (logging env) d = (r1, d1)" by fastforce
  have first: "flows env n d d1"
    by (rule collect_flows [OF law sound n c])
  from out [unfolded c] show ?thesis
  proof (cases rule: desk_then_cases)
    case (stop e)
    then show ?thesis using first by simp
  next
    case (go v)
    then have go': "f () d1 = (r, d')" by simp
    have "sound (de_codec env) n d1" using first by (simp add: flows_def)
    from flows_trans [OF first rest [OF this go']] show ?thesis .
  qed
qed

lemma take_steer_flows:
  assumes "codec_reads_back (de_codec env)" and "sound (de_codec env) n d" and "n \<le> u64_max"
    and "desk_take_steer (logging env) d = (r, d')"
  shows "flows env n d d'"
  using assms unfolding desk_take_steer_def
proof (rule after_collect)
  fix d1
  assume sound: "sound (de_codec env) n d1"
    and out: "(case inbox_take_steer (de_codec (logging env)) (sd_inbox d1) of
       (None, ib) \<Rightarrow> (Inr None, d1\<lparr>sd_inbox := ib\<rparr>)
     | (Some s, ib) \<Rightarrow>
         (let d = d1\<lparr>sd_inbox := ib\<rparr> in
          case letter_from_signal s of
            Inr l \<Rightarrow> (Inr (Some l), d\<lparr>sd_held := sd_held d @ [s]\<rparr>)
          | Inl unreadable \<Rightarrow>
              desk_then (post_line (logging env) (Consumed s (sd_who d)) d) (\<lambda>_ d. (Inl unreadable, d)))) = (r, d')"
  let ?c = "de_codec env"
  obtain found ib where t: "inbox_take_steer ?c (sd_inbox d1) = (found, ib)" by fastforce
  show "flows env n d1 d'"
    using sound_inbox [OF sound] t
  proof (cases rule: inbox_take_steer_cases)
    case none
    then have "d' = d1\<lparr>sd_inbox := sd_inbox d1\<rparr>"
      using out t by simp
    then show ?thesis using flows_refl [OF sound] by simp
  next
    case (some s)
    let ?d = "d1\<lparr>sd_inbox := ib\<rparr>"
    show ?thesis
    proof (cases "letter_from_signal s")
      case (Inr l)
      then have d': "d' = ?d\<lparr>sd_held := sd_held d1 @ [s]\<rparr>"
        using out t some(1) by simp
      have "account ?c d' = account ?c d1"
        using some(3) by (simp add: d' account_defs)
      then show ?thesis
        using some by (intro flows_inside [OF sound]) (simp_all add: d' same_room_def)
    next
      case (Inl unreadable)
      obtain r2 d2 where post: "post_line (logging env) (Consumed s (sd_who d1)) ?d = (r2, d2)" by fastforce
      have d': "d' = d2"
        using out t some(1) Inl post by (auto simp: desk_then_def split: sum.splits)
      from post show ?thesis
      proof (cases rule: post_line_cases)
        case (accepted p)
        have "account ?c d' = account ?c d1"
          using some(3) accepted by (simp add: d' account_defs)
        then show ?thesis
          using some accepted by (intro flows_inside [OF sound]) (simp_all add: d' same_room_def)
      next
        case (refused e p)
        have "account ?c d' \<subseteq># account ?c d1"
          using some(3) refused by (simp add: d' account_defs)
        then show ?thesis
          using some refused by (intro flows_inside [OF sound]) (simp_all add: d' same_room_def)
      qed
    qed
  qed
qed

lemma answer_each_accounts:
  assumes "answer_each (logging env) ss d = (r, d')" and "sd_held d = []"
  shows "\<exists>hs p. d' = d\<lparr>sd_held := hs, sd_post := p\<rparr> \<and>
    mset hs + consumed_mail (snd p) = mset ss + consumed_mail (snd (sd_post d))"
  using assms
proof (induction ss arbitrary: d)
  case Nil
  then have "d' = d\<lparr>sd_held := [], sd_post := sd_post d\<rparr>" by (cases d) simp
  then show ?case by fastforce
next
  case (Cons s ss)
  obtain r1 d1 where post: "post_line (logging env) (Consumed s (sd_who d)) d = (r1, d1)" by fastforce
  then show ?case
  proof (cases rule: post_line_cases)
    case (accepted p)
    then have "answer_each (logging env) ss (d\<lparr>sd_post := p\<rparr>) = (r, d')"
      using Cons.prems(1) post by simp
    from Cons.IH [OF this] Cons.prems(2) obtain hs p' where
      "d' = d\<lparr>sd_post := p\<rparr>\<lparr>sd_held := hs, sd_post := p'\<rparr>" "mset hs + consumed_mail (snd p') = mset ss + consumed_mail (snd p)"
      by auto
    then show ?thesis
      using accepted(3) by (intro exI [of _ hs] exI [of _ p']) simp
  next
    case (refused e p)
    then have "d' = d\<lparr>sd_post := p\<rparr>\<lparr>sd_held := s # ss\<rparr>"
      using Cons.prems(1) post by simp
    then show ?thesis
      using refused(3) by (intro exI [of _ "s # ss"] exI [of _ p]) simp
  qed
qed

lemma answered_flows:
  assumes sound: "sound (de_codec env) n d" and "answered (logging env) d = (r, d')"
  shows "flows env n d d'"
proof -
  obtain hs p where d': "d' = d\<lparr>sd_held := []\<rparr>\<lparr>sd_held := hs, sd_post := p\<rparr>"
    and m: "mset hs + consumed_mail (snd p) = mset (sd_held d) + consumed_mail (snd (sd_post d))"
    using answer_each_accounts [of env "sd_held d" "d\<lparr>sd_held := []\<rparr>" r d'] assms(2) by (auto simp: answered_def)
  have "account (de_codec env) d' = account (de_codec env) d"
    using m by (simp add: d' account_defs add.assoc)
  then show ?thesis
    using sound_inbox [OF sound] by (intro flows_inside [OF sound]) (simp_all add: d' same_room_def)
qed


lemma post_flows:
  assumes sound: "sound (de_codec env) n d" and "post_line (logging env) eff d = (r, d')" and "consumed_by eff = {#}"
  shows "flows env n d d'" and "\<exists>p. d' = d\<lparr>sd_post := p\<rparr>"
proof -
  from assms(2) obtain p where d': "d' = d\<lparr>sd_post := p\<rparr>"
    and "consumed_mail (snd p) = consumed_mail (snd (sd_post d))"
    using assms(3) by (elim post_line_cases) auto
  then have "account (de_codec env) d' = account (de_codec env) d"
    by (simp add: account_defs)
  then show "flows env n d d'"
    using sound_inbox [OF sound] by (intro flows_inside [OF sound]) (simp_all add: d' same_room_def)
  show "\<exists>p. d' = d\<lparr>sd_post := p\<rparr>" using d' by blast
qed

text \<open>A step that touches none of the mail.\<close>

lemma aside_flows:
  assumes sound: "sound (de_codec env) n d" and "sd_slot d' = sd_slot d" and "sd_inbox d' = sd_inbox d"
    and "sd_held d' = sd_held d" and "kept_of d' = kept_of d" and "sd_post d' = sd_post d"
  shows "flows env n d d'"
  using sound_inbox [OF sound] assms by (intro flows_inside [OF sound]) (simp_all add: account_defs)

lemma mint_aside: "mint env d = (r, d') \<Longrightarrow> \<exists>k. d' = d\<lparr>sd_minted := k\<rparr>"
proof -
  assume "mint env d = (r, d')"
  then have "d' = d \<or> (\<exists>k. d' = d\<lparr>sd_minted := k\<rparr>)"
    by (auto simp: mint_def split: option.splits)
  moreover have "d = d\<lparr>sd_minted := sd_minted d\<rparr>" by simp
  ultimately show ?thesis by metis
qed

lemma send_flows:
  assumes sound: "sound (de_codec env) n d" and out: "desk_send (logging env) args d = (r, d')"
  shows "flows env n d d'"
proof (cases "send_args args d")
  case (Inl e)
  then show ?thesis using out flows_refl [OF sound] by (simp add: desk_send_def desk_then_def)
next
  case (Inr parsed)
  obtain to_room k body where parsed: "parsed = (to_room, k, body)" by (cases parsed)
  obtain r1 d1 where m: "mint (logging env) d = (r1, d1)" by fastforce
  obtain c where d1: "d1 = d\<lparr>sd_minted := c\<rparr>"
    using mint_aside [OF m] by blast
  have first: "flows env n d d1"
    by (rule aside_flows [OF sound]) (simp_all add: d1)
  then have sound1: "sound (de_codec env) n d1" by (simp add: flows_def)
  consider (early) "d' = d1"
    | (posted) s d2 r2 wants where "post_line (logging env) (Enqueued s) d1 = (r2, d2)"
      "d' = d2 \<or> d' = d2\<lparr>sd_waiting := Some (wait_asked to_room (sg_id s))\<rparr> \<and> wants"
      "wait_wanted (de_show_json (logging env)) args (sd_waiting d1 \<noteq> None) = Inr wants"
    using out Inr parsed m
    by (auto simp: desk_send_def desk_then_def Let_def split: sum.splits prod.splits if_splits)
  then show ?thesis
  proof cases
    case early
    then show ?thesis using first by simp
  next
    case posted
    note P = post_flows [OF sound1 posted(1)]
    have two: "flows env n d1 d2" using P(1) by simp
    show ?thesis
    proof (cases "d' = d2")
      case True
      then show ?thesis using flows_trans [OF first two] by simp
    next
      case False
      then have d': "d' = d2\<lparr>sd_waiting := Some (wait_asked to_room (sg_id s))\<rparr>" "wants"
        using posted(2) by simp_all
      have "sd_waiting d1 = None"
        using posted(3) d'(2) by (auto simp: wait_wanted_def result_simps split: if_splits)
      moreover obtain p where "d2 = d1\<lparr>sd_post := p\<rparr>" using P(2) by auto
      ultimately have "flows env n d2 d'"
        using two by (intro aside_flows) (auto simp: flows_def d'(1) kept_of_def wait_asked_def)
      then show ?thesis
        using flows_trans [OF first flows_trans [OF two]] by simp
    qed
  qed
qed

lemma pull_flows:
  assumes "codec_reads_back (de_codec env)" and "sound (de_codec env) n d" and "n \<le> u64_max"
    and "desk_pull (logging env) d = (r, d')"
  shows "flows env n d d'"
  using assms unfolding desk_pull_def
proof (rule after_collect)
  fix d1
  assume sound: "sound (de_codec env) n d1"
    and out: "desk_then (case inbox_pull (de_codec (logging env)) (sd_inbox d1) of (r, ib) \<Rightarrow> (r, d1\<lparr>sd_inbox := ib\<rparr>)) (\<lambda>taken d.
     (answer [(lit ''signals'', JArray (map pull_row taken)),
              (lit ''remaining'', JNumber (PosInt (pending (sd_inbox d))))],
      d\<lparr>sd_held := sd_held d @ taken\<rparr>)) = (r, d')"
  let ?c = "de_codec env" and ?w = "waiting_signals (de_codec env) (sd_inbox d1)"
  let ?b = "ib_bandwidth (sd_inbox d1)"
  obtain ib where ib: "inbox_pull ?c (sd_inbox d1) = (Inr (take ?b ?w), ib)"
    "waiting_signals ?c ib = drop ?b ?w" "inbox_wf ?c ib" "same_frame (sd_inbox d1) ib"
    using inbox_pull_takes [OF sound_inbox [OF sound]] by blast
  have d': "d' = d1\<lparr>sd_inbox := ib, sd_held := sd_held d1 @ take ?b ?w\<rparr>"
    using out ib(1) by (simp add: desk_then_def)
  have "mset (drop ?b ?w) + mset (take ?b ?w) = mset ?w"
    by (metis add.commute append_take_drop_id mset_append)
  then have "account ?c d' = account ?c d1"
    by (simp add: d' account_defs ib(2) add.assoc)
  then show "flows env n d1 d'"
    using ib by (intro flows_inside [OF sound]) (simp_all add: d' same_room_def)
qed

lemma wait_left_flows:
  assumes sound: "sound (de_codec env) n d" and out: "wait_left (logging env) d = (r, d')"
  shows "flows env n d d'"
proof (cases "sd_waiting d")
  case None
  then show ?thesis using out flows_refl [OF sound] by (simp add: wait_left_def)
next
  case (Some w)
  let ?d = "d\<lparr>sd_waiting := None, sd_inbox := (case rw_kept w of Some s \<Rightarrow> give_back [s] (sd_inbox d) | None \<Rightarrow> sd_inbox d)\<rparr>"
  have "account (de_codec env) ?d = account (de_codec env) d"
    using Some by (simp add: account_defs kept_of_def split: option.splits)
  then have first: "flows env n d ?d"
    using sound_inbox [OF sound] by (intro flows_inside [OF sound]) (simp_all add: same_room_def split: option.splits)
  then have sound1: "sound (de_codec env) n ?d" by (simp add: flows_def)
  show ?thesis
  proof (cases "rw_deadline w")
    case None
    then show ?thesis using out Some first by (simp add: wait_left_def wait_unkeep_def)
  next
    case deadline: (Some t)
    then have "post_line (logging env) (wait_ended (w\<lparr>rw_kept := None\<rparr>) WaitLeft) ?d = (r, d')"
      using out Some by (simp add: wait_left_def wait_unkeep_def)
    from post_flows(1) [OF sound1 this] show ?thesis
      using flows_trans [OF first] by (simp add: wait_ended_def)
  qed
qed


text \<open>
  Waiting. The reply a wait ends with is the one kept, or one out of the slot; only the second kind
  can be lost, when the post refuses the line that ends the wait.
\<close>

lemma wait_slot_flows:
  assumes law: "codec_reads_back (de_codec env)" and sound: "sound (de_codec env) n d" and n: "n \<le> u64_max"
    and kept: "kept_of d = omset kept"
    and slot: "take_slot d = (Inr arrived, d1)" and each: "wait_each (logging env) w kept arrived d1 = (r, d')"
  shows "sound (de_codec env) n d'" and "slot_moves (de_codec env) d d'" and "sd_waiting d' = sd_waiting d"
    and "account (de_codec env) d' \<subseteq># account (de_codec env) d"
    and "\<And>reply. r = Inr reply \<Longrightarrow> account (de_codec env) d' + omset reply \<subseteq># account (de_codec env) d + omset kept"
    and "\<And>reply k. r = Inr reply \<Longrightarrow> kept = Some k \<Longrightarrow> reply = Some k"
    and "easy (de_codec env) n d \<Longrightarrow> \<exists>reply. r = Inr reply \<and> account (de_codec env) d' + omset reply = account (de_codec env) d + omset kept"
proof -
  let ?c = "de_codec env" and ?ss = "ms_waiting (sd_slot d)"
  let ?w = "\<lambda>ib. mset (waiting_signals ?c ib)"
  obtain m where m: "settled ?c m (sd_inbox d)" "m + length ?ss \<le> n" and signed: "signed ?ss"
    using sound by (auto simp: sound_def)
  obtain sl where d1: "d1 = d\<lparr>sd_slot := sl\<rparr>" "arrived = ?ss" "ms_waiting sl = []"
    using slot by (auto simp: take_slot_def slot_take_def split: if_splits)
  have "codec_reads_back (de_codec (logging env))" "settled (de_codec (logging env)) m (sd_inbox d1)"
    "m + length arrived \<le> u64_max" "signed arrived"
    using law m n signed d1 by simp_all
  from wait_each_queues [OF this each] obtain ib where
    d': "d' = d1\<lparr>sd_inbox := ib\<rparr>" and g: "grows ?c m ?ss (sd_inbox d) ib"
    and some: "?w ib \<subseteq># ?w (sd_inbox d) + mset ?ss"
    and rep: "\<And>reply. r = Inr reply \<Longrightarrow> ?w ib + omset reply \<subseteq># ?w (sd_inbox d) + omset kept + mset ?ss"
    and same: "\<And>reply k. r = Inr reply \<Longrightarrow> kept = Some k \<Longrightarrow> reply = Some k"
    and all: "roomy ?c m ?ss (sd_inbox d) \<Longrightarrow> \<exists>reply. r = Inr reply \<and>
      ?w ib + omset reply = ?w (sd_inbox d) + omset kept + mset ?ss"
    unfolding logging_codec d1 by (simp, blast)
  let ?rest = "mset (sd_held d) + kept_of d + consumed_mail (snd (sd_post d))"
  have parts: "account ?c d' = ?w ib + ?rest" "account ?c d = ?w (sd_inbox d) + mset ?ss + ?rest"
    by (simp_all add: d' d1 account_defs)
  show "sound ?c n d'" "slot_moves ?c d d'"
    using grows_slot [of ?c m d d'] g m(2) by (simp_all add: d' d1)
  show "sd_waiting d' = sd_waiting d" by (simp add: d' d1)
  show "account ?c d' \<subseteq># account ?c d"
    unfolding parts using some by simp
  show "account ?c d' + omset reply \<subseteq># account ?c d + omset kept" if "r = Inr reply" for reply
    using subset_mset.add_right_mono [OF rep [OF that], of ?rest] unfolding parts by (simp add: ac_simps)
  show "reply = Some k" if "r = Inr reply" "kept = Some k" for reply k
    using same that by blast
  assume easy: "easy ?c n d"
  obtain reply where r: "r = Inr reply" and "?w ib + omset reply = ?w (sd_inbox d) + omset kept + mset ?ss"
    using all [OF easy_roomy [OF easy m(2)]] by blast
  then have "?w ib + omset reply + ?rest = ?w (sd_inbox d) + omset kept + mset ?ss + ?rest"
    by simp
  then have "account ?c d' + omset reply = account ?c d + omset kept"
    unfolding parts by (simp add: ac_simps)
  with r show "\<exists>reply. r = Inr reply \<and> account ?c d' + omset reply = account ?c d + omset kept"
    by blast
qed

lemma flowsI:
  assumes "sound (de_codec env) n d'" and "slot_moves (de_codec env) d d'"
    and "account (de_codec env) d' \<subseteq># account (de_codec env) d"
    and "easy (de_codec env) n d \<Longrightarrow> accepting env \<Longrightarrow> account (de_codec env) d' = account (de_codec env) d"
  shows "flows env n d d'"
  using assms by (simp add: flows_def)

lemma sound_same: "sound c n d \<Longrightarrow> sd_slot d' = sd_slot d \<Longrightarrow> sd_inbox d' = sd_inbox d \<Longrightarrow> sound c n d'"
  by (simp add: sound_def)

lemma slot_moves_same:
  "slot_moves c d0 d \<Longrightarrow> sd_slot d' = sd_slot d \<Longrightarrow> sd_inbox d' = sd_inbox d \<Longrightarrow> slot_moves c d0 d'"
  by (simp add: slot_moves_def)

lemma wait_rest_accounts:
  assumes "wait_rest (logging env) now deadline w reply d = (r, d')" and "reply = None \<Longrightarrow> kept_of d = {#}"
  shows "sd_slot d' = sd_slot d" and "sd_inbox d' = sd_inbox d"
    and "account c d' = account c d \<and> (accepting env \<longrightarrow> reply = None) \<or>
      account c d' + kept_of d = account c d + omset reply"
proof -
  have "sd_slot d' = sd_slot d \<and> sd_inbox d' = sd_inbox d \<and>
    (account c d' = account c d \<and> (accepting env \<longrightarrow> reply = None) \<or>
      account c d' + kept_of d = account c d + omset reply)"
  proof (cases reply)
    case None
    then have kept: "kept_of d = {#}" using assms(2) by simp
    show ?thesis
    proof (cases "time_value now < time_value deadline")
      case True
      then show ?thesis using assms(1) None by (simp add: wait_rest_def)
    next
      case False
      obtain r2 d2 where post: "post_line (logging env) (wait_ended w WaitTimeout) d = (r2, d2)" by fastforce
      from post show ?thesis
        by (cases rule: post_line_cases)
          (use assms(1) None False post kept in \<open>auto simp: wait_rest_def desk_then_def account_defs wait_ended_def\<close>)
    qed
  next
    case (Some s)
    obtain r2 d2 where post: "post_line (logging env) (wait_ended w (WaitReply (sg_id s))) d = (r2, d2)" by fastforce
    from post show ?thesis
      by (cases rule: post_line_cases)
        (use assms(1) Some post in \<open>auto simp: wait_rest_def desk_then_def account_defs wait_ended_def\<close>)
  qed
  then show "sd_slot d' = sd_slot d" "sd_inbox d' = sd_inbox d"
    "account c d' = account c d \<and> (accepting env \<longrightarrow> reply = None) \<or> account c d' + kept_of d = account c d + omset reply"
    by blast+
qed


lemma wait_park_kept: "wait_park now w0 = ((deadline, started), w1) \<Longrightarrow> rw_kept w1 = rw_kept w0"
  by (auto simp: wait_park_def Let_def split: option.splits)

lemma cancel_kept:
  assumes "a3 + reply \<subseteq># a2 + kept" and "a' + kept = a3 + (reply :: 'a multiset)"
  shows "a' \<subseteq># a2" and "a3 + reply = a2 + kept \<Longrightarrow> a' = a2"
  using assms by (metis subset_mset.add_le_cancel_right, metis add_right_cancel)

lemma queued_wait_flows:
  assumes law: "codec_reads_back (de_codec env)" and sound: "sound (de_codec env) n d" and n: "n \<le> u64_max"
    and kept: "kept_of d = omset kept"
    and out: "desk_then (take_slot d) (\<lambda>arrived d. desk_then (wait_each (logging env) w kept arrived d) (\<lambda>reply d.
      wait_rest (logging env) now deadline w reply d)) = (r, d')"
  shows "flows env n d d'"
proof -
  let ?c = "de_codec env"
  obtain r1 d1 where slot: "take_slot d = (r1, d1)" by fastforce
  from out [unfolded slot] show ?thesis
  proof (cases rule: desk_then_cases)
    case (stop e)
    then have "d1 = d\<lparr>sd_slot := sd_slot d\<rparr>"
      using slot by (auto simp: take_slot_def slot_take_def split: if_splits)
    then show ?thesis using stop flows_refl [OF sound] by simp
  next
    case (go arrived)
    obtain r2 d2 where each: "wait_each (logging env) w kept arrived d1 = (r2, d2)" by fastforce
    note F = wait_slot_flows [OF law sound n kept slot [unfolded go(1)] each]
    have kept2: "kept_of d2 = omset kept"
      using F(3) kept by (simp add: kept_of_def)
    from go(2) [unfolded each] show ?thesis
    proof (cases rule: desk_then_cases)
      case (stop e)
      then show ?thesis using F(1,2,4,7) by (intro flowsI) auto
    next
      case (go reply)
      have none: "kept_of d2 = {#}" if "reply = None"
        using F(6) [OF go(1)] that kept2 by (cases kept) simp_all
      note R = wait_rest_accounts(1,2) [OF go(2) none]
      note R3 = wait_rest_accounts(3) [OF go(2) none, where c = ?c, unfolded kept2]
      have place: "sound ?c n d'" "slot_moves ?c d d'"
        using sound_same [OF F(1) R(1,2)] slot_moves_same [OF F(2) R(1,2)] by simp_all
      have whole: "account ?c d2 + omset reply = account ?c d + omset kept" if "easy ?c n d"
        using F(7) [OF that] go(1) by auto
      from R3 show ?thesis
      proof
        assume A: "account ?c d' = account ?c d2 \<and> (accepting env \<longrightarrow> reply = None)"
        have "account ?c d2 = account ?c d" if "easy ?c n d" "accepting env"
          using whole [OF that(1)] A that(2) none kept2 by simp
        then show ?thesis using place A F(4) by (intro flowsI) simp_all
      next
        assume B: "account ?c d' + omset kept = account ?c d2 + omset reply"
        show ?thesis
          using place cancel_kept [OF F(5) [OF go(1)] B] whole by (intro flowsI) simp_all
      qed
    qed
  qed
qed

lemma wait_out_flows:
  assumes law: "codec_reads_back (de_codec env)" and sound: "sound (de_codec env) n d" and n: "n \<le> u64_max"
    and out: "wait_out (logging env) now d = (r, d')"
  shows "flows env n d d'"
proof (cases "sd_waiting d")
  case None
  then show ?thesis using out flows_refl [OF sound] by (simp add: wait_out_def)
next
  case (Some w0)
  obtain deadline started w1 where park: "wait_park now w0 = ((deadline, started), w1)"
    by (metis prod.exhaust)
  let ?w = "w1\<lparr>rw_kept := None\<rparr>"
  have kept: "kept_of d = omset (rw_kept w1)"
    using Some wait_park_kept [OF park] by (simp add: kept_of_def omset_def)
  have rest: "flows env n d1 d'" if "sound (de_codec env) n d1" "kept_of d1 = omset (rw_kept w1)"
    "desk_then (take_slot d1) (\<lambda>arrived d. desk_then (wait_each (logging env) ?w (rw_kept w1) arrived d) (\<lambda>reply d.
      wait_rest (logging env) now deadline ?w reply d)) = (r, d')" for d1
    by (rule queued_wait_flows [OF law that(1) n that(2,3)])
  show ?thesis
  proof (cases started)
    case None
    then show ?thesis
      using out Some park rest [OF sound kept] by (simp add: wait_out_def wait_unkeep_def desk_then_def)
  next
    case started: (Some line)
    obtain r1 d1 where post: "post_line (logging env) (WaitStarted line) d = (r1, d1)" by fastforce
    note P = post_flows [OF sound post]
    have first: "flows env n d d1" using P(1) by simp
    obtain p where d1: "d1 = d\<lparr>sd_post := p\<rparr>" using P(2) by auto
    show ?thesis
    proof (cases r1)
      case (Inl e)
      then show ?thesis
        using out Some park started post first by (simp add: wait_out_def desk_then_def)
    next
      case (Inr u)
      let ?d = "d1\<lparr>sd_waiting := Some w1\<rparr>"
      have kept': "kept_of ?d = omset (rw_kept w1)"
        by (simp add: kept_of_def omset_def)
      have sound1: "sound (de_codec env) n d1" using first by (simp add: flows_def)
      have second: "flows env n d1 ?d"
        by (rule aside_flows [OF sound1]) (use kept kept' in \<open>simp_all add: d1\<close>)
      then have sound2: "sound (de_codec env) n ?d" by (simp add: flows_def)
      have "flows env n ?d d'"
        by (rule rest [OF sound2 kept'])
          (use out Some park started post Inr in \<open>simp add: wait_out_def wait_unkeep_def desk_then_def\<close>)
      then show ?thesis
        by (rule flows_trans [OF flows_trans [OF first second]])
    qed
  qed
qed



section \<open>Runs\<close>

text \<open>
  A run from the desk \<open>d0\<close>: the city drops signals into the slot, with the capacity it names each time,
  and the run calls the desk, in any order. The second argument lists the signals the slot took.
\<close>

inductive mail_run ::
  "'p desk_env \<Rightarrow> ('p \<times> signal_effect list) signal_desk \<Rightarrow> ('p \<times> signal_effect list) signal_desk \<Rightarrow> signal list \<Rightarrow> bool"
  for env d0 where
  started: "mail_run env d0 d0 []"
| dropped: "mail_run env d0 d took \<Longrightarrow> drop_in s capacity (sd_slot d) = (r, slot) \<Longrightarrow>
    mail_run env d0 (d\<lparr>sd_slot := slot\<rparr>) (if r = Inr Admit then took @ [s] else took)"
| steered: "mail_run env d0 d took \<Longrightarrow> desk_take_steer (logging env) d = (r1, d') \<Longrightarrow> mail_run env d0 d' took"
| answers: "mail_run env d0 d took \<Longrightarrow> answered (logging env) d = (r2, d') \<Longrightarrow> mail_run env d0 d' took"
| invoked: "mail_run env d0 d took \<Longrightarrow> signal_invoke (logging env) name args d = (r3, d') \<Longrightarrow> mail_run env d0 d' took"
| waited: "mail_run env d0 d took \<Longrightarrow> wait_out (logging env) now d = (r4, d') \<Longrightarrow> mail_run env d0 d' took"
| went: "mail_run env d0 d took \<Longrightarrow> wait_left (logging env) d = (r5, d') \<Longrightarrow> mail_run env d0 d' took"

text \<open>Every signal the slot takes is one the lines can hold: none repeats another, and all have room.\<close>

definition all_new :: "signal_codec \<Rightarrow> nat \<Rightarrow> inbox \<Rightarrow> signal list \<Rightarrow> bool" where
  "all_new c n0 ib took \<longleftrightarrow> (\<forall>s \<in> set took. is_ok (queued_payload c s)) \<and> distinct (map (signal_key c) took) \<and>
     signal_key c ` set took \<inter> known_keys ib = {} \<and> n0 + length took \<le> least_capacity ib"

definition run_inv ::
  "'p desk_env \<Rightarrow> nat \<Rightarrow> ('p \<times> signal_effect list) signal_desk \<Rightarrow> ('p \<times> signal_effect list) signal_desk \<Rightarrow> signal list \<Rightarrow> bool" where
  "run_inv env n0 d0 d took \<longleftrightarrow>
     sound (de_codec env) (n0 + length took) d \<and>
     least_capacity (sd_inbox d) = least_capacity (sd_inbox d0) \<and>
     known_keys (sd_inbox d) \<union> slot_keys (de_codec env) d \<subseteq>
       known_keys (sd_inbox d0) \<union> signal_key (de_codec env) ` set took \<and>
     account (de_codec env) d \<subseteq># account (de_codec env) d0 + mset took \<and>
     (accepting env \<and> all_new (de_codec env) n0 (sd_inbox d0) took \<longrightarrow>
        easy (de_codec env) (n0 + length took) d \<and> account (de_codec env) d = account (de_codec env) d0 + mset took)"

lemma run_inv_flows:
  assumes inv: "run_inv env n0 d0 d took" and flow: "flows env (n0 + length took) d d'"
  shows "run_inv env n0 d0 d' took"
proof -
  have keys: "known_keys (sd_inbox d') \<union> slot_keys (de_codec env) d' \<subseteq> known_keys (sd_inbox d) \<union> slot_keys (de_codec env) d"
    using flow by (auto simp: flows_def slot_moves_def slot_keys_def)
  have cap: "least_capacity (sd_inbox d') = least_capacity (sd_inbox d)"
    using flow by (simp add: flows_def slot_moves_def)
  have easy: "easy (de_codec env) (n0 + length took) d'" if "easy (de_codec env) (n0 + length took) d"
    using slot_moves_easy that flow by (auto simp: flows_def)
  show ?thesis
    unfolding run_inv_def
  proof (intro conjI impI)
    show "known_keys (sd_inbox d') \<union> slot_keys (de_codec env) d' \<subseteq>
        known_keys (sd_inbox d0) \<union> signal_key (de_codec env) ` set took"
      by (rule subset_trans [OF keys]) (use inv in \<open>simp add: run_inv_def\<close>)
    show "account (de_codec env) d' \<subseteq># account (de_codec env) d0 + mset took"
      by (rule subset_mset.order_trans [of _ "account (de_codec env) d"])
        (use inv flow in \<open>simp_all add: run_inv_def flows_def\<close>)
  qed (use inv flow cap easy in \<open>simp_all add: run_inv_def flows_def\<close>)
qed

lemma invoke_flows:
  assumes "codec_reads_back (de_codec env)" and "sound (de_codec env) n d" and "n \<le> u64_max"
    and out: "signal_invoke (logging env) name args d = (r, d')"
  shows "flows env n d d'"
proof -
  have "desk_send (logging env) args d = (r, d') \<or> desk_pull (logging env) d = (r, d') \<or> d' = d"
    using out by (auto simp: signal_invoke_def desk_then_def split: sum.splits if_splits)
  then show ?thesis
    using send_flows [OF assms(2)] pull_flows [OF assms(1-3)] flows_refl [OF assms(2)] by blast
qed

lemma drop_in_cases:
  assumes "drop_in s capacity slot = (r, slot')"
  obtains (took) "r = Inr Admit" "ms_waiting slot' = ms_waiting slot @ [s]" | (kept) "r \<noteq> Inr Admit" "slot' = slot"
  using assms by (auto simp: drop_in_def split: if_splits)

lemma all_new_snoc: "all_new c n0 ib (took @ [s]) \<Longrightarrow> all_new c n0 ib took"
  by (auto simp: all_new_def)

lemma run_inv_drop:
  assumes inv: "run_inv env n0 d0 d took" and s: "sg_from s \<noteq> []"
    and slot: "ms_waiting slot = ms_waiting (sd_slot d) @ [s]"
  shows "run_inv env n0 d0 (d\<lparr>sd_slot := slot\<rparr>) (took @ [s])"
proof -
  let ?c = "de_codec env" and ?d = "d\<lparr>sd_slot := slot\<rparr>"
  have keys: "slot_keys ?c ?d = insert (signal_key ?c s) (slot_keys ?c d)"
    by (simp add: slot_keys_def slot)
  have acc: "account ?c ?d = account ?c d + {#s#}"
    by (simp add: account_defs slot)
  have "sound ?c (n0 + length (took @ [s])) ?d"
    using inv s by (auto simp: run_inv_def sound_def signed_def slot)
  moreover have "easy ?c (n0 + length (took @ [s])) ?d"
    if new: "all_new ?c n0 (sd_inbox d0) (took @ [s])" and easy: "easy ?c (n0 + length took) d"
  proof -
    have "signal_key ?c s \<notin> known_keys (sd_inbox d0) \<union> signal_key ?c ` set took"
      using new by (auto simp: all_new_def)
    then have fresh: "signal_key ?c s \<notin> known_keys (sd_inbox d) \<union> slot_keys ?c d"
      using inv unfolding run_inv_def by blast
    show ?thesis
      using easy new inv fresh
      by (auto simp: easy_def all_new_def run_inv_def keys slot slot_keys_def)
  qed
  ultimately show ?thesis
    using inv keys acc all_new_snoc [of ?c n0 "sd_inbox d0" took s]
    unfolding run_inv_def by auto
qed

lemma mail_run_inv:
  assumes "mail_run env d0 d took" and "codec_reads_back (de_codec env)"
    and "settled (de_codec env) n0 (sd_inbox d0)" and "ms_waiting (sd_slot d0) = []"
    and "signed took" and "n0 + length took \<le> u64_max"
  shows "run_inv env n0 d0 d took"
  using assms
proof (induction rule: mail_run.induct)
  case started
  then show ?case
    by (auto simp: run_inv_def sound_def signed_def slot_keys_def easy_def all_new_def)
next
  case (dropped d took s capacity r slot)
  from dropped.hyps(2) show ?case
  proof (cases rule: drop_in_cases)
    case took
    then show ?thesis
      using dropped by (simp add: run_inv_drop signed_def)
  next
    case kept
    then have "d\<lparr>sd_slot := slot\<rparr> = d" by simp
    then show ?thesis using dropped kept by simp
  qed
next
  case (steered d took r d')
  then have inv: "run_inv env n0 d0 d took" by simp
  then show ?case
    using run_inv_flows [OF inv take_steer_flows [OF _ _ _ steered.hyps(2)]] steered.prems by (simp add: run_inv_def)
next
  case (answers d took r d')
  then have inv: "run_inv env n0 d0 d took" by simp
  then show ?case
    using run_inv_flows [OF inv answered_flows [OF _ answers.hyps(2)]] by (simp add: run_inv_def)
next
  case (invoked d took name args r d')
  then have inv: "run_inv env n0 d0 d took" by simp
  then show ?case
    using run_inv_flows [OF inv invoke_flows [OF _ _ _ invoked.hyps(2)]] invoked.prems by (simp add: run_inv_def)
next
  case (waited d took now r d')
  then have inv: "run_inv env n0 d0 d took" by simp
  then show ?case
    using run_inv_flows [OF inv wait_out_flows [OF _ _ _ waited.hyps(2)]] waited.prems by (simp add: run_inv_def)
next
  case (went d took r d')
  then have inv: "run_inv env n0 d0 d took" by simp
  then show ?case
    using run_inv_flows [OF inv wait_left_flows [OF _ went.hyps(2)]] by (simp add: run_inv_def)
qed


lemma take_inbox_accounts:
  assumes "take_inbox d = (ib, d')"
  shows "mset (waiting_signals c ib) + mset (ms_waiting (sd_slot d')) + consumed_mail (snd (sd_post d')) = account c d"
  using assms
  by (auto simp: take_inbox_def wait_unkeep_def slot_take_def account_def desk_mail_def kept_of_def Let_def
      split: option.splits if_splits)

text \<open>What a desk does with one signal out of its slot: whether the lane of the signal still knows its
  key, whether that lane has room, and what is left in each case.\<close>

definition lane_knows :: "signal_codec \<Rightarrow> signal \<Rightarrow> inbox \<Rightarrow> bool" where
  "lane_knows c s ib \<longleftrightarrow>
     still_known (sg_at s) (bt_get (eq_seen (line_of (signal_lane s) ib))) (signal_key c s) \<noteq> None"

definition lane_has_room :: "signal \<Rightarrow> inbox \<Rightarrow> bool" where
  "lane_has_room s ib \<longleftrightarrow>
     length (contents (line_of (signal_lane s) ib)) < eq_capacity (line_of (signal_lane s) ib)"

definition takes_once :: "'p desk_env \<Rightarrow> signal \<Rightarrow> ('p \<times> signal_effect list) signal_desk \<Rightarrow> bool" where
  "takes_once env s d \<longleftrightarrow>
     (case desk_admit (logging env) s d of (r, d') \<Rightarrow>
        if lane_knows (de_codec env) s (sd_inbox d) then
          r = Inr () \<and> account (de_codec env) d' = account (de_codec env) d
        else if lane_has_room s (sd_inbox d) then
          r = Inr () \<and> account (de_codec env) d' = add_mset s (account (de_codec env) d) \<and>
          lane_knows (de_codec env) s (sd_inbox d')
        else
          (case r of Inl e \<Rightarrow> err_code e = BackpressureShed | Inr _ \<Rightarrow> False) \<and>
          account (de_codec env) d' = account (de_codec env) d)"

lemma mb_deliver_cases:
  assumes "mb_deliver capacity c s mb = (verdict, mb')"
  defines "l \<equiv> signal_lane s" and "k \<equiv> signal_key c s"
  shows "if still_known (sg_at s) (mb_seen mb l) k \<noteq> None then
       verdict = Admit \<and> mset (mb_all mb') = mset (mb_all mb)
     else if length (mb_line mb l) < capacity then
       verdict = Admit \<and> mset (mb_all mb') = add_mset s (mset (mb_all mb)) \<and> mb_seen mb' l k = Some (sg_at s)
     else verdict = Shed CapacityExhausted \<and> mset (mb_all mb') = mset (mb_all mb)"
  using assms by (cases "signal_lane s") (auto simp: mb_deliver_def Let_def mb_all_def split: if_splits)

lemma desk_takes_once:
  assumes law: "codec_reads_back (de_codec env)" and settled: "settled (de_codec env) m (sd_inbox d)" and m: "m < u64_max"
    and s: "sg_from s \<noteq> []" and p: "is_ok (queued_payload (de_codec env) s)"
  shows "takes_once env s d"
proof -
  let ?c = "de_codec env" and ?ib = "sd_inbox d" and ?l = "signal_lane s"
  obtain r ib' where out: "deliver ?c s ?ib = (r, ib')" by fastforce
  obtain verdict where r: "r = Inr verdict"
    using p out by (cases ?l) (auto simp: is_ok_iff deliver_def split: prod.splits)
  have wf: "inbox_wf ?c ?ib" "lines_below m ?ib" using settled by (simp_all add: settled_def)
  note rule = mb_deliver_cases [OF deliver_rule [OF out [unfolded r] wf(1) law s wf(2) m refl]]
  have window: "still_known (sg_at s) seen k = Some (sg_at s)" if "seen k = Some (sg_at s)" for seen k
    using that by (simp add: still_known_def IDEM_WINDOW_MS_def)
  have "desk_admit (logging env) s d =
      (case verdict of Admit \<Rightarrow> (Inr (), d\<lparr>sd_inbox := ib'\<rparr>)
       | Shed _ \<Rightarrow> (fst (desk_admit (logging env) s d), d\<lparr>sd_inbox := ib'\<rparr>))"
    "verdict = Shed CapacityExhausted \<Longrightarrow> \<exists>e. fst (desk_admit (logging env) s d) = Inl e \<and> err_code e = BackpressureShed"
    using out r by (auto simp: desk_admit_def split: admission.split)
  then show ?thesis
    using rule window
    by (auto simp: takes_once_def lane_knows_def lane_has_room_def account_def desk_mail_def
        mb_all_waiting [symmetric] split: if_splits sum.splits prod.splits)
qed

text \<open>C6. The mail of a room over any run of its desk, with any post: any order of signals the city
  drops into the slot, steers taken, reads answered, calls of the tool and waits. Counting every copy
  the slot took as a signal of its own, what the room can still be asked for or has recorded as
  consumed is never more than what it held at the start and what the slot took since: the desk
  doubles nothing. While the post accepts every line, and the signals the slot took have payloads
  that can be written, keys that differ from each other and from those the lines know at the start,
  and fit the smaller capacity of the two lines together with all that was ever queued before, it
  is exactly that: nothing is lost. And at every desk reached, a signal moved from the slot to its
  lane is added exactly when its lane does not know the key any more and has room, is known from
  then on, is let pass without being added again while its lane knows the key, and is refused with
  \<open>E_BACKPRESSURE_SHED\<close> otherwise: a copy delivered again within the window is not read again. (A reply to
  the wait that is open does not go through the lanes.) A run that leaves gives back the inbox with
  every signal that was not consumed.\<close>

theorem mail_is_neither_lost_nor_doubled:
  assumes "codec_reads_back (de_codec env)"
    and "settled (de_codec env) n0 (sd_inbox d0)" and "ms_waiting (sd_slot d0) = []"
    and "mail_run env d0 d took" and "signed took" and "n0 + length took < u64_max"
    and "take_inbox d = (ib, d')"
  shows "account (de_codec env) d \<subseteq># account (de_codec env) d0 + mset took \<and>
    (accepting env \<and> all_new (de_codec env) n0 (sd_inbox d0) took \<longrightarrow>
       account (de_codec env) d = account (de_codec env) d0 + mset took) \<and>
    (\<forall>s. sg_from s \<noteq> [] \<and> is_ok (queued_payload (de_codec env) s) \<longrightarrow> takes_once env s d) \<and>
    mset (waiting_signals (de_codec env) ib) + mset (ms_waiting (sd_slot d')) + consumed_mail (snd (sd_post d')) =
      account (de_codec env) d"
proof -
  have inv: "run_inv env n0 d0 d took"
    using mail_run_inv [OF assms(4,1,2,3,5)] assms(6) by simp
  then have "sound (de_codec env) (n0 + length took) d" by (simp add: run_inv_def)
  then obtain m where "settled (de_codec env) m (sd_inbox d)" "m + length (ms_waiting (sd_slot d)) \<le> n0 + length took"
    by (auto simp: sound_def)
  moreover from this have "m < u64_max" using assms(6) by simp
  ultimately have "takes_once env s d" if "sg_from s \<noteq> []" "is_ok (queued_payload (de_codec env) s)" for s
    using desk_takes_once [OF assms(1)] that by blast
  then show ?thesis using inv take_inbox_accounts [OF assms(7)] by (simp add: run_inv_def)
qed

text \<open>A desk whose post accepts everything takes a steer and answers with it read.\<close>

definition example_env :: "unit desk_env" where
  "example_env =
     \<lparr>de_codec = number_codec, de_show_json = (\<lambda>_. []), de_hyphenated = (\<lambda>_. lit ''r''), de_debug = (\<lambda>t. t),
      de_write = (\<lambda>_ p. (Inr (), p))\<rparr>"

definition example_desk :: "(unit \<times> signal_effect list) signal_desk" where
  "example_desk =
     signal_desk_new run_CITY (Address (lit ''hall'')) (lit ''hall'') (Address (lit ''hall'')) (TimeMs 1)
       (inbox_new 4 1) \<lparr>ms_waiting = [], ms_poisoned = False\<rparr> ((), [])"

definition example_read :: "(unit \<times> signal_effect list) signal_desk" where
  "example_read =
     snd (answered (logging example_env) (snd (desk_take_steer (logging example_env)
       (example_desk\<lparr>sd_slot := \<lparr>ms_waiting = [example_steer], ms_poisoned = False\<rparr>\<rparr>))))"

lemma example_mail_run: "mail_run example_env example_desk example_read [example_steer]"
proof -
  let ?slot = "\<lparr>ms_waiting = [example_steer], ms_poisoned = False\<rparr>"
  have "drop_in example_steer 1 (sd_slot example_desk) = (Inr Admit, ?slot)"
    by (simp add: drop_in_def example_desk_def signal_desk_new_def)
  from mail_run.dropped [OF mail_run.started this, of example_env]
  have 1: "mail_run example_env example_desk (example_desk\<lparr>sd_slot := ?slot\<rparr>) [example_steer]" by simp
  show ?thesis
    unfolding example_read_def
    by (rule mail_run.answers [OF mail_run.steered [OF 1 prod.collapse [symmetric]] prod.collapse [symmetric]])
qed

lemma example_desk_settled:
  "settled number_codec 0 (sd_inbox example_desk)" "ms_waiting (sd_slot example_desk) = []"
  "account number_codec example_desk = {#}" "accepting example_env"
  "all_new number_codec 0 (sd_inbox example_desk) [example_steer]"
  using number_codec_queues [of example_steer]
  by (auto simp: settled_def lines_below_def example_desk_def signal_desk_new_def account_defs kept_of_def accepting_def
      example_env_def all_new_def known_keys_def least_capacity_def inbox_new_def inbox_wf_def
      waiting_signals_def line_items_def)

theorem mail_is_neither_lost_nor_doubled_witness:
  "mail_run example_env example_desk example_read [example_steer] \<and>
   account number_codec example_read = {#example_steer#} \<and> takes_once example_env example_steer example_read"
proof -
  have "de_codec example_env = number_codec" "signed [example_steer]" "0 + length [example_steer] < u64_max"
    by (simp_all add: example_env_def signed_def example_steer_def example_signal_def lit_def u_defs)
  then show ?thesis
    using mail_is_neither_lost_nor_doubled [of example_env 0 example_desk example_read "[example_steer]",
        OF _ _ _ example_mail_run _ _ prod.collapse [symmetric]]
      number_codec_reads_back example_desk_settled example_mail_run number_codec_queues [of example_steer]
    by (auto simp: signed_def)
qed


section \<open>Two ways mail is dropped\<close>

text \<open>
  A line without room: \<open>collect\<close> empties the slot before it queues, so the signal that is shed and
  every one behind it are in no place the desk can be asked for, although the answer says to pull and
  ask again.
\<close>

lemma shed_mail_is_dropped:
  assumes "queued_payload (de_codec env) s = Inr p" and "sd_waiting d = None"
    and "sd_inbox d = inbox_new 0 b" and "sd_slot d = \<lparr>ms_waiting = s # rest, ms_poisoned = False\<rparr>"
    and "sd_held d = []"
  shows "\<exists>e d'. desk_pull (logging env) d = (Inl e, d') \<and> ms_waiting (sd_slot d') = [] \<and>
    desk_mail (de_codec env) d' = {#} \<and> sd_post d' = sd_post d"
  using assms
  by (cases "signal_lane s")
    (simp_all add: desk_pull_def collect_def take_slot_def slot_take_def desk_then_def desk_admit_def deliver_def
      collect_each_Cons keeps_def inbox_new_def enqueue_def queue_new_def forget_stale_def bt_empty_def bt_get_def
      admit_def queue_stats_of_def queue_len_def checked_add_def u_defs Let_def desk_mail_def kept_of_def
      waiting_signals_def line_items_def contents_def)

text \<open>
  A post that refuses the line that ends a wait: the reply that came out of the slot is dropped with
  the call, although the wait is kept so that the next safe point asks again.
\<close>

lemma refused_end_drops_reply:
  assumes "sd_waiting d = Some w" and "rw_deadline w = Some t" and "rw_kept w = None"
    and "wait_answers w (sd_room d) s" and "sd_slot d = \<lparr>ms_waiting = [s], ms_poisoned = False\<rparr>"
    and "\<And>eff. \<exists>e. de_write env eff (fst (sd_post d)) = (Inl e, fst (sd_post d))"
  shows "\<exists>e d'. wait_out (logging env) now d = (Inl e, d') \<and> ms_waiting (sd_slot d') = [] \<and>
    desk_mail (de_codec env) d' = desk_mail (de_codec env) d \<and> sd_post d' = sd_post d"
proof -
  let ?w = "w\<lparr>rw_kept := None\<rparr>"
  obtain e where "de_write env (wait_ended ?w (WaitReply (sg_id s))) (fst (sd_post d)) = (Inl e, fst (sd_post d))"
    using assms(6) by blast
  then show ?thesis
    using assms(1-5)
    by (cases "sd_post d")
      (simp add: wait_out_def wait_park_def wait_unkeep_def take_slot_def slot_take_def desk_then_def wait_answers_def
        wait_rest_def post_line_def logging_def desk_mail_def kept_of_def)
qed

end
