(* ===== verification/Workshops.thy ===== *)
theory Workshops
  imports Gates ClaimDesks
begin

text \<open>
  Work handed down and brought back together (\<open>collab\<close>: \<open>delegate_tool.rs\<close>, \<open>fanin.rs\<close>, \<open>workshop.rs\<close>,
  \<open>workshop/underway.rs\<close>, \<open>workshop_tool.rs\<close>, \<open>workshop_tool/op.rs\<close>): the desk that admits one piece of work,
  the join of verified results, the graph of contracts with its schedule, and the tool over them. The check
  of a room the city hands to a desk, and blake3, are arguments. \<open>{:?}\<close> of a character beyond ASCII is a table
  of the standard library's and is the argument \<open>esc\<close>. A \<open>BTreeSet\<close> that is iterated is the strictly ascending
  list of its elements, one that is only asked for membership is a set.
\<close>


section \<open>Work for one delegate\<close>

record delegated =
  dg_room :: address
  dg_task :: rstr
  dg_goal :: rstr
  dg_kind :: delegate_kind

type_synonym start_check = "address \<Rightarrow> unit ax_result"

record delegate_desk =
  dd_depth :: depth
  dd_building :: address
  dd_check :: start_check
  dd_asked :: "delegated list"
  dd_handed_over :: nat

definition delegate_desk_new :: "depth \<Rightarrow> address \<Rightarrow> start_check \<Rightarrow> delegate_desk" where
  "delegate_desk_new dep building check =
     \<lparr>dd_depth = dep, dd_building = building, dd_check = check, dd_asked = [], dd_handed_over = 0\<rparr>"

definition delegate_beside :: "delegate_desk \<Rightarrow> delegate_desk" where
  "delegate_beside d = delegate_desk_new (dd_depth d) (dd_building d) (dd_check d)"

definition delegate_admits :: "delegate_desk \<Rightarrow> delegated \<Rightarrow> unit ax_result" where
  "delegate_admits d work =
     (case gate_spawn (dd_depth d) (dg_kind work) of
        Deny refused \<Rightarrow> Inl refused
      | Ask question \<Rightarrow> Inl question
      | Allow \<Rightarrow>
          if \<not> is_within (dg_room work) (dd_building d) then
            Inl (with_recovery
              (lit ''put the delegate in a room inside '' @ addr_str (dd_building d) @
               lit ''; work in another building is asked for with `signal`'')
              (failure CrossBuildingDenied (lit ''delegate work'') (addr_str (dg_room work))))
          else dd_check d (dg_room work))"

definition delegate_ask :: "delegated \<Rightarrow> delegate_desk \<Rightarrow> delegated ax_result \<times> delegate_desk" where
  "delegate_ask work d =
     (case delegate_admits d work of
        Inl e \<Rightarrow> (Inl e, d)
      | Inr _ \<Rightarrow>
          let d = d\<lparr>dd_asked := dd_asked d @ [work]\<rparr> in
          (ok_or (with_recovery
              (lit ''report this against collab::delegate_tool: the request was pushed onto the queue one line above and the queue reads back empty'')
              (failure InvalidArgs (lit ''delegate work'') (lit ''the request vanished'')))
            (if dd_asked d = [] then None else Some (last (dd_asked d))), d))"

definition hand_over :: "delegate_desk \<Rightarrow> delegated list \<times> delegate_desk" where
  "hand_over d = (drop (dd_handed_over d) (dd_asked d), d\<lparr>dd_handed_over := length (dd_asked d)\<rparr>)"

definition delegate_take :: "delegate_desk \<Rightarrow> delegated list \<times> delegate_desk" where
  "delegate_take d = (dd_asked d, d\<lparr>dd_handed_over := 0, dd_asked := []\<rparr>)"

definition delegate_arg :: "json_map \<Rightarrow> string \<Rightarrow> rstr ax_result" where
  "delegate_arg args key =
     ok_or (with_recovery (lit ''pass room, task and goal - all strings'')
         (failure InvalidArgs (lit ''delegate work'') (lit ''missing string argument `'' @ lit key @ lit ''`'')))
       (arg_str key args)"

definition delegate_kind_arg :: "json_map \<Rightarrow> delegate_kind ax_result" where
  "delegate_kind_arg args =
     (case arg_str ''kind'' args of
        None \<Rightarrow> Inr Ephemeral
      | Some word \<Rightarrow>
          if word = lit ''ephemeral'' then Inr Ephemeral
          else if word = lit ''resident'' then Inr Resident
          else Inl (with_recovery (lit ''use `ephemeral` for one piece of work, or `resident`'')
            (failure InvalidArgs (lit ''delegate work'') (lit ''no such delegate kind: '' @ word))))"

definition delegate_invoke :: "rstr \<Rightarrow> json_map \<Rightarrow> delegate_desk \<Rightarrow> payload ax_result \<times> delegate_desk" where
  "delegate_invoke called args desk =
     (if called \<noteq> lit ''delegate'' then
        (Inl (with_recovery (lit ''call `delegate`, the name this tool answers to'')
           (failure InvalidArgs (lit ''delegate work'') (lit ''call routed to the wrong tool: '' @ called))), desk)
      else
        case and_then (delegate_arg args ''room'') (\<lambda>raw.
             and_then (address_parse raw) (\<lambda>room.
             and_then (delegate_kind_arg args) (\<lambda>kind_asked.
             and_then (delegate_arg args ''task'') (\<lambda>task.
             and_then (delegate_arg args ''goal'') (\<lambda>goal.
             Inr \<lparr>dg_room = room, dg_task = task, dg_goal = goal, dg_kind = kind_asked\<rparr>))))) of
          Inl e \<Rightarrow> (Inl e, desk)
        | Inr work \<Rightarrow>
            (case delegate_ask work desk of
               (Inl e, desk) \<Rightarrow> (Inl e, desk)
             | (Inr accepted, desk) \<Rightarrow>
                 (answer [(lit ''room'', JString (addr_str (dg_room accepted))),
                    (lit ''starts'', JString (lit ''now: the city starts it while this run goes on''))], desk)))"


section \<open>Names of nodes\<close>

datatype work_id = WorkId (work_str: rstr)

instantiation work_id :: linorder
begin

definition less_eq_work_id :: "work_id \<Rightarrow> work_id \<Rightarrow> bool" where
  "a \<le> b \<longleftrightarrow> work_str a \<le> work_str b"

definition less_work_id :: "work_id \<Rightarrow> work_id \<Rightarrow> bool" where
  "a < b \<longleftrightarrow> work_str a < work_str b"

instance
  by standard (auto simp: less_eq_work_id_def less_work_id_def work_id.expand)

end

text \<open>\<open>{:?}\<close> of a string.\<close>

definition debug_char :: "(codepoint \<Rightarrow> rstr) \<Rightarrow> codepoint \<Rightarrow> rstr" where
  "debug_char esc c =
     (if c = 0 then [92, 48]
      else if c = 9 then [92, 116]
      else if c = 13 then [92, 114]
      else if c = 10 then [92, 110]
      else if c = 34 \<or> c = 92 then [92, c]
      else if c < 32 \<or> c = 127 then
        [92, 117, 123] @ (if c < 16 then [hex_char c] else [hex_char (c div 16), hex_char (c mod 16)]) @ [125]
      else if c < 127 then [c]
      else esc c)"

definition debug_str :: "(codepoint \<Rightarrow> rstr) \<Rightarrow> rstr \<Rightarrow> rstr" where
  "debug_str esc s = [34] @ concat (map (debug_char esc) s) @ [34]"

definition work_id_parse :: "(codepoint \<Rightarrow> rstr) \<Rightarrow> rstr \<Rightarrow> work_id ax_result" where
  "work_id_parse esc raw =
     (if raw = [] \<or> list_ex is_whitespace raw then
        Inl (with_recovery (lit ''use a non-empty id with no whitespace'')
          (failure InvalidArgs (lit ''read a node id'') (debug_str esc raw)))
      else Inr (WorkId raw))"


section \<open>The join\<close>

record fan_claim =
  fc_node :: work_id
  fc_at :: locator
  fc_digest :: b3hash
  fc_by :: rstr

record artifact =
  af_claim :: fan_claim
  af_verified_by :: rstr

definition verified :: "bool \<Rightarrow> rstr \<Rightarrow> fan_claim \<Rightarrow> artifact ax_result" where
  "verified done_check_passed verifier c =
     (if verifier = fc_by c then
        Inl (with_recovery
          (lit ''have another resident run the done check; a producer's own verdict on its own work is not verification'')
          (failure EvidenceMissing (lit ''verify a node result'')
            (work_str (fc_node c) @ lit '' verified by its own producer'')))
      else if \<not> done_check_passed then
        Inl (with_recovery (lit ''fix the result until the node's own done check passes, then verify'')
          (failure EvidenceMissing (lit ''verify a node result'')
            (work_str (fc_node c) @ lit '': the done check did not pass'')))
      else Inr \<lparr>af_claim = c, af_verified_by = verifier\<rparr>)"

definition artifact_holds :: "(nat list \<Rightarrow> nat list) \<Rightarrow> artifact \<Rightarrow> rstr \<Rightarrow> bool" where
  "artifact_holds b3 a content \<longleftrightarrow>
     B3Hash (b3 (utf8 content)) = fc_digest (af_claim a) \<or>
     B3Hash (b3 (utf8 (content @ [10]))) = fc_digest (af_claim a)"

type_synonym fan_in = "(work_id, artifact) btree"

definition fan_accept :: "artifact \<Rightarrow> fan_in \<Rightarrow> fan_in" where
  "fan_accept a fi = bt_insert (fc_node (af_claim a)) a fi"

record private_question =
  pq_node :: work_id
  pq_prompt :: rstr

definition fan_question :: "fan_in \<Rightarrow> private_question ax_result" where
  "fan_question fi =
     (case fi of
        [] \<Rightarrow> Inl (with_recovery (lit ''verify at least one node's result before judging the join'')
          (failure EvidenceMissing (lit ''pose the fan-in question'') (lit ''no artifacts'')))
      | (node, a) # _ \<Rightarrow>
          Inr \<lparr>pq_node = node,
            pq_prompt = lit ''before judging: open node '' @ work_str node @ [39] @ lit ''s artifact at '' @
              show_locator (fc_at (af_claim a)) @ lit '' and give its whole content, exactly as stored''\<rparr>)"

definition fan_decide :: "(nat list \<Rightarrow> nat list) \<Rightarrow> rstr \<Rightarrow> fan_in \<Rightarrow> work_id list ax_result" where
  "fan_decide b3 given fi =
     and_then (fan_question fi) (\<lambda>question.
     let read = (case bt_get fi (pq_node question) of None \<Rightarrow> False | Some a \<Rightarrow> artifact_holds b3 a given) in
     if \<not> read then
       Inl (with_recovery (lit ''open the artifact and read it; the question is answerable only from its content'')
         (failure EvidenceMissing (lit ''judge a fan-in'')
           (lit ''the answer for node '' @ work_str (pq_node question) @ lit '' does not match'')))
     else Inr (bt_keys fi))"


section \<open>The graph of contracts\<close>

record node_contract =
  nc_id :: work_id
  nc_goal :: rstr
  nc_depends_on :: "work_id list"
  nc_reads :: "(locator \<times> nat) list"
  nc_write_domain :: address
  nc_owner :: rstr
  nc_done_check :: rstr
  nc_stop :: rstr

definition node_contract_new ::
  "work_id \<Rightarrow> rstr \<Rightarrow> work_id list \<Rightarrow> (locator \<times> nat) list \<Rightarrow> address \<Rightarrow> rstr \<Rightarrow> rstr \<Rightarrow> rstr \<Rightarrow> node_contract ax_result" where
  "node_contract_new nid goal depends_on reads write_domain owner done_check stop =
     (case find (\<lambda>(field, v). trim v = [])
        [(lit ''goal'', goal), (lit ''owner'', owner), (lit ''done_check'', done_check), (lit ''stop'', stop)] of
        Some (field, _) \<Rightarrow>
          Inl (with_recovery
            (lit ''state it; a node whose stop condition or done check is unwritten is one somebody has to guess at, and they will guess differently'')
            (failure InvalidArgs (lit ''build a node contract'') (work_str nid @ lit '': '' @ field @ lit '' is empty'')))
      | None \<Rightarrow>
          Inr \<lparr>nc_id = nid, nc_goal = goal, nc_depends_on = depends_on, nc_reads = reads, nc_write_domain = write_domain,
            nc_owner = owner, nc_done_check = done_check, nc_stop = stop\<rparr>)"

definition job_text :: "node_contract \<Rightarrow> rstr" where
  "job_text c =
     lit ''## Task'' @ [10, 10] @ nc_goal c @ [10, 10] @ lit ''## Goal'' @ [10, 10] @ nc_goal c @ [10, 10] @
     lit ''## Done check'' @ [10, 10] @ nc_done_check c @ [10, 10] @ lit ''## Stop'' @ [10, 10] @ nc_stop c @ [10] @
     (if nc_reads c = [] then []
      else [10] @ lit ''## Reads'' @ [10, 10] @
        concat (map (\<lambda>(loc, v). lit ''- '' @ show_locator loc @ lit '' @ v'' @ show_nat v @ [10]) (nc_reads c))) @
     [10] @ lit ''## Write domain'' @ [10, 10] @ lit ''- '' @ addr_str (nc_write_domain c) @ [10]"

type_synonym workshop = "(work_id, node_contract) btree"

fun place_contracts :: "node_contract list \<Rightarrow> workshop \<Rightarrow> workshop ax_result" where
  "place_contracts [] nodes = Inr nodes"
| "place_contracts (c # cs) nodes =
     (if bt_get nodes (nc_id c) \<noteq> None then
        Inl (with_recovery (lit ''two contracts claim one node id; rename one'')
          (failure InvalidArgs (lit ''build a workshop'') (work_str (nc_id c))))
      else place_contracts cs (bt_insert (nc_id c) c nodes))"

text \<open>The first dependency that is not in the graph, in the order of the nodes.\<close>

definition dangling :: "workshop \<Rightarrow> ax_error option" where
  "dangling nodes =
     first_some (\<lambda>(_, c). first_some (\<lambda>need.
       if bt_get nodes need \<noteq> None then None
       else Some (with_recovery (lit ''add that node, or drop the dependency'')
         (failure InvalidArgs (lit ''build a workshop'')
           (work_str (nc_id c) @ lit '' depends on '' @ work_str need @ lit '', which is not in the graph''))))
       (nc_depends_on c)) nodes"

text \<open>One turn of Kahn's loop: what the node just scheduled sets free.\<close>

type_synonym remaining = "(work_id, nat) btree"

definition waits_on :: "workshop \<Rightarrow> work_id \<Rightarrow> work_id \<Rightarrow> bool" where
  "waits_on nodes nid candidate =
     (case bt_get nodes candidate of None \<Rightarrow> False | Some c \<Rightarrow> nid \<in> set (nc_depends_on c))"

definition count_down :: "workshop \<Rightarrow> work_id \<Rightarrow> remaining \<Rightarrow> remaining" where
  "count_down nodes nid = map (\<lambda>(candidate, n). (candidate, if waits_on nodes nid candidate then n - 1 else n))"

definition freed :: "workshop \<Rightarrow> work_id \<Rightarrow> remaining \<Rightarrow> work_id list" where
  "freed nodes nid rem = map fst (filter (\<lambda>(candidate, n). waits_on nodes nid candidate \<and> n - 1 = 0) rem)"

function order_loop :: "workshop \<Rightarrow> remaining \<Rightarrow> work_id list \<Rightarrow> work_id list \<Rightarrow> work_id list" where
  "order_loop nodes rem [] out = out"
| "order_loop nodes rem (nid # queue) out =
     (let rem = bt_remove nid rem in
      order_loop nodes (count_down nodes nid rem) (queue @ freed nodes nid rem) (out @ [nid]))"
  by pat_completeness auto

lemma count_down_keys [simp]: "bt_keys (count_down nodes nid rem) = bt_keys rem"
  by (induction rem) (auto simp: count_down_def bt_keys_def)

lemma freed_keys: "set (freed nodes nid rem) \<subseteq> set (bt_keys rem)"
  by (auto simp: freed_def bt_keys_def)

text \<open>A turn takes a node out of the remaining ones, or takes out of the queue one that is not among them.\<close>

termination order_loop
proof (relation "measures [\<lambda>(nodes, rem, queue, out). length (bt_keys rem),
    \<lambda>(nodes, rem, queue, out). length (filter (\<lambda>q. q \<notin> set (bt_keys rem)) queue)]")
  fix nodes :: workshop and rem rem' :: remaining and nid queue out
  assume rem': "rem' = bt_remove nid rem"
  have keys: "bt_keys rem' = filter (\<lambda>x. x \<noteq> nid) (bt_keys rem)" by (simp add: rem' keys_remove)
  have "filter (\<lambda>q. q \<notin> set (bt_keys rem')) (freed nodes nid rem') = []"
    using freed_keys [of nodes nid rem'] by (auto simp: filter_empty_conv)
  then show "((nodes, count_down nodes nid rem', queue @ freed nodes nid rem', out @ [nid]), nodes, rem, nid # queue, out)
      \<in> measures [\<lambda>(nodes, rem, queue, out). length (bt_keys rem),
    \<lambda>(nodes, rem, queue, out). length (filter (\<lambda>q. q \<notin> set (bt_keys rem)) queue)]"
  proof (cases "nid \<in> set (bt_keys rem)")
    case True
    then have "length (bt_keys rem') < length (bt_keys rem)" by (simp add: keys length_filter_less)
    then show ?thesis by simp
  next
    case False
    then have "bt_keys rem' = bt_keys rem" by (auto simp: keys intro: filter_True)
    then show ?thesis
      using False \<open>filter _ (freed nodes nid rem') = []\<close> by simp
  qed
qed simp

definition workshop_order :: "workshop \<Rightarrow> work_id list" where
  "workshop_order nodes =
     (let rem = map (\<lambda>(nid, c). (nc_id c, length (nc_depends_on c))) nodes in
      order_loop nodes rem (map fst (filter (\<lambda>(nid, n). n = 0) rem)) [])"

definition workshop_new :: "node_contract list \<Rightarrow> workshop ax_result" where
  "workshop_new contracts =
     and_then (place_contracts contracts bt_empty) (\<lambda>nodes.
     case dangling nodes of
       Some e \<Rightarrow> Inl e
     | None \<Rightarrow>
         let order = workshop_order nodes in
         if length order \<noteq> length nodes then
           Inl (with_recovery
             (lit ''these nodes wait on each other; break the cycle by deciding which one goes first'')
             (failure GoalConflict (lit ''build a workshop'')
               (join_with (lit '', '') (map work_str (filter (\<lambda>nid. nid \<notin> set order) (bt_keys nodes))))))
         else Inr nodes)"

definition workshop_ready :: "workshop \<Rightarrow> work_id set \<Rightarrow> work_id list" where
  "workshop_ready nodes finished =
     map nc_id (filter (\<lambda>c. \<forall>need \<in> set (nc_depends_on c). need \<in> finished)
       (filter (\<lambda>c. nc_id c \<notin> finished) (map snd nodes)))"


section \<open>A graph under way\<close>

record underway =
  uw_workshop :: workshop
  uw_handed :: "work_id set"
  uw_desk :: delegate_desk

definition node_work :: "node_contract \<Rightarrow> delegated" where
  "node_work c = \<lparr>dg_room = nc_write_domain c, dg_task = job_text c, dg_goal = nc_done_check c, dg_kind = Ephemeral\<rparr>"

fun ask_each :: "work_id list \<Rightarrow> underway \<Rightarrow> unit ax_result \<times> underway" where
  "ask_each [] u = (Inr (), u)"
| "ask_each (nid # rest) u =
     (case bt_get (uw_workshop u) nid of
        None \<Rightarrow>
          (Inl (with_recovery
             (lit ''remove `'' @ work_str nid @ lit ''` from the `depends_on` of every node, or add a node for it: the schedule holds a room no node describes'')
             (failure InvalidArgs (lit ''hand down a workshop node'') (work_str nid @ lit '' is scheduled and has no contract''))), u)
      | Some c \<Rightarrow>
          (case delegate_ask (node_work c) (uw_desk u) of
             (Inl e, desk) \<Rightarrow> (Inl e, u\<lparr>uw_desk := desk\<rparr>)
           | (Inr _, desk) \<Rightarrow> ask_each rest (u\<lparr>uw_desk := desk\<rparr>)))"

definition hand_next :: "work_id set \<Rightarrow> underway \<Rightarrow> delegated list ax_result \<times> underway" where
  "hand_next finished u =
     (let fresh = filter (\<lambda>nid. nid \<notin> uw_handed u) (workshop_ready (uw_workshop u) finished) in
      case ask_each fresh u of
        (Inr _, u) \<Rightarrow>
          let u = u\<lparr>uw_handed := uw_handed u \<union> set fresh\<rparr> in
          (case delegate_take (uw_desk u) of (works, desk) \<Rightarrow> (Inr works, u\<lparr>uw_desk := desk\<rparr>))
      | (Inl e, u) \<Rightarrow> (case delegate_take (uw_desk u) of (_, desk) \<Rightarrow> (Inl e, u\<lparr>uw_desk := desk\<rparr>)))"

definition is_joined :: "work_id set \<Rightarrow> underway \<Rightarrow> bool" where
  "is_joined finished u \<longleftrightarrow> (\<forall>nid \<in> set (workshop_order (uw_workshop u)). nid \<in> finished)"

datatype laid_state = NothingLaid | Held underway | Taken

definition laid_take :: "laid_state \<Rightarrow> underway option \<times> laid_state" where
  "laid_take l = (case l of Held u \<Rightarrow> (Some u, Taken) | NothingLaid \<Rightarrow> (None, NothingLaid) | Taken \<Rightarrow> (None, Taken))"


section \<open>The desk of a run\<close>

record workshop_desk =
  wd_who :: rstr
  wd_handed :: "work_id set"
  wd_underway :: laid_state
  wd_joined :: fan_in

definition workshop_desk_new :: "rstr \<Rightarrow> fan_in \<Rightarrow> work_id set \<Rightarrow> workshop_desk" where
  "workshop_desk_new who joined handed =
     \<lparr>wd_who = who, wd_handed = handed, wd_underway = NothingLaid, wd_joined = joined\<rparr>"

record laid_out =
  lo_schedule :: "work_id list"
  lo_handed :: "work_id list"
  lo_waiting :: "work_id list"

fun lay_each :: "(codepoint \<Rightarrow> rstr) \<Rightarrow> delegated list \<Rightarrow> work_id list \<Rightarrow> delegate_desk \<Rightarrow> work_id list ax_result \<times> delegate_desk" where
  "lay_each esc [] handed delegates = (Inr handed, delegates)"
| "lay_each esc (work # rest) handed delegates =
     (case work_id_parse esc (addr_str (dg_room work)) of
        Inl e \<Rightarrow> (Inl e, delegates)
      | Inr nid \<Rightarrow>
          (case delegate_ask work delegates of
             (Inl e, delegates) \<Rightarrow> (Inl e, delegates)
           | (Inr _, delegates) \<Rightarrow> lay_each esc rest (handed @ [nid]) delegates))"

definition lay_out ::
  "(codepoint \<Rightarrow> rstr) \<Rightarrow> node_contract list \<Rightarrow> workshop_desk \<Rightarrow> delegate_desk \<Rightarrow> laid_out ax_result \<times> workshop_desk \<times> delegate_desk" where
  "lay_out esc contracts desk delegates =
     (if wd_underway desk \<noteq> NothingLaid then
        (Inl (with_recovery
           (lit ''one graph per session; add the work to the next session's graph, or hand a single extra piece down with `delegate`'')
           (failure InvalidArgs (lit ''lay out a workshop'') (lit ''this run already laid one out''))), desk, delegates)
      else
        let finished = (\<lambda>(_, a). fc_node (af_claim a)) ` set (wd_joined desk) in
        case workshop_new contracts of
          Inl e \<Rightarrow> (Inl e, desk, delegates)
        | Inr nodes \<Rightarrow>
            (case hand_next finished \<lparr>uw_workshop = nodes, uw_handed = wd_handed desk, uw_desk = delegate_beside delegates\<rparr> of
               (Inl e, _) \<Rightarrow> (Inl e, desk, delegates)
             | (Inr works, u) \<Rightarrow>
                 (case lay_each esc works [] delegates of
                    (Inl e, delegates) \<Rightarrow> (Inl e, desk, delegates)
                  | (Inr handed, delegates) \<Rightarrow>
                      let schedule = workshop_order (uw_workshop u) in
                      (Inr \<lparr>lo_schedule = schedule, lo_handed = handed,
                         lo_waiting = filter (\<lambda>nid. nid \<notin> finished \<and> nid \<notin> uw_handed u) schedule\<rparr>,
                       desk\<lparr>wd_underway := Held u\<rparr>, delegates))))"

definition take_underway :: "workshop_desk \<Rightarrow> underway option \<times> workshop_desk" where
  "take_underway desk = (case laid_take (wd_underway desk) of (u, l) \<Rightarrow> (u, desk\<lparr>wd_underway := l\<rparr>))"

definition workshop_accept :: "artifact \<Rightarrow> workshop_desk \<Rightarrow> workshop_desk" where
  "workshop_accept a desk = desk\<lparr>wd_joined := fan_accept a (wd_joined desk)\<rparr>"

definition workshop_judge :: "(nat list \<Rightarrow> nat list) \<Rightarrow> rstr \<Rightarrow> workshop_desk \<Rightarrow> work_id list ax_result" where
  "workshop_judge b3 given desk = fan_decide b3 given (wd_joined desk)"


section \<open>The tool\<close>

datatype workshop_op = OpLayOut | OpQuestion | OpJudge

definition op_parse :: "rstr \<Rightarrow> workshop_op ax_result" where
  "op_parse raw =
     (if raw = lit ''lay_out'' then Inr OpLayOut
      else if raw = lit ''question'' then Inr OpQuestion
      else if raw = lit ''judge'' then Inr OpJudge
      else Inl (with_recovery (lit ''lay_out to split the work, question then judge to close the join'')
        (failure InvalidArgs (lit ''run a workshop'') (lit ''no such operation: '' @ raw))))"

definition workshop_text :: "json_map \<Rightarrow> string \<Rightarrow> rstr ax_result" where
  "workshop_text m key =
     ok_or (with_recovery (lit ''every node states room, goal, done_check and stop'')
         (failure InvalidArgs (lit ''run a workshop'') (lit ''missing string argument `'' @ lit key @ lit ''`'')))
       (arg_str key m)"

definition set_insert :: "'a::linorder \<Rightarrow> 'a list \<Rightarrow> 'a list" where
  "set_insert x xs = (if x \<in> set xs then xs else insort x xs)"

definition dependency_of :: "(codepoint \<Rightarrow> rstr) \<Rightarrow> json \<Rightarrow> work_id ax_result" where
  "dependency_of esc entry =
     and_then (ok_or (with_recovery
         (lit ''write each entry of `depends_on` as the room string of another node in this same call'')
         (failure InvalidArgs (lit ''run a workshop'') (lit ''a dependency is the room of another node'')))
       (as_str entry)) (work_id_parse esc)"

definition contract_of :: "(codepoint \<Rightarrow> rstr) \<Rightarrow> rstr \<Rightarrow> json \<Rightarrow> node_contract ax_result" where
  "contract_of esc owner node =
     and_then (ok_or (with_recovery (lit ''each node is {room, goal, done_check, stop, depends_on?}'')
         (failure InvalidArgs (lit ''run a workshop'') (lit ''a node is an object'')))
       (case node of JObject m \<Rightarrow> Some m | _ \<Rightarrow> None)) (\<lambda>m.
     and_then (workshop_text m ''room'') (\<lambda>raw.
     and_then (address_parse raw) (\<lambda>room.
     and_then (case Option.bind (bt_get m (lit ''depends_on'')) as_array of
         None \<Rightarrow> Inr [] | Some items \<Rightarrow> collect_ok (dependency_of esc) items) (\<lambda>needs.
     and_then (work_id_parse esc (addr_str room)) (\<lambda>nid.
     and_then (workshop_text m ''goal'') (\<lambda>goal.
     and_then (workshop_text m ''done_check'') (\<lambda>done_check.
     and_then (workshop_text m ''stop'') (\<lambda>stop.
     node_contract_new nid goal (fold set_insert needs []) [] room owner done_check stop))))))))"

definition id_array :: "work_id list \<Rightarrow> json" where
  "id_array ids = JArray (map (\<lambda>nid. JString (work_str nid)) ids)"

definition workshop_invoke ::
  "(nat list \<Rightarrow> nat list) \<Rightarrow> (codepoint \<Rightarrow> rstr) \<Rightarrow> rstr \<Rightarrow> json_map \<Rightarrow> workshop_desk \<Rightarrow> delegate_desk \<Rightarrow>
     payload ax_result \<times> workshop_desk \<times> delegate_desk" where
  "workshop_invoke b3 esc called args desk delegates =
     (if called \<noteq> lit ''workshop'' then
        (Inl (with_recovery (lit ''call `workshop`, the name this tool answers to'')
           (failure InvalidArgs (lit ''run a workshop'') (lit ''call routed to the wrong tool: '' @ called))), desk, delegates)
      else
        case and_then (workshop_text args ''op'') op_parse of
          Inl e \<Rightarrow> (Inl e, desk, delegates)
        | Inr OpLayOut \<Rightarrow>
            (case and_then (ok_or (with_recovery (lit ''give at least one node; one node is a `delegate` call'')
                  (failure InvalidArgs (lit ''run a workshop'') (lit ''lay_out needs a `nodes` array'')))
                (Option.bind (bt_get args (lit ''nodes'')) as_array)) (collect_ok (contract_of esc (wd_who desk))) of
               Inl e \<Rightarrow> (Inl e, desk, delegates)
             | Inr contracts \<Rightarrow>
                 (case lay_out esc contracts desk delegates of
                    (Inl e, desk, delegates) \<Rightarrow> (Inl e, desk, delegates)
                  | (Inr laid, desk, delegates) \<Rightarrow>
                      (answer [(lit ''schedule'', id_array (lo_schedule laid)), (lit ''handed'', id_array (lo_handed laid)),
                         (lit ''waiting'', id_array (lo_waiting laid)),
                         (lit ''starts'', JString (lit ''`handed` now, while this run goes on; each of `waiting` once its dependencies hand back, unless this run ends cancelled or failed''))],
                       desk, delegates)))
        | Inr OpQuestion \<Rightarrow>
            (and_then (fan_question (wd_joined desk)) (\<lambda>question.
               answer [(lit ''node'', JString (work_str (pq_node question))), (lit ''question'', JString (pq_prompt question))]),
             desk, delegates)
        | Inr OpJudge \<Rightarrow>
            (and_then (workshop_text args ''answer'') (\<lambda>given.
             and_then (workshop_judge b3 given desk) (\<lambda>joined.
               answer [(lit ''joined'', id_array joined)])), desk, delegates))"

end
