(* ===== verification/WorkshopOrders.thy ===== *)
theory WorkshopOrders
  imports Workshops
begin

text \<open>
  Which lists of contracts are workshops, and the order their nodes run in. Kahn's loop keeps, for every
  node it has not scheduled, how many of its dependencies are still to come; the queue holds those that
  wait for none. So the order puts every node behind its dependencies, and it covers the graph exactly when
  the graph has no circle.
\<close>


section \<open>The graph\<close>

definition needs :: "workshop \<Rightarrow> work_id \<Rightarrow> work_id list" where
  "needs nodes k = (case bt_get nodes k of None \<Rightarrow> [] | Some c \<Rightarrow> nc_depends_on c)"

definition workshop_wf :: "workshop \<Rightarrow> bool" where
  "workshop_wf nodes \<longleftrightarrow> bt_wf nodes \<and> (\<forall>(k, c) \<in> set nodes. nc_id c = k \<and> distinct (nc_depends_on c))"

definition dep_edges :: "workshop \<Rightarrow> (work_id \<times> work_id) set" where
  "dep_edges nodes = {(k, need). need \<in> set (needs nodes k)}"

definition closed :: "workshop \<Rightarrow> bool" where
  "closed nodes \<longleftrightarrow> (\<forall>k. set (needs nodes k) \<subseteq> set (bt_keys nodes))"

lemma wf_entry:
  assumes "workshop_wf nodes" "(k, c) \<in> set nodes"
  shows "bt_get nodes k = Some c" "needs nodes k = nc_depends_on c" "nc_id c = k"
  using assms bt_entry_get [of nodes k c] by (auto simp: workshop_wf_def needs_def)

lemma needs_distinct: "workshop_wf nodes \<Longrightarrow> distinct (needs nodes k)"
  using bt_entry_get [of nodes k] by (fastforce simp: workshop_wf_def needs_def split: option.splits)

lemma waits_on_needs: "waits_on nodes nid k \<longleftrightarrow> nid \<in> set (needs nodes k)"
  by (simp add: waits_on_def needs_def split: option.splits)

lemma needs_outside: "k \<notin> set (bt_keys nodes) \<Longrightarrow> needs nodes k = []"
  by (simp add: needs_def bt_keys_iff)


section \<open>What the loop keeps\<close>

definition order_inv :: "workshop \<Rightarrow> remaining \<Rightarrow> work_id list \<Rightarrow> work_id list \<Rightarrow> bool" where
  "order_inv nodes rem queue out \<longleftrightarrow>
     bt_keys rem = filter (\<lambda>k. k \<notin> set out) (bt_keys nodes) \<and>
     (\<forall>(k, n) \<in> set rem. n = length (filter (\<lambda>x. x \<notin> set out) (needs nodes k))) \<and>
     distinct queue \<and> set queue = {k. (k, 0) \<in> set rem} \<and>
     distinct out \<and> set out \<subseteq> set (bt_keys nodes) \<and>
     (\<forall>i < length out. set (needs nodes (out ! i)) \<subseteq> set (take i out))"

lemma filter_one_less:
  assumes "distinct xs"
  shows "length (filter (\<lambda>x. x \<notin> insert a A) xs) =
    (if a \<in> set xs \<and> a \<notin> A then length (filter (\<lambda>x. x \<notin> A) xs) - 1 else length (filter (\<lambda>x. x \<notin> A) xs))"
  using assms
proof (induction xs)
  case (Cons x xs)
  show ?case
  proof (cases "x = a")
    case True
    then have "a \<notin> set xs" using Cons.prems by simp
    moreover from this have "filter (\<lambda>x. x \<notin> insert a A) xs = filter (\<lambda>x. x \<notin> A) xs" by (intro filter_cong) auto
    ultimately show ?thesis using True by simp
  next
    case False
    have pos: "a \<in> set xs \<Longrightarrow> a \<notin> A \<Longrightarrow> length (filter (\<lambda>x. x \<notin> A) xs) > 0"
      by (auto simp: filter_empty_conv)
    show ?thesis
      using False Cons.IH Cons.prems pos by (cases "x \<in> A") (auto simp: Suc_diff_1)
  qed
qed simp

lemma order_step:
  assumes wf: "workshop_wf nodes" and inv: "order_inv nodes rem (nid # queue) out" and rem': "rem' = bt_remove nid rem"
  shows "order_inv nodes (count_down nodes nid rem') (queue @ freed nodes nid rem') (out @ [nid])"
proof -
  have keys: "bt_keys rem = filter (\<lambda>k. k \<notin> set out) (bt_keys nodes)"
    and counts: "\<And>k n. (k, n) \<in> set rem \<Longrightarrow> n = length (filter (\<lambda>x. x \<notin> set out) (needs nodes k))"
    and queue: "distinct (nid # queue)" "set (nid # queue) = {k. (k, 0) \<in> set rem}"
    and out: "distinct out" "set out \<subseteq> set (bt_keys nodes)"
      "\<And>i. i < length out \<Longrightarrow> set (needs nodes (out ! i)) \<subseteq> set (take i out)"
    using inv unfolding order_inv_def by auto
  have "distinct (bt_keys nodes)" using wf by (simp add: workshop_wf_def bt_keys_def bt_wf_distinct)
  then have dist: "distinct (bt_keys rem)" by (simp add: keys)
  have nid: "(nid, 0) \<in> set rem" using queue(2) by auto
  then have "nid \<in> set (bt_keys rem)" by (force simp: bt_keys_def)
  then have fresh: "nid \<in> set (bt_keys nodes)" "nid \<notin> set out" by (simp_all add: keys)
  have met: "set (needs nodes nid) \<subseteq> set out" using counts [OF nid] by (auto simp: filter_empty_conv)
  have mem': "(k, n) \<in> set rem' \<longleftrightarrow> (k, n) \<in> set rem \<and> k \<noteq> nid" for k n by (auto simp: rem' bt_remove_def)
  have keys': "bt_keys rem' = filter (\<lambda>k. k \<notin> set (out @ [nid])) (bt_keys nodes)"
    by (auto simp: rem' keys_remove keys conj_commute intro!: filter_cong)
  have count': "(if waits_on nodes nid k then n - 1 else n) = length (filter (\<lambda>x. x \<notin> set (out @ [nid])) (needs nodes k))"
    if "(k, n) \<in> set rem'" for k n
    using counts [of k n] that filter_one_less [OF needs_distinct [OF wf], of nid "set out" k] fresh(2)
    by (simp add: mem' waits_on_needs)
  have positive: "n > 0" if "(k, n) \<in> set rem" "waits_on nodes nid k" for k n
    using counts [OF that(1)] that(2) fresh(2) by (auto simp: waits_on_needs filter_empty_conv)
  have unique: "n = m" if "(k, n) \<in> set rem" "(k, m) \<in> set rem" for k n m
    using dist that by (auto simp: bt_keys_def dest: eq_key_imp_eq_value)
  have freed: "k \<in> set (freed nodes nid rem') \<longleftrightarrow> (\<exists>n. (k, n) \<in> set rem' \<and> waits_on nodes nid k \<and> n - 1 = 0)" for k
    by (force simp: freed_def)
  have down: "(k, m) \<in> set (count_down nodes nid rem') \<longleftrightarrow>
      (\<exists>n. (k, n) \<in> set rem' \<and> m = (if waits_on nodes nid k then n - 1 else n))" for k m
    by (force simp: count_down_def)
  have "distinct (bt_keys rem')" using dist by (simp add: rem' keys_remove)
  then have "distinct (freed nodes nid rem')" by (simp add: freed_def bt_keys_def distinct_map_filter)
  moreover have "k \<notin> set (freed nodes nid rem')" if "k \<in> set queue" for k
  proof
    assume "k \<in> set (freed nodes nid rem')"
    then obtain n where "(k, n) \<in> set rem" "waits_on nodes nid k" by (auto simp: freed mem')
    moreover have "(k, 0) \<in> set rem" using that queue(2) by auto
    ultimately show False using positive unique by fastforce
  qed
  ultimately have "distinct (queue @ freed nodes nid rem')" using queue(1) by auto
  moreover have "set (queue @ freed nodes nid rem') = {k. (k, 0) \<in> set (count_down nodes nid rem')}"
  proof (rule set_eqI)
    fix k
    have "k \<in> set queue \<longleftrightarrow> (k, 0) \<in> set rem'" using queue by (auto simp: mem')
    then show "k \<in> set (queue @ freed nodes nid rem') \<longleftrightarrow> k \<in> {k. (k, 0) \<in> set (count_down nodes nid rem')}"
      by (auto simp: freed down)
  qed
  moreover have "set (needs nodes ((out @ [nid]) ! i)) \<subseteq> set (take i (out @ [nid]))" if "i < length (out @ [nid])" for i
    using that out(3) [of i] met by (cases "i = length out") (auto simp: nth_append)
  moreover have "\<forall>(k, m) \<in> set (count_down nodes nid rem'). m = length (filter (\<lambda>x. x \<notin> set (out @ [nid])) (needs nodes k))"
    using count' by (auto simp: down)
  ultimately show ?thesis
    using keys' out(1,2) fresh unfolding order_inv_def by simp
qed

lemma order_loop_inv:
  "workshop_wf nodes \<Longrightarrow> order_inv nodes rem queue out \<Longrightarrow> \<exists>rem'. order_inv nodes rem' [] (order_loop nodes rem queue out)"
proof (induction nodes rem queue out rule: order_loop.induct)
  case (2 nodes rem nid queue out)
  from "2.IH" [OF refl "2.prems"(1) order_step [OF "2.prems" refl]] show ?case by (simp add: Let_def)
qed auto

lemma order_start:
  assumes wf: "workshop_wf nodes"
  shows "\<exists>rem. order_inv nodes rem [] (workshop_order nodes)"
proof -
  define rem where "rem = map (\<lambda>(nid, c). (nc_id c, length (nc_depends_on c))) nodes"
  have entries: "rem = map (\<lambda>(k, c). (k, length (nc_depends_on c))) nodes"
    using wf_entry(3) [OF wf] by (auto simp: rem_def)
  have keys: "bt_keys rem = bt_keys nodes" by (simp add: entries bt_keys_def case_prod_unfold comp_def)
  have "distinct (bt_keys nodes)" using wf by (simp add: workshop_wf_def bt_keys_def bt_wf_distinct)
  then have "distinct (map fst (filter (\<lambda>(nid, n). n = 0) rem))"
    using keys by (simp add: bt_keys_def distinct_map_filter)
  moreover have "\<forall>(k, n) \<in> set rem. n = length (needs nodes k)"
    using wf_entry(2) [OF wf] by (auto simp: entries)
  ultimately have "order_inv nodes rem (map fst (filter (\<lambda>(nid, n). n = 0) rem)) []"
    using keys by (force simp: order_inv_def)
  then show ?thesis
    using order_loop_inv [OF wf] by (simp add: workshop_order_def rem_def [symmetric] Let_def)
qed


section \<open>The order\<close>

lemma order_facts:
  assumes "workshop_wf nodes"
  shows "distinct (workshop_order nodes)" "set (workshop_order nodes) \<subseteq> set (bt_keys nodes)"
    and "i < length (workshop_order nodes) \<Longrightarrow> set (needs nodes (workshop_order nodes ! i)) \<subseteq> set (take i (workshop_order nodes))"
  using order_start [OF assms] by (auto simp: order_inv_def)

text \<open>An order that covers the graph leaves no circle, and without a circle nothing keeps it from covering it.\<close>

lemma covering_acyclic:
  assumes wf: "workshop_wf nodes" and covers: "set (workshop_order nodes) = set (bt_keys nodes)"
  shows "acyclic (dep_edges nodes)"
proof -
  let ?out = "workshop_order nodes"
  define place where "place = the_inv_into {..<length ?out} ((!) ?out)"
  have "inj_on ((!) ?out) {..<length ?out}" using order_facts(1) [OF wf] by (simp add: inj_on_nth)
  then have place: "place (?out ! i) = i" if "i < length ?out" for i
    unfolding place_def by (rule the_inv_into_f_f) (use that in simp)
  show ?thesis
  proof (rule acyclicI_order [where f = place])
    fix k need
    assume edge: "(k, need) \<in> dep_edges nodes"
    then have need: "need \<in> set (needs nodes k)" by (simp add: dep_edges_def)
    then have "needs nodes k \<noteq> []" by auto
    then have "k \<in> set ?out" unfolding covers using needs_outside by blast
    then obtain i where i: "i < length ?out" "?out ! i = k" unfolding in_set_conv_nth by blast
    then have "need \<in> set (take i ?out)" using need order_facts(3) [OF wf i(1)] by blast
    then obtain j where "j < i" "?out ! j = need" "j < length ?out" by (auto simp: in_set_conv_nth)
    then show "place need < place k" using place [of i] place [of j] i by simp
  qed
qed

lemma acyclic_covering:
  assumes wf: "workshop_wf nodes" and closed: "closed nodes" and acyclic: "acyclic (dep_edges nodes)"
  shows "set (workshop_order nodes) = set (bt_keys nodes)"
proof (rule ccontr)
  let ?out = "workshop_order nodes"
  obtain rem where inv: "order_inv nodes rem [] ?out" using order_start [OF wf] by blast
  assume "set ?out \<noteq> set (bt_keys nodes)"
  then obtain k0 where "k0 \<in> set (bt_keys rem)"
    using order_facts(2) [OF wf] inv by (auto simp: order_inv_def)
  have "dep_edges nodes \<subseteq> set (bt_keys nodes) \<times> set (bt_keys nodes)"
    using closed needs_outside [of _ nodes] by (fastforce simp: dep_edges_def closed_def)
  then have "finite (dep_edges nodes)" by (rule finite_subset) simp
  then have "wf ((dep_edges nodes)\<inverse>)" using acyclic by (simp add: finite_acyclic_wf_converse)
  from wfE_min [OF this \<open>k0 \<in> _\<close>] obtain k where k: "k \<in> set (bt_keys rem)"
    and least: "\<And>need. (need, k) \<in> (dep_edges nodes)\<inverse> \<Longrightarrow> need \<notin> set (bt_keys rem)" by blast
  have "set (needs nodes k) \<subseteq> set ?out"
    using least closed inv by (force simp: dep_edges_def closed_def order_inv_def)
  then have "filter (\<lambda>x. x \<notin> set ?out) (needs nodes k) = []" by (auto simp: filter_empty_conv)
  moreover obtain n where n: "(k, n) \<in> set rem" using k by (auto simp: bt_keys_def)
  ultimately have "n = 0" using inv by (auto simp: order_inv_def)
  then show False using n inv by (auto simp: order_inv_def)
qed

lemma order_length:
  assumes "workshop_wf nodes"
  shows "length (workshop_order nodes) = length nodes \<longleftrightarrow> set (workshop_order nodes) = set (bt_keys nodes)"
proof -
  have "distinct (bt_keys nodes)" using assms by (simp add: workshop_wf_def bt_keys_def bt_wf_distinct)
  then have card: "card (set (bt_keys nodes)) = length nodes" using distinct_card [of "bt_keys nodes"] by (simp add: bt_keys_def)
  have "card (set (workshop_order nodes)) = length (workshop_order nodes)"
    using order_facts(1) [OF assms] by (rule distinct_card)
  moreover have "card (set (workshop_order nodes)) = card (set (bt_keys nodes)) \<longleftrightarrow> set (workshop_order nodes) = set (bt_keys nodes)"
    using card_subset_eq [OF finite_set order_facts(2) [OF assms]] by auto
  ultimately show ?thesis using card by simp
qed


section \<open>Building a workshop\<close>

lemma place_contracts_ok:
  assumes "bt_wf m"
  shows "is_ok (place_contracts cs m) \<longleftrightarrow> distinct (map nc_id cs) \<and> (\<forall>c \<in> set cs. bt_get m (nc_id c) = None)"
  using assms
proof (induction cs arbitrary: m)
  case (Cons c cs)
  show ?case
    using Cons.IH [OF bt_wf_insert [OF Cons.prems], of "nc_id c" c]
    by (cases "bt_get m (nc_id c)") (auto simp: bt_get_insert image_iff split: if_splits)
qed simp

lemma place_contracts_get:
  assumes "place_contracts cs m = Inr nodes" "bt_wf m"
  shows "bt_wf nodes \<and> (\<forall>k c. bt_get nodes k = Some c \<longleftrightarrow> bt_get m k = Some c \<or> c \<in> set cs \<and> k = nc_id c)"
  using assms
proof (induction cs arbitrary: m)
  case (Cons c cs)
  then have "bt_get m (nc_id c) = None" "place_contracts cs (bt_insert (nc_id c) c m) = Inr nodes"
    by (auto split: if_splits)
  then show ?case
    using Cons.IH [OF _ bt_wf_insert [OF Cons.prems(2)], of "nc_id c" c] by (auto simp: bt_get_insert)
qed simp

text \<open>The contracts as a graph.\<close>

definition contract_edges :: "node_contract list \<Rightarrow> (work_id \<times> work_id) set" where
  "contract_edges cs = {(nc_id c, need) | c need. c \<in> set cs \<and> need \<in> set (nc_depends_on c)}"

lemma placed_contracts:
  assumes "place_contracts cs bt_empty = Inr nodes" "\<forall>c \<in> set cs. distinct (nc_depends_on c)"
  shows "workshop_wf nodes" "set (map snd nodes) = set cs" "set (bt_keys nodes) = nc_id ` set cs"
    and "dep_edges nodes = contract_edges cs" "distinct (map nc_id cs)"
    and "c \<in> set cs \<Longrightarrow> needs nodes (nc_id c) = nc_depends_on c"
proof -
  have got: "bt_wf nodes" "\<And>k c. bt_get nodes k = Some c \<longleftrightarrow> c \<in> set cs \<and> k = nc_id c"
    using place_contracts_get [OF assms(1) bt.wf_empty] by (simp_all add: bt.get_empty)
  then have entry: "(k, c) \<in> set nodes \<longleftrightarrow> c \<in> set cs \<and> k = nc_id c" for k c by (simp add: bt_entry_get)
  show wf: "workshop_wf nodes" using got(1) assms(2) by (auto simp: workshop_wf_def entry)
  have "c \<in> set (map snd nodes) \<longleftrightarrow> c \<in> set cs" for c using entry [of "nc_id c" c] entry [of _ c] by (force simp: image_iff)
  then show "set (map snd nodes) = set cs" by blast
  have "k \<in> set (bt_keys nodes) \<longleftrightarrow> k \<in> nc_id ` set cs" for k
    using got(2) [of k] by (auto simp: bt_keys_iff image_iff)
  then show "set (bt_keys nodes) = nc_id ` set cs" by blast
  have dist: "c = c'" if "c \<in> set cs" "c' \<in> set cs" "nc_id c = nc_id c'" for c c'
    using got(2) [of "nc_id c" c] got(2) [of "nc_id c" c'] that by simp
  show needs: "needs nodes (nc_id c) = nc_depends_on c" if "c \<in> set cs" for c
    using got(2) [of "nc_id c" c] that by (simp add: needs_def)
  show "dep_edges nodes = contract_edges cs"
    using got(2) by (force simp: dep_edges_def contract_edges_def needs_def split: option.splits)
  show "distinct (map nc_id cs)"
    using place_contracts_ok [OF bt.wf_empty, of cs] assms(1) by simp
qed

lemma dangling_None: "workshop_wf nodes \<Longrightarrow> dangling nodes = None \<longleftrightarrow> closed nodes"
proof -
  assume wf: "workshop_wf nodes"
  have "dangling nodes = None \<longleftrightarrow> (\<forall>(k, c) \<in> set nodes. \<forall>need \<in> set (nc_depends_on c). bt_get nodes need \<noteq> None)"
    by (auto simp: dangling_def first_some_None split: if_splits)
  also have "\<dots> \<longleftrightarrow> closed nodes"
  proof
    assume all: "\<forall>(k, c) \<in> set nodes. \<forall>need \<in> set (nc_depends_on c). bt_get nodes need \<noteq> None"
    show "closed nodes"
      unfolding closed_def
    proof (intro allI subsetI)
      fix k need
      assume need: "need \<in> set (needs nodes k)"
      then obtain c where c: "bt_get nodes k = Some c" by (cases "bt_get nodes k") (auto simp: needs_def)
      then have "(k, c) \<in> set nodes" using wf by (simp add: bt_entry_get workshop_wf_def)
      then show "need \<in> set (bt_keys nodes)" using all need c by (auto simp: bt_keys_iff needs_def)
    qed
  next
    assume "closed nodes"
    then show "\<forall>(k, c) \<in> set nodes. \<forall>need \<in> set (nc_depends_on c). bt_get nodes need \<noteq> None"
    proof (intro ballI, unfold split_paired_all case_prod_conv, intro ballI)
      fix k c need
      assume "(k, c) \<in> set nodes" "need \<in> set (nc_depends_on c)"
      then show "bt_get nodes need \<noteq> None" using \<open>closed nodes\<close> wf_entry(2) [OF wf, of k c] unfolding closed_def
        by (metis bt_keys_iff subsetD)
    qed
  qed
  finally show ?thesis .
qed

text \<open>A graph that was accepted.\<close>

lemma accepted:
  assumes "workshop_new cs = Inr nodes" "\<forall>c \<in> set cs. distinct (nc_depends_on c)"
  shows "place_contracts cs bt_empty = Inr nodes" "workshop_wf nodes" "closed nodes"
    and "set (workshop_order nodes) = set (bt_keys nodes)" "acyclic (dep_edges nodes)"
proof -
  obtain nodes' where p: "place_contracts cs bt_empty = Inr nodes'"
    using assms(1) by (cases "place_contracts cs bt_empty") (auto simp: workshop_new_def)
  note wf = placed_contracts(1) [OF p assms(2)]
  have all: "nodes' = nodes" "dangling nodes' = None" "length (workshop_order nodes') = length nodes'"
    using assms(1) by (auto simp: workshop_new_def p Let_def split: option.splits if_splits)
  then show "place_contracts cs bt_empty = Inr nodes" "workshop_wf nodes" using p wf by simp_all
  show "closed nodes" using dangling_None [OF wf] all by simp
  show cov: "set (workshop_order nodes) = set (bt_keys nodes)" using order_length [OF wf] all by simp
  then show "acyclic (dep_edges nodes)" using covering_acyclic [OF wf] all by simp
qed

text \<open>C18. Which lists of contracts are workshops: a list, each contract naming a set of dependencies,
  is accepted exactly when no two contracts claim one name, every dependency is a node of the list, and the dependencies have no circle. The graph then holds
  those contracts, and its schedule names every node once, each behind all it depends on.\<close>

theorem workshop_new_decides:
  assumes "\<forall>c \<in> set cs. distinct (nc_depends_on c)"
  shows "case workshop_new cs of
      Inl _ \<Rightarrow> \<not> (distinct (map nc_id cs) \<and> (\<forall>c \<in> set cs. set (nc_depends_on c) \<subseteq> nc_id ` set cs) \<and> acyclic (contract_edges cs))
    | Inr nodes \<Rightarrow>
        distinct (map nc_id cs) \<and> (\<forall>c \<in> set cs. set (nc_depends_on c) \<subseteq> nc_id ` set cs) \<and> acyclic (contract_edges cs) \<and>
        set (map snd nodes) = set cs \<and> distinct (workshop_order nodes) \<and> set (workshop_order nodes) = nc_id ` set cs \<and>
        (\<forall>i < length (workshop_order nodes). \<forall>c \<in> set cs. nc_id c = workshop_order nodes ! i \<longrightarrow>
           set (nc_depends_on c) \<subseteq> set (take i (workshop_order nodes)))"
proof (cases "workshop_new cs")
  case (Inr nodes)
  note acc = accepted [OF Inr assms]
  note pl = placed_contracts [OF acc(1) assms]
  have "set (nc_depends_on c) \<subseteq> nc_id ` set cs" if "c \<in> set cs" for c
    using acc(3) pl(3,6) that unfolding closed_def by metis
  moreover have "set (nc_depends_on c) \<subseteq> set (take i (workshop_order nodes))"
    if "i < length (workshop_order nodes)" "c \<in> set cs" "nc_id c = workshop_order nodes ! i" for i c
    using order_facts(3) [OF acc(2) that(1)] pl(6) [OF that(2)] that(3) by simp
  ultimately show ?thesis
    using acc(4,5) pl(2-5) order_facts(1) [OF acc(2)] by (simp add: Inr)
next
  case (Inl e)
  show ?thesis
  proof (simp only: Inl sum.case, intro notI, elim conjE)
    assume d: "distinct (map nc_id cs)" and c: "\<forall>c \<in> set cs. set (nc_depends_on c) \<subseteq> nc_id ` set cs"
      and a: "acyclic (contract_edges cs)"
    obtain nodes where p: "place_contracts cs bt_empty = Inr nodes"
      using place_contracts_ok [OF bt.wf_empty, of cs] d by (auto simp: bt.get_empty is_ok_iff)
    note pl = placed_contracts [OF p assms]
    have "closed nodes"
      unfolding closed_def
    proof (intro allI)
      fix k
      show "set (needs nodes k) \<subseteq> set (bt_keys nodes)"
      proof (cases "k \<in> set (bt_keys nodes)")
        case True
        then obtain x where x: "x \<in> set cs" "k = nc_id x" using pl(3) by auto
        show ?thesis using bspec [OF c x(1)] unfolding x(2) pl(6) [OF x(1)] pl(3) .
      qed (simp add: needs_outside)
    qed
    moreover from acyclic_covering [OF pl(1) this] have "length (workshop_order nodes) = length nodes"
      using a order_length [OF pl(1)] by (simp add: pl(4))
    ultimately show False using Inl dangling_None [OF pl(1)] by (simp add: workshop_new_def p Let_def)
  qed
qed

definition sample_contract :: "string \<Rightarrow> string list \<Rightarrow> node_contract" where
  "sample_contract nid deps = \<lparr>nc_id = WorkId (lit nid), nc_goal = lit ''g'', nc_depends_on = map (\<lambda>d. WorkId (lit d)) deps, nc_reads = [],
     nc_write_domain = Address (lit ''h/'' @ lit nid), nc_owner = lit ''o'', nc_done_check = lit ''d'', nc_stop = lit ''s''\<rparr>"

text \<open>Two nodes in a row are a workshop.\<close>

theorem workshop_new_decides_witness:
  "\<exists>nodes. workshop_new [sample_contract ''b'' [''a''], sample_contract ''a'' []] = Inr nodes \<and>
     set (workshop_order nodes) = {WorkId (lit ''a''), WorkId (lit ''b'')}"
proof -
  let ?cs = "[sample_contract ''b'' [''a''], sample_contract ''a'' []]"
  have "is_ok (workshop_new ?cs)" by code_simp
  then obtain nodes where ok: "workshop_new ?cs = Inr nodes" by (auto simp: is_ok_iff)
  have "\<forall>c \<in> set ?cs. distinct (nc_depends_on c)" by (simp add: sample_contract_def)
  from workshop_new_decides [OF this] have "set (workshop_order nodes) = nc_id ` set ?cs" by (simp add: ok)
  then show ?thesis using ok by (auto simp: sample_contract_def)
qed

end
