(* ===== verification/WorkshopRuns.thy ===== *)
theory WorkshopRuns
  imports WorkshopOrders
begin

text \<open>
  A graph while it is worked, and the join at its end. Whatever is reported finished and in whatever order,
  no node is handed down twice and none before its dependencies; as long as nodes are left and everything
  handed down has come back, the next call hands something down. A join holds only what somebody else than
  its producer verified, and is closed only with the content of one of its artifacts.
\<close>


section \<open>Handing down\<close>

lemma delegate_ask_eq:
  "delegate_ask work d = (case delegate_admits d work of Inl e \<Rightarrow> (Inl e, d) | Inr _ \<Rightarrow> (Inr work, d\<lparr>dd_asked := dd_asked d @ [work]\<rparr>))"
  by (simp add: delegate_ask_def Let_def ok_or_def split: sum.splits)

lemma admits_asked [simp]: "delegate_admits (d\<lparr>dd_asked := xs\<rparr>) work = delegate_admits d work"
  by (simp add: delegate_admits_def split: gate_outcome.splits)

lemma admits_beside [simp]: "delegate_admits (delegate_beside d) work = delegate_admits d work"
  by (simp add: delegate_admits_def delegate_beside_def delegate_desk_new_def split: gate_outcome.splits)

definition work_of :: "workshop \<Rightarrow> work_id \<Rightarrow> delegated" where
  "work_of nodes k = node_work (the (bt_get nodes k))"

text \<open>Asking for a list of nodes of the graph: all of them, or the first one that is refused stops it.\<close>

lemma ask_each_eq:
  assumes "set ids \<subseteq> set (bt_keys (uw_workshop u))"
  shows "\<exists>r asked. ask_each ids u = (r, u\<lparr>uw_desk := (uw_desk u)\<lparr>dd_asked := asked\<rparr>\<rparr>) \<and>
    (is_ok r \<longrightarrow> asked = dd_asked (uw_desk u) @ map (work_of (uw_workshop u)) ids) \<and>
    (is_ok r \<longleftrightarrow> (\<forall>k \<in> set ids. is_ok (delegate_admits (uw_desk u) (work_of (uw_workshop u) k))))"
  using assms
proof (induction ids arbitrary: u)
  case Nil
  have "u = u\<lparr>uw_desk := (uw_desk u)\<lparr>dd_asked := dd_asked (uw_desk u)\<rparr>\<rparr>" by simp
  then show ?case by (metis append_Nil2 ask_each.simps(1) empty_iff empty_set is_ok_simps(1) list.simps(8))
next
  case (Cons k ids)
  obtain c where c: "bt_get (uw_workshop u) k = Some c" using Cons.prems by (auto simp: bt_keys_iff)
  then have work: "work_of (uw_workshop u) k = node_work c" by (simp add: work_of_def)
  show ?case
  proof (cases "delegate_admits (uw_desk u) (node_work c)")
    case (Inl e)
    have "u\<lparr>uw_desk := uw_desk u\<rparr> = u\<lparr>uw_desk := (uw_desk u)\<lparr>dd_asked := dd_asked (uw_desk u)\<rparr>\<rparr>" by simp
    then show ?thesis
      using Inl by (intro exI [of _ "Inl e"] exI [of _ "dd_asked (uw_desk u)"]) (simp add: c delegate_ask_eq work)
  next
    case (Inr x)
    define u1 where "u1 = u\<lparr>uw_desk := (uw_desk u)\<lparr>dd_asked := dd_asked (uw_desk u) @ [node_work c]\<rparr>\<rparr>"
    have "set ids \<subseteq> set (bt_keys (uw_workshop u1))" using Cons.prems by (simp add: u1_def)
    from Cons.IH [OF this] obtain r asked where ih: "ask_each ids u1 = (r, u1\<lparr>uw_desk := (uw_desk u1)\<lparr>dd_asked := asked\<rparr>\<rparr>)"
      "is_ok r \<longrightarrow> asked = dd_asked (uw_desk u1) @ map (work_of (uw_workshop u1)) ids"
      "is_ok r \<longleftrightarrow> (\<forall>k \<in> set ids. is_ok (delegate_admits (uw_desk u1) (work_of (uw_workshop u1) k)))"
      by blast
    have "ask_each (k # ids) u = ask_each ids u1" using Inr by (simp add: c delegate_ask_eq u1_def)
    then show ?thesis
      using ih Inr by (intro exI [of _ r] exI [of _ asked]) (simp add: u1_def work)
  qed
qed

lemma ready_facts:
  assumes "workshop_wf nodes"
  shows "set (workshop_ready nodes fin) = {k \<in> set (bt_keys nodes). k \<notin> fin \<and> set (needs nodes k) \<subseteq> fin}"
    and "distinct (workshop_ready nodes fin)"
proof -
  have eq: "workshop_ready nodes fin = map fst (filter (\<lambda>(k, c). k \<notin> fin \<and> set (nc_depends_on c) \<subseteq> fin) nodes)"
  proof -
    have "map nc_id (filter (\<lambda>c. \<forall>need \<in> set (nc_depends_on c). need \<in> fin) (filter (\<lambda>c. nc_id c \<notin> fin) (map snd es))) =
        map fst (filter (\<lambda>(k, c). k \<notin> fin \<and> set (nc_depends_on c) \<subseteq> fin) es)"
      if "\<forall>(k, c) \<in> set es. nc_id c = k" for es
      using that by (induction es) auto
    then show ?thesis using assms by (auto simp: workshop_ready_def workshop_wf_def)
  qed
  show "distinct (workshop_ready nodes fin)"
    using assms unfolding eq by (simp add: workshop_wf_def bt_wf_distinct distinct_map_filter)
  show "set (workshop_ready nodes fin) = {k \<in> set (bt_keys nodes). k \<notin> fin \<and> set (needs nodes k) \<subseteq> fin}"
    using wf_entry(2) [OF assms] unfolding eq by (force simp: bt_keys_def)
qed

definition idle_desk :: "delegate_desk \<Rightarrow> bool" where
  "idle_desk d \<longleftrightarrow> dd_asked d = [] \<and> dd_handed_over d = 0"

definition fresh_nodes :: "work_id set \<Rightarrow> underway \<Rightarrow> work_id list" where
  "fresh_nodes fin u = filter (\<lambda>k. k \<notin> uw_handed u) (workshop_ready (uw_workshop u) fin)"

text \<open>A call hands down all the nodes it may, or changes nothing.\<close>

lemma hand_next_eq:
  assumes wf: "workshop_wf (uw_workshop u)" and idle: "idle_desk (uw_desk u)"
  shows "\<exists>e. hand_next fin u =
    (if \<forall>k \<in> set (fresh_nodes fin u). is_ok (delegate_admits (uw_desk u) (work_of (uw_workshop u) k))
     then (Inr (map (work_of (uw_workshop u)) (fresh_nodes fin u)), u\<lparr>uw_handed := uw_handed u \<union> set (fresh_nodes fin u)\<rparr>)
     else (Inl e, u))"
proof -
  have "set (fresh_nodes fin u) \<subseteq> set (bt_keys (uw_workshop u))"
    using ready_facts(1) [OF wf, of fin] by (auto simp: fresh_nodes_def)
  from ask_each_eq [OF this] obtain r asked where
    ask: "ask_each (fresh_nodes fin u) u = (r, u\<lparr>uw_desk := (uw_desk u)\<lparr>dd_asked := asked\<rparr>\<rparr>)"
      "is_ok r \<longrightarrow> asked = dd_asked (uw_desk u) @ map (work_of (uw_workshop u)) (fresh_nodes fin u)"
      "is_ok r \<longleftrightarrow> (\<forall>k \<in> set (fresh_nodes fin u). is_ok (delegate_admits (uw_desk u) (work_of (uw_workshop u) k)))"
    by blast
  have reset: "(uw_desk u)\<lparr>dd_handed_over := 0, dd_asked := []\<rparr> = uw_desk u"
    using idle by (cases "uw_desk u") (simp add: idle_desk_def)
  have "hand_next fin u = (case r of
      Inr _ \<Rightarrow> (Inr asked, u\<lparr>uw_handed := uw_handed u \<union> set (fresh_nodes fin u)\<rparr>) | Inl e \<Rightarrow> (Inl e, u))"
    using ask(1) reset
    by (cases r) (simp_all add: hand_next_def fresh_nodes_def [symmetric] Let_def delegate_take_def)
  then show ?thesis using ask(2,3) idle by (cases r) (auto simp: idle_desk_def)
qed


section \<open>Runs of a graph\<close>

inductive graph_run :: "underway \<Rightarrow> underway \<Rightarrow> (work_id set \<times> delegated list) list \<Rightarrow> bool" for u0 where
  laid: "graph_run u0 u0 []"
| handed: "graph_run u0 u log \<Longrightarrow> hand_next fin u = (Inr works, u') \<Longrightarrow> graph_run u0 u' (log @ [(fin, works)])"
| refused: "graph_run u0 u log \<Longrightarrow> hand_next fin u = (Inl e, u') \<Longrightarrow> graph_run u0 u' log"

definition run_says :: "underway \<Rightarrow> underway \<Rightarrow> (work_id set \<times> delegated list) list \<Rightarrow> work_id list list \<Rightarrow> bool" where
  "run_says u0 u log idss \<longleftrightarrow>
     uw_workshop u = uw_workshop u0 \<and> uw_desk u = uw_desk u0 \<and>
     map snd log = map (map (work_of (uw_workshop u0))) idss \<and> distinct (concat idss) \<and>
     uw_handed u = uw_handed u0 \<union> set (concat idss) \<and> uw_handed u0 \<inter> set (concat idss) = {} \<and>
     (\<forall>i < length log. \<forall>k \<in> set (idss ! i). k \<in> set (bt_keys (uw_workshop u0)) \<and> k \<notin> fst (log ! i) \<and>
        set (needs (uw_workshop u0) k) \<subseteq> fst (log ! i))"

lemma run_says_length: "run_says u0 u log idss \<Longrightarrow> length log = length idss"
  unfolding run_says_def by (metis length_map)

lemma graph_run_says:
  assumes "graph_run u0 u log" and wf: "workshop_wf (uw_workshop u0)" and idle: "idle_desk (uw_desk u0)"
  shows "\<exists>idss. run_says u0 u log idss"
  using assms(1)
proof (induction rule: graph_run.induct)
  case laid
  show ?case by (rule exI [of _ "[]"]) (simp add: run_says_def)
next
  case (handed u log fin works u')
  then obtain idss where says: "run_says u0 u log idss" by blast
  let ?fresh = "fresh_nodes fin u"
  have same: "uw_workshop u = uw_workshop u0" "uw_desk u = uw_desk u0" using says by (simp_all add: run_says_def)
  then have u: "workshop_wf (uw_workshop u)" "idle_desk (uw_desk u)" using wf idle by simp_all
  have next_u: "works = map (work_of (uw_workshop u)) ?fresh" "u' = u\<lparr>uw_handed := uw_handed u \<union> set ?fresh\<rparr>"
    using hand_next_eq [OF u, of fin] handed.hyps(2) by (auto split: if_splits)
  have fresh: "distinct ?fresh" "set ?fresh \<inter> uw_handed u = {}"
    "\<And>k. k \<in> set ?fresh \<Longrightarrow> k \<in> set (bt_keys (uw_workshop u0)) \<and> k \<notin> fin \<and> set (needs (uw_workshop u0) k) \<subseteq> fin"
    using ready_facts [OF u(1), of fin] by (auto simp: fresh_nodes_def same)
  note len = run_says_length [OF says]
  have "distinct (concat (idss @ [?fresh]))" "uw_handed u0 \<inter> set (concat (idss @ [?fresh])) = {}"
    "uw_handed u' = uw_handed u0 \<union> set (concat (idss @ [?fresh]))"
    using says fresh(1,2) by (auto simp: run_says_def next_u)
  moreover have "map snd (log @ [(fin, works)]) = map (map (work_of (uw_workshop u0))) (idss @ [?fresh])"
    using says by (simp add: run_says_def next_u same)
  moreover have "\<forall>i < length (log @ [(fin, works)]). \<forall>k \<in> set ((idss @ [?fresh]) ! i).
      k \<in> set (bt_keys (uw_workshop u0)) \<and> k \<notin> fst ((log @ [(fin, works)]) ! i) \<and>
      set (needs (uw_workshop u0) k) \<subseteq> fst ((log @ [(fin, works)]) ! i)"
    using says fresh(3) len by (auto simp: run_says_def nth_append less_Suc_eq)
  ultimately have "run_says u0 u' (log @ [(fin, works)]) (idss @ [?fresh])"
    unfolding run_says_def using same by (simp add: next_u)
  then show ?case by blast
next
  case (refused u log fin e u')
  then obtain idss where says: "run_says u0 u log idss" by blast
  then have "workshop_wf (uw_workshop u)" "idle_desk (uw_desk u)" using wf idle by (simp_all add: run_says_def)
  from hand_next_eq [OF this, of fin] refused.hyps(2) have "u' = u" by (auto split: if_splits)
  then show ?case using says by blast
qed

text \<open>While a node is left and all that was handed down has come back, some node is ready.\<close>

lemma some_node_is_ready:
  assumes wf: "workshop_wf nodes" and closed: "closed nodes" and acyclic: "acyclic (dep_edges nodes)"
    and left: "k0 \<in> set (bt_keys nodes)" "k0 \<notin> fin"
  shows "workshop_ready nodes fin \<noteq> []"
proof -
  have "dep_edges nodes \<subseteq> set (bt_keys nodes) \<times> set (bt_keys nodes)"
    using closed needs_outside [of _ nodes] by (fastforce simp: dep_edges_def closed_def)
  then have "finite (dep_edges nodes)" by (rule finite_subset) simp
  then have "wf ((dep_edges nodes)\<inverse>)" using acyclic by (simp add: finite_acyclic_wf_converse)
  from wfE_min [OF this, of k0 "set (bt_keys nodes) - fin"] left obtain k where
    k: "k \<in> set (bt_keys nodes) - fin" "\<And>need. (need, k) \<in> (dep_edges nodes)\<inverse> \<Longrightarrow> need \<notin> set (bt_keys nodes) - fin" by blast
  have "set (needs nodes k) \<subseteq> fin" using k(2) closed by (force simp: dep_edges_def closed_def)
  then have "k \<in> set (workshop_ready nodes fin)" using k(1) ready_facts(1) [OF wf] by simp
  then show ?thesis by auto
qed

text \<open>C15. A graph that was laid out is handed down once and to the end. Over any calls of \<open>hand_next\<close>, whatever is
  said to be finished at each and whichever of them are refused, the work handed out is that of distinct
  nodes of the graph, none of which the room had handed down before, each with all its dependencies
  finished at its call and not finished itself, and what counts as handed is exactly that. Whenever
  everything handed down has come back and the graph is not joined, the next call hands something down, if the
  delegation desk admits the nodes.\<close>

theorem graph_is_handed_down_once:
  assumes "\<forall>c \<in> set cs. distinct (nc_depends_on c)" and "workshop_new cs = Inr nodes"
    and "graph_run \<lparr>uw_workshop = nodes, uw_handed = before, uw_desk = delegate_beside delegates\<rparr> u log"
  shows "(\<exists>idss. map snd log = map (map (\<lambda>k. node_work (the (bt_get nodes k)))) idss \<and> distinct (concat idss) \<and>
      before \<inter> set (concat idss) = {} \<and> uw_handed u = before \<union> set (concat idss) \<and>
      (\<forall>i < length log. \<forall>c \<in> set cs. nc_id c \<in> set (idss ! i) \<longrightarrow>
         nc_id c \<notin> fst (log ! i) \<and> set (nc_depends_on c) \<subseteq> fst (log ! i)) \<and>
      set (concat idss) \<subseteq> nc_id ` set cs) \<and>
    (\<forall>fin. uw_handed u \<subseteq> fin \<and> \<not> is_joined fin u \<and> (\<forall>c \<in> set cs. is_ok (delegate_admits delegates (node_work c))) \<longrightarrow>
      (\<exists>works u'. hand_next fin u = (Inr works, u') \<and> works \<noteq> []))"
proof -
  let ?u0 = "\<lparr>uw_workshop = nodes, uw_handed = before, uw_desk = delegate_beside delegates\<rparr>"
  note acc = accepted [OF assms(2,1)]
  note pl = placed_contracts [OF acc(1) assms(1)]
  have idle: "idle_desk (delegate_beside delegates)" by (simp add: idle_desk_def delegate_beside_def delegate_desk_new_def)
  from graph_run_says [OF assms(3)] acc(2) idle obtain idss where says: "run_says ?u0 u log idss" by auto
  note len = run_says_length [OF says]
  have each: "nc_id c \<notin> fst (log ! i) \<and> set (nc_depends_on c) \<subseteq> fst (log ! i)"
    if "i < length log" "c \<in> set cs" "nc_id c \<in> set (idss ! i)" for i c
  proof -
    have "nc_id c \<notin> fst (log ! i) \<and> set (needs nodes (nc_id c)) \<subseteq> fst (log ! i)"
      using says that unfolding run_says_def by simp
    then show ?thesis unfolding pl(6) [OF that(2)] .
  qed
  have "set (idss ! i) \<subseteq> nc_id ` set cs" if "i < length idss" for i
    using says that len unfolding run_says_def pl(3) [symmetric] by auto
  then have "\<forall>ids \<in> set idss. set ids \<subseteq> nc_id ` set cs" by (metis in_set_conv_nth)
  then have inside: "set (concat idss) \<subseteq> nc_id ` set cs" by auto
  have goes_on: "\<exists>works u'. hand_next fin u = (Inr works, u') \<and> works \<noteq> []"
    if home: "uw_handed u \<subseteq> fin" "\<not> is_joined fin u" and admits: "\<forall>c \<in> set cs. is_ok (delegate_admits delegates (node_work c))" for fin
  proof -
    have u: "uw_workshop u = nodes" "uw_desk u = delegate_beside delegates" using says by (simp_all add: run_says_def)
    obtain k0 where "k0 \<in> set (bt_keys nodes)" "k0 \<notin> fin" using home(2) acc(4) by (auto simp: is_joined_def u)
    from some_node_is_ready [OF acc(2,3,5) this] obtain k1 where k1: "k1 \<in> set (workshop_ready nodes fin)"
      by (cases "workshop_ready nodes fin") auto
    then have "k1 \<notin> uw_handed u" using home(1) ready_facts(1) [OF acc(2), of fin] by auto
    with k1 have "k1 \<in> set (fresh_nodes fin u)" by (simp add: fresh_nodes_def u)
    then have "fresh_nodes fin u \<noteq> []" by auto
    moreover have "is_ok (delegate_admits (uw_desk u) (work_of nodes k))" if "k \<in> set (fresh_nodes fin u)" for k
    proof -
      have "k \<in> set (bt_keys nodes)" using that ready_facts(1) [OF acc(2), of fin] by (auto simp: fresh_nodes_def u)
      then obtain c where c: "bt_get nodes k = Some c" by (auto simp: bt_keys_iff)
      then have "(k, c) \<in> set nodes" using acc(2) by (simp add: workshop_wf_def bt_entry_get)
      then have "c \<in> set cs" using pl(2) by force
      then show ?thesis
        using admits c by (simp add: u work_of_def)
    qed
    ultimately show ?thesis
      using hand_next_eq [of u fin] acc(2) idle by (simp add: u)
  qed
  have "map snd log = map (map (\<lambda>k. node_work (the (bt_get nodes k)))) idss" "distinct (concat idss)"
    "before \<inter> set (concat idss) = {}" "uw_handed u = before \<union> set (concat idss)"
    using says unfolding run_says_def work_of_def by simp_all
  then show ?thesis using each inside goes_on by (intro conjI exI [of _ idss]) blast+
qed

definition sample_delegates :: delegate_desk where
  "sample_delegates = delegate_desk_new Root (Address (lit ''h'')) (\<lambda>_. Inr ())"

theorem graph_is_handed_down_once_witness:
  "\<exists>nodes works u'. workshop_new [sample_contract ''b'' [''a''], sample_contract ''a'' []] = Inr nodes \<and>
     hand_next {} \<lparr>uw_workshop = nodes, uw_handed = {}, uw_desk = delegate_beside sample_delegates\<rparr> = (Inr works, u') \<and> works \<noteq> []"
proof -
  let ?cs = "[sample_contract ''b'' [''a''], sample_contract ''a'' []]"
  have "is_ok (workshop_new ?cs)" by code_simp
  then obtain nodes where ok: "workshop_new ?cs = Inr nodes" by (auto simp: is_ok_iff)
  let ?u = "\<lparr>uw_workshop = nodes, uw_handed = {}, uw_desk = delegate_beside sample_delegates\<rparr>"
  have d: "\<forall>c \<in> set ?cs. distinct (nc_depends_on c)" by (simp add: sample_contract_def)
  have admits: "\<forall>c \<in> set ?cs. is_ok (delegate_admits sample_delegates (node_work c))" by code_simp
  have "set (workshop_order nodes) = nc_id ` set ?cs"
    using accepted(4) [OF ok d] placed_contracts(3) [OF accepted(1) [OF ok d] d] by simp
  then have "\<not> is_joined {} ?u" by (auto simp: is_joined_def)
  then show ?thesis
    using graph_is_handed_down_once [OF d ok graph_run.laid, of "{}" sample_delegates] admits ok by auto
qed


section \<open>The join\<close>

text \<open>
  A join made of verified results alone: each of them was checked by somebody else than its producer. A
  verdict is admitted exactly when the answer is the content of the first artifact, but for a final line
  feed, and names every node that joined.
\<close>

definition join_of :: "artifact list \<Rightarrow> fan_in" where
  "join_of as = fold fan_accept as bt_empty"

lemma join_of_wf: "bt_wf (join_of as)"
proof -
  have "bt_wf m \<Longrightarrow> bt_wf (fold fan_accept as m)" for m
    by (induction as arbitrary: m) (simp_all add: fan_accept_def bt_wf_insert)
  then show ?thesis using bt.wf_empty by (simp add: join_of_def)
qed

lemma join_of_entry: "(k, a) \<in> set (join_of as) \<Longrightarrow> a \<in> set as \<and> fc_node (af_claim a) = k"
proof -
  have "bt_wf m \<Longrightarrow> bt_get (fold fan_accept as m) k = Some a \<Longrightarrow> bt_get m k = Some a \<or> a \<in> set as \<and> fc_node (af_claim a) = k" for m
  proof (induction as arbitrary: m)
    case (Cons b as)
    have "bt_wf (fan_accept b m)" using Cons.prems(1) by (simp add: fan_accept_def bt_wf_insert)
    from Cons.IH [OF this] Cons.prems(2) show ?case by (auto simp: fan_accept_def bt_get_insert split: if_splits)
  qed simp
  from this [OF bt.wf_empty] show "(k, a) \<in> set (join_of as) \<Longrightarrow> ?thesis"
    using bt_entry_get [OF join_of_wf] by (simp add: join_of_def bt.get_empty)
qed

lemma verified_by_another: "verified passed verifier c = Inr a \<Longrightarrow> passed \<and> af_verified_by a \<noteq> fc_by (af_claim a) \<and> af_claim a = c"
  by (auto simp: verified_def split: if_splits)

lemma join_is_judged_by_a_reader:
  assumes "\<forall>a \<in> set as. \<exists>passed verifier c. verified passed verifier c = Inr a"
  shows "(\<forall>(k, a) \<in> set (join_of as). af_verified_by a \<noteq> fc_by (af_claim a)) \<and>
    (fan_decide hf given (join_of as) = Inr ids \<longleftrightarrow>
       (\<exists>k a rest. join_of as = (k, a) # rest \<and> artifact_holds hf a given) \<and> ids = bt_keys (join_of as))"
proof
  show "\<forall>(k, a) \<in> set (join_of as). af_verified_by a \<noteq> fc_by (af_claim a)"
    using join_of_entry assms verified_by_another by fastforce
  show "fan_decide hf given (join_of as) = Inr ids \<longleftrightarrow>
       (\<exists>k a rest. join_of as = (k, a) # rest \<and> artifact_holds hf a given) \<and> ids = bt_keys (join_of as)"
    by (cases "join_of as") (auto simp: fan_decide_def fan_question_def Let_def bt_get_def split: if_splits)
qed

end
