(* ===== verification/CasStores.thy ===== *)
theory CasStores
  imports LedgerWriting
begin

text \<open>
  The content-addressed store (\<open>storage::cas\<close>, \<open>cas.rs\<close> and \<open>cas/ranges.rs\<close>) over any disk of the seam.
  blake3 and the number of the process are arguments. The count of the puts a process has begun is
  a counter all its handles share, so it is part of the state every operation is run on.
\<close>


section \<open>Names\<close>

record cas_env =
  ce_blake3 :: "bytes \<Rightarrow> bytes"
  ce_pid :: nat

record 'd cas =
  cs_disk :: 'd
  cs_puts_begun :: nat

definition cas_hash :: "cas_env \<Rightarrow> bytes \<Rightarrow> b3hash" where
  "cas_hash env bs = B3Hash (ce_blake3 env bs)"

definition show_hash :: "b3hash \<Rightarrow> rstr" where
  "show_hash h = write_hex (b3_bytes h)"

text \<open>The directory and the file of an object: \<open>hex.get(..2).unwrap_or("00")\<close> names the shard.\<close>

definition shard_of :: "b3hash \<Rightarrow> rstr" where
  "shard_of h = (if length (show_hash h) < 2 then lit ''00'' else take 2 (show_hash h))"

definition object_path :: "path \<Rightarrow> b3hash \<Rightarrow> path \<times> path" where
  "object_path dir h =
     (let shard_dir = dir @ [lit ''b3''] @ [shard_of h] in (shard_dir, shard_dir @ [show_hash h]))"

definition tmp_name :: "cas_env \<Rightarrow> b3hash \<Rightarrow> nat \<Rightarrow> rstr" where
  "tmp_name env h count =
     show_hash h @ lit ''.'' @ show_nat (ce_pid env) @ lit ''.'' @ show_nat count @ lit ''.part''"

text \<open>\<open>fetch_add\<close> on an \<open>AtomicU64\<close> wraps.\<close>

definition next_tmp :: "cas_env \<Rightarrow> b3hash \<Rightarrow> 'd cas \<Rightarrow> rstr \<times> 'd cas" where
  "next_tmp env h st =
     (tmp_name env h (cs_puts_begun st), st\<lparr>cs_puts_begun := (cs_puts_begun st + 1) mod (u64_max + 1)\<rparr>)"

definition written_here :: "cas_env \<Rightarrow> path \<Rightarrow> bool" where
  "written_here env p \<longleftrightarrow>
     p \<noteq> [] \<and> (case split_on 46 (last p) of _ # writer # _ \<Rightarrow> writer = show_nat (ce_pid env) | _ \<Rightarrow> False)"


section \<open>The store\<close>

definition on_disk :: "('d \<Rightarrow> 'a storage_result \<times> 'd) \<Rightarrow> ('d cas, 'a) step" where
  "on_disk f st = (case f (cs_disk st) of (r, d) \<Rightarrow> (r, st\<lparr>cs_disk := d\<rparr>))"

definition disk_op :: "rstr \<Rightarrow> path \<Rightarrow> ('d, 'a) io \<Rightarrow> ('d cas, 'a) step" where
  "disk_op name p io = on_disk (\<lambda>d. at_op name p (io d))"

definition sweep :: "'d vfs \<Rightarrow> path \<Rightarrow> ('d cas, unit) step" where
  "sweep fs leftover = disk_op (lit ''sweep cas tmp'') leftover (vfs_remove_file fs leftover)"

definition cas_open :: "'d vfs \<Rightarrow> cas_env \<Rightarrow> path \<Rightarrow> ('d cas, unit) step" where
  "cas_open fs env dir st =
     (let objects = dir @ [lit ''b3'']; tmp = dir @ [lit ''tmp''] in
      step_then (disk_op (lit ''create cas dir'') objects (vfs_create_dir_all fs objects) st) (\<lambda>_ st.
      step_then (disk_op (lit ''create cas tmp dir'') tmp (vfs_create_dir_all fs tmp) st) (\<lambda>_ st.
      step_then (disk_op (lit ''list cas tmp'') tmp (vfs_list fs tmp) st) (\<lambda>leftovers st.
      each_step (sweep fs) (filter (\<lambda>leftover. \<not> written_here env leftover) leftovers) st))))"

definition cas_contains :: "'d vfs \<Rightarrow> path \<Rightarrow> b3hash \<Rightarrow> 'd cas \<Rightarrow> bool" where
  "cas_contains fs dir h st = vfs_exists fs (snd (object_path dir h)) (cs_disk st)"

definition cas_get :: "'d vfs \<Rightarrow> cas_env \<Rightarrow> path \<Rightarrow> b3hash \<Rightarrow> ('d cas, bytes) step" where
  "cas_get fs env dir h st =
     (let p = snd (object_path dir h) in
      if \<not> vfs_exists fs p (cs_disk st) then (Inl (StCasMissing (show_hash h)), st)
      else
        step_then (disk_op (lit ''read cas object'') p (vfs_read fs p) st) (\<lambda>bs st.
        if ce_blake3 env bs \<noteq> b3_bytes h then (Inl (StCasCorrupt (show_hash h) p), st)
        else (Inr bs, st)))"

text \<open>What \<open>write\<close> does once it knows that the object has to be written.\<close>

definition materialize :: "'d vfs \<Rightarrow> cas_env \<Rightarrow> path \<Rightarrow> b3hash \<Rightarrow> bytes \<Rightarrow> ('d cas, b3hash) step" where
  "materialize fs env dir h bs st =
     (case object_path dir h of (shard_dir, p) \<Rightarrow>
      step_then (disk_op (lit ''create cas shard'') shard_dir (vfs_create_dir_all fs shard_dir) st) (\<lambda>_ st.
      case next_tmp env h st of (name, st) \<Rightarrow>
      let tmp = dir @ [lit ''tmp''] @ [name] in
      step_then
        (if vfs_exists fs tmp (cs_disk st) then disk_op (lit ''reset cas tmp'') tmp (vfs_truncate fs tmp 0) st
         else (Inr (), st)) (\<lambda>_ st.
      step_then (disk_op (lit ''write cas tmp'') tmp (vfs_append fs tmp bs) st) (\<lambda>_ st.
      step_then (disk_op (lit ''sync cas tmp'') tmp (vfs_sync_data fs tmp) st) (\<lambda>_ st.
      step_then (disk_op (lit ''rename cas object'') p (vfs_rename fs tmp p) st) (\<lambda>_ st.
      step_then (disk_op (lit ''make cas object read-only'') p (vfs_make_readonly fs p) st) (\<lambda>_ st.
      step_then (disk_op (lit ''sync cas shard'') shard_dir (vfs_sync_dir fs shard_dir) st) (\<lambda>_ st.
      (Inr h, st)))))))))"

definition cas_write :: "'d vfs \<Rightarrow> cas_env \<Rightarrow> path \<Rightarrow> bytes \<Rightarrow> bool \<Rightarrow> ('d cas, b3hash) step" where
  "cas_write fs env dir bs repair st =
     (let h = cas_hash env bs in
      if vfs_exists fs (snd (object_path dir h)) (cs_disk st) then
        if \<not> repair then (Inr h, st)
        else
          (case cas_get fs env dir h st of
             (Inr _, st) \<Rightarrow> (Inr h, st)
           | (Inl (StCasCorrupt _ _), st) \<Rightarrow> materialize fs env dir h bs st
           | (Inl stopped, st) \<Rightarrow> (Inl stopped, st))
      else materialize fs env dir h bs st)"

definition cas_put :: "'d vfs \<Rightarrow> cas_env \<Rightarrow> path \<Rightarrow> bytes \<Rightarrow> ('d cas, b3hash) step" where
  "cas_put fs env dir bs = cas_write fs env dir bs False"

definition cas_put_repair :: "'d vfs \<Rightarrow> cas_env \<Rightarrow> path \<Rightarrow> bytes \<Rightarrow> ('d cas, b3hash) step" where
  "cas_put_repair fs env dir bs = cas_write fs env dir bs True"

definition cas_size :: "'d vfs \<Rightarrow> path \<Rightarrow> b3hash \<Rightarrow> ('d cas, nat) step" where
  "cas_size fs dir h st =
     (let p = snd (object_path dir h) in
      if \<not> vfs_exists fs p (cs_disk st) then (Inl (StCasMissing (show_hash h)), st)
      else disk_op (lit ''measure cas object'') p (vfs_size fs p) st)"


section \<open>Ranges\<close>

definition SCAN_CHUNK_BYTES :: nat where
  "SCAN_CHUNK_BYTES = 64 * 1024"

definition out_of_bounds :: "b3hash \<Rightarrow> storage_error" where
  "out_of_bounds h = RangeOutOfBounds (show_hash h)"

definition bytes_of :: "'d vfs \<Rightarrow> path \<Rightarrow> b3hash \<Rightarrow> nat \<Rightarrow> nat \<Rightarrow> ('d, bytes) step" where
  "bytes_of fs p h lo hi d =
     (if hi < lo \<or> hi - lo + 1 > u64_max then (Inl (out_of_bounds h), d)
      else
        step_then (at_op (lit ''read cas range'') p (vfs_read_at fs p lo (hi - lo + 1) d)) (\<lambda>bs d.
        if length bs \<noteq> hi - lo + 1 then (Inl (out_of_bounds h), d) else (Inr bs, d)))"

text \<open>What the scan carries from byte to byte: the line it is in, whether that line has a byte, and what was picked.\<close>

record line_scan =
  ls_line :: nat
  ls_started :: bool
  ls_picked :: bytes

text \<open>One byte: \<open>None\<close> when it ends the last line asked for.\<close>

definition scan_line_byte :: "nat \<Rightarrow> nat \<Rightarrow> nat \<Rightarrow> line_scan \<Rightarrow> line_scan option" where
  "scan_line_byte lo hi b s =
     (if b \<noteq> 10 then
        Some (s\<lparr>ls_started := True, ls_picked := (if lo \<le> ls_line s \<and> ls_line s \<le> hi then ls_picked s @ [b] else ls_picked s)\<rparr>)
      else if ls_line s = hi then None
      else
        Some (s\<lparr>ls_line := sat_add u64_max (ls_line s) 1, ls_started := False,
          ls_picked := (if lo \<le> ls_line s then ls_picked s @ [10] else ls_picked s)\<rparr>))"

text \<open>The bytes of a chunk: \<open>Inl\<close> is the answer the scan stopped with.\<close>

fun scan_chunk :: "nat \<Rightarrow> nat \<Rightarrow> bytes \<Rightarrow> line_scan \<Rightarrow> bytes + line_scan" where
  "scan_chunk lo hi [] s = Inr s"
| "scan_chunk lo hi (b # bs) s =
     (case scan_line_byte lo hi b s of None \<Rightarrow> Inl (ls_picked s) | Some s' \<Rightarrow> scan_chunk lo hi bs s')"

definition scan_ended :: "b3hash \<Rightarrow> nat \<Rightarrow> line_scan \<Rightarrow> bytes storage_result" where
  "scan_ended h hi s =
     (let count = (if ls_started s then ls_line s else ls_line s - 1) in
      if hi > count then Inl (out_of_bounds h) else Inr (ls_picked s))"

partial_function (option) lines_loop ::
  "'d vfs \<Rightarrow> path \<Rightarrow> b3hash \<Rightarrow> nat \<Rightarrow> nat \<Rightarrow> nat \<Rightarrow> line_scan \<Rightarrow> 'd \<Rightarrow> (bytes storage_result \<times> 'd) option" where
  "lines_loop fs p h lo hi offset s d =
     (case at_op (lit ''read cas range'') p (vfs_read_at fs p offset SCAN_CHUNK_BYTES d) of
        (Inl e, d) \<Rightarrow> Some (Inl e, d)
      | (Inr chunk, d) \<Rightarrow>
          (case scan_chunk lo hi chunk s of
             Inl found \<Rightarrow> Some (Inr found, d)
           | Inr s \<Rightarrow>
               if length chunk < SCAN_CHUNK_BYTES then Some (scan_ended h hi s, d)
               else lines_loop fs p h lo hi (sat_add u64_max offset (length chunk)) s d))"

definition lines_of :: "'d vfs \<Rightarrow> path \<Rightarrow> b3hash \<Rightarrow> nat \<Rightarrow> nat \<Rightarrow> 'd \<Rightarrow> (bytes storage_result \<times> 'd) option" where
  "lines_of fs p h lo hi d =
     (if lo = 0 \<or> hi < lo then Some (Inl (out_of_bounds h), d)
      else lines_loop fs p h lo hi 0 \<lparr>ls_line = 1, ls_started = False, ls_picked = []\<rparr> d)"

definition of_object :: "'d vfs \<Rightarrow> path \<Rightarrow> b3hash \<Rightarrow> range \<Rightarrow> 'd \<Rightarrow> (bytes storage_result \<times> 'd) option" where
  "of_object fs p h rg d =
     (case rg of
        Bytes lo hi \<Rightarrow> Some (bytes_of fs p h lo hi d)
      | Lines lo hi \<Rightarrow> lines_of fs p h lo hi d)"

definition cas_get_range :: "'d vfs \<Rightarrow> path \<Rightarrow> b3hash \<Rightarrow> range \<Rightarrow> 'd cas \<Rightarrow> (bytes storage_result \<times> 'd cas) option" where
  "cas_get_range fs dir h rg st =
     (let p = snd (object_path dir h) in
      if \<not> vfs_exists fs p (cs_disk st) then Some (Inl (StCasMissing (show_hash h)), st)
      else map_option (\<lambda>(r, d). (r, st\<lparr>cs_disk := d\<rparr>)) (of_object fs p h rg (cs_disk st)))"

end
