(* ===== verification/CasDisks.thy ===== *)
theory CasDisks
  imports CasStores DiskReads
begin

text \<open>
  What the content-addressed store relies on when it writes through the seam, and that the power-loss
  adapter keeps it. A file is whole when the bytes a reader sees are those that survive a loss of
  power. Whatever a step does, a file it does not write stays whole or is gone, and stays for good
  once its directory entry was synced.
\<close>


section \<open>What the store relies on\<close>

context disk_view
begin

definition whole :: "'d \<Rightarrow> path \<Rightarrow> bytes \<Rightarrow> bool" where
  "whole d q bs \<longleftrightarrow> live d q = Some bs \<and> durable d q = Some bs"

definition stays :: "'d \<Rightarrow> 'd \<Rightarrow> path \<Rightarrow> bool" where
  "stays d d' q \<longleftrightarrow> (live d q = None \<longrightarrow> live d' q = None) \<and>
     (\<forall>bs. whole d q bs \<longrightarrow> whole d' q bs \<and> (entered d q \<longrightarrow> entered d' q) \<or> live d' q = None \<and> \<not> entered d q)"

text \<open>No file is seen whose entry a loss of power would take.\<close>

definition no_loose :: "'d \<Rightarrow> path \<Rightarrow> bool" where
  "no_loose d q \<longleftrightarrow> (live d q \<noteq> None \<longrightarrow> entered d q)"

lemma unchanged_stays: "unchanged d d' q \<Longrightarrow> stays d d' q"
  by (simp add: unchanged_def stays_def whole_def)

lemma stays_refl: "stays d d q"
  by (simp add: stays_def)

lemma stays_trans: "stays d d' q \<Longrightarrow> stays d' d'' q \<Longrightarrow> stays d d'' q"
  unfolding stays_def by metis

end

locale object_disk = disk_view live durable entered
  for live durable :: "'d \<Rightarrow> path \<Rightarrow> bytes option" and entered :: "'d \<Rightarrow> path \<Rightarrow> bool" +
  fixes fs :: "'d vfs" and wf :: "'d \<Rightarrow> bool" and lose :: "'d \<Rightarrow> 'd"
  assumes seen: "vfs_exists fs p d \<longleftrightarrow> live d p \<noteq> None"
    and create_aside: "wf d \<Longrightarrow> vfs_create_dir_all fs dir d = (r1, d') \<Longrightarrow> wf d' \<and> stays d d' q"
    and list_aside: "wf d \<Longrightarrow> vfs_list fs dir d = (r2, d') \<Longrightarrow>
      wf d' \<and> stays d d' q \<and> (\<forall>ps. r2 = Inr ps \<longrightarrow> (\<forall>p \<in> set ps. parent_is p dir))"
    and read_aside: "wf d \<Longrightarrow> vfs_read fs p d = (r3, d') \<Longrightarrow>
      wf d' \<and> stays d d' q \<and> (\<forall>bs. r3 = Inr bs \<longrightarrow> live d p = Some bs)"
    and size_aside: "wf d \<Longrightarrow> vfs_size fs p d = (r4, d') \<Longrightarrow> wf d' \<and> stays d d' q"
    and read_at_aside: "wf d \<Longrightarrow> vfs_read_at fs p at len d = (r3, d') \<Longrightarrow> wf d' \<and> stays d d' q"
    and truncate_aside: "wf d \<Longrightarrow> vfs_truncate fs p n d = (r1, d') \<Longrightarrow> wf d' \<and> (q \<noteq> p \<longrightarrow> stays d d' q)"
    and truncate_sets: "wf d \<Longrightarrow> vfs_truncate fs p n d = (Inr u, d') \<Longrightarrow> live d' p = map_option (resize n) (live d p)"
    and append_aside: "wf d \<Longrightarrow> vfs_append fs p bs d = (r1, d') \<Longrightarrow> wf d' \<and> (q \<noteq> p \<longrightarrow> stays d d' q)"
    and append_sets: "wf d \<Longrightarrow> vfs_append fs p bs d = (Inr u, d') \<Longrightarrow>
      live d' p = Some ((case live d p of None \<Rightarrow> [] | Some l \<Rightarrow> l) @ bs)"
    and sync_aside: "wf d \<Longrightarrow> vfs_sync_data fs p d = (r1, d') \<Longrightarrow> wf d' \<and> (q \<noteq> p \<longrightarrow> stays d d' q)"
    and sync_sets: "wf d \<Longrightarrow> vfs_sync_data fs p d = (Inr u, d') \<Longrightarrow> live d' p = live d p \<and> durable d' p = live d p"
    and rename_aside: "wf d \<Longrightarrow> vfs_rename fs p p' d = (r1, d') \<Longrightarrow> wf d' \<and> (q \<noteq> p \<and> q \<noteq> p' \<longrightarrow> stays d d' q)"
    and rename_sets: "wf d \<Longrightarrow> p \<noteq> p' \<Longrightarrow> vfs_rename fs p p' d = (Inr u, d') \<Longrightarrow>
      live d' p' = live d p \<and> durable d' p' = durable d p \<and> live d' p = None"
    and rename_fails: "wf d \<Longrightarrow> vfs_rename fs p p' d = (Inl e, d') \<Longrightarrow> live d' p' = None \<or> stays d d' p'"
    and readonly_aside: "wf d \<Longrightarrow> vfs_make_readonly fs p d = (r1, d') \<Longrightarrow> wf d' \<and> stays d d' q"
    and readonly_fails: "wf d \<Longrightarrow> vfs_make_readonly fs p d = (Inl e, d') \<Longrightarrow> live d p \<noteq> None \<Longrightarrow> no_loose d' q"
    and readonly_sets: "wf d \<Longrightarrow> vfs_make_readonly fs p d = (Inr u, d') \<Longrightarrow> live d' q = live d q \<and> durable d' q = durable d q"
    and sync_dir_aside: "wf d \<Longrightarrow> vfs_sync_dir fs dir d = (r1, d') \<Longrightarrow> wf d' \<and> stays d d' q"
    and sync_dir_sets: "wf d \<Longrightarrow> vfs_sync_dir fs dir d = (Inr u, d') \<Longrightarrow>
      live d' q = live d q \<and> (parent_is q dir \<or> entered d q \<longrightarrow> no_loose d' q)"
    and sync_dir_fails: "wf d \<Longrightarrow> vfs_sync_dir fs dir d = (Inl e, d') \<Longrightarrow> no_loose d' q"
    and remove_aside: "wf d \<Longrightarrow> vfs_remove_file fs p d = (r1, d') \<Longrightarrow> wf d' \<and> (q \<noteq> p \<longrightarrow> stays d d' q)"
    and lose_aside: "wf d \<Longrightarrow> wf (lose d) \<and> stays d (lose d) q"


section \<open>The power-loss adapter as such a disk\<close>

lemma settle_whole: "fs_live f = fs_durable f \<Longrightarrow> settle_file torn f = f"
proof -
  assume same: "fs_live f = fs_durable f"
  have "takeWhile (\<lambda>(a, b). a = b) (zip xs xs) = zip xs xs" for xs :: bytes
    by (induction xs) simp_all
  then show ?thesis
    by (cases f) (use same in \<open>simp add: settle_file_def split: torn_tail.splits\<close>)
qed

lemma cut_stays:
  assumes "ff_wf st" "ff_files st' = ff_files (cut st)"
  shows "ffv.stays st st' q" and "ffv.no_loose st' q"
proof -
  have get: "bt_get (ff_files st') q = (case bt_get (ff_files st) q of
        Some f \<Rightarrow> if fs_durable_entry f then Some (settle_file (plan_torn_tail (ff_plan st)) f) else None
      | None \<Rightarrow> None)"
    using bt_get_cut [OF assms(1)] by (simp add: assms(2))
  have entry: "fs_durable_entry (settle_file torn f) = fs_durable_entry f" for torn f
    by (simp add: settle_file_def Let_def)
  show "ffv.stays st st' q"
  proof (cases "bt_get (ff_files st) q")
    case None
    then show ?thesis by (simp add: ffv.stays_def ffv.whole_def ff_views get)
  next
    case (Some f)
    have get': "bt_get (ff_files st') q =
        (if fs_durable_entry f then Some (settle_file (plan_torn_tail (ff_plan st)) f) else None)"
      using get Some by simp
    show ?thesis
    proof (cases "fs_live f = fs_durable f")
      case True
      show ?thesis
        unfolding ffv.stays_def ffv.whole_def ff_views get' Some settle_whole [OF True] by simp
    next
      case False
      then show ?thesis
        unfolding ffv.stays_def ffv.whole_def ff_views get' Some by auto
    qed
  qed
  show "ffv.no_loose st' q"
    by (simp add: ffv.no_loose_def ff_views get entry split: option.splits)
qed

text \<open>A step that only changes what is counted, and one that may have lost power on the way.\<close>

lemma same_files_stays: "ff_files st' = ff_files st \<Longrightarrow> ffv.stays st st' q"
  by (rule ffv.unchanged_stays) (simp add: ffv.unchanged_def ff_views)

definition settles :: "fault_state \<Rightarrow> bool \<Rightarrow> fault_state \<Rightarrow> bool" where
  "settles st failed st' \<longleftrightarrow> ff_wf st' \<and> (\<forall>q. ffv.stays st st' q) \<and> (failed \<longrightarrow> (\<forall>q. ffv.no_loose st' q))"

lemma cut_settles:
  assumes "ff_wf st" "ff_files st' = ff_files (cut st0)" "ff_files st0 = ff_files st"
  shows "settles st failed st'"
proof -
  have wf: "ff_wf st0" using assms(1,3) by (simp add: ff_wf_def)
  have "ffv.stays st st' q" for q
    using ffv.stays_trans [OF same_files_stays [OF assms(3)] cut_stays(1) [OF wf assms(2)]] .
  then show ?thesis
    using cut_stays(2) [OF wf assms(2)] cut_step(2) [OF assms] by (simp add: settles_def)
qed

lemma same_files_settles: "ff_wf st \<Longrightarrow> ff_files st' = ff_files st \<Longrightarrow> settles st False st'"
  using same_files_stays [of st' st] by (simp add: settles_def ff_wf_def)

lemma charge_settles:
  assumes "ff_wf st" "charge op st = (r, st')"
  shows "settles st (\<not> is_ok r) st'"
proof (cases rule: charge_cases [of op st])
  case (ok st1)
  then show ?thesis using assms same_files_settles by simp
next
  case (err e st1 st0)
  then show ?thesis using assms cut_settles [OF assms(1)] by simp
qed

lemma charge_write_settles:
  assumes "ff_wf st" "charge_write bs op st = (r, st')"
  shows "settles st (\<not> is_ok r) st'"
proof (cases rule: charge_write_cases [of bs op st])
  case (ok st1)
  then show ?thesis using assms same_files_settles by simp
next
  case (err e st1 st0)
  then show ?thesis using assms cut_settles [OF assms(1)] by simp
qed

lemma settles_trans:
  "settles st False st1 \<Longrightarrow> settles st1 failed st2 \<Longrightarrow> settles st failed st2"
  unfolding settles_def using ffv.stays_trans by blast

text \<open>A step that writes one file before it is charged.\<close>

lemma put_file_stays: "q \<noteq> p \<Longrightarrow> ffv.stays st (put_file p f st) q"
  by (rule ffv.unchanged_stays) (simp add: ffv.unchanged_def put_file_views)

lemma charged_aside:
  assumes "ff_wf st1" "settles st1 failed st'" "\<And>q. q \<noteq> p \<Longrightarrow> ffv.stays st st1 q"
  shows "ff_wf st' \<and> (q \<noteq> p \<longrightarrow> ffv.stays st st' q)"
  using assms ffv.stays_trans unfolding settles_def by blast


lemma ff_create_aside:
  assumes "ff_wf st" "ff_create_dir_all dir st = (r, st')"
  shows "settles st (\<not> is_ok r) st'"
proof -
  define st1 where "st1 = st\<lparr>ff_dirs := bt_insert dir () (ff_dirs st)\<rparr>"
  have "settles st False st1" by (rule same_files_settles [OF assms(1)]) (simp add: st1_def)
  moreover have "settles st1 (\<not> is_ok r) st'"
    by (rule charge_settles) (use assms in \<open>simp_all add: st1_def ff_wf_def ff_create_dir_all_def\<close>)
  ultimately show ?thesis by (rule settles_trans)
qed

text \<open>The readers: a charge, and then nothing but a count.\<close>

lemma reader_aside:
  assumes "ff_wf st" "charge op st = (r1, st1)" "ff_files st' = ff_files st1"
  shows "settles st False st'"
proof -
  have "settles st False st1"
    using charge_settles [OF assms(1,2)] by (simp add: settles_def)
  moreover from this have "settles st1 False st'"
    using same_files_settles [OF _ assms(3)] by (simp add: settles_def)
  ultimately show ?thesis by (rule settles_trans)
qed

lemma ff_list_aside:
  assumes "ff_wf st" "ff_list dir st = (r, st')"
  shows "settles st False st' \<and> (\<forall>ps. r = Inr ps \<longrightarrow> (\<forall>p \<in> set ps. parent_is p dir))"
proof -
  obtain r1 st1 where c: "charge (lit ''list'') st = (r1, st1)" by fastforce
  have "st' = st1" "\<forall>ps. r = Inr ps \<longrightarrow> (\<forall>p \<in> set ps. parent_is p dir)"
    using assms(2) by (auto simp: ff_list_def c split: sum.splits)
  then show ?thesis using reader_aside [OF assms(1) c] by simp
qed

lemma ff_read_aside:
  assumes "ff_wf st" "ff_read p st = (r, st')"
  shows "settles st False st' \<and> (\<forall>bs. r = Inr bs \<longrightarrow> ff_live st p = Some bs)"
proof -
  obtain r1 st1 where c: "charge (lit ''read'') st = (r1, st1)" by fastforce
  have same: "ff_files st' = ff_files st1"
    using assms(2) by (auto simp: ff_read_def c counted_read_def split: sum.splits option.splits)
  have "ff_live st p = Some bs" if "r = Inr bs" for bs
    using assms(2) that charge_ok [of "lit ''read''" st _ st1]
    by (auto simp: ff_read_def c ff_live_def split: sum.splits option.splits)
  then show ?thesis using reader_aside [OF assms(1) c same] by simp
qed

lemma ff_size_aside:
  assumes "ff_wf st" "ff_size p st = (r, st')"
  shows "settles st False st'"
proof -
  obtain r1 st1 where c: "charge (lit ''size'') st = (r1, st1)" by fastforce
  have "ff_files st' = ff_files st1"
    using assms(2) by (auto simp: ff_size_def c split: sum.splits option.splits)
  then show ?thesis using reader_aside [OF assms(1) c] by simp
qed

lemma ff_read_at_aside:
  assumes "ff_wf st" "ff_read_at p at len st = (r, st')"
  shows "settles st False st'"
proof -
  obtain r1 st1 where c: "charge (lit ''read_at'') st = (r1, st1)" by fastforce
  have "ff_files st' = ff_files st1"
    using assms(2) by (auto simp: ff_read_at_def c counted_read_def Let_def split: sum.splits option.splits)
  then show ?thesis using reader_aside [OF assms(1) c] by simp
qed

text \<open>The writers of one file.\<close>

lemma ff_truncate_aside:
  assumes "ff_wf st" "ff_truncate p n st = (r, st')"
  shows "ff_wf st' \<and> (q \<noteq> p \<longrightarrow> ffv.stays st st' q)"
proof (cases "bt_get (ff_files st) p")
  case None
  then show ?thesis using assms by (simp add: ff_truncate_def ffv.stays_refl)
next
  case (Some f)
  show ?thesis
    by (rule charged_aside [OF put_file_wf [OF assms(1)] charge_settles [OF put_file_wf [OF assms(1)]] put_file_stays])
      (use assms(2) Some in \<open>simp_all add: ff_truncate_def\<close>)
qed

lemma ff_append_aside:
  assumes "ff_wf st" "ff_append p bs st = (r, st')"
  shows "ff_wf st' \<and> (q \<noteq> p \<longrightarrow> ffv.stays st st' q)"
  by (rule charged_aside [OF put_file_wf [OF assms(1)] charge_write_settles [OF put_file_wf [OF assms(1)]] put_file_stays])
    (use assms(2) in \<open>simp_all add: ff_append_def Let_def\<close>)

lemma ff_sync_data_aside:
  assumes "ff_wf st" "ff_sync_data p st = (r, st')"
  shows "ff_wf st' \<and> (q \<noteq> p \<longrightarrow> ffv.stays st st' q)"
proof -
  obtain r1 st1 where c: "charge (lit ''sync_data'') st = (r1, st1)" by fastforce
  have s: "settles st False st1" using charge_settles [OF assms(1) c] by (simp add: settles_def)
  have "st' = st1 \<or> (\<exists>f. st' = put_file p f st1)"
    using assms(2) by (auto simp: ff_sync_data_def c split: sum.splits option.splits)
  then show ?thesis
    using s put_file_wf [of st1] put_file_stays [of q p st1] ffv.stays_trans unfolding settles_def by blast
qed

lemma ff_remove_aside:
  assumes "ff_wf st" "ff_remove_file p st = (r, st')"
  shows "ff_wf st' \<and> (q \<noteq> p \<longrightarrow> ffv.stays st st' q)"
proof (cases "ff_exists p st")
  case False
  then show ?thesis using assms by (simp add: ff_remove_file_def ffv.stays_refl)
next
  case True
  define st1 where "st1 = st\<lparr>ff_files := bt_remove p (ff_files st)\<rparr>"
  have wf: "ff_wf st1" using assms(1) by (simp add: st1_def ff_wf_def bt_wf_remove)
  have aside: "ffv.stays st st1 q'" if "q' \<noteq> p" for q'
    by (rule ffv.unchanged_stays) (use that in \<open>simp add: st1_def ffv.unchanged_def ff_views map_simps\<close>)
  have "charge (lit ''remove_file'') st1 = (r, st')"
    using assms(2) True by (simp add: ff_remove_file_def st1_def)
  from charged_aside [OF wf charge_settles [OF wf this] aside] show ?thesis .
qed

lemma ff_readonly_aside:
  assumes "ff_wf st" "ff_make_readonly p st = (r, st')"
  shows "settles st (\<not> is_ok r \<and> ff_live st p \<noteq> None) st'"
proof (cases "ff_exists p st")
  case True
  then have "charge (lit ''make_readonly'') st = (r, st')"
    using assms(2) by (simp add: ff_make_readonly_def)
  from charge_settles [OF assms(1) this] show ?thesis by (simp add: settles_def)
next
  case False
  then show ?thesis
    using assms same_files_settles [OF assms(1)]
    by (auto simp: ff_make_readonly_def ff_exists_def ff_live_def settles_def)
qed

lemma ff_sync_dir_aside:
  assumes "ff_wf st" "ff_sync_dir dir st = (r, st')"
  shows "settles st (\<not> is_ok r) st'"
proof (cases r)
  case (Inl e)
  then have "charge (lit ''sync_dir'') st = (r, st')"
    using assms(2) by (auto simp: ff_sync_dir_def split: sum.splits prod.splits)
  from charge_settles [OF assms(1) this] show ?thesis .
next
  case (Inr u)
  note ok = ff_sync_dir_ok [OF assms(2) [unfolded Inr]]
  have "ff_wf st'" using ff_wf_steps(4) [OF assms] .
  then show ?thesis
    using ok by (simp add: Inr settles_def ffv.stays_def ffv.whole_def)
qed


lemma ff_rename_laws:
  assumes "ff_wf st" "ff_rename p p' st = (r, st')"
  shows "ff_wf st' \<and> (q \<noteq> p \<and> q \<noteq> p' \<longrightarrow> ffv.stays st st' q)"
    and "p \<noteq> p' \<Longrightarrow> r = Inr u \<Longrightarrow> ff_live st' p' = ff_live st p \<and> ff_durable st' p' = ff_durable st p \<and> ff_live st' p = None"
    and "r = Inl e \<Longrightarrow> ff_live st' p' = None \<or> ffv.stays st st' p'"
proof -
  have "(ff_wf st' \<and> (\<forall>q. q \<noteq> p \<and> q \<noteq> p' \<longrightarrow> ffv.stays st st' q)) \<and>
    (p \<noteq> p' \<and> r = Inr () \<longrightarrow> ff_live st' p' = ff_live st p \<and> ff_durable st' p' = ff_durable st p \<and> ff_live st' p = None) \<and>
    (\<not> is_ok r \<longrightarrow> ff_live st' p' = None \<or> ffv.stays st st' p')"
  proof (cases "bt_get (ff_files st) p")
    case None
    then show ?thesis using assms by (auto simp: ff_rename_def ffv.stays_refl)
  next
    case (Some f)
    define st1 where "st1 = put_file p' (f\<lparr>fs_durable_entry := False\<rparr>) (st\<lparr>ff_files := bt_remove p (ff_files st)\<rparr>)"
    have wf: "ff_wf st1"
      using assms(1) by (simp add: st1_def put_file_wf ff_wf_def bt_wf_remove put_file_def bt_wf_insert)
    have views: "ff_live st1 q = (if q = p' then Some (fs_live f) else if q = p then None else ff_live st q)"
      "ff_durable st1 q = (if q = p' then Some (fs_durable f) else if q = p then None else ff_durable st q)"
      "ff_entered st1 q = (if q = p' \<or> q = p then False else ff_entered st q)" for q
      by (auto simp: st1_def put_file_def ff_views map_simps)
    have source: "ff_live st p = Some (fs_live f)" "ff_durable st p = Some (fs_durable f)"
      using Some by (simp_all add: ff_views)
    have c: "charge (lit ''rename'') st1 = (r, st')"
      using assms(2) Some by (simp add: ff_rename_def st1_def)
    note s = charge_settles [OF wf c]
    have "ffv.stays st st1 q" if "q \<noteq> p" "q \<noteq> p'" for q
      using that by (intro ffv.unchanged_stays) (simp add: ffv.unchanged_def views)
    then have "ff_wf st' \<and> (\<forall>q. q \<noteq> p \<and> q \<noteq> p' \<longrightarrow> ffv.stays st st' q)"
      using s ffv.stays_trans unfolding settles_def by blast
    moreover have "ff_live st' p' = ff_live st p \<and> ff_durable st' p' = ff_durable st p \<and> ff_live st' p = None"
      if "p \<noteq> p'" "r = Inr ()"
      using that same_files_views [OF charge_ok [OF c [unfolded that(2)]]] source by (simp add: views)
    moreover have "ff_live st' p' = None" if failed: "\<not> is_ok r"
    proof -
      have "ffv.stays st1 st' p'" "ffv.no_loose st' p'" using s failed by (simp_all add: settles_def)
      moreover have "\<not> ff_entered st' p'"
      proof -
        obtain e where "r = Inl e" using failed by (cases r) simp_all
        from charge_err(1) [OF wf c [unfolded this], of p'] show ?thesis by (simp add: ffv.survives_def views)
      qed
      ultimately show ?thesis by (auto simp: ffv.no_loose_def)
    qed
    ultimately show ?thesis by blast
  qed
  then show "ff_wf st' \<and> (q \<noteq> p \<and> q \<noteq> p' \<longrightarrow> ffv.stays st st' q)"
    "p \<noteq> p' \<Longrightarrow> r = Inr u \<Longrightarrow> ff_live st' p' = ff_live st p \<and> ff_durable st' p' = ff_durable st p \<and> ff_live st' p = None"
    "r = Inl e \<Longrightarrow> ff_live st' p' = None \<or> ffv.stays st st' p'"
    by auto
qed

lemma fault_fs_more [simp]: "vfs_rename fault_fs = ff_rename" "vfs_make_readonly fault_fs = ff_make_readonly"
  by (simp_all add: fault_fs_def)

interpretation ffo: object_disk ff_live ff_durable ff_entered fault_fs ff_wf power_cut
proof (unfold_locales, unfold fault_fs_sel fault_fs_more)
  fix d d' :: fault_state and q p p' dir :: path and n at len :: nat and bs :: bytes
    and u :: unit and e :: io_error and r1 :: "io_error + unit" and r2 :: "io_error + path list"
    and r3 :: "io_error + bytes" and r4 :: "io_error + nat"
  show "ff_exists p d \<longleftrightarrow> ff_live d p \<noteq> None" by (simp add: ff_exists_def ff_live_def)
  assume wf: "ff_wf d"
  show "ff_create_dir_all dir d = (r1, d') \<Longrightarrow> ff_wf d' \<and> ffv.stays d d' q"
    using ff_create_aside [OF wf] by (simp add: settles_def)
  show "ff_list dir d = (r2, d') \<Longrightarrow>
      ff_wf d' \<and> ffv.stays d d' q \<and> (\<forall>ps. r2 = Inr ps \<longrightarrow> (\<forall>p \<in> set ps. parent_is p dir))"
    using ff_list_aside [OF wf] by (simp add: settles_def)
  show "ff_read p d = (r3, d') \<Longrightarrow> ff_wf d' \<and> ffv.stays d d' q \<and> (\<forall>bs. r3 = Inr bs \<longrightarrow> ff_live d p = Some bs)"
    using ff_read_aside [OF wf] by (simp add: settles_def)
  show "ff_size p d = (r4, d') \<Longrightarrow> ff_wf d' \<and> ffv.stays d d' q"
    using ff_size_aside [OF wf] by (simp add: settles_def)
  show "ff_read_at p at len d = (r3, d') \<Longrightarrow> ff_wf d' \<and> ffv.stays d d' q"
    using ff_read_at_aside [OF wf] by (simp add: settles_def)
  show "ff_truncate p n d = (r1, d') \<Longrightarrow> ff_wf d' \<and> (q \<noteq> p \<longrightarrow> ffv.stays d d' q)"
    by (rule ff_truncate_aside [OF wf])
  show "ff_truncate p n d = (Inr u, d') \<Longrightarrow> ff_live d' p = map_option (resize n) (ff_live d p)"
    using ff_truncate_ok [of p n d] by blast
  show "ff_append p bs d = (r1, d') \<Longrightarrow> ff_wf d' \<and> (q \<noteq> p \<longrightarrow> ffv.stays d d' q)"
    by (rule ff_append_aside [OF wf])
  show "ff_append p bs d = (Inr u, d') \<Longrightarrow> ff_live d' p = Some ((case ff_live d p of None \<Rightarrow> [] | Some l \<Rightarrow> l) @ bs)"
    using ff_append_ok [of p bs d] by blast
  show "ff_sync_data p d = (r1, d') \<Longrightarrow> ff_wf d' \<and> (q \<noteq> p \<longrightarrow> ffv.stays d d' q)"
    by (rule ff_sync_data_aside [OF wf])
  show "ff_sync_data p d = (Inr u, d') \<Longrightarrow> ff_live d' p = ff_live d p \<and> ff_durable d' p = ff_live d p"
    using ff_sync_data_ok [of p d] by blast
  show "ff_rename p p' d = (r1, d') \<Longrightarrow> ff_wf d' \<and> (q \<noteq> p \<and> q \<noteq> p' \<longrightarrow> ffv.stays d d' q)"
    by (rule ff_rename_laws(1) [OF wf])
  show "p \<noteq> p' \<Longrightarrow> ff_rename p p' d = (Inr u, d') \<Longrightarrow>
      ff_live d' p' = ff_live d p \<and> ff_durable d' p' = ff_durable d p \<and> ff_live d' p = None"
    using ff_rename_laws(2) [OF wf] by blast
  show "ff_rename p p' d = (Inl e, d') \<Longrightarrow> ff_live d' p' = None \<or> ffv.stays d d' p'"
    using ff_rename_laws(3) [OF wf] by blast
  show "ff_make_readonly p d = (r1, d') \<Longrightarrow> ff_wf d' \<and> ffv.stays d d' q"
    using ff_readonly_aside [OF wf] by (simp add: settles_def)
  show "ff_make_readonly p d = (Inl e, d') \<Longrightarrow> ff_live d p \<noteq> None \<Longrightarrow> ffv.no_loose d' q"
    using ff_readonly_aside [OF wf, of p "Inl e" d'] by (simp add: settles_def)
  show "ff_make_readonly p d = (Inr u, d') \<Longrightarrow> ff_live d' q = ff_live d q \<and> ff_durable d' q = ff_durable d q"
    using charge_ok [of _ d u d'] same_files_views [of d' d] by (auto simp: ff_make_readonly_def split: if_splits)
  show "ff_sync_dir dir d = (r1, d') \<Longrightarrow> ff_wf d' \<and> ffv.stays d d' q"
    using ff_sync_dir_aside [OF wf] by (simp add: settles_def)
  show "ff_sync_dir dir d = (Inr u, d') \<Longrightarrow>
      ff_live d' q = ff_live d q \<and> (parent_is q dir \<or> ff_entered d q \<longrightarrow> ffv.no_loose d' q)"
    using ff_sync_dir_ok [of dir d u d' q] by (auto simp: ffv.no_loose_def)
  show "ff_sync_dir dir d = (Inl e, d') \<Longrightarrow> ffv.no_loose d' q"
    using ff_sync_dir_aside [OF wf, of dir "Inl e" d'] by (simp add: settles_def)
  show "ff_remove_file p d = (r1, d') \<Longrightarrow> ff_wf d' \<and> (q \<noteq> p \<longrightarrow> ffv.stays d d' q)"
    by (rule ff_remove_aside [OF wf])
  show "ff_wf (power_cut d) \<and> ffv.stays d (power_cut d) q"
    using cut_settles [OF wf, of "power_cut d" d False] by (simp add: power_cut_def settles_def)
qed

end
