(* ===== verification/CasWrites.thy ===== *)
theory CasWrites
  imports CasDisks
begin

text \<open>
  What every call of the content-addressed store keeps, whatever the disk does: between two calls an
  object that is seen holds the bytes its name is the hash of, on both planes, under an entry that is
  synced, and an object that is there stays as it is.
\<close>


section \<open>Objects and temporary files\<close>

definition hash_wf :: "b3hash \<Rightarrow> bool" where
  "hash_wf h \<longleftrightarrow> bytes_wf 32 (b3_bytes h)"

abbreviation object_file :: "path \<Rightarrow> b3hash \<Rightarrow> path" where
  "object_file dir h \<equiv> snd (object_path dir h)"

abbreviation tmp_file :: "path \<Rightarrow> rstr \<Rightarrow> path" where
  "tmp_file dir name \<equiv> dir @ [lit ''tmp'', name]"

lemma object_file_def: "object_file dir h = dir @ [lit ''b3'', shard_of h, show_hash h]"
  by (simp add: object_path_def Let_def)

lemma object_not_tmp [simp]: "object_file dir h \<noteq> tmp_file dir name" "tmp_file dir name \<noteq> object_file dir h"
  by (simp_all add: object_file_def)

lemma object_not_in_tmp: "parent_is q (dir @ [lit ''tmp'']) \<Longrightarrow> object_file dir h \<noteq> q"
  by (auto simp: object_file_def parent_is_def butlast_append)

lemma object_file_inj:
  assumes "hash_wf h" "hash_wf h'" "object_file dir h = object_file dir h'"
  shows "h = h'"
proof -
  have "write_hex (b3_bytes h) = write_hex (b3_bytes h')"
    using assms(3) by (simp add: object_file_def show_hash_def)
  then have "b3_bytes h = b3_bytes h'"
    using assms(1,2) decode_pairs_write_hex unfolding hash_wf_def bytes_wf_def by (metis option.inject)
  then show ?thesis by (simp add: b3hash.expand)
qed

lemma object_parent: "parent_is (object_file dir h) (fst (object_path dir h))"
  by (simp add: object_path_def parent_is_def Let_def butlast_append)

text \<open>A step through the seam, seen on the disk.\<close>

lemma disk_op_cases:
  assumes "disk_op name p io st = (r, st')"
  obtains (failed) e d' where "io (cs_disk st) = (Inl e, d')" "r = Inl (io_err name p e)" "st' = st\<lparr>cs_disk := d'\<rparr>"
  | (passed) v d' where "io (cs_disk st) = (Inr v, d')" "r = Inr v" "st' = st\<lparr>cs_disk := d'\<rparr>"
proof -
  obtain r0 d' where io: "io (cs_disk st) = (r0, d')" by fastforce
  then show thesis
    using assms failed passed by (cases r0) (auto simp: disk_op_def on_disk_def at_op_def)
qed

lemma step_then_cases:
  assumes "step_then m f = (r, s')"
  obtains (stop) e s where "m = (Inl e, s)" "r = Inl e" "s' = s" | (go) v s where "m = (Inr v, s)" "f v s = (r, s')"
  using assms by (cases m; cases "fst m") (auto simp: step_then_def)


section \<open>What every call keeps\<close>

context object_disk
begin

definition object_ok :: "(bytes \<Rightarrow> bytes) \<Rightarrow> path \<Rightarrow> b3hash \<Rightarrow> 'd \<Rightarrow> bool" where
  "object_ok hf dir h d \<longleftrightarrow>
     (\<forall>l. live d (object_file dir h) = Some l \<longrightarrow>
        whole d (object_file dir h) l \<and> entered d (object_file dir h) \<and> hf l = b3_bytes h)"

definition store_ok :: "(bytes \<Rightarrow> bytes) \<Rightarrow> path \<Rightarrow> 'd \<Rightarrow> bool" where
  "store_ok hf dir d \<longleftrightarrow> wf d \<and> (\<forall>h. hash_wf h \<longrightarrow> object_ok hf dir h d)"

text \<open>The objects that were there are there, as they were.\<close>

definition evolves :: "(bytes \<Rightarrow> bytes) \<Rightarrow> path \<Rightarrow> 'd \<Rightarrow> 'd \<Rightarrow> bool" where
  "evolves hf dir d d' \<longleftrightarrow> store_ok hf dir d' \<and>
     (\<forall>h l. hash_wf h \<longrightarrow> live d (object_file dir h) = Some l \<longrightarrow> live d' (object_file dir h) = Some l)"

lemma evolves_refl: "store_ok hf dir d \<Longrightarrow> evolves hf dir d d"
  by (simp add: evolves_def)

lemma evolves_trans: "evolves hf dir d d' \<Longrightarrow> evolves hf dir d' d'' \<Longrightarrow> evolves hf dir d d''"
  by (simp add: evolves_def)

lemma stays_object:
  assumes "object_ok hf dir h d" and "stays d d' (object_file dir h)"
  shows "object_ok hf dir h d'" and "live d' (object_file dir h) = live d (object_file dir h)"
proof -
  show same: "live d' (object_file dir h) = live d (object_file dir h)"
    using assms by (cases "live d (object_file dir h)") (auto simp: stays_def object_ok_def whole_def)
  show "object_ok hf dir h d'"
    unfolding object_ok_def same
  proof (intro allI impI)
    fix l
    assume "live d (object_file dir h) = Some l"
    then have "whole d (object_file dir h) l" "entered d (object_file dir h)" "hf l = b3_bytes h"
      using assms(1) by (auto simp: object_ok_def)
    then show "whole d' (object_file dir h) l \<and> entered d' (object_file dir h) \<and> hf l = b3_bytes h"
      using assms(2) unfolding stays_def by blast
  qed
qed

lemma evolves_aside:
  assumes "store_ok hf dir d" and "wf d'" and "\<And>h. hash_wf h \<Longrightarrow> stays d d' (object_file dir h)"
  shows "evolves hf dir d d'"
  using assms stays_object unfolding evolves_def store_ok_def by metis

lemma op_aside:
  assumes "store_ok hf dir (cs_disk st)" and "disk_op name p io st = (r, st')"
    and "\<And>r0 d'. io (cs_disk st) = (r0, d') \<Longrightarrow> wf d' \<and> (\<forall>h. hash_wf h \<longrightarrow> stays (cs_disk st) d' (object_file dir h))"
  shows "evolves hf dir (cs_disk st) (cs_disk st')"
  using assms(2)
  by (cases rule: disk_op_cases) (use assms(1,3) in \<open>auto intro!: evolves_aside\<close>)

lemma op_aside_all:
  assumes "store_ok hf dir (cs_disk st)" and "disk_op name p io st = (r, st')"
    and "\<And>r0 d' q. io (cs_disk st) = (r0, d') \<Longrightarrow> wf d' \<and> stays (cs_disk st) d' q"
  shows "evolves hf dir (cs_disk st) (cs_disk st')"
  using op_aside [OF assms(1,2)] assms(3) by blast

lemma store_wf: "store_ok hf dir d \<Longrightarrow> wf d"
  by (simp add: store_ok_def)

lemma evolves_store: "evolves hf dir d d' \<Longrightarrow> store_ok hf dir d'"
  by (simp add: evolves_def)

text \<open>Opening the store only clears its directory for temporary files.\<close>

lemma sweep_evolves:
  assumes "store_ok hf dir (cs_disk st)" "parent_is q (dir @ [lit ''tmp''])" "sweep fs q st = (r, st')"
  shows "evolves hf dir (cs_disk st) (cs_disk st')"
  using assms(3) unfolding sweep_def
  by (rule op_aside [OF assms(1)])
    (use remove_aside [OF store_wf [OF assms(1)]] object_not_in_tmp [OF assms(2)] in blast)

lemma sweeps_evolve:
  assumes "store_ok hf dir (cs_disk st)" "\<forall>q \<in> set qs. parent_is q (dir @ [lit ''tmp''])"
    "each_step (sweep fs) qs st = (r, st')"
  shows "evolves hf dir (cs_disk st) (cs_disk st')"
  using assms
proof (induction qs arbitrary: st)
  case Nil
  then show ?case by (simp add: evolves_refl)
next
  case (Cons q qs)
  from Cons.prems(3) have "step_then (sweep fs q st) (\<lambda>_. each_step (sweep fs) qs) = (r, st')" by simp
  then show ?case
  proof (cases rule: step_then_cases)
    case (stop e s)
    then show ?thesis using sweep_evolves [OF Cons.prems(1) _ stop(1)] Cons.prems(2) by simp
  next
    case (go v s)
    then have first: "evolves hf dir (cs_disk st) (cs_disk s)"
      using sweep_evolves [OF Cons.prems(1) _ go(1)] Cons.prems(2) by simp
    with go Cons.IH [OF evolves_store [OF first]] Cons.prems(2) show ?thesis
      using evolves_trans by simp
  qed
qed

lemma cas_open_evolves:
  assumes ok: "store_ok hf dir (cs_disk st)" and "cas_open fs env dir st = (r, st')"
  shows "evolves hf dir (cs_disk st) (cs_disk st')"
proof -
  have made: "evolves hf dir (cs_disk st1) (cs_disk st2)"
    if "store_ok hf dir (cs_disk st1)" "disk_op name p (vfs_create_dir_all fs p') st1 = (r0, st2)" for name p p' st1 st2 r0
    by (rule op_aside_all [OF that]) (use create_aside [OF store_wf [OF that(1)]] in blast)
  from assms(2)[unfolded cas_open_def Let_def] show ?thesis
  proof (cases rule: step_then_cases)
    case (stop e s)
    then show ?thesis using made [OF ok] by blast
  next
    case (go v s1)
    then have e1: "evolves hf dir (cs_disk st) (cs_disk s1)" using made [OF ok] by blast
    from go(2) show ?thesis
    proof (cases rule: step_then_cases)
      case (stop e s)
      then show ?thesis using made [OF evolves_store [OF e1]] evolves_trans [OF e1] by blast
    next
      case (go v s2)
      then have e2: "evolves hf dir (cs_disk st) (cs_disk s2)"
        using made [OF evolves_store [OF e1]] evolves_trans [OF e1] by blast
      have listed: "evolves hf dir (cs_disk s2) (cs_disk s3)"
        if "disk_op (lit ''list cas tmp'') (dir @ [lit ''tmp'']) (vfs_list fs (dir @ [lit ''tmp''])) s2 = (r0, s3)" for r0 s3
        by (rule op_aside_all [OF evolves_store [OF e2] that]) (use list_aside [OF store_wf [OF evolves_store [OF e2]]] in blast)
      from go(2) show ?thesis
      proof (cases rule: step_then_cases)
        case (stop e s)
        then show ?thesis using listed evolves_trans [OF e2] by blast
      next
        case (go qs s3)
        then have e3: "evolves hf dir (cs_disk st) (cs_disk s3)" using listed evolves_trans [OF e2] by blast
        from go(1) have "\<forall>q \<in> set qs. parent_is q (dir @ [lit ''tmp''])"
          by (cases rule: disk_op_cases) (use list_aside [OF store_wf [OF evolves_store [OF e2]]] in auto)
        then show ?thesis
          using sweeps_evolve [OF evolves_store [OF e3] _ go(2)] evolves_trans [OF e3] by simp
      qed
    qed
  qed
qed

text \<open>A reader gets the bytes the name is the hash of, and an object that is there is never found corrupt.\<close>

lemma cas_get_evolves:
  assumes ok: "store_ok hf dir (cs_disk st)" and wf_h: "hash_wf h" and hf: "ce_blake3 env = hf"
    and "cas_get fs env dir h st = (r, st')"
  shows "evolves hf dir (cs_disk st) (cs_disk st')"
    and "r = Inr bs \<Longrightarrow> live (cs_disk st) (object_file dir h) = Some bs \<and> B3Hash (hf bs) = h"
    and "r \<noteq> Inl (StCasCorrupt name p)"
    and "r = Inl (StCasMissing name) \<Longrightarrow> live (cs_disk st) (object_file dir h) = None"
proof -
  have good: "hf bs = b3_bytes h" if "live (cs_disk st) (object_file dir h) = Some bs" for bs
    using ok that wf_h by (simp add: store_ok_def object_ok_def)
  have goal: "evolves hf dir (cs_disk st) (cs_disk st') \<and>
     (\<forall>bs. r = Inr bs \<longrightarrow> live (cs_disk st) (object_file dir h) = Some bs \<and> B3Hash (hf bs) = h) \<and>
     (\<forall>name p. r \<noteq> Inl (StCasCorrupt name p)) \<and>
     (\<forall>name. r = Inl (StCasMissing name) \<longrightarrow> live (cs_disk st) (object_file dir h) = None)"
  proof (cases "live (cs_disk st) (object_file dir h)")
    case None
    then show ?thesis using assms(4) evolves_refl [OF ok] by (auto simp: cas_get_def Let_def seen)
  next
    case (Some l)
    let ?op = "disk_op (lit ''read cas object'') (object_file dir h) (vfs_read fs (object_file dir h)) st"
    from assms(4) Some have "step_then ?op
        (\<lambda>bs st. if ce_blake3 env bs \<noteq> b3_bytes h then (Inl (StCasCorrupt (show_hash h) (object_file dir h)), st)
          else (Inr bs, st)) = (r, st')"
      by (simp add: cas_get_def Let_def seen)
    then show ?thesis
    proof (cases rule: step_then_cases)
      case (stop e s)
      have "evolves hf dir (cs_disk st) (cs_disk st')"
        using stop op_aside_all [OF ok stop(1)] read_aside [OF store_wf [OF ok]] by blast
      moreover have "\<exists>x. e = io_err (lit ''read cas object'') (object_file dir h) x"
        using stop(1) by (cases rule: disk_op_cases) auto
      ultimately show ?thesis using stop(2) by (auto simp: io_err_def)
    next
      case (go bs s)
      have "evolves hf dir (cs_disk st) (cs_disk s)"
        using op_aside_all [OF ok go(1)] read_aside [OF store_wf [OF ok]] by blast
      moreover have "live (cs_disk st) (object_file dir h) = Some bs"
        using go(1) by (cases rule: disk_op_cases) (use read_aside [OF store_wf [OF ok]] in auto)
      moreover have "r = Inr bs" "st' = s" using go(2) good [OF calculation(2)] by (simp_all add: hf)
      ultimately show ?thesis using good [of bs] by (cases h) simp
    qed
  qed
  then show "evolves hf dir (cs_disk st) (cs_disk st')" and "r \<noteq> Inl (StCasCorrupt name p)" by blast+
  show "r = Inr bs \<Longrightarrow> live (cs_disk st) (object_file dir h) = Some bs \<and> B3Hash (hf bs) = h"
    "r = Inl (StCasMissing name) \<Longrightarrow> live (cs_disk st) (object_file dir h) = None"
    using goal by blast+
qed

text \<open>
  Writing an object. Until the rename only the shard directory and the temporary file are touched; from
  the rename to the sync of the shard directory the object is whole under an entry that is not yet synced.
\<close>

definition landed :: "(bytes \<Rightarrow> bytes) \<Rightarrow> path \<Rightarrow> b3hash \<Rightarrow> bytes \<Rightarrow> 'd \<Rightarrow> 'd \<Rightarrow> bool" where
  "landed hf dir h bs d d' \<longleftrightarrow> wf d' \<and> whole d' (object_file dir h) bs \<and>
     (\<forall>h'. hash_wf h' \<longrightarrow> h' \<noteq> h \<longrightarrow> object_ok hf dir h' d' \<and>
        (\<forall>l. live d (object_file dir h') = Some l \<longrightarrow> live d' (object_file dir h') = Some l))"

text \<open>A step that leaves every file alone, or loses power, keeps the other objects.\<close>

lemma landed_others:
  assumes "landed hf dir h bs d d1" "\<And>q. stays d1 d2 q" "hash_wf h'" "h' \<noteq> h"
  shows "object_ok hf dir h' d2 \<and> (\<forall>l. live d (object_file dir h') = Some l \<longrightarrow> live d2 (object_file dir h') = Some l)"
  using assms(1) stays_object [OF _ assms(2)] assms(3,4) unfolding landed_def by metis

lemma landed_settles:
  assumes "landed hf dir h bs d d1" "wf d2" "\<And>q. stays d1 d2 q" "no_loose d2 (object_file dir h)"
    and "hf bs = b3_bytes h" "live d (object_file dir h) = None"
  shows "evolves hf dir d d2"
proof -
  have "whole d2 (object_file dir h) bs \<or> live d2 (object_file dir h) = None"
    using assms(1) assms(3) [of "object_file dir h"] unfolding landed_def stays_def by auto
  then have "object_ok hf dir h d2"
    using assms(4,5) by (auto simp: object_ok_def no_loose_def whole_def)
  then show ?thesis
    using landed_others [OF assms(1,3)] assms(2,6) unfolding evolves_def store_ok_def
    by (metis option.distinct(1))
qed

lemma landed_keeps:
  assumes "landed hf dir h bs d d1" "wf d2" "\<And>q. stays d1 d2 q" "\<And>q. live d2 q = live d1 q \<and> durable d2 q = durable d1 q"
  shows "landed hf dir h bs d d2"
proof -
  have "whole d2 (object_file dir h) bs"
    using assms(1,4) by (simp add: landed_def whole_def)
  then show ?thesis using landed_others [OF assms(1,3)] assms(2) by (simp add: landed_def)
qed

lemma rename_lands:
  assumes ok: "store_ok hf dir d" and h: "hash_wf h" and d1: "evolves hf dir d d1"
    and tmp: "whole d1 (tmp_file dir name) bs"
    and mv: "vfs_rename fs (tmp_file dir name) (object_file dir h) d1 = (Inr u, d2)"
  shows "landed hf dir h bs d d2"
proof -
  note wf = store_wf [OF evolves_store [OF d1]]
  have "whole d2 (object_file dir h) bs"
    using rename_sets [OF wf _ mv] tmp by (simp add: whole_def)
  moreover have "wf d2" using rename_aside [OF wf mv] by blast
  moreover have "object_ok hf dir h' d2 \<and> (\<forall>l. live d (object_file dir h') = Some l \<longrightarrow> live d2 (object_file dir h') = Some l)"
    if "hash_wf h'" "h' \<noteq> h" for h'
  proof -
    have "object_file dir h' \<noteq> object_file dir h" using object_file_inj [OF that(1) h] that(2) by blast
    then have "stays d1 d2 (object_file dir h')" using rename_aside [OF wf mv] by simp
    moreover have "object_ok hf dir h' d1" using d1 that(1) by (simp add: evolves_def store_ok_def)
    ultimately show ?thesis using stays_object d1 that(1) unfolding evolves_def by metis
  qed
  ultimately show ?thesis by (simp add: landed_def)
qed

lemma rename_fails_evolves:
  assumes "store_ok hf dir d" and h: "hash_wf h" and gone: "live d (object_file dir h) = None"
    and mv: "vfs_rename fs (tmp_file dir name) (object_file dir h) d = (Inl e, d')"
  shows "evolves hf dir d d'"
proof (rule evolves_aside [OF assms(1)])
  note wf = store_wf [OF assms(1)]
  show "wf d'" using rename_aside [OF wf mv] by blast
  fix h'
  assume "hash_wf h'"
  show "stays d d' (object_file dir h')"
  proof (cases "h' = h")
    case True
    then show ?thesis using rename_fails [OF wf mv] gone by (auto simp: stays_def whole_def)
  next
    case False
    then have "object_file dir h' \<noteq> object_file dir h" using object_file_inj [OF \<open>hash_wf h'\<close> h] by blast
    then show ?thesis using rename_aside [OF wf mv] by simp
  qed
qed

text \<open>Up to the sync of the temporary file every step leaves the objects as they are.\<close>

definition quiet :: "(bytes \<Rightarrow> bytes) \<Rightarrow> path \<Rightarrow> 'd \<Rightarrow> 'd \<Rightarrow> bool" where
  "quiet hf dir d d' \<longleftrightarrow> store_ok hf dir d' \<and> (\<forall>h. hash_wf h \<longrightarrow> live d' (object_file dir h) = live d (object_file dir h))"

lemma quiet_evolves: "quiet hf dir d d' \<Longrightarrow> evolves hf dir d d'"
  by (simp add: quiet_def evolves_def)

lemma quiet_refl: "store_ok hf dir d \<Longrightarrow> quiet hf dir d d"
  by (simp add: quiet_def)

lemma quiet_trans: "quiet hf dir d d' \<Longrightarrow> quiet hf dir d' d'' \<Longrightarrow> quiet hf dir d d''"
  by (simp add: quiet_def)

lemma tmp_quiet:
  assumes "store_ok hf dir d" "\<And>q. wf d' \<and> (q \<noteq> tmp_file dir name \<longrightarrow> stays d d' q)"
  shows "quiet hf dir d d'"
proof -
  have "stays d d' (object_file dir h)" for h using assms(2) by simp
  then show ?thesis using stays_object assms unfolding quiet_def store_ok_def by metis
qed

definition silent :: "(bytes \<Rightarrow> bytes) \<Rightarrow> path \<Rightarrow> ('d, 'a) io \<Rightarrow> 'd \<Rightarrow> bool" where
  "silent hf dir io d \<longleftrightarrow> (\<forall>r d'. io d = (r, d') \<longrightarrow> quiet hf dir d d')"

lemma tmp_silent:
  assumes "store_ok hf dir d" "\<And>r0 d' q. io d = (r0, d') \<Longrightarrow> wf d' \<and> (q \<noteq> tmp_file dir name \<longrightarrow> stays d d' q)"
  shows "silent hf dir io d"
  using tmp_quiet [OF assms(1)] assms(2) unfolding silent_def by blast

lemma quiet_step:
  assumes "step_then (disk_op name p io st) f = (r, st')" "silent hf dir io (cs_disk st)"
  obtains (stop) e where "r = Inl e" "quiet hf dir (cs_disk st) (cs_disk st')"
  | (go) v st1 where "io (cs_disk st) = (Inr v, cs_disk st1)" "cs_puts_begun st1 = cs_puts_begun st"
      "quiet hf dir (cs_disk st) (cs_disk st1)" "f v st1 = (r, st')"
  using assms(1)
proof (cases rule: step_then_cases)
  case s: (stop e s)
  from s(1) show thesis
    by (cases rule: disk_op_cases) (use s assms(2) stop in \<open>auto simp: silent_def\<close>)
next
  case g: (go v s)
  from g(1) show thesis
    by (cases rule: disk_op_cases) (use g assms(2) go [of v s] in \<open>auto simp: silent_def\<close>)
qed

text \<open>The temporary file is emptied or not there, written, and synced.\<close>

lemma reset_tmp:
  assumes "step_then (if vfs_exists fs (tmp_file dir name) (cs_disk st)
      then disk_op op p (vfs_truncate fs (tmp_file dir name) 0) st else (Inr (), st)) f = (r, st')"
    and ok: "store_ok hf dir (cs_disk st)"
  obtains (stop) e where "r = Inl e" "quiet hf dir (cs_disk st) (cs_disk st')"
  | (go) st1 where "quiet hf dir (cs_disk st) (cs_disk st1)"
      "(case live (cs_disk st1) (tmp_file dir name) of None \<Rightarrow> [] | Some l \<Rightarrow> l) = []" "f () st1 = (r, st')"
proof (cases "live (cs_disk st) (tmp_file dir name)")
  case None
  then show thesis using assms(1) go [OF quiet_refl [OF ok]] by (simp add: seen step_then_def)
next
  case (Some l)
  note wf = store_wf [OF ok]
  from assms(1) Some have "step_then (disk_op op p (vfs_truncate fs (tmp_file dir name) 0) st) f = (r, st')"
    by (simp add: seen)
  moreover have "silent hf dir (vfs_truncate fs (tmp_file dir name) 0) (cs_disk st)"
    by (rule tmp_silent [OF ok]) (rule truncate_aside [OF wf])
  ultimately show thesis
  proof (cases rule: quiet_step)
    case s: (stop e)
    then show ?thesis by (rule stop)
  next
    case g: (go v st1)
    have "live (cs_disk st1) (tmp_file dir name) = Some []"
      using truncate_sets [OF wf g(1)] Some by (simp add: resize_def)
    then show ?thesis using go [of st1] g by simp
  qed
qed

text \<open>From the rename on.\<close>

lemma land_object:
  assumes ok: "store_ok hf dir (cs_disk st)" and h: "hash_wf h" and hf: "hf bs = b3_bytes h"
    and gone: "live (cs_disk st) (object_file dir h) = None" and tmp: "whole (cs_disk st) (tmp_file dir name) bs"
    and run: "step_then (disk_op n1 p1 (vfs_rename fs (tmp_file dir name) (object_file dir h)) st) (\<lambda>_ st.
      step_then (disk_op n2 p2 (vfs_make_readonly fs (object_file dir h)) st) (\<lambda>_ st.
      step_then (disk_op n3 p3 (vfs_sync_dir fs (fst (object_path dir h))) st) (\<lambda>_ st. (Inr h, st)))) = (r, st')"
  shows "evolves hf dir (cs_disk st) (cs_disk st') \<and>
    (is_ok r \<longrightarrow> r = Inr h \<and> live (cs_disk st') (object_file dir h) = Some bs)"
  using run
proof (cases rule: step_then_cases)
  case (stop e s)
  from stop(1) have "evolves hf dir (cs_disk st) (cs_disk s)"
    by (cases rule: disk_op_cases) (use rename_fails_evolves [OF ok h gone] in auto)
  then show ?thesis using stop by simp
next
  case (go v s1)
  from go(1) have l1: "landed hf dir h bs (cs_disk st) (cs_disk s1)"
    by (cases rule: disk_op_cases) (use rename_lands [OF ok h evolves_refl [OF ok] tmp] in auto)
  then have wf1: "wf (cs_disk s1)" and there: "live (cs_disk s1) (object_file dir h) \<noteq> None"
    by (simp_all add: landed_def whole_def)
  from go(2) show ?thesis
  proof (cases rule: step_then_cases)
    case (stop e s)
    from stop(1) show ?thesis
    proof (cases rule: disk_op_cases)
      case (failed e' d')
      have "evolves hf dir (cs_disk st) d'"
        by (rule landed_settles [OF l1 _ _ _ hf gone])
          (use readonly_aside [OF wf1 failed(1)] readonly_fails [OF wf1 failed(1) there] in blast)+
      then show ?thesis using failed stop by simp
    qed simp
  next
    case (go v s2)
    from go(1) have l2: "landed hf dir h bs (cs_disk st) (cs_disk s2)"
    proof (cases rule: disk_op_cases)
      case (passed u d')
      have "landed hf dir h bs (cs_disk st) d'"
        by (rule landed_keeps [OF l1]) (use readonly_aside [OF wf1 passed(1)] readonly_sets [OF wf1 passed(1)] in blast)+
      then show ?thesis using passed by simp
    qed simp
    then have wf2: "wf (cs_disk s2)" and there: "live (cs_disk s2) (object_file dir h) = Some bs"
      by (simp_all add: landed_def whole_def)
    from go(2) show ?thesis
    proof (cases rule: step_then_cases)
      case (stop e s)
      from stop(1) show ?thesis
      proof (cases rule: disk_op_cases)
        case (failed e' d')
        have "evolves hf dir (cs_disk st) d'"
          by (rule landed_settles [OF l2 _ _ _ hf gone])
            (use sync_dir_aside [OF wf2 failed(1)] sync_dir_fails [OF wf2 failed(1)] in blast)+
        then show ?thesis using failed stop by simp
      qed simp
    next
      case (go v s3)
      from go(1) show ?thesis
      proof (cases rule: disk_op_cases)
        case (passed u d')
        have "evolves hf dir (cs_disk st) d'"
          by (rule landed_settles [OF l2 _ _ _ hf gone])
            (use sync_dir_aside [OF wf2 passed(1)] sync_dir_sets [OF wf2 passed(1)] object_parent in blast)+
        moreover have "live d' (object_file dir h) = Some bs" using sync_dir_sets [OF wf2 passed(1)] there by simp
        ultimately show ?thesis using passed go(2) by auto
      qed simp
    qed
  qed
qed

lemma materialize_evolves:
  assumes ok: "store_ok hf dir (cs_disk st)" and h: "hash_wf h" and hf: "hf bs = b3_bytes h"
    and gone: "live (cs_disk st) (object_file dir h) = None"
    and run: "materialize fs env dir h bs st = (r, st')"
  shows "evolves hf dir (cs_disk st) (cs_disk st') \<and>
    (is_ok r \<longrightarrow> r = Inr h \<and> live (cs_disk st') (object_file dir h) = Some bs)"
proof -
  have failed: ?thesis if "quiet hf dir (cs_disk st) (cs_disk s)" "quiet hf dir (cs_disk s) (cs_disk st')" "r = Inl e" for s e
    using quiet_evolves [OF quiet_trans [OF that(1,2)]] that(3) by simp
  note okd = quiet_evolves [THEN evolves_store]
  have made: "silent hf dir (vfs_create_dir_all fs (fst (object_path dir h))) (cs_disk st)"
    by (rule tmp_silent [OF ok]) (use create_aside [OF store_wf [OF ok]] in blast)
  from run [unfolded materialize_def prod.case_eq_if Let_def] made show ?thesis
  proof (cases rule: quiet_step)
    case (stop e)
    then show ?thesis using failed [OF quiet_refl [OF ok]] by blast
  next
    case (go v s1)
    note q1 = go(3)
    define s2 where "s2 = snd (next_tmp env h s1)"
    obtain name where name: "name = fst (next_tmp env h s1)" by simp
    have q2: "quiet hf dir (cs_disk st) (cs_disk s2)" using q1 by (simp add: s2_def next_tmp_def)
    from go(4) [folded s2_def name, unfolded append_Cons append_Nil] okd [OF q2] show ?thesis
    proof (cases rule: reset_tmp)
      case (stop e)
      then show ?thesis using failed [OF q2] by blast
    next
      case (go s3)
      note q3 = quiet_trans [OF q2 go(1)] and empty = go(2)
      note wf3 = store_wf [OF okd [OF q3]]
      have "silent hf dir (vfs_append fs (tmp_file dir name) bs) (cs_disk s3)"
        by (rule tmp_silent [OF okd [OF q3]]) (rule append_aside [OF wf3])
      with go(3) show ?thesis
      proof (cases rule: quiet_step)
        case (stop e)
        then show ?thesis using failed [OF q3] by blast
      next
        case (go v s4)
        note q4 = quiet_trans [OF q3 go(3)]
        note wf4 = store_wf [OF okd [OF q4]]
        have written: "live (cs_disk s4) (tmp_file dir name) = Some bs"
          using append_sets [OF wf3 go(1)] by (simp add: empty)
        have "silent hf dir (vfs_sync_data fs (tmp_file dir name)) (cs_disk s4)"
          by (rule tmp_silent [OF okd [OF q4]]) (rule sync_aside [OF wf4])
        with go(4) show ?thesis
        proof (cases rule: quiet_step)
          case (stop e)
          then show ?thesis using failed [OF q4] by blast
        next
          case (go v s5)
          note q5 = quiet_trans [OF q4 go(3)]
          have "whole (cs_disk s5) (tmp_file dir name) bs"
            using sync_sets [OF wf4 go(1)] written by (simp add: whole_def)
          moreover have "live (cs_disk s5) (object_file dir h) = None"
            using q5 h gone by (simp add: quiet_def)
          ultimately show ?thesis
            using land_object [OF okd [OF q5] h hf _ _ go(4)] evolves_trans [OF quiet_evolves [OF q5]] by blast
        qed
      qed
    qed
  qed
qed

text \<open>\<open>put\<close> and \<open>put_repair\<close> keep every object, and what they acknowledge is there.\<close>

lemma cas_write_evolves:
  assumes ok: "store_ok hf dir (cs_disk st)" and hf: "ce_blake3 env = hf" and h: "hash_wf (cas_hash env bs)"
    and run: "cas_write fs env dir bs repair st = (r, st')"
  shows "evolves hf dir (cs_disk st) (cs_disk st') \<and>
    (is_ok r \<longrightarrow> r = Inr (cas_hash env bs) \<and> live (cs_disk st') (object_file dir (cas_hash env bs)) \<noteq> None)"
proof (cases "live (cs_disk st) (object_file dir (cas_hash env bs))")
  case None
  then have "materialize fs env dir (cas_hash env bs) bs st = (r, st')"
    using run by (simp add: cas_write_def Let_def seen)
  then show ?thesis using materialize_evolves [OF ok h _ None] hf by (auto simp: cas_hash_def)
next
  case (Some l)
  show ?thesis
  proof (cases repair)
    case False
    then have "r = Inr (cas_hash env bs)" "st' = st" using run Some by (simp_all add: cas_write_def Let_def seen)
    then show ?thesis using evolves_refl [OF ok] Some by simp
  next
    case True
    obtain r1 st1 where get: "cas_get fs env dir (cas_hash env bs) st = (r1, st1)" by fastforce
    note got = cas_get_evolves [OF ok h hf get]
    have "st' = st1 \<and> (r = Inr (cas_hash env bs) \<or> \<not> is_ok r)"
      using run Some True got(3) by (auto simp: cas_write_def Let_def seen get split: sum.splits storage_error.splits)
    then show ?thesis using got(1) Some by (auto simp: evolves_def h)
  qed
qed

text \<open>The readers that do not lift the object.\<close>

lemma cas_size_evolves:
  assumes ok: "store_ok hf dir (cs_disk st)" and "cas_size fs dir h st = (r, st')"
  shows "evolves hf dir (cs_disk st) (cs_disk st')"
proof (cases "vfs_exists fs (object_file dir h) (cs_disk st)")
  case False
  then show ?thesis using assms(2) evolves_refl [OF ok] by (auto simp: cas_size_def Let_def)
next
  case True
  then have "disk_op (lit ''measure cas object'') (object_file dir h) (vfs_size fs (object_file dir h)) st = (r, st')"
    using assms(2) by (simp add: cas_size_def Let_def)
  then show ?thesis
    by (rule op_aside_all [OF ok]) (rule size_aside [OF store_wf [OF ok]])
qed

lemma read_at_quiet:
  assumes "store_ok hf dir d" "at_op op p (vfs_read_at fs q at len d) = (r, d')"
  shows "quiet hf dir d d'"
proof -
  have "vfs_read_at fs q at len d = (fst (vfs_read_at fs q at len d), d')"
    using assms(2) by (simp add: at_op_def prod_eq_iff)
  then show ?thesis
    using tmp_quiet [OF assms(1)] read_at_aside [OF store_wf [OF assms(1)]] by blast
qed

lemma lines_loop_quiet:
  assumes "lines_loop fs p h lo hi offset s d = Some rd" "store_ok hf dir d"
  shows "quiet hf dir d (snd rd)"
proof -
  let ?P = "\<lambda>f p h lo hi offset s d rd. f = fs \<longrightarrow> store_ok hf dir d \<longrightarrow> quiet hf dir d (snd rd)"
  have "?P fs p h lo hi offset s d rd"
  proof (rule lines_loop.raw_induct [where P = ?P, OF _ assms(1)], intro impI)
    fix loop f p h lo hi offset s d rd
    assume IH: "\<And>f p h lo hi offset s d rd. loop f p h lo hi offset s d = Some rd \<Longrightarrow> ?P f p h lo hi offset s d rd"
      and run: "(case at_op (lit ''read cas range'') p (vfs_read_at f p offset SCAN_CHUNK_BYTES d) of
        (Inl e, d) \<Rightarrow> Some (Inl e, d)
      | (Inr chunk, d) \<Rightarrow>
          (case scan_chunk lo hi chunk s of
             Inl found \<Rightarrow> Some (Inr found, d)
           | Inr s \<Rightarrow>
               if length chunk < SCAN_CHUNK_BYTES then Some (scan_ended h hi s, d)
               else loop f p h lo hi (sat_add u64_max offset (length chunk)) s d)) = Some rd"
      and f: "f = fs" and ok: "store_ok hf dir d"
    obtain r1 d1 where read: "at_op (lit ''read cas range'') p (vfs_read_at fs p offset SCAN_CHUNK_BYTES d) = (r1, d1)"
      by fastforce
    have q1: "quiet hf dir d d1" by (rule read_at_quiet [OF ok read])
    have "snd rd = d1 \<or> (\<exists>s' off. loop fs p h lo hi off s' d1 = Some rd)"
      using run [unfolded f read] by (auto split: sum.splits if_splits)
    then show "quiet hf dir d (snd rd)"
    proof
      assume "\<exists>s' off. loop fs p h lo hi off s' d1 = Some rd"
      then show ?thesis
        using IH [of fs] quiet_evolves [THEN evolves_store, OF q1] quiet_trans [OF q1] by blast
    qed (simp add: q1)
  qed
  then show ?thesis using assms(2) by simp
qed

lemma of_object_quiet:
  assumes "of_object fs p h rg d = Some rd" "store_ok hf dir d"
  shows "quiet hf dir d (snd rd)"
proof (cases rg)
  case (Lines lo hi)
  then show ?thesis
    using assms lines_loop_quiet [of p h lo hi 0 _ d rd hf dir] quiet_refl [OF assms(2)]
    by (auto simp: of_object_def lines_of_def split: if_splits)
next
  case (Bytes lo hi)
  obtain r1 d1 where read: "at_op (lit ''read cas range'') p (vfs_read_at fs p lo (Suc (hi - lo)) d) = (r1, d1)"
    by fastforce
  have "snd rd = d \<or> snd rd = d1"
    using assms(1) by (cases r1) (auto simp: read Bytes of_object_def bytes_of_def step_then_def split: if_splits)
  then show ?thesis using read_at_quiet [OF assms(2) read] quiet_refl [OF assms(2)] by auto
qed

lemma cas_get_range_evolves:
  assumes ok: "store_ok hf dir (cs_disk st)" and "cas_get_range fs dir h rg st = Some (r, st')"
  shows "evolves hf dir (cs_disk st) (cs_disk st')"
proof (cases "vfs_exists fs (object_file dir h) (cs_disk st)")
  case False
  then show ?thesis using assms(2) evolves_refl [OF ok] by (auto simp: cas_get_range_def Let_def)
next
  case True
  then obtain rd where "of_object fs (object_file dir h) h rg (cs_disk st) = Some rd" "cs_disk st' = snd rd"
    using assms(2) by (auto simp: cas_get_range_def Let_def)
  then show ?thesis using quiet_evolves [OF of_object_quiet [OF _ ok]] by simp
qed

lemma lose_evolves: "store_ok hf dir d \<Longrightarrow> evolves hf dir d (lose d)"
  using evolves_aside lose_aside store_wf by blast

end

end
