(* ===== verification/CasRuns.thy ===== *)
theory CasRuns
  imports CasWrites
begin

text \<open>
  Runs of the content-addressed store on a disk that may lose power at any step. No object is ever read
  corrupt, what a put acknowledged is there for good, and on a disk that loses nothing a put is acknowledged.
\<close>


section \<open>Runs\<close>

text \<open>
  A run over the power-loss adapter: calls by any process in any order, with a loss of power planned
  inside any of their operations or coming between them; \<open>acked\<close> holds what a put has acknowledged. A
  process that starts begins its count of puts anew.
\<close>

definition acknowledged :: "b3hash storage_result \<Rightarrow> b3hash set" where
  "acknowledged r = (case r of Inr h \<Rightarrow> {h} | Inl _ \<Rightarrow> {})"

inductive cas_run :: "(bytes \<Rightarrow> bytes) \<Rightarrow> path \<Rightarrow> fault_state cas \<Rightarrow> b3hash set \<Rightarrow> bool" for hf dir where
  fresh: "cas_run hf dir \<lparr>cs_disk = fault_new plan, cs_puts_begun = 0\<rparr> {}"
| opened: "cas_run hf dir st acked \<Longrightarrow> ce_blake3 env = hf \<Longrightarrow> cas_open fault_fs env dir st = (r, st') \<Longrightarrow>
    cas_run hf dir st' acked"
| put: "cas_run hf dir st acked \<Longrightarrow> ce_blake3 env = hf \<Longrightarrow> cas_put fault_fs env dir bs st = (r, st') \<Longrightarrow>
    cas_run hf dir st' (acknowledged r \<union> acked)"
| put_repair: "cas_run hf dir st acked \<Longrightarrow> ce_blake3 env = hf \<Longrightarrow> cas_put_repair fault_fs env dir bs st = (r, st') \<Longrightarrow>
    cas_run hf dir st' (acknowledged r \<union> acked)"
| got: "cas_run hf dir st acked \<Longrightarrow> ce_blake3 env = hf \<Longrightarrow> hash_wf h \<Longrightarrow> cas_get fault_fs env dir h st = (got, st') \<Longrightarrow>
    cas_run hf dir st' acked"
| measured: "cas_run hf dir st acked \<Longrightarrow> cas_size fault_fs dir h st = (n, st') \<Longrightarrow> cas_run hf dir st' acked"
| ranged: "cas_run hf dir st acked \<Longrightarrow> cas_get_range fault_fs dir h rg st = Some (got, st') \<Longrightarrow> cas_run hf dir st' acked"
| lost: "cas_run hf dir st acked \<Longrightarrow>
    cas_run hf dir \<lparr>cs_disk = (power_cut (cs_disk st))\<lparr>ff_plan := plan\<rparr>, cs_puts_begun = 0\<rparr> acked"
| restarted: "cas_run hf dir st acked \<Longrightarrow> cas_run hf dir (st\<lparr>cs_puts_begun := 0\<rparr>) acked"

definition store_keeps :: "(bytes \<Rightarrow> bytes) \<Rightarrow> path \<Rightarrow> fault_state cas \<Rightarrow> b3hash set \<Rightarrow> bool" where
  "store_keeps hf dir st acked \<longleftrightarrow> ffo.store_ok hf dir (cs_disk st) \<and>
     (\<forall>h \<in> acked. hash_wf h \<and> ff_live (cs_disk st) (object_file dir h) \<noteq> None)"

lemma keeps_evolves:
  assumes "store_keeps hf dir st acked" "ffo.evolves hf dir (cs_disk st) (cs_disk st')"
  shows "store_keeps hf dir st' acked"
  using assms unfolding store_keeps_def ffo.evolves_def by fastforce

lemma keeps_acked:
  assumes "store_keeps hf dir st acked" "\<forall>bs. bytes_wf 32 (hf bs)" "ce_blake3 env = hf"
    and "cas_write fault_fs env dir bs repair st = (r, st')"
  shows "store_keeps hf dir st' (acknowledged r \<union> acked)"
proof -
  have h: "hash_wf (cas_hash env bs)" using assms(2,3) by (simp add: hash_wf_def cas_hash_def)
  have "ffo.store_ok hf dir (cs_disk st)" using assms(1) by (simp add: store_keeps_def)
  note wrote = ffo.cas_write_evolves [OF this assms(3) h assms(4)]
  show ?thesis
    using keeps_evolves [OF assms(1) conjunct1 [OF wrote]] wrote h
    by (cases r) (auto simp: store_keeps_def acknowledged_def)
qed

lemma rearmed_keeps: "store_keeps hf dir st acked \<Longrightarrow> cs_disk st' = (cs_disk st)\<lparr>ff_plan := plan\<rparr> \<Longrightarrow> store_keeps hf dir st' acked"
  by (simp add: store_keeps_def ffo.store_ok_def ffo.object_ok_def ffv.whole_def ff_wf_def ff_views)

lemma cas_run_keeps:
  assumes "cas_run hf dir st acked" "\<forall>bs. bytes_wf 32 (hf bs)"
  shows "store_keeps hf dir st acked"
  using assms(1)
proof (induction rule: cas_run.induct)
  case (fresh plan)
  show ?case
    by (simp add: store_keeps_def ffo.store_ok_def ffo.object_ok_def fault_new_def ff_wf_def ff_views bt_empty_def bt_get_def bt_wf_def)
next
  case (opened st acked env r st')
  then show ?case using ffo.cas_open_evolves keeps_evolves unfolding store_keeps_def by blast
next
  case (put st acked env bs r st')
  then show ?case using keeps_acked [OF _ assms(2)] by (simp add: cas_put_def)
next
  case (put_repair st acked env bs r st')
  then show ?case using keeps_acked [OF _ assms(2)] by (simp add: cas_put_repair_def)
next
  case (got st acked env h r st')
  then show ?case using ffo.cas_get_evolves(1) keeps_evolves unfolding store_keeps_def by blast
next
  case (measured st acked h n st')
  then show ?case using ffo.cas_size_evolves keeps_evolves unfolding store_keeps_def by blast
next
  case (ranged st acked h rg r st')
  then show ?case using ffo.cas_get_range_evolves keeps_evolves unfolding store_keeps_def by blast
next
  case (lost st acked plan)
  then have "ffo.store_ok hf dir (cs_disk st)" by (simp add: store_keeps_def)
  from keeps_evolves [OF lost.IH, of "\<lparr>cs_disk = power_cut (cs_disk st), cs_puts_begun = 0\<rparr>"] ffo.lose_evolves [OF this]
  have "store_keeps hf dir \<lparr>cs_disk = power_cut (cs_disk st), cs_puts_begun = 0\<rparr> acked" by simp
  then show ?case by (rule rearmed_keeps) simp
next
  case (restarted st acked)
  then show ?case by (simp add: store_keeps_def)
qed

text \<open>A reader of an object that is there succeeds unless the read itself loses power.\<close>

lemma calm_get:
  assumes "ff_calm (cs_disk st)" "ff_live (cs_disk st) (object_file dir h) = Some l" "ce_blake3 env l = b3_bytes h"
  shows "fst (cas_get fault_fs env dir h st) = Inr l"
proof -
  have "fst (ff_read (object_file dir h) (cs_disk st)) = Inr l"
    using assms(1,2) by (auto simp: ff_read_def calm_charge counted_read_def ff_live_def)
  then show ?thesis
    using assms(2,3) ffo.seen [of "object_file dir h" "cs_disk st"]
    by (simp add: cas_get_def Let_def disk_op_def on_disk_def at_op_def step_then_def prod.case_eq_if)
qed

text \<open>On a disk that loses nothing a put is acknowledged.\<close>

definition calm_ack :: "b3hash \<Rightarrow> b3hash storage_result \<times> fault_state cas \<Rightarrow> bool" where
  "calm_ack h rs \<longleftrightarrow> fst rs = Inr h \<and> ff_calm (cs_disk (snd rs))"

lemma calm_step:
  assumes "\<And>r d'. io (cs_disk st) = (r, d') \<Longrightarrow> is_ok r \<and> ff_calm d' \<and> there d'"
    and "\<And>v st1. ff_calm (cs_disk st1) \<Longrightarrow> there (cs_disk st1) \<Longrightarrow> calm_ack h (f v st1)"
  shows "calm_ack h (step_then (disk_op name p io st) f)"
proof -
  obtain r d' where io: "io (cs_disk st) = (r, d')" by fastforce
  from assms(1) [OF io] obtain v where "r = Inr v" "ff_calm d'" "there d'" by (auto simp: is_ok_iff)
  then show ?thesis
    using assms(2) [of "st\<lparr>cs_disk := d'\<rparr>" v] by (simp add: disk_op_def on_disk_def at_op_def io step_then_def)
qed

lemma calm_rename:
  assumes "ff_calm d" "ff_live d p \<noteq> None" "ff_rename p p' d = (r, d')"
  shows "is_ok r \<and> ff_calm d' \<and> ff_live d' p' \<noteq> None"
proof -
  obtain f where f: "bt_get (ff_files d) p = Some f" using assms(2) by (auto simp: ff_live_def)
  define d1 where "d1 = put_file p' (f\<lparr>fs_durable_entry := False\<rparr>) (d\<lparr>ff_files := bt_remove p (ff_files d)\<rparr>)"
  have "ff_calm d1" using assms(1) by (simp add: d1_def put_file_def ff_calm_def)
  moreover have "charge (lit ''rename'') d1 = (r, d')" using assms(3) by (simp add: ff_rename_def f d1_def)
  moreover have "ff_live d1 p' \<noteq> None" by (simp add: d1_def put_file_def ff_live_def bt_get_insert)
  ultimately show ?thesis using calm_charge [of d1 "lit ''rename''"] by (auto simp: ff_calm_def ff_live_def)
qed

lemma calm_readonly:
  assumes "ff_calm d" "ff_live d p \<noteq> None" "ff_make_readonly p d = (r, d')"
  shows "is_ok r \<and> ff_calm d' \<and> True"
  using assms calm_charge [of d "lit ''make_readonly''"]
  by (auto simp: ff_make_readonly_def ff_exists_def ff_live_def ff_calm_def)

lemma calm_append:
  assumes "ff_calm d" "ff_append p bs d = (r, d')"
  shows "is_ok r \<and> ff_calm d' \<and> ff_live d' p \<noteq> None"
  using ffr.append_calm [of d p bs r d'] ff_append_ok [of p bs d _ d'] assms by (auto simp: is_ok_iff)

lemma calm_sync:
  assumes "ff_calm d" "ff_live d p \<noteq> None" "ff_sync_data p d = (r, d')"
  shows "is_ok r \<and> ff_calm d' \<and> ff_live d' p \<noteq> None"
  using ffr.sync_data_calm [of d p r d'] ff_sync_data_ok [of p d _ d'] assms by (auto simp: is_ok_iff)

lemma calm_sync_dir:
  assumes "ff_calm d" "ff_sync_dir dir d = (r, d')"
  shows "is_ok r \<and> ff_calm d' \<and> True"
  using ffr.sync_dir_calm [of d dir r d'] assms by simp

lemma calm_create:
  assumes "ff_calm d" "ff_create_dir_all dir d = (r, d')"
  shows "is_ok r \<and> ff_calm d' \<and> True"
  using assms calm_charge [of "d\<lparr>ff_dirs := bt_insert dir () (ff_dirs d)\<rparr>" "lit ''create_dir_all''"]
  by (auto simp: ff_create_dir_all_def ff_calm_def)

lemma calm_truncate:
  assumes "ff_calm d" "ff_live d p \<noteq> None" "ff_truncate p n d = (r, d')"
  shows "is_ok r \<and> ff_calm d' \<and> True"
  using ffr.truncate_calm [of d p n r d'] assms by simp

lemma calm_land:
  assumes "ff_calm (cs_disk st)"
  shows "calm_ack h (step_then (disk_op n0 tmp (ff_append tmp bs) st) (\<lambda>_ st.
      step_then (disk_op n1 tmp (ff_sync_data tmp) st) (\<lambda>_ st.
      step_then (disk_op n2 p (ff_rename tmp p) st) (\<lambda>_ st.
      step_then (disk_op n3 p (ff_make_readonly p) st) (\<lambda>_ st.
      step_then (disk_op n4 shard (ff_sync_dir shard) st) (\<lambda>_ st. (Inr h, st)))))))"
proof -
  have s4: "calm_ack h (step_then (disk_op n4 shard (ff_sync_dir shard) s) (\<lambda>_ st. (Inr h, st)))"
    if "ff_calm (cs_disk s)" for s
    by (rule calm_step, rule calm_sync_dir [OF that], assumption, simp add: calm_ack_def)
  have s3: "calm_ack h (step_then (disk_op n3 p (ff_make_readonly p) s) (\<lambda>_ st.
      step_then (disk_op n4 shard (ff_sync_dir shard) st) (\<lambda>_ st. (Inr h, st))))"
    if "ff_calm (cs_disk s)" "ff_live (cs_disk s) p \<noteq> None" for s
    by (rule calm_step, rule calm_readonly [OF that], assumption, rule s4, assumption)
  have s2: "calm_ack h (step_then (disk_op n2 p (ff_rename tmp p) s) (\<lambda>_ st.
      step_then (disk_op n3 p (ff_make_readonly p) st) (\<lambda>_ st.
      step_then (disk_op n4 shard (ff_sync_dir shard) st) (\<lambda>_ st. (Inr h, st)))))"
    if "ff_calm (cs_disk s)" "ff_live (cs_disk s) tmp \<noteq> None" for s
    by (rule calm_step, rule calm_rename [OF that], assumption, rule s3)
  have s1: "calm_ack h (step_then (disk_op n1 tmp (ff_sync_data tmp) s) (\<lambda>_ st.
      step_then (disk_op n2 p (ff_rename tmp p) st) (\<lambda>_ st.
      step_then (disk_op n3 p (ff_make_readonly p) st) (\<lambda>_ st.
      step_then (disk_op n4 shard (ff_sync_dir shard) st) (\<lambda>_ st. (Inr h, st))))))"
    if "ff_calm (cs_disk s)" "ff_live (cs_disk s) tmp \<noteq> None" for s
    by (rule calm_step, rule calm_sync [OF that], assumption, rule s2)
  show ?thesis
    by (rule calm_step, rule calm_append [OF assms], assumption, rule s1)
qed

lemma calm_materialize:
  assumes "ff_calm (cs_disk st)"
  shows "calm_ack h (materialize fault_fs env dir h bs st)"
  unfolding materialize_def prod.case_eq_if Let_def fault_fs_sel fault_fs_more
proof (rule calm_step, rule calm_create [OF assms], assumption)
  fix s1 :: "fault_state cas"
  let ?s = "snd (next_tmp env h s1)" and ?tmp = "dir @ [lit ''tmp''] @ [fst (next_tmp env h s1)]"
  assume "ff_calm (cs_disk s1)"
  then have calm: "ff_calm (cs_disk ?s)" by (simp add: next_tmp_def)
  show "calm_ack h (step_then
      (if ff_exists ?tmp (cs_disk ?s) then disk_op (lit ''reset cas tmp'') ?tmp (ff_truncate ?tmp 0) ?s else (Inr (), ?s))
      (\<lambda>_ st. step_then (disk_op (lit ''write cas tmp'') ?tmp (ff_append ?tmp bs) st) (\<lambda>_ st.
      step_then (disk_op (lit ''sync cas tmp'') ?tmp (ff_sync_data ?tmp) st) (\<lambda>_ st.
      step_then (disk_op (lit ''rename cas object'') (object_file dir h) (ff_rename ?tmp (object_file dir h)) st) (\<lambda>_ st.
      step_then (disk_op (lit ''make cas object read-only'') (object_file dir h) (ff_make_readonly (object_file dir h)) st) (\<lambda>_ st.
      step_then (disk_op (lit ''sync cas shard'') (fst (object_path dir h)) (ff_sync_dir (fst (object_path dir h))) st)
        (\<lambda>_ st. (Inr h, st))))))))"
  proof (cases "ff_exists ?tmp (cs_disk ?s)")
    case True
    then have "ff_live (cs_disk ?s) ?tmp \<noteq> None" by (simp add: ff_exists_def ff_live_def)
    then show ?thesis
      unfolding if_P [OF True] by - (rule calm_step, rule calm_truncate [OF calm], assumption+, rule calm_land)
  next
    case False
    then show ?thesis using calm_land [OF calm] by (simp add: step_then_def)
  qed
qed

lemma calm_put:
  assumes "ff_calm (cs_disk st)"
  shows "fst (cas_put fault_fs env dir bs st) = Inr (cas_hash env bs)"
    and "ff_calm (cs_disk (snd (cas_put fault_fs env dir bs st)))"
  using assms calm_materialize [OF assms] by (simp_all add: cas_put_def cas_write_def Let_def calm_ack_def)

text \<open>C3. Whatever calls were made on a store and wherever power was lost among them or inside them, a
  read of an object never finds a corrupt one, what it returns has the hash it was asked for, an object a
  put has acknowledged is never missing, and it is returned whenever the read itself does not lose power.\<close>

theorem acknowledged_objects_survive:
  assumes "\<forall>bs. bytes_wf 32 (hf bs)" and "cas_run hf dir st acked"
    and "ce_blake3 env = hf" and "hash_wf h" and "cas_get fault_fs env dir h st = (r, st')"
  shows "(\<forall>name p. r \<noteq> Inl (StCasCorrupt name p)) \<and> (\<forall>bs. r = Inr bs \<longrightarrow> cas_hash env bs = h) \<and>
    (h \<in> acked \<longrightarrow> (\<forall>name. r \<noteq> Inl (StCasMissing name)) \<and> (ff_calm (cs_disk st) \<longrightarrow> is_ok r))"
proof -
  note keeps = cas_run_keeps [OF assms(2,1)]
  then have ok: "ffo.store_ok hf dir (cs_disk st)" by (simp add: store_keeps_def)
  note got = ffo.cas_get_evolves [OF ok assms(4,3,5)]
  have "(\<forall>name. r \<noteq> Inl (StCasMissing name)) \<and> (ff_calm (cs_disk st) \<longrightarrow> is_ok r)" if acked: "h \<in> acked"
  proof -
    have "ff_live (cs_disk st) (object_file dir h) \<noteq> None" using keeps acked by (simp add: store_keeps_def)
    then obtain l where l: "ff_live (cs_disk st) (object_file dir h) = Some l" by blast
    then have "ce_blake3 env l = b3_bytes h"
      using ok assms(3,4) by (simp add: ffo.store_ok_def ffo.object_ok_def)
    then show ?thesis using calm_get [of st dir h l env] got(4) l assms(5) by auto
  qed
  then show ?thesis using got(2,3) assms(3) by (auto simp: cas_hash_def)
qed

text \<open>A store on which one object was put before power was lost.\<close>

definition sample_env :: cas_env where
  "sample_env = \<lparr>ce_blake3 = (\<lambda>bs. replicate 32 (length bs mod 256)), ce_pid = 7\<rparr>"

definition sample_disk :: "fault_state cas" where
  "sample_disk = \<lparr>cs_disk = fault_new \<lparr>cut_at_op = None, cut_on_write = None, plan_torn_tail = TornNone\<rparr>, cs_puts_begun = 0\<rparr>"

theorem acknowledged_objects_survive_witness:
  "is_ok (fst (cas_get fault_fs sample_env [lit ''cas''] (cas_hash sample_env [104, 105])
     \<lparr>cs_disk = power_cut (cs_disk (snd (cas_put fault_fs sample_env [lit ''cas''] [104, 105] sample_disk))), cs_puts_begun = 0\<rparr>))"
  (is "is_ok (fst (cas_get _ _ ?dir ?h ?st))")
proof -
  let ?put = "cas_put fault_fs sample_env ?dir [104, 105] sample_disk"
  have calm: "ff_calm (cs_disk sample_disk)" by (simp add: sample_disk_def ff_calm_def fault_new_def)
  note put = calm_put(1) [OF calm, of sample_env ?dir "[104, 105]"]
  have "cas_run (ce_blake3 sample_env) ?dir sample_disk {}" unfolding sample_disk_def by (rule cas_run.fresh)
  then have "cas_run (ce_blake3 sample_env) ?dir (snd ?put) (acknowledged (Inr ?h) \<union> {})"
    by (rule cas_run.put [OF _ refl]) (simp add: put [symmetric])
  from cas_run.lost [OF this, of "ff_plan (power_cut (cs_disk (snd ?put)))"]
  have run: "cas_run (ce_blake3 sample_env) ?dir ?st {?h}" by (simp add: acknowledged_def)
  have "\<forall>bs. bytes_wf 32 (ce_blake3 sample_env bs)" by (simp add: sample_env_def bytes_wf_def)
  moreover have "hash_wf ?h" by (simp add: hash_wf_def cas_hash_def sample_env_def bytes_wf_def)
  moreover have "ff_calm (cs_disk ?st)"
    using calm_put(2) [OF calm] by (simp add: ff_calm_def power_cut_def cut_def)
  ultimately show ?thesis
    using acknowledged_objects_survive [OF _ run refl, of ?h "fst (cas_get fault_fs sample_env ?dir ?h ?st)"
        "snd (cas_get fault_fs sample_env ?dir ?h ?st)"] by simp
qed


section \<open>Temporary files of this process\<close>

text \<open>Opening a handle leaves the files the puts of its own process may still be writing, and no others.\<close>

lemma own_tmp_is_kept:
  assumes "hash_wf h"
  shows "written_here env (tmp_file dir (tmp_name env' h n)) \<longleftrightarrow> ce_pid env = ce_pid env'"
proof -
  have hex: "46 \<notin> set (show_hash h)"
    using assms write_hex_chars [of "b3_bytes h" 46]
    by (auto simp: show_hash_def hash_wf_def bytes_wf_def hex_char_def split: if_splits)
  have num: "46 \<notin> set (show_nat k)" for k using show_nat_digit [of 46 k] by (auto simp: is_ascii_digit_def)
  have "tmp_name env' h n = join_with [46] [show_hash h, show_nat (ce_pid env'), show_nat n, lit ''part'']"
    by (simp add: tmp_name_def lit_def)
  moreover have "split_on 46 (join_with [46] [show_hash h, show_nat (ce_pid env'), show_nat n, lit ''part'']) =
      [show_hash h, show_nat (ce_pid env'), show_nat n, lit ''part'']"
    by (rule split_join) (use hex num in \<open>auto simp: lit_def\<close>)
  ultimately show ?thesis by (auto simp: written_here_def)
qed


section \<open>A put that trusts an entry nobody synced\<close>

text \<open>
  A process stopped between the rename of an object and the sync of its directory leaves an object
  that is seen. The next put of the same bytes finds it there and acknowledges it, and a loss of power
  then takes it.
\<close>

lemma unsynced_object_is_acknowledged:
  assumes "ff_live (cs_disk st) (object_file dir (cas_hash env bs)) = Some bs"
    and "\<not> ff_entered (cs_disk st) (object_file dir (cas_hash env bs))" and "ff_wf (cs_disk st)"
  shows "cas_put fault_fs env dir bs st = (Inr (cas_hash env bs), st) \<and>
    \<not> cas_contains fault_fs dir (cas_hash env bs) (st\<lparr>cs_disk := power_cut (cs_disk st)\<rparr>)"
proof -
  have "ff_exists (object_file dir (cas_hash env bs)) (cs_disk st)"
    using assms(1) by (auto simp: ff_exists_def ff_live_def)
  moreover have "ff_live (power_cut (cs_disk st)) (object_file dir (cas_hash env bs)) = None"
    by (rule ffr.lose_gone [OF assms(3,2)])
  ultimately show ?thesis
    by (simp add: cas_put_def cas_write_def cas_contains_def Let_def ff_exists_def ff_live_def)
qed

text \<open>The rename of a fresh temporary file leaves just that state.\<close>

lemma renamed_object_is_unsynced:
  assumes "ff_wf d" and "ff_live d (tmp_file dir name) = Some bs"
    and "ff_rename (tmp_file dir name) (object_file dir h) d = (Inr u, d')"
  shows "ff_live d' (object_file dir h) = Some bs \<and> \<not> ff_entered d' (object_file dir h)"
proof -
  obtain f where f: "bt_get (ff_files d) (tmp_file dir name) = Some f" "fs_live f = bs"
    using assms(2) by (auto simp: ff_live_def)
  have "ff_files d' = bt_insert (object_file dir h) (f\<lparr>fs_durable_entry := False\<rparr>) (bt_remove (tmp_file dir name) (ff_files d))"
    using assms(3) charge_ok by (fastforce simp: ff_rename_def f put_file_def)
  then show ?thesis by (simp add: ff_views f bt_get_insert)
qed

end
