(* ===== verification/CasRanges.thy ===== *)
theory CasRanges
  imports CasDisks
begin

text \<open>
  Range reads of a stored object, against what the range names. The scan reads an object in chunks and
  stops at the end of the last line asked for; the answer is the one a reader of the whole object
  would cut out of it, and a range that is not all there is refused, never clamped.
\<close>


section \<open>What a range names\<close>

definition object_lines :: "bytes \<Rightarrow> nat" where
  "object_lines bs = (if last (split_on 10 bs) = [] then length (split_on 10 bs) - 1 else length (split_on 10 bs))"

definition named_range :: "range \<Rightarrow> bytes \<Rightarrow> bytes option" where
  "named_range rg bs =
     (case rg of
        Bytes lo hi \<Rightarrow> if hi < lo \<or> length bs \<le> hi then None else Some (take (hi - lo + 1) (drop lo bs))
      | Lines lo hi \<Rightarrow>
          if lo = 0 \<or> hi < lo \<or> object_lines bs < hi then None
          else Some (join_with [10] (take (hi - lo + 1) (drop (lo - 1) (split_on 10 bs)))))"

text \<open>The bounds of a range are \<open>u64\<close>.\<close>

definition range_fits :: "range \<Rightarrow> bool" where
  "range_fits rg = (case rg of Bytes lo hi \<Rightarrow> lo \<le> u64_max \<and> hi \<le> u64_max | Lines lo hi \<Rightarrow> lo \<le> u64_max \<and> hi \<le> u64_max)"


section \<open>The scan of the bytes\<close>

lemma scan_chunk_append:
  "scan_chunk lo hi (xs @ ys) s = (case scan_chunk lo hi xs s of Inl found \<Rightarrow> Inl found | Inr s' \<Rightarrow> scan_chunk lo hi ys s')"
  by (induction xs arbitrary: s) (simp_all split: option.splits)

definition lines_result :: "b3hash \<Rightarrow> nat \<Rightarrow> bytes + line_scan \<Rightarrow> bytes storage_result" where
  "lines_result h hi r = (case r of Inl found \<Rightarrow> Inr found | Inr s \<Rightarrow> scan_ended h hi s)"

text \<open>The last line the bytes still to come end, when the next byte is in line \<open>n\<close>.\<close>

definition last_line :: "nat \<Rightarrow> bool \<Rightarrow> bytes list \<Rightarrow> nat" where
  "last_line n started ps =
     (if last ps = [] \<and> \<not> (length ps = 1 \<and> started) then n + length ps - 2 else n + length ps - 1)"

lemma join_cons_head: "join_with sep ((b # p) # ps) = b # join_with sep (p # ps)"
  by (cases ps) simp_all

lemma split_on_Cons:
  "split_on c (b # bs) = (if b = c then [] # split_on c bs else (b # hd (split_on c bs)) # tl (split_on c bs))"
  by (cases "split_on c bs") auto

definition pick :: "nat \<Rightarrow> nat \<Rightarrow> nat \<Rightarrow> bytes list \<Rightarrow> bytes" where
  "pick lo hi n ps = join_with [10] (take (hi + 1 - max n lo) (drop (lo - n) ps))"

lemma pick_byte:
  assumes "n \<le> hi" "lo \<le> hi"
  shows "pick lo hi n ((b # p) # ps) = (if lo \<le> n then b # pick lo hi n (p # ps) else pick lo hi n (p # ps))"
proof (cases "lo \<le> n")
  case True
  then show ?thesis using assms by (simp add: pick_def max_def Suc_diff_le join_cons_head)
next
  case False
  then obtain k where "lo - n = Suc k" by (cases "lo - n") simp_all
  then show ?thesis using False by (simp add: pick_def)
qed

lemma pick_newline:
  assumes "n < hi" "lo \<le> hi"
  shows "pick lo hi n ([] # p # ps) =
    (if lo \<le> n then 10 # pick lo hi (n + 1) (p # ps) else pick lo hi (n + 1) (p # ps))"
proof (cases "lo \<le> n")
  case True
  obtain k where k: "hi - n = Suc k" using assms(1) by (cases "hi - n") simp_all
  then have "hi + 1 - n = Suc (Suc k)" by simp
  then show ?thesis using True k by (simp add: pick_def max_def)
next
  case False
  then obtain k where k: "lo - n = Suc k" by (cases "lo - n") simp_all
  then have "lo - Suc n = k" by simp
  then show ?thesis using False k by (simp add: pick_def max_def)
qed

lemma pick_end: "lo \<le> hi \<Longrightarrow> pick lo hi hi ([] # ps) = []"
  by (simp add: pick_def max_def)

lemma last_line_byte: "last_line n st ((b # p) # ps) = last_line n True (p # ps)"
  by (cases "ps = []") (simp_all add: last_line_def)

lemma last_line_newline: "last_line n st ([] # p # ps) = last_line (n + 1) False (p # ps)"
  by (simp add: last_line_def)

lemma last_line_ge: "n \<le> last_line n st ([] # p # ps)"
  by (simp add: last_line_def)

lemma scan_picks:
  assumes "0 < n" "n \<le> hi" "lo \<le> hi" "hi \<le> u64_max"
  shows "lines_result h hi (scan_chunk lo hi bs \<lparr>ls_line = n, ls_started = st, ls_picked = acc\<rparr>) =
    (if last_line n st (split_on 10 bs) < hi then Inl (out_of_bounds h)
     else Inr (acc @ pick lo hi n (split_on 10 bs)))"
  using assms
proof (induction bs arbitrary: n st acc)
  case Nil
  have "pick lo hi n [[]] = []" by (cases "lo - n"; cases "hi + 1 - max n lo") (simp_all add: pick_def)
  then show ?case by (simp add: lines_result_def scan_ended_def last_line_def Let_def)
next
  case (Cons b bs)
  obtain p ps where ps: "split_on 10 bs = p # ps" by (cases "split_on 10 bs") simp_all
  show ?case
  proof (cases "b = 10")
    case False
    have step: "scan_line_byte lo hi b \<lparr>ls_line = n, ls_started = st, ls_picked = acc\<rparr> =
        Some \<lparr>ls_line = n, ls_started = True, ls_picked = if lo \<le> n then acc @ [b] else acc\<rparr>"
      using False Cons.prems(2) by (simp add: scan_line_byte_def)
    show ?thesis
      using Cons.IH [OF Cons.prems, of True "if lo \<le> n then acc @ [b] else acc", unfolded ps] False
      by (simp add: step ps last_line_byte pick_byte [OF Cons.prems(2,3)])
  next
    case newline: True
    show ?thesis
    proof (cases "n = hi")
      case True
      then show ?thesis
        using newline last_line_ge [of n st p ps] Cons.prems(3)
        by (simp add: scan_line_byte_def lines_result_def ps pick_end)
    next
      case False
      with Cons.prems have n: "0 < n + 1" "n + 1 \<le> hi" "n < hi" by simp_all
      have step: "scan_line_byte lo hi 10 \<lparr>ls_line = n, ls_started = st, ls_picked = acc\<rparr> =
          Some \<lparr>ls_line = n + 1, ls_started = False, ls_picked = if lo \<le> n then acc @ [10] else acc\<rparr>"
        using False n Cons.prems(4) by (simp add: scan_line_byte_def sat_add_def)
      show ?thesis
        using Cons.IH [OF n(1,2) Cons.prems(3,4), of False "if lo \<le> n then acc @ [10] else acc", unfolded ps] newline
        by (simp add: step ps last_line_newline pick_newline [OF n(3) Cons.prems(3)])
    qed
  qed
qed

lemma scan_picks_named:
  assumes "lo \<noteq> 0" "lo \<le> hi" "hi \<le> u64_max"
  shows "lines_result h hi (scan_chunk lo hi bs \<lparr>ls_line = 1, ls_started = False, ls_picked = []\<rparr>) =
    (case named_range (Lines lo hi) bs of None \<Rightarrow> Inl (out_of_bounds h) | Some v \<Rightarrow> Inr v)"
proof -
  have "last_line 1 False (split_on 10 bs) = object_lines bs"
    by (cases "split_on 10 bs") (auto simp: last_line_def object_lines_def)
  then show ?thesis
    using scan_picks [of 1 hi lo h bs False "[]"] assms
    by (auto simp: named_range_def pick_def max_def Suc_diff_le)
qed



section \<open>The loop over the chunks\<close>

lemma take_drop_taken: "xs = take n xs @ drop (length (take n xs)) xs"
  by (cases "n \<le> length xs") simp_all

lemma lines_result_append:
  "lines_result h hi (scan_chunk lo hi (xs @ ys) s) =
    (case scan_chunk lo hi xs s of Inl found \<Rightarrow> Inr found | Inr s' \<Rightarrow> lines_result h hi (scan_chunk lo hi ys s'))"
  by (simp add: scan_chunk_append lines_result_def split: sum.splits)

context readable_disk
begin

text \<open>The loop returns whatever the disk does: with the answer of the scan, or with the failure of a read.\<close>

lemma lines_loop_scans:
  assumes "wf d" "live d p = Some l" "length l \<le> u64_max" "offset \<le> length l"
  shows "\<exists>r d'. lines_loop fs p h lo hi offset s d = Some (r, d') \<and> wf d' \<and> (calm d \<longrightarrow> calm d') \<and>
    (r = lines_result h hi (scan_chunk lo hi (drop offset l) s) \<or>
     \<not> calm d \<and> (\<exists>e. r = Inl (io_err (lit ''read cas range'') p e)))"
  using assms
proof (induction "length l - offset" arbitrary: offset s d rule: less_induct)
  case less
  obtain r1 d1 where read: "vfs_read_at fs p offset SCAN_CHUNK_BYTES d = (r1, d1)" by fastforce
  show ?case
  proof (cases r1)
    case (Inl e)
    note err = read_at_err [OF less.prems(1) read [unfolded Inl]]
    then have "wf d1" "\<not> calm d" using less.prems(2) by (simp_all add: shaken_def)
    then show ?thesis
      by (subst lines_loop.simps) (auto simp: read Inl at_op_def)
  next
    case (Inr chunk)
    note ok = read_at_ok [OF less.prems(1) read [unfolded Inr]]
    have kept: "wf d1" "calm d \<longrightarrow> calm d1" "live d1 p = Some l"
      using kept_ok [OF conjunct1 [OF ok]] kept_live [OF conjunct1 [OF ok]] less.prems(2) by simp_all
    have chunk: "chunk = take SCAN_CHUNK_BYTES (drop offset l)" using ok less.prems(2) by simp
    define next_off where "next_off = offset + length chunk"
    have split: "drop offset l = chunk @ drop next_off l"
      using take_drop_taken [of "drop offset l" SCAN_CHUNK_BYTES] by (simp add: chunk next_off_def add.commute)
    show ?thesis
    proof (cases "scan_chunk lo hi chunk s")
      case (Inl found)
      then have "lines_loop fs p h lo hi offset s d = Some (Inr found, d1)"
        by (subst lines_loop.simps) (simp add: read Inr at_op_def)
      moreover have "lines_result h hi (scan_chunk lo hi (drop offset l) s) = Inr found"
        by (simp only: split lines_result_append Inl sum.case)
      ultimately show ?thesis using kept by simp
    next
      case scanned: (Inr s')
      have result: "lines_result h hi (scan_chunk lo hi (drop offset l) s) = lines_result h hi (scan_chunk lo hi (drop next_off l) s')"
        by (simp only: split lines_result_append scanned sum.case)
      show ?thesis
      proof (cases "length chunk < SCAN_CHUNK_BYTES")
        case True
        then have "drop next_off l = []" by (simp add: chunk next_off_def)
        moreover have "lines_loop fs p h lo hi offset s d = Some (scan_ended h hi s', d1)"
          by (subst lines_loop.simps) (simp add: read Inr at_op_def scanned True)
        ultimately show ?thesis using kept result by (simp add: lines_result_def)
      next
        case False
        then have len: "next_off \<le> length l" "length l - next_off < length l - offset"
          by (auto simp: next_off_def chunk SCAN_CHUNK_BYTES_def)
        have "lines_loop fs p h lo hi offset s d = lines_loop fs p h lo hi next_off s' d1"
          using False len(1) less.prems(3)
          by (subst lines_loop.simps) (simp add: read Inr at_op_def scanned sat_add_def next_off_def)
        then show ?thesis
          using less.hyps [OF len(2) kept(1,3) less.prems(3) len(1), of s'] kept(2) result by auto
      qed
    qed
  qed
qed

text \<open>A range of an object that is there.\<close>

lemma of_object_names:
  assumes "wf d" "live d p = Some l" "length l \<le> u64_max" "range_fits rg"
  shows "\<exists>r d'. of_object fs p h rg d = Some (r, d') \<and>
    (r = (case named_range rg l of None \<Rightarrow> Inl (out_of_bounds h) | Some v \<Rightarrow> Inr v) \<or>
     \<not> calm d \<and> (\<exists>e. r = Inl (io_err (lit ''read cas range'') p e)))"
proof (cases rg)
  case (Lines lo hi)
  show ?thesis
  proof (cases "lo = 0 \<or> hi < lo")
    case True
    then show ?thesis by (auto simp: Lines of_object_def lines_of_def named_range_def)
  next
    case False
    then have "lo \<noteq> 0" "lo \<le> hi" "hi \<le> u64_max" using assms(4) by (simp_all add: Lines range_fits_def)
    note named = scan_picks_named [OF this, of h l]
    show ?thesis
      using lines_loop_scans [OF assms(1-3), of 0 h lo hi "\<lparr>ls_line = 1, ls_started = False, ls_picked = []\<rparr>"] False
      by (auto simp: Lines of_object_def lines_of_def named [simplified])
  qed
next
  case (Bytes lo hi)
  obtain r1 d1 where read: "vfs_read_at fs p lo (hi - lo + 1) d = (r1, d1)" by fastforce
  show ?thesis
  proof (cases "hi < lo \<or> hi - lo + 1 > u64_max")
    case True
    then have "named_range rg l = None" using assms(3,4) by (auto simp: Bytes named_range_def range_fits_def)
    then show ?thesis using True by (auto simp: Bytes of_object_def bytes_of_def)
  next
    case False
    show ?thesis
    proof (cases r1)
      case (Inl e)
      then have "\<not> calm d" using read_at_err [OF assms(1) read [unfolded Inl]] assms(2) by simp
      then show ?thesis
        using False by (auto simp: Bytes of_object_def bytes_of_def read [simplified] Inl at_op_def step_then_def)
    next
      case (Inr bs)
      then have bs: "bs = take (hi - lo + 1) (drop lo l)"
        using read_at_ok [OF assms(1) read [unfolded Inr]] assms(2) by simp
      then have "length bs \<noteq> hi - lo + 1 \<longleftrightarrow> length l \<le> hi" using False by auto
      then have "of_object fs p h rg d =
          Some (case named_range rg l of None \<Rightarrow> Inl (out_of_bounds h) | Some v \<Rightarrow> Inr v, d1)"
        using False by (auto simp: Bytes of_object_def bytes_of_def read [simplified] Inr at_op_def step_then_def named_range_def bs)
      then show ?thesis by blast
    qed
  qed
qed

end

text \<open>C25. A range read of a stored object returns on any disk, and its answer is what the range names in the
  object: the bytes, or the lines joined by their newlines, with a range that is not all there refused;
  an object that is not there is reported missing, and any other answer is the failure of a read on a
  disk that was to lose power.\<close>

theorem range_reads_name_their_bytes:
  assumes "ff_wf (cs_disk st)" and "range_fits rg"
    and "\<forall>l. ff_live (cs_disk st) (snd (object_path dir h)) = Some l \<longrightarrow> length l \<le> u64_max"
  shows "\<exists>r st'. cas_get_range fault_fs dir h rg st = Some (r, st') \<and>
    (case ff_live (cs_disk st) (snd (object_path dir h)) of
       None \<Rightarrow> r = Inl (StCasMissing (show_hash h))
     | Some l \<Rightarrow> r = (case named_range rg l of None \<Rightarrow> Inl (RangeOutOfBounds (show_hash h)) | Some v \<Rightarrow> Inr v) \<or>
         \<not> ff_calm (cs_disk st) \<and> (\<exists>e. r = Inl (io_err (lit ''read cas range'') (snd (object_path dir h)) e)))"
proof (cases "ff_live (cs_disk st) (snd (object_path dir h))")
  case None
  then show ?thesis by (simp add: cas_get_range_def Let_def ff_exists_def ff_live_def)
next
  case (Some l)
  then have "ff_exists (snd (object_path dir h)) (cs_disk st)" by (auto simp: ff_exists_def ff_live_def)
  moreover obtain r d' where "of_object fault_fs (snd (object_path dir h)) h rg (cs_disk st) = Some (r, d')"
    "r = (case named_range rg l of None \<Rightarrow> Inl (out_of_bounds h) | Some v \<Rightarrow> Inr v) \<or>
     \<not> ff_calm (cs_disk st) \<and> (\<exists>e. r = Inl (io_err (lit ''read cas range'') (snd (object_path dir h)) e))"
    using ffr.of_object_names [OF assms(1) Some _ assms(2), of h] assms(3) Some by blast
  ultimately show ?thesis by (auto simp: cas_get_range_def Let_def Some out_of_bounds_def split: option.splits)
qed

text \<open>Two lines of three, cut out of an object on a disk that loses nothing.\<close>

definition three_lines :: "b3hash \<Rightarrow> fault_state cas" where
  "three_lines h = \<lparr>cs_disk = snd (ff_append (snd (object_path [] h)) [97, 10, 98, 10, 99]
     (fault_new \<lparr>cut_at_op = None, cut_on_write = None, plan_torn_tail = TornNone\<rparr>)), cs_puts_begun = 0\<rparr>"

lemma three_lines_disk:
  "ff_wf (cs_disk (three_lines h))" "ff_calm (cs_disk (three_lines h))"
  "ff_live (cs_disk (three_lines h)) (snd (object_path [] h)) = Some [97, 10, 98, 10, 99]"
  by (simp_all add: three_lines_def ff_append_def fault_new_def charge_write_def charge_def put_file_def ff_wf_def
      ff_calm_def ff_live_def file_or_new_def new_file_def bt_get_insert bt_empty_def bt_get_def bt_wf_def Let_def)

theorem range_reads_name_their_bytes_witness:
  "\<exists>st'. cas_get_range fault_fs [] (B3Hash (replicate 32 0)) (Lines 2 3) (three_lines (B3Hash (replicate 32 0))) =
     Some (Inr [98, 10, 99], st')"
proof -
  let ?h = "B3Hash (replicate 32 0)"
  have "\<forall>l. ff_live (cs_disk (three_lines ?h)) (snd (object_path [] ?h)) = Some l \<longrightarrow> length l \<le> u64_max"
    by (simp add: three_lines_disk u64_max_def)
  moreover have "range_fits (Lines 2 3)" by (simp add: range_fits_def u64_max_def)
  moreover have "named_range (Lines 2 3) [97, 10, 98, 10, 99] = Some [98, 10, 99]" by code_simp
  ultimately show ?thesis
    using range_reads_name_their_bytes [of "three_lines ?h" "Lines 2 3" "[]" ?h] three_lines_disk(1) [of ?h] three_lines_disk(2)
    by (auto simp: three_lines_disk(3))
qed

end
