(* ===== verification/Spec2Isabelle.thy ===== *)
theory Spec2Isabelle
  imports Gates DeskRuns LedgerRuns LedgerProofs AccountRounds MailRuns WorkshopRuns CasRuns CasRanges
begin

text \<open>
  A verification library for the core of sprawling-agents: the crates \<open>kernel\<close> (the rules), \<open>storage\<close>
  (what is kept on disk) and \<open>collab\<close> (what residents do together). File names below are relative to
  \<open>src/crates/\<close>.

  \<^bold>\<open>The program and its parts.\<close> A city is a directory tree in which agents work. Everything an agent wants
  to do passes a door of \<open>kernel::gate\<close>, which judges it by addresses, write domains, taint and restorations.
  What happened is appended to a hash-chained ledger of lines (\<open>storage::jsonl\<close>), whose bytes go through
  one filesystem seam (\<open>storage::vfs\<close>); larger contents go to a content-addressed store on the same seam
  (\<open>storage::cas\<close>). What is to be done is a table in \<open>Roadmap.md\<close> (\<open>kernel::spine\<close>), read as a tree
  of nodes with shares (\<open>kernel::plan\<close>), which a run edits through its desk (\<open>collab::claim_tool\<close>). Residents
  send each other signals, which wait in inboxes over bounded queues and are read at a run's signal desk
  (\<open>collab::signal_desk\<close>).

  \<^bold>\<open>Shared ground.\<close>
  \<^item> \<open>Prelude\<close>: results as sums, Rust's question mark, saturating arithmetic over \<open>nat\<close> with the bounds of the
    machine types, \<open>BTreeMap\<close> as a sorted association list. Locales \<open>ordered_map\<close> (interpreted as \<open>bt\<close>) and
    \<open>region_order\<close> (interpreted by \<open>is_within\<close>).
  \<^item> \<open>Text\<close>: strings as lists of scalar values with the standard library's functions on them.

  \<^bold>\<open>kernel: values and verdicts.\<close>
  \<^item> \<open>Errors\<close> (\<open>kernel/src/error/\<close>): the codes, their spellings, the error record and its builders. Every
    error a builder can make agrees with itself about retrying.
  \<^item> \<open>Addresses\<close> (\<open>address.rs\<close>), \<open>Locators\<close> (\<open>locator.rs\<close>): the parsers decide exactly the canonical
    texts, containment is containment of paths, and a locator prints and parses back.
  \<^item> \<open>WriteDomains\<close>, \<open>Taints\<close>, \<open>Tools\<close>, \<open>Discards\<close> (the files of these names): what may be written, where
    content came from, what a call is and what a deletion needs. A domain admits exactly what lies in it, and
    a derived value carries exactly the labels of what went into it. Locale \<open>provenance\<close>, interpreted by the taint sets.
  \<^item> \<open>Gates\<close> (\<open>gate/\<close>, \<open>delegation.rs\<close>): the ten doors as total functions to an outcome. Locales \<open>door\<close> and
    \<open>rule_door\<close> with an interpretation for every door: a refusal always says what was refused, why, and what
    to do. The doors agree with a decision table written from their inputs (\<open>door_rule\<close>), and only one asks a
    person.
  \<^item> \<open>AccountRounds\<close> (\<open>retries.rs\<close>, \<open>account_recovery.rs\<close>): the rounds over a provider's accounts, bounded by
    the ceiling and the number of accounts.
  \<^item> \<open>Payloads\<close>, \<open>Events\<close> (\<open>event/\<close>, \<open>completion.rs\<close>): admission of a payload by a walk with its own stack,
    equal to the recursive rule; evidence cites only recorded answers.

  \<^bold>\<open>kernel: the plan.\<close>
  \<^item> \<open>Shares\<close>, \<open>NodeIds\<close>, \<open>Budgets\<close>: a division loses nothing; the text operations on an index refine lists of
    numbers.
  \<^item> \<open>Spines\<close>, \<open>SpineReading\<close>, \<open>SpineWriting\<close> (\<open>spine/\<close>): the table's reader and its three writers. A drawn
    row reads back, and each writer changes the rows it says and no others, for locators without a column
    separator and items without a line feed; the writers do not check these, and the theory shows what
    becomes of the table otherwise.
  \<^item> \<open>Plans\<close>, \<open>PlanCircles\<close>, \<open>PlanTrees\<close> (\<open>plan.rs\<close>, \<open>plan/\<close>): which tables are plans, the search for
    circles, the division among the nodes, what is ready, claims and progress. The recursion of \<open>hand_out\<close>
    has the fuel \<open>DIVIDE_FUEL\<close>, one more than the deepest index \<open>NODE_DEPTH_MAX\<close>; the build is proved to
    return on every table of rows the reader can hand over.

  \<^bold>\<open>storage.\<close>
  \<^item> \<open>StorageErrors\<close>, \<open>FaultDisks\<close> (\<open>storage/src/error.rs\<close>, \<open>vfs.rs\<close>, \<open>fault_fs/\<close>): the seam as a record of
    functions over a state, and the adapter that loses power by plan, with the bytes a reader sees and those
    that survive.
  \<^item> \<open>DiskLaws\<close>, \<open>DiskReads\<close>, \<open>CasDisks\<close>: the locales \<open>disk_view\<close>, \<open>durable_disk\<close>, \<open>readable_disk\<close> and
    \<open>object_disk\<close> say what the clients rely on, whatever fails; each is interpreted by the power-loss adapter
    (\<open>ffv\<close>, \<open>ff\<close>, \<open>ffr\<close>, \<open>ffo\<close>), and the clients are proved inside them.
  \<^item> \<open>Ledgers\<close>, \<open>LedgerWriting\<close>, \<open>LedgerOpening\<close> (\<open>kernel/src/ledger.rs\<close>, \<open>storage/src/jsonl/\<close>,
    \<open>chain_audit.rs\<close>, \<open>verified_prefix.rs\<close>): the chain rule, the check of a line, the append of a wave with
    its barrier and restore, the windowed readers, and opening with the repair of a torn tail. The loops over
    the disk are partial functions whose value \<open>None\<close> is not returning; they are proved to return.
  \<^item> \<open>LedgerChains\<close>, \<open>LedgerWaves\<close>, \<open>LedgerHistory\<close>, \<open>LedgerScans\<close>, \<open>LedgerCalm\<close>, \<open>LedgerCrashes\<close>,
    \<open>LedgerReopening\<close>, \<open>LedgerRuns\<close>: what was answered survives power lost at any operation and is found
    again; on a disk that loses nothing a ledger always gets going again; the final chain state names its
    history. \<open>LineCodecs\<close> gives a codec that keeps the laws asked of JSON and blake3.
  \<^item> \<open>LedgerProofs\<close>: the proof of the chain that reuses the records of earlier proofs comes to the verdict of
    the full walk, and leaves honest records.
  \<^item> \<open>CasStores\<close>, \<open>CasWrites\<close>, \<open>CasRuns\<close>, \<open>CasRanges\<close> (\<open>storage/src/cas.rs\<close>, \<open>cas/ranges.rs\<close>): in any run of
    calls with power lost anywhere, no object is read corrupt and none that was acknowledged is missing; a
    range read answers what the range names in the object.

  \<^bold>\<open>collab.\<close>
  \<^item> \<open>ClaimDesks\<close>, \<open>DeskRuns\<close> (\<open>claim_tool.rs\<close>, \<open>claim_tool/tool.rs\<close>, \<open>claim_effect.rs\<close>): the desk, its seven
    actions, and the replay of its effects onto the file. After any run that passes locators and items the
    table can hold, the table is a plan, a held node is a leaf in progress and the effects say the desk's copy;
    a held node can always be put down.
  \<^item> \<open>Queues\<close> (\<open>kernel/src/idem.rs\<close>, \<open>backpressure.rs\<close>, \<open>storage/src/queue.rs\<close>), \<open>Inboxes\<close>, \<open>SignalCodecs\<close>,
    \<open>InboxRuns\<close> (\<open>inbox.rs\<close>, \<open>inbox/signal.rs\<close>): over any run of its operations an inbox refines a mailbox of
    three lists and a memory of keys, so that what is admitted within the window is handed out in order and
    once (locale \<open>front_line\<close>, interpreted by one queue and by the two lines together).
  \<^item> \<open>SignalDesks\<close>, \<open>MailMoves\<close>, \<open>MailRuns\<close> (\<open>signal_desk.rs\<close>, \<open>reply_wait.rs\<close>, \<open>steer.rs\<close>, \<open>signal_tool.rs\<close>):
    over any run of a desk nothing is doubled, a copy the lane still knows is not read again, and nothing is
    lost while the post accepts and the lines have room.
  \<^item> \<open>Workshops\<close>, \<open>WorkshopOrders\<close>, \<open>WorkshopRuns\<close> (\<open>delegate_tool.rs\<close>, \<open>workshop.rs\<close>,
    \<open>workshop/underway.rs\<close>, \<open>workshop_tool.rs\<close>, \<open>fanin.rs\<close>): work handed down as a graph. The schedule decides
    which lists of contracts are graphs without circles; a graph is handed down once, each node after what
    it depends on, and always goes on; a join is judged by somebody who can show the work.

  \<^bold>\<open>Arguments.\<close> Code that is not part of the repository is an argument of the definitions that call it: blake3,
  the JSON writer and reader of events and signals, the URL reader of the egress door, the booking and the
  pinner of the claim desk (the booking by its answer to one effect), the start check of the delegation desk, and the post of the signal desk, which is a function on a state of its own and may
  refuse. The laws used of them are hypotheses of the theorems: a line that was written reads back and holds no
  line feed, a digest has its width, two histories with one digest are equal where a theorem says a digest
  names a history. Each such theorem has a witness with concrete functions.

  \<^bold>\<open>What the code does that its comments do not say.\<close> Several theorems show a limit of the code:
  \<open>newline_item_truncates_plan\<close>, \<open>barred_evidence_breaks_the_table\<close>, \<open>repeated_need_hides_circle\<close>, \<open>shed_mail_is_dropped\<close>,
  \<open>refused_end_drops_reply\<close> and \<open>unsynced_object_is_acknowledged\<close>.

  \<^bold>\<open>Not modelled.\<close> The serde forms of records; the adapter over \<open>std::fs\<close>, the writer lock and the session slices
  of the ledger (the operating system, and a projection the ledger only informs); two calls running at once in
  one process, since every operation here is one step; the stores over git and sqlite; the configuration
  readers over TOML; \<open>runtime\<close>, \<open>accounting\<close>, \<open>gateway\<close>, \<open>wire\<close> and \<open>sprawling\<close>, which are asynchronous workers
  around models, sockets and processes and call the rules modelled here; \<open>browser\<close>, \<open>desktop\<close>, \<open>documents\<close>,
  \<open>agent_protocols\<close>, \<open>console_ffi\<close> and the development tools.
\<close>

end
